(* ===== verification/Prelude.thy ===== *)
theory Prelude
  imports Main "HOL-Library.Char_ord" "HOL-Library.List_Lexorder" "HOL-Library.Sublist"
begin

text \<open>
  Shared vocabulary of the development.

  A Rust \<^verbatim>\<open>String\<close>, \<^verbatim>\<open>&str\<close>, \<^verbatim>\<open>OsStr\<close> or \<^verbatim>\<open>PathBuf\<close> is the list of its bytes
  (\<open>str\<close>, a list of 8-bit \<open>char\<close>s); lengths and offsets count bytes, as they do in the source.
  Text that Rust keeps as valid UTF-8 satisfies \<open>utf8\<close> where a lemma needs it. Functions of the
  standard library that the source calls on strings are given here by their documented behaviour.

  A fallible function returns \<open>'e + 'a\<close>, with \<open>Inl\<close> for the error; \<open>try_bind\<close> is the
  question-mark operator. A \<^verbatim>\<open>usize\<close> or \<^verbatim>\<open>u64\<close> is a \<open>nat\<close> below \<open>2 ^ 64\<close>; saturating, checked and
  wrapping operations are written out.
\<close>

named_theorems text_simps "equations of the byte-string operations"
named_theorems result_simps "equations of the result combinators"

type_synonym str = "char list"

section \<open>Results\<close>

fun try_bind :: "'e + 'a \<Rightarrow> ('a \<Rightarrow> 'e + 'b) \<Rightarrow> 'e + 'b" where
  "try_bind (Inl e) f = Inl e"
| "try_bind (Inr x) f = f x"

fun map_err :: "('e \<Rightarrow> 'f) \<Rightarrow> 'e + 'a \<Rightarrow> 'f + 'a" where
  "map_err f (Inl e) = Inl (f e)"
| "map_err f (Inr x) = Inr x"

definition ok_or :: "'e \<Rightarrow> 'a option \<Rightarrow> 'e + 'a" where
  "ok_or e r = (case r of None \<Rightarrow> Inl e | Some x \<Rightarrow> Inr x)"

definition is_ok :: "'e + 'a \<Rightarrow> bool" where
  "is_ok r = (case r of Inl _ \<Rightarrow> False | Inr _ \<Rightarrow> True)"

lemma try_bind_Inr_iff [result_simps]:
  "try_bind r f = Inr y \<longleftrightarrow> (\<exists>x. r = Inr x \<and> f x = Inr y)"
  by (cases r) auto

lemma try_bind_Inl_iff [result_simps]:
  "try_bind r f = Inl e \<longleftrightarrow> r = Inl e \<or> (\<exists>x. r = Inr x \<and> f x = Inl e)"
  by (cases r) auto

lemma map_err_Inr_iff [result_simps]: "map_err f r = Inr y \<longleftrightarrow> r = Inr y"
  by (cases r) auto

lemma ok_or_Inr_iff [result_simps]: "ok_or e r = Inr x \<longleftrightarrow> r = Some x"
  by (cases r) (auto simp: ok_or_def)

lemma ok_or_Inl_iff [result_simps]: "ok_or e r = Inl d \<longleftrightarrow> r = None \<and> d = e"
  by (cases r) (auto simp: ok_or_def)

lemma ok_or_simps [simp]: "ok_or e None = Inl e" "ok_or e (Some x) = Inr x"
  by (simp_all add: ok_or_def)

lemma is_ok_simps [simp]: "is_ok (Inl e) = False" "is_ok (Inr x) = True"
  by (simp_all add: is_ok_def)

lemma in_set_map_filter: "y \<in> set (List.map_filter f xs) \<longleftrightarrow> (\<exists>x \<in> set xs. f x = Some y)"
  by (force simp: List.map_filter_def)

section \<open>Machine integers\<close>

definition usize_max :: nat where
  "usize_max = 2 ^ 64 - 1"

lemma usize_max_code [code]: "usize_max = 18446744073709551615"
  by (simp add: usize_max_def)

definition sat_add :: "nat \<Rightarrow> nat \<Rightarrow> nat" where
  "sat_add a b = min (a + b) usize_max"

definition sat_mul :: "nat \<Rightarrow> nat \<Rightarrow> nat" where
  "sat_mul a b = min (a * b) usize_max"

definition checked_add :: "nat \<Rightarrow> nat \<Rightarrow> nat option" where
  "checked_add a b = (if a + b \<le> usize_max then Some (a + b) else None)"

definition checked_sub :: "nat \<Rightarrow> nat \<Rightarrow> nat option" where
  "checked_sub a b = (if b \<le> a then Some (a - b) else None)"

text \<open>The release build wraps on overflow and underflow.\<close>

definition wrap_add :: "nat \<Rightarrow> nat \<Rightarrow> nat" where
  "wrap_add a b = (a + b) mod 2 ^ 64"

definition wrap_sub :: "nat \<Rightarrow> nat \<Rightarrow> nat" where
  "wrap_sub a b = (if b \<le> a then a - b else a + 2 ^ 64 - b)"

lemma wrap_code [code]:
  "wrap_add a b = (a + b) mod 18446744073709551616"
  "wrap_sub a b = (if b \<le> a then a - b else a + 18446744073709551616 - b)"
  by (simp_all add: wrap_add_def wrap_sub_def)

lemma wrap_sub_exact [simp]: "b \<le> a \<Longrightarrow> wrap_sub a b = a - b"
  by (simp add: wrap_sub_def)

lemma wrap_add_exact [simp]: "a + b < 2 ^ 64 \<Longrightarrow> wrap_add a b = a + b"
  by (simp add: wrap_add_def)

lemma checked_add_Some_iff: "checked_add a b = Some c \<longleftrightarrow> c = a + b \<and> a + b \<le> usize_max"
  by (auto simp: checked_add_def)

lemma checked_sub_Some_iff: "checked_sub a b = Some c \<longleftrightarrow> c = a - b \<and> b \<le> a"
  by (auto simp: checked_sub_def)

lemma sat_add_le: "sat_add a b \<le> a + b"
  by (simp add: sat_add_def)

lemma sat_add_below: "sat_add a b \<le> m \<Longrightarrow> m < usize_max \<Longrightarrow> a + b \<le> m"
  by (auto simp: sat_add_def min_def split: if_splits)

section \<open>Bytes and UTF-8\<close>

definition byte :: "char \<Rightarrow> nat" where
  "byte c = of_char c"

definition is_cont :: "char \<Rightarrow> bool" where
  "is_cont c \<longleftrightarrow> 128 \<le> byte c \<and> byte c < 192"

text \<open>Length of the encoded character a lead byte starts.\<close>

definition char_len :: "char \<Rightarrow> nat" where
  "char_len c = (if byte c < 128 then 1 else if byte c < 224 then 2 else if byte c < 240 then 3 else 4)"

lemma char_len_pos [simp]: "0 < char_len c"
  by (simp add: char_len_def)

lemma char_len_neq_0 [simp]: "char_len c \<noteq> 0"
  by (simp add: char_len_def)

text \<open>Well-formed UTF-8, character by character: no overlong form, no surrogate, at most U+10FFFF.\<close>

definition cont_byte :: "nat \<Rightarrow> bool" where
  "cont_byte b \<longleftrightarrow> 0x80 \<le> b \<and> b \<le> 0xBF"

definition valid_char :: "str \<Rightarrow> bool" where
  "valid_char u =
     (case map byte u of
        [a] \<Rightarrow> a < 0x80
      | [a, b] \<Rightarrow> 0xC2 \<le> a \<and> a \<le> 0xDF \<and> cont_byte b
      | [a, b, c] \<Rightarrow>
          (a = 0xE0 \<and> 0xA0 \<le> b \<and> b \<le> 0xBF
           \<or> (0xE1 \<le> a \<and> a \<le> 0xEC \<or> a = 0xEE \<or> a = 0xEF) \<and> cont_byte b
           \<or> a = 0xED \<and> 0x80 \<le> b \<and> b \<le> 0x9F) \<and> cont_byte c
      | [a, b, c, d] \<Rightarrow>
          (a = 0xF0 \<and> 0x90 \<le> b \<and> b \<le> 0xBF
           \<or> 0xF1 \<le> a \<and> a \<le> 0xF3 \<and> cont_byte b
           \<or> a = 0xF4 \<and> 0x80 \<le> b \<and> b \<le> 0x8F) \<and> cont_byte c \<and> cont_byte d
      | _ \<Rightarrow> False)"

function utf8 :: "str \<Rightarrow> bool" where
  "utf8 [] = True"
| "utf8 (c # cs) =
     (valid_char (take (char_len c) (c # cs)) \<and> utf8 (drop (char_len c) (c # cs)))"
  by pat_completeness auto
termination
  by (relation "measure length") auto

lemma valid_char_shape:
  assumes "valid_char u"
  shows "u \<noteq> []" and "length u = char_len (hd u)" and "\<not> is_cont (hd u)"
    and "\<forall>d \<in> set (tl u). is_cont d"
  using assms
  by (auto simp: valid_char_def char_len_def is_cont_def cont_byte_def Cons_eq_map_conv
      split: list.splits)

lemma utf8_Cons:
  assumes "utf8 (c # cs)"
  shows "\<not> is_cont c" and "char_len c \<le> Suc (length cs)"
    and "\<forall>d \<in> set (take (char_len c - 1) cs). is_cont d"
    and "utf8 (drop (char_len c - 1) cs)"
proof -
  obtain k where k: "char_len c = Suc k" by (cases "char_len c") auto
  have v: "valid_char (c # take k cs)" and u: "utf8 (drop k cs)" using assms k by auto
  note s = valid_char_shape [OF v]
  from s(3) show "\<not> is_cont c" by simp
  from s(2) k have "length (take k cs) = k" by simp
  with k show "char_len c \<le> Suc (length cs)" by simp
  from s(4) k show "\<forall>d \<in> set (take (char_len c - 1) cs). is_cont d" by simp
  from u k show "utf8 (drop (char_len c - 1) cs)" by simp
qed

text \<open>\<^verbatim>\<open>OsStr::to_str\<close>.\<close>

definition to_str :: "str \<Rightarrow> str option" where
  "to_str s = (if utf8 s then Some s else None)"

text \<open>\<^verbatim>\<open>str::is_char_boundary\<close>.\<close>

definition is_boundary :: "str \<Rightarrow> nat \<Rightarrow> bool" where
  "is_boundary s i \<longleftrightarrow> i = 0 \<or> i = length s \<or> (i < length s \<and> \<not> is_cont (s ! i))"

text \<open>\<^verbatim>\<open>str::floor_char_boundary\<close> and \<^verbatim>\<open>str::ceil_char_boundary\<close>.\<close>

fun floor_search :: "str \<Rightarrow> nat \<Rightarrow> nat" where
  "floor_search s 0 = 0"
| "floor_search s (Suc i) = (if is_boundary s (Suc i) then Suc i else floor_search s i)"

definition floor_boundary :: "str \<Rightarrow> nat \<Rightarrow> nat" where
  "floor_boundary s i = (if length s \<le> i then length s else floor_search s i)"

function ceil_search :: "str \<Rightarrow> nat \<Rightarrow> nat" where
  "ceil_search s i =
     (if length s \<le> i then length s else if is_boundary s i then i else ceil_search s (Suc i))"
  by pat_completeness auto
termination
  by (relation "measure (\<lambda>(s, i). length s - i)") auto

declare ceil_search.simps [simp del]

definition ceil_boundary :: "str \<Rightarrow> nat \<Rightarrow> nat" where
  "ceil_boundary s i = ceil_search s i"

text \<open>\<^verbatim>\<open>&s[a..b]\<close>; the callers establish \<open>a \<le> b \<le> length s\<close> and both ends on boundaries.\<close>

definition slice :: "str \<Rightarrow> nat \<Rightarrow> nat \<Rightarrow> str" where
  "slice s a b = take (b - a) (drop a s)"

text \<open>\<^verbatim>\<open>str::chars\<close> as the list of the encoded characters.\<close>

function chars :: "str \<Rightarrow> str list" where
  "chars [] = []"
| "chars (c # cs) = (c # take (char_len c - 1) cs) # chars (drop (char_len c - 1) cs)"
  by pat_completeness auto
termination
  by (relation "measure length") auto

lemma slice_simps [text_simps]:
  "slice s a a = []"
  "slice s 0 (length s) = s"
  "slice s 0 n = take n s"
  "slice s n (length s) = drop n s"
  by (simp_all add: slice_def)

lemma length_slice [simp]: "b \<le> length s \<Longrightarrow> length (slice s a b) = b - a"
  by (auto simp: slice_def)

lemma slice_append: "a \<le> b \<Longrightarrow> b \<le> c \<Longrightarrow> slice s a b @ slice s b c = slice s a c"
proof -
  assume "a \<le> b" "b \<le> c"
  then have c: "c - a = (b - a) + (c - b)" and d: "drop b s = drop (b - a) (drop a s)"
    by simp_all
  show ?thesis
    unfolding slice_def c d by (simp add: take_add)
qed

lemma concat_chars: "concat (chars s) = s"
  by (induction s rule: chars.induct) auto

lemma is_boundary_0 [simp]: "is_boundary s 0"
  by (simp add: is_boundary_def)

lemma is_boundary_length [simp]: "is_boundary s (length s)"
  by (simp add: is_boundary_def)

lemma is_boundary_le: "is_boundary s i \<Longrightarrow> i \<le> length s"
  by (auto simp: is_boundary_def)

lemma floor_search_le: "floor_search s i \<le> i"
  by (induction s i rule: floor_search.induct) auto

lemma floor_search_boundary: "is_boundary s (floor_search s i)"
  by (induction s i rule: floor_search.induct) auto

lemma floor_search_max: "is_boundary s j \<Longrightarrow> j \<le> i \<Longrightarrow> j \<le> floor_search s i"
  by (induction s i rule: floor_search.induct) (auto simp: le_Suc_eq)

lemma floor_boundary_le: "floor_boundary s i \<le> i"
  by (simp add: floor_boundary_def floor_search_le)

lemma floor_boundary_le_length: "floor_boundary s i \<le> length s"
  using floor_search_le [of s i] by (simp add: floor_boundary_def)

lemma floor_boundary_boundary [simp]: "is_boundary s (floor_boundary s i)"
  by (simp add: floor_boundary_def floor_search_boundary)

lemma floor_boundary_max: "is_boundary s j \<Longrightarrow> j \<le> i \<Longrightarrow> j \<le> floor_boundary s i"
  by (auto simp: floor_boundary_def floor_search_max is_boundary_le)

lemma floor_boundary_id: "is_boundary s i \<Longrightarrow> floor_boundary s i = i"
  using floor_boundary_le [of s i] floor_boundary_max [of s i i] by simp

lemma ceil_boundary_boundary [simp]: "is_boundary s (ceil_boundary s i)"
  unfolding ceil_boundary_def
proof (induction s i rule: ceil_search.induct)
  case (1 s i)
  then show ?case by (subst ceil_search.simps) auto
qed

lemma ceil_boundary_ge: "i \<le> length s \<Longrightarrow> i \<le> ceil_boundary s i"
  unfolding ceil_boundary_def
proof (induction s i rule: ceil_search.induct)
  case (1 s i)
  then show ?case
    by (subst ceil_search.simps) (auto dest: Suc_leD)
qed

lemma ceil_boundary_min: "is_boundary s j \<Longrightarrow> i \<le> j \<Longrightarrow> ceil_boundary s i \<le> j"
  unfolding ceil_boundary_def
proof (induction s i rule: ceil_search.induct)
  case (1 s i)
  show ?case
  proof (cases "length s \<le> i \<or> is_boundary s i")
    case True
    with "1.prems" show ?thesis
      by (subst ceil_search.simps) (auto dest: is_boundary_le)
  next
    case False
    with "1.prems" have "Suc i \<le> j" by (metis le_eq_less_or_eq Suc_leI)
    with False "1.IH" "1.prems" show ?thesis
      by (subst ceil_search.simps) auto
  qed
qed

end
