(* ===== verification/Text.thy ===== *)
theory Text
  imports Prelude
begin

text \<open>
  The string functions of the Rust standard library that the modelled code calls, on byte strings:
  splitting, joining, searching, trimming (with the Unicode \<^verbatim>\<open>White_Space\<close> characters in their
  UTF-8 encoding), line iteration, ASCII case folding and decimal printing. The lemmas are the
  laws the components use: \<open>split_on\<close> and \<open>join_with\<close> are inverse, splitting distributes over a
  separator, prefixes and suffixes decompose, and every search returns the position it promises.
\<close>

section \<open>Splitting and joining\<close>

fun split_on :: "(char \<Rightarrow> bool) \<Rightarrow> str \<Rightarrow> str list" where
  "split_on p [] = [[]]"
| "split_on p (c # cs) =
     (if p c then [] # split_on p cs
      else (case split_on p cs of [] \<Rightarrow> [[c]] | w # ws \<Rightarrow> (c # w) # ws))"

fun join_with :: "str \<Rightarrow> str list \<Rightarrow> str" where
  "join_with sep [] = []"
| "join_with sep [w] = w"
| "join_with sep (w # v # ws) = w @ sep @ join_with sep (v # ws)"

definition replace_char :: "char \<Rightarrow> char \<Rightarrow> str \<Rightarrow> str" where
  "replace_char a b s = map (\<lambda>c. if c = a then b else c) s"

lemma split_on_nonempty [simp]: "split_on p s \<noteq> []"
  by (induction s) (auto split: list.splits)

lemma split_on_free: "w \<in> set (split_on p s) \<Longrightarrow> c \<in> set w \<Longrightarrow> \<not> p c"
proof (induction s arbitrary: w)
  case (Cons d ds)
  show ?case
  proof (cases "split_on p ds")
    case (Cons v vs)
    with Cons.prems Cons.IH [of v] Cons.IH [of w] show ?thesis
      by (auto split: if_splits)
  qed simp
qed simp

lemma split_on_chars: "w \<in> set (split_on p s) \<Longrightarrow> set w \<subseteq> set s"
proof (induction s arbitrary: w)
  case (Cons c cs)
  show ?case
  proof (cases "split_on p cs")
    case (Cons v vs)
    with Cons.prems Cons.IH [of v] Cons.IH [of w] show ?thesis
      by (auto split: if_splits)
  qed simp
qed simp

lemma split_on_append: "p c \<Longrightarrow> split_on p (xs @ c # ys) = split_on p xs @ split_on p ys"
  by (induction xs) (auto split: list.splits)

lemma split_on_id: "(\<forall>c \<in> set w. \<not> p c) \<Longrightarrow> split_on p w = [w]"
  by (induction w) auto

lemma split_on_none: "c \<notin> set w \<Longrightarrow> split_on (\<lambda>x. x = c) w = [w]"
  by (rule split_on_id) auto

lemma join_with_Cons: "ws \<noteq> [] \<Longrightarrow> join_with sep (w # ws) = w @ sep @ join_with sep ws"
  by (cases ws) auto

lemma join_split: "join_with [c] (split_on (\<lambda>x. x = c) s) = s"
proof (induction s)
  case (Cons d ds)
  show ?case
  proof (cases "split_on (\<lambda>x. x = c) ds")
    case (Cons v vs)
    with Cons.IH show ?thesis
      by (cases vs) (auto simp: join_with_Cons)
  qed simp
qed simp

lemma split_join:
  "ws \<noteq> [] \<Longrightarrow> (\<forall>w \<in> set ws. c \<notin> set w) \<Longrightarrow> split_on (\<lambda>x. x = c) (join_with [c] ws) = ws"
proof (induction ws)
  case (Cons w ws)
  have w: "split_on (\<lambda>x. x = c) w = [w]"
    using Cons.prems by (intro split_on_id) auto
  show ?case
  proof (cases "ws = []")
    case True
    with w show ?thesis by simp
  next
    case False
    with Cons w show ?thesis
      by (simp add: join_with_Cons split_on_append)
  qed
qed simp

lemma set_join_with: "set (join_with sep ws) \<subseteq> set sep \<union> (\<Union>w \<in> set ws. set w)"
  by (induction sep ws rule: join_with.induct) auto

lemma join_with_append:
  "us \<noteq> [] \<Longrightarrow> vs \<noteq> [] \<Longrightarrow> join_with sep (us @ vs) = join_with sep us @ sep @ join_with sep vs"
proof (induction us)
  case (Cons u us)
  then show ?case by (cases "us = []") (simp_all add: join_with_Cons)
qed simp

lemma set_replace_char: "c \<in> set (replace_char a b s) \<Longrightarrow> c = b \<or> c \<in> set s \<and> c \<noteq> a"
  by (auto simp: replace_char_def split: if_splits)

lemma replace_char_id: "a \<notin> set s \<Longrightarrow> replace_char a b s = s"
  by (induction s) (auto simp: replace_char_def)

lemma length_replace_char [simp]: "length (replace_char a b s) = length s"
  by (simp add: replace_char_def)

section \<open>Prefixes, suffixes and searches\<close>

definition starts_with :: "str \<Rightarrow> str \<Rightarrow> bool" where
  "starts_with s p \<longleftrightarrow> take (length p) s = p"

definition ends_with :: "str \<Rightarrow> str \<Rightarrow> bool" where
  "ends_with s p \<longleftrightarrow> length p \<le> length s \<and> drop (length s - length p) s = p"

definition strip_prefix :: "str \<Rightarrow> str \<Rightarrow> str option" where
  "strip_prefix p s = (if starts_with s p then Some (drop (length p) s) else None)"

definition strip_suffix :: "str \<Rightarrow> str \<Rightarrow> str option" where
  "strip_suffix p s = (if ends_with s p then Some (take (length s - length p) s) else None)"

fun find_byte :: "(char \<Rightarrow> bool) \<Rightarrow> str \<Rightarrow> nat option" where
  "find_byte p [] = None"
| "find_byte p (c # cs) = (if p c then Some 0 else map_option Suc (find_byte p cs))"

definition rfind_byte :: "(char \<Rightarrow> bool) \<Rightarrow> str \<Rightarrow> nat option" where
  "rfind_byte p s = map_option (\<lambda>i. length s - Suc i) (find_byte p (rev s))"

fun find_str :: "str \<Rightarrow> str \<Rightarrow> nat option" where
  "find_str p [] = (if p = [] then Some 0 else None)"
| "find_str p (c # cs) = (if starts_with (c # cs) p then Some 0 else map_option Suc (find_str p cs))"

definition contains_str :: "str \<Rightarrow> str \<Rightarrow> bool" where
  "contains_str s p \<longleftrightarrow> find_str p s \<noteq> None"

definition split_once :: "char \<Rightarrow> str \<Rightarrow> (str \<times> str) option" where
  "split_once c s = map_option (\<lambda>i. (take i s, drop (Suc i) s)) (find_byte (\<lambda>x. x = c) s)"

definition rsplit_once :: "char \<Rightarrow> str \<Rightarrow> (str \<times> str) option" where
  "rsplit_once c s = map_option (\<lambda>i. (take i s, drop (Suc i) s)) (rfind_byte (\<lambda>x. x = c) s)"

lemma starts_with_iff: "starts_with s p \<longleftrightarrow> (\<exists>r. s = p @ r)"
  by (auto simp: starts_with_def) (metis append_take_drop_id)

lemma starts_with_append [simp]: "starts_with (p @ r) p"
  by (simp add: starts_with_def)

lemma ends_with_iff: "ends_with s p \<longleftrightarrow> (\<exists>r. s = r @ p)"
proof
  assume "ends_with s p"
  then have "s = take (length s - length p) s @ p"
    unfolding ends_with_def by (metis append_take_drop_id)
  then show "\<exists>r. s = r @ p" ..
qed (auto simp: ends_with_def)

lemma strip_prefix_Some_iff: "strip_prefix p s = Some r \<longleftrightarrow> s = p @ r"
  by (auto simp: strip_prefix_def starts_with_iff)

lemma strip_suffix_Some_iff: "strip_suffix p s = Some r \<longleftrightarrow> s = r @ p"
  by (auto simp: strip_suffix_def ends_with_iff)

lemma strip_prefix_append [simp]: "strip_prefix p (p @ r) = Some r"
  by (simp add: strip_prefix_Some_iff)

lemma find_byte_Some_iff:
  "find_byte p s = Some i \<longleftrightarrow> i < length s \<and> p (s ! i) \<and> (\<forall>j < i. \<not> p (s ! j))"
proof (induction s arbitrary: i)
  case (Cons c cs)
  show ?case
  proof (cases i)
    case 0
    then show ?thesis by (auto simp: Cons)
  next
    case (Suc k)
    then show ?thesis
      by (auto simp: Cons less_Suc_eq_0_disj)
  qed
qed simp

lemma find_byte_None_iff: "find_byte p s = None \<longleftrightarrow> (\<forall>c \<in> set s. \<not> p c)"
  by (induction s) auto

lemma find_byte_append:
  "(\<forall>c \<in> set xs. \<not> p c) \<Longrightarrow> find_byte p (xs @ ys) = map_option ((+) (length xs)) (find_byte p ys)"
  by (induction xs) (cases "find_byte p ys"; simp)+

lemma find_byte_split:
  assumes "find_byte p s = Some i"
  shows "s = take i s @ s ! i # drop (Suc i) s" and "i < length s" and "p (s ! i)"
    and "\<forall>c \<in> set (take i s). \<not> p c"
  using assms
  by (auto simp: find_byte_Some_iff id_take_nth_drop in_set_conv_nth)

lemma rfind_byte_Some:
  assumes "rfind_byte p s = Some i"
  shows "i < length s" and "p (s ! i)" and "\<forall>j. i < j \<and> j < length s \<longrightarrow> \<not> p (s ! j)"
proof -
  from assms obtain k where k: "find_byte p (rev s) = Some k" and i: "i = length s - Suc k"
    by (auto simp: rfind_byte_def)
  from k have kl: "k < length s" and pk: "p (rev s ! k)" and nk: "\<forall>j<k. \<not> p (rev s ! j)"
    by (auto simp: find_byte_Some_iff)
  from kl i show "i < length s" by simp
  from kl pk i show "p (s ! i)" by (simp add: rev_nth)
  show "\<forall>j. i < j \<and> j < length s \<longrightarrow> \<not> p (s ! j)"
  proof (intro allI impI)
    fix j assume j: "i < j \<and> j < length s"
    then have "length s - Suc j < k" using i kl by linarith
    with nk have n: "\<not> p (rev s ! (length s - Suc j))" by blast
    from j have "length s - Suc (length s - Suc j) = j" "length s - Suc j < length s" by linarith+
    then have "rev s ! (length s - Suc j) = s ! j" by (simp add: rev_nth)
    with n show "\<not> p (s ! j)" by simp
  qed
qed

lemma rfind_byte_None_iff: "rfind_byte p s = None \<longleftrightarrow> (\<forall>c \<in> set s. \<not> p c)"
  by (simp add: rfind_byte_def find_byte_None_iff)

lemma split_once_Some:
  "split_once c s = Some (a, b) \<longleftrightarrow> s = a @ c # b \<and> c \<notin> set a"
proof
  assume "split_once c s = Some (a, b)"
  then obtain i where i: "find_byte (\<lambda>x. x = c) s = Some i" and ab: "a = take i s" "b = drop (Suc i) s"
    by (auto simp: split_once_def)
  from find_byte_split [OF i] ab show "s = a @ c # b \<and> c \<notin> set a" by auto
next
  assume s: "s = a @ c # b \<and> c \<notin> set a"
  then have "find_byte (\<lambda>x. x = c) s = Some (length a)"
    by (auto simp: find_byte_Some_iff nth_append)
  with s show "split_once c s = Some (a, b)"
    by (simp add: split_once_def)
qed

lemma split_once_None: "split_once c s = None \<longleftrightarrow> c \<notin> set s"
  by (auto simp: split_once_def find_byte_None_iff)

lemma rsplit_once_Some: "rsplit_once c s = Some (a, b) \<Longrightarrow> s = a @ c # b \<and> c \<notin> set b"
proof -
  assume "rsplit_once c s = Some (a, b)"
  then obtain i where i: "rfind_byte (\<lambda>x. x = c) s = Some i" and ab: "a = take i s" "b = drop (Suc i) s"
    by (auto simp: rsplit_once_def)
  note r = rfind_byte_Some [OF i]
  have "c \<notin> set b"
    using r(3) by (auto simp: ab in_set_conv_nth)
  moreover have "s = a @ c # b"
    using r(1,2) ab by (metis id_take_nth_drop)
  ultimately show ?thesis by simp
qed

lemma rsplit_once_None: "rsplit_once c s = None \<longleftrightarrow> c \<notin> set s"
  by (auto simp: rsplit_once_def rfind_byte_None_iff)

lemma rsplit_once_append: "c \<notin> set b \<Longrightarrow> rsplit_once c (a @ c # b) = Some (a, b)"
proof -
  assume c: "c \<notin> set b"
  have "find_byte (\<lambda>x. x = c) (rev b @ c # rev a) = Some (length b)"
    using c by (auto simp: find_byte_Some_iff nth_append in_set_conv_nth rev_nth)
  then show ?thesis
    by (simp add: rsplit_once_def rfind_byte_def)
qed

lemma find_str_Some:
  "find_str p s = Some i \<Longrightarrow> i + length p \<le> length s \<and> s = take i s @ p @ drop (i + length p) s"
proof (induction s arbitrary: i)
  case (Cons c cs)
  show ?case
  proof (cases "starts_with (c # cs) p")
    case True
    then obtain r where r: "c # cs = p @ r" by (auto simp: starts_with_iff)
    from Cons.prems True have "i = 0" by simp
    then show ?thesis unfolding r by simp
  next
    case False
    with Cons.prems obtain k where "find_str p cs = Some k" "i = Suc k" by auto
    with Cons.IH [of k] show ?thesis by simp
  qed
qed (auto split: if_splits)

section \<open>Lines\<close>

text \<open>
  \<^verbatim>\<open>str::lines\<close>: split at line feeds; a line that ends with a line feed loses one carriage return
  before it, a last line without one keeps its text, and an empty last line is none.
\<close>

definition strip_cr :: "str \<Rightarrow> str" where
  "strip_cr l = (if l \<noteq> [] \<and> last l = CHR 0x0D then butlast l else l)"

definition lines :: "str \<Rightarrow> str list" where
  "lines s =
     (let parts = split_on (\<lambda>c. c = CHR 0x0A) s
      in map strip_cr (butlast parts) @ (if last parts = [] then [] else [last parts]))"

text \<open>\<^verbatim>\<open>trim_end_matches\<close> and \<^verbatim>\<open>trim_start_matches\<close> with one ASCII character.\<close>

definition trim_end_char :: "char \<Rightarrow> str \<Rightarrow> str" where
  "trim_end_char c s = rev (dropWhile (\<lambda>x. x = c) (rev s))"

lemma trim_end_char_split: "\<exists>n. s = trim_end_char c s @ replicate n c"
proof -
  have "rev s = takeWhile (\<lambda>x. x = c) (rev s) @ dropWhile (\<lambda>x. x = c) (rev s)" by simp
  then have "s = trim_end_char c s @ rev (takeWhile (\<lambda>x. x = c) (rev s))"
    unfolding trim_end_char_def by (metis rev_append rev_rev_ident)
  moreover have "rev (takeWhile (\<lambda>x. x = c) (rev s)) = replicate (length (takeWhile (\<lambda>x. x = c) (rev s))) c"
    by (metis (mono_tags, lifting) replicate_length_same rev_replicate set_takeWhileD)
  ultimately show ?thesis by metis
qed

lemma trim_end_char_last: "trim_end_char c s \<noteq> [] \<Longrightarrow> last (trim_end_char c s) \<noteq> c"
  unfolding trim_end_char_def
  by (metis (mono_tags, lifting) hd_dropWhile last_rev rev_is_Nil_conv rev_rev_ident)

lemma trim_end_char_length: "length (trim_end_char c s) \<le> length s"
  unfolding trim_end_char_def by (metis length_dropWhile_le length_rev)

section \<open>White space\<close>

text \<open>Unicode \<^verbatim>\<open>White_Space\<close>, on an encoded character.\<close>

definition is_ws_char :: "str \<Rightarrow> bool" where
  "is_ws_char u =
     (case map byte u of
        [a] \<Rightarrow> 9 \<le> a \<and> a \<le> 13 \<or> a = 32
      | [a, b] \<Rightarrow> a = 0xC2 \<and> (b = 0x85 \<or> b = 0xA0)
      | [a, b, c] \<Rightarrow>
          a = 0xE1 \<and> b = 0x9A \<and> c = 0x80
          \<or> a = 0xE2 \<and> b = 0x80 \<and> (0x80 \<le> c \<and> c \<le> 0x8A \<or> c = 0xA8 \<or> c = 0xA9 \<or> c = 0xAF)
          \<or> a = 0xE2 \<and> b = 0x81 \<and> c = 0x9F
          \<or> a = 0xE3 \<and> b = 0x80 \<and> c = 0x80
      | _ \<Rightarrow> False)"

definition first_char :: "str \<Rightarrow> str" where
  "first_char s = (case s of [] \<Rightarrow> [] | c # cs \<Rightarrow> take (char_len c) s)"

function trim_start :: "str \<Rightarrow> str" where
  "trim_start [] = []"
| "trim_start (c # cs) =
     (if is_ws_char (first_char (c # cs)) then trim_start (drop (char_len c) (c # cs)) else c # cs)"
  by pat_completeness auto
termination
  by (relation "measure length") auto

text \<open>Length in bytes of the white-space character a string ends with, 0 for none.\<close>

definition ws_end_len :: "str \<Rightarrow> nat" where
  "ws_end_len s =
     (if s = [] then 0
      else if is_ws_char (drop (length s - 1) s) then 1
      else if 2 \<le> length s \<and> is_ws_char (drop (length s - 2) s) then 2
      else if 3 \<le> length s \<and> is_ws_char (drop (length s - 3) s) then 3
      else 0)"

function trim_end :: "str \<Rightarrow> str" where
  "trim_end s = (if ws_end_len s = 0 then s else trim_end (take (length s - ws_end_len s) s))"
  by pat_completeness auto
termination
  by (relation "measure length") (auto simp: ws_end_len_def split: if_splits)

declare trim_end.simps [simp del]

definition trim :: "str \<Rightarrow> str" where
  "trim s = trim_end (trim_start s)"

lemma trim_start_suffix: "\<exists>p. s = p @ trim_start s"
proof (induction s rule: trim_start.induct)
  case (2 c cs)
  show ?case
  proof (cases "is_ws_char (first_char (c # cs))")
    case True
    with "2.IH" obtain p where "drop (char_len c) (c # cs) = p @ trim_start (drop (char_len c) (c # cs))"
      by blast
    then have "c # cs = (take (char_len c) (c # cs) @ p) @ trim_start (drop (char_len c) (c # cs))"
      by (metis append.assoc append_take_drop_id)
    with True show ?thesis by (metis trim_start.simps(2))
  next
    case False
    then show ?thesis by (intro exI [of _ "[]"]) simp
  qed
qed simp

lemma trim_end_prefix: "\<exists>q. s = trim_end s @ q"
proof (induction s rule: trim_end.induct)
  case (1 s)
  show ?case
  proof (cases "ws_end_len s = 0")
    case True
    then show ?thesis by (simp add: trim_end.simps [of s])
  next
    case False
    let ?t = "take (length s - ws_end_len s) s"
    from False "1.IH" obtain q where "?t = trim_end ?t @ q" by blast
    then have "s = trim_end ?t @ (q @ drop (length s - ws_end_len s) s)"
      by (metis append.assoc append_take_drop_id)
    with False show ?thesis by (metis trim_end.simps)
  qed
qed

lemma set_trim: "set (trim s) \<subseteq> set s"
proof -
  obtain p where "s = p @ trim_start s" using trim_start_suffix by blast
  moreover obtain q where "trim_start s = trim_end (trim_start s) @ q" using trim_end_prefix by blast
  ultimately show ?thesis unfolding trim_def by (metis Un_upper1 Un_upper2 order_trans set_append)
qed

section \<open>Control characters, ASCII case and decimal numerals\<close>

text \<open>\<^verbatim>\<open>char::is_control\<close>: the code points 0 to 31 and 127 to 159.\<close>

definition is_control_char :: "str \<Rightarrow> bool" where
  "is_control_char u =
     (case map byte u of
        [a] \<Rightarrow> a < 32 \<or> a = 127
      | [a, b] \<Rightarrow> a = 0xC2 \<and> 0x80 \<le> b \<and> b \<le> 0x9F
      | _ \<Rightarrow> False)"

definition has_control :: "str \<Rightarrow> bool" where
  "has_control s \<longleftrightarrow> list_ex is_control_char (chars s)"

definition ascii_lower :: "char \<Rightarrow> char" where
  "ascii_lower c = (if 65 \<le> byte c \<and> byte c \<le> 90 then char_of (byte c + 32) else c)"

definition to_ascii_lowercase :: "str \<Rightarrow> str" where
  "to_ascii_lowercase s = map ascii_lower s"

definition eq_ignore_ascii_case :: "str \<Rightarrow> str \<Rightarrow> bool" where
  "eq_ignore_ascii_case s t \<longleftrightarrow> to_ascii_lowercase s = to_ascii_lowercase t"

definition is_ascii_alphanumeric :: "char \<Rightarrow> bool" where
  "is_ascii_alphanumeric c \<longleftrightarrow>
     48 \<le> byte c \<and> byte c \<le> 57 \<or> 65 \<le> byte c \<and> byte c \<le> 90 \<or> 97 \<le> byte c \<and> byte c \<le> 122"

fun dec_string :: "nat \<Rightarrow> str" where
  "dec_string n =
     (if n < 10 then [char_of (48 + n)] else dec_string (n div 10) @ [char_of (48 + n mod 10)])"

declare dec_string.simps [simp del]

section \<open>UTF-8 texts and ASCII separators\<close>

lemma utf8_append: "utf8 xs \<Longrightarrow> utf8 (xs @ ys) = utf8 ys"
proof (induction xs rule: utf8.induct)
  case (2 c cs)
  then have "char_len c \<le> Suc (length cs)" using utf8_Cons(2) by blast
  with 2 show ?case by (simp add: drop_Cons' take_Cons')
qed simp

lemma chars_append: "utf8 xs \<Longrightarrow> chars (xs @ ys) = chars xs @ chars ys"
proof (induction xs rule: utf8.induct)
  case (2 c cs)
  obtain k where k: "char_len c = Suc k" by (cases "char_len c") auto
  from 2 have "char_len c \<le> Suc (length cs)" using utf8_Cons(2) by blast
  with 2 k show ?case by simp
qed simp

lemma char_len_ascii [simp]: "byte c < 128 \<Longrightarrow> char_len c = 1"
  by (simp add: char_len_def)

lemma is_cont_ascii [simp]: "byte c < 128 \<Longrightarrow> \<not> is_cont c"
  by (simp add: is_cont_def)

lemma utf8_split_ascii: "utf8 (xs @ c # ys) \<Longrightarrow> byte c < 128 \<Longrightarrow> utf8 xs \<and> utf8 ys"
proof (induction xs rule: utf8.induct)
  case 1
  then show ?case by simp
next
  case (2 d ds)
  obtain k where k: "char_len d = Suc k" by (cases "char_len d") auto
  from "2.prems"(1) have u: "utf8 (d # (ds @ c # ys))" by simp
  from utf8_Cons(3) [OF u] k have ct: "\<forall>e \<in> set (take k (ds @ c # ys)). is_cont e" by simp
  have kl: "k \<le> length ds"
  proof (rule ccontr)
    assume "\<not> k \<le> length ds"
    then have "c \<in> set (take k (ds @ c # ys))" by (simp add: take_Cons')
    with ct have "is_cont c" by blast
    with "2.prems"(2) show False by simp
  qed
  from u k have "valid_char (d # take k (ds @ c # ys))" and "utf8 (drop k (ds @ c # ys))" by auto
  with kl have "valid_char (d # take k ds)" and "utf8 (drop k ds @ c # ys)" by simp_all
  with "2.IH" k "2.prems"(2) show ?case by simp
qed

lemma utf8_split_on:
  "utf8 s \<Longrightarrow> (\<And>c. p c \<Longrightarrow> byte c < 128) \<Longrightarrow> w \<in> set (split_on p s) \<Longrightarrow> utf8 w"
proof (induction "length s" arbitrary: s rule: less_induct)
  case less
  show ?case
  proof (cases "\<exists>c \<in> set s. p c")
    case False
    then have "split_on p s = [s]" by (intro split_on_id) auto
    with less.prems show ?thesis by simp
  next
    case True
    then obtain i where i: "find_byte p s = Some i"
      by (metis find_byte_None_iff option.exhaust)
    note f = find_byte_split [OF i]
    let ?a = "take i s" and ?b = "drop (Suc i) s"
    have sp: "split_on p s = split_on p ?a @ split_on p ?b"
      using split_on_append [of p "s ! i" ?a ?b, OF f(3)] f(1) by simp
    have a: "split_on p ?a = [?a]" using f(4) by (rule split_on_id)
    have "utf8 (?a @ s ! i # ?b)" using less.prems(1) f(1) by simp
    then have u: "utf8 ?a" "utf8 ?b"
      using utf8_split_ascii less.prems(2) f(3) by blast+
    from less.prems(3) sp a have "w = ?a \<or> w \<in> set (split_on p ?b)" by auto
    then show ?thesis
      using u less.hyps [of ?b] less.prems(2) f(2) by auto
  qed
qed

lemma has_control_Nil [simp]: "\<not> has_control []"
  by (simp add: has_control_def)

lemma has_control_append: "utf8 xs \<Longrightarrow> has_control (xs @ ys) \<longleftrightarrow> has_control xs \<or> has_control ys"
  by (auto simp: has_control_def chars_append)

lemma utf8_join_with: "utf8 sep \<Longrightarrow> (\<forall>w \<in> set ws. utf8 w) \<Longrightarrow> utf8 (join_with sep ws)"
  by (induction sep ws rule: join_with.induct) (auto simp: utf8_append)

lemma has_control_join_with:
  "utf8 sep \<Longrightarrow> (\<forall>w \<in> set ws. utf8 w) \<Longrightarrow> \<not> has_control sep
   \<Longrightarrow> has_control (join_with sep ws) \<longleftrightarrow> (\<exists>w \<in> set ws. has_control w)"
  by (induction sep ws rule: join_with.induct) (auto simp: has_control_append utf8_append)

text \<open>Control characters under splitting at, and replacement of, plain ASCII bytes.\<close>

lemma chars_ascii: "byte c < 128 \<Longrightarrow> chars (c # cs) = [c] # chars cs"
  by simp

lemma has_control_ascii:
  "byte c < 127 \<Longrightarrow> 32 \<le> byte c \<Longrightarrow> has_control (c # cs) = has_control cs"
  by (simp add: has_control_def is_control_char_def)

lemma has_control_split_on:
  "utf8 s \<Longrightarrow> (\<And>c. p c \<Longrightarrow> 32 \<le> byte c \<and> byte c < 127)
   \<Longrightarrow> has_control s \<longleftrightarrow> (\<exists>w \<in> set (split_on p s). has_control w)"
proof (induction "length s" arbitrary: s rule: less_induct)
  case less
  show ?case
  proof (cases "\<exists>c \<in> set s. p c")
    case False
    then have "split_on p s = [s]" by (intro split_on_id) auto
    then show ?thesis by simp
  next
    case True
    then obtain i where i: "find_byte p s = Some i"
      by (metis find_byte_None_iff option.exhaust)
    note f = find_byte_split [OF i]
    let ?a = "take i s" and ?b = "drop (Suc i) s"
    have c: "32 \<le> byte (s ! i)" "byte (s ! i) < 127" using less.prems(2) f(3) by auto
    note s = f(1) [symmetric]
    have sp: "split_on p s = ?a # split_on p ?b"
      using split_on_append [of p "s ! i" ?a ?b, OF f(3)] split_on_id [OF f(4)] unfolding s by simp
    have a: "utf8 (?a @ s ! i # ?b)" unfolding s by (rule less.prems(1))
    have "byte (s ! i) < 128" using c(2) by simp
    from utf8_split_ascii [OF a this] have u: "utf8 ?a" "utf8 ?b" by (rule conjunct1, rule conjunct2)
    have "has_control s \<longleftrightarrow> has_control ?a \<or> has_control ?b"
      using has_control_append [OF u(1), of "s ! i # ?b"] has_control_ascii [OF c(2,1), of ?b]
      unfolding s by simp
    moreover have "length ?b < length s" using f(2) by simp
    then have "has_control ?b \<longleftrightarrow> (\<exists>w \<in> set (split_on p ?b). has_control w)"
      by (rule less.hyps [OF _ u(2) less.prems(2)])
    ultimately show ?thesis unfolding sp by simp
  qed
qed

lemma split_on_replace:
  "a \<noteq> b \<Longrightarrow> split_on (\<lambda>c. c = b) (replace_char a b s) = split_on (\<lambda>c. c = a \<or> c = b) s"
  by (induction s) (auto simp: replace_char_def split: list.splits)

section \<open>Cutting a text at a character\<close>

lemma utf8_split:
  "utf8 (xs @ c # ys) \<Longrightarrow> \<not> is_cont c \<Longrightarrow> utf8 xs \<and> utf8 (c # ys)"
proof (induction xs rule: utf8.induct)
  case 1
  then show ?case by simp
next
  case (2 d ds)
  obtain k where k: "char_len d = Suc k" by (cases "char_len d") auto
  from "2.prems"(1) have u: "utf8 (d # (ds @ c # ys))" by simp
  from utf8_Cons(3) [OF u] k have ct: "\<forall>e \<in> set (take k (ds @ c # ys)). is_cont e" by simp
  have kl: "k \<le> length ds"
  proof (rule ccontr)
    assume "\<not> k \<le> length ds"
    then have "c \<in> set (take k (ds @ c # ys))" by (simp add: take_Cons')
    with ct "2.prems"(2) show False by blast
  qed
  from u k have "valid_char (d # take k (ds @ c # ys))" and "utf8 (drop k (ds @ c # ys))" by auto
  with kl have "valid_char (d # take k ds)" and "utf8 (drop k ds @ c # ys)" by simp_all
  with "2.IH" k "2.prems"(2) show ?case by simp
qed

lemma utf8_split_boundary:
  assumes "utf8 s" and "is_boundary s i"
  shows "utf8 (take i s)" and "utf8 (drop i s)"
proof -
  have "utf8 (take i s) \<and> utf8 (drop i s)"
  proof (cases "i = 0 \<or> i = length s")
    case True
    with assms(1) show ?thesis by auto
  next
    case False
    with assms(2) have i: "i < length s" "\<not> is_cont (s ! i)" by (auto simp: is_boundary_def)
    then have "utf8 (take i s @ s ! i # drop (Suc i) s)" using assms(1) by (simp add: id_take_nth_drop [symmetric])
    from utf8_split [OF this i(2)] show ?thesis using i(1) by (simp add: Cons_nth_drop_Suc)
  qed
  then show "utf8 (take i s)" and "utf8 (drop i s)" by simp_all
qed

lemma utf8_slice: "utf8 s \<Longrightarrow> is_boundary s a \<Longrightarrow> is_boundary s b \<Longrightarrow> a \<le> b \<Longrightarrow> utf8 (slice s a b)"
proof -
  assume u: "utf8 s" and a: "is_boundary s a" and b: "is_boundary s b" and le: "a \<le> b"
  have "take b s = take a s @ slice s a b"
    using slice_append [of 0 a b s] le by (simp add: slice_def)
  with utf8_split_boundary(1) [OF u b] utf8_split_boundary(1) [OF u a] show "utf8 (slice s a b)"
    by (simp add: utf8_append)
qed

lemma ws_char_lead: "is_ws_char u \<Longrightarrow> \<exists>c cs. u = c # cs \<and> \<not> is_cont c \<and> length u = char_len c"
  by (auto simp: is_ws_char_def Cons_eq_map_conv is_cont_def char_len_def split: list.splits)

lemma ws_end_split:
  assumes "ws_end_len s \<noteq> 0"
  shows "is_ws_char (drop (length s - ws_end_len s) s)" and "ws_end_len s \<le> length s"
  using assms by (auto simp: ws_end_len_def Suc_le_eq split: if_splits)

lemma utf8_trim_end: "utf8 s \<Longrightarrow> utf8 (trim_end s)"
proof (induction s rule: trim_end.induct)
  case (1 s)
  show ?case
  proof (cases "ws_end_len s = 0")
    case True
    with 1 show ?thesis by (simp add: trim_end.simps [of s])
  next
    case False
    let ?n = "length s - ws_end_len s"
    obtain c cs where c: "drop ?n s = c # cs" "\<not> is_cont c"
      using ws_char_lead [OF ws_end_split(1) [OF False]] by blast
    have "utf8 (take ?n s @ c # cs)" using "1.prems" by (metis append_take_drop_id c(1))
    then have "utf8 (take ?n s)" using utf8_split c(2) by blast
    with "1.IH" False show ?thesis by (subst trim_end.simps) simp
  qed
qed

lemma ws_end_trim_end [simp]: "ws_end_len (trim_end s) = 0"
proof (induction s rule: trim_end.induct)
  case (1 s)
  then show ?case by (subst trim_end.simps) simp
qed

lemma trim_end_idem [simp]: "trim_end (trim_end s) = trim_end s"
  by (subst trim_end.simps) simp

lemma trim_start_first: "\<not> is_ws_char (first_char (trim_start s))"
  by (induction s rule: trim_start.induct) (auto simp: first_char_def is_ws_char_def)

lemma trim_start_id: "\<not> is_ws_char (first_char s) \<Longrightarrow> trim_start s = s"
  by (cases s) auto

lemma utf8_trim_start: "utf8 s \<Longrightarrow> utf8 (trim_start s)"
  by (induction s rule: trim_start.induct) auto

lemma first_char_prefix:
  assumes "utf8 t" and "t \<noteq> []"
  shows "first_char (t @ r) = first_char t"
proof -
  obtain c cs where t: "t = c # cs" using assms(2) by (cases t) auto
  have "char_len c \<le> length t" using assms(1) t utf8_Cons(2) by fastforce
  then have "take (char_len c) (t @ r) = take (char_len c) t" by simp
  then show ?thesis by (simp add: first_char_def t)
qed

lemma utf8_trim: "utf8 s \<Longrightarrow> utf8 (trim s)"
  by (simp add: trim_def utf8_trim_end utf8_trim_start)

lemma trim_first:
  assumes "utf8 s"
  shows "\<not> is_ws_char (first_char (trim s))"
proof (cases "trim s = []")
  case True
  then show ?thesis by (simp add: first_char_def is_ws_char_def)
next
  case False
  obtain q where "trim_start s = trim s @ q"
    using trim_end_prefix unfolding trim_def by blast
  then have "first_char (trim_start s) = first_char (trim s)"
    using first_char_prefix [OF utf8_trim [OF assms] False] by simp
  then show ?thesis using trim_start_first [of s] by simp
qed

lemma trim_idem: "utf8 s \<Longrightarrow> trim (trim s) = trim s"
proof -
  assume "utf8 s"
  then have "trim_start (trim s) = trim s" by (intro trim_start_id trim_first)
  then show ?thesis by (simp add: trim_def)
qed

end
