(* ===== verification/Errors.thy ===== *)
theory Errors
  imports Text
begin

text \<open>
  The error type of the vault layer (src/src/error.rs): one constructor per variant of
  \<^verbatim>\<open>VaultError\<close>, the storage error kinds and mutation outcomes, and the operations on errors.
  An error that wraps a third-party error keeps that error's message as text; \<^verbatim>\<open>io::Error\<close> keeps its
  kind and raw system code. A \<^verbatim>\<open>Duration\<close> is a number of nanoseconds.
\<close>

datatype storage_error_kind =
    Unavailable | PermissionDenied | Unsupported | Protocol | RemoteFailure | ProjectionFailure
  | InvalidSource | Conflict | IdentityChanged | Warming | ResourceLimit

datatype mutation_outcome = NotDispatched | NotCommitted | Committed | UnknownOutcome

datatype io_kind =
    IoNotFound | IoInterrupted | IoWouldBlock | IoTimedOut | IoResourceBusy
  | IoConnectionAborted | IoConnectionReset | IoNotConnected | IoBrokenPipe | IoNotADirectory | IoOtherKind

datatype vault_error =
    Storage str str storage_error_kind str mutation_outcome
  | NoteNotFound str
  | DirectoryNotFound str
  | InvalidPath str
  | InvalidSourceRange str
  | SourceChanged str str str
  | SemanticResourceLimit str nat nat
  | EmbeddingInputTooLong nat nat
  | EmbeddingConfiguration str
  | EmbeddingCacheIncompatible str
  | EmbeddingRequest str bool "nat option"
  | FrontmatterParse str str
  | InvalidFrontmatter str str
  | Io io_kind "int option"
  | AlreadyExists str
  | PatchTargetNotFound str str str
  | OutsideVault str
  | InvalidRegex str str
  | InvalidDateFormat str str
  | Watcher str
  | Tantivy str
  | Embedding str
  | DaemonIpc str
  | DaemonProtocol str
  | DaemonUnavailable str
  | DaemonRpc int str
  | DaemonTimeout str nat
  | DaemonBootstrap str
  | Other str

type_synonym 'a vault_result = "vault_error + 'a"

text \<open>\<^verbatim>\<open>VaultError::storage\<close>, \<^verbatim>\<open>with_mutation_outcome\<close> and \<^verbatim>\<open>is_not_found\<close>.\<close>

definition storage_error :: "str \<Rightarrow> str \<Rightarrow> storage_error_kind \<Rightarrow> str \<Rightarrow> vault_error" where
  "storage_error op p k m = Storage op p k m NotDispatched"

fun with_mutation_outcome :: "vault_error \<Rightarrow> mutation_outcome \<Rightarrow> vault_error" where
  "with_mutation_outcome (Storage op p k m _) o' = Storage op p k m o'"
| "with_mutation_outcome e o' = e"

fun is_not_found :: "vault_error \<Rightarrow> bool" where
  "is_not_found (NoteNotFound _) = True"
| "is_not_found (DirectoryNotFound _) = True"
| "is_not_found (Io k _) = (k = IoNotFound)"
| "is_not_found _ = False"

text \<open>The JSON-RPC code an error is reported with (\<^verbatim>\<open>impl From<VaultError> for rmcp::ErrorData\<close>).\<close>

datatype error_code = INVALID_REQUEST | INTERNAL_ERROR | RESOURCE_NOT_FOUND | INVALID_PARAMS | PARSE_ERROR

fun error_code_of :: "vault_error \<Rightarrow> error_code" where
  "error_code_of (Storage _ _ k _ _) =
     (if k \<in> {Warming, Conflict, IdentityChanged, Unsupported} then INVALID_REQUEST else INTERNAL_ERROR)"
| "error_code_of (NoteNotFound _) = RESOURCE_NOT_FOUND"
| "error_code_of (DirectoryNotFound _) = RESOURCE_NOT_FOUND"
| "error_code_of (InvalidPath _) = INVALID_PARAMS"
| "error_code_of (InvalidSourceRange _) = INVALID_PARAMS"
| "error_code_of (EmbeddingInputTooLong _ _) = INVALID_PARAMS"
| "error_code_of (OutsideVault _) = INVALID_PARAMS"
| "error_code_of (AlreadyExists _) = INVALID_PARAMS"
| "error_code_of (InvalidFrontmatter _ _) = INVALID_PARAMS"
| "error_code_of (PatchTargetNotFound _ _ _) = INVALID_PARAMS"
| "error_code_of (InvalidDateFormat _ _) = INVALID_PARAMS"
| "error_code_of (InvalidRegex _ _) = INVALID_PARAMS"
| "error_code_of (FrontmatterParse _ _) = PARSE_ERROR"
| "error_code_of (DaemonUnavailable _) = INVALID_REQUEST"
| "error_code_of (SourceChanged _ _ _) = INVALID_REQUEST"
| "error_code_of (DaemonRpc c _) =
     (if c = -32700 then PARSE_ERROR
      else if c = -32602 then INVALID_PARAMS
      else if c \<in> {-32600, -32601, -32010, -32011, -32020, -32030, -32031, -32040} then INVALID_REQUEST
      else INTERNAL_ERROR)"
| "error_code_of _ = INTERNAL_ERROR"

lemma with_mutation_outcome_code [simp]: "error_code_of (with_mutation_outcome e o') = error_code_of e"
  by (cases e) simp_all

lemma with_mutation_outcome_last [simp]:
  "with_mutation_outcome (with_mutation_outcome e a) b = with_mutation_outcome e b"
  by (cases e) simp_all

lemma is_not_found_not_params: "is_not_found e \<Longrightarrow> error_code_of e \<noteq> INVALID_PARAMS"
  by (cases e) auto

end
