(* ===== verification/Frontmatter.thy ===== *)
theory Frontmatter
  imports Errors
begin

text \<open>
  YAML frontmatter (src/src/vault/frontmatter.rs): finding the block between the two fences, the
  body after it, parsing it to a JSON object, setting and removing a field, rebuilding the file.

  The YAML reader and writer and the JSON printer are third-party code; they are the parameters
  \<open>yaml_load\<close>, \<open>yaml_dump\<close> and \<open>json_text\<close> of the definitions that call them. A JSON object is a
  \<^verbatim>\<open>BTreeMap\<close>: an association list kept sorted by key.
\<close>

section \<open>JSON values\<close>

datatype json =
    JNull
  | JBool bool
  | JNumber str
  | JString str
  | JArray "json list"
  | JObject "(str \<times> json) list"

fun obj_insert :: "str \<Rightarrow> json \<Rightarrow> (str \<times> json) list \<Rightarrow> (str \<times> json) list" where
  "obj_insert k v [] = [(k, v)]"
| "obj_insert k v ((k', v') # kvs) =
     (if k = k' then (k, v) # kvs
      else if k < k' then (k, v) # (k', v') # kvs
      else (k', v') # obj_insert k v kvs)"

definition obj_remove :: "str \<Rightarrow> (str \<times> json) list \<Rightarrow> (str \<times> json) list" where
  "obj_remove k kvs = filter (\<lambda>(k', _). k' \<noteq> k) kvs"

fun json_get :: "json \<Rightarrow> str \<Rightarrow> json option" where
  "json_get (JObject kvs) k = map_of kvs k"
| "json_get _ k = None"

fun json_as_str :: "json \<Rightarrow> str option" where
  "json_as_str (JString s) = Some s"
| "json_as_str _ = None"

lemma obj_insert_nonempty [simp]: "obj_insert k v m \<noteq> []"
  by (induction k v m rule: obj_insert.induct) auto

lemma map_of_obj_insert: "map_of (obj_insert k v m) = (map_of m)(k \<mapsto> v)"
  by (induction k v m rule: obj_insert.induct) auto

lemma map_of_obj_remove: "map_of (obj_remove k m) = (map_of m)(k := None)"
  by (induction m) (auto simp: obj_remove_def)

lemma obj_remove_absent: "map_of m k = None \<Longrightarrow> obj_remove k m = m"
  by (induction m) (auto simp: obj_remove_def split: if_splits)

section \<open>Finding the block\<close>

abbreviation LF :: char where "LF \<equiv> CHR 0x0A"
abbreviation CR :: char where "CR \<equiv> CHR 0x0D"

definition fence :: str where "fence = ''---''"

definition is_fence :: "str \<Rightarrow> bool" where
  "is_fence l \<longleftrightarrow> trim_end_char CR l = fence"

text \<open>The loop of \<^verbatim>\<open>extract_raw_frontmatter\<close>, with \<open>pos\<close> the offset of the current line in the block.\<close>

function fm_scan :: "str \<Rightarrow> nat \<Rightarrow> nat \<Rightarrow> (str \<times> nat) option" where
  "fm_scan content after_open pos =
     (let remaining = drop (after_open + pos) content;
          line_end = find_byte (\<lambda>c. c = LF) remaining;
          line = (case line_end of Some e \<Rightarrow> take e remaining | None \<Rightarrow> remaining)
      in if is_fence line
         then Some (slice content after_open (after_open + pos),
                    case line_end of Some e \<Rightarrow> after_open + pos + e + 1 | None \<Rightarrow> length content)
         else case line_end of None \<Rightarrow> None | Some e \<Rightarrow> fm_scan content after_open (pos + e + 1))"
  by pat_completeness auto
termination
  by (relation "measure (\<lambda>(content, a, pos). length content - (a + pos))")
     (auto dest!: sym [of "Some _"] simp: find_byte_Some_iff)

declare fm_scan.simps [simp del]

definition opener_len :: "str \<Rightarrow> nat option" where
  "opener_len content =
     (if starts_with content (fence @ [LF]) then Some 4
      else if starts_with content (fence @ [CR, LF]) then Some 5 else None)"

definition extract_raw_frontmatter :: "str \<Rightarrow> (str \<times> nat) option" where
  "extract_raw_frontmatter content =
     (case opener_len content of None \<Rightarrow> None | Some a \<Rightarrow> fm_scan content a 0)"

definition get_body :: "str \<Rightarrow> str" where
  "get_body content =
     (case extract_raw_frontmatter content of Some (_, b) \<Rightarrow> drop b content | None \<Rightarrow> content)"

section \<open>Parsing and field updates\<close>

fun json_type_name :: "json \<Rightarrow> str" where
  "json_type_name (JArray _) = ''array''"
| "json_type_name (JString _) = ''string''"
| "json_type_name (JNumber _) = ''number''"
| "json_type_name (JBool _) = ''boolean''"
| "json_type_name JNull = ''null''"
| "json_type_name (JObject _) = ''object''"

definition parse_frontmatter :: "(str \<Rightarrow> str + json) \<Rightarrow> str \<Rightarrow> json option vault_result" where
  "parse_frontmatter yaml_load content =
     (case extract_raw_frontmatter content of
        None \<Rightarrow> Inr None
      | Some (yaml, _) \<Rightarrow>
          if trim yaml = [] then Inr (Some (JObject []))
          else try_bind (map_err (\<lambda>e. Other (''Frontmatter YAML parse error: '' @ e)) (yaml_load yaml))
            (\<lambda>value.
               case value of
                 JObject _ \<Rightarrow> Inr (Some value)
               | other \<Rightarrow> Inl (Other (''Frontmatter must be a YAML mapping, got '' @ json_type_name other))))"

fun list_item :: "(json \<Rightarrow> str) \<Rightarrow> json \<Rightarrow> str option" where
  "list_item json_text (JString s) = Some s"
| "list_item json_text JNull = None"
| "list_item json_text v = Some (json_text v)"

definition extract_string_list :: "(json \<Rightarrow> str) \<Rightarrow> json \<Rightarrow> str \<Rightarrow> str list" where
  "extract_string_list json_text frontmatter key =
     (case json_get frontmatter key of
        Some (JArray arr) \<Rightarrow> List.map_filter (list_item json_text) arr
      | Some (JString s) \<Rightarrow> filter (\<lambda>part. part \<noteq> []) (map trim (split_on (\<lambda>c. c = CHR 0x2C) s))
      | _ \<Rightarrow> [])"

definition extract_frontmatter_tags :: "(json \<Rightarrow> str) \<Rightarrow> json \<Rightarrow> str list" where
  "extract_frontmatter_tags json_text fm = extract_string_list json_text fm ''tags''"

definition extract_aliases :: "(json \<Rightarrow> str) \<Rightarrow> json \<Rightarrow> str list" where
  "extract_aliases json_text fm = extract_string_list json_text fm ''aliases''"

definition rebuild_content :: "(json \<Rightarrow> str + str) \<Rightarrow> json option \<Rightarrow> str \<Rightarrow> str" where
  "rebuild_content yaml_dump frontmatter body =
     (case frontmatter of
        Some (JObject (kv # kvs)) \<Rightarrow>
          (case yaml_dump (JObject (kv # kvs)) of
             Inr yaml \<Rightarrow> fence @ [LF] @ yaml @ fence @ [LF] @ body
           | Inl _ \<Rightarrow> body)
      | _ \<Rightarrow> body)"

definition not_mapping :: vault_error where
  "not_mapping = Other ''Frontmatter is not a YAML mapping''"

definition set_frontmatter_field ::
  "(str \<Rightarrow> str + json) \<Rightarrow> (json \<Rightarrow> str + str) \<Rightarrow> str \<Rightarrow> str \<Rightarrow> json \<Rightarrow> str vault_result" where
  "set_frontmatter_field yaml_load yaml_dump content key value =
     (let body = get_body content
      in try_bind (parse_frontmatter yaml_load content) (\<lambda>parsed.
           case (case parsed of Some fm \<Rightarrow> fm | None \<Rightarrow> JObject []) of
             JObject m \<Rightarrow> Inr (rebuild_content yaml_dump (Some (JObject (obj_insert key value m))) body)
           | _ \<Rightarrow> Inl not_mapping))"

definition remove_frontmatter_field ::
  "(str \<Rightarrow> str + json) \<Rightarrow> (json \<Rightarrow> str + str) \<Rightarrow> str \<Rightarrow> str \<Rightarrow> str vault_result" where
  "remove_frontmatter_field yaml_load yaml_dump content key =
     try_bind (parse_frontmatter yaml_load content) (\<lambda>parsed.
       case parsed of
         None \<Rightarrow> Inr content
       | Some (JObject m) \<Rightarrow>
           (if map_of m key = None then Inr content
            else (let m' = obj_remove key m; body = get_body content
                  in if m' = [] then Inr body
                     else Inr (rebuild_content yaml_dump (Some (JObject m')) body)))
       | Some _ \<Rightarrow> Inl not_mapping)"

section \<open>What the scan finds\<close>

definition plain_lines :: "str list \<Rightarrow> bool" where
  "plain_lines ls \<longleftrightarrow> (\<forall>l \<in> set ls. LF \<notin> set l \<and> \<not> is_fence l)"

definition unlines :: "str list \<Rightarrow> str" where
  "unlines ls = concat (map (\<lambda>l. l @ [LF]) ls)"

lemma unlines_simps [simp]: "unlines [] = []" "unlines (l # ls) = l @ LF # unlines ls"
  by (simp_all add: unlines_def)

lemma plain_lines_simps [simp]:
  "plain_lines []" "plain_lines (l # ls) \<longleftrightarrow> LF \<notin> set l \<and> \<not> is_fence l \<and> plain_lines ls"
  by (auto simp: plain_lines_def)

lemma unlines_append [simp]: "unlines (ls @ ks) = unlines ls @ unlines ks"
  by (simp add: unlines_def)

text \<open>The end of a block: the closing fence line with its line feed, or the fence as the last line.\<close>

definition closes :: "str \<Rightarrow> str \<Rightarrow> str \<Rightarrow> bool" where
  "closes f nl rest \<longleftrightarrow> is_fence f \<and> LF \<notin> set f \<and> (nl = [LF] \<or> nl = [] \<and> rest = [])"

lemma find_LF_line: "LF \<notin> set l \<Longrightarrow> find_byte (\<lambda>c. c = LF) (l @ LF # r) = Some (length l)"
  by (auto simp: find_byte_Some_iff nth_append dest: nth_mem)

lemma find_LF_none: "LF \<notin> set l \<Longrightarrow> find_byte (\<lambda>c. c = LF) l = None"
  by (auto simp: find_byte_None_iff)

lemma fm_scan_complete:
  assumes "content = pre @ unlines ls @ f @ nl @ rest" and "length pre = a + pos"
    and "plain_lines ls" and "closes f nl rest"
  shows "fm_scan content a pos =
    Some (slice content a (a + pos + length (unlines ls)), length content - length rest)"
  using assms
proof (induction ls arbitrary: pre pos)
  case Nil
  then have d: "drop (a + pos) content = f @ nl @ rest" by (metis append_eq_conv_conj append_Nil unlines_simps(1))
  show ?case
  proof (cases "nl = []")
    case True
    with Nil d show ?thesis
      by (subst fm_scan.simps) (auto simp: closes_def find_LF_none Let_def)
  next
    case False
    with Nil d show ?thesis
      by (subst fm_scan.simps) (auto simp: closes_def find_LF_line Let_def)
  qed
next
  case (Cons l ls)
  from Cons.prems(1) have c: "content = (pre @ l @ [LF]) @ unlines ls @ f @ nl @ rest" by simp
  have d: "drop (a + pos) content = l @ LF # unlines ls @ f @ nl @ rest"
    using Cons.prems(1,2) by simp
  have "fm_scan content a (pos + length l + 1) =
    Some (slice content a (a + (pos + length l + 1) + length (unlines ls)), length content - length rest)"
    using Cons.prems(2-4) by (intro Cons.IH [OF c]) auto
  moreover have "fm_scan content a pos = fm_scan content a (pos + length l + 1)"
    using Cons.prems(3) d by (subst fm_scan.simps) (auto simp: find_LF_line Let_def)
  ultimately show ?case by (simp add: ac_simps)
qed

lemma fm_scan_sound:
  "fm_scan content a pos = Some (y, b) \<Longrightarrow> a + pos \<le> length content \<Longrightarrow>
   \<exists>ls f nl rest. drop (a + pos) content = unlines ls @ f @ nl @ rest \<and> plain_lines ls \<and> closes f nl rest
     \<and> y = slice content a (a + pos + length (unlines ls)) \<and> b = length content - length rest"
proof (induction content a pos rule: fm_scan.induct)
  case (1 content a pos)
  let ?r = "drop (a + pos) content"
  show ?case
  proof (cases "find_byte (\<lambda>c. c = LF) ?r")
    case None
    then have n: "LF \<notin> set ?r" by (auto simp: find_byte_None_iff)
    with "1.prems" None have "is_fence ?r" and "y = slice content a (a + pos)" and "b = length content"
      by (auto simp: fm_scan.simps [of content a pos] Let_def split: if_splits)
    with n show ?thesis
      by (intro exI [of _ "[]"] exI [of _ ?r]) (simp add: closes_def)
  next
    case (Some e)
    note f = find_byte_split [OF Some]
    let ?l = "take e ?r"
    have r: "?r = ?l @ LF # drop (Suc e) ?r" using f(1,3) by simp
    have l: "LF \<notin> set ?l" using f(4) by auto
    show ?thesis
    proof (cases "is_fence ?l")
      case True
      with "1.prems" Some have "y = slice content a (a + pos)" and b: "b = a + pos + e + 1"
        by (auto simp: fm_scan.simps [of content a pos] Let_def)
      moreover have "b = length content - length (drop (Suc e) ?r)"
        using f(2) b "1.prems"(2) by simp
      ultimately show ?thesis
        using r l True
        by (intro exI [of _ "[]"] exI [of _ ?l] exI [of _ "[LF]"] exI [of _ "drop (Suc e) ?r"])
           (simp add: closes_def)
    next
      case False
      with "1.prems" Some have "fm_scan content a (pos + e + 1) = Some (y, b)"
        by (auto simp: fm_scan.simps [of content a pos] Let_def)
      moreover have "a + (pos + e + 1) \<le> length content" using f(2) by simp
      ultimately obtain ls g nl rest where
          d: "drop (a + (pos + e + 1)) content = unlines ls @ g @ nl @ rest"
        and p: "plain_lines ls" "closes g nl rest"
        and y: "y = slice content a (a + (pos + e + 1) + length (unlines ls))"
        and b: "b = length content - length rest"
        using "1.IH" [OF refl refl refl] False Some by auto
      have e: "drop (Suc e) ?r = drop (a + (pos + e + 1)) content" by (simp add: add.commute add.left_commute)
      show ?thesis
      proof (intro exI conjI)
        show "?r = unlines (?l # ls) @ g @ nl @ rest"
          using r d e by simp
        show "plain_lines (?l # ls)" using p(1) l False by simp
        show "closes g nl rest" by (rule p(2))
        show "y = slice content a (a + pos + length (unlines (?l # ls)))"
          using y f(2) by (simp add: ac_simps)
        show "b = length content - length rest" by (rule b)
      qed
    qed
  qed
qed

lemma opener_len_Some:
  assumes "opener_len content = Some a"
  obtains opn r where "content = opn @ r" "opn \<in> {fence @ [LF], fence @ [CR, LF]}" "length opn = a"
proof (cases "starts_with content (fence @ [LF])")
  case True
  then obtain r where "content = (fence @ [LF]) @ r" by (auto simp: starts_with_iff)
  with True assms show thesis
    by (intro that [of "fence @ [LF]" r]) (auto simp: opener_len_def fence_def)
next
  case False
  with assms obtain r where "content = (fence @ [CR, LF]) @ r" "a = 5"
    by (auto simp: opener_len_def starts_with_iff split: if_splits)
  then show thesis
    by (intro that [of "fence @ [CR, LF]" r]) (auto simp: fence_def)
qed

section \<open>Properties\<close>

text \<open> Property C33. The frontmatter finder accepts exactly the files that open with a fence line
  followed by whole lines that are not fences and by a closing fence line (the last one may lack
  its line feed); it returns the text of those lines and the offset just after the closing line.\<close>

theorem extract_raw_frontmatter_iff:
  "extract_raw_frontmatter content = Some (y, b) \<longleftrightarrow>
   (\<exists>opn ls f nl rest. content = opn @ unlines ls @ f @ nl @ rest
      \<and> opn \<in> {fence @ [LF], fence @ [CR, LF]} \<and> plain_lines ls \<and> closes f nl rest
      \<and> y = unlines ls \<and> b = length content - length rest)"
proof
  assume e: "extract_raw_frontmatter content = Some (y, b)"
  then obtain a where a: "opener_len content = Some a" "fm_scan content a 0 = Some (y, b)"
    by (auto simp: extract_raw_frontmatter_def split: option.splits)
  then obtain opn r where o: "content = opn @ r" "opn \<in> {fence @ [LF], fence @ [CR, LF]}"
    and la: "length opn = a"
    using opener_len_Some by blast
  then have d: "drop a content = r" by auto
  from la o(1) have "a + 0 \<le> length content" by simp
  from fm_scan_sound [OF a(2) this] obtain ls f nl rest where
      r: "r = unlines ls @ f @ nl @ rest" and p: "plain_lines ls" "closes f nl rest"
    and y: "y = slice content a (a + length (unlines ls))" and b: "b = length content - length rest"
    using d by auto
  have "y = unlines ls" using y la by (simp add: o(1) r slice_def)
  with o r p b show "\<exists>opn ls f nl rest. content = opn @ unlines ls @ f @ nl @ rest
      \<and> opn \<in> {fence @ [LF], fence @ [CR, LF]} \<and> plain_lines ls \<and> closes f nl rest
      \<and> y = unlines ls \<and> b = length content - length rest"
    by blast
next
  assume "\<exists>opn ls f nl rest. content = opn @ unlines ls @ f @ nl @ rest
      \<and> opn \<in> {fence @ [LF], fence @ [CR, LF]} \<and> plain_lines ls \<and> closes f nl rest
      \<and> y = unlines ls \<and> b = length content - length rest"
  then obtain opn ls f nl rest where c: "content = opn @ unlines ls @ f @ nl @ rest"
    and o: "opn \<in> {fence @ [LF], fence @ [CR, LF]}" and p: "plain_lines ls" "closes f nl rest"
    and y: "y = unlines ls" "b = length content - length rest"
    by blast
  have a: "opener_len content = Some (length opn)"
    using o c by (auto simp: opener_len_def starts_with_iff fence_def)
  have "fm_scan content (length opn) 0 =
    Some (slice content (length opn) (length opn + 0 + length (unlines ls)),
          length content - length rest)"
    by (rule fm_scan_complete [OF c _ p]) simp
  moreover have "slice content (length opn) (length opn + 0 + length (unlines ls)) = y"
    by (simp add: c y slice_def)
  ultimately show "extract_raw_frontmatter content = Some (y, b)"
    using a y by (simp add: extract_raw_frontmatter_def)
qed

lemma extract_rebuilt:
  "plain_lines ls \<Longrightarrow>
   extract_raw_frontmatter (fence @ [LF] @ unlines ls @ fence @ [LF] @ body)
     = Some (unlines ls, length (fence @ [LF] @ unlines ls @ fence @ [LF]))"
  by (subst extract_raw_frontmatter_iff)
     (rule exI [of _ "fence @ [LF]"], rule exI [of _ ls], rule exI [of _ fence],
      rule exI [of _ "[LF]"], rule exI [of _ body],
      simp add: closes_def is_fence_def trim_end_char_def fence_def)

text \<open>What the YAML library does on one object: it writes whole non-fence lines, not all blank,
  and reads the same object back.\<close>

definition yaml_roundtrips :: "(str \<Rightarrow> str + json) \<Rightarrow> (json \<Rightarrow> str + str) \<Rightarrow> json \<Rightarrow> bool" where
  "yaml_roundtrips yaml_load yaml_dump j \<longleftrightarrow>
     (\<exists>ls. yaml_dump j = Inr (unlines ls) \<and> plain_lines ls \<and> trim (unlines ls) \<noteq> []
           \<and> yaml_load (unlines ls) = Inr j)"

lemma rebuild_parses:
  assumes "yaml_roundtrips yaml_load yaml_dump (JObject m)" and "m \<noteq> []"
  shows "parse_frontmatter yaml_load (rebuild_content yaml_dump (Some (JObject m)) body)
           = Inr (Some (JObject m))"
    and "get_body (rebuild_content yaml_dump (Some (JObject m)) body) = body"
proof -
  from assms(1) obtain ls where d: "yaml_dump (JObject m) = Inr (unlines ls)" and p: "plain_lines ls"
    and t: "trim (unlines ls) \<noteq> []" and l: "yaml_load (unlines ls) = Inr (JObject m)"
    by (auto simp: yaml_roundtrips_def)
  have r: "rebuild_content yaml_dump (Some (JObject m)) body = fence @ [LF] @ unlines ls @ fence @ [LF] @ body"
    using assms(2) d by (cases m) (auto simp: rebuild_content_def)
  show "parse_frontmatter yaml_load (rebuild_content yaml_dump (Some (JObject m)) body)
           = Inr (Some (JObject m))"
    unfolding r using t l by (simp add: parse_frontmatter_def extract_rebuilt [OF p, simplified])
  show "get_body (rebuild_content yaml_dump (Some (JObject m)) body) = body"
    unfolding r by (simp add: get_body_def extract_rebuilt [OF p, simplified])
qed

text \<open> Property C32. Setting a field: when the YAML library reads back the object it wrote, the file
  that \<open>set_frontmatter_field\<close> returns parses to the old object with exactly that key changed,
  and its body is the old body, byte for byte.\<close>

theorem set_frontmatter_field_roundtrip:
  assumes "parse_frontmatter yaml_load content = Inr parsed"
    and "parsed = Some (JObject m) \<or> parsed = None \<and> m = []"
    and "yaml_roundtrips yaml_load yaml_dump (JObject (obj_insert key value m))"
  shows "\<exists>content'. set_frontmatter_field yaml_load yaml_dump content key value = Inr content'
           \<and> parse_frontmatter yaml_load content' = Inr (Some (JObject (obj_insert key value m)))
           \<and> get_body content' = get_body content"
  using assms(1,2) rebuild_parses [OF assms(3) obj_insert_nonempty]
  by (auto simp: set_frontmatter_field_def Let_def)

text \<open>Toy instances of the YAML library, on one object.\<close>

definition sample_line :: str where "sample_line = ''k: v''"
definition sample_obj :: "(str \<times> json) list" where "sample_obj = [(''k'', JString ''v'')]"

definition sample_load :: "str \<Rightarrow> str + json" where
  "sample_load y = (if y = unlines [sample_line] then Inr (JObject sample_obj) else Inl ''bad'')"

definition sample_dump :: "json \<Rightarrow> str + str" where
  "sample_dump j = (case j of JObject m \<Rightarrow> if m = sample_obj then Inr (unlines [sample_line]) else Inl ''bad'' | _ \<Rightarrow> Inl ''bad'')"

lemma sample_roundtrips: "yaml_roundtrips sample_load sample_dump (JObject sample_obj)"
  unfolding yaml_roundtrips_def
  by (rule exI [of _ "[sample_line]"])
     (simp add: sample_dump_def sample_load_def sample_line_def is_fence_def trim_end_char_def fence_def,
      simp add: trim_def is_ws_char_def first_char_def byte_def trim_end.simps ws_end_len_def char_len_def)

theorem set_frontmatter_field_roundtrip_witness:
  "\<exists>content'. set_frontmatter_field sample_load sample_dump ''body'' ''k'' (JString ''v'') = Inr content'
     \<and> parse_frontmatter sample_load content' = Inr (Some (JObject sample_obj))
     \<and> get_body content' = ''body''"
proof -
  have n: "extract_raw_frontmatter ''body'' = None"
    by (simp add: extract_raw_frontmatter_def opener_len_def starts_with_def fence_def)
  then have p: "parse_frontmatter sample_load ''body'' = Inr None"
    by (simp add: parse_frontmatter_def)
  show ?thesis
    using set_frontmatter_field_roundtrip
      [of sample_load "''body''" None "[]" sample_dump "''k''" "JString ''v''", OF p]
      sample_roundtrips n
    by (simp add: sample_obj_def get_body_def)
qed

text \<open>Removing a field: an absent key, or a file without frontmatter, leaves the file
  as it is; the last key removes the whole block and leaves the body; otherwise the result parses
  to the object without the key, over the same body.\<close>

lemma remove_frontmatter_field_roundtrip:
  assumes "parse_frontmatter yaml_load content = Inr parsed"
    and "parsed = Some (JObject m) \<or> parsed = None \<and> m = []"
    and "obj_remove key m \<noteq> [] \<Longrightarrow> yaml_roundtrips yaml_load yaml_dump (JObject (obj_remove key m))"
  shows "\<exists>content'. remove_frontmatter_field yaml_load yaml_dump content key = Inr content'
           \<and> (map_of m key = None \<longrightarrow> content' = content)
           \<and> (map_of m key \<noteq> None \<and> obj_remove key m = [] \<longrightarrow> content' = get_body content)
           \<and> (map_of m key \<noteq> None \<and> obj_remove key m \<noteq> [] \<longrightarrow>
                parse_frontmatter yaml_load content' = Inr (Some (JObject (obj_remove key m)))
                \<and> get_body content' = get_body content)"
proof (cases "map_of m key = None")
  case True
  with assms(1,2) show ?thesis by (auto simp: remove_frontmatter_field_def)
next
  case False
  then have s: "parsed = Some (JObject m)" using assms(2) by auto
  show ?thesis
  proof (cases "obj_remove key m = []")
    case True
    with False s assms(1) show ?thesis by (auto simp: remove_frontmatter_field_def Let_def)
  next
    case n: False
    with False s assms(1) rebuild_parses [OF assms(3) [OF n] n, of "get_body content"] show ?thesis
      by (auto simp: remove_frontmatter_field_def Let_def)
  qed
qed

lemma remove_frontmatter_field_roundtrip_example:
  "\<exists>content'. remove_frontmatter_field sample_load sample_dump
       (fence @ [LF] @ unlines [sample_line] @ fence @ [LF] @ ''body'') ''k'' = Inr content'
     \<and> content' = ''body''"
proof -
  let ?c = "fence @ [LF] @ unlines [sample_line] @ fence @ [LF] @ ''body''"
  have c: "?c = rebuild_content sample_dump (Some (JObject sample_obj)) ''body''"
    by (simp add: rebuild_content_def sample_obj_def sample_dump_def)
  have n: "sample_obj \<noteq> []" by (simp add: sample_obj_def)
  have p: "parse_frontmatter sample_load ?c = Inr (Some (JObject sample_obj))"
    unfolding c by (rule rebuild_parses(1) [OF sample_roundtrips n])
  have b: "get_body ?c = ''body''"
    unfolding c by (rule rebuild_parses(2) [OF sample_roundtrips n])
  have o: "obj_remove ''k'' sample_obj = []" by (simp add: obj_remove_def sample_obj_def)
  have k: "map_of sample_obj ''k'' \<noteq> None" by (simp add: sample_obj_def)
  show ?thesis
    using remove_frontmatter_field_roundtrip
      [of sample_load ?c "Some (JObject sample_obj)" sample_obj "''k''" sample_dump, OF p] o k b
    by simp
qed

end
