(* ===== verification/Paths.thy ===== *)
theory Paths
  imports Errors
begin

text \<open>
  Vault-relative paths (src/src/vault/path.rs), for the Unix build: logical keys (\<^verbatim>\<open>VaultPath\<close>), the
  logical name helpers, and the two normalisers that confine a caller's path to the vault. A
  \<^verbatim>\<open>Path\<close> is its bytes; \<^verbatim>\<open>Path::components\<close> is given by its documented behaviour on Unix. The
  Windows-only name check (\<^verbatim>\<open>cfg(windows)\<close>) is not part of this build.

  The interface \<open>path_normalizer\<close> is what the users of a normaliser rely on: an accepted path is
  clean (no empty, dot or dot-dot component, no backslash) and normalising it again changes nothing.
  Both normalisers of the source are interpretations.
\<close>

abbreviation slash :: char where "slash \<equiv> CHR 0x2F"
abbreviation backslash :: char where "backslash \<equiv> CHR 0x5C"
abbreviation dot :: char where "dot \<equiv> CHR 0x2E"

definition is_sep :: "char \<Rightarrow> bool" where
  "is_sep c \<longleftrightarrow> c = slash \<or> c = backslash"

section \<open>VaultPath\<close>

text \<open>The loop of \<^verbatim>\<open>VaultPath::parse\<close>: \<open>None\<close> when \<open>..\<close> pops an empty list of names.\<close>

fun parse_names :: "str list \<Rightarrow> str list \<Rightarrow> str list option" where
  "parse_names names [] = Some names"
| "parse_names names (n # ns) =
     (if n = [] \<or> n = ''.'' then parse_names names ns
      else if n = ''..'' then (if names = [] then None else parse_names (butlast names) ns)
      else parse_names (names @ [n]) ns)"

definition VaultPath_parse :: "str \<Rightarrow> str vault_result" where
  "VaultPath_parse value =
     (if (value \<noteq> [] \<and> is_sep (hd value)) \<or> has_control value
      then Inl (InvalidPath ''expected a vault-relative UTF-8 path'')
      else case parse_names [] (split_on (\<lambda>c. c = slash) (replace_char backslash slash value)) of
             None \<Rightarrow> Inl (OutsideVault value)
           | Some names \<Rightarrow> Inr (join_with ''/'' names))"

definition VaultPath_entry :: "str \<Rightarrow> str vault_result" where
  "VaultPath_entry name =
     (if name = [] \<or> name = ''.'' \<or> name = ''..'' \<or> list_ex is_sep name \<or> has_control name
      then Inl (InvalidPath ''unrepresentable vault directory entry'')
      else Inr name)"

definition logical_separators :: "str \<Rightarrow> str" where
  "logical_separators p =
     (case to_str p of
        Some raw \<Rightarrow> if backslash \<in> set raw then replace_char backslash slash raw else p
      | None \<Rightarrow> p)"

definition logical_file_name :: "str \<Rightarrow> str option" where
  "logical_file_name p =
     (case to_str p of
        None \<Rightarrow> None
      | Some t \<Rightarrow> (let name = last (split_on is_sep t) in if name \<noteq> [] then Some name else None))"

definition logical_file_stem :: "str \<Rightarrow> str option" where
  "logical_file_stem p =
     (case logical_file_name p of
        None \<Rightarrow> None
      | Some name \<Rightarrow>
          Some (case rsplit_once dot name of
                  Some (stem, _) \<Rightarrow> if stem \<noteq> [] then stem else name
                | None \<Rightarrow> name))"

definition logical_extension :: "str \<Rightarrow> str option" where
  "logical_extension p =
     (case logical_file_name p of
        None \<Rightarrow> None
      | Some name \<Rightarrow>
          (case rsplit_once dot name of
             None \<Rightarrow> None
           | Some (stem, extension) \<Rightarrow> if stem \<noteq> [] then Some extension else None))"

definition path_text :: "str \<Rightarrow> str vault_result" where
  "path_text p = try_bind (ok_or (InvalidPath ''vault paths must be UTF-8'') (to_str p)) VaultPath_parse"

definition logical_join :: "str \<Rightarrow> str \<Rightarrow> str vault_result" where
  "logical_join parent child =
     try_bind (path_text parent) (\<lambda>parent.
     try_bind (path_text child) (\<lambda>child.
       Inr (if parent = [] then child
            else if child = [] then parent
            else parent @ ''/'' @ child)))"

section \<open>Native components\<close>

datatype component = RootDir | CurDir | ParentDir | Normal str

text \<open>
  \<^verbatim>\<open>Path::components\<close> on Unix: a leading slash is the root, empty names vanish, a dot is kept only
  as the first component of a relative path.
\<close>

fun name_component :: "str \<Rightarrow> component list" where
  "name_component n =
     (if n = [] \<or> n = ''.'' then [] else if n = ''..'' then [ParentDir] else [Normal n])"

definition components :: "str \<Rightarrow> component list" where
  "components p =
     (let names = split_on (\<lambda>c. c = slash) p
      in if starts_with p ''/'' then RootDir # concat (map name_component names)
         else (if hd names = ''.'' then [CurDir] else []) @ concat (map name_component names))"

fun normalize_components :: "str \<Rightarrow> str list \<Rightarrow> component list \<Rightarrow> str list vault_result" where
  "normalize_components p names [] = Inr names"
| "normalize_components p names (Normal n # cs) = normalize_components p (names @ [n]) cs"
| "normalize_components p names (CurDir # cs) = normalize_components p names cs"
| "normalize_components p names (ParentDir # cs) =
     (if names = [] then Inl (OutsideVault p) else normalize_components p (butlast names) cs)"
| "normalize_components p names (RootDir # cs) =
     Inl (InvalidPath (''absolute paths not allowed: '' @ p))"

definition normalize_relative :: "str \<Rightarrow> str vault_result" where
  "normalize_relative p =
     try_bind (ok_or (InvalidPath ''vault-relative paths must be UTF-8'') (to_str p)) (\<lambda>text.
     try_bind (normalize_components p [] (components (replace_char backslash slash text))) (\<lambda>names.
       Inr (join_with ''/'' names)))"

fun portable_components :: "str \<Rightarrow> str \<Rightarrow> component list \<Rightarrow> str vault_result" where
  "portable_components p result [] = Inr result"
| "portable_components p result (Normal name # cs) =
     (if to_str name = None \<or> backslash \<in> set name
      then Inl (InvalidPath (''unrepresentable vault filename: '' @ name))
      else portable_components p ((if result = [] then [] else result @ ''/'') @ name) cs)"
| "portable_components p result (_ # cs) =
     Inl (InvalidPath (''expected a physical vault-relative path: '' @ p))"

definition portable_native :: "str \<Rightarrow> str vault_result" where
  "portable_native p = portable_components p [] (components p)"

text \<open>\<^verbatim>\<open>Path::strip_prefix\<close> compares whole components.\<close>

fun strip_components :: "component list \<Rightarrow> component list \<Rightarrow> component list option" where
  "strip_components [] cs = Some cs"
| "strip_components (b # bs) (c # cs) = (if b = c then strip_components bs cs else None)"
| "strip_components (b # bs) [] = None"

definition relative_from_absolute :: "str \<Rightarrow> str \<Rightarrow> str vault_result" where
  "relative_from_absolute root absolute =
     (case strip_components (components root) (components absolute) of
        None \<Rightarrow> Inl (OutsideVault absolute)
      | Some cs \<Rightarrow> portable_components absolute [] cs)"

section \<open>Clean paths\<close>

definition clean_name :: "str \<Rightarrow> bool" where
  "clean_name n \<longleftrightarrow> n \<noteq> [] \<and> n \<noteq> ''.'' \<and> n \<noteq> ''..'' \<and> \<not> list_ex is_sep n"

definition clean_path :: "str \<Rightarrow> bool" where
  "clean_path p \<longleftrightarrow> p = [] \<or> list_all clean_name (split_on (\<lambda>c. c = slash) p)"

lemma byte_sep [simp]: "byte slash = 47" "byte backslash = 92" "byte dot = 46"
  by (simp_all add: byte_def)

lemma utf8_ascii1: "byte c < 128 \<Longrightarrow> utf8 [c]"
  by (simp add: valid_char_def)

lemma utf8_slash [simp]: "utf8 ''/''"
  by (rule utf8_ascii1) simp

lemma clean_join: "list_all clean_name ns \<Longrightarrow> clean_path (join_with ''/'' ns)"
proof (cases "ns = []")
  case False
  assume c: "list_all clean_name ns"
  then have "\<forall>n \<in> set ns. slash \<notin> set n"
    by (auto simp: list_all_iff clean_name_def list_ex_iff is_sep_def)
  then have "split_on (\<lambda>c. c = slash) (join_with ''/'' ns) = ns"
    using False by (intro split_join) auto
  with c show ?thesis by (simp add: clean_path_def)
qed (simp add: clean_path_def)

lemma parse_names_append:
  "list_all clean_name ns \<Longrightarrow> parse_names names (ns @ rest) = parse_names (names @ ns) rest"
  by (induction ns arbitrary: names) (auto simp: clean_name_def)

lemma parse_names_clean:
  "parse_names names ns = Some out \<Longrightarrow> list_all clean_name names
   \<Longrightarrow> (\<forall>n \<in> set ns. \<not> list_ex is_sep n) \<Longrightarrow> list_all clean_name out"
proof (induction names ns rule: parse_names.induct)
  case (2 names n ns)
  have b: "list_all clean_name (butlast names)"
    using "2.prems"(2) by (auto simp: list_all_iff dest: in_set_butlastD)
  consider "n = [] \<or> n = ''.''" | "n = ''..''" | "clean_name n" "n \<noteq> []" "n \<noteq> ''.''" "n \<noteq> ''..''"
    using "2.prems"(3) by (auto simp: clean_name_def)
  then show ?case
  proof cases
    case 1
    with "2.IH"(1) "2.prems" show ?thesis by auto
  next
    case 2
    with "2.IH"(2) "2.prems" b show ?thesis by (auto split: if_splits)
  next
    case 3
    with "2.IH"(3) "2.prems" show ?thesis by simp
  qed
qed simp

lemma parse_names_subset: "parse_names names ns = Some out \<Longrightarrow> set out \<subseteq> set names \<union> set ns"
  by (induction names ns rule: parse_names.induct) (auto split: if_splits dest!: in_set_butlastD)

lemma spelled_names:
  "n \<in> set (split_on (\<lambda>c. c = slash) (replace_char backslash slash v)) \<Longrightarrow> \<not> list_ex is_sep n"
  using split_on_free [of n "\<lambda>c. c = slash" "replace_char backslash slash v"]
    split_on_chars [of n "\<lambda>c. c = slash" "replace_char backslash slash v"]
  by (auto simp: list_ex_iff is_sep_def dest!: subsetD dest: set_replace_char)

lemma clean_path_backslash: "clean_path p \<Longrightarrow> backslash \<notin> set p"
proof
  assume c: "clean_path p" and b: "backslash \<in> set p"
  then have l: "list_all clean_name (split_on (\<lambda>c. c = slash) p)" by (auto simp: clean_path_def)
  have "p = join_with ''/'' (split_on (\<lambda>c. c = slash) p)" by (simp add: join_split)
  then have "set p \<subseteq> {slash} \<union> (\<Union>w \<in> set (split_on (\<lambda>c. c = slash) p). set w)"
    using set_join_with [of "''/''" "split_on (\<lambda>c. c = slash) p"] by simp
  with b obtain w where "w \<in> set (split_on (\<lambda>c. c = slash) p)" "backslash \<in> set w" by auto
  with l show False by (auto simp: list_all_iff clean_name_def list_ex_iff is_sep_def)
qed

lemma clean_path_hd: "clean_path p \<Longrightarrow> p \<noteq> [] \<Longrightarrow> \<not> is_sep (hd p)"
  using clean_path_backslash [of p]
  by (cases p) (auto simp: clean_path_def clean_name_def is_sep_def)

text \<open>
  The counting reference for \<open>..\<close>: a path escapes when some prefix of its names has more parent
  steps than ordinary names.
\<close>

definition is_plain :: "str \<Rightarrow> bool" where
  "is_plain n \<longleftrightarrow> n \<noteq> [] \<and> n \<noteq> ''.'' \<and> n \<noteq> ''..''"

definition escapes :: "nat \<Rightarrow> str list \<Rightarrow> bool" where
  "escapes d ns \<longleftrightarrow>
     (\<exists>k \<le> length ns. d + length (filter is_plain (take k ns)) < count_list (take k ns) ''..'')"

lemma escapes_Nil [simp]: "\<not> escapes d []"
  by (simp add: escapes_def)

lemma ex_le_Suc: "(\<exists>k \<le> Suc n. Q k) \<longleftrightarrow> Q 0 \<or> (\<exists>k \<le> n. Q (Suc k))"
proof
  assume "\<exists>k \<le> Suc n. Q k"
  then obtain k where "k \<le> Suc n" "Q k" by blast
  then show "Q 0 \<or> (\<exists>k \<le> n. Q (Suc k))" by (cases k) auto
qed auto

lemma escapes_Cons:
  "escapes d (n # ns) \<longleftrightarrow>
     (if n = ''..'' then d = 0 \<or> escapes (d - 1) ns
      else if is_plain n then escapes (Suc d) ns else escapes d ns)"
proof -
  have ex: "(\<exists>k \<le> length (n # ns). P (take k (n # ns))) \<longleftrightarrow> P [] \<or> (\<exists>k \<le> length ns. P (n # take k ns))"
    for P :: "str list \<Rightarrow> bool"
    using ex_le_Suc [of "length ns" "\<lambda>k. P (take k (n # ns))"] by simp
  show ?thesis
    unfolding escapes_def ex [of "\<lambda>xs. d + length (filter is_plain xs) < count_list xs ''..''"]
    by (cases d) (auto simp: is_plain_def)
qed

lemma parse_names_None_iff: "parse_names names ns = None \<longleftrightarrow> escapes (length names) ns"
proof (induction names ns rule: parse_names.induct)
  case (2 names n ns)
  then show ?case by (cases "names = []") (auto simp: escapes_Cons is_plain_def)
qed simp

lemma parse_names_clean_path:
  "clean_path p \<Longrightarrow> p \<noteq> [] \<Longrightarrow>
   parse_names [] (split_on (\<lambda>c. c = slash) p) = Some (split_on (\<lambda>c. c = slash) p)"
  using parse_names_append [of "split_on (\<lambda>c. c = slash) p" "[]" "[]"]
  by (simp add: clean_path_def)

text \<open>The native components of a path fold to the same names as the loop of \<open>VaultPath_parse\<close>.\<close>

lemma normalize_names:
  "normalize_components p names (concat (map name_component ns)) =
     (case parse_names names ns of None \<Rightarrow> Inl (OutsideVault p) | Some out \<Rightarrow> Inr out)"
  by (induction names ns rule: parse_names.induct) auto

lemma starts_with_single: "starts_with s [c] \<longleftrightarrow> s \<noteq> [] \<and> hd s = c"
  by (cases s) (auto simp: starts_with_def)

lemma normalize_components_eq:
  "normalize_components p [] (components t) =
     (if t \<noteq> [] \<and> hd t = slash then Inl (InvalidPath (''absolute paths not allowed: '' @ p))
      else case parse_names [] (split_on (\<lambda>c. c = slash) t) of
             None \<Rightarrow> Inl (OutsideVault p) | Some out \<Rightarrow> Inr out)"
  by (simp add: components_def Let_def starts_with_single normalize_names)

lemma hd_replace_sep:
  "v \<noteq> [] \<Longrightarrow> hd (replace_char backslash slash v) = slash \<longleftrightarrow> is_sep (hd v)"
  by (cases v) (auto simp: replace_char_def is_sep_def)

lemma replace_char_Nil [simp]: "replace_char a b s = [] \<longleftrightarrow> s = []"
  by (simp add: replace_char_def)

lemma spelled_clean:
  "parse_names [] (split_on (\<lambda>c. c = slash) (replace_char backslash slash v)) = Some ns
   \<Longrightarrow> clean_path (join_with ''/'' ns)"
  by (rule clean_join, rule parse_names_clean) (auto dest: spelled_names)

lemma parse_result:
  "VaultPath_parse v = Inr p \<longleftrightarrow>
     \<not> (v \<noteq> [] \<and> is_sep (hd v)) \<and> \<not> has_control v
     \<and> (\<exists>ns. parse_names [] (split_on (\<lambda>c. c = slash) (replace_char backslash slash v)) = Some ns
            \<and> p = join_with ''/'' ns)"
  by (auto simp: VaultPath_parse_def split: option.splits)

lemma parse_clean: "VaultPath_parse v = Inr p \<Longrightarrow> clean_path p"
  unfolding parse_result
  by (auto dest: spelled_clean)

lemma parse_fix: "clean_path p \<Longrightarrow> \<not> has_control p \<Longrightarrow> VaultPath_parse p = Inr p"
proof (cases "p = []")
  case False
  assume c: "clean_path p" and "\<not> has_control p"
  with False show ?thesis
    using clean_path_hd [OF c False]
    by (simp add: parse_result replace_char_id clean_path_backslash parse_names_clean_path join_split)
qed (simp add: parse_result replace_char_def)

lemma normalize_result:
  "normalize_relative v = Inr p \<longleftrightarrow>
     utf8 v \<and> \<not> (v \<noteq> [] \<and> is_sep (hd v))
     \<and> (\<exists>ns. parse_names [] (split_on (\<lambda>c. c = slash) (replace_char backslash slash v)) = Some ns
            \<and> p = join_with ''/'' ns)"
  by (auto simp: normalize_relative_def to_str_def normalize_components_eq hd_replace_sep
      result_simps split: option.splits if_splits)

lemma normalize_clean: "normalize_relative v = Inr p \<Longrightarrow> clean_path p"
  unfolding normalize_result
  by (auto dest: spelled_clean)

lemma normalize_fix: "clean_path p \<Longrightarrow> utf8 p \<Longrightarrow> normalize_relative p = Inr p"
proof (cases "p = []")
  case False
  assume c: "clean_path p" and "utf8 p"
  with False show ?thesis
    using clean_path_hd [OF c False]
    by (simp add: normalize_result replace_char_id clean_path_backslash parse_names_clean_path join_split)
qed (simp add: normalize_result replace_char_def)

text \<open>Replacing one ASCII byte by another keeps a text well formed and free of control characters.\<close>

lemma utf8_replace:
  "utf8 s \<Longrightarrow> byte a < 128 \<Longrightarrow> byte b < 128 \<Longrightarrow> utf8 (replace_char a b s)"
proof (induction "length s" arbitrary: s rule: less_induct)
  case less
  show ?case
  proof (cases "a \<in> set s")
    case False
    with less.prems show ?thesis by (simp add: replace_char_id)
  next
    case True
    then obtain xs ys where s: "s = xs @ a # ys" and "a \<notin> set xs" by (meson split_list_first)
    with less.prems have u: "utf8 xs" "utf8 ys" using utf8_split_ascii by blast+
    have "utf8 (replace_char a b ys)" using less.hyps [of ys] u less.prems s by simp
    moreover have "replace_char a b s = xs @ b # replace_char a b ys"
      using \<open>a \<notin> set xs\<close> by (auto simp: s replace_char_def intro!: map_idI)
    ultimately show ?thesis
      using u(1) less.prems(3) by (simp add: utf8_append valid_char_def)
  qed
qed

lemma spelled_split:
  "split_on (\<lambda>c. c = slash) (replace_char backslash slash v) = split_on is_sep v"
  by (simp add: split_on_replace is_sep_def [abs_def] disj_commute)

lemma spelled_text:
  assumes "utf8 v" and "parse_names [] (split_on is_sep v) = Some ns"
  shows "utf8 (join_with ''/'' ns)" and "\<not> has_control v \<Longrightarrow> \<not> has_control (join_with ''/'' ns)"
proof -
  have ns: "set ns \<subseteq> set (split_on is_sep v)" using parse_names_subset [OF assms(2)] by simp
  have sep: "32 \<le> byte c \<and> byte c < 127" if "is_sep c" for c using that by (auto simp: is_sep_def)
  have u: "\<forall>w \<in> set ns. utf8 w"
    using utf8_split_on [OF assms(1), of is_sep] sep ns by fastforce
  then show "utf8 (join_with ''/'' ns)" by (rule utf8_join_with [OF utf8_slash])
  have s: "\<not> has_control ''/''" by (simp add: has_control_def is_control_char_def)
  assume "\<not> has_control v"
  then have "\<forall>w \<in> set ns. \<not> has_control w"
    using has_control_split_on [OF assms(1), of is_sep] sep ns by blast
  with u s show "\<not> has_control (join_with ''/'' ns)"
    using has_control_join_with [OF utf8_slash u] by blast
qed

section \<open>The interface of a normaliser\<close>

definition names_of :: "str \<Rightarrow> str list" where
  "names_of p = (if p = [] then [] else split_on (\<lambda>c. c = slash) p)"

lemma components_clean:
  "list_all clean_name ns \<Longrightarrow> concat (map name_component ns) = map Normal ns"
  by (induction ns) (auto simp: clean_name_def)

lemma components_below:
  assumes "starts_with root ''/''" and "clean_path p"
  shows "components (root @ ''/'' @ p) = components root @ map Normal (names_of p)"
proof -
  have "concat (map name_component (split_on (\<lambda>c. c = slash) p)) = map Normal (names_of p)"
    using assms(2) components_clean by (auto simp: clean_path_def names_of_def)
  moreover have "starts_with (root @ ''/'' @ p) ''/''"
    using assms(1) by (auto simp: starts_with_iff)
  ultimately show ?thesis
    using assms(1) by (simp add: components_def Let_def split_on_append)
qed

locale path_normalizer =
  fixes norm :: "str \<Rightarrow> str vault_result"
  assumes norm_clean: "norm v = Inr p \<Longrightarrow> clean_path p"
    and norm_text: "utf8 v \<Longrightarrow> norm v = Inr p \<Longrightarrow> utf8 p"
    and norm_fix: "utf8 v \<Longrightarrow> norm v = Inr p \<Longrightarrow> norm p = Inr p"
begin

lemma norm_below_root:
  "norm v = Inr p \<Longrightarrow> starts_with root ''/'' \<Longrightarrow>
   components (root @ ''/'' @ p) = components root @ map Normal (names_of p)"
  by (intro components_below norm_clean)

lemma norm_no_parent:
  "norm v = Inr p \<Longrightarrow> starts_with root ''/'' \<Longrightarrow>
   ParentDir \<in> set (components (root @ ''/'' @ p)) \<Longrightarrow> ParentDir \<in> set (components root)"
  using norm_below_root [of v p root] by auto

lemma norm_separators: "norm v = Inr p \<Longrightarrow> logical_separators p = p"
  by (auto simp: logical_separators_def to_str_def dest!: norm_clean clean_path_backslash)

end

interpretation vault_key: path_normalizer VaultPath_parse
proof
  show "clean_path p" if "VaultPath_parse v = Inr p" for v p
    using that by (rule parse_clean)
  show "utf8 p" if "utf8 v" "VaultPath_parse v = Inr p" for v p
    using that spelled_text by (auto simp: parse_result spelled_split)
  show "VaultPath_parse p = Inr p" if "utf8 v" "VaultPath_parse v = Inr p" for v p
    using that spelled_text(2) parse_clean [OF that(2)]
    by (intro parse_fix) (auto simp: parse_result spelled_split)
qed

interpretation native_key: path_normalizer normalize_relative
proof
  show "clean_path p" if "normalize_relative v = Inr p" for v p
    using that by (rule normalize_clean)
  show u: "utf8 p" if "utf8 v" "normalize_relative v = Inr p" for v p
    using that spelled_text by (auto simp: normalize_result spelled_split)
  show "normalize_relative p = Inr p" if "utf8 v" "normalize_relative v = Inr p" for v p
    using normalize_clean [OF that(2)] u [OF that] by (rule normalize_fix)
qed

section \<open>Properties\<close>

text \<open>
  Property C22. A key accepted by \<^verbatim>\<open>VaultPath::parse\<close> is confined: joined to an absolute root it has
  the root's components followed by ordinary names only, it holds no control character, and parsing
  it again returns it unchanged.
\<close>

theorem VaultPath_parse_confined:
  assumes "utf8 v" and "VaultPath_parse v = Inr p" and "starts_with root ''/''"
  shows "components (root @ ''/'' @ p) = components root @ map Normal (names_of p)
         \<and> clean_path p \<and> \<not> has_control p \<and> VaultPath_parse p = Inr p"
  using vault_key.norm_below_root [OF assms(2,3)] vault_key.norm_fix [OF assms(1,2)] parse_clean [OF assms(2)]
  by (simp add: parse_result)

theorem VaultPath_parse_confined_witness:
  "VaultPath_parse ''a/./b/../c.md'' = Inr ''a/c.md''
   \<and> components (''/vault'' @ ''/'' @ ''a/c.md'') = components ''/vault'' @ map Normal (names_of ''a/c.md'')
   \<and> VaultPath_parse ''a/c.md'' = Inr ''a/c.md''"
proof -
  have u: "utf8 ''a/./b/../c.md''" and p: "VaultPath_parse ''a/./b/../c.md'' = Inr ''a/c.md''"
    and r: "starts_with ''/vault'' ''/''"
    by code_simp+
  show ?thesis
    using p VaultPath_parse_confined [OF u p r] by blast
qed

text \<open>
  \<^verbatim>\<open>VaultPath::parse\<close> reports \<^verbatim>\<open>OutsideVault\<close> exactly when the path is relative, free of
  control characters, and some prefix of its names (split at either separator) has more parent
  steps than ordinary names: no escaping path is accepted and no other path is refused.
\<close>

lemma VaultPath_parse_escape_iff:
  "VaultPath_parse v = Inl (OutsideVault v) \<longleftrightarrow>
     \<not> (v \<noteq> [] \<and> is_sep (hd v)) \<and> \<not> has_control v \<and> escapes 0 (split_on is_sep v)"
  by (auto simp: VaultPath_parse_def spelled_split parse_names_None_iff [of "[]", simplified, symmetric]
      split: option.splits)

text \<open>
  The native normaliser and the logical-key parser accept the same paths with the same
  result and refuse the same paths for the same reason, on every text without control characters:
  \<^verbatim>\<open>normalize_relative\<close>, which walks \<^verbatim>\<open>Path::components\<close>, refines \<^verbatim>\<open>VaultPath::parse\<close>.
\<close>

lemma normalize_relative_agrees:
  assumes "utf8 v" and "\<not> has_control v"
  shows "normalize_relative v =
     (case VaultPath_parse v of
        Inr p \<Rightarrow> Inr p
      | Inl (OutsideVault _) \<Rightarrow> Inl (OutsideVault v)
      | Inl _ \<Rightarrow> Inl (InvalidPath (''absolute paths not allowed: '' @ v)))"
  using assms
  by (auto simp: normalize_relative_def to_str_def normalize_components_eq hd_replace_sep
      VaultPath_parse_def split: option.splits)

lemma normalize_relative_agrees_example:
  "normalize_relative ''notes/../x.md'' = Inr ''x.md''
   \<and> normalize_relative ''a/../..'' = Inl (OutsideVault ''a/../..'')"
proof -
  have "utf8 ''notes/../x.md''" "\<not> has_control ''notes/../x.md''"
    and "VaultPath_parse ''notes/../x.md'' = Inr ''x.md''"
    and "utf8 ''a/../..''" "\<not> has_control ''a/../..''"
    and "VaultPath_parse ''a/../..'' = Inl (OutsideVault ''a/../..'')"
    by code_simp+
  then show ?thesis by (simp add: normalize_relative_agrees)
qed

end
