(* ===== verification/Access.thy ===== *)
theory Access
  imports Complex_Main Frontmatter Paths
begin

text \<open>
  The audience policy of private memory readers (src/src/access.rs): validation of a read scope, the
  path and frontmatter checks, and the eligibility of a private source. A finite \<^verbatim>\<open>f64\<close> is its rational
  value; the clock is the parameter \<open>now\<close>, the \<^verbatim>\<open>f64\<close> the source computes from \<^verbatim>\<open>Utc::now()\<close>.
\<close>

datatype f64 = Finite rat | Infinite bool | NaN

definition f64_MAX :: rat where
  "f64_MAX = 2 ^ 1024 - 2 ^ 971"

record ReadScope =
  version :: nat
  tenant_id :: str
  star_label :: str
  workspace_id :: str
  audience_kind :: str
  audience_id :: str
  purpose :: str
  scope_id :: str
  allowed_prefixes :: "str list"
  expires_at :: f64

definition valid_id :: "str \<Rightarrow> bool" where
  "valid_id v \<longleftrightarrow> v \<noteq> [] \<and> length v \<le> 256
     \<and> list_all (\<lambda>b. is_ascii_alphanumeric b \<or> b = CHR ''-'' \<or> b = CHR ''_'') v"

text \<open>The components a native path shows through \<^verbatim>\<open>as_os_str\<close>.\<close>

fun component_str :: "component \<Rightarrow> str" where
  "component_str RootDir = ''/''"
| "component_str CurDir = ''.''"
| "component_str ParentDir = ''..''"
| "component_str (Normal n) = n"

fun is_normal :: "component \<Rightarrow> bool" where
  "is_normal (Normal _) = True"
| "is_normal _ = False"

definition starts_with_dot :: "str \<Rightarrow> bool" where
  "starts_with_dot n \<longleftrightarrow> starts_with n ''.''"

definition normalized :: "str \<Rightarrow> bool" where
  "normalized path =
     (case to_str path of
        None \<Rightarrow> False
      | Some raw \<Rightarrow>
          raw \<noteq> [] \<and> backslash \<notin> set raw \<and> CHR 0x00 \<notin> set raw \<and> find_str ''//'' raw = None
          \<and> \<not> list_ex (\<lambda>p. p = [] \<or> starts_with_dot p) (split_on (\<lambda>c. c = slash) raw)
          \<and> list_all is_normal (components path))"

definition prefix_ok :: "ReadScope \<Rightarrow> str \<Rightarrow> bool" where
  "prefix_ok sc pre =
     (let path = trim_end_char slash pre in
      \<not> (\<not> normalized path
         \<or> (\<not> ends_with pre ''/'' \<and> \<not> ends_with pre ''.md'')
         \<or> \<not> list_ex (\<lambda>part. component_str part = scope_id sc) (components path)
         \<or> \<not> (case components path of
                [] \<Rightarrow> False
              | part # _ \<Rightarrow>
                  (case to_str (component_str part) of
                     None \<Rightarrow> False
                   | Some name \<Rightarrow> name \<in> {''Capture'', ''Organize'', ''Distill'', ''Express''}))
         \<or> (starts_with pre ''Capture/'' \<and> purpose sc = ''conversation'')))"

definition ReadScope_validate :: "rat \<Rightarrow> ReadScope \<Rightarrow> unit vault_result" where
  "ReadScope_validate now sc =
     (if version sc \<noteq> 1
         \<or> audience_kind sc \<notin> {''channel'', ''dm''}
         \<or> purpose sc \<notin> {''conversation'', ''reflection'', ''operator''}
         \<or> list_ex (\<lambda>s. \<not> valid_id s)
             [tenant_id sc, star_label sc, workspace_id sc, audience_id sc, scope_id sc]
         \<or> (case expires_at sc of Finite t \<Rightarrow> t \<le> now | _ \<Rightarrow> True)
         \<or> allowed_prefixes sc = [] \<or> length (allowed_prefixes sc) > 64
      then Inl (Other ''invalid private memory read scope'')
      else if list_all (prefix_ok sc) (allowed_prefixes sc) then Inr ()
      else Inl (Other ''invalid private memory path scope''))"

definition allows_path :: "ReadScope \<Rightarrow> str \<Rightarrow> bool" where
  "allows_path sc p =
     (if \<not> normalized p then False
      else case to_str p of
             None \<Rightarrow> False
           | Some path \<Rightarrow>
               list_ex (\<lambda>pre. if ends_with pre ''/'' then starts_with path pre else path = pre)
                 (allowed_prefixes sc))"

definition json_str :: "json \<Rightarrow> str \<Rightarrow> str option" where
  "json_str fm key = (case json_get fm key of None \<Rightarrow> None | Some v \<Rightarrow> json_as_str v)"

definition allows_frontmatter :: "ReadScope \<Rightarrow> json option \<Rightarrow> bool" where
  "allows_frontmatter sc frontmatter =
     (case frontmatter of
        None \<Rightarrow> False
      | Some fm \<Rightarrow>
          if json_str fm ''memory_schema'' \<noteq> Some ''slack-code/1''
             \<or> json_str fm ''sensitivity'' \<noteq> Some ''normal''
          then False
          else list_all (\<lambda>(key, value). json_str fm key = Some value)
                 [(''tenant_id'', tenant_id sc), (''star_label'', star_label sc),
                  (''workspace_id'', workspace_id sc), (''audience_kind'', audience_kind sc),
                  (''audience_id'', audience_id sc)])"

text \<open>A bullet line whose text is tagged as inferred.\<close>

definition starts_with_ws :: "str \<Rightarrow> bool" where
  "starts_with_ws s \<longleftrightarrow> is_ws_char (first_char s)"

definition inferred_line :: "str \<Rightarrow> bool" where
  "inferred_line line =
     (case trim_start line of
        [] \<Rightarrow> False
      | c # rest \<Rightarrow>
          if c = CHR ''-'' \<or> c = CHR ''*''
          then starts_with_ws rest
               \<and> (case strip_prefix ''[inferred'' (trim_start rest) of
                    None \<Rightarrow> False
                  | Some tag \<Rightarrow> starts_with_ws tag)
          else False)"

definition private_scope :: "str \<Rightarrow> str \<Rightarrow> str \<Rightarrow> str" where
  "private_scope workspace kind audience =
     ''slack-'' @ to_ascii_lowercase workspace @ ''-'' @ kind @ ''-'' @ to_ascii_lowercase audience"

definition private_policy :: "str \<Rightarrow> str \<Rightarrow> str \<Rightarrow> str \<Rightarrow> str \<Rightarrow> ReadScope" where
  "private_policy tenant star workspace kind audience =
     (let scope = private_scope workspace kind audience in
      \<lparr> version = 1, tenant_id = tenant, star_label = star, workspace_id = workspace,
        audience_kind = kind, audience_id = audience, purpose = ''conversation'', scope_id = scope,
        allowed_prefixes =
          map (\<lambda>section. ''Organize/'' @ section @ ''/'' @ scope @ ''/'')
              [''Self'', ''People'', ''Work'', ''Topics'']
          @ [''Express/Skills/'' @ scope @ ''/'', ''Distill/'' @ scope @ ''/brief.md'',
             ''Distill/'' @ scope @ ''/index.md''],
        expires_at = Finite f64_MAX \<rparr>)"

text \<open>\<^verbatim>\<open>Path::file_name\<close> and \<^verbatim>\<open>Path::extension\<close>.\<close>

definition native_file_name :: "str \<Rightarrow> str option" where
  "native_file_name p =
     (case rev (components p) of Normal n # _ \<Rightarrow> Some n | _ \<Rightarrow> None)"

definition native_extension :: "str \<Rightarrow> str option" where
  "native_extension p =
     (case native_file_name p of
        None \<Rightarrow> None
      | Some name \<Rightarrow>
          (case rsplit_once dot name of
             None \<Rightarrow> None
           | Some (stem, ext) \<Rightarrow> if stem = [] then None else Some ext))"

definition private_source_eligible :: "(str \<Rightarrow> str + json) \<Rightarrow> str \<Rightarrow> str \<Rightarrow> bool" where
  "private_source_eligible yaml_load path content =
     (case parse_frontmatter yaml_load content of
        Inr (Some fm) \<Rightarrow>
          (case (json_str fm ''tenant_id'', json_str fm ''star_label'', json_str fm ''workspace_id'',
                 json_str fm ''audience_kind'', json_str fm ''audience_id'') of
             (Some tenant, Some star, Some workspace, Some kind, Some audience) \<Rightarrow>
               if \<not> list_all valid_id [tenant, star, workspace, audience]
                  \<or> kind \<notin> {''channel'', ''dm''}
                  \<or> list_ex inferred_line (lines content)
               then False
               else let policy = private_policy tenant star workspace kind audience in
                    native_extension path = Some ''md''
                    \<and> allows_path policy path \<and> allows_frontmatter policy (Some fm)
           | _ \<Rightarrow> False)
      | _ \<Rightarrow> False)"

section \<open>Names of an accepted path\<close>

abbreviation segments :: "str \<Rightarrow> str list" where
  "segments p \<equiv> split_on (\<lambda>c. c = slash) p"

lemma components_plain: "list_all is_plain ns \<Longrightarrow> concat (map name_component ns) = map Normal ns"
  by (induction ns) (auto simp: is_plain_def)

lemma normalized_segments:
  assumes "normalized p"
  shows "p \<noteq> []" and "n \<in> set (segments p) \<Longrightarrow> n \<noteq> [] \<and> hd n \<noteq> dot"
    and "components p = map Normal (segments p)" and "backslash \<notin> set p"
proof -
  from assms show p: "p \<noteq> []" and "backslash \<notin> set p"
    by (auto simp: normalized_def to_str_def split: if_splits)
  have seg: "\<forall>n \<in> set (segments p). n \<noteq> [] \<and> hd n \<noteq> dot"
    using assms
    by (auto simp: normalized_def to_str_def starts_with_dot_def starts_with_single list_ex_iff
        split: if_splits)
  then show "n \<in> set (segments p) \<Longrightarrow> n \<noteq> [] \<and> hd n \<noteq> dot" by blast
  have "list_all is_plain (segments p)"
    using seg by (auto simp: list_all_iff is_plain_def)
  note c = components_plain [OF this]
  have "\<not> starts_with p ''/''"
  proof
    assume "starts_with p ''/''"
    then obtain q where "p = slash # q" by (auto simp: starts_with_iff)
    then have "[] \<in> set (segments p)" by simp
    with seg show False by blast
  qed
  moreover have "hd (segments p) \<noteq> ''.''" using seg by (metis hd_in_set list.sel(1) split_on_nonempty)
  ultimately show "components p = map Normal (segments p)"
    using c by (simp add: components_def Let_def)
qed

text \<open>A path below an accepted prefix starts with the names of the prefix.\<close>

lemma allowed_below:
  assumes "normalized p" and "if ends_with pre ''/'' then starts_with p pre else p = pre"
    and "normalized (trim_end_char slash pre)"
  shows "\<exists>rest. segments p = segments (trim_end_char slash pre) @ rest"
proof (cases "ends_with pre ''/''")
  case False
  then have "trim_end_char slash pre = pre"
    by (cases pre rule: rev_cases) (auto simp: trim_end_char_def ends_with_def)
  with False assms(2) show ?thesis by simp
next
  case True
  obtain n where n: "pre = trim_end_char slash pre @ replicate n slash"
    using trim_end_char_split by blast
  from True have "pre \<noteq> []" "last pre = slash"
    by (auto simp: ends_with_iff)
  moreover have "trim_end_char slash pre \<noteq> []" using normalized_segments(1) [OF assms(3)] .
  then have "last (trim_end_char slash pre) \<noteq> slash" by (rule trim_end_char_last)
  ultimately have "n \<noteq> 0" using n by (metis append.right_neutral replicate_0)
  then obtain m where m: "n = Suc m" by (cases n) auto
  from True assms(2) obtain q where "p = pre @ q" by (auto simp: starts_with_iff)
  have "pre = trim_end_char slash pre @ slash # replicate m slash"
    using n unfolding m replicate_Suc .
  then have "p = trim_end_char slash pre @ slash # (replicate m slash @ q)"
    using \<open>p = pre @ q\<close> by (metis append.assoc append_Cons)
  then have "segments p = segments (trim_end_char slash pre) @ segments (replicate m slash @ q)"
    by (simp only: split_on_append)
  then show ?thesis by blast
qed

lemma validate_prefixes:
  assumes "ReadScope_validate now sc = Inr ()"
  shows "pre \<in> set (allowed_prefixes sc) \<Longrightarrow> prefix_ok sc pre"
    and "\<exists>t. expires_at sc = Finite t \<and> now < t"
    and "version sc = 1" and "valid_id (scope_id sc)"
  using assms
  by (auto simp: ReadScope_validate_def list_all_iff not_le split: if_splits f64.splits)

definition top_sections :: "str set" where
  "top_sections = {''Capture'', ''Organize'', ''Distill'', ''Express''}"

lemma prefix_ok_names:
  assumes "prefix_ok sc pre"
  shows "normalized (trim_end_char slash pre)"
    and "hd (segments (trim_end_char slash pre)) \<in> top_sections"
    and "scope_id sc \<in> set (segments (trim_end_char slash pre))"
    and "purpose sc = ''conversation'' \<Longrightarrow> \<not> starts_with pre ''Capture/''"
    and "ends_with pre ''/'' \<or> ends_with pre ''.md''"
proof -
  show n: "normalized (trim_end_char slash pre)" using assms by (simp add: prefix_ok_def Let_def)
  note c = normalized_segments(3) [OF n]
  show "hd (segments (trim_end_char slash pre)) \<in> top_sections"
    using assms unfolding prefix_ok_def Let_def c
    by (cases "segments (trim_end_char slash pre)")
       (auto simp: top_sections_def to_str_def split: if_splits)
  show "scope_id sc \<in> set (segments (trim_end_char slash pre))"
    using assms unfolding prefix_ok_def Let_def c by (auto simp: list_ex_iff)
qed (use assms in \<open>auto simp: prefix_ok_def Let_def\<close>)

lemma capture_prefix:
  assumes "normalized (trim_end_char slash pre)" and "hd (segments (trim_end_char slash pre)) = ''Capture''"
    and "ends_with pre ''/'' \<or> ends_with pre ''.md''"
  shows "starts_with pre ''Capture/''"
proof -
  let ?t = "trim_end_char slash pre"
  obtain n where n: "pre = ?t @ replicate n slash" using trim_end_char_split by blast
  have j: "join_with ''/'' (segments ?t) = ?t" by (rule join_split)
  obtain ws where w: "segments ?t = ''Capture'' # ws"
    using assms(2) by (cases "segments ?t") auto
  show ?thesis
  proof (cases "ws = []")
    case True
    with j w have t: "?t = ''Capture''" by simp
    show ?thesis
    proof (cases n)
      case 0
      with n t have "pre = ''Capture''" by simp
      with assms(3) show ?thesis by (simp add: ends_with_def)
    next
      case (Suc m)
      with n t have "pre = ''Capture/'' @ replicate m slash" by simp
      then show ?thesis by (metis starts_with_iff)
    qed
  next
    case False
    with j w have "?t = ''Capture/'' @ join_with ''/'' ws" by (simp add: join_with_Cons)
    with n have "pre = ''Capture/'' @ (join_with ''/'' ws @ replicate n slash)" by (metis append.assoc)
    then show ?thesis by (metis starts_with_iff)
  qed
qed

section \<open>Properties\<close>

text \<open> Property C23. A validated read scope confines its reader: every path it allows is a clean relative
  path whose names never start with a dot, whose first name is one of the four top sections, that
  passes through a directory named like the scope, and that is outside Capture when the purpose is
  conversation; and the scope has a finite expiry that is still ahead.\<close>

theorem validated_scope_confines:
  assumes "ReadScope_validate now sc = Inr ()" and "allows_path sc p"
  shows "clean_path p \<and> (\<forall>n \<in> set (segments p). hd n \<noteq> dot)
         \<and> hd (segments p) \<in> top_sections \<and> scope_id sc \<in> set (segments p)
         \<and> (purpose sc = ''conversation'' \<longrightarrow> hd (segments p) \<noteq> ''Capture'')
         \<and> (\<exists>t. expires_at sc = Finite t \<and> now < t)"
proof -
  from assms(2) have n: "normalized p" by (simp add: allows_path_def split: if_splits)
  from assms(2) obtain pre where pre: "pre \<in> set (allowed_prefixes sc)"
    and a: "if ends_with pre ''/'' then starts_with p pre else p = pre"
    by (auto simp: allows_path_def list_ex_iff to_str_def split: if_splits)
  from validate_prefixes(1) [OF assms(1) pre] have ok: "prefix_ok sc pre" .
  note k = prefix_ok_names [OF ok]
  obtain rest where r: "segments p = segments (trim_end_char slash pre) @ rest"
    using allowed_below [OF n a k(1)] by blast
  then have h: "hd (segments p) = hd (segments (trim_end_char slash pre))" by simp
  have "clean_path p"
  proof -
    have "clean_name m" if m: "m \<in> set (segments p)" for m
      using normalized_segments(2) [OF n m] split_on_free [OF m] split_on_chars [OF m]
        normalized_segments(4) [OF n]
      by (auto simp: clean_name_def list_ex_iff is_sep_def)
    then show ?thesis by (simp add: clean_path_def list_all_iff)
  qed
  moreover have "\<forall>n \<in> set (segments p). hd n \<noteq> dot" using normalized_segments(2) [OF n] by blast
  moreover have "hd (segments p) \<in> top_sections" using h k(2) by simp
  moreover have "scope_id sc \<in> set (segments p)" using k(3) r by simp
  moreover have "purpose sc = ''conversation'' \<longrightarrow> hd (segments p) \<noteq> ''Capture''"
    using capture_prefix [OF k(1)] h k(4,5) by auto
  ultimately show ?thesis using validate_prefixes(2) [OF assms(1)] by blast
qed

definition sample_scope :: ReadScope where
  "sample_scope =
     \<lparr> version = 1, tenant_id = ''t'', star_label = ''s'', workspace_id = ''w'', audience_kind = ''dm'',
       audience_id = ''a'', purpose = ''conversation'', scope_id = ''x'',
       allowed_prefixes = [''Organize/x/''], expires_at = Finite 2 \<rparr>"

theorem validated_scope_confines_witness:
  "clean_path ''Organize/x/n.md'' \<and> hd (segments ''Organize/x/n.md'') \<noteq> ''Capture''"
proof -
  have "ReadScope_validate 1 sample_scope = Inr ()" by code_simp
  moreover have "allows_path sample_scope ''Organize/x/n.md''" by code_simp
  ultimately show ?thesis
    using validated_scope_confines [of 1 sample_scope "''Organize/x/n.md''"]
    by (simp add: sample_scope_def)
qed

lemma scope_prefix_confines:
  assumes "normalized p" and "starts_with p (pre @ ''/'')"
  shows "segments pre = take (length (segments pre)) (segments p)"
proof -
  obtain r where "p = pre @ slash # r" using assms(2) by (auto simp: starts_with_iff)
  then show ?thesis by (simp add: split_on_append)
qed

lemma byte_ascii_lower: "byte (ascii_lower c) = (if 65 \<le> byte c \<and> byte c \<le> 90 then byte c + 32 else byte c)"
  by (simp add: ascii_lower_def byte_def)

lemma lower_id_slash: "valid_id v \<Longrightarrow> slash \<notin> set (to_ascii_lowercase v)"
proof
  assume v: "valid_id v" and "slash \<in> set (to_ascii_lowercase v)"
  then obtain c where c: "c \<in> set v" "ascii_lower c = slash" by (auto simp: to_ascii_lowercase_def)
  then have "byte (ascii_lower c) = 47" by simp
  with c(1) v show False
    by (auto simp: valid_id_def list_all_iff is_ascii_alphanumeric_def byte_ascii_lower split: if_splits)
       (auto simp: byte_def)
qed

lemma private_scope_slash:
  "valid_id workspace \<Longrightarrow> valid_id audience \<Longrightarrow> kind \<in> {''channel'', ''dm''}
   \<Longrightarrow> slash \<notin> set (private_scope workspace kind audience)"
  using lower_id_slash by (auto simp: private_scope_def)

text \<open> Property C24. A private source is eligible only when it is a Markdown file in the curated
  directories of its own audience: under Organize, Express/Skills or Distill, inside the directory
  named after the workspace, kind and audience that its frontmatter declares with well-formed
  identifiers, marked with the schema and normal sensitivity, and with no bullet tagged as
  inferred; it is never under Capture.\<close>

theorem eligible_source_confined:
  assumes "private_source_eligible yaml_load path content"
  shows "\<exists>fm workspace kind audience.
           parse_frontmatter yaml_load content = Inr (Some fm)
           \<and> json_str fm ''workspace_id'' = Some workspace \<and> valid_id workspace
           \<and> json_str fm ''audience_kind'' = Some kind \<and> kind \<in> {''channel'', ''dm''}
           \<and> json_str fm ''audience_id'' = Some audience \<and> valid_id audience
           \<and> json_str fm ''memory_schema'' = Some ''slack-code/1''
           \<and> json_str fm ''sensitivity'' = Some ''normal''
           \<and> (\<forall>line \<in> set (lines content). \<not> inferred_line line)
           \<and> native_extension path = Some ''md''
           \<and> normalized path
           \<and> hd (segments path) \<in> {''Organize'', ''Express'', ''Distill''}
           \<and> private_scope workspace kind audience \<in> set (segments path)"
proof -
  from assms obtain fm where p: "parse_frontmatter yaml_load content = Inr (Some fm)"
    by (auto simp: private_source_eligible_def split: sum.splits option.splits)
  with assms obtain tenant star workspace kind audience where
      f: "json_str fm ''tenant_id'' = Some tenant" "json_str fm ''star_label'' = Some star"
         "json_str fm ''workspace_id'' = Some workspace" "json_str fm ''audience_kind'' = Some kind"
         "json_str fm ''audience_id'' = Some audience"
    by (auto simp: private_source_eligible_def split: option.splits)
  let ?pol = "private_policy tenant star workspace kind audience"
  let ?sc = "private_scope workspace kind audience"
  from assms p f have v: "valid_id workspace" "valid_id audience" "kind \<in> {''channel'', ''dm''}"
    and l: "\<forall>line \<in> set (lines content). \<not> inferred_line line"
    and e: "native_extension path = Some ''md''" "allows_path ?pol path" "allows_frontmatter ?pol (Some fm)"
    by (auto simp: private_source_eligible_def Let_def list_ex_iff split: if_splits)
  from e(2) have n: "normalized path" by (simp add: allows_path_def split: if_splits)
  have s: "segments (?sc @ slash # y) = ?sc # segments y" for y
    using private_scope_slash [OF v] by (simp add: split_on_append split_on_none)
  from e(2) n obtain pre where
      pre: "pre \<in> set (allowed_prefixes ?pol)"
    and a: "if ends_with pre ''/'' then starts_with path pre else path = pre"
    by (auto simp: allows_path_def list_ex_iff to_str_def split: if_splits)
  obtain r where "path = pre @ r" using a by (auto simp: starts_with_iff split: if_splits)
  with pre have "hd (segments path) \<in> {''Organize'', ''Express'', ''Distill''} \<and> ?sc \<in> set (segments path)"
    by (auto simp: private_policy_def Let_def s)
  with p f v l e n show ?thesis
    by (auto simp: allows_frontmatter_def split: if_splits)
qed

definition private_obj :: json where
  "private_obj = JObject
     [(''audience_id'', JString ''A1''), (''audience_kind'', JString ''dm''),
      (''memory_schema'', JString ''slack-code/1''), (''sensitivity'', JString ''normal''),
      (''star_label'', JString ''s''), (''tenant_id'', JString ''t''), (''workspace_id'', JString ''W'')]"

definition private_load :: "str \<Rightarrow> str + json" where
  "private_load y = (if y = ''m'' @ [LF] then Inr private_obj else Inl ''bad'')"

definition private_text :: str where
  "private_text = fence @ [LF] @ ''m'' @ [LF] @ fence @ [LF] @ ''- known''"

theorem eligible_source_confined_witness:
  "normalized ''Organize/Work/slack-w-dm-a1/n.md''
   \<and> list_all (\<lambda>line. \<not> inferred_line line) (lines private_text)"
proof -
  have "private_source_eligible private_load ''Organize/Work/slack-w-dm-a1/n.md'' private_text"
    by code_simp
  from eligible_source_confined [OF this] show ?thesis unfolding list_all_iff by blast
qed

end
