(* ===== verification/Exclude.thy ===== *)
theory Exclude
  imports Access
begin

text \<open>
  The exclusion policy (src/src/vault/exclude.rs): compiling glob patterns, merging, testing a path,
  ignore-file lines, and the text hashed into the identity of an index scope.

  The glob compiler and matcher and SHA-256 are third-party code: \<open>glob_new\<close> compiles one pattern or
  gives the error kind, \<open>set_build\<close> joins compiled globs, \<open>set_match\<close> tests a path and \<open>digest\<close>
  hashes. Whether private memory is configured (an environment variable) is the argument
  \<open>private_env\<close>. A \<^verbatim>\<open>BTreeSet\<close> is a sorted list without duplicates.
\<close>

definition is_visible_path :: "str \<Rightarrow> bool" where
  "is_visible_path p =
     (case to_str p of
        None \<Rightarrow> False
      | Some path \<Rightarrow> list_all (\<lambda>name. \<not> starts_with name ''.'') (split_on is_sep path))"

record 's ExcludeSet =
  globs :: 's
  patterns :: "str list"
  private_memory :: bool

definition normalize_pattern :: "str \<Rightarrow> str" where
  "normalize_pattern trimmed =
     (case strip_suffix ''/'' trimmed of Some pre \<Rightarrow> pre @ ''/**'' | None \<Rightarrow> trimmed)"

definition pattern_error :: "str \<Rightarrow> nat \<Rightarrow> str \<Rightarrow> vault_error" where
  "pattern_error source line k =
     InvalidPath (''invalid exclusion pattern in '' @ source @ '' at line '' @ dec_string line @ '': '' @ k)"

text \<open>The loop of \<^verbatim>\<open>from_sources\<close>: the compiled globs and the accepted patterns.\<close>

fun compile_sources ::
  "(str \<Rightarrow> str + 'g) \<Rightarrow> 'g list \<Rightarrow> str list \<Rightarrow> (str \<times> nat \<times> str) list
     \<Rightarrow> ('g list \<times> str list) vault_result" where
  "compile_sources glob_new builder accepted [] = Inr (builder, accepted)"
| "compile_sources glob_new builder accepted ((source, line, raw) # entries) =
     (if trim raw = [] then compile_sources glob_new builder accepted entries
      else let n = normalize_pattern (trim raw) in
           if n \<in> set accepted then compile_sources glob_new builder accepted entries
           else case glob_new n of
                  Inl k \<Rightarrow> Inl (pattern_error source line k)
                | Inr glob \<Rightarrow>
                    compile_sources glob_new (builder @ [glob]) (List.insort_insert n accepted) entries)"

definition from_sources ::
  "(str \<Rightarrow> str + 'g) \<Rightarrow> ('g list \<Rightarrow> str + 's) \<Rightarrow> bool \<Rightarrow> (str \<times> nat \<times> str) list
     \<Rightarrow> 's ExcludeSet vault_result" where
  "from_sources glob_new set_build private_env entries =
     try_bind (compile_sources glob_new [] [] entries) (\<lambda>(builder, accepted).
     try_bind (map_err (\<lambda>err. Other (''compile exclusion policy: '' @ err)) (set_build builder)) (\<lambda>s.
       Inr \<lparr> globs = s, patterns = accepted, private_memory = private_env \<rparr>))"

definition ExcludeSet_build ::
  "(str \<Rightarrow> str + 'g) \<Rightarrow> ('g list \<Rightarrow> str + 's) \<Rightarrow> bool \<Rightarrow> str list \<Rightarrow> 's ExcludeSet vault_result" where
  "ExcludeSet_build glob_new set_build private_env ps =
     from_sources glob_new set_build private_env
       (map (\<lambda>(i, p). (''exclusion policy'', i + 1, p)) (List.enumerate 0 ps))"

definition ExcludeSet_merged ::
  "(str \<Rightarrow> str + 'g) \<Rightarrow> ('g list \<Rightarrow> str + 's) \<Rightarrow> bool \<Rightarrow> 's ExcludeSet \<Rightarrow> str list
     \<Rightarrow> 's ExcludeSet vault_result" where
  "ExcludeSet_merged glob_new set_build private_env ex extra =
     ExcludeSet_build glob_new set_build private_env (patterns ex @ extra)"

definition is_excluded :: "('s \<Rightarrow> str \<Rightarrow> bool) \<Rightarrow> 's ExcludeSet \<Rightarrow> str \<Rightarrow> bool" where
  "is_excluded set_match ex p = (if patterns ex = [] then False else set_match (globs ex) p)"

definition allows_source :: "(str \<Rightarrow> str + json) \<Rightarrow> 's ExcludeSet \<Rightarrow> str \<Rightarrow> str \<Rightarrow> bool" where
  "allows_source yaml_load ex path content \<longleftrightarrow>
     \<not> private_memory ex \<or> private_source_eligible yaml_load path content"

definition ignore_rule :: "str \<Rightarrow> str option" where
  "ignore_rule line =
     (let rule = trim line in if rule \<noteq> [] \<and> \<not> starts_with rule ''#'' then Some rule else None)"

definition ignore_rules :: "str \<Rightarrow> (nat \<times> str) list" where
  "ignore_rules content =
     List.map_filter (\<lambda>(i, line). map_option (\<lambda>rule. (i + 1, rule)) (ignore_rule line))
       (List.enumerate 0 (lines content))"

definition parse_ignore_lines :: "str \<Rightarrow> str list" where
  "parse_ignore_lines content = map snd (ignore_rules content)"

definition read_ignore ::
  "(str \<Rightarrow> str + 'g) \<Rightarrow> ('g list \<Rightarrow> str + 's) \<Rightarrow> bool \<Rightarrow> str \<Rightarrow> str vault_result
     \<Rightarrow> 's ExcludeSet option vault_result" where
  "read_ignore glob_new set_build private_env label read =
     (case read of
        Inl err \<Rightarrow> if is_not_found err then Inr None else Inl err
      | Inr content \<Rightarrow>
          (case from_sources glob_new set_build private_env
                  (map (\<lambda>(line, rule). (label, line, rule)) (ignore_rules content)) of
             Inl err \<Rightarrow> Inl err
           | Inr ex \<Rightarrow> Inr (Some ex)))"

text \<open>\<^verbatim>\<open>u64::to_be_bytes\<close>.\<close>

definition be_bytes :: "nat \<Rightarrow> str" where
  "be_bytes n = map (\<lambda>i. char_of (n div 256 ^ (7 - i) mod 256)) [0..<8]"

definition scope_preimage :: "str \<Rightarrow> 's ExcludeSet \<Rightarrow> str" where
  "scope_preimage storage_key ex =
     ''obsidian-mcp/index-scope/v1'' @ [CHR 0x00] @ storage_key
     @ (if private_memory ex then ''private-memory-corpus/v1'' @ [CHR 0x00] else [])
     @ concat (map (\<lambda>rule. be_bytes (length rule mod 2 ^ 64) @ rule) (patterns ex))"

definition ExcludeSet_scope_id :: "(str \<Rightarrow> str) \<Rightarrow> str \<Rightarrow> 's ExcludeSet \<Rightarrow> str" where
  "ExcludeSet_scope_id digest storage_key ex = digest (scope_preimage storage_key ex)"

section \<open>The compiled policy\<close>

definition rule_set :: "str list \<Rightarrow> str set" where
  "rule_set raws = {normalize_pattern (trim r) | r. r \<in> set raws \<and> trim r \<noteq> []}"

lemma rule_set_simps [simp]:
  "rule_set [] = {}"
  "rule_set (r # rs) = (if trim r = [] then {} else {normalize_pattern (trim r)}) \<union> rule_set rs"
  by (auto simp: rule_set_def)

lemma rule_set_append: "rule_set (xs @ ys) = rule_set xs \<union> rule_set ys"
  by (auto simp: rule_set_def)

abbreviation raw_of :: "str \<times> nat \<times> str \<Rightarrow> str" where
  "raw_of e \<equiv> snd (snd e)"

lemma compile_ok_iff:
  "(\<exists>r. compile_sources glob_new b a entries = Inr r) \<longleftrightarrow>
   (\<forall>n \<in> rule_set (map raw_of entries) - set a. is_ok (glob_new n))"
  by (induction glob_new b a entries rule: compile_sources.induct)
     (auto simp: Let_def set_insort_insert split: sum.splits intro!: bexI [rotated])

lemma compile_accepted:
  "compile_sources glob_new b a entries = Inr (b', a') \<Longrightarrow> sorted a \<Longrightarrow> distinct a \<Longrightarrow>
   sorted a' \<and> distinct a' \<and> set a' = set a \<union> rule_set (map raw_of entries)"
  by (induction glob_new b a entries rule: compile_sources.induct)
     (auto simp: Let_def set_insort_insert sorted_insort_insert distinct_insort_insert
        split: if_splits sum.splits)

lemma compile_builder:
  "compile_sources glob_new b a entries = Inr (b', a') \<Longrightarrow> Inr ` set b = glob_new ` set a \<Longrightarrow>
   Inr ` set b' = glob_new ` set a'"
  by (induction glob_new b a entries rule: compile_sources.induct)
     (auto simp: Let_def set_insort_insert split: if_splits sum.splits)

lemma compile_error:
  "compile_sources glob_new b a entries = Inl err \<Longrightarrow>
   \<exists>e \<in> set entries. \<exists>k. glob_new (normalize_pattern (trim (raw_of e))) = Inl k
      \<and> err = pattern_error (fst e) (fst (snd e)) k"
  by (induction glob_new b a entries rule: compile_sources.induct)
     (auto simp: Let_def split: if_splits sum.splits)

lemma build_raws: "map raw_of (map (\<lambda>(i, p). (src, f i, p)) (List.enumerate k ps)) = ps"
  by (induction ps arbitrary: k) auto

section \<open>Normalised patterns are stable\<close>

lemma ws_end_star: "ws_end_len (s @ ''/**'') = 0"
proof -
  have "drop (length (s @ ''/**'') - 1) (s @ ''/**'') = ''*''" by simp
  moreover have "drop (length (s @ ''/**'') - 2) (s @ ''/**'') = ''**''" by simp
  moreover have "drop (length (s @ ''/**'') - 3) (s @ ''/**'') = ''/**''" by simp
  moreover have "\<not> is_ws_char ''*''" "\<not> is_ws_char ''**''" "\<not> is_ws_char ''/**''"
    by (simp_all add: is_ws_char_def byte_def)
  ultimately show ?thesis unfolding ws_end_len_def by (simp only: if_False simp_thms) simp
qed

lemma normalize_pattern_stable:
  assumes "utf8 r" and "trim r \<noteq> []"
  shows "trim (normalize_pattern (trim r)) = normalize_pattern (trim r)"
    and "normalize_pattern (normalize_pattern (trim r)) = normalize_pattern (trim r)"
    and "normalize_pattern (trim r) \<noteq> []"
proof -
  let ?t = "trim r"
  have u: "utf8 ?t" using assms(1) by (rule utf8_trim)
  have "trim (normalize_pattern ?t) = normalize_pattern ?t
        \<and> normalize_pattern (normalize_pattern ?t) = normalize_pattern ?t \<and> normalize_pattern ?t \<noteq> []"
  proof (cases "ends_with ?t ''/''")
    case False
    then have "normalize_pattern ?t = ?t" by (simp add: normalize_pattern_def strip_suffix_def)
    with trim_idem [OF assms(1)] assms(2) show ?thesis by simp
  next
    case True
    then obtain x where x: "?t = x @ ''/''" by (auto simp: ends_with_iff)
    then have n: "normalize_pattern ?t = ?t @ ''**''"
      by (simp add: normalize_pattern_def strip_suffix_def ends_with_iff)
    have "first_char (?t @ ''**'') = first_char ?t" by (rule first_char_prefix [OF u assms(2)])
    then have "trim_start (?t @ ''**'') = ?t @ ''**''"
      using trim_first [OF assms(1)] by (intro trim_start_id) simp
    moreover have "trim_end (?t @ ''**'') = ?t @ ''**''"
      using ws_end_star [of x] x by (subst trim_end.simps) simp
    moreover have "normalize_pattern (?t @ ''**'') = ?t @ ''**''"
      by (simp add: normalize_pattern_def strip_suffix_def ends_with_def)
    ultimately show ?thesis unfolding n by (simp add: trim_def)
  qed
  then show "trim (normalize_pattern (trim r)) = normalize_pattern (trim r)"
    and "normalize_pattern (normalize_pattern (trim r)) = normalize_pattern (trim r)"
    and "normalize_pattern (trim r) \<noteq> []" by simp_all
qed

lemma rule_set_stable: "list_all utf8 ps \<Longrightarrow> set qs = rule_set ps \<Longrightarrow> rule_set qs = rule_set ps"
proof -
  assume u: "list_all utf8 ps" and q: "set qs = rule_set ps"
  have "trim n = n \<and> normalize_pattern n = n \<and> n \<noteq> []" if "n \<in> rule_set ps" for n
    using that u normalize_pattern_stable by (fastforce simp: rule_set_def list_all_iff)
  then show ?thesis using q by (force simp: rule_set_def [of qs])
qed

section \<open>Properties\<close>

lemma build_complete:
  assumes "ExcludeSet_build glob_new set_build private_env ps = Inr ex"
  shows "set (patterns ex) = rule_set ps" "sorted (patterns ex)" "distinct (patterns ex)"
    and "private_memory ex = private_env"
    and "\<exists>gs. set_build gs = Inr (globs ex) \<and> Inr ` set gs = glob_new ` rule_set ps"
proof -
  let ?es = "map (\<lambda>(i, p). (''exclusion policy'', i + 1, p)) (List.enumerate 0 ps)"
  from assms obtain b where c: "compile_sources glob_new [] [] ?es = Inr (b, patterns ex)"
    and s: "set_build b = Inr (globs ex)" and p: "private_memory ex = private_env"
    by (auto simp: ExcludeSet_build_def from_sources_def result_simps)
  have r: "map raw_of ?es = ps" by (rule build_raws)
  from compile_accepted [OF c, unfolded r] show "set (patterns ex) = rule_set ps"
    and "sorted (patterns ex)" and "distinct (patterns ex)" by simp_all
  from compile_builder [OF c] s \<open>set (patterns ex) = rule_set ps\<close>
  show "\<exists>gs. set_build gs = Inr (globs ex) \<and> Inr ` set gs = glob_new ` rule_set ps" by auto
  show "private_memory ex = private_env" by (rule p)
qed

text \<open>A compiled exclusion policy loses no rule and merging adds to it: its patterns are
  the normalised non-blank rules, sorted and without duplicates, over a matcher built from exactly
  their compiled globs, and the merged policy has the old patterns together with the extra rules.\<close>

lemma ExcludeSet_merged_union:
  assumes "ExcludeSet_build glob_new set_build private_env ps = Inr ex" and "list_all utf8 ps"
    and "ExcludeSet_merged glob_new set_build private_env ex extra = Inr ex'"
  shows "set (patterns ex) = rule_set ps \<and> sorted (patterns ex) \<and> distinct (patterns ex)
         \<and> set (patterns ex') = set (patterns ex) \<union> rule_set extra
         \<and> sorted (patterns ex') \<and> distinct (patterns ex')
         \<and> (\<exists>gs. set_build gs = Inr (globs ex') \<and> Inr ` set gs = glob_new ` set (patterns ex'))"
proof -
  note a = build_complete [OF assms(1)]
  note b = build_complete [OF assms(3) [unfolded ExcludeSet_merged_def]]
  have "rule_set (patterns ex @ extra) = set (patterns ex) \<union> rule_set extra"
    using rule_set_stable [OF assms(2) a(1)] a(1) by (simp add: rule_set_append)
  with a b show ?thesis by simp
qed

lemma ExcludeSet_merged_union_example:
  "rule_set ['' a/ '', '''', ''b''] = {''a/**'', ''b''}"
proof -
  let ?ex = "\<lparr> globs = [''a/**'', ''b''], patterns = [''a/**'', ''b''], private_memory = False \<rparr>"
  let ?ex' = "\<lparr> globs = [''a/**'', ''b'', ''c''], patterns = [''a/**'', ''b'', ''c''], private_memory = False \<rparr>"
  have b: "ExcludeSet_build (Inr :: str \<Rightarrow> str + str) Inr False ['' a/ '', '''', ''b''] = Inr ?ex"
    by code_simp
  have u: "list_all utf8 ['' a/ '', '''', ''b'']" by code_simp
  have m: "ExcludeSet_merged (Inr :: str \<Rightarrow> str + str) Inr False ?ex [''c''] = Inr ?ex'"
    by code_simp
  show ?thesis using ExcludeSet_merged_union [OF b u m] by simp
qed

text \<open>A malformed rule is never dropped: building a policy fails when one of its
  rules does not compile, and the error names the source and line of such a rule.\<close>

lemma ExcludeSet_build_malformed:
  assumes "n \<in> rule_set ps" and "glob_new n = Inl k"
  shows "\<exists>i k'. i < length ps \<and> glob_new (normalize_pattern (trim (ps ! i))) = Inl k'
           \<and> ExcludeSet_build glob_new set_build private_env ps
               = Inl (pattern_error ''exclusion policy'' (i + 1) k')"
proof -
  let ?es = "map (\<lambda>(i, p). (''exclusion policy'', i + 1, p)) (List.enumerate 0 ps)"
  have r: "map raw_of ?es = ps" by (rule build_raws)
  have "\<not> (\<exists>out. compile_sources glob_new [] [] ?es = Inr out)"
    unfolding compile_ok_iff r using assms by (auto intro!: bexI [of _ n])
  then obtain err where e: "compile_sources glob_new [] [] ?es = Inl err"
    by (cases "compile_sources glob_new [] [] ?es") auto
  from compile_error [OF e] obtain en k' where en: "en \<in> set ?es"
    "glob_new (normalize_pattern (trim (raw_of en))) = Inl k'"
    "err = pattern_error (fst en) (fst (snd en)) k'"
    by blast
  then obtain i where i: "i < length ps" "en = (''exclusion policy'', i + 1, ps ! i)"
    by (auto simp: in_set_enumerate_eq)
  with e en show ?thesis
    by (auto simp: ExcludeSet_build_def from_sources_def)
qed

definition no_brackets :: "str \<Rightarrow> str + str" where
  "no_brackets p = (if p = ''['' then Inl ''unclosed'' else Inr p)"

lemma ExcludeSet_build_malformed_example:
  "\<exists>i k. i < 2 \<and> ExcludeSet_build no_brackets (Inr :: str list \<Rightarrow> str + str list) False [''a'', ''['']
       = Inl (pattern_error ''exclusion policy'' (i + 1) k)"
proof -
  have m: "''['' \<in> rule_set [''a'', ''['']"
    by (simp add: normalize_pattern_def trim_def first_char_def is_ws_char_def byte_def
        char_len_def trim_end.simps ws_end_len_def strip_suffix_def ends_with_def)
  have g: "no_brackets ''['' = Inl ''unclosed''" by (simp add: no_brackets_def)
  obtain i k where "i < 2" and "ExcludeSet_build no_brackets (Inr :: str list \<Rightarrow> str + str list) False [''a'', ''['']
       = Inl (pattern_error ''exclusion policy'' (i + 1) k)"
    using ExcludeSet_build_malformed [of "''[''" "[''a'', ''['']" no_brackets "''unclosed''" Inr False, OF m g]
    by (metis (no_types, lifting) length_Cons list.size(3) numeral_2_eq_2)
  then show ?thesis by blast
qed

text \<open>Reading back the hashed text.\<close>

lemma length_be_bytes [simp]: "length (be_bytes n) = 8"
  by (simp add: be_bytes_def)

lemma be_bytes_inj:
  assumes "be_bytes m = be_bytes n" and "m < 2 ^ 64" and "n < 2 ^ 64"
  shows "m = n"
proof -
  have eq: "m div 256 ^ j mod 256 = n div 256 ^ j mod 256" if "j < 8" for j
  proof -
    from assms(1) have "be_bytes m ! (7 - j) = be_bytes n ! (7 - j)" by simp
    then have "(of_char (be_bytes m ! (7 - j)) :: nat) = of_char (be_bytes n ! (7 - j))" by simp
    moreover have "[0..<8] ! (7 - j) = 7 - j" using nth_upt [of 0 "7 - j" 8] by simp
    ultimately show ?thesis using that by (simp add: be_bytes_def)
  qed
  have "m div 256 ^ (8 - j) = n div 256 ^ (8 - j)" if "j \<le> 8" for j
    using that
  proof (induction j)
    case 0
    then show ?case using assms(2,3) by simp
  next
    case (Suc j)
    have s: "k div 256 ^ (8 - Suc j) = 256 * (k div 256 ^ (8 - j)) + k div 256 ^ (8 - Suc j) mod 256" for k :: nat
    proof -
      have "8 - j = Suc (8 - Suc j)" using Suc.prems by simp
      then have "k div 256 ^ (8 - j) = k div 256 ^ (8 - Suc j) div 256"
        by (metis div_mult2_eq power_Suc2)
      then show ?thesis by simp
    qed
    show ?case using s [of m] s [of n] Suc eq [of "8 - Suc j"] by simp
  qed
  from this [of 8] show ?thesis by simp
qed

definition encoded_rules :: "str list \<Rightarrow> str" where
  "encoded_rules ps = concat (map (\<lambda>rule. be_bytes (length rule mod 2 ^ 64) @ rule) ps)"

lemma encoded_rules_inj:
  "encoded_rules ps
     = encoded_rules qs
   \<Longrightarrow> \<forall>r \<in> set ps \<union> set qs. length r < 2 ^ 64 \<Longrightarrow> ps = qs"
proof (induction ps arbitrary: qs)
  case Nil
  then show ?case by (cases qs) (auto simp: encoded_rules_def dest: arg_cong [of _ _ length])
next
  case (Cons p ps)
  show ?case
  proof (cases qs)
    case Nil
    with Cons.prems(1) show ?thesis by (auto simp: encoded_rules_def dest: arg_cong [of _ _ length])
  next
    case (Cons q qs')
    from Cons.prems Cons have e: "be_bytes (length p) = be_bytes (length q)"
      and r: "p @ encoded_rules ps
          = q @ encoded_rules qs'"
      by (auto simp: encoded_rules_def append_eq_append_conv)
    from e Cons.prems(2) Cons have "length p = length q" by (intro be_bytes_inj) auto
    with r have "p = q" and "encoded_rules ps
          = encoded_rules qs'"
      by auto
    with Cons.IH [of qs'] Cons.prems(2) Cons show ?thesis by auto
  qed
qed

lemma be_bytes_small: "n < 2 ^ 56 \<Longrightarrow> \<exists>bs. be_bytes n = CHR 0x00 # bs"
  by (simp add: be_bytes_def upt_rec char_of_def)

lemma private_tag_distinct:
  assumes "\<forall>r \<in> set ps. length r < 2 ^ 56"
  shows "encoded_rules ps \<noteq> CHR ''p'' # xs"
proof (cases ps)
  case (Cons p ps')
  with assms obtain bs where "be_bytes (length p) = CHR 0x00 # bs" "length p < 2 ^ 64"
    using be_bytes_small [of "length p"] by auto
  with Cons show ?thesis by (simp add: encoded_rules_def)
qed (simp add: encoded_rules_def)

text \<open> Property C25. The identity of an index scope separates policies: two texts hashed for vault keys of
  the same length, with rules shorter than 2^56 bytes, are equal only when the vault, the patterns
  and the private-memory setting are all equal, so a changed policy never reuses a cached index
  unless SHA-256 collides.\<close>

theorem scope_preimage_injective:
  assumes "scope_preimage key1 ex1 = scope_preimage key2 ex2" and "length key1 = length key2"
    and "\<forall>r \<in> set (patterns ex1) \<union> set (patterns ex2). length r < 2 ^ 56"
  shows "key1 = key2 \<and> patterns ex1 = patterns ex2 \<and> private_memory ex1 = private_memory ex2"
proof -
  let ?tag = "\<lambda>b. if b then ''private-memory-corpus/v1'' @ [CHR 0x00] else []"
  from assms(1,2) have k: "key1 = key2"
    and t: "?tag (private_memory ex1) @ encoded_rules (patterns ex1) = ?tag (private_memory ex2) @ encoded_rules (patterns ex2)"
    by (auto simp: scope_preimage_def encoded_rules_def)
  have "encoded_rules (patterns ex1) \<noteq> CHR ''p'' # xs" "encoded_rules (patterns ex2) \<noteq> CHR ''p'' # xs" for xs
    using assms(3) by (intro private_tag_distinct; blast)+
  note d = this this [symmetric]
  from t d have p: "private_memory ex1 = private_memory ex2"
    by (cases "private_memory ex1"; cases "private_memory ex2") auto
  with t have "encoded_rules (patterns ex1) = encoded_rules (patterns ex2)" by simp
  moreover have "\<forall>r \<in> set (patterns ex1) \<union> set (patterns ex2). length r < 2 ^ 64"
  proof
    fix r
    assume "r \<in> set (patterns ex1) \<union> set (patterns ex2)"
    with assms(3) have "length r < 2 ^ 56" by blast
    then show "length r < 2 ^ 64" by simp
  qed
  ultimately have "patterns ex1 = patterns ex2" by (rule encoded_rules_inj)
  with k p show ?thesis by simp
qed

theorem scope_preimage_injective_witness:
  "scope_preimage ''k'' \<lparr> globs = (), patterns = [''a''], private_memory = False \<rparr>
     \<noteq> scope_preimage ''k'' \<lparr> globs = (), patterns = [''a'', ''b''], private_memory = False \<rparr>"
  using scope_preimage_injective [of "''k''" "\<lparr> globs = (), patterns = [''a''], private_memory = False \<rparr>"
      "''k''" "\<lparr> globs = (), patterns = [''a'', ''b''], private_memory = False \<rparr>"]
  by auto

end
