(* ===== verification/Markdown.thy ===== *)
theory Markdown
  imports Frontmatter
begin

text \<open>
  Reading Markdown (src/src/vault/parser.rs): headings and outer blocks from the event stream of the
  CommonMark parser, code ranges, wikilinks, block references, and the range of a heading section.

  The CommonMark parser is third-party code: its event stream with byte ranges is the parameter
  \<open>events\<close>, whose first argument says whether tables are enabled. The two regular expressions for
  wikilinks and block references are written out as scanners; the one for inline tags uses the
  Unicode word class and stays a parameter, \<open>tag_matches\<close>, the captured ranges in source order.
\<close>

section \<open>Events\<close>

datatype md_tag =
    Paragraph | Heading nat | BlockQuote | CodeBlock | HtmlBlock | MdList | Item
  | FootnoteDefinition | DefinitionList | DefinitionListTitle | DefinitionListDefinition
  | Table | TableHead | TableRow | TableCell | MetadataBlock
  | InlineTag

datatype md_event =
    Start md_tag | End md_tag | MdText str | MdCode str | SoftBreak | Rule | OtherEvent

type_synonym md_stream = "(md_event \<times> nat \<times> nat) list"

definition is_block_tag :: "md_tag \<Rightarrow> bool" where
  "is_block_tag t \<longleftrightarrow> t \<noteq> InlineTag"

definition is_block_end :: "md_tag \<Rightarrow> bool" where
  "is_block_end t \<longleftrightarrow> t \<noteq> InlineTag"

fun markdown_block_kind :: "md_tag \<Rightarrow> str" where
  "markdown_block_kind Paragraph = ''paragraph''"
| "markdown_block_kind (Heading _) = ''heading''"
| "markdown_block_kind BlockQuote = ''quote''"
| "markdown_block_kind CodeBlock = ''code''"
| "markdown_block_kind HtmlBlock = ''html''"
| "markdown_block_kind MdList = ''list''"
| "markdown_block_kind Table = ''table''"
| "markdown_block_kind MetadataBlock = ''metadata''"
| "markdown_block_kind _ = ''other''"

record HeadingPos =
  level :: nat
  htext :: str
  hline :: nat
  offset :: nat
  hend :: nat

record MarkdownBlock =
  brange :: "nat \<times> nat"
  bkind :: str

record StructureExtraction =
  headings :: "HeadingPos list"
  blocks :: "MarkdownBlock list"
  limit_exceeded :: "(str \<times> nat) option"

definition MAX_SEMANTIC_HEADINGS :: nat where "MAX_SEMANTIC_HEADINGS = 4096"
definition MAX_SEMANTIC_BLOCKS :: nat where "MAX_SEMANTIC_BLOCKS = 65536"

definition byte_offset_to_line :: "str \<Rightarrow> nat \<Rightarrow> nat" where
  "byte_offset_to_line content off = count_list (take off content) LF"

section \<open>Headings and blocks\<close>

record extraction =
  x_headings :: "HeadingPos list"
  x_blocks :: "MarkdownBlock list"
  block_depth :: nat
  block_start :: nat
  block_kind :: str
  in_heading :: bool
  current_level :: nat
  current_text :: str
  current_offset :: nat
  current_line :: nat
  line_scan_offset :: nat

definition extraction_init :: extraction where
  "extraction_init =
     \<lparr> x_headings = [], x_blocks = [], block_depth = 0, block_start = 0, block_kind = ''other'',
       in_heading = False, current_level = 0, current_text = [], current_offset = 0,
       current_line = 0, line_scan_offset = 0 \<rparr>"

text \<open>A step gives the exceeded resource with its limit, or the next state.\<close>

definition push_block :: "MarkdownBlock \<Rightarrow> extraction \<Rightarrow> (str \<times> nat) + extraction" where
  "push_block b x =
     (if length (x_blocks x) = MAX_SEMANTIC_BLOCKS
      then Inl (''Markdown block count'', MAX_SEMANTIC_BLOCKS)
      else Inr (x \<lparr> x_blocks := x_blocks x @ [b] \<rparr>))"

fun block_step :: "md_event \<Rightarrow> nat \<times> nat \<Rightarrow> extraction \<Rightarrow> (str \<times> nat) + extraction" where
  "block_step (Start t) r x =
     (if is_block_tag t
      then let x' = (if block_depth x = 0
                     then x \<lparr> block_start := fst r, block_kind := markdown_block_kind t \<rparr> else x)
           in Inr (x' \<lparr> block_depth := block_depth x' + 1 \<rparr>)
      else Inr x)"
| "block_step (End t) r x =
     (if is_block_end t
      then let x' = x \<lparr> block_depth := block_depth x - 1 \<rparr>
           in if block_depth x' = 0
              then push_block \<lparr> brange = (block_start x', snd r), bkind = block_kind x' \<rparr> x'
              else Inr x'
      else Inr x)"
| "block_step Rule r x =
     (if block_depth x = 0 then push_block \<lparr> brange = r, bkind = ''rule'' \<rparr> x else Inr x)"
| "block_step _ r x = Inr x"

fun heading_step :: "str \<Rightarrow> bool \<Rightarrow> md_event \<Rightarrow> nat \<times> nat \<Rightarrow> extraction \<Rightarrow> (str \<times> nat) + extraction" where
  "heading_step content collect (Start (Heading lvl)) r x =
     Inr (x \<lparr> in_heading := True, current_level := lvl, current_text := [], current_offset := fst r,
              current_line := current_line x
                + count_list (slice content (line_scan_offset x) (fst r)) LF,
              line_scan_offset := fst r \<rparr>)"
| "heading_step content collect (MdText t) r x =
     Inr (if in_heading x then x \<lparr> current_text := current_text x @ t \<rparr> else x)"
| "heading_step content collect (MdCode t) r x =
     Inr (if in_heading x then x \<lparr> current_text := current_text x @ t \<rparr> else x)"
| "heading_step content collect SoftBreak r x =
     Inr (if in_heading x then x \<lparr> current_text := current_text x @ '' '' \<rparr> else x)"
| "heading_step content collect (End (Heading _)) r x =
     (if in_heading x
      then if collect \<and> length (x_headings x) = MAX_SEMANTIC_HEADINGS
           then Inl (''Markdown heading count'', MAX_SEMANTIC_HEADINGS)
           else Inr (x \<lparr> x_headings := x_headings x @
                           [\<lparr> level = current_level x, htext = current_text x, hline = current_line x,
                             offset = current_offset x, hend = snd r \<rparr>],
                         in_heading := False \<rparr>)
      else Inr x)"
| "heading_step content collect _ r x = Inr x"

definition extraction_of :: "extraction \<Rightarrow> (str \<times> nat) option \<Rightarrow> StructureExtraction" where
  "extraction_of x lim = \<lparr> headings = x_headings x, blocks = x_blocks x, limit_exceeded = lim \<rparr>"

fun extract_loop :: "str \<Rightarrow> bool \<Rightarrow> md_stream \<Rightarrow> extraction \<Rightarrow> StructureExtraction" where
  "extract_loop content collect [] x = extraction_of x None"
| "extract_loop content collect ((ev, r) # evs) x =
     (case (if collect then block_step ev r x else Inr x) of
        Inl lim \<Rightarrow> extraction_of x (Some lim)
      | Inr x1 \<Rightarrow>
          (case heading_step content collect ev r x1 of
             Inl lim \<Rightarrow> extraction_of x1 (Some lim)
           | Inr x2 \<Rightarrow> extract_loop content collect evs x2))"

type_synonym md_parser = "bool \<Rightarrow> str \<Rightarrow> md_stream"

definition extract_structure :: "md_parser \<Rightarrow> str \<Rightarrow> bool \<Rightarrow> StructureExtraction" where
  "extract_structure events content collect =
     extract_loop content collect (events collect content) extraction_init"

definition extract_headings_with_offsets :: "md_parser \<Rightarrow> str \<Rightarrow> HeadingPos list" where
  "extract_headings_with_offsets events content = headings (extract_structure events content False)"

definition markdown_structure ::
  "md_parser \<Rightarrow> str \<Rightarrow> (HeadingPos list \<times> MarkdownBlock list) vault_result" where
  "markdown_structure events content =
     (let s = extract_structure events content True in
      case limit_exceeded s of
        Some (resource, limit) \<Rightarrow> Inl (SemanticResourceLimit resource (limit + 1) limit)
      | None \<Rightarrow> Inr (headings s, blocks s))"

definition extract_headings :: "md_parser \<Rightarrow> str \<Rightarrow> (nat \<times> str \<times> nat) list" where
  "extract_headings events content =
     map (\<lambda>h. (level h, htext h, hline h)) (extract_headings_with_offsets events content)"

section \<open>Code ranges\<close>

fun code_loop :: "md_stream \<Rightarrow> nat option \<Rightarrow> (nat \<times> nat) list \<Rightarrow> (nat \<times> nat) list" where
  "code_loop [] bs ranges = ranges"
| "code_loop ((ev, r) # evs) bs ranges =
     (case ev of
        Start t \<Rightarrow>
          code_loop evs (if t = CodeBlock \<or> t = MetadataBlock then Some (fst r) else bs) ranges
      | End t \<Rightarrow>
          (if t = CodeBlock \<or> t = MetadataBlock
           then code_loop evs None (case bs of Some s \<Rightarrow> ranges @ [(s, snd r)] | None \<Rightarrow> ranges)
           else code_loop evs bs ranges)
      | MdCode _ \<Rightarrow> code_loop evs bs (ranges @ [r])
      | _ \<Rightarrow> code_loop evs bs ranges)"

definition code_block_ranges :: "md_parser \<Rightarrow> str \<Rightarrow> (nat \<times> nat) list" where
  "code_block_ranges events content = code_loop (events False content) None []"

text \<open>The binary search of \<^verbatim>\<open>slice::binary_search_by\<close> over \<open>lo ..< hi\<close>.\<close>

function range_search :: "nat \<Rightarrow> (nat \<times> nat) list \<Rightarrow> nat \<Rightarrow> nat \<Rightarrow> bool" where
  "range_search off ranges lo hi =
     (if hi \<le> lo then False
      else let mid = lo + (hi - lo) div 2; r = ranges ! mid in
           if off < fst r then range_search off ranges lo mid
           else if snd r \<le> off then range_search off ranges (mid + 1) hi
           else True)"
  by pat_completeness auto
termination
  by (relation "measure (\<lambda>(off, ranges, lo, hi). hi - lo)") (auto simp: Let_def)

declare range_search.simps [simp del]

definition is_in_code_block :: "nat \<Rightarrow> (nat \<times> nat) list \<Rightarrow> bool" where
  "is_in_code_block off ranges = range_search off ranges 0 (length ranges)"

section \<open>Wikilinks\<close>

record WikiLink =
  raw :: str
  target :: str
  heading :: "str option"
  block_ref :: "str option"
  alias_of :: "str option"
  link_line :: nat

definition parse_wikilink_inner :: "str \<Rightarrow> str \<Rightarrow> nat \<Rightarrow> WikiLink" where
  "parse_wikilink_inner r inner line =
     (let (link_part, al) =
        (case split_once (CHR ''|'') inner of
           Some (l, a) \<Rightarrow> if a \<noteq> [] then (l, Some a) else (l, None)
         | None \<Rightarrow> (inner, None));
      (tgt, fragment) =
        (case split_once (CHR ''#'') link_part of
           Some (t, f) \<Rightarrow> (t, Some f)
         | None \<Rightarrow> (link_part, None));
      (hd', br) =
        (case fragment of
           Some f \<Rightarrow> if starts_with f ''^'' then (None, Some (drop 1 f)) else (Some f, None)
         | None \<Rightarrow> (None, None))
      in \<lparr> raw = r, target = tgt, heading = hd', block_ref = br, alias_of = al, link_line = line \<rparr>)"

abbreviation is_bracket :: "char \<Rightarrow> bool" where
  "is_bracket c \<equiv> c = CHR ''['' \<or> c = CHR '']''"

text \<open>\<^verbatim>\<open>\[\[([^\[\]]+)\]\]\<close> at the front of a text: the length of the captured name.\<close>

definition wikilink_at :: "str \<Rightarrow> nat option" where
  "wikilink_at s =
     (if starts_with s ''[['' then
        let inner = takeWhile (\<lambda>c. \<not> is_bracket c) (drop 2 s) in
        if inner \<noteq> [] \<and> starts_with (drop (2 + length inner) s) '']]'' then Some (length inner)
        else None
      else None)"

function wikilink_matches :: "str \<Rightarrow> nat \<Rightarrow> (nat \<times> nat) list" where
  "wikilink_matches content pos =
     (if length content \<le> pos then []
      else case wikilink_at (drop pos content) of
             Some n \<Rightarrow> (pos, n) # wikilink_matches content (pos + n + 4)
           | None \<Rightarrow> wikilink_matches content (pos + 1))"
  by pat_completeness auto
termination
  by (relation "measure (\<lambda>(content, pos). length content - pos)") auto

declare wikilink_matches.simps [simp del]

definition extract_wikilinks :: "md_parser \<Rightarrow> str \<Rightarrow> WikiLink list" where
  "extract_wikilinks events content =
     (let exclusions = code_block_ranges events content in
      List.map_filter (\<lambda>(pos, n).
          if is_in_code_block pos exclusions then None
          else Some (parse_wikilink_inner (slice content pos (pos + n + 4))
                       (slice content (pos + 2) (pos + 2 + n)) (byte_offset_to_line content pos)))
        (wikilink_matches content 0))"

section \<open>Inline tags\<close>

definition extract_inline_tags :: "md_parser \<Rightarrow> (str \<Rightarrow> (nat \<times> nat) list) \<Rightarrow> str \<Rightarrow> str list" where
  "extract_inline_tags events tag_matches content =
     (if tag_matches content = [] then []
      else let exclusions = code_block_ranges events content in
           remdups_adj (sort (map (\<lambda>(a, b). slice content a b)
             (filter (\<lambda>(a, b). \<not> is_in_code_block a exclusions) (tag_matches content)))))"

section \<open>Block references\<close>

definition is_id_char :: "char \<Rightarrow> bool" where
  "is_id_char c \<longleftrightarrow> is_ascii_alphanumeric c \<or> c = CHR ''-''"

text \<open>White space other than a line feed, dropped greedily.\<close>

function skip_blank :: "str \<Rightarrow> str" where
  "skip_blank [] = []"
| "skip_blank (c # cs) =
     (if c \<noteq> LF \<and> is_ws_char (first_char (c # cs)) then skip_blank (drop (char_len c) (c # cs))
      else c # cs)"
  by pat_completeness auto
termination
  by (relation "measure length") auto

text \<open>\<^verbatim>\<open>(?m)\^([a-zA-Z0-9-]+)[^\S\n]*$\<close> at the front of a text: the length of the captured
  identifier and of the whole match.\<close>

definition block_ref_at :: "str \<Rightarrow> (nat \<times> nat) option" where
  "block_ref_at s =
     (if starts_with s ''^'' then
        let ident = takeWhile is_id_char (drop 1 s);
            rest = skip_blank (drop (1 + length ident) s) in
        if ident \<noteq> [] \<and> (rest = [] \<or> hd rest = LF)
        then Some (length ident, length s - length rest) else None
      else None)"

function block_ref_matches :: "str \<Rightarrow> nat \<Rightarrow> (nat \<times> nat) list" where
  "block_ref_matches content pos =
     (if length content \<le> pos then []
      else case block_ref_at (drop pos content) of
             Some (n, m) \<Rightarrow> (pos + 1, pos + 1 + n) # block_ref_matches content (pos + max 1 m)
           | None \<Rightarrow> block_ref_matches content (pos + 1))"
  by pat_completeness auto
termination
  by (relation "measure (\<lambda>(content, pos). length content - pos)") auto

declare block_ref_matches.simps [simp del]

definition block_ref_ids :: "md_parser \<Rightarrow> str \<Rightarrow> (nat \<times> nat) list" where
  "block_ref_ids events content =
     (let exclusions = code_block_ranges events content in
      filter (\<lambda>(a, b). \<not> is_in_code_block a exclusions) (block_ref_matches content 0))"

definition extract_block_refs :: "md_parser \<Rightarrow> str \<Rightarrow> str list" where
  "extract_block_refs events content = map (\<lambda>(a, b). slice content a b) (block_ref_ids events content)"

record BlockRef =
  bline :: "nat \<times> nat"
  marker_start :: nat
  end_with_newline :: nat

definition find_block_ref :: "md_parser \<Rightarrow> str \<Rightarrow> str \<Rightarrow> BlockRef option" where
  "find_block_ref events content block_id =
     (case List.find (\<lambda>(a, b). slice content a b = block_id) (block_ref_ids events content) of
        None \<Rightarrow> None
      | Some (id_start, id_end) \<Rightarrow>
          let marker = id_start - 1;
              start = (case rfind_byte (\<lambda>c. c = LF) (take marker content) of None \<Rightarrow> 0 | Some i \<Rightarrow> i + 1);
              (e, enl) =
                (case find_byte (\<lambda>c. c = LF) (drop id_end content) of
                   Some off \<Rightarrow>
                     let lf = id_end + off in
                     (if content ! (lf - 1) = CR then lf - 1 else lf, lf + 1)
                 | None \<Rightarrow> (length content, length content))
          in Some \<lparr> bline = (start, e), marker_start = marker, end_with_newline = enl \<rparr>)"

definition find_block_ref_range :: "md_parser \<Rightarrow> str \<Rightarrow> str \<Rightarrow> (nat \<times> nat) option" where
  "find_block_ref_range events content block_id =
     map_option bline (find_block_ref events content block_id)"

section \<open>Heading sections\<close>

text \<open>\<^verbatim>\<open>str::split\<close> with a string pattern; the first argument is the unread length as fuel.\<close>

function split_str :: "str \<Rightarrow> str \<Rightarrow> str list" where
  "split_str d s =
     (if d = [] then [s]
      else case find_str d s of
             None \<Rightarrow> [s]
           | Some i \<Rightarrow> take i s # split_str d (drop (i + length d) s))"
  by pat_completeness auto
termination
  by (relation "measure (\<lambda>(d, s). length s)") (auto dest!: find_str_Some simp flip: length_greater_0_conv)

declare split_str.simps [simp del]

fun heading_range_loop ::
  "HeadingPos list \<Rightarrow> str list \<Rightarrow> nat \<Rightarrow> nat \<Rightarrow> (nat \<times> nat) option" where
  "heading_range_loop hs [] s e = Some (s, e)"
| "heading_range_loop hs (seg # segs) s e =
     (case dropWhile (\<lambda>h. \<not> (s \<le> offset h \<and> offset h < e \<and> eq_ignore_ascii_case (htext h) seg)) hs of
        [] \<Rightarrow> None
      | h # later \<Rightarrow>
          heading_range_loop hs segs (offset h)
            (case List.find (\<lambda>n. offset n < e \<and> level n \<le> level h) later of
               Some n \<Rightarrow> offset n | None \<Rightarrow> e))"

definition find_heading_range :: "md_parser \<Rightarrow> str \<Rightarrow> str \<Rightarrow> str \<Rightarrow> (nat \<times> nat) option" where
  "find_heading_range events content heading_path delimiter =
     heading_range_loop (extract_headings_with_offsets events content)
       (map trim (split_str delimiter heading_path)) 0 (length content)"

section \<open>Document map\<close>

definition extract_frontmatter_keys :: "(str \<Rightarrow> str + (json \<times> json) list option) \<Rightarrow> str \<Rightarrow> str list" where
  "extract_frontmatter_keys yaml_mapping content =
     (case extract_raw_frontmatter content of
        None \<Rightarrow> []
      | Some (y, _) \<Rightarrow>
          if trim y = [] then []
          else case yaml_mapping y of
                 Inr (Some kvs) \<Rightarrow> List.map_filter (\<lambda>(k, v). json_as_str k) kvs
               | _ \<Rightarrow> [])"

record DocumentMap =
  map_headings :: "str list"
  map_block_refs :: "str list"
  frontmatter_fields :: "str list"

definition build_document_map ::
  "md_parser \<Rightarrow> (str \<Rightarrow> str + (json \<times> json) list option) \<Rightarrow> str \<Rightarrow> DocumentMap" where
  "build_document_map events yaml_mapping content =
     \<lparr> map_headings = map (\<lambda>(lvl, t, _). replicate lvl (CHR ''#'') @ '' '' @ t) (extract_headings events content),
       map_block_refs = extract_block_refs events content,
       frontmatter_fields = extract_frontmatter_keys yaml_mapping content \<rparr>"

section \<open>Allocation bounds\<close>

text \<open>\<^verbatim>\<open>usize::checked_next_power_of_two\<close>: doubling \<open>p\<close> until it reaches \<open>n\<close>.\<close>

function double_to :: "nat \<Rightarrow> nat \<Rightarrow> nat" where
  "double_to n p = (if n \<le> p \<or> p = 0 then p else double_to n (2 * p))"
  by pat_completeness auto
termination
  by (relation "measure (\<lambda>(n, p). n - p)") auto

declare double_to.simps [simp del]

definition allocation_capacity_bound :: "nat \<Rightarrow> nat" where
  "allocation_capacity_bound len =
     (if len = 0 then 0
      else max (if double_to len 1 \<le> usize_max then double_to len 1 else usize_max) 4)"

record bound_state =
  n_headings :: nat
  n_heading_bytes :: nat
  b_in_heading :: bool
  n_blocks :: nat
  b_depth :: nat

fun bound_block :: "md_event \<Rightarrow> bound_state \<Rightarrow> bound_state" where
  "bound_block (Start t) b = (if is_block_tag t then b \<lparr> b_depth := b_depth b + 1 \<rparr> else b)"
| "bound_block (End t) b =
     (if is_block_end t
      then let b' = b \<lparr> b_depth := wrap_sub (b_depth b) 1 \<rparr>
           in if b_depth b' = 0 then b' \<lparr> n_blocks := n_blocks b' + 1 \<rparr> else b'
      else b)"
| "bound_block Rule b = (if b_depth b = 0 then b \<lparr> n_blocks := n_blocks b + 1 \<rparr> else b)"
| "bound_block _ b = b"

fun bound_heading :: "md_event \<Rightarrow> bound_state \<Rightarrow> bound_state" where
  "bound_heading (Start (Heading _)) b = b \<lparr> n_headings := n_headings b + 1, b_in_heading := True \<rparr>"
| "bound_heading (End (Heading _)) b = b \<lparr> b_in_heading := False \<rparr>"
| "bound_heading (MdText t) b =
     (if b_in_heading b then b \<lparr> n_heading_bytes := n_heading_bytes b + length t \<rparr> else b)"
| "bound_heading (MdCode t) b =
     (if b_in_heading b then b \<lparr> n_heading_bytes := n_heading_bytes b + length t \<rparr> else b)"
| "bound_heading SoftBreak b =
     (if b_in_heading b then b \<lparr> n_heading_bytes := n_heading_bytes b + 1 \<rparr> else b)"
| "bound_heading _ b = b"

definition bound_init :: bound_state where
  "bound_init = \<lparr> n_headings = 0, n_heading_bytes = 0, b_in_heading = False, n_blocks = 0, b_depth = 0 \<rparr>"

definition bound_step :: "bound_state \<Rightarrow> md_event \<times> nat \<times> nat \<Rightarrow> bound_state" where
  "bound_step b e = bound_heading (fst e) (bound_block (fst e) b)"

text \<open>The sizes of \<^verbatim>\<open>HeadingPos\<close> and \<^verbatim>\<open>MarkdownBlock\<close> in memory are the compiler's: two parameters.\<close>

definition semantic_structure_allocation_bound :: "nat \<Rightarrow> nat \<Rightarrow> md_parser \<Rightarrow> str \<Rightarrow> nat" where
  "semantic_structure_allocation_bound heading_size block_size events content =
     (let b = foldl bound_step bound_init (events True content) in
      sat_add
        (sat_add (sat_mul (allocation_capacity_bound (n_headings b)) heading_size)
           (sat_mul (allocation_capacity_bound (n_blocks b)) block_size))
        (sat_mul (n_heading_bytes b) 3))"

section \<open>Code ranges: the search finds the range that holds an offset\<close>

definition ranges_ok :: "(nat \<times> nat) list \<Rightarrow> bool" where
  "ranges_ok rs \<longleftrightarrow> sorted_wrt (\<lambda>a b. snd a \<le> fst b) rs \<and> list_all (\<lambda>r. fst r \<le> snd r) rs"

definition holds_offset :: "nat \<Rightarrow> nat \<times> nat \<Rightarrow> bool" where
  "holds_offset off r \<longleftrightarrow> fst r \<le> off \<and> off < snd r"

lemma ranges_ok_nth:
  "ranges_ok rs \<Longrightarrow> i < j \<Longrightarrow> j < length rs \<Longrightarrow> snd (rs ! i) \<le> fst (rs ! j)"
  by (simp add: ranges_ok_def sorted_wrt_iff_nth_less)

lemma ranges_ok_order:
  assumes "ranges_ok rs" and "i \<le> j" and "j < length rs"
  shows "fst (rs ! i) \<le> fst (rs ! j) \<and> snd (rs ! i) \<le> snd (rs ! j)"
proof (cases "i = j")
  case False
  have "fst (rs ! i) \<le> snd (rs ! i)" "fst (rs ! j) \<le> snd (rs ! j)"
    using assms by (auto simp: ranges_ok_def list_all_length)
  with False ranges_ok_nth [OF assms(1), of i j] assms show ?thesis by simp
qed simp

lemma range_search_iff:
  "ranges_ok rs \<Longrightarrow> hi \<le> length rs \<Longrightarrow>
   range_search off rs lo hi \<longleftrightarrow> (\<exists>i. lo \<le> i \<and> i < hi \<and> holds_offset off (rs ! i))"
proof (induction off rs lo hi rule: range_search.induct)
  case (1 off rs lo hi)
  show ?case
  proof (cases "hi \<le> lo")
    case True
    then show ?thesis by (subst range_search.simps) auto
  next
    case False
    define mid where "mid = lo + (hi - lo) div 2"
    have m: "lo \<le> mid" "mid < hi" using False by (auto simp: mid_def)
    consider (left) "off < fst (rs ! mid)" | (right) "fst (rs ! mid) \<le> off" "snd (rs ! mid) \<le> off"
      | (hit) "holds_offset off (rs ! mid)"
      by (force simp: holds_offset_def)
    then show ?thesis
    proof cases
      case left
      have "range_search off rs lo hi = range_search off rs lo mid"
        using False left by (subst range_search.simps) (simp add: Let_def mid_def)
      also have "\<dots> \<longleftrightarrow> (\<exists>i. lo \<le> i \<and> i < mid \<and> holds_offset off (rs ! i))"
        using "1.IH"(1) [OF False mid_def refl left] "1.prems" m by simp
      also have "\<dots> \<longleftrightarrow> (\<exists>i. lo \<le> i \<and> i < hi \<and> holds_offset off (rs ! i))"
      proof -
        have "i < mid" if "i < hi" "holds_offset off (rs ! i)" for i
          using that ranges_ok_order [OF "1.prems"(1), of mid i] left "1.prems"(2)
          by (force simp: holds_offset_def)
        with m show ?thesis by (meson less_trans)
      qed
      finally show ?thesis .
    next
      case right
      have "range_search off rs lo hi = range_search off rs (mid + 1) hi"
        using False right by (subst range_search.simps) (simp add: Let_def mid_def)
      also have "\<dots> \<longleftrightarrow> (\<exists>i. mid + 1 \<le> i \<and> i < hi \<and> holds_offset off (rs ! i))"
        using "1.IH"(2) [OF False mid_def refl] right "1.prems" by simp
      also have "\<dots> \<longleftrightarrow> (\<exists>i. lo \<le> i \<and> i < hi \<and> holds_offset off (rs ! i))"
      proof -
        have "mid + 1 \<le> i" if "i < hi" "holds_offset off (rs ! i)" for i
          using that ranges_ok_order [OF "1.prems"(1), of i mid] right m "1.prems"(2)
          by (force simp: holds_offset_def not_less_eq_eq)
        with m show ?thesis by (meson le_trans le_add1)
      qed
      finally show ?thesis .
    next
      case hit
      then have "range_search off rs lo hi"
        using False by (subst range_search.simps) (simp add: Let_def mid_def holds_offset_def)
      with hit m show ?thesis by blast
    qed
  qed
qed

lemma is_in_code_block_iff:
  "ranges_ok rs \<Longrightarrow> is_in_code_block off rs \<longleftrightarrow> (\<exists>r \<in> set rs. holds_offset off r)"
  by (simp add: is_in_code_block_def range_search_iff) (metis in_set_conv_nth)

section \<open>Wikilinks: every occurrence is found\<close>

lemma wikilink_at_iff:
  "wikilink_at s = Some n \<longleftrightarrow>
     (\<exists>inner r. s = ''[['' @ inner @ '']]'' @ r \<and> inner \<noteq> [] \<and> n = length inner
                \<and> (\<forall>c \<in> set inner. \<not> is_bracket c))"
proof
  assume w: "wikilink_at s = Some n"
  then obtain t where t: "s = ''[['' @ t" by (auto simp: wikilink_at_def starts_with_iff split: if_splits)
  let ?i = "takeWhile (\<lambda>c. \<not> is_bracket c) t"
  from w t have i: "?i \<noteq> []" "starts_with (drop (length ?i) t) '']]''" "n = length ?i"
    by (auto simp: wikilink_at_def Let_def split: if_splits)
  then obtain r where "drop (length ?i) t = '']]'' @ r" by (auto simp: starts_with_iff)
  then have "t = ?i @ '']]'' @ r" by (metis append_take_drop_id takeWhile_eq_take)
  moreover have "\<forall>c \<in> set ?i. \<not> is_bracket c" by (auto dest: set_takeWhileD)
  ultimately show "\<exists>inner r. s = ''[['' @ inner @ '']]'' @ r \<and> inner \<noteq> [] \<and> n = length inner
      \<and> (\<forall>c \<in> set inner. \<not> is_bracket c)"
    using t i by blast
next
  assume "\<exists>inner r. s = ''[['' @ inner @ '']]'' @ r \<and> inner \<noteq> [] \<and> n = length inner
      \<and> (\<forall>c \<in> set inner. \<not> is_bracket c)"
  then obtain inner r where s: "s = ''[['' @ inner @ '']]'' @ r" "inner \<noteq> []" "n = length inner"
    and f: "\<forall>c \<in> set inner. \<not> is_bracket c" by blast
  have "takeWhile (\<lambda>c. \<not> is_bracket c) (inner @ '']]'' @ r) = inner"
    using f by (subst takeWhile_append2) auto
  with s show "wikilink_at s = Some n"
    by (simp add: wikilink_at_def Let_def starts_with_def)
qed

lemma wikilink_at_next:
  assumes "wikilink_at s = Some n" and "0 < k" and "k < n + 4"
  shows "wikilink_at (drop k s) = None"
proof (rule ccontr)
  from assms(1) obtain inner r where s: "s = ''[['' @ inner @ '']]'' @ r" "n = length inner" "inner \<noteq> []"
    and f: "\<forall>c \<in> set inner. \<not> is_bracket c"
    by (auto simp: wikilink_at_iff)
  assume "wikilink_at (drop k s) \<noteq> None"
  then obtain m where "wikilink_at (drop k s) = Some m" by auto
  then obtain t where "drop k s = ''[['' @ t" by (auto simp: wikilink_at_iff)
  then have "s ! k = CHR ''[''" "s ! Suc k = CHR ''[''" "Suc k < length s"
    by (metis append_Cons nth_Cons_0 nth_drop add.right_neutral nth_via_drop,
        metis Cons_nth_drop_Suc append_Cons drop_eq_Nil list.distinct(1) list.inject not_le,
        metis append_Cons drop_eq_Nil drop_Suc tl_drop list.sel(3) list.distinct(1) not_le)
  note c = this
  consider "k = 1" | "2 \<le> k" "k < n + 2" | "n + 2 \<le> k" "k < n + 4" using assms(2,3) by linarith
  then show False
  proof cases
    case 1
    with c(2) s have "hd inner = CHR ''[''" by (cases inner) auto
    with f s(3) show ?thesis by (metis hd_in_set)
  next
    case 2
    with c(1) s have "inner ! (k - 2) = CHR ''[''" and "k - 2 < length inner"
      by (auto simp: nth_append nth_Cons' numeral_2_eq_2 split: if_splits)
    with f show ?thesis by (metis nth_mem)
  next
    case 3
    then have "k = n + 2 \<or> k = n + 3" by linarith
    with c(1) s show ?thesis by (auto simp: nth_append nth_Cons')
  qed
qed

lemma wikilink_matches_iff:
  "(p, n) \<in> set (wikilink_matches content pos) \<longleftrightarrow> pos \<le> p \<and> wikilink_at (drop p content) = Some n"
proof (induction content pos rule: wikilink_matches.induct)
  case (1 content pos)
  have nil: "wikilink_at [] = None" by (simp add: wikilink_at_def starts_with_def)
  show ?case
  proof (cases "length content \<le> pos")
    case True
    then show ?thesis using nil by (subst wikilink_matches.simps) auto
  next
    case False
    show ?thesis
    proof (cases "wikilink_at (drop pos content)")
      case None
      with False 1 show ?thesis
        by (subst wikilink_matches.simps) (auto simp: Suc_le_eq le_less)
    next
      case (Some m)
      have skip: "\<not> (pos < p \<and> p < pos + m + 4 \<and> wikilink_at (drop p content) = Some n)"
      proof
        assume a: "pos < p \<and> p < pos + m + 4 \<and> wikilink_at (drop p content) = Some n"
        have "wikilink_at (drop (p - pos) (drop pos content)) = None"
          by (rule wikilink_at_next [OF Some]) (use a in auto)
        with a show False by simp
      qed
      have "(p, n) \<in> set (wikilink_matches content pos) \<longleftrightarrow>
          (p, n) = (pos, m) \<or> (p, n) \<in> set (wikilink_matches content (pos + m + 4))"
        using False Some by (subst wikilink_matches.simps) auto
      also have "\<dots> \<longleftrightarrow> (p, n) = (pos, m) \<or> pos + m + 4 \<le> p \<and> wikilink_at (drop p content) = Some n"
        using 1(2) [OF False Some] by simp
      also have "\<dots> \<longleftrightarrow> pos \<le> p \<and> wikilink_at (drop p content) = Some n"
        using skip Some by (metis Pair_inject add_leE le_neq_implies_less linorder_not_less option.inject order_refl)
      finally show ?thesis .
    qed
  qed
qed

section \<open>Headings: lines, limits and sections\<close>

text \<open>The stream visits headings in source order.\<close>

fun heading_starts :: "md_stream \<Rightarrow> nat list" where
  "heading_starts [] = []"
| "heading_starts ((Start (Heading _), r) # evs) = fst r # heading_starts evs"
| "heading_starts (_ # evs) = heading_starts evs"

definition source_order :: "nat \<Rightarrow> md_stream \<Rightarrow> bool" where
  "source_order n evs \<longleftrightarrow> sorted (heading_starts evs) \<and> list_all (\<lambda>p. p \<le> n) (heading_starts evs)"

definition line_ok :: "str \<Rightarrow> HeadingPos \<Rightarrow> bool" where
  "line_ok content h \<longleftrightarrow> hline h = byte_offset_to_line content (offset h)"

definition lines_inv :: "str \<Rightarrow> extraction \<Rightarrow> bool" where
  "lines_inv content x \<longleftrightarrow>
     current_line x = byte_offset_to_line content (line_scan_offset x)
     \<and> (in_heading x \<longrightarrow> line_scan_offset x = current_offset x)
     \<and> list_all (line_ok content) (x_headings x)"

lemma byte_offset_to_line_step:
  "a \<le> b \<Longrightarrow> byte_offset_to_line content b = byte_offset_to_line content a + count_list (slice content a b) LF"
proof -
  assume "a \<le> b"
  then have "take b content = take a content @ slice content a b"
    by (metis slice_append slice_simps(3) zero_le)
  then show ?thesis by (simp add: byte_offset_to_line_def)
qed

lemma block_step_frame:
  "block_step ev r x = Inr x' \<Longrightarrow>
   current_line x' = current_line x \<and> line_scan_offset x' = line_scan_offset x
   \<and> in_heading x' = in_heading x \<and> current_offset x' = current_offset x
   \<and> current_level x' = current_level x \<and> current_text x' = current_text x \<and> x_headings x' = x_headings x"
  by (cases ev) (auto simp: push_block_def Let_def split: if_splits)

lemma lines_inv_frame:
  "block_step ev r x = Inr x' \<Longrightarrow> lines_inv content x \<Longrightarrow> lines_inv content x'"
  by (auto simp: lines_inv_def dest!: block_step_frame)

lemma heading_step_lines:
  assumes "heading_step content collect ev r x = Inr x'" and "lines_inv content x"
    and "source_order (length content) ((ev, r) # evs)"
    and "\<forall>p \<in> set (heading_starts ((ev, r) # evs)). line_scan_offset x \<le> p"
  shows "lines_inv content x' \<and> (\<forall>p \<in> set (heading_starts evs). line_scan_offset x' \<le> p)"
  using assms
proof (cases "(content, collect, ev, r, x)" rule: heading_step.cases)
  case (1 c co l r' x'')
  with assms(4) have "line_scan_offset x \<le> fst r" by simp
  from byte_offset_to_line_step [OF this, of content] 1 assms(1-3) show ?thesis
    by (auto simp: lines_inv_def source_order_def)
qed (auto simp: lines_inv_def line_ok_def split: if_splits)

lemma source_order_tail: "source_order n (e # evs) \<Longrightarrow> source_order n evs"
  by (cases "e # evs" rule: heading_starts.cases) (auto simp: source_order_def)

lemma extract_loop_lines:
  "lines_inv content x \<Longrightarrow> source_order (length content) evs
   \<Longrightarrow> \<forall>p \<in> set (heading_starts evs). line_scan_offset x \<le> p
   \<Longrightarrow> list_all (line_ok content) (headings (extract_loop content collect evs x))"
proof (induction evs arbitrary: x)
  case Nil
  then show ?case by (simp add: extraction_of_def lines_inv_def)
next
  case (Cons e evs)
  obtain ev r where e: "e = (ev, r)" by (cases e)
  show ?case
  proof (cases "if collect then block_step ev r x else Inr x")
    case (Inl lim)
    with Cons.prems(1) show ?thesis by (simp add: e extraction_of_def lines_inv_def)
  next
    case (Inr x1)
    then have l1: "lines_inv content x1" "line_scan_offset x1 = line_scan_offset x"
      using lines_inv_frame block_step_frame Cons.prems(1) by (auto split: if_splits)
    show ?thesis
    proof (cases "heading_step content collect ev r x1")
      case (Inl lim)
      with Inr l1 show ?thesis by (simp add: e extraction_of_def lines_inv_def)
    next
      case (Inr x2)
      from heading_step_lines [OF this l1(1), of evs] Cons.prems(2,3) l1(2)
      have "lines_inv content x2 \<and> (\<forall>p \<in> set (heading_starts evs). line_scan_offset x2 \<le> p)"
        by (simp add: e)
      with Cons.IH [of x2] source_order_tail [OF Cons.prems(2)] Inr
        \<open>(if collect then block_step ev r x else Inr x) = Inr x1\<close>
      show ?thesis by (simp add: e)
    qed
  qed
qed

lemma extract_loop_limits:
  "length (x_headings x) \<le> MAX_SEMANTIC_HEADINGS \<Longrightarrow> length (x_blocks x) \<le> MAX_SEMANTIC_BLOCKS \<Longrightarrow>
   length (headings (extract_loop content True evs x)) \<le> MAX_SEMANTIC_HEADINGS
   \<and> length (blocks (extract_loop content True evs x)) \<le> MAX_SEMANTIC_BLOCKS"
proof (induction evs arbitrary: x)
  case Nil
  then show ?case by (simp add: extraction_of_def)
next
  case (Cons e evs)
  obtain ev r where e: "e = (ev, r)" by (cases e)
  have b: "length (x_headings x1) \<le> MAX_SEMANTIC_HEADINGS \<and> length (x_blocks x1) \<le> MAX_SEMANTIC_BLOCKS"
    if "block_step ev r x = Inr x1" for x1
    using that Cons.prems by (cases ev) (auto simp: push_block_def Let_def split: if_splits)
  have h: "length (x_headings x2) \<le> MAX_SEMANTIC_HEADINGS \<and> length (x_blocks x2) \<le> MAX_SEMANTIC_BLOCKS"
    if "heading_step content True ev r x1 = Inr x2" "length (x_headings x1) \<le> MAX_SEMANTIC_HEADINGS"
       "length (x_blocks x1) \<le> MAX_SEMANTIC_BLOCKS" for x1 x2
    using that by (cases "(content, True, ev, r, x1)" rule: heading_step.cases) (auto split: if_splits)
  show ?case
    using Cons b h by (auto simp: e extraction_of_def split: sum.splits)
qed

text \<open>Headings in order, disjoint, within the text.\<close>

definition wf_headings :: "nat \<Rightarrow> HeadingPos list \<Rightarrow> bool" where
  "wf_headings n hs \<longleftrightarrow>
     sorted_wrt (\<lambda>a b. hend a \<le> offset b) hs \<and> list_all (\<lambda>h. offset h < hend h \<and> hend h \<le> n) hs"

lemma wf_headings_later:
  assumes "wf_headings n hs" and "hs = pre @ h # later" and "k \<in> set hs" and "offset h < offset k"
  shows "k \<in> set later"
proof -
  have "hend k \<le> offset h" if "k \<in> set pre" using assms(1,2) that by (auto simp: wf_headings_def sorted_wrt_append)
  moreover have "offset k < hend k" using assms(1,3) by (auto simp: wf_headings_def list_all_iff)
  ultimately have "k \<notin> set pre" using assms(4) by fastforce
  with assms(2-4) show ?thesis by auto
qed

lemma find_first:
  "List.find P xs = Some y \<Longrightarrow> \<exists>us vs. xs = us @ y # vs \<and> P y \<and> (\<forall>u \<in> set us. \<not> P u)"
proof (induction xs)
  case (Cons x xs)
  show ?case
  proof (cases "P x")
    case True
    with Cons.prems show ?thesis by (intro exI [of _ "[]"] exI [of _ xs]) auto
  next
    case False
    with Cons obtain us vs where "xs = us @ y # vs \<and> P y \<and> (\<forall>u \<in> set us. \<not> P u)" by auto
    with False show ?thesis by (intro exI [of _ "x # us"] exI [of _ vs]) auto
  qed
qed simp

text \<open>The section of a heading inside \<open>s ..< e\<close> ends at the next heading that is not deeper.\<close>

definition section_of :: "HeadingPos list \<Rightarrow> HeadingPos \<Rightarrow> nat \<Rightarrow> nat \<Rightarrow> bool" where
  "section_of hs h e e' \<longleftrightarrow>
     h \<in> set hs \<and> e' \<le> e \<and> hend h \<le> e'
     \<and> (\<forall>k \<in> set hs. offset h < offset k \<and> offset k < e' \<longrightarrow> level h < level k)
     \<and> (e' = e \<or> (\<exists>k \<in> set hs. offset k = e' \<and> level k \<le> level h))"

definition heading_bound :: "HeadingPos list \<Rightarrow> nat \<Rightarrow> bool" where
  "heading_bound hs e \<longleftrightarrow> (\<forall>h \<in> set hs. offset h < e \<longrightarrow> hend h \<le> e)"

lemma heading_bound_offset:
  assumes "wf_headings n hs" and "k \<in> set hs"
  shows "heading_bound hs (offset k)"
  unfolding heading_bound_def
proof (intro ballI impI)
  fix h assume h: "h \<in> set hs" "offset h < offset k"
  obtain pre later where s: "hs = pre @ h # later" using split_list [OF h(1)] by blast
  have "k \<in> set later" by (rule wf_headings_later [OF assms(1) s assms(2) h(2)])
  with assms(1) s show "hend h \<le> offset k" by (auto simp: wf_headings_def sorted_wrt_append)
qed

lemma heading_bound_length: "wf_headings n hs \<Longrightarrow> heading_bound hs n"
  by (auto simp: wf_headings_def heading_bound_def list_all_iff)

lemma section_step:
  assumes w: "wf_headings n hs" and b: "heading_bound hs e" and s: "hs = pre @ h # later" and o: "offset h < e"
  defines "e' \<equiv> (case List.find (\<lambda>k. offset k < e \<and> level k \<le> level h) later of Some k \<Rightarrow> offset k | None \<Rightarrow> e)"
  shows "section_of hs h e e' \<and> heading_bound hs e'"
proof (cases "List.find (\<lambda>k. offset k < e \<and> level k \<le> level h) later")
  case None
  then have l: "\<forall>k \<in> set later. \<not> (offset k < e \<and> level k \<le> level h)"
    by (auto simp: find_None_iff)
  have "level h < level k" if "k \<in> set hs" "offset h < offset k" "offset k < e" for k
    using wf_headings_later [OF w s that(1,2)] l that(3) by (meson not_le)
  moreover have "hend h \<le> e" using b o s by (auto simp: heading_bound_def)
  ultimately show ?thesis using None b s by (auto simp: e'_def section_of_def)
next
  case (Some k)
  from find_first [OF this] obtain us vs where later: "later = us @ k # vs"
    and k: "offset k < e" "level k \<le> level h" and us: "\<forall>u \<in> set us. \<not> (offset u < e \<and> level u \<le> level h)"
    by blast
  have e: "e' = offset k" using Some by (simp add: e'_def)
  have kh: "k \<in> set hs" using s later by simp
  have "level h < level j" if "j \<in> set hs" "offset h < offset j" "offset j < offset k" for j
  proof -
    have "j \<in> set later" by (rule wf_headings_later [OF w s that(1,2)])
    moreover have "j \<noteq> k" using that(3) by auto
    moreover have "j \<notin> set vs"
      using w s later that(3) by (fastforce simp: wf_headings_def sorted_wrt_append list_all_iff)
    ultimately have "j \<in> set us" using later by auto
    with us that(3) k(1) show ?thesis by (meson less_trans not_le)
  qed
  moreover have "hend h \<le> offset k" using w s later by (auto simp: wf_headings_def sorted_wrt_append)
  ultimately have "section_of hs h e e'"
    using e k kh s by (auto simp: section_of_def)
  moreover have "heading_bound hs e'" unfolding e by (rule heading_bound_offset [OF w kh])
  ultimately show ?thesis ..
qed

lemma heading_range_loop_section:
  "wf_headings n hs \<Longrightarrow> heading_bound hs e \<Longrightarrow> e \<le> n \<Longrightarrow> segs \<noteq> []
   \<Longrightarrow> heading_range_loop hs segs s e = Some (a, b) \<Longrightarrow>
   \<exists>h e0. e0 \<le> e \<and> section_of hs h e0 b \<and> offset h = a \<and> s \<le> a \<and> eq_ignore_ascii_case (htext h) (last segs)"
proof (induction segs arbitrary: s e)
  case (Cons seg segs)
  let ?P = "\<lambda>h. s \<le> offset h \<and> offset h < e \<and> eq_ignore_ascii_case (htext h) seg"
  from Cons.prems(5) obtain h later where d: "dropWhile (\<lambda>h. \<not> ?P h) hs = h # later"
    by (auto split: list.splits)
  then have p: "?P h" by (metis hd_dropWhile list.distinct(1) list.sel(1))
  define e' where "e' = (case List.find (\<lambda>k. offset k < e \<and> level k \<le> level h) later of Some k \<Rightarrow> offset k | None \<Rightarrow> e)"
  have s: "hs = takeWhile (\<lambda>h. \<not> ?P h) hs @ h # later" by (metis d takeWhile_dropWhile_id)
  have st: "section_of hs h e e'" "heading_bound hs e'"
    using section_step [OF Cons.prems(1,2) s] p by (auto simp: e'_def)
  from Cons.prems(5) d have r: "heading_range_loop hs segs (offset h) e' = Some (a, b)"
    by (simp add: e'_def)
  show ?case
  proof (cases "segs = []")
    case True
    with r st(1) p show ?thesis by auto
  next
    case False
    have "e' \<le> e" using st(1) by (simp add: section_of_def)
    with Cons.IH [OF Cons.prems(1) st(2) _ False r] Cons.prems(3)
    obtain k e0 where "e0 \<le> e'" "section_of hs k e0 b" "offset k = a" "offset h \<le> a"
      "eq_ignore_ascii_case (htext k) (last segs)"
      by auto
    with \<open>e' \<le> e\<close> p False show ?thesis by (intro exI [of _ k] exI [of _ e0]) auto
  qed
qed simp

lemma split_str_nonempty [simp]: "split_str d s \<noteq> []"
  by (subst split_str.simps) (auto split: option.splits)

section \<open>Block references: the line of a marker\<close>

lemma block_ref_at_front:
  "block_ref_at s = Some (n, m) \<Longrightarrow> \<exists>r. s = CHR ''^'' # take n (drop 1 s) @ r \<and> n \<noteq> 0 \<and> n < length s
     \<and> (\<forall>c \<in> set (take n (drop 1 s)). is_id_char c)"
proof -
  assume b: "block_ref_at s = Some (n, m)"
  then obtain t where t: "s = CHR ''^'' # t" by (auto simp: block_ref_at_def starts_with_iff split: if_splits)
  let ?i = "takeWhile is_id_char t"
  from b t have n: "n = length ?i" "?i \<noteq> []" by (auto simp: block_ref_at_def Let_def split: if_splits)
  then have i: "take n t = ?i" by (simp add: takeWhile_eq_take [symmetric])
  have "t = ?i @ drop n t" by (metis append_take_drop_id i)
  moreover have "n \<le> length t" unfolding n(1) by (rule length_takeWhile_le)
  moreover have "\<forall>c \<in> set ?i. is_id_char c" by (auto dest: set_takeWhileD)
  ultimately show ?thesis using t n i by auto
qed

lemma block_ref_matches_front:
  "(a, b) \<in> set (block_ref_matches content pos) \<Longrightarrow>
   \<exists>p m. pos \<le> p \<and> p < length content \<and> a = p + 1 \<and> b = p + 1 + (b - a)
     \<and> block_ref_at (drop p content) = Some (b - a, m)"
proof (induction content pos rule: block_ref_matches.induct)
  case (1 content pos)
  show ?case
  proof (cases "length content \<le> pos")
    case True
    with "1.prems" show ?thesis by (subst (asm) block_ref_matches.simps) simp
  next
    case False
    show ?thesis
    proof (cases "block_ref_at (drop pos content)")
      case None
      with False "1.prems" have "(a, b) \<in> set (block_ref_matches content (pos + 1))"
        by (subst (asm) block_ref_matches.simps) simp
      with "1.IH"(1) [OF False None] show ?thesis by (meson add_leE)
    next
      case (Some nm)
      obtain n m where nm: "nm = (n, m)" by (cases nm)
      with False Some "1.prems" consider "(a, b) = (pos + 1, pos + 1 + n)"
        | "(a, b) \<in> set (block_ref_matches content (pos + max 1 m))"
        by (subst (asm) block_ref_matches.simps) auto
      then show ?thesis
      proof cases
        case 1
        with False Some nm show ?thesis by (intro exI [of _ pos] exI [of _ m]) auto
      next
        case 2
        with "1.IH"(2) [OF False Some nm [symmetric]] show ?thesis by (meson add_leE)
      qed
    qed
  qed
qed

definition block_line_ok :: "str \<Rightarrow> str \<Rightarrow> BlockRef \<Rightarrow> bool" where
  "block_line_ok content ident b \<longleftrightarrow>
     (let s = fst (bline b); e = snd (bline b); m = marker_start b; n = end_with_newline b in
      s \<le> m \<and> m + 1 + length ident \<le> e \<and> e \<le> n \<and> n \<le> length content
      \<and> (s = 0 \<or> content ! (s - 1) = LF) \<and> LF \<notin> set (slice content s e)
      \<and> slice content m (m + 1 + length ident) = CHR ''^'' # ident
      \<and> slice content e n \<in> {[], [LF], [CR, LF]} \<and> (slice content e n = [] \<longrightarrow> n = length content))"

lemma in_set_slice:
  "c \<in> set (slice s a b) \<longleftrightarrow> (\<exists>i. a \<le> i \<and> i < b \<and> i < length s \<and> s ! i = c)"
proof
  assume "c \<in> set (slice s a b)"
  then obtain j where "j < length (slice s a b)" "slice s a b ! j = c" by (auto simp: in_set_conv_nth)
  then show "\<exists>i. a \<le> i \<and> i < b \<and> i < length s \<and> s ! i = c"
    by (intro exI [of _ "a + j"]) (auto simp: slice_def)
next
  assume "\<exists>i. a \<le> i \<and> i < b \<and> i < length s \<and> s ! i = c"
  then obtain i where "a \<le> i" "i < b" "i < length s" "s ! i = c" by blast
  then show "c \<in> set (slice s a b)"
    by (auto simp: slice_def in_set_conv_nth intro!: exI [of _ "i - a"])
qed

lemma slice_nth1: "i < length s \<Longrightarrow> slice s i (Suc i) = [s ! i]"
  by (simp add: slice_def Cons_nth_drop_Suc [symmetric])

lemma line_start_before:
  "(case rfind_byte (\<lambda>c. c = LF) (take p s) of None \<Rightarrow> 0 | Some i \<Rightarrow> i + 1) = st \<Longrightarrow> p \<le> length s \<Longrightarrow>
   st \<le> p \<and> (st = 0 \<or> s ! (st - 1) = LF) \<and> (\<forall>i. st \<le> i \<and> i < p \<longrightarrow> s ! i \<noteq> LF)"
proof (cases "rfind_byte (\<lambda>c. c = LF) (take p s)")
  case None
  assume "(case rfind_byte (\<lambda>c. c = LF) (take p s) of None \<Rightarrow> 0 | Some i \<Rightarrow> i + 1) = st" and l: "p \<le> length s"
  have "s ! i \<noteq> LF" if "i < p" for i
  proof -
    have "take p s ! i \<in> set (take p s)" using that l by (intro nth_mem) simp
    with that None show ?thesis by (auto simp: rfind_byte_None_iff)
  qed
  with None show ?thesis using \<open>_ = st\<close> by auto
next
  case (Some i)
  assume "(case rfind_byte (\<lambda>c. c = LF) (take p s) of None \<Rightarrow> 0 | Some i \<Rightarrow> i + 1) = st" and l: "p \<le> length s"
  then show ?thesis using rfind_byte_Some [OF Some] Some
    by (auto simp: Suc_le_eq)
qed

lemma find_block_ref_line:
  assumes "find_block_ref events content ident = Some b"
  shows "block_line_ok content ident b"
proof -
  from assms obtain a e0 where f: "List.find (\<lambda>(a, b). slice content a b = ident) (block_ref_ids events content) = Some (a, e0)"
    by (auto simp: find_block_ref_def split: option.splits)
  from find_first [OF this] have "(a, e0) \<in> set (block_ref_ids events content)" and sl: "slice content a e0 = ident"
    by auto
  then have "(a, e0) \<in> set (block_ref_matches content 0)" by (simp add: block_ref_ids_def Let_def)
  from block_ref_matches_front [OF this] obtain p m where p: "p < length content" "a = p + 1" "e0 = p + 1 + (e0 - a)"
    and r: "block_ref_at (drop p content) = Some (e0 - a, m)" by blast
  define n where "n = e0 - a"
  have e0: "e0 = p + 1 + n" using p(3) n_def by simp
  from block_ref_at_front [OF r, folded n_def] have n: "n \<noteq> 0" "n < length content - p"
    and ic: "\<forall>c \<in> set (take n (drop (Suc p) content)). is_id_char c"
    and car: "content ! p = CHR ''^''"
    using p(1) by (auto simp: nth_via_drop)
  have idn: "ident = slice content (Suc p) (Suc p + n)" using sl e0 p(2) by simp
  have idc: "is_id_char (content ! i)" if "p < i" "i < e0" for i
  proof -
    have "content ! i \<in> set (slice content (Suc p) (Suc p + n))"
      unfolding in_set_slice using that e0 n(2) by (intro exI [of _ i]) auto
    then show ?thesis using ic by (simp add: slice_def)
  qed
  have plain: "content ! i \<noteq> LF \<and> content ! i \<noteq> CR" if "p \<le> i" "i < e0" for i
    using that car idc [of i]
    by (cases "i = p") (auto simp: is_id_char_def is_ascii_alphanumeric_def byte_def)
  define st where "st = (case rfind_byte (\<lambda>c. c = LF) (take p content) of None \<Rightarrow> 0 | Some i \<Rightarrow> i + 1)"
  note st = line_start_before [OF st_def [symmetric] less_imp_le [OF p(1)]]
  have len: "length ident = n" using idn n(2) by simp
  have mk: "slice content p (p + 1 + n) = CHR ''^'' # ident"
    using slice_append [of p "Suc p" "Suc p + n" content] slice_nth1 [OF p(1)] car idn by simp
  show ?thesis
  proof (cases "find_byte (\<lambda>c. c = LF) (drop e0 content)")
    case None
    with assms f p(2) have b: "b = \<lparr> bline = (st, length content), marker_start = p, end_with_newline = length content \<rparr>"
      by (simp add: find_block_ref_def Let_def st_def)
    have "LF \<notin> set (drop e0 content)" using None by (auto simp: find_byte_None_iff)
    then have "content ! i \<noteq> LF" if "e0 \<le> i" "i < length content" for i
    proof -
      have "drop e0 content ! (i - e0) \<in> set (drop e0 content)" using that by (intro nth_mem) simp
      with that \<open>LF \<notin> set (drop e0 content)\<close> show ?thesis by auto
    qed
    with st plain have "LF \<notin> set (slice content st (length content))"
      unfolding in_set_slice by (metis linorder_not_less)
    with st mk n(2) len show ?thesis by (simp add: block_line_ok_def b Let_def slice_simps)
  next
    case (Some off)
    note q = find_byte_split [OF Some]
    define lf where "lf = e0 + off"
    have l: "lf < length content" "content ! lf = LF" using q(2,3) by (auto simp: lf_def)
    have nolf: "content ! i \<noteq> LF" if "e0 \<le> i" "i < lf" for i
    proof -
      have "content ! i \<in> set (take off (drop e0 content))"
        using that l(1) unfolding lf_def in_set_conv_nth by (intro exI [of _ "i - e0"]) auto
      with q(4) show ?thesis by auto
    qed
    define e where "e = (if content ! (lf - 1) = CR then lf - 1 else lf)"
    have b: "b = \<lparr> bline = (st, e), marker_start = p, end_with_newline = lf + 1 \<rparr>"
      using assms f p(2) Some by (auto simp: find_block_ref_def Let_def st_def e_def lf_def)
    have e: "e0 \<le> e" "e \<le> lf"
    proof -
      have "off \<noteq> 0" if "content ! (lf - 1) = CR"
        using that plain [of "e0 - 1"] e0 n(1) by (cases off) (auto simp: lf_def)
      then show "e0 \<le> e" "e \<le> lf" by (auto simp: e_def lf_def)
    qed
    have t: "slice content e (lf + 1) \<in> {[LF], [CR, LF]}"
    proof (cases "content ! (lf - 1) = CR")
      case True
      with e have "e = lf - 1" "Suc (lf - 1) = lf" using e0 by (auto simp: e_def)
      then show ?thesis
        using True l slice_append [of "lf - 1" lf "Suc lf" content] slice_nth1 [of "lf - 1" content]
          slice_nth1 [of lf content] by simp
    next
      case False
      with l show ?thesis by (simp add: e_def slice_nth1)
    qed
    have "LF \<notin> set (slice content st e)"
      unfolding in_set_slice using st plain nolf e by (metis linorder_not_less less_le_trans)
    moreover have "p + 1 + n \<le> e" using e(1) e0 by simp
    moreover have "e \<le> lf + 1" "lf + 1 \<le> length content" using e(2) l(1) by simp_all
    moreover have "slice content e (lf + 1) \<in> {[], [LF], [CR, LF]}" "slice content e (lf + 1) \<noteq> []"
      using t by auto
    moreover have "st \<le> p" "st = 0 \<or> content ! (st - 1) = LF" using st by blast+
    ultimately show ?thesis
      using mk len unfolding block_line_ok_def b Let_def by (simp only: BlockRef.simps fst_conv snd_conv) simp
  qed
qed

section \<open>Properties\<close>

text \<open> Property C34. Wikilink extraction is complete and exact: when the code ranges are ordered and
  disjoint, a link is reported exactly for each occurrence of a bracket-free name in double
  brackets that starts outside every code range, with the parts its text spells and the number of
  the line it starts on.\<close>

theorem extract_wikilinks_exact:
  assumes "ranges_ok (code_block_ranges events content)"
  shows "link \<in> set (extract_wikilinks events content) \<longleftrightarrow>
    (\<exists>before inner after. content = before @ ''[['' @ inner @ '']]'' @ after
       \<and> inner \<noteq> [] \<and> (\<forall>c \<in> set inner. \<not> is_bracket c)
       \<and> \<not> (\<exists>r \<in> set (code_block_ranges events content). holds_offset (length before) r)
       \<and> link = parse_wikilink_inner (''[['' @ inner @ '']]'') inner (count_list before LF))"
    (is "?lhs \<longleftrightarrow> ?rhs")
proof -
  let ?f = "\<lambda>p n. parse_wikilink_inner (slice content p (p + n + 4)) (slice content (p + 2) (p + 2 + n))
              (byte_offset_to_line content p)"
  have "?lhs \<longleftrightarrow> (\<exists>p n. wikilink_at (drop p content) = Some n
      \<and> \<not> (\<exists>r \<in> set (code_block_ranges events content). holds_offset p r) \<and> link = ?f p n)"
    by (auto simp: extract_wikilinks_def Let_def in_set_map_filter Bex_def split_paired_Ex
        wikilink_matches_iff is_in_code_block_iff [OF assms, unfolded Bex_def] split: if_splits)
  also have "\<dots> \<longleftrightarrow> ?rhs"
  proof
    assume "\<exists>p n. wikilink_at (drop p content) = Some n
      \<and> \<not> (\<exists>r \<in> set (code_block_ranges events content). holds_offset p r) \<and> link = ?f p n"
    then obtain p n where w: "wikilink_at (drop p content) = Some n" and l: "link = ?f p n"
      and r: "\<not> (\<exists>r \<in> set (code_block_ranges events content). holds_offset p r)" by blast
    from w obtain inner after where d: "drop p content = ''[['' @ inner @ '']]'' @ after" "inner \<noteq> []"
      "n = length inner" "\<forall>c \<in> set inner. \<not> is_bracket c" unfolding wikilink_at_iff by blast
    then have c: "content = take p content @ ''[['' @ inner @ '']]'' @ after" and pl: "p \<le> length content"
      by (metis append_take_drop_id, metis append_is_Nil_conv drop_eq_Nil list.distinct(1) nat_le_linear)
    have "n + 4 = length (''[['' @ inner @ '']]'')" using d by simp
    then have "slice content p (p + n + 4) = take (length (''[['' @ inner @ '']]'')) (drop p content)"
      by (metis add.assoc add_diff_cancel_left' slice_def)
    also have "\<dots> = ''[['' @ inner @ '']]''" unfolding d(1) by simp
    finally have "slice content p (p + n + 4) = ''[['' @ inner @ '']]''" .
    moreover have "slice content (p + 2) (p + 2 + n) = inner"
      using d(3) arg_cong [OF d(1), of "drop 2"] by (simp add: slice_def)
    moreover have "byte_offset_to_line content p = count_list (take p content) LF"
      by (simp add: byte_offset_to_line_def)
    ultimately have "link = parse_wikilink_inner (''[['' @ inner @ '']]'') inner (count_list (take p content) LF)"
      using l by simp
    moreover have "length (take p content) = p" using pl by simp
    then have "\<not> (\<exists>r \<in> set (code_block_ranges events content). holds_offset (length (take p content)) r)"
      using r by simp
    ultimately show ?rhs using c d(2,4) by blast
  next
    assume ?rhs
    then obtain before inner after where c: "content = before @ ''[['' @ inner @ '']]'' @ after" "inner \<noteq> []"
      "\<forall>c \<in> set inner. \<not> is_bracket c"
      and r: "\<not> (\<exists>r \<in> set (code_block_ranges events content). holds_offset (length before) r)"
      and l: "link = parse_wikilink_inner (''[['' @ inner @ '']]'') inner (count_list before LF)" by blast
    from c have "wikilink_at (drop (length before) content) = Some (length inner)"
      unfolding wikilink_at_iff by auto
    moreover have "link = ?f (length before) (length inner)"
    proof -
      have "length inner + 4 = length (''[['' @ inner @ '']]'')" by simp
      then have "slice content (length before) (length before + length inner + 4)
          = take (length (''[['' @ inner @ '']]'')) (drop (length before) content)"
        by (metis add.assoc add_diff_cancel_left' slice_def)
      also have "\<dots> = ''[['' @ inner @ '']]''" unfolding c(1) by simp
      finally show ?thesis using c l by (simp add: slice_def byte_offset_to_line_def)
    qed
    ultimately show "\<exists>p n. wikilink_at (drop p content) = Some n
      \<and> \<not> (\<exists>r \<in> set (code_block_ranges events content). holds_offset p r) \<and> link = ?f p n"
      using r by blast
  qed
  finally show ?thesis .
qed

definition sample_events :: md_parser where
  "sample_events tables content =
     [(Start (Heading 1), 0, 4), (MdText ''A'', 2, 3), (End (Heading 1), 0, 4),
      (Start Paragraph, 4, 13), (MdCode ''x'', 4, 7), (MdText ''[[n]] ^i'', 7, 13), (End Paragraph, 4, 13)]"

definition sample_note :: str where
  "sample_note = ''# A'' @ [LF] @ ''`x`[[n]]''"

theorem extract_wikilinks_exact_witness:
  "parse_wikilink_inner ''[[n]]'' ''n'' 1 \<in> set (extract_wikilinks sample_events sample_note)"
proof -
  have r: "ranges_ok (code_block_ranges sample_events sample_note)" by code_simp
  have "code_block_ranges sample_events sample_note = [(4, 7)]" by code_simp
  then show ?thesis
    unfolding extract_wikilinks_exact [OF r]
    by (intro exI [of _ "''# A'' @ [LF] @ ''`x`''"] exI [of _ "''n''"] exI [of _ "[]"])
       (simp add: sample_note_def holds_offset_def)
qed

definition render_inner :: "str \<Rightarrow> (bool \<times> str) option \<Rightarrow> str option \<Rightarrow> str" where
  "render_inner t frag al =
     t @ (case frag of None \<Rightarrow> [] | Some (is_block, f) \<Rightarrow> ''#'' @ (if is_block then ''^'' else []) @ f)
       @ (case al of None \<Rightarrow> [] | Some a \<Rightarrow> ''|'' @ a)"

lemma split_once_here: "c \<notin> set a \<Longrightarrow> split_once c (a @ c # b) = Some (a, b)"
  by (simp add: split_once_Some)

text \<open> Property C35. A link text written from its parts is read back into the same parts: target, block
  or heading fragment, and alias.\<close>

theorem parse_wikilink_roundtrip:
  assumes "CHR ''|'' \<notin> set t" and "CHR ''#'' \<notin> set t"
    and "\<And>b f. frag = Some (b, f) \<Longrightarrow> CHR ''|'' \<notin> set f \<and> (b \<or> \<not> starts_with f ''^'')"
    and "al \<noteq> Some []"
  shows "parse_wikilink_inner r (render_inner t frag al) line =
     \<lparr> raw = r, target = t,
       heading = (case frag of Some (False, f) \<Rightarrow> Some f | _ \<Rightarrow> None),
       block_ref = (case frag of Some (True, f) \<Rightarrow> Some f | _ \<Rightarrow> None),
       alias_of = al, link_line = line \<rparr>"
proof -
  let ?front = "t @ (case frag of None \<Rightarrow> [] | Some (is_block, f) \<Rightarrow> ''#'' @ (if is_block then ''^'' else []) @ f)"
  have bar: "CHR ''|'' \<notin> set ?front" using assms(1,3) by (auto split: option.splits prod.splits)
  have front: "(case split_once (CHR ''|'') (render_inner t frag al) of
        Some (l, a) \<Rightarrow> if a \<noteq> [] then (l, Some a) else (l, None)
      | None \<Rightarrow> (render_inner t frag al, None)) = (?front, al)"
  proof (cases al)
    case None
    then have e: "render_inner t frag al = ?front" by (simp add: render_inner_def)
    have "split_once (CHR ''|'') (render_inner t frag al) = None"
      unfolding e split_once_None by (rule bar)
    then show ?thesis using None e by simp
  next
    case (Some a)
    then have e: "render_inner t frag al = ?front @ CHR ''|'' # a" by (simp add: render_inner_def)
    have "split_once (CHR ''|'') (render_inner t frag al) = Some (?front, a)"
      unfolding e by (rule split_once_here [OF bar])
    then show ?thesis using Some assms(4) by simp
  qed
  have rest: "(case split_once (CHR ''#'') ?front of Some (u, f) \<Rightarrow> (u, Some f) | None \<Rightarrow> (?front, None))
      = (t, case frag of None \<Rightarrow> None | Some (b, f) \<Rightarrow> Some ((if b then ''^'' else []) @ f))"
  proof (cases frag)
    case None
    with assms(2) show ?thesis by (simp add: split_once_None [THEN iffD2])
  next
    case (Some bf)
    with assms(2) show ?thesis by (auto simp: split_once_here split: prod.splits)
  qed
  show ?thesis
    unfolding parse_wikilink_inner_def front Let_def prod.case rest
    using assms(3) by (auto simp: starts_with_def split: option.splits bool.splits prod.splits)
qed

theorem parse_wikilink_roundtrip_witness:
  "alias_of (parse_wikilink_inner ''r'' ''n#^b|a'' 0) = Some ''a''
   \<and> block_ref (parse_wikilink_inner ''r'' ''n#^b|a'' 0) = Some ''b''"
  using parse_wikilink_roundtrip [of "''n''" "Some (True, ''b'')" "Some ''a''" "''r''" 0]
  by (simp add: render_inner_def)

text \<open>The line of every heading, which the extractor counts incrementally, is the number
  of line feeds before the heading, for any event stream that visits headings in source order.\<close>

lemma extract_headings_lines:
  assumes "source_order (length content) (events collect content)"
  shows "\<forall>h \<in> set (headings (extract_structure events content collect)).
           hline h = byte_offset_to_line content (offset h)"
proof -
  have "lines_inv content extraction_init"
    by (simp add: lines_inv_def extraction_init_def byte_offset_to_line_def)
  from extract_loop_lines [OF this assms] show ?thesis
    by (simp add: extract_structure_def extraction_init_def list_all_iff line_ok_def)
qed

lemma extract_headings_lines_example:
  "headings (extract_structure sample_events sample_note True) \<noteq> []
   \<and> list_all (\<lambda>h. hline h = byte_offset_to_line sample_note (offset h))
       (headings (extract_structure sample_events sample_note True))"
proof -
  have o: "source_order (length sample_note) (sample_events True sample_note)" by code_simp
  have n: "headings (extract_structure sample_events sample_note True) \<noteq> []"
    by (simp add: extract_structure_def sample_events_def sample_note_def extraction_init_def
        is_block_tag_def is_block_end_def push_block_def extraction_of_def
        MAX_SEMANTIC_BLOCKS_def MAX_SEMANTIC_HEADINGS_def)
  show ?thesis using extract_headings_lines [of sample_note sample_events True, OF o] n
    by (simp add: list_all_iff)
qed

text \<open>The structure used for embedding is bounded: a successful extraction has at most 4096
  headings and 65536 outer blocks, and the only failure is a resource limit that reports one more
  than the limit.\<close>

lemma markdown_structure_bounded:
  "(case markdown_structure events content of
      Inr (hs, bs) \<Rightarrow> length hs \<le> 4096 \<and> length bs \<le> 65536
    | Inl e \<Rightarrow> (\<exists>resource limit. e = SemanticResourceLimit resource (limit + 1) limit))"
proof (cases "limit_exceeded (extract_structure events content True)")
  case None
  have "length (headings (extract_structure events content True)) \<le> MAX_SEMANTIC_HEADINGS
      \<and> length (blocks (extract_structure events content True)) \<le> MAX_SEMANTIC_BLOCKS"
    unfolding extract_structure_def by (rule extract_loop_limits) (simp_all add: extraction_init_def)
  with None show ?thesis
    by (simp add: markdown_structure_def Let_def MAX_SEMANTIC_HEADINGS_def MAX_SEMANTIC_BLOCKS_def)
next
  case (Some l)
  then show ?thesis by (cases l) (simp add: markdown_structure_def Let_def)
qed

text \<open> Property C36. A resolved heading path names a section: it starts at a heading whose text is the last
  segment (up to ASCII case), lies inside the text, contains no other heading of the same or a
  higher level, and covers the whole heading line.\<close>

theorem find_heading_range_section:
  assumes "wf_headings (length content) (extract_headings_with_offsets events content)"
    and "find_heading_range events content path d = Some (a, b)"
  shows "\<exists>h \<in> set (extract_headings_with_offsets events content).
           offset h = a \<and> a < b \<and> hend h \<le> b \<and> b \<le> length content
           \<and> eq_ignore_ascii_case (htext h) (trim (last (split_str d path)))
           \<and> (\<forall>k \<in> set (extract_headings_with_offsets events content).
                offset h < offset k \<and> offset k < b \<longrightarrow> level h < level k)"
proof -
  let ?hs = "extract_headings_with_offsets events content"
  from assms(2) have l: "heading_range_loop ?hs (map trim (split_str d path)) 0 (length content) = Some (a, b)"
    by (simp add: find_heading_range_def)
  obtain h e0 where h: "e0 \<le> length content" "section_of ?hs h e0 b" "offset h = a"
    "eq_ignore_ascii_case (htext h) (last (map trim (split_str d path)))"
    using heading_range_loop_section [OF assms(1) heading_bound_length [OF assms(1)] order_refl _ l] by auto
  moreover have "offset h < hend h"
    using h(2) assms(1) by (auto simp: section_of_def wf_headings_def list_all_iff)
  ultimately show ?thesis
    by (intro bexI [of _ h]) (auto simp: section_of_def last_map)
qed

theorem find_heading_range_section_witness:
  "find_heading_range sample_events sample_note ''a'' ''::'' = Some (0, 12)
   \<and> (\<exists>h \<in> set (extract_headings_with_offsets sample_events sample_note). offset h = 0 \<and> hend h \<le> 12)"
proof -
  have w: "wf_headings (length sample_note) (extract_headings_with_offsets sample_events sample_note)"
    by code_simp
  have f: "find_heading_range sample_events sample_note ''a'' ''::'' = Some (0, 12)" by code_simp
  from find_heading_range_section [OF w f] f show ?thesis by blast
qed

end
