(* ===== verification/Patch.thy ===== *)
theory Patch
  imports Markdown
begin

text \<open>
  Patching a note (src/src/vault/patch.rs): inserting under, after or instead of a heading section,
  a block-reference line, or a frontmatter field.

  The YAML library is a parameter: \<open>yaml_mapping\<close> and \<open>yaml_value\<close> read, \<open>yaml_text\<close> and
  \<open>yaml_map_text\<close> write. A YAML mapping keeps its entries in order; its documented \<^verbatim>\<open>remove\<close> moves the
  last entry to the place of the removed one.
\<close>

datatype PatchOperation = Append | Prepend | Replace
datatype PatchTargetType = HeadingTarget | BlockTarget | FrontmatterTarget

record PatchRequest =
  op :: PatchOperation
  target_type :: PatchTargetType
  ptarget :: str
  pcontent :: str

definition parse_heading :: "str \<Rightarrow> (nat \<times> str) option" where
  "parse_heading line =
     (let t = trim_start line in
      if \<not> starts_with t ''#'' then None
      else let lvl = length (takeWhile (\<lambda>b. b = CHR ''#'') t) in
           if lvl > 6 then None
           else let rest = drop lvl t in
                if rest \<noteq> [] \<and> \<not> starts_with rest '' '' then None else Some (lvl, trim rest))"

definition normalize_heading_target_segment :: "str \<Rightarrow> str" where
  "normalize_heading_target_segment segment =
     (let trimmed = trim segment; lvl = length (takeWhile (\<lambda>b. b = CHR ''#'') trimmed) in
      if 1 \<le> lvl \<and> lvl \<le> 6 \<and> is_ws_char (first_char (drop lvl trimmed))
      then trim (drop lvl trimmed) else trimmed)"

definition ensure_trailing_newline :: "str \<Rightarrow> str" where
  "ensure_trailing_newline s = (if s \<noteq> [] \<and> \<not> ends_with s [LF] then s @ [LF] else s)"

section \<open>Headings\<close>

definition heading_matches :: "str \<Rightarrow> nat \<Rightarrow> nat \<Rightarrow> str \<Rightarrow> HeadingPos \<Rightarrow> bool" where
  "heading_matches content s e candidate h \<longleftrightarrow>
     (let raw_text =
        (case lines (slice content (offset h) (hend h)) of
           [] \<Rightarrow> None | r # _ \<Rightarrow> map_option snd (parse_heading r))
      in s \<le> offset h \<and> offset h < e
         \<and> (eq_ignore_ascii_case (htext h) candidate
            \<or> (case raw_text of None \<Rightarrow> False | Some t \<Rightarrow> eq_ignore_ascii_case t candidate)))"

definition heading_candidate :: "str \<Rightarrow> HeadingPos list \<Rightarrow> nat \<Rightarrow> nat \<Rightarrow> str \<Rightarrow> HeadingPos option" where
  "heading_candidate content hs s e segment =
     (case List.find (heading_matches content s e (trim segment)) hs of
        Some h \<Rightarrow> Some h
      | None \<Rightarrow> List.find (heading_matches content s e (normalize_heading_target_segment segment)) hs)"

fun resolve_loop ::
  "str \<Rightarrow> HeadingPos list \<Rightarrow> str list \<Rightarrow> nat \<times> nat \<times> nat \<Rightarrow> (nat \<times> nat) option" where
  "resolve_loop content hs [] (s, e, after) = Some (after, e)"
| "resolve_loop content hs (segment # segs) (s, e, after) =
     (case heading_candidate content hs s e segment of
        None \<Rightarrow> None
      | Some h \<Rightarrow>
          resolve_loop content hs segs
            (hend h,
             min (case List.find (\<lambda>next. offset next > offset h \<and> level next \<le> level h) hs of
                    None \<Rightarrow> length content | Some next \<Rightarrow> offset next) e,
             hend h))"

definition resolve_heading_range ::
  "str \<Rightarrow> HeadingPos list \<Rightarrow> str \<Rightarrow> str \<Rightarrow> (nat \<times> nat) vault_result" where
  "resolve_heading_range content hs tgt path =
     (case resolve_loop content hs (split_str ''::'' tgt) (0, length content, 0) of
        Some r \<Rightarrow> Inr r
      | None \<Rightarrow> Inl (PatchTargetNotFound path ''heading'' tgt))"

definition patch_heading :: "md_parser \<Rightarrow> str \<Rightarrow> PatchRequest \<Rightarrow> str \<Rightarrow> str vault_result" where
  "patch_heading events content request path =
     try_bind (resolve_heading_range content (extract_headings_with_offsets events content) (ptarget request) path)
       (\<lambda>(after_heading, section_end).
         Inr (case op request of
           Prepend \<Rightarrow>
             ensure_trailing_newline (ensure_trailing_newline (take after_heading content) @ pcontent request)
             @ drop after_heading content
         | Append \<Rightarrow>
             ensure_trailing_newline (ensure_trailing_newline (take section_end content) @ pcontent request)
             @ drop section_end content
         | Replace \<Rightarrow>
             (let r = ensure_trailing_newline (take after_heading content) @ pcontent request;
                  r' = (if section_end < length content then ensure_trailing_newline r else r)
              in r' @ drop section_end content)))"

section \<open>Blocks\<close>

definition line_sep :: "str \<Rightarrow> BlockRef \<Rightarrow> str" where
  "line_sep content b =
     (let terminator = slice content (snd (bline b)) (end_with_newline b) in
      if terminator = []
      then (if ends_with (take (fst (bline b)) content) [CR, LF] then [CR, LF] else [LF])
      else terminator)"

definition push_newline :: "str \<Rightarrow> str \<Rightarrow> str" where
  "push_newline nl s = (if s \<noteq> [] \<and> \<not> ends_with s [LF] then s @ nl else s)"

definition patch_block :: "md_parser \<Rightarrow> str \<Rightarrow> PatchRequest \<Rightarrow> str \<Rightarrow> str vault_result" where
  "patch_block events content request path =
     (let block_id = (case strip_prefix ''^'' (ptarget request) of Some i \<Rightarrow> i | None \<Rightarrow> ptarget request) in
      case find_block_ref events content block_id of
        None \<Rightarrow> Inl (PatchTargetNotFound path ''block'' (ptarget request))
      | Some b \<Rightarrow>
          Inr (if op request = Replace
               then take (fst (bline b)) content
                    @ (if pcontent request = [] then [] else pcontent request @ '' '')
                    @ drop (marker_start b) content
               else let insertion = (if op request = Prepend then fst (bline b) else end_with_newline b);
                        nl = line_sep content b
                    in push_newline nl (push_newline nl (take insertion content) @ pcontent request)
                       @ drop insertion content))"

section \<open>Frontmatter\<close>

record FrontmatterRange =
  yaml_start :: nat
  yaml_end :: nat
  body_start :: nat

function boundary_loop :: "str \<Rightarrow> nat \<Rightarrow> nat \<Rightarrow> FrontmatterRange option" where
  "boundary_loop content ystart pos =
     (if length content \<le> pos then None
      else let next_nl = find_byte (\<lambda>c. c = LF) (drop pos content);
               line_end = (case next_nl of Some i \<Rightarrow> pos + i | None \<Rightarrow> length content);
               line = trim_end_char CR (slice content pos line_end)
           in if trim line = ''---''
              then Some \<lparr> yaml_start = ystart, yaml_end = pos,
                          body_start = (if line_end < length content then line_end + 1 else length content) \<rparr>
              else case next_nl of
                     Some i \<Rightarrow> boundary_loop content ystart (pos + i + 1)
                   | None \<Rightarrow> None)"
  by pat_completeness auto
termination
  by (relation "measure (\<lambda>(content, y, pos). length content - pos)") auto

declare boundary_loop.simps [simp del]

definition frontmatter_boundaries :: "str \<Rightarrow> FrontmatterRange option" where
  "frontmatter_boundaries content =
     (if \<not> starts_with content ''---'' then None
      else case find_byte (\<lambda>c. c = LF) content of
             None \<Rightarrow> None
           | Some first_nl \<Rightarrow>
               if trim (trim_end_char CR (take first_nl content)) \<noteq> ''---'' then None
               else boundary_loop content (first_nl + 1) (first_nl + 1))"

datatype YamlValue =
    YNull | YBool bool | YNumber str | YString str | YSequence "YamlValue list"
  | YMapping "(YamlValue \<times> YamlValue) list" | YTagged str YamlValue

type_synonym yaml_map = "(YamlValue \<times> YamlValue) list"

fun ymap_insert :: "YamlValue \<Rightarrow> YamlValue \<Rightarrow> yaml_map \<Rightarrow> yaml_map" where
  "ymap_insert k v [] = [(k, v)]"
| "ymap_insert k v ((k', v') # m) = (if k = k' then (k', v) # m else (k', v') # ymap_insert k v m)"

text \<open>\<^verbatim>\<open>swap_remove\<close>.\<close>

fun ymap_remove :: "YamlValue \<Rightarrow> yaml_map \<Rightarrow> yaml_map" where
  "ymap_remove k [] = []"
| "ymap_remove k ((k', v') # m) =
     (if k = k' then (if m = [] then [] else last m # butlast m) else (k', v') # ymap_remove k m)"

definition parse_yaml_value :: "(str \<Rightarrow> YamlValue option) \<Rightarrow> str \<Rightarrow> YamlValue" where
  "parse_yaml_value yaml_value s = (case yaml_value s of Some v \<Rightarrow> v | None \<Rightarrow> YString s)"

fun yaml_scalar_to_string :: "(YamlValue \<Rightarrow> str option) \<Rightarrow> YamlValue \<Rightarrow> str" where
  "yaml_scalar_to_string yaml_text (YString s) = s"
| "yaml_scalar_to_string yaml_text (YBool b) = (if b then ''true'' else ''false'')"
| "yaml_scalar_to_string yaml_text (YNumber n) = n"
| "yaml_scalar_to_string yaml_text YNull = []"
| "yaml_scalar_to_string yaml_text v = trim (case yaml_text v of Some t \<Rightarrow> t | None \<Rightarrow> [])"

definition patched_value ::
  "(str \<Rightarrow> YamlValue option) \<Rightarrow> (YamlValue \<Rightarrow> str option) \<Rightarrow> PatchOperation \<Rightarrow> str
     \<Rightarrow> YamlValue option \<Rightarrow> YamlValue" where
  "patched_value yaml_value yaml_text oper new current =
     (case oper of
        Replace \<Rightarrow> parse_yaml_value yaml_value new
      | Append \<Rightarrow>
          (case current of
             Some (YSequence seq) \<Rightarrow> YSequence (seq @ [parse_yaml_value yaml_value new])
           | Some (YString s) \<Rightarrow> YString (s @ new)
           | Some other \<Rightarrow> YString (yaml_scalar_to_string yaml_text other @ new)
           | None \<Rightarrow> YString new)
      | Prepend \<Rightarrow>
          (case current of
             Some (YSequence seq) \<Rightarrow> YSequence (parse_yaml_value yaml_value new # seq)
           | Some (YString s) \<Rightarrow> YString (new @ s)
           | Some other \<Rightarrow> YString (new @ yaml_scalar_to_string yaml_text other)
           | None \<Rightarrow> YString new))"

definition patched_map ::
  "(str \<Rightarrow> YamlValue option) \<Rightarrow> (YamlValue \<Rightarrow> str option) \<Rightarrow> PatchRequest \<Rightarrow> yaml_map \<Rightarrow> yaml_map" where
  "patched_map yaml_value yaml_text request m =
     (let k = YString (ptarget request);
          v = patched_value yaml_value yaml_text (op request) (pcontent request) (map_of m k)
      in ymap_insert k v (if op request = Replace then m else ymap_remove k m))"

definition strip_document_start :: "str \<Rightarrow> str" where
  "strip_document_start y =
     (case strip_prefix (''---'' @ [LF]) y of
        Some r \<Rightarrow> r
      | None \<Rightarrow> (case strip_prefix (''---'' @ [CR, LF]) y of Some r \<Rightarrow> r | None \<Rightarrow> y))"

definition patch_frontmatter ::
  "(str \<Rightarrow> str + yaml_map) \<Rightarrow> (str \<Rightarrow> YamlValue option) \<Rightarrow> (YamlValue \<Rightarrow> str option) \<Rightarrow> (yaml_map \<Rightarrow> str + str)
     \<Rightarrow> str \<Rightarrow> PatchRequest \<Rightarrow> str \<Rightarrow> str vault_result" where
  "patch_frontmatter yaml_mapping yaml_value yaml_text yaml_map_text content request path =
     (case frontmatter_boundaries content of
        None \<Rightarrow> Inl (PatchTargetNotFound path ''frontmatter'' (ptarget request))
      | Some rg \<Rightarrow>
          let yaml_str = slice content (yaml_start rg) (yaml_end rg) in
          try_bind (if trim yaml_str = [] then Inr []
                    else map_err (FrontmatterParse path) (yaml_mapping yaml_str)) (\<lambda>m.
          try_bind (map_err Other (yaml_map_text (patched_map yaml_value yaml_text request m))) (\<lambda>y.
            let new_yaml = strip_document_start y;
                body = drop (body_start rg) content
            in Inr (''---'' @ [LF] @ new_yaml
                    @ (if new_yaml \<noteq> [] \<and> \<not> ends_with new_yaml [LF] then [LF] else [])
                    @ ''---'' @ [LF] @ body))))"

definition apply_patch ::
  "md_parser \<Rightarrow> (str \<Rightarrow> str + yaml_map) \<Rightarrow> (str \<Rightarrow> YamlValue option) \<Rightarrow> (YamlValue \<Rightarrow> str option)
     \<Rightarrow> (yaml_map \<Rightarrow> str + str) \<Rightarrow> str \<Rightarrow> PatchRequest \<Rightarrow> str \<Rightarrow> str vault_result" where
  "apply_patch events yaml_mapping yaml_value yaml_text yaml_map_text content request path =
     (case target_type request of
        HeadingTarget \<Rightarrow> patch_heading events content request path
      | BlockTarget \<Rightarrow> patch_block events content request path
      | FrontmatterTarget \<Rightarrow>
          patch_frontmatter yaml_mapping yaml_value yaml_text yaml_map_text content request path)"

section \<open>Where a heading patch goes\<close>

lemma heading_candidate_Some:
  "heading_candidate content hs s e seg = Some h \<Longrightarrow> h \<in> set hs \<and> s \<le> offset h \<and> offset h < e"
  by (auto simp: heading_candidate_def heading_matches_def Let_def split: option.splits dest!: find_first)

lemma section_end_min:
  assumes w: "wf_headings n hs" and b: "heading_bound hs e" and "e \<le> n" and h: "h \<in> set hs" "offset h < e"
  defines "e' \<equiv> min (case List.find (\<lambda>next. offset next > offset h \<and> level next \<le> level h) hs of
                    None \<Rightarrow> n | Some next \<Rightarrow> offset next) e"
  shows "section_of hs h e e' \<and> heading_bound hs e'"
proof (cases "List.find (\<lambda>next. offset next > offset h \<and> level next \<le> level h) hs")
  case None
  then have l: "level h < level k" if "k \<in> set hs" "offset h < offset k" for k
    using that by (auto simp: find_None_iff not_le)
  have "e' = e" using None assms(3) by (simp add: e'_def)
  with l b h show ?thesis by (auto simp: section_of_def heading_bound_def)
next
  case (Some k)
  from find_first [OF this] obtain us vs where s: "hs = us @ k # vs" and k: "offset h < offset k" "level k \<le> level h"
    and us: "\<forall>u \<in> set us. \<not> (offset h < offset u \<and> level u \<le> level h)" by blast
  have e: "e' = min (offset k) e" using Some by (simp add: e'_def)
  have kh: "k \<in> set hs" using s by simp
  have bk: "heading_bound hs (offset k)" by (rule heading_bound_offset [OF w kh])
  have "level h < level j" if "j \<in> set hs" "offset h < offset j" "offset j < offset k" for j
  proof -
    have "j \<notin> set (k # vs)"
      using w s that(3) by (fastforce simp: wf_headings_def sorted_wrt_append list_all_iff)
    with that(1) s have "j \<in> set us" by auto
    with us that(2) show ?thesis by (meson not_le)
  qed
  moreover have "hend h \<le> offset k" using bk h(1) k(1) by (auto simp: heading_bound_def)
  moreover have "hend h \<le> e" using b h by (auto simp: heading_bound_def)
  ultimately have "section_of hs h e e'"
    using e k kh h by (auto simp: section_of_def min_def)
  moreover have "heading_bound hs e'" using e b bk by (auto simp: min_def)
  ultimately show ?thesis ..
qed

subsection \<open>What a heading path names\<close>

text \<open>
  A heading says a text when its rendered text is that text, or the text of its source line is, but
  for the case of ASCII letters. A segment names the first heading of a region that says it; if none
  does, the first one that says it without its leading number signs.
\<close>

definition heading_says :: "str \<Rightarrow> HeadingPos \<Rightarrow> str \<Rightarrow> bool" where
  "heading_says content h t \<longleftrightarrow>
     eq_ignore_ascii_case (htext h) t
     \<or> (\<exists>line rest lvl raw. lines (slice content (offset h) (hend h)) = line # rest
          \<and> parse_heading line = Some (lvl, raw) \<and> eq_ignore_ascii_case raw t)"

definition first_saying :: "str \<Rightarrow> HeadingPos list \<Rightarrow> nat \<Rightarrow> nat \<Rightarrow> str \<Rightarrow> HeadingPos \<Rightarrow> bool" where
  "first_saying content hs s e t h \<longleftrightarrow>
     h \<in> set hs \<and> s \<le> offset h \<and> offset h < e \<and> heading_says content h t
     \<and> (\<forall>k \<in> set hs. s \<le> offset k \<and> offset k < offset h \<longrightarrow> \<not> heading_says content k t)"

definition names_heading :: "str \<Rightarrow> HeadingPos list \<Rightarrow> nat \<Rightarrow> nat \<Rightarrow> str \<Rightarrow> HeadingPos \<Rightarrow> bool" where
  "names_heading content hs s e segment h \<longleftrightarrow>
     first_saying content hs s e (trim segment) h
     \<or> (\<forall>k \<in> set hs. s \<le> offset k \<and> offset k < e \<longrightarrow> \<not> heading_says content k (trim segment))
       \<and> first_saying content hs s e (normalize_heading_target_segment segment) h"

text \<open>
  A path names a heading \<open>h\<close> with its section from \<open>h\<close> to \<open>e'\<close>: each segment names a heading in the
  section of the one before, below its heading line.
\<close>

inductive path_names ::
  "str \<Rightarrow> HeadingPos list \<Rightarrow> str list \<Rightarrow> nat \<Rightarrow> nat \<Rightarrow> HeadingPos \<Rightarrow> nat \<Rightarrow> nat \<Rightarrow> bool" for content hs where
  last: "names_heading content hs s e segment h \<Longrightarrow> section_of hs h e e' \<Longrightarrow>
    path_names content hs [segment] s e h e e'"
| nested: "names_heading content hs s e segment p \<Longrightarrow> section_of hs p e e1 \<Longrightarrow>
    path_names content hs segments (hend p) e1 h e0 e' \<Longrightarrow> path_names content hs (segment # segments) s e h e0 e'"

lemma heading_matches_iff:
  "heading_matches content s e t h \<longleftrightarrow> s \<le> offset h \<and> offset h < e \<and> heading_says content h t"
  by (auto simp: heading_matches_def heading_says_def Let_def split: list.splits option.splits)

lemma find_first_saying:
  assumes w: "wf_headings n hs" and f: "List.find (heading_matches content s e t) hs = Some h"
  shows "first_saying content hs s e t h"
proof -
  obtain us vs where hs: "hs = us @ h # vs" and h: "heading_matches content s e t h"
    and us: "\<forall>u \<in> set us. \<not> heading_matches content s e t u" using find_first [OF f] by blast
  have "\<not> heading_says content k t" if "k \<in> set hs" "s \<le> offset k" "offset k < offset h" for k
  proof -
    have "k \<notin> set (h # vs)" using w hs that(3) by (fastforce simp: wf_headings_def sorted_wrt_append list_all_iff)
    then have "k \<in> set us" using that(1) hs by auto
    with us that(2,3) h show ?thesis by (auto simp: heading_matches_iff)
  qed
  with hs h show ?thesis by (auto simp: first_saying_def heading_matches_iff)
qed

lemma heading_candidate_names:
  assumes w: "wf_headings n hs" and c: "heading_candidate content hs s e segment = Some h"
  shows "names_heading content hs s e segment h"
proof (cases "List.find (heading_matches content s e (trim segment)) hs")
  case None
  then have "\<forall>k \<in> set hs. s \<le> offset k \<and> offset k < e \<longrightarrow> \<not> heading_says content k (trim segment)"
    by (auto simp: find_None_iff heading_matches_iff)
  with None c find_first_saying [OF w] show ?thesis by (auto simp: heading_candidate_def names_heading_def)
next
  case (Some k)
  with c find_first_saying [OF w] show ?thesis by (auto simp: heading_candidate_def names_heading_def)
qed

lemma resolve_loop_names:
  "wf_headings (length content) hs \<Longrightarrow> heading_bound hs e \<Longrightarrow> e \<le> length content \<Longrightarrow> segs \<noteq> []
   \<Longrightarrow> resolve_loop content hs segs (s, e, x) = Some (a, b) \<Longrightarrow>
   \<exists>h e0. e0 \<le> e \<and> path_names content hs segs s e h e0 b \<and> section_of hs h e0 b \<and> hend h = a \<and> s \<le> offset h"
proof (induction segs arbitrary: s e x)
  case (Cons seg segs)
  from Cons.prems(5) obtain h where c: "heading_candidate content hs s e seg = Some h"
    by (auto split: option.splits)
  note h = heading_candidate_Some [OF c]
  note n = heading_candidate_names [OF Cons.prems(1) c]
  define e' where "e' = min (case List.find (\<lambda>next. offset next > offset h \<and> level next \<le> level h) hs of
                    None \<Rightarrow> length content | Some next \<Rightarrow> offset next) e"
  have st: "section_of hs h e e'" "heading_bound hs e'"
    using section_end_min [OF Cons.prems(1,2,3)] h by (auto simp: e'_def)
  then have le: "e' \<le> e" by (simp add: section_of_def)
  from Cons.prems(5) c have r: "resolve_loop content hs segs (hend h, e', hend h) = Some (a, b)"
    by (simp add: e'_def)
  show ?case
  proof (cases "segs = []")
    case True
    with r st(1) h path_names.last [OF n st(1)] show ?thesis by auto
  next
    case False
    from Cons.IH [OF Cons.prems(1) st(2) _ False r] le Cons.prems(3)
    obtain k e0 where k: "e0 \<le> e'" "path_names content hs segs (hend h) e' k e0 b" "section_of hs k e0 b"
      "hend k = a" "hend h \<le> offset k" by auto
    moreover have "offset h < hend h"
      using h Cons.prems(1) by (auto simp: wf_headings_def list_all_iff)
    ultimately show ?thesis
      using le h path_names.nested [OF n st(1) k(2)] by (intro exI [of _ k] exI [of _ e0]) auto
  qed
qed simp

lemma ensure_trailing_newline_split:
  "\<exists>nl \<in> {[], [LF]}. ensure_trailing_newline s = s @ nl"
  by (auto simp: ensure_trailing_newline_def)

lemma push_newline_split: "\<exists>g \<in> {[], nl}. push_newline nl s = s @ g"
  by (auto simp: push_newline_def)

section \<open>What a frontmatter patch writes\<close>

lemma map_of_ymap_insert: "map_of (ymap_insert k v m) = (map_of m)(k \<mapsto> v)"
  by (induction k v m rule: ymap_insert.induct) auto

lemma ymap_remove_lookup:
  "distinct (map fst m) \<Longrightarrow> map_of (ymap_remove k m) = (map_of m)(k := None)"
proof (induction k m rule: ymap_remove.induct)
  case (2 k k' v' m)
  show ?case
  proof (cases "k = k'")
    case False
    with 2 show ?thesis by auto
  next
    case True
    have kn: "map_of m k' = None" using "2.prems" by (simp add: map_of_eq_None_iff)
    show ?thesis
    proof (cases "m = []")
      case True
      with \<open>k = k'\<close> show ?thesis by (simp add: fun_eq_iff)
    next
      case False
      have d: "distinct (map fst (butlast m @ [last m]))" using "2.prems" False by simp
      have "map_of (last m # butlast m) = map_of (butlast m @ [last m])"
      proof -
        have "map_of (butlast m) (fst (last m)) = None" using d by (auto simp: map_of_eq_None_iff)
        then show ?thesis by (cases "last m") (auto simp: map_add_def fun_eq_iff split: option.splits)
      qed
      also have "\<dots> = map_of m" using False by simp
      finally show ?thesis using \<open>k = k'\<close> False kn by auto
    qed
  qed
qed simp

lemma patched_map_lookup:
  "distinct (map fst m) \<Longrightarrow>
   map_of (patched_map yaml_value yaml_text request m) =
     (map_of m)(YString (ptarget request) \<mapsto>
        patched_value yaml_value yaml_text (op request) (pcontent request) (map_of m (YString (ptarget request))))"
  by (simp add: patched_map_def Let_def map_of_ymap_insert ymap_remove_lookup)

definition blank_fence :: "str \<Rightarrow> bool" where
  "blank_fence l \<longleftrightarrow> trim (trim_end_char CR l) = ''---''"

definition no_fences :: "str list \<Rightarrow> bool" where
  "no_fences ls \<longleftrightarrow> (\<forall>l \<in> set ls. LF \<notin> set l \<and> \<not> blank_fence l)"

lemma blank_fence_nonempty: "blank_fence l \<Longrightarrow> l \<noteq> []"
proof
  assume "blank_fence l" "l = []"
  moreover have "trim (trim_end_char CR []) \<noteq> ''---''" by code_simp
  ultimately show False by (simp add: blank_fence_def)
qed

lemma fence_blank: "is_fence f \<Longrightarrow> blank_fence f"
proof -
  assume "is_fence f"
  moreover have "trim fence = ''---''" by code_simp
  ultimately show "blank_fence f" by (simp add: is_fence_def blank_fence_def)
qed

lemma no_fences_plain: "no_fences ls \<Longrightarrow> plain_lines ls"
  using fence_blank by (auto simp: no_fences_def plain_lines_def)

text \<open>The patcher's loop ends at the first line that is a rule but for blanks.\<close>

lemma boundary_loop_complete:
  assumes "content = pre @ unlines ls @ f @ nl @ rest" and "length pre = pos" and "no_fences ls"
    and "blank_fence f" and "LF \<notin> set f" and "nl = [LF] \<or> nl = [] \<and> rest = []"
  shows "boundary_loop content y pos =
    Some \<lparr> yaml_start = y, yaml_end = pos + length (unlines ls), body_start = length content - length rest \<rparr>"
  using assms
proof (induction ls arbitrary: pre pos)
  case Nil
  then have d: "drop pos content = f @ nl @ rest" by simp
  have len: "length content = pos + length f + length nl + length rest" using Nil(1,2) by simp
  have f: "f \<noteq> []" using blank_fence_nonempty [OF assms(4)] .
  have t: "trim (trim_end_char CR f) = ''---''" using assms(4) by (simp add: blank_fence_def)
  show ?case
  proof (cases "nl = [LF]")
    case True
    then have n: "find_byte (\<lambda>c. c = LF) (drop pos content) = Some (length f)"
      unfolding d using find_LF_line [OF assms(5)] by simp
    have s: "slice content pos (pos + length f) = f" by (simp add: slice_def d)
    show ?thesis
      using f by (subst boundary_loop.simps) (simp add: Let_def n t s len True)
  next
    case False
    then have e: "nl = []" "rest = []" using assms(6) by simp_all
    then have n: "find_byte (\<lambda>c. c = LF) (drop pos content) = None"
      unfolding d using find_LF_none [OF assms(5)] by simp
    have s: "slice content pos (pos + length f) = f" using e by (simp add: slice_def d)
    show ?thesis
      using f by (subst boundary_loop.simps) (simp add: Let_def n t s len e)
  qed
next
  case (Cons l ls)
  from Cons.prems(1) have c: "content = (pre @ l @ [LF]) @ unlines ls @ f @ nl @ rest" by simp
  have d: "drop pos content = l @ LF # unlines ls @ f @ nl @ rest"
    using Cons.prems(1,2) by simp
  have nf: "LF \<notin> set l" "\<not> blank_fence l" "no_fences ls" using Cons.prems(3) by (auto simp: no_fences_def)
  have f: "find_byte (\<lambda>c. c = LF) (drop pos content) = Some (length l)"
    unfolding d by (rule find_LF_line [OF nf(1)])
  have s: "slice content pos (pos + length l) = l" by (simp add: slice_def d)
  have "boundary_loop content y (pos + length l + 1) =
    Some \<lparr> yaml_start = y, yaml_end = pos + length l + 1 + length (unlines ls), body_start = length content - length rest \<rparr>"
    using Cons.prems(2) by (intro Cons.IH [OF c _ nf(3) assms(4-6)]) auto
  moreover have "boundary_loop content y pos = boundary_loop content y (pos + length l + 1)"
    using Cons.prems(1,2) f s nf(2) by (subst boundary_loop.simps) (simp add: Let_def blank_fence_def)
  ultimately show ?case by (simp add: ac_simps)
qed

lemma frontmatter_boundaries_complete:
  assumes c: "content = opn @ unlines ls @ f @ nl @ rest" and o: "opn \<in> {fence @ [LF], fence @ [CR, LF]}"
    and "no_fences ls" and "blank_fence f" and "LF \<notin> set f" and "nl = [LF] \<or> nl = [] \<and> rest = []"
  shows "frontmatter_boundaries content = Some \<lparr> yaml_start = length opn,
    yaml_end = length opn + length (unlines ls), body_start = length content - length rest \<rparr>"
proof -
  obtain l where l: "opn = l @ [LF]" "l \<in> {fence, fence @ [CR]}" using o by auto
  then have nl: "LF \<notin> set l" by (auto simp: fence_def)
  have "find_byte (\<lambda>c. c = LF) content = Some (length l)"
    unfolding c l(1) using find_LF_line [OF nl, of "unlines ls @ f @ nl @ rest"] by simp
  moreover have "trim (trim_end_char CR fence) = ''---''" "trim (trim_end_char CR (fence @ [CR])) = ''---''" by code_simp+
  then have "trim (trim_end_char CR (take (length l) content)) = ''---''" using l unfolding c by auto
  moreover have "starts_with content ''---''" using l unfolding c by (auto simp: starts_with_def fence_def)
  moreover note boundary_loop_complete [OF c refl assms(3-6), of "length opn"]
  ultimately show ?thesis using l(1) by (simp add: frontmatter_boundaries_def)
qed


lemma unlines_inject: "\<forall>l \<in> set ls. LF \<notin> set l \<Longrightarrow> \<forall>l \<in> set ks. LF \<notin> set l \<Longrightarrow> unlines ls = unlines ks \<Longrightarrow> ls = ks"
proof (induction ls arbitrary: ks)
  case Nil
  then show ?case by (cases ks) auto
next
  case (Cons l ls)
  then obtain k ks' where k: "ks = k # ks'" by (cases ks) auto
  have nl: "LF \<notin> set l" "LF \<notin> set k" using Cons.prems(1,2) k by auto
  have e: "l @ LF # unlines ls = k @ LF # unlines ks'" using Cons.prems(3) k by simp
  have "length l = length k"
    using find_LF_line [OF nl(1), of "unlines ls"] find_LF_line [OF nl(2), of "unlines ks'"] e by simp
  then have "l = k \<and> LF # unlines ls = LF # unlines ks'"
    using iffD1 [OF append_eq_append_conv [OF disjI1] e] by blast
  then have "l = k" "unlines ls = unlines ks'" by simp_all
  moreover have "\<forall>l \<in> set ls. LF \<notin> set l" "\<forall>l \<in> set ks'. LF \<notin> set l" using Cons.prems(1,2) k by simp_all
  ultimately show ?case using Cons.IH k by blast
qed

text \<open>On a block without such a line the patcher finds what the reader finds.\<close>

lemma boundaries_of_reader:
  assumes e: "extract_raw_frontmatter content = Some (unlines old, b)" and n: "no_fences old"
  obtains y where "frontmatter_boundaries content = Some \<lparr> yaml_start = y, yaml_end = y + length (unlines old), body_start = b \<rparr>"
    and "slice content y (y + length (unlines old)) = unlines old"
proof -
  from e [unfolded extract_raw_frontmatter_iff] obtain opn ls f nl rest where
      c: "content = opn @ unlines ls @ f @ nl @ rest" and o: "opn \<in> {fence @ [LF], fence @ [CR, LF]}"
    and p: "plain_lines ls" and cl: "closes f nl rest" and u: "unlines old = unlines ls" "b = length content - length rest"
    by blast
  have "ls = old" using unlines_inject [of ls old] u(1) p n by (auto simp: plain_lines_def no_fences_def)
  then have nf: "no_fences ls" using n by simp
  have f: "blank_fence f" "LF \<notin> set f" "nl = [LF] \<or> nl = [] \<and> rest = []"
    using cl fence_blank by (auto simp: closes_def)
  show ?thesis
  proof (rule that [of "length opn"])
    show "frontmatter_boundaries content = Some \<lparr> yaml_start = length opn,
        yaml_end = length opn + length (unlines old), body_start = b \<rparr>"
      using frontmatter_boundaries_complete [OF c o nf f] u by simp
    show "slice content (length opn) (length opn + length (unlines old)) = unlines old"
      using u(1) by (simp add: c slice_def)
  qed
qed

lemma patch_rebuilds:
  assumes "frontmatter_boundaries content = Some rg"
    and "(if trim (slice content (yaml_start rg) (yaml_end rg)) = [] then m = []
          else yaml_mapping (slice content (yaml_start rg) (yaml_end rg)) = Inr m)"
    and "yaml_map_text (patched_map yaml_value yaml_text request m) = Inr y" and "strip_document_start y = unlines ls"
  shows "patch_frontmatter yaml_mapping yaml_value yaml_text yaml_map_text content request path
    = Inr (fence @ [LF] @ unlines ls @ fence @ [LF] @ drop (body_start rg) content)"
proof -
  have e: "ends_with (unlines ls) [LF]" if "unlines ls \<noteq> []"
    using that by (cases ls rule: rev_cases) (auto simp: ends_with_iff)
  show ?thesis using assms e by (auto simp: patch_frontmatter_def Let_def fence_def split: if_splits)
qed


section \<open>Properties\<close>

text \<open> Property C29. A heading patch is local: the result keeps all text before and after the section of
  the heading that the request's path names, byte for byte. Prepend inserts right after the heading line, append at the
  end of its section, replace swaps exactly the section's body; only single line feeds are added
  to keep the new text on lines of its own.\<close>

theorem patch_heading_local:
  assumes "wf_headings (length content) (extract_headings_with_offsets events content)"
    and "patch_heading events content request path = Inr out"
  shows "\<exists>h e0 e nl1 nl2. path_names content (extract_headings_with_offsets events content)
        (split_str ''::'' (ptarget request)) 0 (length content) h e0 e
    \<and> section_of (extract_headings_with_offsets events content) h e0 e
    \<and> e \<le> length content \<and> nl1 \<in> {[], [LF]} \<and> nl2 \<in> {[], [LF]}
    \<and> out = (case op request of
               Prepend \<Rightarrow> take (hend h) content @ nl1 @ pcontent request @ nl2 @ drop (hend h) content
             | Append \<Rightarrow> take e content @ nl1 @ pcontent request @ nl2 @ drop e content
             | Replace \<Rightarrow> take (hend h) content @ nl1 @ pcontent request @ nl2 @ drop e content)"
proof -
  let ?hs = "extract_headings_with_offsets events content"
  from assms(2) obtain a e where r: "resolve_loop content ?hs (split_str ''::'' (ptarget request)) (0, length content, 0) = Some (a, e)"
    and out: "out = (case op request of
           Prepend \<Rightarrow> ensure_trailing_newline (ensure_trailing_newline (take a content) @ pcontent request) @ drop a content
         | Append \<Rightarrow> ensure_trailing_newline (ensure_trailing_newline (take e content) @ pcontent request) @ drop e content
         | Replace \<Rightarrow> (if e < length content
             then ensure_trailing_newline (ensure_trailing_newline (take a content) @ pcontent request)
             else ensure_trailing_newline (take a content) @ pcontent request) @ drop e content)"
    by (auto simp: patch_heading_def resolve_heading_range_def result_simps Let_def
        split: option.splits PatchOperation.splits if_splits)
  obtain h e0 where h: "e0 \<le> length content" "section_of ?hs h e0 e" "hend h = a"
    and n: "path_names content ?hs (split_str ''::'' (ptarget request)) 0 (length content) h e0 e"
    using resolve_loop_names [OF assms(1) heading_bound_length [OF assms(1)] order_refl _ r] by auto
  then have el: "e \<le> length content" by (simp add: section_of_def)
  define i where "i = (if op request = Append then e else a)"
  obtain nl1 where n1: "nl1 \<in> {[], [LF]}" "ensure_trailing_newline (take i content) = take i content @ nl1"
    using ensure_trailing_newline_split [of "take i content"] by blast
  obtain nl2 where n2: "nl2 \<in> {[], [LF]}"
    "ensure_trailing_newline ((take i content @ nl1) @ pcontent request) = ((take i content @ nl1) @ pcontent request) @ nl2"
    using ensure_trailing_newline_split by blast
  show ?thesis
  proof (cases "op request = Replace \<and> \<not> e < length content")
    case True
    with n1 out h el n show ?thesis
      by (intro exI [of _ h] exI [of _ e0] exI [of _ e] exI [of _ nl1] exI [of _ "[]"]) (simp add: i_def)
  next
    case False
    then have "out = (case op request of
        Prepend \<Rightarrow> take a content @ nl1 @ pcontent request @ nl2 @ drop a content
      | Append \<Rightarrow> take e content @ nl1 @ pcontent request @ nl2 @ drop e content
      | Replace \<Rightarrow> take a content @ nl1 @ pcontent request @ nl2 @ drop e content)"
      using n1(2) n2(2) unfolding out i_def by (cases "op request") simp_all
    with n1(1) n2(1) h el n show ?thesis by blast
  qed
qed

theorem patch_heading_local_witness:
  "\<exists>out. patch_heading sample_events sample_note
      \<lparr> op = Append, target_type = HeadingTarget, ptarget = ''A'', pcontent = ''z'' \<rparr> ''p'' = Inr out
    \<and> (\<exists>pre nl1 nl2 post. out = pre @ nl1 @ ''z'' @ nl2 @ post \<and> pre @ post = sample_note)"
proof -
  let ?r = "\<lparr> op = Append, target_type = HeadingTarget, ptarget = ''A'', pcontent = ''z'' \<rparr>"
  have w: "wf_headings (length sample_note) (extract_headings_with_offsets sample_events sample_note)"
    by code_simp
  have "is_ok (patch_heading sample_events sample_note ?r ''p'')" by code_simp
  then obtain out where o: "patch_heading sample_events sample_note ?r ''p'' = Inr out"
    by (cases "patch_heading sample_events sample_note ?r ''p''") auto
  from patch_heading_local [OF w o] obtain e nl1 nl2 where
    "out = take e sample_note @ nl1 @ ''z'' @ nl2 @ drop e sample_note" by auto
  with o show ?thesis by (metis append_take_drop_id)
qed

text \<open> Property C30. A block patch is local to the line of its marker: replacing swaps only the text of
  that line before the caret and keeps the marker; prepending and appending insert at the line's
  start and after its terminator, adding only line terminators, and keep everything else.\<close>

theorem patch_block_local:
  assumes "patch_block events content request path = Inr out"
  shows "\<exists>ident b g1 g2. block_line_ok content ident b
    \<and> (ptarget request = ident \<or> ptarget request = CHR ''^'' # ident)
    \<and> g1 \<in> {[], [LF], [CR, LF]} \<and> g2 \<in> {[], [LF], [CR, LF]}
    \<and> out = (case op request of
         Replace \<Rightarrow> take (fst (bline b)) content @ (if pcontent request = [] then [] else pcontent request @ '' '')
                     @ drop (marker_start b) content
       | Prepend \<Rightarrow> take (fst (bline b)) content @ g1 @ pcontent request @ g2 @ drop (fst (bline b)) content
       | Append \<Rightarrow> take (end_with_newline b) content @ g1 @ pcontent request @ g2 @ drop (end_with_newline b) content)"
proof -
  define ident where "ident = (case strip_prefix ''^'' (ptarget request) of Some i \<Rightarrow> i | None \<Rightarrow> ptarget request)"
  from assms obtain b where f: "find_block_ref events content ident = Some b"
    by (auto simp: patch_block_def ident_def Let_def split: option.splits)
  note ok = find_block_ref_line [OF f]
  have idt: "ptarget request = ident \<or> ptarget request = CHR ''^'' # ident"
    by (auto simp: ident_def strip_prefix_def starts_with_iff split: option.splits)
  let ?nl = "line_sep content b"
  have nl: "?nl \<in> {[LF], [CR, LF]}"
    using ok by (auto simp: line_sep_def block_line_ok_def Let_def)
  define i where "i = (if op request = Prepend then fst (bline b) else end_with_newline b)"
  obtain g1 where g1: "g1 \<in> {[], ?nl}" "push_newline ?nl (take i content) = take i content @ g1"
    using push_newline_split by blast
  obtain g2 where g2: "g2 \<in> {[], ?nl}"
    "push_newline ?nl ((take i content @ g1) @ pcontent request) = ((take i content @ g1) @ pcontent request) @ g2"
    using push_newline_split by blast
  have out: "out = (if op request = Replace
       then take (fst (bline b)) content @ (if pcontent request = [] then [] else pcontent request @ '' '')
            @ drop (marker_start b) content
       else push_newline ?nl (push_newline ?nl (take i content) @ pcontent request) @ drop i content)"
    using assms f unfolding patch_block_def ident_def [symmetric] i_def Let_def by (simp split: if_splits)
  have "out = (case op request of
         Replace \<Rightarrow> take (fst (bline b)) content @ (if pcontent request = [] then [] else pcontent request @ '' '')
                     @ drop (marker_start b) content
       | Prepend \<Rightarrow> take (fst (bline b)) content @ g1 @ pcontent request @ g2 @ drop (fst (bline b)) content
       | Append \<Rightarrow> take (end_with_newline b) content @ g1 @ pcontent request @ g2 @ drop (end_with_newline b) content)"
    using g1(2) g2(2) unfolding out i_def by (cases "op request") simp_all
  moreover have "g1 \<in> {[], [LF], [CR, LF]}" "g2 \<in> {[], [LF], [CR, LF]}" using g1(1) g2(1) nl by auto
  ultimately show ?thesis using ok idt by blast
qed

theorem patch_block_local_witness:
  "patch_block (\<lambda>_ _. []) (''x ^i'' @ [CR, LF] @ ''y'')
      \<lparr> op = Replace, target_type = BlockTarget, ptarget = ''^i'', pcontent = ''new'' \<rparr> ''p''
     = Inr (''new ^i'' @ [CR, LF] @ ''y'')
   \<and> (\<exists>ident b. block_line_ok (''x ^i'' @ [CR, LF] @ ''y'') ident b)"
proof -
  have o: "patch_block (\<lambda>_ _. []) (''x ^i'' @ [CR, LF] @ ''y'')
      \<lparr> op = Replace, target_type = BlockTarget, ptarget = ''^i'', pcontent = ''new'' \<rparr> ''p''
     = Inr (''new ^i'' @ [CR, LF] @ ''y'')" by code_simp
  from patch_block_local [OF o] o show ?thesis by blast
qed

text \<open>What the YAML library does on one mapping: the text it writes, without the document marker,
  is whole lines of which none is a fence, and it reads the same mapping back.\<close>

definition yaml_map_roundtrips :: "(str \<Rightarrow> str + yaml_map) \<Rightarrow> (yaml_map \<Rightarrow> str + str) \<Rightarrow> yaml_map \<Rightarrow> bool" where
  "yaml_map_roundtrips yaml_mapping yaml_map_text m \<longleftrightarrow>
     (\<exists>y ls. yaml_map_text m = Inr y \<and> strip_document_start y = unlines ls \<and> plain_lines ls
        \<and> yaml_mapping (unlines ls) = Inr m)"

text \<open> Property C31. On a note in which no line of the block that the reader finds is a rule but for
  blanks, a frontmatter patch changes one field: when the YAML library reads back the mapping it
  wrote, the reader finds in the result a block that reads as the old mapping with exactly the
  target key set to the patched value, over the body that it found before, byte for byte.\<close>

theorem patch_frontmatter_field:
  assumes "extract_raw_frontmatter content = Some (unlines old, b)" and "no_fences old"
    and "if trim (unlines old) = [] then m = [] else yaml_mapping (unlines old) = Inr m"
    and "distinct (map fst m)"
    and "yaml_map_roundtrips yaml_mapping yaml_map_text (patched_map yaml_value yaml_text request m)"
  shows "\<exists>out raw b' m'. patch_frontmatter yaml_mapping yaml_value yaml_text yaml_map_text content request path = Inr out
     \<and> extract_raw_frontmatter out = Some (raw, b') \<and> yaml_mapping raw = Inr m'
     \<and> map_of m' = (map_of m)(YString (ptarget request) \<mapsto>
            patched_value yaml_value yaml_text (op request) (pcontent request) (map_of m (YString (ptarget request))))
     \<and> drop b' out = drop b content \<and> get_body out = get_body content"
proof -
  let ?m = "patched_map yaml_value yaml_text request m"
  obtain y ls where w: "yaml_map_text ?m = Inr y" "strip_document_start y = unlines ls" "plain_lines ls"
    "yaml_mapping (unlines ls) = Inr ?m" using assms(5) unfolding yaml_map_roundtrips_def by blast
  obtain s where s: "frontmatter_boundaries content
      = Some \<lparr> yaml_start = s, yaml_end = s + length (unlines old), body_start = b \<rparr>"
    "slice content s (s + length (unlines old)) = unlines old"
    using boundaries_of_reader [OF assms(1,2)] by blast
  let ?out = "fence @ [LF] @ unlines ls @ fence @ [LF] @ drop b content"
  have p: "patch_frontmatter yaml_mapping yaml_value yaml_text yaml_map_text content request path = Inr ?out"
    using patch_rebuilds [of content _ m yaml_mapping yaml_map_text yaml_value yaml_text request y ls path, OF s(1)]
      assms(3) s(2) w(1,2) by simp
  have r: "extract_raw_frontmatter ?out = Some (unlines ls, length (fence @ [LF] @ unlines ls @ fence @ [LF]))"
    by (rule extract_rebuilt [OF w(3)])
  have "drop (length (fence @ [LF] @ unlines ls @ fence @ [LF])) ?out = drop b content" by simp
  moreover have "get_body ?out = get_body content" using assms(1) r by (simp add: get_body_def)
  ultimately show ?thesis
    using p r w(4) patched_map_lookup [OF assms(4)] by blast
qed

definition one_map :: "str \<Rightarrow> str + yaml_map" where
  "one_map s = Inr [(YString ''k'', YString (if s = unlines [''k: v''] then ''v'' else ''w''))]"

definition one_text :: "yaml_map \<Rightarrow> str + str" where
  "one_text m = Inr (unlines [''k: w''])"

lemma one_plain: "plain_lines [''k: w'']"
  by code_simp

theorem patch_frontmatter_field_witness:
  "\<exists>out raw b' m'. patch_frontmatter one_map (\<lambda>_. None) (\<lambda>_. None) one_text
      (''---'' @ LF # ''k: v'' @ LF # ''---'' @ LF # ''body'')
      \<lparr> op = Replace, target_type = FrontmatterTarget, ptarget = ''k'', pcontent = ''w'' \<rparr> ''p'' = Inr out
    \<and> extract_raw_frontmatter out = Some (raw, b') \<and> one_map raw = Inr m' \<and> map_of m' (YString ''k'') = Some (YString ''w'')
    \<and> get_body out = ''body''"
proof -
  let ?c = "''---'' @ LF # ''k: v'' @ LF # ''---'' @ LF # ''body''"
  let ?r = "\<lparr> op = Replace, target_type = FrontmatterTarget, ptarget = ''k'', pcontent = ''w'' \<rparr>"
  let ?m = "[(YString ''k'', YString ''v'')]"
  have e: "extract_raw_frontmatter ?c = Some (unlines [''k: v''], 13)" by code_simp
  have n: "no_fences [''k: v'']" by code_simp
  have m: "if trim (unlines [''k: v'']) = [] then ?m = [] else one_map (unlines [''k: v'']) = Inr ?m"
  proof -
    have "trim (unlines [''k: v'']) \<noteq> []" by code_simp
    then show ?thesis by (simp add: one_map_def)
  qed
  have d: "distinct (map fst ?m)" by simp
  have pm: "patched_map (\<lambda>_. None) (\<lambda>_. None) ?r ?m = [(YString ''k'', YString ''w'')]" by code_simp
  have "strip_document_start (unlines [''k: w'']) = unlines [''k: w'']" "one_map (unlines [''k: w'']) = Inr [(YString ''k'', YString ''w'')]"
    by code_simp+
  then have w: "yaml_map_roundtrips one_map one_text (patched_map (\<lambda>_. None) (\<lambda>_. None) ?r ?m)"
    using one_plain unfolding yaml_map_roundtrips_def pm one_text_def by blast
  have v: "patched_value (\<lambda>_. None) (\<lambda>_. None) (op ?r) (pcontent ?r) (map_of ?m (YString (ptarget ?r))) = YString ''w''" by code_simp
  have b: "get_body ?c = ''body''" by code_simp
  from patch_frontmatter_field [OF e n m d w, of "''p''"] v b show ?thesis by fastforce
qed



section \<open>A heading below itself\<close>

lemma find_str_colons: "CHR '':'' \<notin> set s \<Longrightarrow> find_str ''::'' (s @ ''::'' @ t) = Some (length s)"
  by (induction s) (auto simp: starts_with_def)

lemma find_str_no_colon: "CHR '':'' \<notin> set s \<Longrightarrow> find_str ''::'' s = None"
  by (induction s) (auto simp: starts_with_def take_Suc_conv_app_nth)

lemma split_twice:
  assumes "CHR '':'' \<notin> set s"
  shows "split_str ''::'' (s @ ''::'' @ s) = [s, s]" and "split_str ''::'' s = [s]"
proof -
  show one: "split_str ''::'' s = [s]" using find_str_no_colon [OF assms] by (subst split_str.simps) simp
  show "split_str ''::'' (s @ ''::'' @ s) = [s, s]"
    using find_str_colons [OF assms, of s] one by (subst split_str.simps) simp
qed

lemma find_first_least:
  assumes "sorted_wrt (\<lambda>a b. hend a \<le> offset b) ks" "list_all (\<lambda>h. offset h < hend h) ks"
    and "List.find (\<lambda>k. offset k < n \<and> Q k) ks = Some j" and "k \<in> set ks" "Q k"
  shows "offset j \<le> offset k"
  using assms
proof (induction ks)
  case (Cons x ks)
  show ?case
  proof (cases "offset x < n \<and> Q x")
    case True
    then have "j = x" using Cons.prems(3) by simp
    moreover have "offset x < hend x" using Cons.prems(2) by simp
    moreover have "k = x \<or> hend x \<le> offset k" using Cons.prems(1,4) by auto
    ultimately show ?thesis by auto
  next
    case False
    then have f: "List.find (\<lambda>k. offset k < n \<and> Q k) ks = Some j" using Cons.prems(3) by (simp split: if_splits)
    show ?thesis
    proof (cases "k = x")
      case True
      then have "n \<le> offset k" using False Cons.prems(5) by simp
      moreover have "offset j < n" using f by (auto simp: find_Some_iff)
      ultimately show ?thesis by simp
    next
      case False
      then show ?thesis using Cons f by simp
    qed
  qed
qed simp

lemma find_bound_again:
  assumes "sorted_wrt (\<lambda>a b. hend a \<le> offset b) ks" "list_all (\<lambda>h. offset h < hend h) ks"
    and e: "e = (case List.find (\<lambda>k. offset k < n \<and> Q k) ks of Some k \<Rightarrow> offset k | None \<Rightarrow> n)"
  shows "(case List.find (\<lambda>k. offset k < e \<and> Q k) ks of Some k \<Rightarrow> offset k | None \<Rightarrow> e) = e"
proof (cases "List.find (\<lambda>k. offset k < e \<and> Q k) ks")
  case (Some k)
  then have k: "k \<in> set ks" "offset k < e" "Q k" by (auto simp: find_Some_iff)
  obtain j where j: "List.find (\<lambda>k. offset k < n \<and> Q k) ks = Some j" "e = offset j"
    using e k by (cases "List.find (\<lambda>k. offset k < n \<and> Q k) ks") (auto simp: find_None_iff)
  from find_first_least [OF assms(1,2) j(1) k(1,3)] k(2) j(2) show ?thesis by simp
qed simp

lemma heading_range_loop_twice:
  assumes w: "wf_headings n hs" and b: "heading_bound hs n" and r: "heading_range_loop hs [t] 0 n = Some (a, e)"
  shows "heading_range_loop hs [t, t] 0 n = Some (a, e)"
proof -
  let ?P = "\<lambda>s e h. s \<le> offset h \<and> offset h < e \<and> eq_ignore_ascii_case (htext h) t"
  let ?stop = "\<lambda>e h later. case List.find (\<lambda>k. offset k < e \<and> level k \<le> level h) later of Some k \<Rightarrow> offset k | None \<Rightarrow> e"
  obtain h later where d: "dropWhile (\<lambda>h. \<not> ?P 0 n h) hs = h # later"
    using r by (auto split: list.splits)
  then have p: "?P 0 n h" by (metis hd_dropWhile list.distinct(1) list.sel(1))
  have s: "hs = takeWhile (\<lambda>h. \<not> ?P 0 n h) hs @ h # later" by (metis d takeWhile_dropWhile_id)
  have ae: "a = offset h" "e = ?stop n h later" using r d by auto
  have "section_of hs h n e" using section_step [OF w b s] p ae(2) by simp
  moreover have "h \<in> set hs" by (subst s) simp
  then have "offset h < hend h" using w by (simp add: wf_headings_def list_all_iff)
  ultimately have he: "offset h < e" by (simp add: section_of_def)
  have sorted: "sorted_wrt (\<lambda>a b. hend a \<le> offset b) (takeWhile (\<lambda>h. \<not> ?P 0 n h) hs @ h # later)"
    using w s by (simp only: wf_headings_def)
  have before: "offset k < offset h" if "k \<in> set (takeWhile (\<lambda>h. \<not> ?P 0 n h) hs)" for k
  proof -
    have "hend k \<le> offset h" using that sorted by (simp add: sorted_wrt_append)
    moreover have "k \<in> set hs" using that by (rule set_takeWhileD [THEN conjunct1])
    then have "offset k < hend k" using w by (simp add: wf_headings_def list_all_iff)
    ultimately show ?thesis by simp
  qed
  have again: "dropWhile (\<lambda>k. \<not> ?P (offset h) e k) hs = h # later"
    by (subst s, subst dropWhile_append2) (use before p he in \<open>fastforce+\<close>)
  have "set later \<subseteq> set (takeWhile (\<lambda>h. \<not> ?P 0 n h) hs @ h # later)" by auto
  then have "set later \<subseteq> set hs" by (simp only: s [symmetric])
  then have m: "list_all (\<lambda>h. offset h < hend h) later" using w by (auto simp: wf_headings_def list_all_iff)
  have same: "?stop e h later = e" by (rule find_bound_again [OF _ m ae(2)]) (use sorted in \<open>simp add: sorted_wrt_append\<close>)
  have "heading_range_loop hs [t, t] 0 n = heading_range_loop hs [t] (offset h) e"
    using d ae(2) by simp
  also have "\<dots> = Some (offset h, ?stop e h later)" using again by simp
  finally show ?thesis using ae(1) same by simp
qed

lemma resolve_twice:
  assumes w: "wf_headings (length content) hs" and "CHR '':'' \<notin> set s"
  shows "case resolve_heading_range content hs s path of
      Inl err \<Rightarrow> resolve_heading_range content hs (s @ ''::'' @ s) path
        = Inl (PatchTargetNotFound path ''heading'' (s @ ''::'' @ s))
    | Inr (a, b) \<Rightarrow> (case resolve_heading_range content hs (s @ ''::'' @ s) path of
        Inl err \<Rightarrow> err = PatchTargetNotFound path ''heading'' (s @ ''::'' @ s)
      | Inr (c, d) \<Rightarrow> a < c \<and> d \<le> b)"
proof (cases "heading_candidate content hs 0 (length content) s")
  case None
  then show ?thesis by (simp only: resolve_heading_range_def split_twice [OF assms(2)]) simp
next
  case (Some h)
  have lt: "hend h < hend k" if "heading_candidate content hs (hend h) e s = Some k" for k e
  proof -
    have "k \<in> set hs" "hend h \<le> offset k" using heading_candidate_Some [OF that] by simp_all
    then show ?thesis using w by (fastforce simp: wf_headings_def list_all_iff)
  qed
  show ?thesis
    unfolding resolve_heading_range_def split_twice [OF assms(2)]
    by (simp add: Some lt min.coboundedI1 min.coboundedI2 split: option.split)
qed

text \<open> Property C38. The reader and the patcher disagree on a path that names a heading below itself: for
  every text without a colon, the reader resolves the path that repeats it to the very section it
  finds for the text alone, while the patcher either finds no target for the repeated path or one
  strictly below the heading line it finds for the text alone, inside that section.\<close>

theorem heading_path_matches_itself:
  assumes "wf_headings (length content) (extract_headings_with_offsets events content)"
    and "CHR '':'' \<notin> set s" and "find_heading_range events content s ''::'' = Some (a, b)"
  shows "find_heading_range events content (s @ ''::'' @ s) ''::'' = Some (a, b)
   \<and> (case resolve_heading_range content (extract_headings_with_offsets events content) s path of
        Inl err \<Rightarrow> resolve_heading_range content (extract_headings_with_offsets events content) (s @ ''::'' @ s) path
          = Inl (PatchTargetNotFound path ''heading'' (s @ ''::'' @ s))
      | Inr (a', b') \<Rightarrow>
          (case resolve_heading_range content (extract_headings_with_offsets events content) (s @ ''::'' @ s) path of
             Inl err \<Rightarrow> err = PatchTargetNotFound path ''heading'' (s @ ''::'' @ s)
           | Inr (c, d) \<Rightarrow> a' < c \<and> d \<le> b'))"
proof (rule conjI [OF _ resolve_twice [OF assms(1,2)]])
  show "find_heading_range events content (s @ ''::'' @ s) ''::'' = Some (a, b)"
    using heading_range_loop_twice [OF assms(1) heading_bound_length [OF assms(1)]] assms(3) split_twice [OF assms(2)]
    by (simp add: find_heading_range_def)
qed

theorem heading_path_matches_itself_witness:
  "find_heading_range sample_events sample_note ''A::A'' ''::'' = Some (0, 12)
   \<and> resolve_heading_range sample_note (extract_headings_with_offsets sample_events sample_note) ''A::A'' ''p''
       = Inl (PatchTargetNotFound ''p'' ''heading'' ''A::A'')"
proof -
  have w: "wf_headings (length sample_note) (extract_headings_with_offsets sample_events sample_note)"
    by code_simp
  have f: "find_heading_range sample_events sample_note ''A'' ''::'' = Some (0, 12)" by code_simp
  have p: "resolve_heading_range sample_note (extract_headings_with_offsets sample_events sample_note) ''A::A'' ''p''
       = Inl (PatchTargetNotFound ''p'' ''heading'' ''A::A'')" by code_simp
  from heading_path_matches_itself [OF w _ f] p show ?thesis by simp
qed

end
