(* ===== verification/Links.thy ===== *)
theory Links
  imports Paths "HOL-Library.AList" "HOL-Library.Multiset"
begin

text \<open>
  Wikilink resolution (src/src/vault/wikilink.rs), over the hash maps of the source as association
  lists with distinct keys, and the interface of a hash map from keys to non-empty sets, which the
  tag table and the backlink table of the index share.

  Unicode normalisation (NFC) and lower-casing are tables of third-party code: the parameters \<open>nfc\<close>
  and \<open>lower\<close>. Vault paths are UTF-8 (\<open>portable_native\<close> refuses others), and on UTF-8
  \<^verbatim>\<open>to_string_lossy\<close> is the identity.
\<close>

type_synonym 'v table = "(str \<times> 'v) list"

section \<open>Tables of sets\<close>

text \<open>\<^verbatim>\<open>entry(k).or_default().insert(p)\<close>, and removal that drops an emptied entry.\<close>

definition mm_get :: "'a set table \<Rightarrow> str \<Rightarrow> 'a set" where
  "mm_get m k = (case map_of m k of Some s \<Rightarrow> s | None \<Rightarrow> {})"

definition mm_insert :: "str \<Rightarrow> 'a \<Rightarrow> 'a set table \<Rightarrow> 'a set table" where
  "mm_insert k p m = AList.update k (insert p (mm_get m k)) m"

definition mm_remove :: "str \<Rightarrow> 'a \<Rightarrow> 'a set table \<Rightarrow> 'a set table" where
  "mm_remove k p m =
     (case map_of m k of
        None \<Rightarrow> m
      | Some s \<Rightarrow> if s - {p} = {} then AList.delete k m else AList.update k (s - {p}) m)"

definition mm_wf :: "'a set table \<Rightarrow> bool" where
  "mm_wf m \<longleftrightarrow> distinct (map fst m) \<and> list_all (\<lambda>(k, s). s \<noteq> {}) m"

text \<open>What the users of such a table rely on.\<close>

locale set_table =
  fixes get :: "'t \<Rightarrow> str \<Rightarrow> 'a set" and ins :: "str \<Rightarrow> 'a \<Rightarrow> 't \<Rightarrow> 't" and del :: "str \<Rightarrow> 'a \<Rightarrow> 't \<Rightarrow> 't"
    and wf :: "'t \<Rightarrow> bool"
  assumes get_ins: "get (ins k p m) k' = (if k' = k then insert p (get m k) else get m k')"
    and get_del: "wf m \<Longrightarrow> get (del k p m) k' = (if k' = k then get m k - {p} else get m k')"
    and wf_ins: "wf m \<Longrightarrow> wf (ins k p m)"
    and wf_del: "wf m \<Longrightarrow> wf (del k p m)"
begin

definition rel :: "'t \<Rightarrow> (str \<times> 'a) set" where
  "rel m = {(k, p). p \<in> get m k}"

lemma rel_ins: "rel (ins k p m) = insert (k, p) (rel m)"
  by (auto simp: rel_def get_ins split: if_splits)

lemma rel_del: "wf m \<Longrightarrow> rel (del k p m) = rel m - {(k, p)}"
  by (auto simp: rel_def get_del split: if_splits)

lemma wf_fold_ins: "wf m \<Longrightarrow> wf (fold (\<lambda>k. ins k p) ks m)"
  by (induction ks arbitrary: m) (auto simp: wf_ins)

lemma rel_fold_ins: "rel (fold (\<lambda>k. ins k p) ks m) = (set ks \<times> {p}) \<union> rel m"
  by (induction ks arbitrary: m) (auto simp: rel_ins)

lemma wf_fold_del: "wf m \<Longrightarrow> wf (fold (\<lambda>k. del k p) ks m)"
  by (induction ks arbitrary: m) (auto simp: wf_del)

lemma rel_fold_del: "wf m \<Longrightarrow> rel (fold (\<lambda>k. del k p) ks m) = rel m - set ks \<times> {p}"
  by (induction ks arbitrary: m) (auto simp: rel_del wf_del)

text \<open>Replacing the contribution of one source: remove its old keys, insert its new ones.\<close>

lemma rel_replace:
  assumes "wf m" and "rel m = (\<Union>q \<in> Q. K q \<times> {q})" and "set olds = (if p \<in> Q then K p else {})"
  shows "rel (fold (\<lambda>k. ins k p) news (fold (\<lambda>k. del k p) olds m))
    = (\<Union>q \<in> insert p Q. (if q = p then set news else K q) \<times> {q})"
  using assms by (auto simp: rel_fold_ins rel_fold_del split: if_splits)

lemma rel_withdraw:
  assumes "wf m" and "rel m = (\<Union>q \<in> Q. K q \<times> {q})" and "p \<in> Q \<Longrightarrow> set olds = K p"
  shows "p \<in> Q \<Longrightarrow> rel (fold (\<lambda>k. del k p) olds m) = (\<Union>q \<in> Q - {p}. K q \<times> {q})"
  using assms by (auto simp: rel_fold_del)

end

lemma mm_get_insert: "mm_get (mm_insert k p m) k' = (if k' = k then insert p (mm_get m k) else mm_get m k')"
  by (simp add: mm_insert_def mm_get_def update_conv')

lemma mm_get_remove:
  "mm_wf m \<Longrightarrow> mm_get (mm_remove k p m) k' = (if k' = k then mm_get m k - {p} else mm_get m k')"
  by (auto simp: mm_remove_def mm_get_def update_conv' delete_conv' split: option.splits)

lemma list_all_map_of: "distinct (map fst m) \<Longrightarrow> list_all (\<lambda>(k, v). P k v) m \<longleftrightarrow> (\<forall>k v. map_of m k = Some v \<longrightarrow> P k v)"
  by (auto simp: list_all_iff)

lemma mm_wf_iff: "mm_wf m \<longleftrightarrow> distinct (map fst m) \<and> (\<forall>k s. map_of m k = Some s \<longrightarrow> s \<noteq> {})"
  unfolding mm_wf_def using list_all_map_of [of m "\<lambda>k s. s \<noteq> {}"] by blast

interpretation mm: set_table mm_get mm_insert mm_remove mm_wf
proof
  fix m :: "'a set table" and k p k'
  show "mm_get (mm_insert k p m) k' = (if k' = k then insert p (mm_get m k) else mm_get m k')"
    by (rule mm_get_insert)
  show "mm_get (mm_remove k p m) k' = (if k' = k then mm_get m k - {p} else mm_get m k')" if "mm_wf m"
    using that by (rule mm_get_remove)
  show "mm_wf (mm_insert k p m)" if "mm_wf m"
    using that by (auto simp: mm_wf_iff mm_insert_def distinct_update update_conv' split: if_splits)
  show "mm_wf (mm_remove k p m)" if "mm_wf m"
    using that by (auto simp: mm_wf_iff mm_remove_def distinct_update distinct_delete update_conv' delete_conv'
        simp del: map_of_eq_Some_iff Some_eq_map_of_iff split: option.splits if_splits)
qed

text \<open>The keys of a well-formed table are the keys of its relation.\<close>

lemma mm_keys: "mm_wf m \<Longrightarrow> fst ` set m = Domain (mm.rel m)"
proof -
  assume w: "mm_wf m"
  have "k \<in> fst ` set m \<longleftrightarrow> (\<exists>p. p \<in> mm_get m k)" for k
  proof (cases "map_of m k")
    case None
    then have "k \<notin> fst ` set m" by (simp add: map_of_eq_None_iff)
    with None show ?thesis by (simp only: mm_get_def option.case) simp
  next
    case (Some s)
    then have "k \<in> fst ` set m" by (metis map_of_eq_None_iff option.distinct(1))
    moreover have "s \<noteq> {}" using w Some unfolding mm_wf_iff by blast
    ultimately show ?thesis using Some by (auto simp: mm_get_def simp del: map_of_eq_Some_iff)
  qed
  then show ?thesis by (auto simp: mm.rel_def Domain_unfold)
qed

lemma mm_length: "mm_wf m \<Longrightarrow> length m = card (Domain (mm.rel m))"
proof -
  assume w: "mm_wf m"
  then have "length m = card (set (map fst m))"
    by (metis distinct_card length_map mm_wf_def)
  with mm_keys [OF w] show ?thesis by simp
qed

section \<open>Tables with distinct keys\<close>

definition table_sum :: "('v \<Rightarrow> nat) \<Rightarrow> 'v table \<Rightarrow> nat" where
  "table_sum f t = sum_list (map (\<lambda>(k, v). f v) t)"

lemma keys_delete: "fst ` set (AList.delete k t) = fst ` set t - {k}"
proof -
  have "set (map fst (AList.delete k t)) = set (removeAll k (map fst t))" by (simp only: delete_keys)
  then show ?thesis by simp
qed

lemma keys_map_of: "k \<in> fst ` set t \<longleftrightarrow> map_of t k \<noteq> None"
  by (simp only: map_of_eq_None_iff simp_thms)

lemma table_sum_Nil [simp]: "table_sum f [] = 0"
  by (simp add: table_sum_def)

lemma table_sum_delete:
  "distinct (map fst t) \<Longrightarrow> map_of t k = Some v \<Longrightarrow> table_sum f t = f v + table_sum f (AList.delete k t)"
proof (induction t)
  case (Cons e t)
  obtain a b where e: "e = (a, b)" by (cases e)
  show ?case
  proof (cases "a = k")
    case True
    with Cons.prems have "k \<notin> fst ` set t" "b = v" by (auto simp: e)
    then show ?thesis using True by (simp add: e table_sum_def)
  next
    case False
    with Cons show ?thesis by (simp add: e table_sum_def)
  qed
qed simp

lemma table_sum_update:
  "distinct (map fst t) \<Longrightarrow> table_sum f (AList.update k v t) = f v + table_sum f (AList.delete k t)"
proof (induction t)
  case (Cons e t)
  then show ?case by (cases e) (auto simp: table_sum_def)
qed (simp add: table_sum_def)

lemma length_table: "length t = table_sum (\<lambda>_. 1) t"
  by (induction t) (auto simp: table_sum_def)

section \<open>The resolver\<close>

record LinkResolver =
  by_stem :: "str list table"
  by_path :: "str table"

definition lookup_key_without_md :: "(str \<Rightarrow> str) \<Rightarrow> (str \<Rightarrow> str) \<Rightarrow> str \<Rightarrow> str" where
  "lookup_key_without_md nfc lower s =
     (let l = lower (nfc s) in case strip_suffix ''.md'' l of Some r \<Rightarrow> r | None \<Rightarrow> l)"

definition normalize_target :: "(str \<Rightarrow> str) \<Rightarrow> (str \<Rightarrow> str) \<Rightarrow> str \<Rightarrow> str" where
  "normalize_target nfc lower target = lookup_key_without_md nfc lower (replace_char backslash slash target)"

definition path_key :: "(str \<Rightarrow> str) \<Rightarrow> (str \<Rightarrow> str) \<Rightarrow> str \<Rightarrow> str" where
  "path_key nfc lower path = lookup_key_without_md nfc lower (replace_char backslash slash path)"

definition stem_key :: "(str \<Rightarrow> str) \<Rightarrow> (str \<Rightarrow> str) \<Rightarrow> str \<Rightarrow> str" where
  "stem_key nfc lower path =
     lookup_key_without_md nfc lower (case logical_file_name path of Some n \<Rightarrow> n | None \<Rightarrow> [])"

definition resolver_insert :: "(str \<Rightarrow> str) \<Rightarrow> (str \<Rightarrow> str) \<Rightarrow> str \<Rightarrow> LinkResolver \<Rightarrow> LinkResolver" where
  "resolver_insert nfc lower path r =
     (let stem = stem_key nfc lower path; pkey = path_key nfc lower path in
      r \<lparr> by_path := AList.update pkey path (by_path r),
          by_stem := AList.update stem
             ((case map_of (by_stem r) stem of Some ps \<Rightarrow> ps | None \<Rightarrow> []) @ [path]) (by_stem r) \<rparr>)"

definition add_path :: "(str \<Rightarrow> str) \<Rightarrow> (str \<Rightarrow> str) \<Rightarrow> str \<Rightarrow> LinkResolver \<Rightarrow> LinkResolver" where
  "add_path nfc lower path r = resolver_insert nfc lower path r"

definition remove_path :: "(str \<Rightarrow> str) \<Rightarrow> (str \<Rightarrow> str) \<Rightarrow> str \<Rightarrow> LinkResolver \<Rightarrow> LinkResolver" where
  "remove_path nfc lower path r =
     (let stem = stem_key nfc lower path; pkey = path_key nfc lower path;
          r1 = r \<lparr> by_path := AList.delete pkey (by_path r) \<rparr>
      in case map_of (by_stem r1) stem of
           None \<Rightarrow> r1
         | Some paths \<Rightarrow>
             let paths' = filter (\<lambda>p. p \<noteq> path) paths in
             r1 \<lparr> by_stem := (if paths' = [] then AList.delete stem (by_stem r1)
                              else AList.update stem paths' (by_stem r1)) \<rparr>)"

definition rename_path :: "(str \<Rightarrow> str) \<Rightarrow> (str \<Rightarrow> str) \<Rightarrow> str \<Rightarrow> str \<Rightarrow> LinkResolver \<Rightarrow> LinkResolver" where
  "rename_path nfc lower old new r = resolver_insert nfc lower new (remove_path nfc lower old r)"

definition empty_resolver :: LinkResolver where
  "empty_resolver = \<lparr> by_stem = [], by_path = [] \<rparr>"

definition build_link_resolver :: "(str \<Rightarrow> str) \<Rightarrow> (str \<Rightarrow> str) \<Rightarrow> str list \<Rightarrow> LinkResolver" where
  "build_link_resolver nfc lower paths = fold (resolver_insert nfc lower) paths empty_resolver"

definition resolve :: "(str \<Rightarrow> str) \<Rightarrow> (str \<Rightarrow> str) \<Rightarrow> LinkResolver \<Rightarrow> str \<Rightarrow> str option" where
  "resolve nfc lower r target =
     (let normalized = normalize_target nfc lower target in
      if normalized = [] then None
      else if slash \<in> set normalized then map_of (by_path r) normalized
      else case map_of (by_stem r) normalized of
             Some [single] \<Rightarrow> Some single
           | _ \<Rightarrow> None)"

definition resolve_candidates :: "(str \<Rightarrow> str) \<Rightarrow> (str \<Rightarrow> str) \<Rightarrow> LinkResolver \<Rightarrow> str \<Rightarrow> str list" where
  "resolve_candidates nfc lower r target =
     (let normalized = normalize_target nfc lower target in
      if normalized = [] then []
      else if slash \<in> set normalized then (case map_of (by_path r) normalized of Some p \<Rightarrow> [p] | None \<Rightarrow> [])
      else case map_of (by_stem r) normalized of Some ps \<Rightarrow> ps | None \<Rightarrow> [])"

definition is_resolved :: "(str \<Rightarrow> str) \<Rightarrow> (str \<Rightarrow> str) \<Rightarrow> LinkResolver \<Rightarrow> str \<Rightarrow> bool" where
  "is_resolved nfc lower r target \<longleftrightarrow> resolve nfc lower r target \<noteq> None"

section \<open>What the tables hold\<close>

text \<open>The stem table lists exactly the notes of each stem; the path table holds only notes, each
  under its own key, and every key that has a note unless a colliding note was removed.\<close>

definition stems_agree :: "(str \<Rightarrow> str) \<Rightarrow> (str \<Rightarrow> str) \<Rightarrow> str list \<Rightarrow> LinkResolver \<Rightarrow> bool" where
  "stems_agree nfc lower ps r \<longleftrightarrow>
     (\<forall>k. mset (case map_of (by_stem r) k of Some qs \<Rightarrow> qs | None \<Rightarrow> [])
          = mset (filter (\<lambda>p. stem_key nfc lower p = k) ps))"

definition paths_agree :: "(str \<Rightarrow> str) \<Rightarrow> (str \<Rightarrow> str) \<Rightarrow> str list \<Rightarrow> LinkResolver \<Rightarrow> bool" where
  "paths_agree nfc lower ps r \<longleftrightarrow>
     (\<forall>k. map_of (by_path r) k = None \<longleftrightarrow> \<not> (\<exists>p \<in> set ps. path_key nfc lower p = k))
     \<and> (\<forall>k p. map_of (by_path r) k = Some p \<longrightarrow> p \<in> set ps \<and> path_key nfc lower p = k)"

definition no_collision :: "(str \<Rightarrow> str) \<Rightarrow> (str \<Rightarrow> str) \<Rightarrow> str list \<Rightarrow> bool" where
  "no_collision nfc lower ps \<longleftrightarrow> distinct (map (path_key nfc lower) ps)"

lemma stems_insert:
  "stems_agree nfc lower ps r \<Longrightarrow> stems_agree nfc lower (ps @ [p]) (resolver_insert nfc lower p r)"
  by (auto simp: stems_agree_def resolver_insert_def Let_def update_conv' split: option.splits)

lemma paths_insert:
  "paths_agree nfc lower ps r \<Longrightarrow> paths_agree nfc lower (ps @ [p]) (resolver_insert nfc lower p r)"
  by (auto simp: paths_agree_def resolver_insert_def Let_def update_conv')

lemma stems_remove:
  assumes "stems_agree nfc lower ps r"
  shows "stems_agree nfc lower (filter (\<lambda>q. q \<noteq> p) ps) (remove_path nfc lower p r)"
proof -
  let ?key = "stem_key nfc lower"
  let ?get = "\<lambda>r k. case map_of (by_stem r) k of Some qs \<Rightarrow> qs | None \<Rightarrow> []"
  have g: "?get (remove_path nfc lower p r) k = (if k = ?key p then filter (\<lambda>q. q \<noteq> p) (?get r k) else ?get r k)" for k
    by (auto simp: remove_path_def Let_def update_conv' delete_conv' split: option.splits)
  show ?thesis
    unfolding stems_agree_def
  proof
    fix k
    have m: "mset (?get r k) = mset (filter (\<lambda>q. ?key q = k) ps)" using assms by (simp add: stems_agree_def)
    have "filter (\<lambda>q. ?key q = k) (filter (\<lambda>q. q \<noteq> p) ps) =
        (if k = ?key p then filter (\<lambda>q. q \<noteq> p) (filter (\<lambda>q. ?key q = k) ps) else filter (\<lambda>q. ?key q = k) ps)"
      by (auto simp: filter_filter conj_commute intro!: filter_cong)
    then show "mset (?get (remove_path nfc lower p r) k) = mset (filter (\<lambda>q. ?key q = k) (filter (\<lambda>q. q \<noteq> p) ps))"
      unfolding g using m by (cases "k = ?key p") (simp_all only: mset_filter if_True if_False refl)
  qed
qed

lemma paths_remove:
  assumes "paths_agree nfc lower ps r" and "no_collision nfc lower ps" and "p \<in> set ps"
  shows "paths_agree nfc lower (filter (\<lambda>q. q \<noteq> p) ps) (remove_path nfc lower p r)"
proof -
  have b: "map_of (by_path (remove_path nfc lower p r)) k =
      (if k = path_key nfc lower p then None else map_of (by_path r) k)" for k
    by (auto simp: remove_path_def Let_def delete_conv' split: option.splits)
  have "q = p" if "q \<in> set ps" "path_key nfc lower q = path_key nfc lower p" for q
    using assms(2,3) that by (auto simp: no_collision_def distinct_map inj_on_def)
  then show ?thesis using assms(1) unfolding paths_agree_def b by (auto split: if_splits)
qed

section \<open>Resolution against the set of notes\<close>

text \<open>Obsidian's rule on the list of notes: a target with a slash names a path, one without a slash
  names the only note with that stem.\<close>

definition resolve_spec :: "(str \<Rightarrow> str) \<Rightarrow> (str \<Rightarrow> str) \<Rightarrow> str list \<Rightarrow> str \<Rightarrow> str option" where
  "resolve_spec nfc lower ps target =
     (let k = normalize_target nfc lower target in
      if k = [] then None
      else if slash \<in> set k then List.find (\<lambda>p. path_key nfc lower p = k) ps
      else case filter (\<lambda>p. stem_key nfc lower p = k) ps of [p] \<Rightarrow> Some p | _ \<Rightarrow> None)"

lemma mset_single_list: "mset xs = mset ys \<Longrightarrow>
  (case xs of [x] \<Rightarrow> Some x | _ \<Rightarrow> None) = (case ys of [y] \<Rightarrow> Some y | _ \<Rightarrow> None)"
proof -
  assume e: "mset xs = mset ys"
  then have "length xs = length ys" by (metis size_mset)
  then show ?thesis using e
    by (cases xs; cases ys; cases "tl xs"; cases "tl ys") auto
qed

lemma resolve_agrees:
  assumes "stems_agree nfc lower ps r" and "paths_agree nfc lower ps r" and "no_collision nfc lower ps"
  shows "resolve nfc lower r t = resolve_spec nfc lower ps t"
proof -
  let ?k = "normalize_target nfc lower t"
  have "map_of (by_path r) ?k = List.find (\<lambda>p. path_key nfc lower p = ?k) ps"
  proof (cases "map_of (by_path r) ?k")
    case None
    then have "\<not> (\<exists>p \<in> set ps. path_key nfc lower p = ?k)" using assms(2) unfolding paths_agree_def by blast
    then have "List.find (\<lambda>p. path_key nfc lower p = ?k) ps = None" unfolding find_None_iff by blast
    with None show ?thesis by (simp only:)
  next
    case (Some p)
    with assms(2) have p: "p \<in> set ps" "path_key nfc lower p = ?k"
      by (simp_all add: paths_agree_def del: map_of_eq_Some_iff)
    then obtain q where q: "List.find (\<lambda>p. path_key nfc lower p = ?k) ps = Some q"
      by (cases "List.find (\<lambda>p. path_key nfc lower p = ?k) ps") (auto simp: find_None_iff)
    then have "q \<in> set ps" "path_key nfc lower q = ?k" by (auto simp: find_Some_iff)
    with p assms(3) have "q = p" by (auto simp: no_collision_def distinct_map inj_on_def)
    with q Some show ?thesis by simp
  qed
  moreover have "(case map_of (by_stem r) ?k of Some [single] \<Rightarrow> Some single | _ \<Rightarrow> None)
      = (case filter (\<lambda>p. stem_key nfc lower p = ?k) ps of [p] \<Rightarrow> Some p | _ \<Rightarrow> None)"
  proof -
    let ?xs = "case map_of (by_stem r) ?k of Some qs \<Rightarrow> qs | None \<Rightarrow> []"
    have "(case map_of (by_stem r) ?k of Some [single] \<Rightarrow> Some single | _ \<Rightarrow> None)
        = (case ?xs of [x] \<Rightarrow> Some x | _ \<Rightarrow> None)"
      by (cases "map_of (by_stem r) ?k") simp_all
    also have "\<dots> = (case filter (\<lambda>p. stem_key nfc lower p = ?k) ps of [p] \<Rightarrow> Some p | _ \<Rightarrow> None)"
      using assms(1) unfolding stems_agree_def by (intro mset_single_list) blast
    finally show ?thesis .
  qed
  ultimately show ?thesis by (simp add: resolve_def resolve_spec_def Let_def)
qed

lemma fold_insert_agrees:
  "stems_agree nfc lower ps r \<Longrightarrow> paths_agree nfc lower ps r \<Longrightarrow>
   stems_agree nfc lower (ps @ qs) (fold (resolver_insert nfc lower) qs r)
   \<and> paths_agree nfc lower (ps @ qs) (fold (resolver_insert nfc lower) qs r)"
proof (induction qs arbitrary: ps r)
  case (Cons q qs)
  from Cons.IH [OF stems_insert [OF Cons.prems(1)] paths_insert [OF Cons.prems(2)], of q] show ?case by simp
qed simp

lemma build_agrees:
  "stems_agree nfc lower ps (build_link_resolver nfc lower ps)
   \<and> paths_agree nfc lower ps (build_link_resolver nfc lower ps)"
  using fold_insert_agrees [of nfc lower "[]" empty_resolver ps]
  by (simp add: build_link_resolver_def empty_resolver_def stems_agree_def paths_agree_def)

section \<open>Properties\<close>

text \<open> Property C20. Link resolution implements the rule on the set of notes, and moving a note keeps it:
  when no two notes have the same case-folded path, the built resolver resolves every target as
  the rule says, and so does the resolver updated in place by a rename, exactly like one rebuilt
  from scratch.\<close>

theorem resolver_rename_refines:
  assumes "no_collision nfc lower ps" and "old \<in> set ps"
    and "path_key nfc lower new \<notin> path_key nfc lower ` (set ps - {old})"
  shows "resolve nfc lower (build_link_resolver nfc lower ps) t = resolve_spec nfc lower ps t
    \<and> resolve nfc lower (rename_path nfc lower old new (build_link_resolver nfc lower ps)) t
        = resolve_spec nfc lower (filter (\<lambda>p. p \<noteq> old) ps @ [new]) t
    \<and> resolve nfc lower (rename_path nfc lower old new (build_link_resolver nfc lower ps)) t
        = resolve nfc lower (build_link_resolver nfc lower (filter (\<lambda>p. p \<noteq> old) ps @ [new])) t"
proof -
  let ?ps = "filter (\<lambda>p. p \<noteq> old) ps @ [new]"
  note b = build_agrees [of nfc lower ps]
  have n: "no_collision nfc lower ?ps"
    using assms(1,3) by (auto simp: no_collision_def distinct_map_filter)
  have "stems_agree nfc lower ?ps (rename_path nfc lower old new (build_link_resolver nfc lower ps))"
    unfolding rename_path_def by (intro stems_insert stems_remove conjunct1 [OF b])
  moreover have "paths_agree nfc lower ?ps (rename_path nfc lower old new (build_link_resolver nfc lower ps))"
    unfolding rename_path_def by (intro paths_insert paths_remove conjunct2 [OF b] assms(1,2))
  ultimately show ?thesis
    using resolve_agrees n b build_agrees [of nfc lower ?ps] assms(1) by metis
qed

theorem resolver_rename_refines_witness:
  "resolve id to_ascii_lowercase
     (rename_path id to_ascii_lowercase ''a.md'' ''d/c.md''
        (build_link_resolver id to_ascii_lowercase [''a.md'', ''b.md''])) ''C'' = Some ''d/c.md''"
proof -
  have n: "no_collision id to_ascii_lowercase [''a.md'', ''b.md'']" by code_simp
  have k: "path_key id to_ascii_lowercase ''d/c.md'' \<notin> path_key id to_ascii_lowercase ` (set [''a.md'', ''b.md''] - {''a.md''})"
    by code_simp
  have s: "resolve_spec id to_ascii_lowercase (filter (\<lambda>p. p \<noteq> ''a.md'') [''a.md'', ''b.md''] @ [''d/c.md'']) ''C'' = Some ''d/c.md''"
    by code_simp
  from resolver_rename_refines [OF n _ k, of "''C''"] s show ?thesis by simp
qed

text \<open> Property C40. A resolver forgets a surviving note when a note whose path has the same case-folded
  key is removed: the path table has one entry for both, and removing either deletes it. So every
  target that names that key with a slash no longer resolves, although a resolver rebuilt from the
  remaining notes resolves it to one of them.\<close>

theorem resolver_remove_collision:
  assumes "p \<in> set ps" and "q \<in> set ps" and "p \<noteq> q" and "path_key nfc lower p = path_key nfc lower q"
    and "normalize_target nfc lower t = path_key nfc lower p" and "slash \<in> set (path_key nfc lower p)"
  shows "resolve nfc lower (remove_path nfc lower p (build_link_resolver nfc lower ps)) t = None
    \<and> (\<exists>s \<in> set ps. s \<noteq> p \<and> path_key nfc lower s = path_key nfc lower p
         \<and> resolve nfc lower (build_link_resolver nfc lower (filter (\<lambda>s. s \<noteq> p) ps)) t = Some s)"
proof -
  let ?k = "path_key nfc lower p"
  let ?ps = "filter (\<lambda>s. s \<noteq> p) ps"
  have by_key: "resolve nfc lower r t = map_of (by_path r) ?k" for r
    using assms(5,6) by (auto simp: resolve_def Let_def)
  have "map_of (by_path (remove_path nfc lower p r)) ?k = None" for r
    by (auto simp: remove_path_def Let_def delete_conv' split: option.splits)
  moreover have "paths_agree nfc lower ?ps (build_link_resolver nfc lower ?ps)" using build_agrees by blast
  then have agree: "map_of (by_path (build_link_resolver nfc lower ?ps)) ?k = None \<longleftrightarrow> \<not> (\<exists>s \<in> set ?ps. path_key nfc lower s = ?k)"
    "\<And>s. map_of (by_path (build_link_resolver nfc lower ?ps)) ?k = Some s \<Longrightarrow> s \<in> set ?ps \<and> path_key nfc lower s = ?k"
    unfolding paths_agree_def by blast+
  have "q \<in> set ?ps" "path_key nfc lower q = ?k" using assms(2,3,4) by simp_all
  with agree(1) obtain s where s: "map_of (by_path (build_link_resolver nfc lower ?ps)) ?k = Some s" by blast
  moreover have "s \<in> set ps" "s \<noteq> p" "path_key nfc lower s = ?k" using agree(2) [OF s] by simp_all
  ultimately show ?thesis unfolding by_key by blast
qed

theorem resolver_remove_collision_witness:
  "resolve id to_ascii_lowercase
     (remove_path id to_ascii_lowercase ''d/A.md'' (build_link_resolver id to_ascii_lowercase [''d/a.md'', ''d/A.md''])) ''d/a'' = None
   \<and> (\<exists>s. resolve id to_ascii_lowercase (build_link_resolver id to_ascii_lowercase [''d/a.md'']) ''d/a'' = Some s)"
proof -
  have k: "path_key id to_ascii_lowercase ''d/A.md'' = path_key id to_ascii_lowercase ''d/a.md''"
    "normalize_target id to_ascii_lowercase ''d/a'' = path_key id to_ascii_lowercase ''d/A.md''"
    "slash \<in> set (path_key id to_ascii_lowercase ''d/A.md'')" by code_simp+
  have "filter (\<lambda>s. s \<noteq> ''d/A.md'') [''d/a.md'', ''d/A.md''] = [''d/a.md'']" by code_simp
  with resolver_remove_collision [OF _ _ _ k, of "[''d/a.md'', ''d/A.md'']"] show ?thesis by auto
qed

end
