(* ===== verification/Index.thy ===== *)
theory Index
  imports Links Exclude Markdown
begin

text \<open>
  The in-memory index (src/src/vault/index.rs): note metadata, the tag and backlink tables, inventory
  totals, watched path prefixes, and the operations that keep them current, on hash maps as
  association lists with distinct keys and hash sets as sets.

  The record \<open>deps\<close> bundles the third-party parameters: Unicode tables, the YAML and Markdown
  parsers, the tag expression, and the digest of a source text. The lexical index and the
  filesystem are seen through the results of their calls, which are arguments. Sizes in bytes are
  \<^verbatim>\<open>u64\<close> and subtraction wraps; counts of objects in memory cannot reach \<open>2 ^ 64\<close>.
\<close>

record deps =
  d_nfc :: "str \<Rightarrow> str"
  d_lower :: "str \<Rightarrow> str"
  d_upper :: "str \<Rightarrow> str"
  d_yaml :: "str \<Rightarrow> str + json"
  d_json :: "json \<Rightarrow> str"
  d_events :: md_parser
  d_tags :: "str \<Rightarrow> (nat \<times> nat) list"
  d_revision :: "str \<Rightarrow> str"

record FileStat =
  fsize :: nat
  created :: "int option"
  modified :: "int option"

record NoteMetadata =
  npath :: str
  title :: str
  ntags :: "str list"
  frontmatter :: "json option"
  nheadings :: "(nat \<times> str \<times> nat) list"
  links :: "WikiLink list"
  nblock_refs :: "str list"
  stat :: FileStat

record VaultStats =
  total_notes :: nat
  total_files :: nat
  total_tags :: nat
  total_links :: nat
  vault_size_bytes :: nat
  excluded_notes :: nat

type_synonym WatchPaths = "((str \<times> str) \<times> nat) list"

record 's VaultIndex =
  "notes" :: "NoteMetadata table"
  source_revisions :: "str table"
  tags :: "str set table"
  link_resolver :: LinkResolver
  backlinks :: "str set table"
  stats :: VaultStats
  attachments :: "nat table"
  attachment_bytes :: nat
  read_contents :: "str table option"
  exclude :: "'s ExcludeSet"
  excluded_note_paths :: "str set"
  source_batch :: bool
  watch_paths :: "WatchPaths option"
  waiting_for_lexical :: "nat table"

definition empty_index :: "'s ExcludeSet \<Rightarrow> 's VaultIndex" where
  "empty_index ex =
     \<lparr> notes = [], source_revisions = [], tags = [], link_resolver = empty_resolver, backlinks = [],
       stats = \<lparr> total_notes = 0, total_files = 0, total_tags = 0, total_links = 0,
                 vault_size_bytes = 0, excluded_notes = 0 \<rparr>,
       attachments = [], attachment_bytes = 0, read_contents = None, exclude = ex,
       excluded_note_paths = {}, source_batch = False, watch_paths = None, waiting_for_lexical = [] \<rparr>"

section \<open>Classification and metadata\<close>

definition is_markdown :: "str \<Rightarrow> bool" where
  "is_markdown path =
     (case logical_file_name path of
        None \<Rightarrow> False
      | Some name \<Rightarrow>
          (case rsplit_once dot name of
             None \<Rightarrow> False
           | Some (stem, ext) \<Rightarrow> stem \<noteq> [] \<and> eq_ignore_ascii_case ext ''md''))"

datatype FileClass = Note | Excluded | Attachment

definition classify :: "('s \<Rightarrow> str \<Rightarrow> bool) \<Rightarrow> str \<Rightarrow> 's ExcludeSet \<Rightarrow> FileClass" where
  "classify set_match path ex =
     (if \<not> is_markdown path then Attachment
      else if is_excluded set_match ex path then Excluded else Note)"

definition inventory_size_error :: "str \<Rightarrow> vault_error" where
  "inventory_size_error path =
     Storage ''index observation'' path ResourceLimit
       ''aggregate source byte size exceeds the supported u64 range'' NotDispatched"

text \<open>\<^verbatim>\<open>parse_frontmatter\<close> fails only with \<^verbatim>\<open>VaultError::Other\<close>, whose text is its message.\<close>

fun other_text :: "vault_error \<Rightarrow> str" where
  "other_text (Other m) = m"
| "other_text _ = []"

definition parse_note_metadata :: "deps \<Rightarrow> str \<Rightarrow> str \<Rightarrow> FileStat \<Rightarrow> NoteMetadata vault_result" where
  "parse_note_metadata env path content st =
     try_bind (map_err (\<lambda>e. storage_error ''parse frontmatter'' path InvalidSource (other_text e))
                (parse_frontmatter (d_yaml env) content)) (\<lambda>fm.
       let fm_tags = (case fm of Some v \<Rightarrow> extract_frontmatter_tags (d_json env) v | None \<Rightarrow> []);
           inline_tags = extract_inline_tags (d_events env) (d_tags env) content
       in Inr \<lparr> npath = path,
                title = (case logical_file_stem path of Some t \<Rightarrow> t | None \<Rightarrow> []),
                ntags = remdups_adj (sort (fm_tags @ inline_tags)),
                frontmatter = fm,
                nheadings = extract_headings (d_events env) content,
                links = extract_wikilinks (d_events env) content,
                nblock_refs = extract_block_refs (d_events env) content,
                stat = st \<rparr>)"

section \<open>Watched prefixes\<close>

definition path_prefixes :: "str \<Rightarrow> str list" where
  "path_prefixes p = map (\<lambda>k. join_with ''/'' (take k (names_of p))) (rev [1..<length (names_of p) + 1])"

definition watch_keys :: "deps \<Rightarrow> str \<Rightarrow> (str \<times> str) list" where
  "watch_keys env p = map (\<lambda>q. (d_upper env (d_nfc env q), q)) (path_prefixes p)"

definition watch_insert :: "deps \<Rightarrow> str \<Rightarrow> WatchPaths \<Rightarrow> WatchPaths" where
  "watch_insert env p w =
     fold (\<lambda>k w. AList.update k ((case map_of w k of Some n \<Rightarrow> n | None \<Rightarrow> 0) + 1) w) (watch_keys env p) w"

definition watch_drop :: "str \<times> str \<Rightarrow> WatchPaths \<Rightarrow> WatchPaths" where
  "watch_drop k w =
     (case map_of w k of
        None \<Rightarrow> w
      | Some n \<Rightarrow> if wrap_sub n 1 = 0 then AList.delete k w else AList.update k (wrap_sub n 1) w)"

definition watch_remove :: "deps \<Rightarrow> str \<Rightarrow> WatchPaths \<Rightarrow> WatchPaths" where
  "watch_remove env p w = fold watch_drop (watch_keys env p) w"

section \<open>Tracked paths and graph\<close>

definition tracks :: "'s VaultIndex \<Rightarrow> str \<Rightarrow> bool" where
  "tracks ix path \<longleftrightarrow>
     (let p = logical_separators path in
      map_of (notes ix) p \<noteq> None \<or> p \<in> excluded_note_paths ix \<or> map_of (attachments ix) p \<noteq> None)"

definition track_watch_path :: "deps \<Rightarrow> str \<Rightarrow> 's VaultIndex \<Rightarrow> 's VaultIndex" where
  "track_watch_path env path ix = ix \<lparr> watch_paths := map_option (watch_insert env path) (watch_paths ix) \<rparr>"

text \<open>The keys of a link list in the backlink table: the notes its targets resolve to.\<close>

definition link_keys :: "deps \<Rightarrow> LinkResolver \<Rightarrow> WikiLink list \<Rightarrow> str list" where
  "link_keys env r ls =
     List.map_filter (\<lambda>l. if target l = [] then None else resolve (d_nfc env) (d_lower env) r (target l)) ls"

definition rebuild_backlinks :: "deps \<Rightarrow> 's VaultIndex \<Rightarrow> 's VaultIndex" where
  "rebuild_backlinks env ix =
     ix \<lparr> backlinks := fold (\<lambda>(p, n). fold (\<lambda>k. mm_insert k p) (link_keys env (link_resolver ix) (links n)))
                         (notes ix) [] \<rparr>"

definition update_backlinks_for_file ::
  "deps \<Rightarrow> str \<Rightarrow> WikiLink list option \<Rightarrow> 's VaultIndex \<Rightarrow> 's VaultIndex" where
  "update_backlinks_for_file env path old_links ix =
     (let r = link_resolver ix;
          b1 = fold (\<lambda>k. mm_remove k path)
                 (case old_links of Some old \<Rightarrow> link_keys env r old | None \<Rightarrow> []) (backlinks ix);
          b2 = fold (\<lambda>k. mm_insert k path)
                 (case map_of (notes ix) path of Some n \<Rightarrow> link_keys env r (links n) | None \<Rightarrow> []) b1
      in ix \<lparr> backlinks := b2 \<rparr>)"

definition recompute_stats :: "'s VaultIndex \<Rightarrow> 's VaultIndex" where
  "recompute_stats ix =
     ix \<lparr> stats := \<lparr> total_notes = length (notes ix),
                    total_files = length (notes ix) + length (attachments ix),
                    total_tags = length (tags ix),
                    total_links = table_sum (\<lambda>n. length (links n)) (notes ix),
                    vault_size_bytes = table_sum (\<lambda>n. fsize (stat n)) (notes ix) + attachment_bytes ix,
                    excluded_notes = card (excluded_note_paths ix) \<rparr> \<rparr>"

text \<open>\<^verbatim>\<open>remove_note_contributions\<close>: the first pass shrinks the sets and notes the emptied tags, the
  second deletes those entries.\<close>

definition shrink_tag :: "deps \<Rightarrow> str \<Rightarrow> str \<Rightarrow> str set table \<times> str list \<Rightarrow> str set table \<times> str list" where
  "shrink_tag env path tag te =
     (let (t, empties) = te; k = d_lower env tag in
      case map_of t k of
        None \<Rightarrow> te
      | Some s \<Rightarrow> (AList.update k (s - {path}) t, if s - {path} = {} then empties @ [k] else empties))"

definition remove_note_contributions ::
  "deps \<Rightarrow> str \<Rightarrow> 's VaultIndex \<Rightarrow> NoteMetadata option \<times> 's VaultIndex" where
  "remove_note_contributions env path ix =
     (case map_of (notes ix) path of
        None \<Rightarrow> (None, ix)
      | Some old \<Rightarrow>
          let ns = AList.delete path (notes ix);
              (t, empties) = fold (shrink_tag env path) (ntags old) (tags ix, []);
              t' = fold AList.delete empties t;
              s = stats ix
          in (Some old,
              ix \<lparr> notes := ns, tags := t',
                   stats := s \<lparr> total_notes := length ns,
                               total_files := length ns + length (attachments ix),
                               total_tags := length t',
                               total_links := wrap_sub (total_links s) (length (links old)),
                               vault_size_bytes := wrap_sub (vault_size_bytes s) (fsize (stat old)) \<rparr> \<rparr>))"

definition drop_attachment :: "str \<Rightarrow> 's VaultIndex \<Rightarrow> 's VaultIndex" where
  "drop_attachment p ix =
     (case map_of (attachments ix) p of
        None \<Rightarrow> ix
      | Some sz \<Rightarrow>
          ix \<lparr> attachments := AList.delete p (attachments ix),
               attachment_bytes := wrap_sub (attachment_bytes ix) sz,
               stats := (stats ix) \<lparr> total_files := wrap_sub (total_files (stats ix)) 1,
                                    vault_size_bytes := wrap_sub (vault_size_bytes (stats ix)) sz \<rparr> \<rparr>)"

text \<open>\<^verbatim>\<open>remove_file\<close>, up to the note's own contributions.\<close>

definition forget_path :: "deps \<Rightarrow> str \<Rightarrow> 's VaultIndex \<Rightarrow> 's VaultIndex" where
  "forget_path env path ix0 =
     (let ix1 = ix0 \<lparr> source_revisions := AList.delete path (source_revisions ix0) \<rparr>;
          ix2 = (if tracks ix1 path
                 then ix1 \<lparr> watch_paths := map_option (watch_remove env path) (watch_paths ix1) \<rparr> else ix1);
          ix3 = ix2 \<lparr> waiting_for_lexical := AList.delete path (waiting_for_lexical ix2) \<rparr>;
          ix4 = (if path \<in> excluded_note_paths ix3
                 then ix3 \<lparr> excluded_note_paths := excluded_note_paths ix3 - {path},
                            stats := (stats ix3) \<lparr> excluded_notes := wrap_sub (excluded_notes (stats ix3)) 1 \<rparr> \<rparr>
                 else ix3)
      in drop_attachment path ix4)"

definition remove_file :: "deps \<Rightarrow> str \<Rightarrow> 's VaultIndex \<Rightarrow> 's VaultIndex" where
  "remove_file env path0 ix0 =
     (let path = logical_separators path0;
          (old, ix6) = remove_note_contributions env path (forget_path env path ix0)
      in case old of
           None \<Rightarrow> ix6
         | Some _ \<Rightarrow>
             let ix7 = ix6 \<lparr> link_resolver := remove_path (d_nfc env) (d_lower env) path (link_resolver ix6),
                             backlinks := AList.delete path (backlinks ix6) \<rparr>
             in if source_batch ix7 then ix7 else rebuild_backlinks env ix7)"

definition replace_note :: "deps \<Rightarrow> str \<Rightarrow> NoteMetadata \<Rightarrow> nat \<Rightarrow> 's VaultIndex \<Rightarrow> 's VaultIndex" where
  "replace_note env path metadata total_bytes ix0 =
     (let ix1 = ix0 \<lparr> waiting_for_lexical := AList.delete path (waiting_for_lexical ix0) \<rparr>;
          was_existing = (map_of (notes ix1) path \<noteq> None);
          ix2 = (if \<not> tracks ix1 path then track_watch_path env path ix1 else ix1);
          ix3 = ix2 \<lparr> excluded_note_paths := excluded_note_paths ix2 - {path} \<rparr>;
          ix4 = (case map_of (attachments ix3) path of
                   None \<Rightarrow> ix3
                 | Some sz \<Rightarrow> ix3 \<lparr> attachments := AList.delete path (attachments ix3),
                                    attachment_bytes := wrap_sub (attachment_bytes ix3) sz \<rparr>);
          (old_note, ix5) = remove_note_contributions env path ix4;
          tags' = fold (\<lambda>k. mm_insert k path) (map (d_lower env) (ntags metadata)) (tags ix5);
          notes' = AList.update path metadata (notes ix5);
          s = stats ix5;
          ix6 = ix5 \<lparr> tags := tags', notes := notes',
                      stats := s \<lparr> total_links := total_links s + length (links metadata),
                                  total_notes := length notes',
                                  total_files := length notes' + length (attachments ix5),
                                  total_tags := length tags',
                                  excluded_notes := card (excluded_note_paths ix5),
                                  vault_size_bytes := total_bytes \<rparr> \<rparr>;
          ix7 = (if was_existing then ix6
                 else ix6 \<lparr> link_resolver := add_path (d_nfc env) (d_lower env) path (link_resolver ix6) \<rparr>)
      in if source_batch ix7 then ix7
         else if was_existing then update_backlinks_for_file env path (map_option links old_note) ix7
         else rebuild_backlinks env ix7)"

section \<open>Observations\<close>

definition observed_byte_totals :: "'s VaultIndex \<Rightarrow> str \<Rightarrow> nat \<Rightarrow> bool \<Rightarrow> (nat \<times> nat) vault_result" where
  "observed_byte_totals ix path sz attachment =
     (let old_attachment = (case map_of (attachments ix) path of Some n \<Rightarrow> n | None \<Rightarrow> 0);
          old_size = (case map_of (notes ix) path of Some n \<Rightarrow> fsize (stat n) | None \<Rightarrow> old_attachment)
      in try_bind (ok_or (inventory_size_error path)
            (Option.bind (checked_sub (vault_size_bytes (stats ix)) old_size) (\<lambda>rest. checked_add rest sz)))
         (\<lambda>tot. try_bind (ok_or (inventory_size_error path)
            (Option.bind (checked_sub (attachment_bytes ix) old_attachment)
               (\<lambda>rest. checked_add rest (if attachment then sz else 0))))
         (\<lambda>attachment_total. Inr (tot, attachment_total))))"

definition add_excluded_file :: "deps \<Rightarrow> str \<Rightarrow> 's VaultIndex \<Rightarrow> 's VaultIndex" where
  "add_excluded_file env path0 ix =
     (let path = logical_separators path0 in
      if path \<in> excluded_note_paths ix then ix
      else let ix1 = remove_file env path ix in
           if is_visible_path path \<and> is_markdown path
           then let ix2 = track_watch_path env path ix1
                in ix2 \<lparr> excluded_note_paths := insert path (excluded_note_paths ix2),
                         stats := (stats ix2) \<lparr> excluded_notes := excluded_notes (stats ix2) + 1 \<rparr> \<rparr>
           else ix1)"

text \<open>An operation on \<open>&mut self\<close> returns its result and the index afterwards, also on error.\<close>

definition update_observation ::
  "deps \<Rightarrow> ('s \<Rightarrow> str \<Rightarrow> bool) \<Rightarrow> str \<Rightarrow> str option \<Rightarrow> FileStat \<Rightarrow> 's ExcludeSet \<Rightarrow> 's VaultIndex
     \<Rightarrow> str option vault_result \<times> 's VaultIndex" where
  "update_observation env set_match path content st ex ix =
     (if \<not> is_visible_path path then (Inr None, remove_file env path ix)
      else case classify set_match path ex of
        Note \<Rightarrow>
          (case content of
             None \<Rightarrow> (Inl (Other (''missing content for observed note: '' @ path)), ix)
           | Some text \<Rightarrow>
               if \<not> allows_source (d_yaml env) ex path text then (Inr None, add_excluded_file env path ix)
               else case parse_note_metadata env path text st of
                      Inl e \<Rightarrow> (Inl e, ix)
                    | Inr note \<Rightarrow>
                        (case observed_byte_totals ix path (fsize (stat note)) False of
                           Inl e \<Rightarrow> (Inl e, ix)
                         | Inr (tot, _) \<Rightarrow>
                             let ix1 = replace_note env path note tot ix
                             in (Inr (Some text),
                                 ix1 \<lparr> source_revisions :=
                                   AList.update path (d_revision env text) (source_revisions ix1) \<rparr>)))
      | Excluded \<Rightarrow> (Inr None, add_excluded_file env path ix)
      | Attachment \<Rightarrow>
          (if map_of (attachments ix) path \<noteq> Some (fsize st)
           then case observed_byte_totals ix path (fsize st) True of
                  Inl e \<Rightarrow> (Inl e, ix)
                | Inr (tot, ab) \<Rightarrow>
                    let ix1 = track_watch_path env path (remove_file env path ix)
                    in (Inr None,
                        ix1 \<lparr> attachments := AList.update path (fsize st) (attachments ix1),
                              attachment_bytes := ab,
                              stats := (stats ix1) \<lparr> total_files := total_files (stats ix1) + 1,
                                                    vault_size_bytes := tot \<rparr> \<rparr>)
           else (Inr None, ix)))"

definition refresh_unchanged_note ::
  "str \<Rightarrow> str \<Rightarrow> FileStat \<Rightarrow> 's VaultIndex \<Rightarrow> bool vault_result \<times> 's VaultIndex" where
  "refresh_unchanged_note path revision st ix =
     (case map_of (notes ix) path of
        None \<Rightarrow> (Inr False, ix)
      | Some note \<Rightarrow>
          if map_of (source_revisions ix) path \<noteq> Some revision then (Inr False, ix)
          else case observed_byte_totals ix path (fsize st) False of
                 Inl e \<Rightarrow> (Inl e, ix \<lparr> source_revisions := AList.delete path (source_revisions ix) \<rparr>)
               | Inr (tot, _) \<Rightarrow>
                   (Inr True, ix \<lparr> notes := AList.update path (note \<lparr> stat := st \<rparr>) (notes ix),
                                   stats := (stats ix) \<lparr> vault_size_bytes := tot \<rparr> \<rparr>))"

text \<open>The lexical index as it answers during one call: the stamp of a staged document, and the
  outcome of a staged removal.\<close>

record lexical =
  lex_replace :: "nat vault_result"
  lex_remove :: "unit vault_result"

fun is_resource_limit :: "vault_error \<Rightarrow> bool" where
  "is_resource_limit (Storage _ _ k _ _) = (k = ResourceLimit)"
| "is_resource_limit _ = False"

definition sync_lexical ::
  "str \<Rightarrow> bool \<Rightarrow> str option vault_result \<Rightarrow> lexical option \<Rightarrow> bool \<Rightarrow> 's VaultIndex
     \<Rightarrow> bool vault_result \<times> 's VaultIndex" where
  "sync_lexical path was_note update tantivy embeddings_enabled ix =
     (case (tantivy, update, map_of (notes ix) path) of
        (Some tv, Inr (Some content), Some metadata) \<Rightarrow>
          (case lex_replace tv of
             Inr stamp \<Rightarrow>
               (Inr True,
                if embeddings_enabled
                then ix \<lparr> waiting_for_lexical := AList.update path stamp (waiting_for_lexical ix) \<rparr>
                else ix)
           | Inl e \<Rightarrow> (Inl e, ix))
      | (Some tv, _, _) \<Rightarrow>
          if was_note then (case lex_remove tv of Inr _ \<Rightarrow> (Inr True, ix) | Inl e \<Rightarrow> (Inl e, ix))
          else (Inr False, ix)
      | _ \<Rightarrow> (Inr False, ix))"

definition refused :: "'a vault_result \<Rightarrow> bool" where
  "refused r \<longleftrightarrow> (case r of Inl e \<Rightarrow> is_resource_limit e | Inr _ \<Rightarrow> False)"

definition finish_refresh ::
  "deps \<Rightarrow> str \<Rightarrow> bool \<Rightarrow> str option vault_result \<Rightarrow> lexical option \<Rightarrow> bool \<Rightarrow> (vault_error \<Rightarrow> str)
     \<Rightarrow> 's VaultIndex \<Rightarrow> bool vault_result \<times> 's VaultIndex" where
  "finish_refresh env path was_note update tantivy embeddings_enabled show_error ix =
     (if refused update
      then (map_sum id (\<lambda>_. False) update, ix \<lparr> source_revisions := AList.delete path (source_revisions ix) \<rparr>)
      else
        let ix1 = (if is_ok update then ix else remove_file env path ix);
            (lexical, ix2) = sync_lexical path was_note update tantivy embeddings_enabled ix1;
            ix3 = (if is_ok lexical then ix2 else remove_file env path ix2)
        in (case update of
              Inl error \<Rightarrow>
                (case lexical of
                   Inl cleanup \<Rightarrow>
                     Inl (Other (show_error error @ ''; synchronizing search for '' @ path
                                 @ '' also failed: '' @ show_error cleanup))
                 | Inr _ \<Rightarrow> Inl error)
            | Inr _ \<Rightarrow> lexical, ix3))"

definition apply_observation ::
  "deps \<Rightarrow> ('s \<Rightarrow> str \<Rightarrow> bool) \<Rightarrow> str \<Rightarrow> str option \<Rightarrow> FileStat \<Rightarrow> lexical option \<Rightarrow> bool
     \<Rightarrow> (vault_error \<Rightarrow> str) \<Rightarrow> 's VaultIndex \<Rightarrow> bool vault_result \<times> 's VaultIndex" where
  "apply_observation env set_match path content st tantivy embeddings_enabled show_error ix =
     (let was_note = (map_of (notes ix) path \<noteq> None);
          (update, ix1) = update_observation env set_match path content st (exclude ix) ix
      in finish_refresh env path was_note update tantivy embeddings_enabled show_error ix1)"

definition begin_source_batch :: "'s VaultIndex \<Rightarrow> 's VaultIndex" where
  "begin_source_batch ix = ix \<lparr> source_batch := True \<rparr>"

definition finish_source_batch :: "deps \<Rightarrow> 's VaultIndex \<Rightarrow> 's VaultIndex" where
  "finish_source_batch env ix =
     (let ix1 = ix \<lparr> source_batch := False \<rparr>
      in if source_batch ix then rebuild_backlinks env ix1 else ix1)"

definition remove_projection ::
  "deps \<Rightarrow> str \<Rightarrow> lexical option \<Rightarrow> 's VaultIndex \<Rightarrow> bool vault_result \<times> 's VaultIndex" where
  "remove_projection env path tantivy ix =
     (let was_note = (map_of (notes ix) path \<noteq> None); ix1 = remove_file env path ix in
      case tantivy of
        Some tv \<Rightarrow>
          if was_note then (case lex_remove tv of Inr _ \<Rightarrow> (Inr True, ix1) | Inl e \<Rightarrow> (Inl e, ix1))
          else (Inr False, ix1)
      | None \<Rightarrow> (Inr False, ix1))"

section \<open>Withdrawing a note from the tag table\<close>

lemma shrink_fold:
  assumes "distinct (map fst t)"
    and "fold (shrink_tag env p) ts (t, em) = (t', em')"
  shows "distinct (map fst t')
    \<and> map_of t' k = (if k \<in> d_lower env ` set ts then map_option (\<lambda>s. s - {p}) (map_of t k) else map_of t k)
    \<and> set em' = set em \<union> {k \<in> d_lower env ` set ts. \<exists>s. map_of t k = Some s \<and> s - {p} = {}}"
  using assms
proof (induction ts arbitrary: t em)
  case (Cons tag ts)
  let ?k = "d_lower env tag"
  show ?case
  proof (cases "map_of t ?k")
    case None
    then have s: "shrink_tag env p tag (t, em) = (t, em)" by (simp add: shrink_tag_def)
    from Cons.IH [OF Cons.prems(1)] Cons.prems(2) have i: "distinct (map fst t')
      \<and> map_of t' k = (if k \<in> d_lower env ` set ts then map_option (\<lambda>s. s - {p}) (map_of t k) else map_of t k)
      \<and> set em' = set em \<union> {k \<in> d_lower env ` set ts. \<exists>s. map_of t k = Some s \<and> s - {p} = {}}"
      by (simp only: fold_simps s)
    moreover have "{k \<in> d_lower env ` set (tag # ts). \<exists>s. map_of t k = Some s \<and> s - {p} = {}}
        = {k \<in> d_lower env ` set ts. \<exists>s. map_of t k = Some s \<and> s - {p} = {}}"
      using None by auto
    ultimately show ?thesis using None by (cases "k = ?k") (simp_all del: map_of_eq_Some_iff)
  next
    case (Some s0)
    let ?t1 = "AList.update ?k (s0 - {p}) t" and ?em1 = "if s0 - {p} = {} then em @ [?k] else em"
    have s: "shrink_tag env p tag (t, em) = (?t1, ?em1)" using Some by (simp add: shrink_tag_def Let_def)
    have d: "distinct (map fst ?t1)" using Cons.prems(1) by (rule distinct_update)
    have u: "map_of ?t1 k' = (if k' = ?k then Some (s0 - {p}) else map_of t k')" for k'
      by (simp add: update_conv')
    from Cons.IH [OF d] Cons.prems(2) have i: "distinct (map fst t')
      \<and> map_of t' k = (if k \<in> d_lower env ` set ts then map_option (\<lambda>s. s - {p}) (map_of ?t1 k) else map_of ?t1 k)
      \<and> set em' = set ?em1 \<union> {k \<in> d_lower env ` set ts. \<exists>s. map_of ?t1 k = Some s \<and> s - {p} = {}}"
      by (simp only: fold_simps s)
    moreover have "set ?em1 \<union> {k \<in> d_lower env ` set ts. \<exists>s. map_of ?t1 k = Some s \<and> s - {p} = {}}
        = set em \<union> {k \<in> d_lower env ` set (tag # ts). \<exists>s. map_of t k = Some s \<and> s - {p} = {}}"
      using Some unfolding u by (auto split: if_splits simp del: map_of_eq_Some_iff)
    ultimately show ?thesis using Some unfolding u by (cases "k = ?k") (simp_all del: map_of_eq_Some_iff)
  qed
qed simp

lemma fold_delete: "map_of (fold AList.delete ks t) k = (if k \<in> set ks then None else map_of t k)"
  by (induction ks arbitrary: t) (auto simp: delete_conv')

lemma distinct_fold_delete: "distinct (map fst t) \<Longrightarrow> distinct (map fst (fold AList.delete ks t))"
  by (induction ks arbitrary: t) (auto simp: distinct_delete)

lemma shrink_tags:
  assumes "mm_wf t" and "fold (shrink_tag env p) ts (t, []) = (t', em)"
  shows "mm_wf (fold AList.delete em t')"
    and "mm.rel (fold AList.delete em t') = mm.rel t - (d_lower env ` set ts) \<times> {p}"
proof -
  have d: "distinct (map fst t)" using assms(1) by (simp add: mm_wf_def)
  note f = shrink_fold [OF d assms(2)]
  have m: "map_of (fold AList.delete em t') k =
      (case map_of t k of None \<Rightarrow> None
       | Some s \<Rightarrow> if k \<in> d_lower env ` set ts then (if s - {p} = {} then None else Some (s - {p})) else Some s)" for k
    using f [of k] by (auto simp: fold_delete split: option.splits simp del: map_of_eq_Some_iff)
  have w: "map_of t k = Some s \<Longrightarrow> s \<noteq> {}" for k s using assms(1) unfolding mm_wf_iff by blast
  show "mm_wf (fold AList.delete em t')"
    unfolding mm_wf_iff using distinct_fold_delete f m w
    by (auto split: option.splits if_splits simp del: map_of_eq_Some_iff)
  show "mm.rel (fold AList.delete em t') = mm.rel t - (d_lower env ` set ts) \<times> {p}"
    by (auto simp: mm.rel_def mm_get_def m split: option.splits if_splits simp del: map_of_eq_Some_iff)
qed

section \<open>The invariant\<close>

abbreviation note_paths :: "'s VaultIndex \<Rightarrow> str set" where
  "note_paths ix \<equiv> fst ` set (notes ix)"

abbreviation note_at :: "'s VaultIndex \<Rightarrow> str \<Rightarrow> NoteMetadata" where
  "note_at ix p \<equiv> the (map_of (notes ix) p)"

definition keys_inv :: "'s VaultIndex \<Rightarrow> bool" where
  "keys_inv ix \<longleftrightarrow>
     distinct (map fst (notes ix)) \<and> distinct (map fst (attachments ix))
     \<and> distinct (map fst (source_revisions ix)) \<and> distinct (map fst (waiting_for_lexical ix))
     \<and> (\<forall>p \<in> note_paths ix. is_markdown p \<and> p \<notin> excluded_note_paths ix \<and> backslash \<notin> set p)
     \<and> (\<forall>p \<in> fst ` set (attachments ix). \<not> is_markdown p \<and> backslash \<notin> set p)
     \<and> (\<forall>p \<in> excluded_note_paths ix. is_markdown p \<and> backslash \<notin> set p) \<and> finite (excluded_note_paths ix)
     \<and> fst ` set (source_revisions ix) \<subseteq> note_paths ix
     \<and> fst ` set (waiting_for_lexical ix) \<subseteq> note_paths ix
     \<and> (\<forall>p n. map_of (notes ix) p = Some n \<longrightarrow> npath n = p)"

lemma keys_note:
  "keys_inv ix \<Longrightarrow> p \<in> note_paths ix \<Longrightarrow> is_markdown p \<and> p \<notin> excluded_note_paths ix \<and> backslash \<notin> set p"
  unfolding keys_inv_def by (elim conjE) (drule (1) bspec, assumption)

lemma keys_attachment:
  "keys_inv ix \<Longrightarrow> p \<in> fst ` set (attachments ix) \<Longrightarrow> \<not> is_markdown p \<and> backslash \<notin> set p"
  unfolding keys_inv_def by (elim conjE) (drule (1) bspec, assumption)

definition tags_inv :: "deps \<Rightarrow> 's VaultIndex \<Rightarrow> bool" where
  "tags_inv env ix \<longleftrightarrow>
     mm_wf (tags ix)
     \<and> mm.rel (tags ix) = (\<Union>p \<in> note_paths ix. (d_lower env ` set (ntags (note_at ix p))) \<times> {p})"

definition graph_of :: "deps \<Rightarrow> 's VaultIndex \<Rightarrow> (str \<times> str) set" where
  "graph_of env ix =
     (\<Union>p \<in> note_paths ix. set (link_keys env (link_resolver ix) (links (note_at ix p))) \<times> {p})"

definition links_inv :: "deps \<Rightarrow> 's VaultIndex \<Rightarrow> bool" where
  "links_inv env ix \<longleftrightarrow>
     (\<not> source_batch ix \<longrightarrow> mm_wf (backlinks ix) \<and> mm.rel (backlinks ix) = graph_of env ix)
     \<and> stems_agree (d_nfc env) (d_lower env) (map fst (notes ix)) (link_resolver ix)"

definition count_inv :: "'s VaultIndex \<Rightarrow> bool" where
  "count_inv ix \<longleftrightarrow>
     stats ix = stats (recompute_stats ix) \<and> attachment_bytes ix = table_sum (\<lambda>n. n) (attachments ix)
     \<and> vault_size_bytes (stats ix) \<le> usize_max"

lemma count_inv_alt:
  "count_inv ix \<longleftrightarrow>
     total_notes (stats ix) = length (notes ix)
     \<and> total_files (stats ix) = length (notes ix) + length (attachments ix)
     \<and> total_tags (stats ix) = length (tags ix)
     \<and> total_links (stats ix) = table_sum (\<lambda>n. length (links n)) (notes ix)
     \<and> vault_size_bytes (stats ix) = table_sum (\<lambda>n. fsize (stat n)) (notes ix) + attachment_bytes ix
     \<and> excluded_notes (stats ix) = card (excluded_note_paths ix)
     \<and> attachment_bytes ix = table_sum (\<lambda>n. n) (attachments ix)
     \<and> vault_size_bytes (stats ix) \<le> usize_max"
  by (cases "stats ix") (auto simp: count_inv_def recompute_stats_def)

definition tracked :: "'s VaultIndex \<Rightarrow> str set" where
  "tracked ix = note_paths ix \<union> excluded_note_paths ix \<union> fst ` set (attachments ix)"

definition watch_inv :: "deps \<Rightarrow> 's VaultIndex \<Rightarrow> bool" where
  "watch_inv env ix \<longleftrightarrow>
     (case watch_paths ix of
        None \<Rightarrow> True
      | Some w \<Rightarrow>
          distinct (map fst w)
          \<and> (\<forall>k. map_of w k =
                (let n = card {p \<in> tracked ix. k \<in> set (watch_keys env p)} in if n = 0 then None else Some n)))"

definition index_inv :: "deps \<Rightarrow> 's VaultIndex \<Rightarrow> bool" where
  "index_inv env ix \<longleftrightarrow> keys_inv ix \<and> tags_inv env ix \<and> links_inv env ix \<and> count_inv ix \<and> watch_inv env ix"

lemma logical_separators_plain: "backslash \<notin> set p \<Longrightarrow> logical_separators p = p"
  by (simp add: logical_separators_def split: option.splits)
     (auto simp: to_str_def split: if_splits)

section \<open>Removing a path\<close>

lemma delete_absent: "map_of t k = None \<Longrightarrow> AList.delete k t = t"
  by (simp add: map_of_eq_None_iff)

lemma tracks_plain:
  "backslash \<notin> set p \<Longrightarrow> tracks ix p \<longleftrightarrow> p \<in> tracked ix"
  by (simp only: tracks_def Let_def logical_separators_plain tracked_def map_of_eq_None_iff Un_iff simp_thms) blast

lemma drop_attachment_fields [simp]:
  "notes (drop_attachment p ix) = notes ix"
  "attachments (drop_attachment p ix) = AList.delete p (attachments ix)"
  "excluded_note_paths (drop_attachment p ix) = excluded_note_paths ix"
  "source_revisions (drop_attachment p ix) = source_revisions ix"
  "waiting_for_lexical (drop_attachment p ix) = waiting_for_lexical ix"
  "source_batch (drop_attachment p ix) = source_batch ix"
  "exclude (drop_attachment p ix) = exclude ix"
  "read_contents (drop_attachment p ix) = read_contents ix"
  "link_resolver (drop_attachment p ix) = link_resolver ix"
  "watch_paths (drop_attachment p ix) = watch_paths ix"
  "tags (drop_attachment p ix) = tags ix"
  "backlinks (drop_attachment p ix) = backlinks ix"
  unfolding drop_attachment_def by (cases "map_of (attachments ix) p"; simp add: delete_absent)+

lemma forget_path_fields [simp]:
  "notes (forget_path env p ix) = notes ix"
  "attachments (forget_path env p ix) = AList.delete p (attachments ix)"
  "excluded_note_paths (forget_path env p ix) = excluded_note_paths ix - {p}"
  "source_revisions (forget_path env p ix) = AList.delete p (source_revisions ix)"
  "waiting_for_lexical (forget_path env p ix) = AList.delete p (waiting_for_lexical ix)"
  "source_batch (forget_path env p ix) = source_batch ix"
  "exclude (forget_path env p ix) = exclude ix"
  "read_contents (forget_path env p ix) = read_contents ix"
  "link_resolver (forget_path env p ix) = link_resolver ix"
  "tags (forget_path env p ix) = tags ix"
  "backlinks (forget_path env p ix) = backlinks ix"
  "watch_paths (forget_path env p ix) =
     (if tracks ix p then map_option (watch_remove env p) (watch_paths ix) else watch_paths ix)"
  by (simp_all add: forget_path_def Let_def tracks_def)

lemma remove_contributions_cases:
  assumes "remove_note_contributions env p ix = (old, ix')"
  shows "old = map_of (notes ix) p"
    and "notes ix' = AList.delete p (notes ix)"
    and "attachments ix' = attachments ix" "excluded_note_paths ix' = excluded_note_paths ix"
    and "source_revisions ix' = source_revisions ix" "waiting_for_lexical ix' = waiting_for_lexical ix"
    and "source_batch ix' = source_batch ix" "exclude ix' = exclude ix" "read_contents ix' = read_contents ix"
    and "link_resolver ix' = link_resolver ix" "watch_paths ix' = watch_paths ix" "backlinks ix' = backlinks ix"
    and "attachment_bytes ix' = attachment_bytes ix"
  using assms
  by (cases "map_of (notes ix) p";
      cases "fold (shrink_tag env p) (ntags (the (map_of (notes ix) p))) (tags ix, [])";
      force simp: remove_note_contributions_def Let_def delete_absent)+

lemma rebuild_backlinks_fields [simp]:
  "notes (rebuild_backlinks env ix) = notes ix" "attachments (rebuild_backlinks env ix) = attachments ix"
  "excluded_note_paths (rebuild_backlinks env ix) = excluded_note_paths ix"
  "source_revisions (rebuild_backlinks env ix) = source_revisions ix"
  "waiting_for_lexical (rebuild_backlinks env ix) = waiting_for_lexical ix"
  "source_batch (rebuild_backlinks env ix) = source_batch ix" "exclude (rebuild_backlinks env ix) = exclude ix"
  "read_contents (rebuild_backlinks env ix) = read_contents ix"
  "link_resolver (rebuild_backlinks env ix) = link_resolver ix"
  "watch_paths (rebuild_backlinks env ix) = watch_paths ix" "tags (rebuild_backlinks env ix) = tags ix"
  "stats (rebuild_backlinks env ix) = stats ix" "attachment_bytes (rebuild_backlinks env ix) = attachment_bytes ix"
  by (simp_all add: rebuild_backlinks_def)

lemma remove_file_fields:
  assumes "backslash \<notin> set p"
  shows "notes (remove_file env p ix) = AList.delete p (notes ix)"
    and "attachments (remove_file env p ix) = AList.delete p (attachments ix)"
    and "excluded_note_paths (remove_file env p ix) = excluded_note_paths ix - {p}"
    and "source_revisions (remove_file env p ix) = AList.delete p (source_revisions ix)"
    and "waiting_for_lexical (remove_file env p ix) = AList.delete p (waiting_for_lexical ix)"
    and "source_batch (remove_file env p ix) = source_batch ix"
    and "exclude (remove_file env p ix) = exclude ix"
    and "read_contents (remove_file env p ix) = read_contents ix"
    and "link_resolver (remove_file env p ix) =
       (if map_of (notes ix) p = None then link_resolver ix
        else remove_path (d_nfc env) (d_lower env) p (link_resolver ix))"
    and "watch_paths (remove_file env p ix) =
       (if tracks ix p then map_option (watch_remove env p) (watch_paths ix) else watch_paths ix)"
proof -
  obtain old ix' where r: "remove_note_contributions env p (forget_path env p ix) = (old, ix')"
    by (cases "remove_note_contributions env p (forget_path env p ix)")
  note c = remove_contributions_cases [OF r, simplified]
  note defs = remove_file_def [of env p ix] Let_def logical_separators_plain [OF assms] r
  show "notes (remove_file env p ix) = AList.delete p (notes ix)"
    and "attachments (remove_file env p ix) = AList.delete p (attachments ix)"
    and "excluded_note_paths (remove_file env p ix) = excluded_note_paths ix - {p}"
    and "source_revisions (remove_file env p ix) = AList.delete p (source_revisions ix)"
    and "waiting_for_lexical (remove_file env p ix) = AList.delete p (waiting_for_lexical ix)"
    and "source_batch (remove_file env p ix) = source_batch ix"
    and "exclude (remove_file env p ix) = exclude ix"
    and "read_contents (remove_file env p ix) = read_contents ix"
    and "link_resolver (remove_file env p ix) =
       (if map_of (notes ix) p = None then link_resolver ix
        else remove_path (d_nfc env) (d_lower env) p (link_resolver ix))"
    and "watch_paths (remove_file env p ix) =
       (if tracks ix p then map_option (watch_remove env p) (watch_paths ix) else watch_paths ix)"
    unfolding defs prod.case using c by (cases "map_of (notes ix) p"; simp)+
qed

lemma forget_path_stats:
  "stats (forget_path env p ix) =
     (let s = stats ix;
          s1 = (if p \<in> excluded_note_paths ix then s \<lparr> excluded_notes := wrap_sub (excluded_notes s) 1 \<rparr> else s)
      in case map_of (attachments ix) p of
           None \<Rightarrow> s1
         | Some sz \<Rightarrow> s1 \<lparr> total_files := wrap_sub (total_files s) 1,
                          vault_size_bytes := wrap_sub (vault_size_bytes s) sz \<rparr>)"
  "attachment_bytes (forget_path env p ix) =
     (case map_of (attachments ix) p of None \<Rightarrow> attachment_bytes ix | Some sz \<Rightarrow> wrap_sub (attachment_bytes ix) sz)"
  by (cases "map_of (attachments ix) p"; simp add: forget_path_def Let_def drop_attachment_def)+

lemma remove_contributions_tags:
  assumes "remove_note_contributions env p ix = (old, ix')" and "tags_inv env ix" and "distinct (map fst (notes ix))"
  shows "tags_inv env ix'"
proof (cases "map_of (notes ix) p")
  case None
  with assms show ?thesis by (simp add: remove_note_contributions_def)
next
  case (Some n)
  obtain t em where f: "fold (shrink_tag env p) (ntags n) (tags ix, []) = (t, em)"
    by (cases "fold (shrink_tag env p) (ntags n) (tags ix, [])")
  have ix': "tags ix' = fold AList.delete em t" "notes ix' = AList.delete p (notes ix)"
    using assms(1) Some f by (auto simp: remove_note_contributions_def Let_def)
  have w: "mm_wf (tags ix)" and r: "mm.rel (tags ix) = (\<Union>q \<in> note_paths ix. (d_lower env ` set (ntags (note_at ix q))) \<times> {q})"
    using assms(2) by (auto simp: tags_inv_def)
  note sh = shrink_tags [OF w f]
  have at: "note_at ix' q = note_at ix q" if "q \<noteq> p" for q using that ix'(2) by simp
  have "mm.rel (tags ix') = (\<Union>q \<in> note_paths ix'. (d_lower env ` set (ntags (note_at ix' q))) \<times> {q})"
    unfolding ix'(1) sh(2) r ix'(2) keys_delete using Some at ix'(2)
    by (auto simp: delete_conv')
  with sh(1) ix'(1) show ?thesis by (simp add: tags_inv_def)
qed

lemma remove_contributions_counts:
  assumes "remove_note_contributions env p ix = (old, ix')" and "distinct (map fst (notes ix))"
    and "stats ix = stats (recompute_stats ix)"
  shows "stats ix' = stats (recompute_stats ix') \<and> vault_size_bytes (stats ix') \<le> vault_size_bytes (stats ix)"
proof (cases "map_of (notes ix) p")
  case None
  with assms show ?thesis by (simp add: remove_note_contributions_def)
next
  case (Some n)
  obtain t em where f: "fold (shrink_tag env p) (ntags n) (tags ix, []) = (t, em)"
    by (cases "fold (shrink_tag env p) (ntags n) (tags ix, [])")
  note sums = table_sum_delete [OF assms(2) Some]
  have "total_links (stats ix) = table_sum (\<lambda>n. length (links n)) (notes ix)"
    and "vault_size_bytes (stats ix) = table_sum (\<lambda>n. fsize (stat n)) (notes ix) + attachment_bytes ix"
    and "excluded_notes (stats ix) = card (excluded_note_paths ix)"
    using assms(3) by (simp_all add: recompute_stats_def)
  with sums [of "\<lambda>n. length (links n)"] sums [of "\<lambda>n. fsize (stat n)"] Some f assms(1)
  show ?thesis by (auto simp: remove_note_contributions_def Let_def recompute_stats_def)
qed

lemma rebuild_backlinks_graph:
  "mm_wf (backlinks (rebuild_backlinks env ix))
   \<and> (distinct (map fst (notes ix)) \<longrightarrow> mm.rel (backlinks (rebuild_backlinks env ix)) = graph_of env ix)"
proof -
  let ?f = "\<lambda>(p, n). fold (\<lambda>k. mm_insert k p) (link_keys env (link_resolver ix) (links n))"
  have "mm_wf m \<Longrightarrow> mm_wf (fold ?f ns m) \<and>
      mm.rel (fold ?f ns m) = mm.rel m \<union> (\<Union>(p, n) \<in> set ns. set (link_keys env (link_resolver ix) (links n)) \<times> {p})" for ns m
  proof (induction ns arbitrary: m)
    case (Cons e ns)
    obtain p n where e: "e = (p, n)" by (cases e)
    show ?case using Cons.IH [OF mm.wf_fold_ins [OF Cons.prems]] by (auto simp: e mm.rel_fold_ins)
  qed simp
  from this [of "[]" "notes ix"]
  have w: "mm_wf (backlinks (rebuild_backlinks env ix))"
    and r: "mm.rel (backlinks (rebuild_backlinks env ix))
       = (\<Union>(p, n) \<in> set (notes ix). set (link_keys env (link_resolver ix) (links n)) \<times> {p})"
    by (auto simp: rebuild_backlinks_def mm_wf_def mm.rel_def mm_get_def)
  have "graph_of env ix = (\<Union>(p, n) \<in> set (notes ix). set (link_keys env (link_resolver ix) (links n)) \<times> {p})"
    if "distinct (map fst (notes ix))"
    using that unfolding graph_of_def by (fastforce simp: map_of_is_SomeI)
  with w r show ?thesis by simp
qed

lemma forget_path_counts:
  assumes "keys_inv ix" and "count_inv ix"
  shows "count_inv (forget_path env p ix)"
proof -
  have s: "total_notes (stats ix) = length (notes ix)"
    "total_files (stats ix) = length (notes ix) + length (attachments ix)"
    "total_tags (stats ix) = length (tags ix)"
    "total_links (stats ix) = table_sum (\<lambda>n. length (links n)) (notes ix)"
    "vault_size_bytes (stats ix) = table_sum (\<lambda>n. fsize (stat n)) (notes ix) + attachment_bytes ix"
    "excluded_notes (stats ix) = card (excluded_note_paths ix)"
    using assms(2) by (simp_all add: count_inv_def recompute_stats_def)
  have s7: "attachment_bytes ix = table_sum (\<lambda>n. n) (attachments ix)"
    and s8: "vault_size_bytes (stats ix) \<le> usize_max"
    using assms(2) unfolding count_inv_def by blast+
  have fin: "finite (excluded_note_paths ix)" and d: "distinct (map fst (attachments ix))"
    using assms(1) by (simp_all add: keys_inv_def)
  have ex: "p \<in> excluded_note_paths ix \<Longrightarrow> 1 \<le> card (excluded_note_paths ix)"
    using fin by (metis One_nat_def Suc_leI card_gt_0_iff empty_iff)
  show ?thesis
  proof (cases "map_of (attachments ix) p")
    case None
    with s s7 s8 fin ex show ?thesis
      by (auto simp: count_inv_def recompute_stats_def forget_path_stats Let_def delete_absent card_Diff_singleton)
  next
    case (Some sz)
    note sums = table_sum_delete [OF d Some]
    have "length (attachments ix) = 1 + length (AList.delete p (attachments ix))"
      unfolding length_table by (rule sums)
    moreover have "sz \<le> attachment_bytes ix" "attachment_bytes ix - sz = table_sum (\<lambda>n. n) (AList.delete p (attachments ix))"
      using sums [of "\<lambda>n. n"] s7 by simp_all
    ultimately show ?thesis using Some s s7 s8 fin ex
      by (auto simp: count_inv_def recompute_stats_def forget_path_stats Let_def card_Diff_singleton)
  qed
qed

lemma remove_file_unfold:
  assumes "backslash \<notin> set p"
  obtains ix6 where "remove_note_contributions env p (forget_path env p ix) = (map_of (notes ix) p, ix6)"
    and "remove_file env p ix =
      (if map_of (notes ix) p = None then ix6
       else let ix7 = ix6 \<lparr> link_resolver := remove_path (d_nfc env) (d_lower env) p (link_resolver ix6),
                            backlinks := AList.delete p (backlinks ix6) \<rparr>
            in if source_batch ix7 then ix7 else rebuild_backlinks env ix7)"
proof -
  obtain old ix6 where r: "remove_note_contributions env p (forget_path env p ix) = (old, ix6)"
    by (cases "remove_note_contributions env p (forget_path env p ix)")
  then have o: "old = map_of (notes ix) p" using remove_contributions_cases(1) by fastforce
  show thesis
  proof (rule that)
    show "remove_note_contributions env p (forget_path env p ix) = (map_of (notes ix) p, ix6)" using r o by simp
    show "remove_file env p ix =
      (if map_of (notes ix) p = None then ix6
       else let ix7 = ix6 \<lparr> link_resolver := remove_path (d_nfc env) (d_lower env) p (link_resolver ix6),
                            backlinks := AList.delete p (backlinks ix6) \<rparr>
            in if source_batch ix7 then ix7 else rebuild_backlinks env ix7)"
      unfolding remove_file_def Let_def logical_separators_plain [OF assms] r o prod.case
      by (cases "map_of (notes ix) p") simp_all
  qed
qed

lemma remove_file_keys: "keys_inv ix \<Longrightarrow> backslash \<notin> set p \<Longrightarrow> keys_inv (remove_file env p ix)"
  unfolding keys_inv_def
  by (auto simp: remove_file_fields keys_delete distinct_delete delete_conv' simp del: map_of_eq_Some_iff)

lemma remove_file_tags:
  assumes "tags_inv env ix" and "keys_inv ix" and "backslash \<notin> set p"
  shows "tags_inv env (remove_file env p ix)"
proof -
  obtain ix6 where r: "remove_note_contributions env p (forget_path env p ix) = (map_of (notes ix) p, ix6)"
    and f: "remove_file env p ix =
      (if map_of (notes ix) p = None then ix6
       else let ix7 = ix6 \<lparr> link_resolver := remove_path (d_nfc env) (d_lower env) p (link_resolver ix6),
                            backlinks := AList.delete p (backlinks ix6) \<rparr>
            in if source_batch ix7 then ix7 else rebuild_backlinks env ix7)"
    by (rule remove_file_unfold [OF assms(3)])
  have "tags_inv env (forget_path env p ix)" using assms(1) by (simp add: tags_inv_def)
  moreover have "distinct (map fst (notes (forget_path env p ix)))" using assms(2) by (simp add: keys_inv_def)
  ultimately have "tags_inv env ix6" by (rule remove_contributions_tags [OF r])
  then show ?thesis unfolding f by (simp add: tags_inv_def Let_def)
qed

lemma remove_file_counts:
  assumes "count_inv ix" and "keys_inv ix" and "backslash \<notin> set p"
  shows "count_inv (remove_file env p ix)"
proof -
  obtain ix6 where r: "remove_note_contributions env p (forget_path env p ix) = (map_of (notes ix) p, ix6)"
    and f: "remove_file env p ix =
      (if map_of (notes ix) p = None then ix6
       else let ix7 = ix6 \<lparr> link_resolver := remove_path (d_nfc env) (d_lower env) p (link_resolver ix6),
                            backlinks := AList.delete p (backlinks ix6) \<rparr>
            in if source_batch ix7 then ix7 else rebuild_backlinks env ix7)"
    by (rule remove_file_unfold [OF assms(3)])
  have c: "count_inv (forget_path env p ix)" by (rule forget_path_counts [OF assms(2,1)])
  have d: "distinct (map fst (notes (forget_path env p ix)))" using assms(2) by (simp add: keys_inv_def)
  have s: "stats ix6 = stats (recompute_stats ix6) \<and> vault_size_bytes (stats ix6) \<le> vault_size_bytes (stats (forget_path env p ix))"
    using remove_contributions_counts [OF r d] c unfolding count_inv_def by blast
  have "count_inv ix6"
    using s c remove_contributions_cases(3,13) [OF r] unfolding count_inv_def by (metis le_trans)
  moreover have "count_inv (ix6 \<lparr> link_resolver := a, backlinks := b \<rparr>) = count_inv ix6" for a b
    by (simp add: count_inv_def recompute_stats_def)
  moreover have "count_inv (rebuild_backlinks env ix7) = count_inv ix7" for ix7 :: "'a VaultIndex"
    by (simp add: count_inv_def recompute_stats_def)
  ultimately show ?thesis unfolding f by (simp add: Let_def)
qed

lemma remove_file_links:
  assumes "links_inv env ix" and "keys_inv ix" and "backslash \<notin> set p"
  shows "links_inv env (remove_file env p ix)"
proof -
  obtain ix6 where r: "remove_note_contributions env p (forget_path env p ix) = (map_of (notes ix) p, ix6)"
    and f: "remove_file env p ix =
      (if map_of (notes ix) p = None then ix6
       else let ix7 = ix6 \<lparr> link_resolver := remove_path (d_nfc env) (d_lower env) p (link_resolver ix6),
                            backlinks := AList.delete p (backlinks ix6) \<rparr>
            in if source_batch ix7 then ix7 else rebuild_backlinks env ix7)"
    by (rule remove_file_unfold [OF assms(3)])
  note fields = remove_file_fields [OF assms(3), of env ix]
  have d: "distinct (map fst (notes ix))" using assms(2) by (simp add: keys_inv_def)
  have st: "stems_agree (d_nfc env) (d_lower env) (map fst (notes ix)) (link_resolver ix)"
    using assms(1) by (simp add: links_inv_def)
  have st': "stems_agree (d_nfc env) (d_lower env) (map fst (notes (remove_file env p ix)))
      (link_resolver (remove_file env p ix))"
  proof (cases "map_of (notes ix) p")
    case None
    with st show ?thesis unfolding fields by (simp add: delete_absent)
  next
    case (Some n)
    have "map fst (AList.delete p (notes ix)) = filter (\<lambda>q. q \<noteq> p) (map fst (notes ix))"
      unfolding delete_keys by (simp add: removeAll_filter_not_eq) (metis (mono_tags))
    with stems_remove [OF st, of p] Some show ?thesis unfolding fields by simp
  qed
  moreover have "mm_wf (backlinks (remove_file env p ix))
      \<and> mm.rel (backlinks (remove_file env p ix)) = graph_of env (remove_file env p ix)"
    if "\<not> source_batch (remove_file env p ix)"
  proof (cases "map_of (notes ix) p")
    case None
    with f have "remove_file env p ix = ix6" by simp
    moreover have "notes ix6 = notes ix" "link_resolver ix6 = link_resolver ix" "backlinks ix6 = backlinks ix"
      "source_batch ix6 = source_batch ix"
      using remove_contributions_cases [OF r] None by (simp_all add: delete_absent)
    ultimately show ?thesis using assms(1) that by (simp add: links_inv_def graph_of_def)
  next
    case (Some n)
    let ?ix7 = "ix6 \<lparr> link_resolver := remove_path (d_nfc env) (d_lower env) p (link_resolver ix6),
                            backlinks := AList.delete p (backlinks ix6) \<rparr>"
    have b: "\<not> source_batch ?ix7" using that fields(6) remove_contributions_cases(7) [OF r] by simp
    have e: "remove_file env p ix = rebuild_backlinks env ?ix7" using f Some b by (simp add: Let_def)
    have "distinct (map fst (notes ?ix7))"
      using remove_contributions_cases(2) [OF r] d by (simp add: distinct_delete)
    with rebuild_backlinks_graph [of env ?ix7] show ?thesis unfolding e by (simp add: graph_of_def)
  qed
  ultimately show ?thesis by (simp add: links_inv_def)
qed

section \<open>Watched prefixes count the tracked paths\<close>

definition watch_count :: "deps \<Rightarrow> str set \<Rightarrow> str \<times> str \<Rightarrow> nat" where
  "watch_count env ps k = card {p \<in> ps. k \<in> set (watch_keys env p)}"

definition watch_ok :: "deps \<Rightarrow> str set \<Rightarrow> WatchPaths \<Rightarrow> bool" where
  "watch_ok env ps w \<longleftrightarrow> distinct (map fst w)
     \<and> (\<forall>k. map_of w k = (if watch_count env ps k = 0 then None else Some (watch_count env ps k)))"

lemma watch_inv_alt: "watch_inv env ix \<longleftrightarrow> (case watch_paths ix of None \<Rightarrow> True | Some w \<Rightarrow> watch_ok env (tracked ix) w)"
  by (simp add: watch_inv_def watch_ok_def watch_count_def Let_def cong: option.case_cong)

lemma path_prefixes_distinct: "distinct (watch_keys env p)"
proof -
  let ?ns = "names_of p"
  have inj: "inj_on (\<lambda>k. join_with ''/'' (take k ?ns)) {1..<length ?ns + 1}"
  proof (rule inj_onI)
    fix i j assume a: "i \<in> {1..<length ?ns + 1}" "j \<in> {1..<length ?ns + 1}"
      "join_with ''/'' (take i ?ns) = join_with ''/'' (take j ?ns)"
    have free: "\<forall>w \<in> set ?ns. slash \<notin> set w"
      using split_on_free [of _ "\<lambda>c. c = slash" p] by (auto simp: names_of_def)
    have sp: "split_on (\<lambda>c. c = slash) (join_with ''/'' (take k ?ns)) = take k ?ns" if "k \<in> {1..<length ?ns + 1}" for k
      using that free by (intro split_join) (auto dest: in_set_takeD)
    have "take i ?ns = take j ?ns" by (rule trans [OF sym [OF sp [OF a(1)]] sp [OF a(2), folded a(3)]])
    then have "length (take i ?ns) = length (take j ?ns)" by simp
    with a(1,2) show "i = j" by simp
  qed
  have "distinct (path_prefixes p)"
    unfolding path_prefixes_def distinct_map using inj by (auto simp: inj_on_def)
  then show ?thesis by (auto simp: watch_keys_def distinct_map inj_on_def)
qed

lemma watch_insert_fold:
  "distinct ks \<Longrightarrow> distinct (map fst w) \<Longrightarrow>
   distinct (map fst (fold (\<lambda>k w. AList.update k ((case map_of w k of Some n \<Rightarrow> n | None \<Rightarrow> 0) + 1) w) ks w))
   \<and> map_of (fold (\<lambda>k w. AList.update k ((case map_of w k of Some n \<Rightarrow> n | None \<Rightarrow> 0) + 1) w) ks w) k
      = (if k \<in> set ks then Some ((case map_of w k of Some n \<Rightarrow> n | None \<Rightarrow> 0) + 1) else map_of w k)"
proof (induction ks arbitrary: w)
  case (Cons a ks)
  let ?w = "AList.update a ((case map_of w a of Some n \<Rightarrow> n | None \<Rightarrow> 0) + 1) w"
  have "distinct (map fst ?w)" using Cons.prems(2) by (rule distinct_update)
  with Cons.IH [of ?w] Cons.prems(1) show ?case
    by (cases "k = a") (auto simp: update_conv')
qed simp

lemma watch_drop_map:
  assumes "distinct (map fst w)" and "map_of w k \<noteq> Some 0"
  shows "distinct (map fst (watch_drop k w))"
    and "map_of (watch_drop k w) k' =
      (if k' = k then (case map_of w k of None \<Rightarrow> None | Some n \<Rightarrow> if n = 1 then None else Some (n - 1))
       else map_of w k')"
proof -
  show "distinct (map fst (watch_drop k w))"
    using assms(1) by (auto simp: watch_drop_def distinct_delete distinct_update split: option.splits)
  have n: "map_of w k = Some n \<Longrightarrow> 1 \<le> n" for n using assms(2) by (cases n) auto
  show "map_of (watch_drop k w) k' =
      (if k' = k then (case map_of w k of None \<Rightarrow> None | Some n \<Rightarrow> if n = 1 then None else Some (n - 1))
       else map_of w k')"
  proof (cases "map_of w k")
    case None
    then show ?thesis by (simp add: watch_drop_def)
  next
    case (Some m)
    with n have "1 \<le> m" by blast
    with Some show ?thesis by (simp add: watch_drop_def update_conv' delete_conv')
  qed
qed

lemma watch_remove_fold:
  "distinct ks \<Longrightarrow> distinct (map fst w) \<Longrightarrow> \<forall>k. map_of w k \<noteq> Some 0 \<Longrightarrow>
   distinct (map fst (fold watch_drop ks w))
   \<and> map_of (fold watch_drop ks w) k =
      (if k \<in> set ks then (case map_of w k of None \<Rightarrow> None | Some n \<Rightarrow> if n = 1 then None else Some (n - 1))
       else map_of w k)"
proof (induction ks arbitrary: w)
  case (Cons a ks)
  have z: "map_of w a \<noteq> Some 0" using Cons.prems(3) by blast
  note d = watch_drop_map [OF Cons.prems(2) z]
  have nz: "\<forall>k. map_of (watch_drop a w) k \<noteq> Some 0"
    using Cons.prems(3) unfolding d(2) by (auto split: option.splits if_splits simp del: map_of_eq_Some_iff)
      (metis One_nat_def Suc_pred diff_is_0_eq' le_antisym less_one linorder_not_less neq0_conv)
  from Cons.IH [OF _ d(1) nz] Cons.prems(1) show ?case
    unfolding d(2) by auto
qed simp

lemma watch_count_insert:
  assumes "finite ps" and "p \<notin> ps"
  shows "watch_count env (insert p ps) k = watch_count env ps k + (if k \<in> set (watch_keys env p) then 1 else 0)"
proof (cases "k \<in> set (watch_keys env p)")
  case True
  then have "{q \<in> insert p ps. k \<in> set (watch_keys env q)} = insert p {q \<in> ps. k \<in> set (watch_keys env q)}" by auto
  then show ?thesis unfolding watch_count_def using True assms by simp
next
  case False
  then have "{q \<in> insert p ps. k \<in> set (watch_keys env q)} = {q \<in> ps. k \<in> set (watch_keys env q)}" by auto
  then show ?thesis unfolding watch_count_def using False by simp
qed

lemma watch_ok_insert:
  assumes "watch_ok env ps w" and "finite ps" and "p \<notin> ps"
  shows "watch_ok env (insert p ps) (watch_insert env p w)"
proof -
  have d: "distinct (map fst w)" and m: "map_of w k = (if watch_count env ps k = 0 then None else Some (watch_count env ps k))" for k
    using assms(1) unfolding watch_ok_def by blast+
  note f = watch_insert_fold [OF path_prefixes_distinct d, of env p]
  show ?thesis
    unfolding watch_ok_def watch_insert_def watch_count_insert [OF assms(2,3)]
  proof (intro conjI allI)
    show "distinct (map fst (fold (\<lambda>k w. AList.update k ((case map_of w k of Some n \<Rightarrow> n | None \<Rightarrow> 0) + 1) w) (watch_keys env p) w))"
      using f by blast
    fix k
    show "map_of (fold (\<lambda>k w. AList.update k ((case map_of w k of Some n \<Rightarrow> n | None \<Rightarrow> 0) + 1) w) (watch_keys env p) w) k
       = (if watch_count env ps k + (if k \<in> set (watch_keys env p) then 1 else 0) = 0 then None
          else Some (watch_count env ps k + (if k \<in> set (watch_keys env p) then 1 else 0)))"
      unfolding conjunct2 [OF f] m by simp
  qed
qed

lemma watch_ok_remove:
  assumes "watch_ok env (insert p ps) w" and "finite ps" and "p \<notin> ps"
  shows "watch_ok env ps (watch_remove env p w)"
proof -
  have d: "distinct (map fst w)"
    and m: "map_of w k = (if watch_count env (insert p ps) k = 0 then None else Some (watch_count env (insert p ps) k))" for k
    using assms(1) unfolding watch_ok_def by blast+
  have nz: "\<forall>k. map_of w k \<noteq> Some 0" unfolding m by simp
  note f = watch_remove_fold [OF path_prefixes_distinct d nz, of env p]
  show ?thesis
    unfolding watch_ok_def watch_remove_def
  proof (intro conjI allI)
    show "distinct (map fst (fold watch_drop (watch_keys env p) w))" using f by blast
    fix k
    show "map_of (fold watch_drop (watch_keys env p) w) k
        = (if watch_count env ps k = 0 then None else Some (watch_count env ps k))"
      unfolding conjunct2 [OF f] m watch_count_insert [OF assms(2,3)] by simp
  qed
qed

lemma tracked_finite: "keys_inv ix \<Longrightarrow> finite (tracked ix)"
  by (simp add: tracked_def keys_inv_def)

lemma tracked_remove_file: "backslash \<notin> set p \<Longrightarrow> tracked (remove_file env p ix) = tracked ix - {p}"
  by (auto simp: tracked_def remove_file_fields keys_delete)

lemma remove_file_watch:
  assumes "watch_inv env ix" and "keys_inv ix" and "backslash \<notin> set p"
  shows "watch_inv env (remove_file env p ix)"
proof (cases "p \<in> tracked ix")
  case False
  then have "tracked (remove_file env p ix) = tracked ix" by (simp add: tracked_remove_file [OF assms(3)])
  moreover have "watch_paths (remove_file env p ix) = watch_paths ix"
    using False by (simp add: remove_file_fields [OF assms(3)] tracks_plain [OF assms(3)])
  ultimately show ?thesis using assms(1) by (simp only: watch_inv_alt)
next
  case True
  then have t: "insert p (tracked ix - {p}) = tracked ix" by blast
  show ?thesis
  proof (cases "watch_paths ix")
    case None
    with assms(3) show ?thesis by (simp add: watch_inv_alt remove_file_fields)
  next
    case (Some w)
    with assms(1) have "watch_ok env (insert p (tracked ix - {p})) w" unfolding t by (simp add: watch_inv_alt)
    then have "watch_ok env (tracked ix - {p}) (watch_remove env p w)"
      using tracked_finite [OF assms(2)] by (intro watch_ok_remove) auto
    with Some True assms(3) show ?thesis
      by (simp add: watch_inv_alt remove_file_fields tracks_plain tracked_remove_file)
  qed
qed

lemmas remove_file_parts = remove_file_keys remove_file_tags remove_file_links remove_file_counts remove_file_watch

lemma remove_file_inv: "index_inv env ix \<Longrightarrow> backslash \<notin> set p \<Longrightarrow> index_inv env (remove_file env p ix)"
  by (simp add: index_inv_def remove_file_parts)

section \<open>Adding an excluded note, an attachment\<close>

lemma track_watch_path_fields [simp]:
  "notes (track_watch_path env p ix) = notes ix" "attachments (track_watch_path env p ix) = attachments ix"
  "excluded_note_paths (track_watch_path env p ix) = excluded_note_paths ix"
  "source_revisions (track_watch_path env p ix) = source_revisions ix"
  "waiting_for_lexical (track_watch_path env p ix) = waiting_for_lexical ix"
  "source_batch (track_watch_path env p ix) = source_batch ix" "exclude (track_watch_path env p ix) = exclude ix"
  "read_contents (track_watch_path env p ix) = read_contents ix"
  "link_resolver (track_watch_path env p ix) = link_resolver ix" "tags (track_watch_path env p ix) = tags ix"
  "backlinks (track_watch_path env p ix) = backlinks ix" "stats (track_watch_path env p ix) = stats ix"
  "attachment_bytes (track_watch_path env p ix) = attachment_bytes ix"
  by (simp_all add: track_watch_path_def)

lemma track_watch:
  assumes "watch_inv env ix" and "finite (tracked ix)" and "p \<notin> tracked ix"
  shows "case watch_paths (track_watch_path env p ix) of None \<Rightarrow> True | Some w \<Rightarrow> watch_ok env (insert p (tracked ix)) w"
  using assms by (cases "watch_paths ix") (simp_all add: track_watch_path_def watch_inv_alt watch_ok_insert)

lemma add_excluded_inv:
  assumes i: "index_inv env ix" and p: "backslash \<notin> set p"
  shows "index_inv env (add_excluded_file env p ix)"
proof (cases "p \<in> excluded_note_paths ix \<or> \<not> (is_visible_path p \<and> is_markdown p)")
  case True
  then show ?thesis
    using i remove_file_inv [OF i p] by (auto simp: add_excluded_file_def Let_def logical_separators_plain [OF p])
next
  case False
  define ix1 where "ix1 = remove_file env p ix"
  have i1: "index_inv env ix1" unfolding ix1_def by (rule remove_file_inv [OF i p])
  have nt: "p \<notin> tracked ix1" unfolding ix1_def tracked_remove_file [OF p] by simp
  let ?ix2 = "track_watch_path env p ix1"
  let ?ix3 = "?ix2 \<lparr> excluded_note_paths := insert p (excluded_note_paths ?ix2),
                    stats := (stats ?ix2) \<lparr> excluded_notes := excluded_notes (stats ?ix2) + 1 \<rparr> \<rparr>"
  have e: "add_excluded_file env p ix = ?ix3"
    using False by (simp add: add_excluded_file_def Let_def logical_separators_plain [OF p] ix1_def)
  have k1: "keys_inv ix1" and t1: "tags_inv env ix1" and l1: "links_inv env ix1" and c1: "count_inv ix1"
    and w1: "watch_inv env ix1" using i1 by (simp_all add: index_inv_def)
  have np: "p \<notin> note_paths ix1" "p \<notin> excluded_note_paths ix1" using nt by (auto simp: tracked_def)
  have k: "keys_inv ?ix3" using k1 np False p unfolding keys_inv_def by auto
  have t: "tags_inv env ?ix3" using t1 by (simp add: tags_inv_def)
  have l: "links_inv env ?ix3" using l1 by (simp add: links_inv_def graph_of_def)
  have c: "count_inv ?ix3" using c1 np k1 by (simp add: count_inv_alt keys_inv_def)
  have "tracked ?ix3 = insert p (tracked ix1)" by (auto simp: tracked_def)
  note tr = this
  have wp: "watch_paths ?ix3 = watch_paths (track_watch_path env p ix1)" by simp
  have w: "watch_inv env ?ix3"
    unfolding watch_inv_alt tr wp by (rule track_watch [OF w1 tracked_finite [OF k1] nt])
  show ?thesis unfolding e index_inv_def using k t l c w by blast
qed

lemma observed_totals:
  assumes "observed_byte_totals ix p sz att = Inr (tot, ab)" and "count_inv ix" and "keys_inv ix"
  shows "tot = vault_size_bytes (stats ix) - (case map_of (notes ix) p of Some n \<Rightarrow> fsize (stat n)
           | None \<Rightarrow> (case map_of (attachments ix) p of Some n \<Rightarrow> n | None \<Rightarrow> 0)) + sz"
    and "tot \<le> usize_max"
    and "ab = attachment_bytes ix - (case map_of (attachments ix) p of Some n \<Rightarrow> n | None \<Rightarrow> 0) + (if att then sz else 0)"
proof -
  let ?oa = "case map_of (attachments ix) p of Some n \<Rightarrow> n | None \<Rightarrow> 0"
  let ?os = "case map_of (notes ix) p of Some n \<Rightarrow> fsize (stat n) | None \<Rightarrow> ?oa"
  from assms(1) have "Option.bind (checked_sub (vault_size_bytes (stats ix)) ?os) (\<lambda>rest. checked_add rest sz) = Some tot"
    and "Option.bind (checked_sub (attachment_bytes ix) ?oa) (\<lambda>rest. checked_add rest (if att then sz else 0)) = Some ab"
    unfolding observed_byte_totals_def Let_def by (simp_all only: result_simps Inr_inject prod.inject) blast+
  then show "tot = vault_size_bytes (stats ix) - ?os + sz" and "tot \<le> usize_max"
    and "ab = attachment_bytes ix - ?oa + (if att then sz else 0)"
    unfolding bind_eq_Some_conv checked_add_Some_iff checked_sub_Some_iff by auto
qed

lemma remove_file_sums:
  assumes k: "keys_inv ix" and c: "count_inv ix" and p: "backslash \<notin> set p"
  shows "vault_size_bytes (stats (remove_file env p ix)) =
      vault_size_bytes (stats ix) - (case map_of (notes ix) p of Some n \<Rightarrow> fsize (stat n)
           | None \<Rightarrow> (case map_of (attachments ix) p of Some n \<Rightarrow> n | None \<Rightarrow> 0))"
    and "attachment_bytes (remove_file env p ix) =
      attachment_bytes ix - (case map_of (attachments ix) p of Some n \<Rightarrow> n | None \<Rightarrow> 0)"
proof -
  let ?R = "remove_file env p ix"
  have c': "count_inv ?R" by (rule remove_file_counts [OF c k p])
  have dn: "distinct (map fst (notes ix))" and da: "distinct (map fst (attachments ix))"
    using k by (simp_all add: keys_inv_def)
  have disj: "p \<notin> fst ` set (attachments ix)" if "p \<in> note_paths ix"
  proof
    assume "p \<in> fst ` set (attachments ix)"
    with keys_attachment [OF k] keys_note [OF k that] show False by blast
  qed
  have ab: "attachment_bytes ?R = table_sum (\<lambda>n. n) (AList.delete p (attachments ix))"
    and v: "vault_size_bytes (stats ?R) = table_sum (\<lambda>n. fsize (stat n)) (AList.delete p (notes ix)) + attachment_bytes ?R"
    using c' by (simp_all add: count_inv_def recompute_stats_def remove_file_fields [OF p])
  have ab0: "attachment_bytes ix = table_sum (\<lambda>n. n) (attachments ix)"
    and v0: "vault_size_bytes (stats ix) = table_sum (\<lambda>n. fsize (stat n)) (notes ix) + attachment_bytes ix"
    using c by (simp_all add: count_inv_def recompute_stats_def)
  have sa: "table_sum (\<lambda>n. n) (attachments ix) = (case map_of (attachments ix) p of Some n \<Rightarrow> n | None \<Rightarrow> 0)
      + table_sum (\<lambda>n. n) (AList.delete p (attachments ix))"
    using table_sum_delete [OF da, of p] by (cases "map_of (attachments ix) p") (auto simp: delete_absent simp del: map_of_eq_Some_iff)
  have sn: "table_sum (\<lambda>n. fsize (stat n)) (notes ix) = (case map_of (notes ix) p of Some n \<Rightarrow> fsize (stat n) | None \<Rightarrow> 0)
      + table_sum (\<lambda>n. fsize (stat n)) (AList.delete p (notes ix))"
    using table_sum_delete [OF dn, of p] by (cases "map_of (notes ix) p") (auto simp: delete_absent simp del: map_of_eq_Some_iff)
  show "attachment_bytes ?R = attachment_bytes ix - (case map_of (attachments ix) p of Some n \<Rightarrow> n | None \<Rightarrow> 0)"
    unfolding ab ab0 sa by simp
  have "map_of (notes ix) p \<noteq> None \<Longrightarrow> map_of (attachments ix) p = None"
    using disj unfolding keys_map_of by blast
  then show "vault_size_bytes (stats ?R) =
      vault_size_bytes (stats ix) - (case map_of (notes ix) p of Some n \<Rightarrow> fsize (stat n)
           | None \<Rightarrow> (case map_of (attachments ix) p of Some n \<Rightarrow> n | None \<Rightarrow> 0))"
    unfolding v v0 sn ab ab0 sa by (cases "map_of (notes ix) p") simp_all
qed

lemma attachment_inv:
  assumes i: "index_inv env ix" and p: "backslash \<notin> set p" and m: "\<not> is_markdown p"
    and o: "observed_byte_totals ix p sz True = Inr (tot, ab)"
  shows "index_inv env
     (let ix1 = track_watch_path env p (remove_file env p ix)
      in ix1 \<lparr> attachments := AList.update p sz (attachments ix1), attachment_bytes := ab,
               stats := (stats ix1) \<lparr> total_files := total_files (stats ix1) + 1, vault_size_bytes := tot \<rparr> \<rparr>)"
proof -
  define ix0 where "ix0 = remove_file env p ix"
  have k: "keys_inv ix" and c: "count_inv ix" using i by (simp_all add: index_inv_def)
  have i0: "index_inv env ix0" unfolding ix0_def by (rule remove_file_inv [OF i p])
  have nt: "p \<notin> tracked ix0" unfolding ix0_def tracked_remove_file [OF p] by simp
  have k0: "keys_inv ix0" and t0: "tags_inv env ix0" and l0: "links_inv env ix0" and c0: "count_inv ix0"
    and w0: "watch_inv env ix0" using i0 by (simp_all add: index_inv_def)
  let ?ix1 = "track_watch_path env p ix0"
  let ?ix2 = "?ix1 \<lparr> attachments := AList.update p sz (attachments ?ix1), attachment_bytes := ab,
               stats := (stats ?ix1) \<lparr> total_files := total_files (stats ?ix1) + 1, vault_size_bytes := tot \<rparr> \<rparr>"
  have na: "p \<notin> fst ` set (attachments ix0)" "p \<notin> note_paths ix0" using nt by (auto simp: tracked_def)
  note tot = observed_totals [OF o c k]
  note sums = remove_file_sums [OF k c p, of env, folded ix0_def]
  have a: "ab = attachment_bytes ix0 + sz" "tot = vault_size_bytes (stats ix0) + sz"
    using tot sums by simp_all
  have d: "distinct (map fst (attachments ix0))" using k0 by (simp add: keys_inv_def)
  have len: "length (AList.update p sz (attachments ix0)) = length (attachments ix0) + 1"
    unfolding length_table table_sum_update [OF d] using na by simp
  have k2: "keys_inv ?ix2" using k0 m p na unfolding keys_inv_def
    by (auto simp: dom_update distinct_update)
  have t2: "tags_inv env ?ix2" using t0 by (simp add: tags_inv_def)
  have l2: "links_inv env ?ix2" using l0 by (simp add: links_inv_def graph_of_def)
  have c2: "count_inv ?ix2"
    using c0 len a tot(2) table_sum_update [OF d, of "\<lambda>n. n" p sz] na
    by (simp add: count_inv_alt)
  have "tracked ?ix2 = insert p (tracked ix0)" by (auto simp: tracked_def dom_update)
  note tr = this
  have wp: "watch_paths ?ix2 = watch_paths (track_watch_path env p ix0)" by simp
  have w2: "watch_inv env ?ix2"
    unfolding watch_inv_alt tr wp by (rule track_watch [OF w0 tracked_finite [OF k0] nt])
  show ?thesis unfolding Let_def ix0_def [symmetric] index_inv_def using k2 t2 l2 c2 w2 by blast
qed

end
