(* ===== verification/IndexSteps.thy ===== *)
theory IndexSteps
  imports Index
begin

text \<open>
  Every operation of the index keeps its invariant: the replacement of a note, an observation of
  one path with the synchronisation of the lexical index, source batches and removals, composed
  into a step relation whose reachable states are the indexes the service can hold.
\<close>

section \<open>Replacing a note\<close>

text \<open>\<^verbatim>\<open>replace_note\<close> up to the withdrawal of the previous note.\<close>

definition replace_prepare :: "deps \<Rightarrow> str \<Rightarrow> 's VaultIndex \<Rightarrow> 's VaultIndex" where
  "replace_prepare env p ix0 =
     (let ix1 = ix0 \<lparr> waiting_for_lexical := AList.delete p (waiting_for_lexical ix0) \<rparr>;
          ix2 = (if \<not> tracks ix1 p then track_watch_path env p ix1 else ix1);
          ix3 = ix2 \<lparr> excluded_note_paths := excluded_note_paths ix2 - {p} \<rparr>
      in case map_of (attachments ix3) p of
           None \<Rightarrow> ix3
         | Some sz \<Rightarrow> ix3 \<lparr> attachments := AList.delete p (attachments ix3),
                            attachment_bytes := wrap_sub (attachment_bytes ix3) sz \<rparr>)"

definition replace_finish ::
  "deps \<Rightarrow> str \<Rightarrow> NoteMetadata \<Rightarrow> nat \<Rightarrow> NoteMetadata option \<Rightarrow> 's VaultIndex \<Rightarrow> 's VaultIndex" where
  "replace_finish env p md total_bytes old ix5 =
     (let tags' = fold (\<lambda>k. mm_insert k p) (map (d_lower env) (ntags md)) (tags ix5);
          notes' = AList.update p md (notes ix5);
          s = stats ix5;
          ix6 = ix5 \<lparr> tags := tags', notes := notes',
                      stats := s \<lparr> total_links := total_links s + length (links md),
                                  total_notes := length notes',
                                  total_files := length notes' + length (attachments ix5),
                                  total_tags := length tags',
                                  excluded_notes := card (excluded_note_paths ix5),
                                  vault_size_bytes := total_bytes \<rparr> \<rparr>;
          ix7 = (if old \<noteq> None then ix6
                 else ix6 \<lparr> link_resolver := add_path (d_nfc env) (d_lower env) p (link_resolver ix6) \<rparr>)
      in if source_batch ix7 then ix7
         else if old \<noteq> None then update_backlinks_for_file env p (map_option links old) ix7
         else rebuild_backlinks env ix7)"

lemma replace_prepare_fields [simp]:
  "notes (replace_prepare env p ix) = notes ix"
  "attachments (replace_prepare env p ix) = AList.delete p (attachments ix)"
  "excluded_note_paths (replace_prepare env p ix) = excluded_note_paths ix - {p}"
  "source_revisions (replace_prepare env p ix) = source_revisions ix"
  "waiting_for_lexical (replace_prepare env p ix) = AList.delete p (waiting_for_lexical ix)"
  "source_batch (replace_prepare env p ix) = source_batch ix"
  "exclude (replace_prepare env p ix) = exclude ix"
  "read_contents (replace_prepare env p ix) = read_contents ix"
  "link_resolver (replace_prepare env p ix) = link_resolver ix"
  "tags (replace_prepare env p ix) = tags ix" "backlinks (replace_prepare env p ix) = backlinks ix"
  "stats (replace_prepare env p ix) = stats ix"
  "watch_paths (replace_prepare env p ix) =
     (if tracks ix p then watch_paths ix else map_option (watch_insert env p) (watch_paths ix))"
  by (cases "map_of (attachments ix) p"; simp add: replace_prepare_def Let_def delete_absent
      tracks_def track_watch_path_def)+

lemma replace_prepare_bytes:
  "map_of (attachments ix) p = None \<Longrightarrow> attachment_bytes (replace_prepare env p ix) = attachment_bytes ix"
  by (simp add: replace_prepare_def Let_def tracks_def)

lemma replace_note_stages:
  obtains ix5 where "remove_note_contributions env p (replace_prepare env p ix) = (map_of (notes ix) p, ix5)"
    and "replace_note env p md tot ix = replace_finish env p md tot (map_of (notes ix) p) ix5"
proof -
  obtain old ix5 where r: "remove_note_contributions env p (replace_prepare env p ix) = (old, ix5)"
    by (cases "remove_note_contributions env p (replace_prepare env p ix)")
  then have o: "old = map_of (notes ix) p" using remove_contributions_cases(1) by fastforce
  have "replace_note env p md tot ix = replace_finish env p md tot (map_of (notes ix) p) ix5"
    using r unfolding o
    by (simp add: replace_note_def replace_prepare_def replace_finish_def Let_def)
  with r o show thesis by (intro that) simp_all
qed

lemma update_backlinks_fields [simp]:
  "notes (update_backlinks_for_file env p ls ix) = notes ix"
  "attachments (update_backlinks_for_file env p ls ix) = attachments ix"
  "excluded_note_paths (update_backlinks_for_file env p ls ix) = excluded_note_paths ix"
  "source_revisions (update_backlinks_for_file env p ls ix) = source_revisions ix"
  "waiting_for_lexical (update_backlinks_for_file env p ls ix) = waiting_for_lexical ix"
  "source_batch (update_backlinks_for_file env p ls ix) = source_batch ix"
  "exclude (update_backlinks_for_file env p ls ix) = exclude ix"
  "read_contents (update_backlinks_for_file env p ls ix) = read_contents ix"
  "link_resolver (update_backlinks_for_file env p ls ix) = link_resolver ix"
  "watch_paths (update_backlinks_for_file env p ls ix) = watch_paths ix"
  "tags (update_backlinks_for_file env p ls ix) = tags ix" "stats (update_backlinks_for_file env p ls ix) = stats ix"
  "attachment_bytes (update_backlinks_for_file env p ls ix) = attachment_bytes ix"
  by (simp_all add: update_backlinks_for_file_def Let_def)

lemma replace_finish_fields:
  "notes (replace_finish env p md tot old ix) = AList.update p md (notes ix)"
  "attachments (replace_finish env p md tot old ix) = attachments ix"
  "excluded_note_paths (replace_finish env p md tot old ix) = excluded_note_paths ix"
  "source_revisions (replace_finish env p md tot old ix) = source_revisions ix"
  "waiting_for_lexical (replace_finish env p md tot old ix) = waiting_for_lexical ix"
  "source_batch (replace_finish env p md tot old ix) = source_batch ix"
  "exclude (replace_finish env p md tot old ix) = exclude ix"
  "read_contents (replace_finish env p md tot old ix) = read_contents ix"
  "watch_paths (replace_finish env p md tot old ix) = watch_paths ix"
  "tags (replace_finish env p md tot old ix) = fold (\<lambda>k. mm_insert k p) (map (d_lower env) (ntags md)) (tags ix)"
  "attachment_bytes (replace_finish env p md tot old ix) = attachment_bytes ix"
  "link_resolver (replace_finish env p md tot old ix) =
     (if old = None then add_path (d_nfc env) (d_lower env) p (link_resolver ix) else link_resolver ix)"
  by (simp_all add: replace_finish_def Let_def)

lemma replace_note_fields:
  "notes (replace_note env p md tot ix) = AList.update p md (AList.delete p (notes ix))"
  "attachments (replace_note env p md tot ix) = AList.delete p (attachments ix)"
  "excluded_note_paths (replace_note env p md tot ix) = excluded_note_paths ix - {p}"
  "source_revisions (replace_note env p md tot ix) = source_revisions ix"
  "waiting_for_lexical (replace_note env p md tot ix) = AList.delete p (waiting_for_lexical ix)"
  "source_batch (replace_note env p md tot ix) = source_batch ix"
  "exclude (replace_note env p md tot ix) = exclude ix"
  "read_contents (replace_note env p md tot ix) = read_contents ix"
  "watch_paths (replace_note env p md tot ix) =
     (if tracks ix p then watch_paths ix else map_option (watch_insert env p) (watch_paths ix))"
  "link_resolver (replace_note env p md tot ix) =
     (if map_of (notes ix) p = None then add_path (d_nfc env) (d_lower env) p (link_resolver ix) else link_resolver ix)"
proof -
  obtain ix5 where r: "remove_note_contributions env p (replace_prepare env p ix) = (map_of (notes ix) p, ix5)"
    and e: "replace_note env p md tot ix = replace_finish env p md tot (map_of (notes ix) p) ix5"
    by (rule replace_note_stages)
  note c = remove_contributions_cases [OF r]
  show "notes (replace_note env p md tot ix) = AList.update p md (AList.delete p (notes ix))"
    "attachments (replace_note env p md tot ix) = AList.delete p (attachments ix)"
    "excluded_note_paths (replace_note env p md tot ix) = excluded_note_paths ix - {p}"
    "source_revisions (replace_note env p md tot ix) = source_revisions ix"
    "waiting_for_lexical (replace_note env p md tot ix) = AList.delete p (waiting_for_lexical ix)"
    "source_batch (replace_note env p md tot ix) = source_batch ix"
    "exclude (replace_note env p md tot ix) = exclude ix"
    "read_contents (replace_note env p md tot ix) = read_contents ix"
    "watch_paths (replace_note env p md tot ix) =
       (if tracks ix p then watch_paths ix else map_option (watch_insert env p) (watch_paths ix))"
    "link_resolver (replace_note env p md tot ix) =
       (if map_of (notes ix) p = None then add_path (d_nfc env) (d_lower env) p (link_resolver ix) else link_resolver ix)"
    unfolding e replace_finish_fields c(2-12) replace_prepare_fields by (rule refl)+
qed

lemma replace_note_keys:
  assumes k: "keys_inv ix" and p: "backslash \<notin> set p" "is_markdown p" "npath md = p"
  shows "keys_inv (replace_note env p md tot ix)"
  using k p unfolding keys_inv_def replace_note_fields
  by (auto simp: keys_delete dom_update distinct_delete distinct_update delete_conv' update_conv'
      simp del: map_of_eq_Some_iff)

lemma tags_add:
  assumes t: "tags_inv env ix" and np: "p \<notin> note_paths ix"
    and ns: "notes ix' = AList.update p md (notes ix)"
    and ts: "tags ix' = fold (\<lambda>k. mm_insert k p) (map (d_lower env) (ntags md)) (tags ix)"
  shows "tags_inv env ix'"
proof -
  have w: "mm_wf (tags ix)"
    and rel: "mm.rel (tags ix) = (\<Union>q \<in> note_paths ix. (d_lower env ` set (ntags (note_at ix q))) \<times> {q})"
    using t by (auto simp: tags_inv_def)
  have at: "map_of (notes ix') q = (if q = p then Some md else map_of (notes ix) q)" for q
    by (simp add: ns update_conv')
  have ne: "q \<in> note_paths ix \<Longrightarrow> q \<noteq> p" for q using np by blast
  have "(\<Union>q \<in> note_paths ix. (d_lower env ` set (ntags (note_at ix' q))) \<times> {q}) = mm.rel (tags ix)"
    unfolding rel at by (rule SUP_cong [OF refl]) (drule ne, simp)
  moreover have "note_paths ix' = insert p (note_paths ix)" by (auto simp: ns dom_update)
  ultimately have "mm.rel (tags ix') = (\<Union>q \<in> note_paths ix'. (d_lower env ` set (ntags (note_at ix' q))) \<times> {q})"
    unfolding ts mm.rel_fold_ins by (simp add: at)
  moreover have "mm_wf (tags ix')" unfolding ts by (rule mm.wf_fold_ins [OF w])
  ultimately show ?thesis by (simp add: tags_inv_def)
qed

lemma replace_note_tags:
  assumes t: "tags_inv env ix" and k: "keys_inv ix"
  shows "tags_inv env (replace_note env p md tot ix)"
proof -
  obtain ix5 where r: "remove_note_contributions env p (replace_prepare env p ix) = (map_of (notes ix) p, ix5)"
    and e: "replace_note env p md tot ix = replace_finish env p md tot (map_of (notes ix) p) ix5"
    by (rule replace_note_stages)
  have n5: "notes ix5 = AList.delete p (notes ix)" using remove_contributions_cases(2) [OF r] by simp
  have "tags_inv env (replace_prepare env p ix)" using t by (simp add: tags_inv_def)
  moreover have "distinct (map fst (notes (replace_prepare env p ix)))" using k by (simp add: keys_inv_def)
  ultimately have "tags_inv env ix5" by (rule remove_contributions_tags [OF r])
  moreover have "p \<notin> note_paths ix5" unfolding n5 keys_delete by simp
  ultimately show ?thesis unfolding e by (rule tags_add) (simp_all add: replace_finish_fields)
qed

lemma replace_note_watch:
  assumes w: "watch_inv env ix" and k: "keys_inv ix" and p: "backslash \<notin> set p" "is_markdown p"
  shows "watch_inv env (replace_note env p md tot ix)"
proof -
  have na: "p \<notin> fst ` set (attachments ix)" using keys_attachment [OF k] p by blast
  have tr: "tracked (replace_note env p md tot ix) = insert p (tracked ix)"
    using na by (auto simp: tracked_def replace_note_fields keys_delete dom_update)
  show ?thesis
  proof (cases "p \<in> tracked ix")
    case True
    then have "insert p (tracked ix) = tracked ix" by blast
    then show ?thesis using w True unfolding watch_inv_alt tr
      by (simp only: replace_note_fields tracks_plain [OF p(1)] if_True)
  next
    case False
    have "watch_paths (replace_note env p md tot ix) = watch_paths (track_watch_path env p ix)"
      using False by (simp add: replace_note_fields tracks_plain p track_watch_path_def)
    then show ?thesis using track_watch [OF w tracked_finite [OF k] False] unfolding watch_inv_alt tr by simp
  qed
qed

lemma replace_note_counts:
  assumes c: "count_inv ix" and k: "keys_inv ix" and p: "backslash \<notin> set p" "is_markdown p"
    and tot: "tot = vault_size_bytes (stats ix) - (case map_of (notes ix) p of Some n \<Rightarrow> fsize (stat n) | None \<Rightarrow> 0)
                + fsize (stat md)" "tot \<le> usize_max"
  shows "count_inv (replace_note env p md tot ix)"
proof -
  obtain ix5 where r: "remove_note_contributions env p (replace_prepare env p ix) = (map_of (notes ix) p, ix5)"
    and e: "replace_note env p md tot ix = replace_finish env p md tot (map_of (notes ix) p) ix5"
    by (rule replace_note_stages)
  have d: "distinct (map fst (notes ix))" using k by (simp add: keys_inv_def)
  have "p \<notin> fst ` set (attachments ix)" using keys_attachment [OF k, of p] p(2) by blast
  then have na: "map_of (attachments ix) p = None" by (simp only: map_of_eq_None_iff not_False_eq_True)
  note c5 = remove_contributions_cases [OF r, simplified]
  have links5: "total_links (stats ix5) = table_sum (\<lambda>n. length (links n)) (notes ix5)"
  proof (cases "map_of (notes ix) p")
    case None
    with r have "ix5 = replace_prepare env p ix" by (simp add: remove_note_contributions_def)
    with c show ?thesis by (simp add: count_inv_alt)
  next
    case (Some n)
    obtain t em where f: "fold (shrink_tag env p) (ntags n) (tags ix, []) = (t, em)"
      by (cases "fold (shrink_tag env p) (ntags n) (tags ix, [])")
    have "notes ix5 = AList.delete p (notes ix)" "total_links (stats ix5) = wrap_sub (total_links (stats ix)) (length (links n))"
      using r Some f by (auto simp: remove_note_contributions_def Let_def simp del: map_of_eq_Some_iff)
    with c table_sum_delete [OF d Some, of "\<lambda>n. length (links n)"]
    show ?thesis by (simp add: count_inv_alt)
  qed
  have ns: "distinct (map fst (notes ix5))" "AList.delete p (notes ix5) = notes ix5"
    unfolding c5(2) using d by (simp_all add: distinct_delete delete_idem)
  have bytes: "attachment_bytes ix5 = attachment_bytes ix" "attachments ix5 = attachments ix"
    using c5(3,13) na replace_prepare_bytes [OF na] by (simp_all add: delete_absent)
  have sz: "vault_size_bytes (stats ix) = (case map_of (notes ix) p of Some n \<Rightarrow> fsize (stat n) | None \<Rightarrow> 0)
      + table_sum (\<lambda>n. fsize (stat n)) (notes ix5) + attachment_bytes ix"
  proof (cases "map_of (notes ix) p")
    case None
    have "AList.delete p (notes ix) = notes ix" by (rule delete_absent [OF None])
    with c show ?thesis unfolding c5(2) None count_inv_alt by simp
  next
    case (Some n)
    from c table_sum_delete [OF d Some, of "\<lambda>n. fsize (stat n)"] show ?thesis
      unfolding c5(2) Some count_inv_alt by simp
  qed
  have st: "stats (replace_note env p md tot ix) =
      (stats ix5) \<lparr> total_links := total_links (stats ix5) + length (links md),
         total_notes := length (AList.update p md (notes ix5)),
         total_files := length (AList.update p md (notes ix5)) + length (attachments ix5),
         total_tags := length (tags (replace_note env p md tot ix)),
         excluded_notes := card (excluded_note_paths ix5), vault_size_bytes := tot \<rparr>"
    unfolding e by (simp add: replace_finish_def Let_def)
  have tot': "tot = table_sum (\<lambda>n. fsize (stat n)) (notes ix5) + attachment_bytes ix + fsize (stat md)"
    using tot(1) sz by simp
  have ab: "attachment_bytes ix = table_sum (\<lambda>n. n) (attachments ix)" using c by (simp add: count_inv_alt)
  show ?thesis
    unfolding count_inv_alt st unfolding e replace_finish_fields bytes
    using links5 tot(2) ab tot'
      table_sum_update [OF ns(1), of "\<lambda>n. length (links n)" p md]
      table_sum_update [OF ns(1), of "\<lambda>n. fsize (stat n)" p md]
    unfolding ns(2) by (simp add: bytes)
qed

lemma replace_note_links:
  assumes l: "links_inv env ix" and k: "keys_inv ix"
  shows "links_inv env (replace_note env p md tot ix)"
proof -
  obtain ix5 where r: "remove_note_contributions env p (replace_prepare env p ix) = (map_of (notes ix) p, ix5)"
    and e: "replace_note env p md tot ix = replace_finish env p md tot (map_of (notes ix) p) ix5"
    by (rule replace_note_stages)
  let ?R = "replace_note env p md tot ix"
  note f = replace_note_fields [of env p md tot ix]
  have d: "distinct (map fst (notes ix))" using k by (simp add: keys_inv_def)
  have dR: "distinct (map fst (notes ?R))" unfolding f by (intro distinct_update distinct_delete d)
  have st: "stems_agree (d_nfc env) (d_lower env) (map fst (notes ix)) (link_resolver ix)"
    using l by (simp add: links_inv_def)
  have keys: "map fst (notes ?R) = removeAll p (map fst (notes ix)) @ [p]"
    unfolding f update_keys delete_keys by simp
  have st': "stems_agree (d_nfc env) (d_lower env) (map fst (notes ?R)) (link_resolver ?R)"
  proof (cases "map_of (notes ix) p")
    case None
    then have "p \<notin> set (map fst (notes ix))" by (simp add: map_of_eq_None_iff)
    then have "map fst (notes ?R) = map fst (notes ix) @ [p]" unfolding keys by (simp add: removeAll_id)
    with stems_insert [OF st] None show ?thesis by (simp add: f add_path_def)
  next
    case (Some n)
    then have "p \<in> set (map fst (notes ix))" by (metis domI dom_map_of_conv_image_fst list.set_map)
    then have "mset (map fst (notes ?R)) = mset (map fst (notes ix))"
      unfolding keys distinct_remove1_removeAll [OF d, symmetric] by simp
    then have q: "mset (filter Q (map fst (notes ?R))) = mset (filter Q (map fst (notes ix)))" for Q
      by (simp only: mset_filter)
    show ?thesis unfolding stems_agree_def q using st Some by (simp add: stems_agree_def f)
  qed
  note c = remove_contributions_cases [OF r, simplified]
  have "mm_wf (backlinks ?R) \<and> mm.rel (backlinks ?R) = graph_of env ?R" if b: "\<not> source_batch ?R"
  proof (cases "map_of (notes ix) p")
    case None
    have "\<exists>ix7. ?R = rebuild_backlinks env ix7"
      using b c(7) unfolding f(6) unfolding e replace_finish_def Let_def None by auto
    then obtain ix7 where e7: "?R = rebuild_backlinks env ix7" by blast
    with dR have "distinct (map fst (notes ix7))" by simp
    with rebuild_backlinks_graph [of env ix7] show ?thesis unfolding e7 by (simp add: graph_of_def)
  next
    case (Some n)
    let ?r = "link_resolver ix"
    have lr: "link_resolver ?R = ?r" unfolding f using Some by simp
    have w: "mm_wf (backlinks ix)" and rel: "mm.rel (backlinks ix) = graph_of env ix"
      using l b unfolding links_inv_def f by auto
    let ?b1 = "fold (\<lambda>k. mm_remove k p) (link_keys env ?r (links n)) (backlinks ix)"
    have bl: "backlinks ?R = fold (\<lambda>k. mm_insert k p) (link_keys env ?r (links md)) ?b1"
      using b c(7,10,12) unfolding f(6) unfolding e Some
      by (simp add: replace_finish_def Let_def update_backlinks_for_file_def update_conv')
    have "mm_wf (backlinks ?R)" unfolding bl by (intro mm.wf_fold_ins mm.wf_fold_del w)
    moreover have np: "note_paths ?R = insert p (note_paths ix)"
      unfolding f by (auto simp: dom_update keys_delete)
    have at: "map_of (notes ?R) q = (if q = p then Some md else map_of (notes ix) q)" for q
      unfolding f by (simp add: update_conv' delete_conv')
    have "p \<in> note_paths ix" using Some keys_map_of by fastforce
    then have "mm.rel (backlinks ?R) = (\<Union>q \<in> insert p (note_paths ix).
        (if q = p then set (link_keys env ?r (links md)) else set (link_keys env ?r (links (note_at ix q)))) \<times> {q})"
      unfolding bl using mm.rel_replace [OF w rel [unfolded graph_of_def], of "link_keys env ?r (links n)" p] Some
      by simp
    then have "mm.rel (backlinks ?R) = graph_of env ?R"
      unfolding graph_of_def np lr at by (simp cong: if_cong SUP_cong add: if_distrib)
    ultimately show ?thesis by blast
  qed
  with st' show ?thesis by (simp add: links_inv_def)
qed

lemma replace_note_inv:
  assumes "index_inv env ix" and "backslash \<notin> set p" "is_markdown p" "npath md = p"
    and "tot = vault_size_bytes (stats ix) - (case map_of (notes ix) p of Some n \<Rightarrow> fsize (stat n) | None \<Rightarrow> 0)
                + fsize (stat md)" "tot \<le> usize_max"
  shows "index_inv env (replace_note env p md tot ix)"
  using assms
  by (simp add: index_inv_def replace_note_keys replace_note_tags replace_note_links replace_note_counts
      replace_note_watch)

section \<open>Observations\<close>

lemma index_inv_frame:
  assumes "index_inv env ix" and "keys_inv ix'"
    and "notes ix' = notes ix" "attachments ix' = attachments ix" "excluded_note_paths ix' = excluded_note_paths ix"
    "tags ix' = tags ix" "backlinks ix' = backlinks ix" "link_resolver ix' = link_resolver ix"
    "source_batch ix' = source_batch ix" "stats ix' = stats ix" "attachment_bytes ix' = attachment_bytes ix"
    "watch_paths ix' = watch_paths ix"
  shows "index_inv env ix'"
proof -
  have "tracked ix' = tracked ix" using assms(3-) by (simp add: tracked_def)
  with assms show ?thesis
    by (simp add: index_inv_def tags_inv_def links_inv_def graph_of_def count_inv_alt watch_inv_alt
        cong: option.case_cong)
qed

lemma revision_update_inv:
  assumes "index_inv env ix" and "p \<in> note_paths ix"
  shows "index_inv env (ix \<lparr> source_revisions := AList.update p r (source_revisions ix) \<rparr>)"
  using assms by (intro index_inv_frame [OF assms(1)]) (simp_all add: index_inv_def keys_inv_def dom_update distinct_update)

lemma revision_delete_inv:
  assumes "index_inv env ix"
  shows "index_inv env (ix \<lparr> source_revisions := AList.delete p (source_revisions ix) \<rparr>)"
  using assms by (intro index_inv_frame [OF assms(1)]) (auto simp: index_inv_def keys_inv_def keys_delete distinct_delete)

lemma waiting_update_inv:
  assumes "index_inv env ix" and "p \<in> note_paths ix"
  shows "index_inv env (ix \<lparr> waiting_for_lexical := AList.update p r (waiting_for_lexical ix) \<rparr>)"
  using assms by (intro index_inv_frame [OF assms(1)]) (simp_all add: index_inv_def keys_inv_def dom_update distinct_update)

lemma observed_note_total:
  assumes "observed_byte_totals ix p sz False = Inr (tot, ab)" and i: "index_inv env ix" and m: "is_markdown p"
  shows "tot = vault_size_bytes (stats ix) - (case map_of (notes ix) p of Some n \<Rightarrow> fsize (stat n) | None \<Rightarrow> 0) + sz"
    and "tot \<le> usize_max"
proof -
  have k: "keys_inv ix" and c: "count_inv ix" using i by (simp_all add: index_inv_def)
  have "p \<notin> fst ` set (attachments ix)" using keys_attachment [OF k, of p] m by blast
  then have "map_of (attachments ix) p = None" by (simp only: map_of_eq_None_iff not_False_eq_True)
  with observed_totals [OF assms(1) c k]
  show "tot = vault_size_bytes (stats ix) - (case map_of (notes ix) p of Some n \<Rightarrow> fsize (stat n) | None \<Rightarrow> 0) + sz"
    and "tot \<le> usize_max"
    by (simp_all cong: option.case_cong)
qed

lemma parse_note_metadata_fields:
  "parse_note_metadata env p text st = Inr md \<Longrightarrow> npath md = p \<and> stat md = st"
  by (auto simp: parse_note_metadata_def Let_def result_simps)

lemma update_observation_inv:
  assumes i: "index_inv env ix" and p: "backslash \<notin> set p"
  shows "index_inv env (snd (update_observation env sm p content st ex ix))"
proof (cases "is_visible_path p")
  case False
  then show ?thesis by (simp add: update_observation_def remove_file_inv [OF i p])
next
  case vis: True
  show ?thesis
  proof (cases "classify sm p ex")
    case Excluded
    with vis show ?thesis by (simp add: update_observation_def add_excluded_inv [OF i p])
  next
    case Attachment
    then have m: "\<not> is_markdown p" by (simp add: classify_def split: if_splits)
    with vis Attachment show ?thesis
      using attachment_inv [OF i p m] i
      by (auto simp: update_observation_def Let_def split: sum.splits simp del: Some_eq_map_of_iff)
  next
    case Note
    then have m: "is_markdown p" by (simp add: classify_def split: if_splits)
    show ?thesis
    proof (cases content)
      case None
      with vis Note i show ?thesis by (simp add: update_observation_def)
    next
      case (Some body)
      show ?thesis
      proof (cases "\<exists>md tot ab. allows_source (d_yaml env) ex p body \<and> parse_note_metadata env p body st = Inr md
          \<and> observed_byte_totals ix p (fsize (stat md)) False = Inr (tot, ab)")
        case True
        then obtain md tot ab where a: "allows_source (d_yaml env) ex p body"
          "parse_note_metadata env p body st = Inr md" "observed_byte_totals ix p (fsize (stat md)) False = Inr (tot, ab)"
          by blast
        have np: "npath md = p" using parse_note_metadata_fields [OF a(2)] by blast
        have "index_inv env (replace_note env p md tot ix)"
          using observed_note_total [OF a(3) i m] by (intro replace_note_inv [OF i p m np]) simp_all
        moreover have "p \<in> note_paths (replace_note env p md tot ix)"
          by (simp add: replace_note_fields dom_update)
        ultimately show ?thesis
          using vis Note Some a by (simp add: update_observation_def Let_def revision_update_inv)
      next
        case False
        then show ?thesis
          using vis Note Some i add_excluded_inv [OF i p]
          by (cases "parse_note_metadata env p body st")
             (auto simp: update_observation_def split: sum.splits)
      qed
    qed
  qed
qed

lemma refresh_unchanged_inv:
  assumes i: "index_inv env ix"
  shows "index_inv env (snd (refresh_unchanged_note p r0 st ix))"
proof (cases "map_of (notes ix) p")
  case None
  with i show ?thesis by (simp add: refresh_unchanged_note_def)
next
  case (Some nt)
  show ?thesis
  proof (cases "map_of (source_revisions ix) p = Some r0")
    case False
    with Some i show ?thesis by (simp add: refresh_unchanged_note_def del: map_of_eq_Some_iff)
  next
    case True
    show ?thesis
    proof (cases "observed_byte_totals ix p (fsize st) False")
      case (Inl e)
      with Some True i show ?thesis
        by (simp add: refresh_unchanged_note_def revision_delete_inv del: map_of_eq_Some_iff)
    next
      case (Inr t)
      then obtain tot ab where o: "observed_byte_totals ix p (fsize st) False = Inr (tot, ab)" by (cases t) auto
      let ?n = "nt \<lparr> stat := st \<rparr>"
      let ?ix = "ix \<lparr> notes := AList.update p ?n (notes ix), stats := (stats ix) \<lparr> vault_size_bytes := tot \<rparr> \<rparr>"
      have e: "snd (refresh_unchanged_note p r0 st ix) = ?ix"
        using Some True o by (simp add: refresh_unchanged_note_def del: map_of_eq_Some_iff)
      have k: "keys_inv ix" and c: "count_inv ix" using i by (simp_all add: index_inv_def)
      have pn: "p \<in> note_paths ix" using Some keys_map_of by fastforce
      have d: "distinct (map fst (notes ix))" using k by (simp add: keys_inv_def)
      note tot = observed_note_total [OF o i] keys_note [OF k pn]
      have at: "map_of (notes ?ix) q = (if q = p then Some ?n else map_of (notes ix) q)" for q
        by (simp add: update_conv')
      have np: "note_paths ?ix = note_paths ix" using pn by (auto simp: dom_update)
      have keys: "map fst (notes ?ix) = map fst (notes ix)" using pn by (simp add: update_keys)
      have same: "ntags (note_at ?ix q) = ntags (note_at ix q)" "links (note_at ?ix q) = links (note_at ix q)" for q
        unfolding at using Some by simp_all
      have sums: "table_sum (\<lambda>n. length (links n)) (notes ?ix) = table_sum (\<lambda>n. length (links n)) (notes ix)"
        "length (notes ?ix) = length (notes ix)"
        "table_sum (\<lambda>n. fsize (stat n)) (notes ?ix) + fsize (stat nt) = fsize st + table_sum (\<lambda>n. fsize (stat n)) (notes ix)"
        using table_sum_update [OF d, of _ p ?n] table_sum_delete [OF d Some]
        by (simp_all add: length_table)
      have names: "npath (note_at ?ix q) = npath (note_at ix q)" for q unfolding at using Some by simp
      have "npath n = q" if "map_of (notes ?ix) q = Some n" for q n
      proof -
        have "map_of (notes ix) q \<noteq> None" using that Some unfolding at by (cases "q = p") auto
        then obtain n0 where "map_of (notes ix) q = Some n0" by blast
        with k that names [of q] show ?thesis by (simp add: keys_inv_def del: map_of_eq_Some_iff)
      qed
      then have "keys_inv ?ix"
        using k np d unfolding keys_inv_def
        by (simp add: distinct_update del: map_of_eq_Some_iff)
      moreover have "tags_inv env ?ix" using i np same(1) unfolding index_inv_def tags_inv_def by simp
      moreover have "links_inv env ?ix"
        using i keys unfolding index_inv_def links_inv_def graph_of_def np same(2) by simp
      moreover have "count_inv ?ix" 
        using c sums tot table_sum_delete [OF d Some, of "\<lambda>n. fsize (stat n)"]
        unfolding count_inv_alt Some by simp
      moreover have "watch_inv env ?ix"
      proof -
        have "tracked ?ix = tracked ix" using np by (simp add: tracked_def)
        moreover have "watch_paths ?ix = watch_paths ix" by simp
        ultimately show ?thesis using i unfolding index_inv_def watch_inv_alt by metis
      qed
      ultimately show ?thesis unfolding e index_inv_def by blast
    qed
  qed
qed

end
