(* ===== verification/IndexRun.thy ===== *)
theory IndexRun
  imports IndexSteps "HOL-Library.Code_Target_Nat"
begin

text \<open>
  The index over a whole run: the cold build, the operations that read a file before they observe
  it, the watched prefixes opened on demand, and the step relation of every state change. What the
  filesystem and the lexical index answer is an argument of the step that asks.
\<close>

section \<open>Reading a file, then observing it\<close>

record Entry =
  e_file :: bool
  e_link :: bool
  e_len :: nat

fun is_missing_entry :: "vault_error \<Rightarrow> bool" where
  "is_missing_entry (Io k _) = (k = IoNotFound \<or> k = IoNotADirectory)"
| "is_missing_entry e = is_not_found e"

fun skip_changed_entry :: "vault_error \<Rightarrow> bool" where
  "skip_changed_entry (InvalidPath _) = True"
| "skip_changed_entry e = is_missing_entry e"

text \<open>The answers about one path: its entry, and its text with the stat of the opened file.\<close>

record FileView =
  fv_entry :: "Entry vault_result"
  fv_read :: "(str \<times> FileStat) vault_result"

definition update_file ::
  "deps \<Rightarrow> ('s \<Rightarrow> str \<Rightarrow> bool) \<Rightarrow> FileView \<Rightarrow> str \<Rightarrow> 's ExcludeSet \<Rightarrow> bool \<Rightarrow> 's VaultIndex
     \<Rightarrow> str option vault_result \<times> 's VaultIndex" where
  "update_file env set_match fs path ex require_existing ix =
     (if \<not> is_visible_path path then (Inr None, remove_file env path ix)
      else case fv_entry fs of
        Inl e \<Rightarrow>
          (if \<not> require_existing \<and> is_missing_entry e then (Inr None, remove_file env path ix) else (Inl e, ix))
      | Inr m \<Rightarrow>
          (if \<not> (e_file m \<and> \<not> e_link m) then (Inr None, remove_file env path ix)
           else if classify set_match path ex = Note
           then (case fv_read fs of
                   Inl e \<Rightarrow> (Inl e, ix)
                 | Inr (content, st) \<Rightarrow> update_observation env set_match path (Some content) st ex ix)
           else update_observation env set_match path None
                  \<lparr> fsize = e_len m, created = None, modified = None \<rparr> ex ix))"

definition refresh_file ::
  "deps \<Rightarrow> ('s \<Rightarrow> str \<Rightarrow> bool) \<Rightarrow> FileView \<Rightarrow> str \<Rightarrow> 's ExcludeSet \<Rightarrow> lexical option \<Rightarrow> bool
     \<Rightarrow> (vault_error \<Rightarrow> str) \<Rightarrow> 's VaultIndex \<Rightarrow> bool vault_result \<times> 's VaultIndex" where
  "refresh_file env set_match fs path ex tantivy embeddings_enabled show_error ix =
     (let was_note = (map_of (notes ix) path \<noteq> None);
          (update, ix1) = update_file env set_match fs path ex False ix
      in finish_refresh env path was_note update tantivy embeddings_enabled show_error ix1)"

text \<open>\<^verbatim>\<open>reindex_file\<close> once the root is bound; \<open>resolved\<close> is the actual name of the path.\<close>

definition reindex_file ::
  "deps \<Rightarrow> ('s \<Rightarrow> str \<Rightarrow> bool) \<Rightarrow> str vault_result \<Rightarrow> (str \<Rightarrow> FileView) \<Rightarrow> str \<Rightarrow> 's VaultIndex
     \<Rightarrow> unit vault_result \<times> 's VaultIndex" where
  "reindex_file env set_match resolved fs path ix =
     (case resolved of
        Inl e \<Rightarrow> (Inl e, remove_file env path ix)
      | Inr actual \<Rightarrow>
          let ix1 = (if actual \<noteq> path then remove_file env path ix else ix);
              (result, ix2) = update_file env set_match (fs actual) actual (exclude ix1) True ix1;
              ix3 = (if is_ok result then ix2
                     else ix2 \<lparr> source_revisions := AList.delete actual (source_revisions ix2) \<rparr>)
          in (case result of
                Inr _ \<Rightarrow> (Inr (), ix3)
              | Inl e \<Rightarrow> (Inl e, if is_resource_limit e then ix3 else remove_file env actual ix3)))"

definition rename_file ::
  "deps \<Rightarrow> ('s \<Rightarrow> str \<Rightarrow> bool) \<Rightarrow> str vault_result \<Rightarrow> (str \<Rightarrow> FileView) \<Rightarrow> str \<Rightarrow> str \<Rightarrow> 's VaultIndex
     \<Rightarrow> unit vault_result \<times> 's VaultIndex" where
  "rename_file env set_match resolved fs old new ix =
     reindex_file env set_match resolved fs new (remove_file env old ix)"

section \<open>Watched prefixes on demand\<close>

definition tracked_paths :: "'s VaultIndex \<Rightarrow> str list" where
  "tracked_paths ix = map fst (notes ix) @ sorted_list_of_set (excluded_note_paths ix) @ map fst (attachments ix)"

definition open_watch_paths :: "deps \<Rightarrow> 's VaultIndex \<Rightarrow> 's VaultIndex" where
  "open_watch_paths env ix =
     (case watch_paths ix of
        Some _ \<Rightarrow> ix
      | None \<Rightarrow> ix \<lparr> watch_paths := Some (fold (watch_insert env) (tracked_paths ix) []) \<rparr>)"

section \<open>Publication of lexical commits\<close>

text \<open>\<^verbatim>\<open>publish_embedding_upserts\<close>: the paths to embed, in stamp order, and the remaining stamps.\<close>

definition publish_embedding_upserts :: "nat \<Rightarrow> 's VaultIndex \<Rightarrow> str list \<times> 's VaultIndex" where
  "publish_embedding_upserts committed ix =
     (let ready = sort_key snd (filter (\<lambda>(_, stamp). stamp \<le> committed) (waiting_for_lexical ix))
      in (filter (\<lambda>p. map_of (notes ix) p \<noteq> None) (map fst ready),
          ix \<lparr> waiting_for_lexical := filter (\<lambda>(_, stamp). \<not> stamp \<le> committed) (waiting_for_lexical ix) \<rparr>))"

datatype PendingKind = Upsert | AwaitingLexical | Remove

definition embedding_change :: "str \<Rightarrow> bool \<Rightarrow> 's VaultIndex \<Rightarrow> PendingKind option" where
  "embedding_change path was_note ix =
     (if map_of (waiting_for_lexical ix) path \<noteq> None then Some AwaitingLexical
      else if map_of (notes ix) path \<noteq> None then Some Upsert
      else if was_note then Some Remove else None)"

section \<open>Cold build\<close>

text \<open>
  \<^verbatim>\<open>build_sync\<close>: the files of the walk in its order, each with what the filesystem answers, the
  outcome of the lexical writer, and the cancellation check before a note is admitted.
\<close>

record Visit =
  v_path :: str
  v_fs :: FileView
  v_check :: "unit vault_result"
  v_index :: "unit vault_result"

definition build_note ::
  "deps \<Rightarrow> Visit \<Rightarrow> NoteMetadata \<Rightarrow> str \<Rightarrow> nat \<Rightarrow> 's VaultIndex \<Rightarrow> (nat \<times> 's VaultIndex) vault_result" where
  "build_note env v md content observed ix =
     try_bind (v_check v) (\<lambda>_.
     try_bind (ok_or (inventory_size_error (v_path v)) (checked_add observed (fsize (stat md)))) (\<lambda>observed.
     try_bind (v_index v) (\<lambda>_.
       Inr (observed,
            ix \<lparr> tags := fold (\<lambda>k. mm_insert k (v_path v)) (map (d_lower env) (ntags md)) (tags ix),
                 source_revisions := AList.update (v_path v) (d_revision env content) (source_revisions ix),
                 notes := AList.update (v_path v) md (notes ix) \<rparr>))))"

definition build_attachment :: "Visit \<Rightarrow> nat \<Rightarrow> 's VaultIndex \<Rightarrow> (nat \<times> 's VaultIndex) vault_result" where
  "build_attachment v observed ix =
     (case fv_entry (v_fs v) of
        Inl e \<Rightarrow> if skip_changed_entry e then Inr (observed, ix) else Inl e
      | Inr m \<Rightarrow>
          if e_file m \<and> \<not> e_link m
          then try_bind (ok_or (inventory_size_error (v_path v)) (checked_add observed (e_len m))) (\<lambda>observed.
               try_bind (ok_or (inventory_size_error (v_path v)) (checked_add (attachment_bytes ix) (e_len m))) (\<lambda>ab.
                 Inr (observed, ix \<lparr> attachments := AList.update (v_path v) (e_len m) (attachments ix),
                                     attachment_bytes := ab \<rparr>)))
          else Inr (observed, ix))"

definition build_visit ::
  "deps \<Rightarrow> ('s \<Rightarrow> str \<Rightarrow> bool) \<Rightarrow> 's ExcludeSet \<Rightarrow> Visit \<Rightarrow> nat \<times> 's VaultIndex \<Rightarrow> (nat \<times> 's VaultIndex) vault_result" where
  "build_visit env set_match ex v ox =
     (let (observed, ix) = ox; path = v_path v in
      case classify set_match path ex of
        Excluded \<Rightarrow> Inr (observed, ix \<lparr> excluded_note_paths := insert path (excluded_note_paths ix) \<rparr>)
      | Attachment \<Rightarrow> build_attachment v observed ix
      | Note \<Rightarrow>
          (case fv_read (v_fs v) of
             Inl _ \<Rightarrow> Inr ox
           | Inr (content, st) \<Rightarrow>
               (case parse_note_metadata env path content st of
                  Inl _ \<Rightarrow> Inr ox
                | Inr md \<Rightarrow>
                    if \<not> allows_source (d_yaml env) ex path content
                    then Inr (observed, ix \<lparr> excluded_note_paths := insert path (excluded_note_paths ix) \<rparr>)
                    else build_note env v md content observed ix)))"

fun build_walk ::
  "deps \<Rightarrow> ('s \<Rightarrow> str \<Rightarrow> bool) \<Rightarrow> 's ExcludeSet \<Rightarrow> Visit list \<Rightarrow> nat \<times> 's VaultIndex \<Rightarrow> (nat \<times> 's VaultIndex) vault_result" where
  "build_walk env set_match ex [] ox = Inr ox"
| "build_walk env set_match ex (v # vs) ox =
     try_bind (build_visit env set_match ex v ox) (build_walk env set_match ex vs)"

definition build_sync ::
  "deps \<Rightarrow> ('s \<Rightarrow> str \<Rightarrow> bool) \<Rightarrow> 's ExcludeSet \<Rightarrow> 's ExcludeSet \<Rightarrow> Visit list \<Rightarrow> unit vault_result \<Rightarrow> 's VaultIndex vault_result" where
  "build_sync env set_match none ex visits check =
     try_bind (build_walk env set_match ex visits (0, empty_index none)) (\<lambda>(_, ix).
     try_bind check (\<lambda>_.
       let ix1 = ix \<lparr> link_resolver := build_link_resolver (d_nfc env) (d_lower env) (map (npath \<circ> snd) (notes ix)) \<rparr>
       in Inr ((recompute_stats (rebuild_backlinks env ix1)) \<lparr> exclude := ex \<rparr>)))"

section \<open>Every step keeps the invariant\<close>

lemma batch_flag_inv:
  "index_inv env ix \<Longrightarrow> index_inv env (begin_source_batch ix)"
  unfolding index_inv_def begin_source_batch_def
  by (simp add: keys_inv_def tags_inv_def links_inv_def graph_of_def count_inv_alt watch_inv_alt tracked_def
      cong: option.case_cong)

lemma finish_batch_inv:
  assumes "index_inv env ix"
  shows "index_inv env (finish_source_batch env ix)"
proof (cases "source_batch ix")
  case False
  then have "ix \<lparr> source_batch := False \<rparr> = ix" by simp
  with False assms show ?thesis by (simp only: finish_source_batch_def Let_def if_False)
next
  case True
  let ?ix = "ix \<lparr> source_batch := False \<rparr>"
  have e: "finish_source_batch env ix = rebuild_backlinks env ?ix" using True by (simp add: finish_source_batch_def)
  have d: "distinct (map fst (notes ?ix))" using assms by (simp add: index_inv_def keys_inv_def)
  have "tracked (rebuild_backlinks env ?ix) = tracked ix" by (simp add: tracked_def)
  then show ?thesis
    using assms rebuild_backlinks_graph [of env ?ix] d
    unfolding e index_inv_def
    by (simp add: keys_inv_def tags_inv_def links_inv_def graph_of_def count_inv_alt watch_inv_alt
        cong: option.case_cong)
qed

lemma sync_lexical_cases:
  "snd (sync_lexical p was update tv emb ix) = ix
   \<or> (\<exists>stamp. map_of (notes ix) p \<noteq> None
        \<and> snd (sync_lexical p was update tv emb ix)
            = ix \<lparr> waiting_for_lexical := AList.update p stamp (waiting_for_lexical ix) \<rparr>)"
proof (cases "\<exists>t c m. tv = Some t \<and> update = Inr (Some c) \<and> map_of (notes ix) p = Some m")
  case True
  then obtain t c m where a: "tv = Some t" "update = Inr (Some c)" and m: "map_of (notes ix) p = Some m" by blast
  show ?thesis unfolding sync_lexical_def a m by (cases "lex_replace t"; cases emb) auto
next
  case False
  have "snd (sync_lexical p was update tv emb ix) = ix"
  proof (cases tv)
    case None
    then show ?thesis by (simp add: sync_lexical_def)
  next
    case (Some t)
    with False show ?thesis
      by (cases "lex_remove t"; cases update; cases "map_of (notes ix) p"; cases "projr update")
         (simp_all add: sync_lexical_def del: map_of_eq_Some_iff)
  qed
  then show ?thesis by blast
qed

lemma sync_lexical_inv:
  assumes i: "index_inv env ix"
  shows "index_inv env (snd (sync_lexical p was update tv emb ix))"
  using sync_lexical_cases [of p was update tv emb ix]
proof (elim disjE exE conjE)
  assume "snd (sync_lexical p was update tv emb ix) = ix"
  with i show ?thesis by simp
next
  fix stamp
  assume "map_of (notes ix) p \<noteq> None" and e: "snd (sync_lexical p was update tv emb ix)
      = ix \<lparr> waiting_for_lexical := AList.update p stamp (waiting_for_lexical ix) \<rparr>"
  then have "p \<in> note_paths ix" by (simp only: keys_map_of simp_thms)
  from waiting_update_inv [OF i this] show ?thesis unfolding e .
qed

lemma finish_refresh_inv:
  assumes i: "index_inv env ix" and p: "backslash \<notin> set p"
  shows "index_inv env (snd (finish_refresh env p was update tv emb sh ix))"
proof (cases "refused update")
  case True
  then show ?thesis using revision_delete_inv [OF i] by (simp add: finish_refresh_def)
next
  case False
  let ?ix1 = "if is_ok update then ix else remove_file env p ix"
  obtain lex ix2 where l: "sync_lexical p was update tv emb ?ix1 = (lex, ix2)"
    by (cases "sync_lexical p was update tv emb ?ix1")
  have "index_inv env ?ix1" using i remove_file_inv [OF i p] by simp
  then have i2: "index_inv env ix2" using sync_lexical_inv l by (metis snd_conv)
  have "snd (finish_refresh env p was update tv emb sh ix) = (if is_ok lex then ix2 else remove_file env p ix2)"
    using False by (simp add: finish_refresh_def Let_def l)
  then show ?thesis using i2 remove_file_inv [OF i2 p] by simp
qed

lemma update_file_inv:
  assumes i: "index_inv env ix" and p: "backslash \<notin> set p"
  shows "index_inv env (snd (update_file env sm fs p ex req ix))"
  using i remove_file_inv [OF i p] update_observation_inv [OF i p]
  by (simp add: update_file_def split: sum.splits prod.splits)

lemma refresh_file_inv:
  assumes i: "index_inv env ix" and p: "backslash \<notin> set p"
  shows "index_inv env (snd (refresh_file env sm fs p ex tv emb sh ix))"
  using finish_refresh_inv [OF update_file_inv [OF i p] p]
  by (simp add: refresh_file_def Let_def case_prod_unfold)

lemma apply_observation_inv:
  assumes i: "index_inv env ix" and p: "backslash \<notin> set p"
  shows "index_inv env (snd (apply_observation env sm p content st tv emb sh ix))"
  using finish_refresh_inv [OF update_observation_inv [OF i p] p]
  by (simp add: apply_observation_def Let_def case_prod_unfold)

lemma reindex_file_inv:
  assumes i: "index_inv env ix" and p: "backslash \<notin> set p" "pred_sum (\<lambda>_. True) (\<lambda>a. backslash \<notin> set a) resolved"
  shows "index_inv env (snd (reindex_file env sm resolved fs p ix))"
proof (cases resolved)
  case (Inl e)
  then show ?thesis by (simp add: reindex_file_def remove_file_inv [OF i p(1)])
next
  case (Inr a)
  with p(2) have a: "backslash \<notin> set a" by simp
  let ?ix1 = "if a \<noteq> p then remove_file env p ix else ix"
  obtain r ix2 where u: "update_file env sm (fs a) a (exclude ?ix1) True ?ix1 = (r, ix2)"
    by (cases "update_file env sm (fs a) a (exclude ?ix1) True ?ix1")
  have "index_inv env ?ix1" using i remove_file_inv [OF i p(1)] by simp
  from update_file_inv [OF this a] u have i2: "index_inv env ix2" by (metis snd_conv)
  let ?ix3 = "ix2 \<lparr> source_revisions := AList.delete a (source_revisions ix2) \<rparr>"
  have i3: "index_inv env ?ix3" by (rule revision_delete_inv [OF i2])
  have "snd (reindex_file env sm resolved fs p ix) = (case r of Inr _ \<Rightarrow> ix2
      | Inl e \<Rightarrow> if is_resource_limit e then ?ix3 else remove_file env a ?ix3)"
    unfolding reindex_file_def Inr sum.case Let_def u prod.case by (cases r) simp_all
  then show ?thesis using i2 i3 remove_file_inv [OF i3 a] by (cases r) simp_all
qed

lemma remove_projection_inv:
  "index_inv env ix \<Longrightarrow> backslash \<notin> set p \<Longrightarrow> index_inv env (snd (remove_projection env p tv ix))"
  by (auto simp: remove_projection_def Let_def remove_file_inv split: option.splits sum.splits)

lemma watch_ok_fold:
  "watch_ok env ps w \<Longrightarrow> finite ps \<Longrightarrow> distinct qs \<Longrightarrow> set qs \<inter> ps = {} \<Longrightarrow>
   watch_ok env (ps \<union> set qs) (fold (watch_insert env) qs w)"
proof (induction qs arbitrary: ps w)
  case (Cons q qs)
  have "watch_ok env (insert q ps) (watch_insert env q w)"
    using Cons.prems by (intro watch_ok_insert) auto
  from Cons.IH [OF this] Cons.prems show ?case by auto
qed simp

lemma tracked_paths_keys:
  assumes "keys_inv ix"
  shows "distinct (tracked_paths ix)" and "set (tracked_paths ix) = tracked ix"
proof -
  have fin: "finite (excluded_note_paths ix)" using assms by (simp add: keys_inv_def)
  have d: "distinct (map fst (notes ix))" "distinct (map fst (attachments ix))"
    and ex: "\<And>p. p \<in> excluded_note_paths ix \<Longrightarrow> is_markdown p"
    using assms unfolding keys_inv_def by blast+
  have "note_paths ix \<inter> excluded_note_paths ix = {}" using keys_note [OF assms] by blast
  moreover have "note_paths ix \<inter> fst ` set (attachments ix) = {}"
    using keys_note [OF assms] keys_attachment [OF assms] by blast
  moreover have "excluded_note_paths ix \<inter> fst ` set (attachments ix) = {}"
    using ex keys_attachment [OF assms] by blast
  ultimately show "distinct (tracked_paths ix)"
    using d fin unfolding tracked_paths_def distinct_append set_append set_map
    by (simp only: distinct_sorted_list_of_set set_sorted_list_of_set) blast
  show "set (tracked_paths ix) = tracked ix"
    using fin by (auto simp: tracked_paths_def tracked_def)
qed

lemma open_watch_inv:
  assumes i: "index_inv env ix"
  shows "index_inv env (open_watch_paths env ix)"
proof (cases "watch_paths ix")
  case (Some w)
  with i show ?thesis by (simp add: open_watch_paths_def)
next
  case None
  let ?ix = "ix \<lparr> watch_paths := Some (fold (watch_insert env) (tracked_paths ix) []) \<rparr>"
  have k: "keys_inv ix" using i by (simp add: index_inv_def)
  have "watch_ok env {} []" by (simp add: watch_ok_def watch_count_def)
  from watch_ok_fold [OF this _ tracked_paths_keys(1) [OF k]]
  have "watch_ok env (tracked ix) (fold (watch_insert env) (tracked_paths ix) [])"
    by (simp add: tracked_paths_keys(2) [OF k])
  moreover have "tracked ?ix = tracked ix" by (simp add: tracked_def)
  ultimately have "watch_inv env ?ix" by (simp add: watch_inv_alt)
  then show ?thesis
    using i None unfolding index_inv_def
    by (simp add: open_watch_paths_def keys_inv_def tags_inv_def links_inv_def graph_of_def count_inv_alt)
qed

lemma publish_inv:
  assumes i: "index_inv env ix"
  shows "index_inv env (snd (publish_embedding_upserts c ix))"
proof -
  let ?f = "filter (\<lambda>(_, stamp). \<not> stamp \<le> c) (waiting_for_lexical ix)"
  have "distinct (map fst ?f)" "fst ` set ?f \<subseteq> fst ` set (waiting_for_lexical ix)"
    using i by (auto simp: index_inv_def keys_inv_def intro: distinct_map_filter)
  then show ?thesis
    using i by (intro index_inv_frame [OF i])
      (auto simp: publish_embedding_upserts_def Let_def index_inv_def keys_inv_def)
qed

section \<open>The cold build establishes the invariant\<close>

definition walk_inv :: "deps \<Rightarrow> nat \<times> 's VaultIndex \<Rightarrow> bool" where
  "walk_inv env ox \<longleftrightarrow>
     (let (observed, ix) = ox in
      keys_inv ix \<and> tags_inv env ix \<and> attachment_bytes ix = table_sum (\<lambda>n. n) (attachments ix)
      \<and> observed = table_sum (\<lambda>n. fsize (stat n)) (notes ix) + attachment_bytes ix \<and> observed \<le> usize_max
      \<and> watch_paths ix = None \<and> \<not> source_batch ix)"

lemma walk_empty: "walk_inv env (0, empty_index none)"
  by (simp add: walk_inv_def empty_index_def keys_inv_def tags_inv_def mm_wf_def mm.rel_def mm_get_def)

lemma table_sum_fresh: "k \<notin> fst ` set t \<Longrightarrow> table_sum f (AList.update k v t) = f v + table_sum f t"
  by (induction t) (auto simp: table_sum_def)

lemma walk_excluded:
  assumes "walk_inv env (n, ix)" and "p \<notin> tracked ix" and "is_markdown p" "backslash \<notin> set p"
  shows "walk_inv env (n, ix \<lparr> excluded_note_paths := insert p (excluded_note_paths ix) \<rparr>)"
  using assms by (auto simp: walk_inv_def keys_inv_def tags_inv_def tracked_def)

lemma build_attachment_cases:
  assumes "build_attachment v n ix = Inr (n', ix')"
  shows "(n', ix') = (n, ix) \<or> (\<exists>sz. n' = n + sz \<and> n' \<le> usize_max
     \<and> ix' = ix \<lparr> attachments := AList.update (v_path v) sz (attachments ix),
                  attachment_bytes := attachment_bytes ix + sz \<rparr>)"
proof (cases "fv_entry (v_fs v)")
  case (Inl e)
  with assms show ?thesis by (auto simp: build_attachment_def split: if_splits)
next
  case (Inr m)
  with assms show ?thesis
    by (auto simp: build_attachment_def result_simps checked_add_Some_iff split: if_splits)
qed

lemma walk_attachment:
  assumes w: "walk_inv env (n, ix)" and new: "v_path v \<notin> tracked ix"
    and p: "\<not> is_markdown (v_path v)" "backslash \<notin> set (v_path v)"
    and r: "build_attachment v n ix = Inr (n', ix')"
  shows "walk_inv env (n', ix') \<and> tracked ix' \<subseteq> insert (v_path v) (tracked ix)"
  using build_attachment_cases [OF r]
proof (elim disjE exE conjE)
  assume "(n', ix') = (n, ix)"
  with w show ?thesis by auto
next
  fix sz
  let ?ix = "ix \<lparr> attachments := AList.update (v_path v) sz (attachments ix),
                  attachment_bytes := attachment_bytes ix + sz \<rparr>"
  assume s: "n' = n + sz" "n' \<le> usize_max" and e: "ix' = ?ix"
  have na: "v_path v \<notin> fst ` set (attachments ix)" "v_path v \<notin> note_paths ix" using new by (auto simp: tracked_def)
  have "keys_inv ix" "tags_inv env ix" using w by (simp_all add: walk_inv_def)
  then have "keys_inv ?ix" "tags_inv env ?ix"
    using p na by (auto simp: keys_inv_def tags_inv_def dom_update distinct_update)
  then have "walk_inv env (n', ?ix)"
    using w s table_sum_fresh [OF na(1), of "\<lambda>n. n" sz] by (simp add: walk_inv_def)
  then show ?thesis unfolding e by (auto simp: tracked_def dom_update)
qed

lemma walk_note:
  assumes w: "walk_inv env (n, ix)" and new: "v_path v \<notin> tracked ix"
    and p: "is_markdown (v_path v)" "backslash \<notin> set (v_path v)" "npath md = v_path v"
    and r: "build_note env v md content n ix = Inr (n', ix')"
  shows "walk_inv env (n', ix') \<and> tracked ix' \<subseteq> insert (v_path v) (tracked ix)"
proof -
  let ?p = "v_path v"
  let ?ix = "ix \<lparr> tags := fold (\<lambda>k. mm_insert k ?p) (map (d_lower env) (ntags md)) (tags ix),
                 source_revisions := AList.update ?p (d_revision env content) (source_revisions ix),
                 notes := AList.update ?p md (notes ix) \<rparr>"
  have e: "ix' = ?ix" and s: "n' = n + fsize (stat md)" "n' \<le> usize_max"
    using r by (auto simp: build_note_def result_simps checked_add_Some_iff)
  have np: "?p \<notin> note_paths ix" "?p \<notin> excluded_note_paths ix" using new by (auto simp: tracked_def)
  have k0: "keys_inv ix" and t0: "tags_inv env ix" using w by (simp_all add: walk_inv_def)
  have k: "keys_inv ?ix"
    using k0 p np unfolding keys_inv_def
    by (auto simp: dom_update distinct_update update_conv' simp del: map_of_eq_Some_iff)
  have t: "tags_inv env ?ix" by (rule tags_add [OF t0 np(1)]) simp_all
  have "walk_inv env (n', ?ix)"
    using w s k t table_sum_fresh [OF np(1), of "\<lambda>n. fsize (stat n)" md] by (simp add: walk_inv_def)
  then show ?thesis unfolding e by (auto simp: tracked_def dom_update)
qed

lemma classify_markdown: "classify sm p ex \<noteq> Attachment \<longleftrightarrow> is_markdown p"
  by (simp add: classify_def)

lemma walk_visit:
  assumes w: "walk_inv env ox" and new: "v_path v \<notin> tracked (snd ox)" and p: "backslash \<notin> set (v_path v)"
    and r: "build_visit env sm ex v ox = Inr ox'"
  shows "walk_inv env ox' \<and> tracked (snd ox') \<subseteq> insert (v_path v) (tracked (snd ox))"
proof -
  obtain n ix n' ix' where o: "ox = (n, ix)" "ox' = (n', ix')" by (cases ox; cases ox')
  have new': "v_path v \<notin> tracked ix" using new by (simp add: o)
  have same: "walk_inv env ox \<and> tracked (snd ox) \<subseteq> insert (v_path v) (tracked (snd ox))" using w by blast
  have ex: "walk_inv env (n, ix \<lparr> excluded_note_paths := insert (v_path v) (excluded_note_paths ix) \<rparr>)
      \<and> tracked (ix \<lparr> excluded_note_paths := insert (v_path v) (excluded_note_paths ix) \<rparr>)
        \<subseteq> insert (v_path v) (tracked ix)" if "is_markdown (v_path v)"
    using walk_excluded [OF w [unfolded o] new' that p] by (auto simp: tracked_def)
  show ?thesis
  proof (cases "classify sm (v_path v) ex")
    case Excluded
    then have "is_markdown (v_path v)" using classify_markdown [of sm "v_path v" ex] by simp
    with r Excluded ex show ?thesis by (auto simp: build_visit_def o Let_def)
  next
    case Attachment
    then have "\<not> is_markdown (v_path v)" using classify_markdown [of sm "v_path v" ex] by simp
    with r Attachment walk_attachment [OF w [unfolded o(1)] new' _ p] show ?thesis
      by (simp add: build_visit_def o Let_def)
  next
    case Note
    then have m: "is_markdown (v_path v)" using classify_markdown [of sm "v_path v" ex] by simp
    show ?thesis
    proof (cases "\<exists>c st md. fv_read (v_fs v) = Inr (c, st) \<and> parse_note_metadata env (v_path v) c st = Inr md")
      case False
      have "ox' = ox"
      proof (cases "fv_read (v_fs v)")
        case (Inr t)
        obtain c st where t: "t = (c, st)" by (cases t)
        with False Inr obtain e where "parse_note_metadata env (v_path v) c st = Inl e"
          by (cases "parse_note_metadata env (v_path v) c st") auto
        with r Note Inr t show ?thesis by (simp add: build_visit_def o Let_def)
      qed (use r Note in \<open>simp add: build_visit_def o Let_def\<close>)
      with same show ?thesis by simp
    next
      case True
      then obtain c st md where a: "fv_read (v_fs v) = Inr (c, st)" "parse_note_metadata env (v_path v) c st = Inr md"
        by blast
      have np: "npath md = v_path v" using parse_note_metadata_fields [OF a(2)] by blast
      show ?thesis
        using r Note a ex [OF m] walk_note [OF w [unfolded o(1)] new' m p np]
        by (auto simp: build_visit_def o Let_def split: if_splits)
    qed
  qed
qed

lemma walk_all:
  "walk_inv env ox \<Longrightarrow> list_all (\<lambda>v. backslash \<notin> set (v_path v)) vs \<Longrightarrow> distinct (map v_path vs) \<Longrightarrow>
   set (map v_path vs) \<inter> tracked (snd ox) = {} \<Longrightarrow> build_walk env sm ex vs ox = Inr ox' \<Longrightarrow> walk_inv env ox'"
proof (induction vs arbitrary: ox)
  case (Cons v vs)
  obtain o1 where o1: "build_visit env sm ex v ox = Inr o1" "build_walk env sm ex vs o1 = Inr ox'"
    using Cons.prems(5) by (auto simp: result_simps)
  have f: "v_path v \<notin> tracked (snd ox)" "backslash \<notin> set (v_path v)" using Cons.prems(2,4) by auto
  note s = walk_visit [OF Cons.prems(1) f o1(1)]
  have dis: "set (map v_path vs) \<inter> tracked (snd o1) = {}"
  proof -
    have "set (map v_path vs) \<inter> insert (v_path v) (tracked (snd ox)) = {}" using Cons.prems(3,4) by simp
    with s show ?thesis by blast
  qed
  show ?case
    by (rule Cons.IH [OF _ _ _ dis o1(2)]) (use s Cons.prems in auto)
qed simp

lemma build_sync_inv:
  assumes b: "build_sync env sm none ex vs check = Inr ix"
    and vs: "list_all (\<lambda>v. backslash \<notin> set (v_path v)) vs" "distinct (map v_path vs)"
  shows "index_inv env ix"
proof -
  obtain n ix0 where w0: "build_walk env sm ex vs (0, empty_index none) = Inr (n, ix0)"
    and e: "ix = (recompute_stats (rebuild_backlinks env (ix0 \<lparr> link_resolver :=
       build_link_resolver (d_nfc env) (d_lower env) (map (npath \<circ> snd) (notes ix0)) \<rparr>))) \<lparr> exclude := ex \<rparr>"
    using b by (auto simp: build_sync_def Let_def result_simps)
  let ?ix1 = "ix0 \<lparr> link_resolver :=
       build_link_resolver (d_nfc env) (d_lower env) (map (npath \<circ> snd) (notes ix0)) \<rparr>"
  let ?ix2 = "rebuild_backlinks env ?ix1"
  have "walk_inv env (n, ix0)"
    by (rule walk_all [OF walk_empty vs _ w0]) (simp add: tracked_def empty_index_def)
  then have w: "keys_inv ix0" "tags_inv env ix0" "attachment_bytes ix0 = table_sum (\<lambda>n. n) (attachments ix0)"
    "table_sum (\<lambda>n. fsize (stat n)) (notes ix0) + attachment_bytes ix0 \<le> usize_max"
    "watch_paths ix0 = None" "\<not> source_batch ix0"
    by (auto simp: walk_inv_def)
  have d: "distinct (map fst (notes ix0))" using w(1) by (simp add: keys_inv_def)
  have "npath nt = p" if "(p, nt) \<in> set (notes ix0)" for p nt
    using w(1) d that by (auto simp: keys_inv_def)
  then have ps: "map (npath \<circ> snd) (notes ix0) = map fst (notes ix0)" by auto
  have "stems_agree (d_nfc env) (d_lower env) [] empty_resolver" "paths_agree (d_nfc env) (d_lower env) [] empty_resolver"
    by (simp_all add: stems_agree_def paths_agree_def empty_resolver_def)
  from fold_insert_agrees [OF this, of "map fst (notes ix0)"]
  have st: "stems_agree (d_nfc env) (d_lower env) (map fst (notes ix0)) (link_resolver ?ix2)"
    by (simp add: build_link_resolver_def ps)
  have g: "mm_wf (backlinks ?ix2)" "mm.rel (backlinks ?ix2) = graph_of env ?ix2"
    using rebuild_backlinks_graph [of env ?ix1] d by (auto simp: graph_of_def)
  have "keys_inv ix" using w(1) unfolding e by (simp add: recompute_stats_def keys_inv_def)
  moreover have "tags_inv env ix" using w(2) unfolding e by (simp add: recompute_stats_def tags_inv_def)
  moreover have "links_inv env ix"
    using st g unfolding e links_inv_def graph_of_def by (simp add: recompute_stats_def)
  moreover have "count_inv ix" using w(3,4) unfolding e count_inv_alt by (simp add: recompute_stats_def)
  moreover have "watch_inv env ix" using w(5) unfolding e watch_inv_alt by (simp add: recompute_stats_def)
  ultimately show ?thesis by (simp add: index_inv_def)
qed

section \<open>Runs\<close>

text \<open>
  Paths that reach the index come from the logical path layer and hold no backslash; the walk
  visits each physical name once.
\<close>

inductive index_step ::
  "deps \<Rightarrow> ('s \<Rightarrow> str \<Rightarrow> bool) \<Rightarrow> 's VaultIndex \<Rightarrow> 's VaultIndex \<Rightarrow> bool" for env sm where
  observe: "backslash \<notin> set p \<Longrightarrow> index_step env sm ix (snd (apply_observation env sm p content st tv emb sh ix))"
| unchanged: "index_step env sm ix (snd (refresh_unchanged_note p r st ix))"
| refresh: "backslash \<notin> set p \<Longrightarrow> index_step env sm ix (snd (refresh_file env sm fs p ex tv emb sh ix))"
| reindex: "backslash \<notin> set p \<Longrightarrow> pred_sum (\<lambda>_. True) (\<lambda>a. backslash \<notin> set a) resolved \<Longrightarrow>
    index_step env sm ix (snd (reindex_file env sm resolved fss p ix))"
| rename: "backslash \<notin> set old \<Longrightarrow> backslash \<notin> set p \<Longrightarrow> pred_sum (\<lambda>_. True) (\<lambda>a. backslash \<notin> set a) resolved \<Longrightarrow>
    index_step env sm ix (snd (rename_file env sm resolved fss old p ix))"
| remove: "backslash \<notin> set p \<Longrightarrow> index_step env sm ix (remove_file env p ix)"
| projection: "backslash \<notin> set p \<Longrightarrow> index_step env sm ix (snd (remove_projection env p tv ix))"
| exclude: "backslash \<notin> set p \<Longrightarrow> index_step env sm ix (add_excluded_file env p ix)"
| begin_batch: "index_step env sm ix (begin_source_batch ix)"
| finish_batch: "index_step env sm ix (finish_source_batch env ix)"
| open_watch: "index_step env sm ix (open_watch_paths env ix)"
| publish: "index_step env sm ix (snd (publish_embedding_upserts c ix))"

inductive index_reachable :: "deps \<Rightarrow> ('s \<Rightarrow> str \<Rightarrow> bool) \<Rightarrow> 's VaultIndex \<Rightarrow> bool" for env sm where
  fresh: "index_reachable env sm (empty_index ex)"
| built: "build_sync env sm none ex vs check = Inr ix \<Longrightarrow> list_all (\<lambda>v. backslash \<notin> set (v_path v)) vs \<Longrightarrow>
    distinct (map v_path vs) \<Longrightarrow> index_reachable env sm ix"
| step: "index_reachable env sm ix \<Longrightarrow> index_step env sm ix ix' \<Longrightarrow> index_reachable env sm ix'"

lemma empty_index_inv: "index_inv env (empty_index ex)"
  by (simp add: index_inv_def empty_index_def keys_inv_def tags_inv_def mm_wf_def mm.rel_def mm_get_def
      links_inv_def graph_of_def stems_agree_def empty_resolver_def count_inv_alt watch_inv_alt)

lemma index_step_inv: "index_step env sm ix ix' \<Longrightarrow> index_inv env ix \<Longrightarrow> index_inv env ix'"
proof (induction rule: index_step.induct)
  case (rename old p resolved ix fss)
  then show ?case by (simp add: rename_file_def reindex_file_inv remove_file_inv)
qed (simp_all add: apply_observation_inv refresh_unchanged_inv refresh_file_inv reindex_file_inv remove_file_inv
    remove_projection_inv add_excluded_inv batch_flag_inv finish_batch_inv open_watch_inv publish_inv)

lemma reachable_inv: "index_reachable env sm ix \<Longrightarrow> index_inv env ix"
  by (induction rule: index_reachable.induct) (auto intro: empty_index_inv build_sync_inv index_step_inv)

lemma links_inv_rebuild:
  assumes "links_inv env ix" and "keys_inv ix" and "\<not> source_batch ix"
  shows "mm_get (backlinks ix) q = mm_get (backlinks (rebuild_backlinks env ix)) q"
proof -
  have "mm.rel (backlinks ix) = mm.rel (backlinks (rebuild_backlinks env ix))"
    using assms rebuild_backlinks_graph [of env ix] by (simp add: links_inv_def keys_inv_def)
  then show ?thesis unfolding mm.rel_def by (auto simp: set_eq_iff)
qed

text \<open>
  Property C3. Every index the service can reach, from an empty index or a completed cold build by
  any sequence of observations, refreshes, renames, removals, batches and publications, is
  consistent: the paths of notes, excluded notes and attachments are apart, the tag table is what
  the metadata say, the incrementally kept backlinks are those a full rebuild would find, the
  incrementally kept totals are the recomputed ones and fit in 64 bits, and the watched prefixes
  count the tracked paths.
\<close>

theorem index_reachable_inv:
  assumes "index_reachable env sm ix"
  shows "index_inv env ix \<and> stats ix = stats (recompute_stats ix)
    \<and> (\<not> source_batch ix \<longrightarrow>
         (\<forall>q. mm_get (backlinks ix) q = mm_get (backlinks (rebuild_backlinks env ix)) q))"
proof (intro conjI impI allI)
  show i: "index_inv env ix" by (rule reachable_inv [OF assms])
  show "mm_get (backlinks ix) q = mm_get (backlinks (rebuild_backlinks env ix)) q" if "\<not> source_batch ix" for q
    using i that by (simp add: index_inv_def links_inv_rebuild)
  show "stats ix = stats (recompute_stats ix)" using i by (simp add: index_inv_def count_inv_def)
qed

definition plain_deps :: deps where
  "plain_deps = \<lparr> d_nfc = (\<lambda>s. s), d_lower = (\<lambda>s. s), d_upper = (\<lambda>s. s), d_yaml = (\<lambda>_. Inr JNull),
     d_json = (\<lambda>_. []), d_events = (\<lambda>_ _. []), d_tags = (\<lambda>_. []), d_revision = (\<lambda>s. s) \<rparr>"

definition two_notes :: "unit VaultIndex" where
  "two_notes =
     (let ex = \<lparr> globs = (), patterns = [], private_memory = False \<rparr>;
          obs = (\<lambda>p t ix. snd (apply_observation plain_deps (\<lambda>_ _. False) p (Some t)
                   \<lparr> fsize = length t, created = None, modified = None \<rparr> None False (\<lambda>_. []) ix))
      in obs ''b.md'' ''plain'' (obs ''d/a.md'' ''see [[b]]'' (empty_index ex)))"

lemma two_notes_reachable: "index_reachable plain_deps (\<lambda>_ _. False) two_notes"
  unfolding two_notes_def Let_def
  by (intro index_reachable.step [OF index_reachable.step [OF index_reachable.fresh
        index_step.observe] index_step.observe]) simp_all

lemma two_notes_eval:
  "map_of (backlinks two_notes) ''b.md'' = Some {''d/a.md''}" "total_links (stats two_notes) = 1"
  by code_simp+

theorem index_reachable_inv_witness:
  "index_inv plain_deps two_notes \<and> map_of (backlinks two_notes) ''b.md'' = Some {''d/a.md''}
   \<and> total_links (stats two_notes) = 1"
  using index_reachable_inv [OF two_notes_reachable] two_notes_eval by blast

end
