(* ===== verification/IndexQueries.thy ===== *)
theory IndexQueries
  imports IndexRun
begin

text \<open>
  The queries of the index: tags, links, orphans, frontmatter fields, text search with its context
  windows, and the isolated read view. A query over hash containers has no order; it is modelled
  by the set of its answers, one over the note table by the list in the table's order.
\<close>

section \<open>Queries\<close>

definition notes_of :: "'s VaultIndex \<Rightarrow> str set \<Rightarrow> NoteMetadata set" where
  "notes_of ix ps = (\<lambda>p. the (map_of (notes ix) p)) ` {p \<in> ps. map_of (notes ix) p \<noteq> None}"

definition get_note :: "str \<Rightarrow> 's VaultIndex \<Rightarrow> NoteMetadata option" where
  "get_note path ix = map_of (notes ix) (logical_separators path)"

definition notes_with_tag :: "deps \<Rightarrow> str \<Rightarrow> 's VaultIndex \<Rightarrow> NoteMetadata set" where
  "notes_with_tag env tag ix = notes_of ix (mm_get (tags ix) (d_lower env tag))"

definition notes_with_tag_prefix :: "deps \<Rightarrow> str \<Rightarrow> 's VaultIndex \<Rightarrow> NoteMetadata set" where
  "notes_with_tag_prefix env prefix0 ix =
     (let pre = d_lower env prefix0; nested = pre @ ''/'' in
      notes_of ix (\<Union>(tag, paths) \<in> set (tags ix). if tag = pre \<or> starts_with tag nested then paths else {}))"

definition backlinks_to :: "str \<Rightarrow> 's VaultIndex \<Rightarrow> NoteMetadata set" where
  "backlinks_to path ix = notes_of ix (mm_get (backlinks ix) (logical_separators path))"

definition outgoing_links :: "str \<Rightarrow> 's VaultIndex \<Rightarrow> WikiLink list" where
  "outgoing_links path ix =
     (case map_of (notes ix) (logical_separators path) of Some n \<Rightarrow> links n | None \<Rightarrow> [])"

definition broken_links :: "deps \<Rightarrow> 's VaultIndex \<Rightarrow> (str \<times> WikiLink) list" where
  "broken_links env ix =
     concat (map (\<lambda>(_, n). map (Pair (npath n))
        (filter (\<lambda>l. target l \<noteq> [] \<and> \<not> is_resolved (d_nfc env) (d_lower env) (link_resolver ix) (target l)) (links n)))
        (notes ix))"

definition orphan_notes :: "'s VaultIndex \<Rightarrow> NoteMetadata list" where
  "orphan_notes ix =
     map snd (filter (\<lambda>(path, n).
        \<not> (case map_of (backlinks ix) path of Some s \<Rightarrow> s \<noteq> {} | None \<Rightarrow> False)
        \<and> \<not> (\<exists>l \<in> set (links n). target l \<noteq> [])) (notes ix))"

definition frontmatter_field_matches :: "json \<Rightarrow> str \<Rightarrow> json \<Rightarrow> bool" where
  "frontmatter_field_matches fm field value =
     (case json_get fm field of
        None \<Rightarrow> False
      | Some v \<Rightarrow> v = value \<or> (case v of JArray arr \<Rightarrow> value \<in> set arr | _ \<Rightarrow> False))"

definition frontmatter_field_contains :: "json \<Rightarrow> str \<Rightarrow> json \<Rightarrow> bool" where
  "frontmatter_field_contains fm field value =
     (case json_get fm field of
        None \<Rightarrow> False
      | Some v \<Rightarrow>
          (case v of
             JArray arr \<Rightarrow> value \<in> set arr
           | JString haystack \<Rightarrow> (case value of JString needle \<Rightarrow> contains_str haystack needle | _ \<Rightarrow> False)
           | _ \<Rightarrow> v = value))"

definition notes_where :: "(json \<Rightarrow> bool) \<Rightarrow> 's VaultIndex \<Rightarrow> NoteMetadata list" where
  "notes_where P ix =
     filter (\<lambda>n. case frontmatter n of Some fm \<Rightarrow> P fm | None \<Rightarrow> False) (map snd (notes ix))"

definition search_frontmatter :: "str \<Rightarrow> json \<Rightarrow> 's VaultIndex \<Rightarrow> NoteMetadata list" where
  "search_frontmatter field value ix = notes_where (\<lambda>fm. frontmatter_field_matches fm field value) ix"

definition search_frontmatter_exists :: "str \<Rightarrow> 's VaultIndex \<Rightarrow> NoteMetadata list" where
  "search_frontmatter_exists field ix = notes_where (\<lambda>fm. json_get fm field \<noteq> None) ix"

definition search_frontmatter_contains :: "str \<Rightarrow> json \<Rightarrow> 's VaultIndex \<Rightarrow> NoteMetadata list" where
  "search_frontmatter_contains field value ix = notes_where (\<lambda>fm. frontmatter_field_contains fm field value) ix"

section \<open>Text search\<close>

definition extract_match_context :: "str \<Rightarrow> nat \<Rightarrow> nat \<Rightarrow> nat \<Rightarrow> str \<times> nat \<times> nat \<times> nat" where
  "extract_match_context content match_start match_end context_len =
     (let ctx_start = floor_boundary content (match_start - context_len);
          ctx_end = ceil_boundary content (min (sat_add match_end context_len) (length content));
          line = count_list (slice content 0 match_start) LF;
          start_chars = length (chars (slice content ctx_start match_start));
          len_chars = length (chars (slice content match_start match_end))
      in (slice content ctx_start ctx_end, start_chars, start_chars + len_chars, line))"

record SearchMatch =
  match_line :: nat
  match_context :: str
  match_from :: nat
  match_to :: nat

type_synonym SearchResult = "str \<times> SearchMatch list"

text \<open>\<open>find_iter\<close> is the byte ranges the compiled expression matches in a text.\<close>

fun search_loop ::
  "(str \<Rightarrow> (nat \<times> nat) list) \<Rightarrow> (str \<Rightarrow> str vault_result) \<Rightarrow> nat \<Rightarrow> nat option \<Rightarrow> str list
     \<Rightarrow> SearchResult list \<Rightarrow> SearchResult list" where
  "search_loop find_iter read n limit [] results = results"
| "search_loop find_iter read n limit (path # paths) results =
     (if limit = Some (length results) then results
      else case read path of
        Inl _ \<Rightarrow> search_loop find_iter read n limit paths results
      | Inr content \<Rightarrow>
          let matches = map (\<lambda>(a, b). case extract_match_context content a b n of
                               (context, from, to, line) \<Rightarrow>
                                 \<lparr> match_line = line, match_context = context, match_from = from, match_to = to \<rparr>)
                          (find_iter content)
          in search_loop find_iter read n limit paths
               (if matches = [] then results else results @ [(path, matches)]))"

definition search_with_regex ::
  "(str \<Rightarrow> (nat \<times> nat) list) \<Rightarrow> (str \<Rightarrow> str vault_result) \<Rightarrow> nat \<Rightarrow> nat option \<Rightarrow> 's VaultIndex
     \<Rightarrow> SearchResult list vault_result" where
  "search_with_regex find_iter read_observed n limit ix =
     (if limit = Some 0 then Inr []
      else Inr (search_loop find_iter
             (\<lambda>p. case read_contents ix of
                    Some contents \<Rightarrow> ok_or (NoteNotFound p) (map_of contents p)
                  | None \<Rightarrow> read_observed p)
             n limit (map fst (notes ix)) []))"

text \<open>\<open>compile\<close> is the regular expression compiler, with the matcher it builds.\<close>

definition search_text_limited ::
  "(str \<Rightarrow> str + (str \<Rightarrow> (nat \<times> nat) list)) \<Rightarrow> (str \<Rightarrow> str) \<Rightarrow> (str \<Rightarrow> str vault_result) \<Rightarrow> str \<Rightarrow> nat
     \<Rightarrow> nat option \<Rightarrow> 's VaultIndex \<Rightarrow> SearchResult list vault_result" where
  "search_text_limited compile escape read_observed query n limit ix =
     (if query = [] then Inr []
      else try_bind (map_err (InvalidRegex query) (compile (''(?i)'' @ escape query))) (\<lambda>re.
        search_with_regex re read_observed n limit ix))"

definition MAX_REGEX_PATTERN_LEN :: nat where "MAX_REGEX_PATTERN_LEN = 1000"

definition search_regex_limited ::
  "(str \<Rightarrow> str + (str \<Rightarrow> (nat \<times> nat) list)) \<Rightarrow> (str \<Rightarrow> str vault_result) \<Rightarrow> str \<Rightarrow> nat
     \<Rightarrow> nat option \<Rightarrow> 's VaultIndex \<Rightarrow> SearchResult list vault_result" where
  "search_regex_limited compile read_observed pattern n limit ix =
     (if MAX_REGEX_PATTERN_LEN < length pattern
      then Inl (InvalidRegex pattern (''pattern exceeds maximum length of '' @ dec_string MAX_REGEX_PATTERN_LEN @ '' characters''))
      else try_bind (map_err (InvalidRegex pattern) (compile pattern)) (\<lambda>re.
        search_with_regex re read_observed n limit ix))"

definition search_regex ::
  "(str \<Rightarrow> str + (str \<Rightarrow> (nat \<times> nat) list)) \<Rightarrow> (str \<Rightarrow> str vault_result) \<Rightarrow> str \<Rightarrow> nat
     \<Rightarrow> nat \<Rightarrow> 's VaultIndex \<Rightarrow> SearchResult list vault_result" where
  "search_regex compile read_observed pattern n max_results ix =
     search_regex_limited compile read_observed pattern n (if max_results \<noteq> 0 then Some max_results else None) ix"

section \<open>Read view\<close>

definition read_view_note ::
  "deps \<Rightarrow> 's VaultIndex \<Rightarrow> str table \<Rightarrow> str \<times> NoteMetadata \<Rightarrow> 's VaultIndex \<Rightarrow> 's VaultIndex" where
  "read_view_note env ix contents pn view =
     (let (path, old) = pn in
      case map_of contents path of
        None \<Rightarrow> view
      | Some content \<Rightarrow>
          if \<not> allows_source (d_yaml env) (exclude ix) path content then view
          else case parse_note_metadata env path content (stat old) of
                 Inl _ \<Rightarrow> view
               | Inr md0 \<Rightarrow>
                   let md = md0 \<lparr> links := filter (\<lambda>l.
                         case resolve (d_nfc env) (d_lower env) (link_resolver ix) (target l) of
                           None \<Rightarrow> True
                         | Some t \<Rightarrow> map_of contents t \<noteq> None) (links md0) \<rparr>
                   in view \<lparr> tags := fold (\<lambda>k. mm_insert k path) (map (d_lower env) (ntags md)) (tags view),
                             source_revisions := AList.update path (d_revision env content) (source_revisions view),
                             notes := AList.update path md (notes view) \<rparr>)"

definition read_view :: "deps \<Rightarrow> 's ExcludeSet \<Rightarrow> str table \<Rightarrow> 's VaultIndex \<Rightarrow> 's VaultIndex" where
  "read_view env none contents ix =
     (let view = fold (read_view_note env ix contents) (notes ix) ((empty_index none) \<lparr> exclude := exclude ix \<rparr>);
          view = view \<lparr> link_resolver := build_link_resolver (d_nfc env) (d_lower env) (map (npath \<circ> snd) (notes view)) \<rparr>
      in (recompute_stats (rebuild_backlinks env view)) \<lparr> read_contents := Some contents \<rparr>)"

section \<open>What the queries answer\<close>

lemma notes_of_iff:
  "n \<in> notes_of ix ps \<longleftrightarrow> (\<exists>p \<in> ps. map_of (notes ix) p = Some n)"
  unfolding notes_of_def by (force simp del: map_of_eq_Some_iff)

lemma table_filter:
  "distinct (map fst t) \<Longrightarrow> n \<in> set (map snd (filter (\<lambda>(p, n). P p n) t)) \<longleftrightarrow> (\<exists>p. map_of t p = Some n \<and> P p n)"
  by force

lemma tag_entry:
  assumes "tags_inv env ix"
  shows "p \<in> mm_get (tags ix) k \<longleftrightarrow> (\<exists>n. map_of (notes ix) p = Some n \<and> k \<in> d_lower env ` set (ntags n))"
proof -
  have "(k, p) \<in> mm.rel (tags ix) \<longleftrightarrow> p \<in> note_paths ix \<and> k \<in> d_lower env ` set (ntags (note_at ix p))"
    using assms unfolding tags_inv_def by auto
  then show ?thesis unfolding keys_map_of mm.rel_def by (auto simp del: map_of_eq_Some_iff)
qed

lemma backlink_entry:
  assumes "links_inv env ix" and "\<not> source_batch ix"
  shows "p \<in> mm_get (backlinks ix) q \<longleftrightarrow>
     (\<exists>n. map_of (notes ix) p = Some n \<and> q \<in> set (link_keys env (link_resolver ix) (links n)))"
proof -
  have "(q, p) \<in> mm.rel (backlinks ix) \<longleftrightarrow>
      p \<in> note_paths ix \<and> q \<in> set (link_keys env (link_resolver ix) (links (note_at ix p)))"
    using assms unfolding links_inv_def graph_of_def by auto
  then show ?thesis unfolding keys_map_of mm.rel_def by (auto simp del: map_of_eq_Some_iff)
qed

lemma link_keys_iff:
  "q \<in> set (link_keys env r ls) \<longleftrightarrow>
     (\<exists>l \<in> set ls. target l \<noteq> [] \<and> resolve (d_nfc env) (d_lower env) r (target l) = Some q)"
  by (auto simp: link_keys_def in_set_map_filter split: if_splits)

lemma index_queries_exact_parts:
  assumes r: "index_reachable env sm ix"
  shows "notes_with_tag env tag ix =
      {n. \<exists>p. map_of (notes ix) p = Some n \<and> d_lower env tag \<in> d_lower env ` set (ntags n)}"
    and "\<not> source_batch ix \<Longrightarrow> backlinks_to path ix =
      {n. \<exists>p l. map_of (notes ix) p = Some n \<and> l \<in> set (links n) \<and> target l \<noteq> []
            \<and> resolve (d_nfc env) (d_lower env) (link_resolver ix) (target l) = Some (logical_separators path)}"
    and "\<not> source_batch ix \<Longrightarrow> n \<in> set (orphan_notes ix) \<longleftrightarrow>
      map_of (notes ix) (npath n) = Some n \<and> (\<forall>l \<in> set (links n). target l = [])
      \<and> \<not> (\<exists>p m l. map_of (notes ix) p = Some m \<and> l \<in> set (links m) \<and> target l \<noteq> []
             \<and> resolve (d_nfc env) (d_lower env) (link_resolver ix) (target l) = Some (npath n))"
proof -
  have i: "keys_inv ix" "tags_inv env ix" "links_inv env ix"
    using reachable_inv [OF r] by (simp_all add: index_inv_def)
  show "notes_with_tag env tag ix =
      {n. \<exists>p. map_of (notes ix) p = Some n \<and> d_lower env tag \<in> d_lower env ` set (ntags n)}"
    by (rule set_eqI) (unfold notes_with_tag_def notes_of_iff Bex_def tag_entry [OF i(2)] mem_Collect_eq, fastforce simp del: map_of_eq_Some_iff)
  show "backlinks_to path ix =
      {n. \<exists>p l. map_of (notes ix) p = Some n \<and> l \<in> set (links n) \<and> target l \<noteq> []
            \<and> resolve (d_nfc env) (d_lower env) (link_resolver ix) (target l) = Some (logical_separators path)}"
    if "\<not> source_batch ix"
    by (rule set_eqI)
       (unfold backlinks_to_def notes_of_iff Bex_def backlink_entry [OF i(3) that] link_keys_iff mem_Collect_eq,
        fastforce simp del: map_of_eq_Some_iff)
  show "n \<in> set (orphan_notes ix) \<longleftrightarrow>
      map_of (notes ix) (npath n) = Some n \<and> (\<forall>l \<in> set (links n). target l = [])
      \<and> \<not> (\<exists>p m l. map_of (notes ix) p = Some m \<and> l \<in> set (links m) \<and> target l \<noteq> []
             \<and> resolve (d_nfc env) (d_lower env) (link_resolver ix) (target l) = Some (npath n))"
    if b: "\<not> source_batch ix"
  proof -
    have d: "distinct (map fst (notes ix))" and np: "\<And>p m. map_of (notes ix) p = Some m \<Longrightarrow> npath m = p"
      using i(1) unfolding keys_inv_def by blast+
    have one: "(\<exists>p. map_of (notes ix) p = Some n \<and> Q p) \<longleftrightarrow> map_of (notes ix) (npath n) = Some n \<and> Q (npath n)" for Q
      using np by (metis (no_types))
    have inc: "(case map_of (backlinks ix) q of Some s \<Rightarrow> s \<noteq> {} | None \<Rightarrow> False) \<longleftrightarrow>
        (\<exists>p m l. map_of (notes ix) p = Some m \<and> l \<in> set (links m) \<and> target l \<noteq> []
             \<and> resolve (d_nfc env) (d_lower env) (link_resolver ix) (target l) = Some q)" for q
    proof -
      have "(case map_of (backlinks ix) q of Some s \<Rightarrow> s \<noteq> {} | None \<Rightarrow> False) \<longleftrightarrow> (\<exists>p. p \<in> mm_get (backlinks ix) q)"
        by (auto simp: mm_get_def split: option.splits)
      then show ?thesis unfolding backlink_entry [OF i(3) b] link_keys_iff by blast
    qed
    have "n \<in> set (orphan_notes ix) \<longleftrightarrow> (\<exists>p. map_of (notes ix) p = Some n
        \<and> \<not> (case map_of (backlinks ix) p of Some s \<Rightarrow> s \<noteq> {} | None \<Rightarrow> False) \<and> (\<forall>l \<in> set (links n). target l = []))"
      unfolding orphan_notes_def table_filter [OF d] by simp
    also have "\<dots> \<longleftrightarrow> map_of (notes ix) (npath n) = Some n
        \<and> \<not> (case map_of (backlinks ix) (npath n) of Some s \<Rightarrow> s \<noteq> {} | None \<Rightarrow> False)
        \<and> (\<forall>l \<in> set (links n). target l = [])"
      by (rule one)
    finally show ?thesis unfolding inc by blast
  qed
qed

text \<open>
  Property C4. The tag and backlink queries of a reachable index are exact: a tag query returns
  precisely the notes that carry the tag in any spelling of its case, a backlink query (outside a
  batch) precisely the notes with a link that resolves to the path, and a note is an orphan exactly
  when neither it links anywhere nor any note links to it.
\<close>

theorem index_queries_exact:
  assumes "index_reachable env sm ix"
  shows "notes_with_tag env tag ix =
      {n. \<exists>p. map_of (notes ix) p = Some n \<and> d_lower env tag \<in> d_lower env ` set (ntags n)}
    \<and> (\<not> source_batch ix \<longrightarrow> backlinks_to path ix =
      {n. \<exists>p l. map_of (notes ix) p = Some n \<and> l \<in> set (links n) \<and> target l \<noteq> []
            \<and> resolve (d_nfc env) (d_lower env) (link_resolver ix) (target l) = Some (logical_separators path)})
    \<and> (\<not> source_batch ix \<longrightarrow> (n \<in> set (orphan_notes ix) \<longleftrightarrow>
      map_of (notes ix) (npath n) = Some n \<and> (\<forall>l \<in> set (links n). target l = [])
      \<and> \<not> (\<exists>p m l. map_of (notes ix) p = Some m \<and> l \<in> set (links m) \<and> target l \<noteq> []
             \<and> resolve (d_nfc env) (d_lower env) (link_resolver ix) (target l) = Some (npath n))))"
  using index_queries_exact_parts [OF assms] by blast


lemma two_notes_batch: "\<not> source_batch two_notes"
  by code_simp

theorem index_queries_exact_witness:
  "backlinks_to ''b.md'' two_notes =
      {n. \<exists>p l. map_of (notes two_notes) p = Some n \<and> l \<in> set (links n) \<and> target l \<noteq> []
            \<and> resolve (\<lambda>s. s) (\<lambda>s. s) (link_resolver two_notes) (target l) = Some ''b.md''}
   \<and> npath ` backlinks_to ''b.md'' two_notes = {''d/a.md''}"
proof -
  have "npath ` backlinks_to ''b.md'' two_notes = {''d/a.md''}" "logical_separators ''b.md'' = ''b.md''"
    by code_simp+
  then show ?thesis
    using index_queries_exact [OF two_notes_reachable, where path = "''b.md''"] two_notes_batch
    by (simp add: plain_deps_def)
qed

section \<open>Context windows\<close>

lemma extract_match_context_exact_parts:
  assumes u: "utf8 s" and a: "is_boundary s a" and b: "is_boundary s b" and le: "a \<le> b"
    and sz: "length s < usize_max"
    and r: "extract_match_context s a b n = (ctx, from, til, line)"
  shows "\<exists>lo hi. ctx = slice s lo hi \<and> lo \<le> a - n \<and> min (b + n) (length s) \<le> hi \<and> hi \<le> length s
      \<and> is_boundary s lo \<and> is_boundary s hi"
    and "concat (take (til - from) (drop from (chars ctx))) = slice s a b"
    and "from \<le> til" and "til \<le> length (chars ctx)"
    and "line = count_list (take a s) LF"
proof -
  let ?lo = "floor_boundary s (a - n)" and ?hi = "ceil_boundary s (min (sat_add b n) (length s))"
  have bl: "b \<le> length s" by (rule is_boundary_le [OF b])
  have lo: "?lo \<le> a - n" "?lo \<le> a" using floor_boundary_le [of s "a - n"] by simp_all
  have mm: "min (sat_add b n) (length s) = min (b + n) (length s)"
    using sz by (auto simp: sat_add_def)
  have hi: "min (b + n) (length s) \<le> ?hi" unfolding mm by (rule ceil_boundary_ge) simp
  then have hib: "b \<le> ?hi" using bl by simp
  have hil: "?hi \<le> length s" by (rule is_boundary_le [OF ceil_boundary_boundary])
  have parts: "ctx = slice s ?lo ?hi" "from = length (chars (slice s ?lo a))"
    "til = from + length (chars (slice s a b))" "line = count_list (take a s) LF"
    using r by (auto simp: extract_match_context_def Let_def slice_def)
  have "slice s ?lo ?hi = slice s ?lo a @ slice s a b @ slice s b ?hi"
    using slice_append [OF lo(2) le, of s] slice_append [OF le_trans [OF lo(2) le] hib, of s]
    by (metis append.assoc)
  moreover have "utf8 (slice s ?lo a)" by (rule utf8_slice [OF u floor_boundary_boundary a lo(2)])
  moreover have "utf8 (slice s a b)" by (rule utf8_slice [OF u a b le])
  ultimately have ch: "chars ctx = chars (slice s ?lo a) @ chars (slice s a b) @ chars (slice s b ?hi)"
    unfolding parts by (simp add: chars_append)
  show "\<exists>lo hi. ctx = slice s lo hi \<and> lo \<le> a - n \<and> min (b + n) (length s) \<le> hi \<and> hi \<le> length s
      \<and> is_boundary s lo \<and> is_boundary s hi"
    using parts(1) lo(1) hi hil by (intro exI [of _ ?lo] exI [of _ ?hi]) simp
  show "concat (take (til - from) (drop from (chars ctx))) = slice s a b"
    unfolding ch parts(2,3) by (simp add: concat_chars)
  show "from \<le> til" "til \<le> length (chars ctx)" unfolding ch parts(2,3) by simp_all
  show "line = count_list (take a s) LF" by (rule parts(4))
qed

text \<open>
 The context window of a match is sound: the window is a piece of the text on
  character boundaries that holds the match and at least the requested number of bytes on each side
  (or the text's end), the two character offsets cut exactly the matched text out of the window, and
  the line is the number of line feeds before the match.
\<close>

lemma extract_match_context_exact:
  assumes "utf8 s" and "is_boundary s a" and "is_boundary s b" and "a \<le> b" and "length s < usize_max"
    and "extract_match_context s a b n = (ctx, from, til, line)"
  shows "(\<exists>lo hi. ctx = slice s lo hi \<and> lo \<le> a - n \<and> min (b + n) (length s) \<le> hi \<and> hi \<le> length s
        \<and> is_boundary s lo \<and> is_boundary s hi)
    \<and> concat (take (til - from) (drop from (chars ctx))) = slice s a b
    \<and> from \<le> til \<and> til \<le> length (chars ctx) \<and> line = count_list (take a s) LF"
  using extract_match_context_exact_parts [OF assms] by blast


lemma context_example: "extract_match_context ''one two three'' 4 7 2 = (''e two t'', 2, 5, 0)"
  by code_simp

lemma extract_match_context_exact_example:
  "concat (take (5 - 2) (drop 2 (chars ''e two t''))) = slice ''one two three'' 4 7"
  by (rule conjunct1 [OF conjunct2 [OF extract_match_context_exact [OF _ _ _ _ _ context_example]]]) (code_simp+)

section \<open>Refused and published changes\<close>

text \<open>
  Property C39. A change that would push the total size past 64 bits is refused and leaves the index
  as it was: the observation of a note or attachment fails with a resource-limit error, and every
  table, total and lexical stamp keeps its value; only the revision shortcut of the path is
  dropped, so the next observation reads it again.
\<close>

theorem overflow_refused:
  assumes vis: "is_visible_path p"
    and cls: "classify sm p (exclude ix) = Note \<and> content = Some t \<and> allows_source (d_yaml env) (exclude ix) p t
        \<and> is_ok (parse_note_metadata env p t st)
      \<or> classify sm p (exclude ix) = Attachment \<and> map_of (attachments ix) p \<noteq> Some (fsize st)"
    and over: "usize_max < vault_size_bytes (stats ix)
        - (case map_of (notes ix) p of Some n \<Rightarrow> fsize (stat n)
           | None \<Rightarrow> (case map_of (attachments ix) p of Some n \<Rightarrow> n | None \<Rightarrow> 0)) + fsize st"
  shows "apply_observation env sm p content st tv emb sh ix =
     (Inl (inventory_size_error p), ix \<lparr> source_revisions := AList.delete p (source_revisions ix) \<rparr>)"
proof -
  have o: "observed_byte_totals ix p (fsize st) f = Inl (inventory_size_error p)" for f
  proof -
    let ?old = "case map_of (notes ix) p of Some n \<Rightarrow> fsize (stat n)
           | None \<Rightarrow> (case map_of (attachments ix) p of Some n \<Rightarrow> n | None \<Rightarrow> 0)"
    have "Option.bind (checked_sub (vault_size_bytes (stats ix)) ?old) (\<lambda>rest. checked_add rest (fsize st)) = None"
      using over by (cases "?old \<le> vault_size_bytes (stats ix)") (simp_all add: checked_sub_def checked_add_def)
    then show ?thesis unfolding observed_byte_totals_def Let_def by simp
  qed
  have "update_observation env sm p content st (exclude ix) ix = (Inl (inventory_size_error p), ix)"
    using cls
  proof (elim disjE conjE)
    assume c: "classify sm p (exclude ix) = Note" "content = Some t" "allows_source (d_yaml env) (exclude ix) p t"
      "is_ok (parse_note_metadata env p t st)"
    obtain md where md: "parse_note_metadata env p t st = Inr md"
      using c(4) by (cases "parse_note_metadata env p t st") simp_all
    have "stat md = st" using parse_note_metadata_fields [OF md] by blast
    with vis c(1-3) md o show ?thesis by (simp add: update_observation_def)
  next
    assume "classify sm p (exclude ix) = Attachment" "map_of (attachments ix) p \<noteq> Some (fsize st)"
    with vis o show ?thesis by (simp add: update_observation_def del: map_of_eq_Some_iff)
  qed
  then show ?thesis
    by (simp add: apply_observation_def Let_def finish_refresh_def refused_def inventory_size_error_def)
qed


text \<open>A full index: one attachment whose size is the largest total.\<close>

definition full_index :: "unit VaultIndex" where
  "full_index =
     (empty_index \<lparr> globs = (), patterns = [], private_memory = False \<rparr>)
       \<lparr> attachments := [(''x.png'', usize_max)], attachment_bytes := usize_max,
         stats := \<lparr> total_notes = 0, total_files = 1, total_tags = 0, total_links = 0,
                    vault_size_bytes = usize_max, excluded_notes = 0 \<rparr> \<rparr>"

theorem overflow_refused_witness:
  "fst (apply_observation plain_deps (\<lambda>_ _. False) ''y.png'' None
      \<lparr> fsize = 1, created = None, modified = None \<rparr> None False (\<lambda>_. []) full_index)
     = Inl (inventory_size_error ''y.png'')"
proof -
  have c: "is_visible_path ''y.png''" "classify (\<lambda>_ _. False) ''y.png'' (exclude full_index) = Attachment"
    "map_of (attachments full_index) ''y.png'' = None" "map_of (notes full_index) ''y.png'' = None"
    "vault_size_bytes (stats full_index) = usize_max"
    by code_simp+
  show ?thesis
    by (subst overflow_refused) (simp_all add: c del: map_of_eq_None_iff)
qed

lemma publish_embedding_upserts_gate_parts:
  assumes r: "index_reachable env sm ix" and p: "publish_embedding_upserts c ix = (ps, ix')"
  shows "set ps = {q. \<exists>s \<le> c. map_of (waiting_for_lexical ix) q = Some s}"
    and "distinct ps" and "sorted (map (\<lambda>q. the (map_of (waiting_for_lexical ix) q)) ps)"
    and "q \<in> set ps \<Longrightarrow> embedding_change q was ix' = Some Upsert"
    and "map_of (waiting_for_lexical ix) q = Some s \<Longrightarrow> c < s \<Longrightarrow> embedding_change q was ix' = Some AwaitingLexical"
proof -
  let ?w = "waiting_for_lexical ix"
  let ?f = "filter (\<lambda>(_, stamp). stamp \<le> c) ?w"
  have d: "distinct (map fst ?w)" and sub: "fst ` set ?w \<subseteq> note_paths ix"
    using reachable_inv [OF r] by (simp_all add: index_inv_def keys_inv_def)
  have at: "(q, s) \<in> set ?w \<longleftrightarrow> map_of ?w q = Some s" for q s using d by simp
  have all: "map_of (notes ix) q \<noteq> None" if "q \<in> fst ` set ?w" for q
    using that sub unfolding keys_map_of [symmetric] by blast
  have ps: "ps = map fst (sort_key snd ?f)"
    using p all by (auto simp: publish_embedding_upserts_def Let_def filter_id_conv simp del: map_of_eq_Some_iff)
  have ix': "waiting_for_lexical ix' = filter (\<lambda>(_, stamp). \<not> stamp \<le> c) ?w" "notes ix' = notes ix"
    using p by (auto simp: publish_embedding_upserts_def Let_def)
  have mem: "set ps = {q. \<exists>s \<le> c. map_of ?w q = Some s}"
    unfolding ps using at by (force simp del: map_of_eq_Some_iff)
  then show "set ps = {q. \<exists>s \<le> c. map_of ?w q = Some s}" .
  have df: "distinct (map fst ?f)" using d by (rule distinct_map_filter)
  have "mset ps = mset (map fst ?f)" unfolding ps by (metis mset_map mset_sort)
  then show "distinct ps" using df by (metis mset_eq_imp_distinct_iff)
  have "map (\<lambda>q. the (map_of ?w q)) ps = map snd (sort_key snd ?f)"
    unfolding ps map_map using at by (intro map_cong refl) (auto simp del: map_of_eq_Some_iff)
  then show "sorted (map (\<lambda>q. the (map_of ?w q)) ps)" by simp
  have w': "map_of (waiting_for_lexical ix') q = Some s \<longleftrightarrow> map_of ?w q = Some s \<and> c < s" for q s
    unfolding ix' using d distinct_map_filter [OF d] by (simp add: at [symmetric] linorder_not_le)
  show "embedding_change q was ix' = Some Upsert" if q: "q \<in> set ps"
  proof -
    obtain s where s: "map_of ?w q = Some s" "s \<le> c" using q mem by auto
    have "map_of (waiting_for_lexical ix') q = None"
      by (metis w' s not_Some_eq option.inject linorder_not_le)
    moreover have "map_of (notes ix') q \<noteq> None" unfolding ix'(2)
      by (rule all) (simp only: keys_map_of s option.distinct simp_thms)
    ultimately show ?thesis unfolding embedding_change_def by (simp only: simp_thms if_False if_True)
  qed
  show "embedding_change q was ix' = Some AwaitingLexical" if "map_of ?w q = Some s" "c < s"
    using w' [of q s] that by (simp add: embedding_change_def del: map_of_eq_Some_iff)
qed

text \<open>
  Property C19. The gate between the lexical index and the embeddings: publishing a lexical commit
  hands over exactly the notes whose staged document the commit covers, each once and in stamp
  order; those are afterwards plain upserts, while a note written after the commit stays held.
\<close>

theorem publish_embedding_upserts_gate:
  assumes "index_reachable env sm ix" and "publish_embedding_upserts c ix = (ps, ix')"
  shows "set ps = {q. \<exists>s \<le> c. map_of (waiting_for_lexical ix) q = Some s}
    \<and> distinct ps \<and> sorted (map (\<lambda>q. the (map_of (waiting_for_lexical ix) q)) ps)
    \<and> (\<forall>q \<in> set ps. embedding_change q was ix' = Some Upsert)
    \<and> (\<forall>q s. map_of (waiting_for_lexical ix) q = Some s \<longrightarrow> c < s \<longrightarrow>
         embedding_change q was ix' = Some AwaitingLexical)"
  using publish_embedding_upserts_gate_parts [OF assms] by blast


definition staged_note :: "unit VaultIndex" where
  "staged_note =
     snd (apply_observation plain_deps (\<lambda>_ _. False) ''b.md'' (Some ''plain'')
       \<lparr> fsize = 5, created = None, modified = None \<rparr> (Some \<lparr> lex_replace = Inr 7, lex_remove = Inr () \<rparr>) True
       (\<lambda>_. []) (empty_index \<lparr> globs = (), patterns = [], private_memory = False \<rparr>))"

lemma staged_note_reachable: "index_reachable plain_deps (\<lambda>_ _. False) staged_note"
  unfolding staged_note_def
  by (intro index_reachable.step [OF index_reachable.fresh index_step.observe]) simp

theorem publish_embedding_upserts_gate_witness:
  "distinct (fst (publish_embedding_upserts 7 staged_note)) \<and> fst (publish_embedding_upserts 7 staged_note) = [''b.md'']
   \<and> embedding_change ''b.md'' False staged_note = Some AwaitingLexical
   \<and> embedding_change ''b.md'' False (snd (publish_embedding_upserts 7 staged_note)) = Some Upsert"
proof -
  have e: "fst (publish_embedding_upserts 7 staged_note) = [''b.md'']"
    "embedding_change ''b.md'' False staged_note = Some AwaitingLexical"
    by code_simp+
  have p: "publish_embedding_upserts 7 staged_note = ([''b.md''], snd (publish_embedding_upserts 7 staged_note))"
    by (simp only: e(1) [symmetric] prod.collapse)
  show ?thesis
    using publish_embedding_upserts_gate [OF staged_note_reachable p, of False] e by simp
qed

section \<open>The isolated read view\<close>

definition view_ok :: "deps \<Rightarrow> 's VaultIndex \<Rightarrow> str table \<Rightarrow> 's VaultIndex \<Rightarrow> bool" where
  "view_ok env ix contents view \<longleftrightarrow>
     (\<forall>p n. map_of (notes view) p = Some n \<longrightarrow>
        p \<in> note_paths ix
        \<and> (\<exists>text. map_of contents p = Some text \<and> allows_source (d_yaml env) (exclude ix) p text)
        \<and> (\<forall>l \<in> set (links n). \<forall>t. resolve (d_nfc env) (d_lower env) (link_resolver ix) (target l) = Some t \<longrightarrow>
             map_of contents t \<noteq> None))"

lemma read_view_note_ok:
  assumes "view_ok env ix contents view" and "p \<in> note_paths ix"
  shows "view_ok env ix contents (read_view_note env ix contents (p, old) view)"
proof (cases "\<exists>text md0. map_of contents p = Some text \<and> allows_source (d_yaml env) (exclude ix) p text
    \<and> parse_note_metadata env p text (stat old) = Inr md0")
  case False
  then have "read_view_note env ix contents (p, old) view = view"
    by (auto simp: read_view_note_def split: option.splits sum.splits simp del: map_of_eq_Some_iff)
  with assms show ?thesis by simp
next
  case True
  then obtain body md0 where a: "map_of contents p = Some body" "allows_source (d_yaml env) (exclude ix) p body"
    "parse_note_metadata env p body (stat old) = Inr md0"
    by blast
  let ?md = "md0 \<lparr> links := filter (\<lambda>l. case resolve (d_nfc env) (d_lower env) (link_resolver ix) (target l) of
                           None \<Rightarrow> True | Some t \<Rightarrow> map_of contents t \<noteq> None) (links md0) \<rparr>"
  have n: "notes (read_view_note env ix contents (p, old) view) = AList.update p ?md (notes view)"
    using a by (simp add: read_view_note_def Let_def del: map_of_eq_Some_iff)
  have m: "map_of (AList.update p ?md (notes view)) q = (if q = p then Some ?md else map_of (notes view) q)" for q
    by (simp add: update_conv')
  have l: "\<forall>l \<in> set (links ?md). \<forall>t. resolve (d_nfc env) (d_lower env) (link_resolver ix) (target l) = Some t \<longrightarrow>
      map_of contents t \<noteq> None"
    by (auto simp del: map_of_eq_Some_iff not_None_eq)
  show ?thesis
    unfolding view_ok_def n m
  proof (intro allI impI)
    fix q nt
    assume q: "(if q = p then Some ?md else map_of (notes view) q) = Some nt"
    show "q \<in> note_paths ix
        \<and> (\<exists>text. map_of contents q = Some text \<and> allows_source (d_yaml env) (exclude ix) q text)
        \<and> (\<forall>l \<in> set (links nt). \<forall>t. resolve (d_nfc env) (d_lower env) (link_resolver ix) (target l) = Some t \<longrightarrow>
             map_of contents t \<noteq> None)"
    proof (cases "q = p")
      case True
      with q have "nt = ?md" by simp
      with True a l assms(2) show ?thesis by blast
    next
      case False
      with q assms(1) show ?thesis unfolding view_ok_def by (simp del: map_of_eq_Some_iff)
    qed
  qed
qed

lemma read_view_fold:
  "view_ok env ix contents view \<Longrightarrow> set ns \<subseteq> set (notes ix) \<Longrightarrow>
   view_ok env ix contents (fold (read_view_note env ix contents) ns view)"
proof (induction ns arbitrary: view)
  case (Cons e ns)
  obtain p old where e: "e = (p, old)" by (cases e)
  have "p \<in> note_paths ix" using Cons.prems(2) e by force
  from read_view_note_ok [OF Cons.prems(1) this] Cons show ?case by (simp add: e)
qed simp

lemma read_view_confined_parts:
  shows "map_of (notes (read_view env none contents ix)) p = Some n \<Longrightarrow>
      p \<in> note_paths ix \<and> (\<exists>text. map_of contents p = Some text \<and> allows_source (d_yaml env) (exclude ix) p text)"
    and "map_of (notes (read_view env none contents ix)) p = Some n \<Longrightarrow> l \<in> set (links n) \<Longrightarrow>
      resolve (d_nfc env) (d_lower env) (link_resolver ix) (target l) = Some t \<Longrightarrow> map_of contents t \<noteq> None"
    and "attachments (read_view env none contents ix) = [] \<and> excluded_note_paths (read_view env none contents ix) = {}"
proof -
  let ?view0 = "(empty_index none) \<lparr> exclude := exclude ix \<rparr>"
  let ?fold = "fold (read_view_note env ix contents) (notes ix) ?view0"
  have "view_ok env ix contents ?view0" by (simp add: view_ok_def empty_index_def)
  then have ok: "view_ok env ix contents ?fold" by (rule read_view_fold) simp
  have n: "notes (read_view env none contents ix) = notes ?fold"
    by (simp add: read_view_def Let_def recompute_stats_def)
  show "map_of (notes (read_view env none contents ix)) p = Some n \<Longrightarrow>
      p \<in> note_paths ix \<and> (\<exists>text. map_of contents p = Some text \<and> allows_source (d_yaml env) (exclude ix) p text)"
    and "map_of (notes (read_view env none contents ix)) p = Some n \<Longrightarrow> l \<in> set (links n) \<Longrightarrow>
      resolve (d_nfc env) (d_lower env) (link_resolver ix) (target l) = Some t \<Longrightarrow> map_of contents t \<noteq> None"
    using ok unfolding n view_ok_def by blast+
  have "attachments (read_view_note env ix contents pn view) = attachments view
      \<and> excluded_note_paths (read_view_note env ix contents pn view) = excluded_note_paths view" for pn view
    by (auto simp: read_view_note_def Let_def split: option.splits sum.splits prod.splits)
  then have "attachments (fold (read_view_note env ix contents) ns view) = attachments view
      \<and> excluded_note_paths (fold (read_view_note env ix contents) ns view) = excluded_note_paths view" for ns view
    by (induction ns arbitrary: view) simp_all
  then show "attachments (read_view env none contents ix) = [] \<and> excluded_note_paths (read_view env none contents ix) = {}"
    by (simp add: read_view_def Let_def recompute_stats_def empty_index_def)
qed

text \<open>
  Property C21. A read view is confined to the contents it was given: each of its notes is a note of
  the index whose supplied text the exclusion policy admits, and none of its links resolves, in the
  full vault, to a note outside the supplied contents; its graph and totals are rebuilt from these
  notes alone.
\<close>

theorem read_view_confined:
  shows "(\<forall>p n. map_of (notes (read_view env none contents ix)) p = Some n \<longrightarrow>
        p \<in> note_paths ix
        \<and> (\<exists>text. map_of contents p = Some text \<and> allows_source (d_yaml env) (exclude ix) p text)
        \<and> (\<forall>l \<in> set (links n). \<forall>t.
             resolve (d_nfc env) (d_lower env) (link_resolver ix) (target l) = Some t \<longrightarrow> map_of contents t \<noteq> None))
    \<and> attachments (read_view env none contents ix) = [] \<and> excluded_note_paths (read_view env none contents ix) = {}"
proof (intro conjI allI impI ballI)
  fix p n assume m: "map_of (notes (read_view env none contents ix)) p = Some n"
  show "p \<in> note_paths ix"
    and "\<exists>text. map_of contents p = Some text \<and> allows_source (d_yaml env) (exclude ix) p text"
    using read_view_confined_parts(1) [OF m] by (rule conjunct1, rule conjunct2)
  show "map_of contents t \<noteq> None" if "l \<in> set (links n)"
    "resolve (d_nfc env) (d_lower env) (link_resolver ix) (target l) = Some t" for l t
    by (rule read_view_confined_parts(2) [OF m that])
next
  show "attachments (read_view env none contents ix) = []"
    by (rule conjunct1 [OF read_view_confined_parts(3)])
  show "excluded_note_paths (read_view env none contents ix) = {}"
    by (rule conjunct2 [OF read_view_confined_parts(3)])
qed


definition half_view :: "unit VaultIndex" where
  "half_view = read_view plain_deps (exclude two_notes) [(''d/a.md'', ''see [[b]]'')] two_notes"

theorem read_view_confined_witness:
  "''d/a.md'' \<in> note_paths two_notes \<and> map fst (notes half_view) = [''d/a.md'']
   \<and> links (note_at half_view ''d/a.md'') = [] \<and> links (note_at two_notes ''d/a.md'') \<noteq> []"
proof -
  have e: "map fst (notes half_view) = [''d/a.md'']" "links (note_at half_view ''d/a.md'') = []"
    "links (note_at two_notes ''d/a.md'') \<noteq> []"
    by code_simp+
  then obtain n where "map_of (notes half_view) ''d/a.md'' = Some n" by auto
  with read_view_confined [where env = plain_deps and contents = "[(''d/a.md'', ''see [[b]]'')]"
      and ix = two_notes, of "exclude two_notes", folded half_view_def] e
  show ?thesis by blast
qed

end
