(* ===== verification/Source.thy ===== *)
theory Source
  imports Markdown Frontmatter "HOL-Library.Code_Target_Nat"
begin

text \<open>
  Source snapshots (src/src/vault/source.rs): the revision of a text, bounded pages of it and
  bounded pages of its headings with their sections. SHA-256 is the parameter \<open>digest\<close> (32 bytes),
  the Markdown event stream the parameter \<open>parse\<close>, and the JSON length of a record the parameters
  \<open>record_len\<close> and \<open>page_len\<close> of the serialiser.
\<close>

definition MAX_PAGE_BYTES :: nat where "MAX_PAGE_BYTES = 256 * 1024"
definition DEFAULT_PAGE_BYTES :: nat where "DEFAULT_PAGE_BYTES = 64 * 1024"
definition DEFAULT_HEADING_COUNT :: nat where "DEFAULT_HEADING_COUNT = 100"
definition MAX_HEADING_COUNT :: nat where "MAX_HEADING_COUNT = 1000"
definition MAX_HEADING_PREVIEW_CHARS :: nat where "MAX_HEADING_PREVIEW_CHARS = 256"

record SourceRange =
  start_byte :: nat
  end_byte :: nat

record SourceSnapshot =
  s_content :: str
  s_revision :: str

record SourcePage =
  p_content :: str
  p_revision :: str
  p_source_bytes :: nat
  requested_range :: SourceRange
  returned_range :: SourceRange
  next_range :: "SourceRange option"

record SourceHeading =
  ordinal :: nat
  parent_ordinal :: "nat option"
  sh_level :: nat
  sh_text :: str
  text_truncated :: bool
  heading_range :: SourceRange
  section_range :: SourceRange

record SourceHeadingsPage =
  hp_revision :: str
  hp_source_bytes :: nat
  total_headings :: nat
  hp_headings :: "SourceHeading list"
  next_heading_offset :: "nat option"

section \<open>Revisions\<close>

definition HEX :: str where "HEX = ''0123456789abcdef''"

definition hex_pair :: "nat \<Rightarrow> str" where
  "hex_pair b = [HEX ! (b div 16), HEX ! (b mod 16)]"

definition source_revision :: "(str \<Rightarrow> nat list) \<Rightarrow> str \<Rightarrow> str" where
  "source_revision digest content = concat (map hex_pair (digest content))"

definition source_revision_matches :: "(str \<Rightarrow> nat list) \<Rightarrow> str \<Rightarrow> str \<Rightarrow> bool" where
  "source_revision_matches digest content expected \<longleftrightarrow>
     length expected = 64 \<and> concat (map hex_pair (digest content)) = expected"

definition is_hex_digit :: "char \<Rightarrow> bool" where
  "is_hex_digit c \<longleftrightarrow> 48 \<le> byte c \<and> byte c \<le> 57 \<or> 97 \<le> byte c \<and> byte c \<le> 102"

definition validate_revision :: "str \<Rightarrow> unit vault_result" where
  "validate_revision revision =
     (if length revision = 64 \<and> list_all is_hex_digit revision then Inr ()
      else Inl (InvalidSourceRange ''expected_revision must contain exactly 64 lowercase hexadecimal digits''))"

definition SourceSnapshot_new :: "(str \<Rightarrow> nat list) \<Rightarrow> str \<Rightarrow> SourceSnapshot" where
  "SourceSnapshot_new digest content =
     \<lparr> s_content = content, s_revision = source_revision digest content \<rparr>"

definition check_revision :: "SourceSnapshot \<Rightarrow> str \<Rightarrow> str option \<Rightarrow> unit vault_result" where
  "check_revision s path expected =
     (case expected of
        None \<Rightarrow> Inr ()
      | Some r \<Rightarrow> try_bind (validate_revision r) (\<lambda>_.
          if r \<noteq> s_revision s then Inl (SourceChanged path r (s_revision s)) else Inr ()))"

section \<open>Pages\<close>

definition body_range :: "SourceSnapshot \<Rightarrow> SourceRange" where
  "body_range s =
     \<lparr> start_byte = (case extract_raw_frontmatter (s_content s) of Some (_, off) \<Rightarrow> off | None \<Rightarrow> 0),
       end_byte = length (s_content s) \<rparr>"

definition validate_range :: "SourceSnapshot \<Rightarrow> SourceRange \<Rightarrow> unit vault_result" where
  "validate_range s r =
     (if end_byte r < start_byte r \<or> length (s_content s) < end_byte r
      then Inl (InvalidSourceRange (dec_string (start_byte r) @ ''..'' @ dec_string (end_byte r)
                  @ '' is outside a '' @ dec_string (length (s_content s)) @ ''-byte note''))
      else if \<not> is_boundary (s_content s) (start_byte r) \<or> \<not> is_boundary (s_content s) (end_byte r)
      then Inl (InvalidSourceRange ''range endpoints must be UTF-8 character boundaries'')
      else Inr ())"

definition validate_limit :: "nat \<Rightarrow> nat \<Rightarrow> str \<Rightarrow> nat vault_result" where
  "validate_limit v cap nm =
     (if v = 0 \<or> cap < v
      then Inl (InvalidSourceRange (nm @ '' must be between 1 and '' @ dec_string cap)) else Inr v)"

definition page_budget :: "SourceRange option \<Rightarrow> nat option \<Rightarrow> nat option vault_result" where
  "page_budget rng max_bytes =
     (case max_bytes of
        Some v \<Rightarrow> try_bind (validate_limit v MAX_PAGE_BYTES ''max_bytes'') (\<lambda>b. Inr (Some b))
      | None \<Rightarrow> Inr (if rng \<noteq> None then Some DEFAULT_PAGE_BYTES else None))"

definition page ::
  "SourceSnapshot \<Rightarrow> str \<Rightarrow> str option \<Rightarrow> SourceRange option \<Rightarrow> nat option \<Rightarrow> SourcePage vault_result" where
  "page s path expected_revision rng max_bytes =
     (if rng \<noteq> None \<and> expected_revision = None
      then Inl (InvalidSourceRange ''expected_revision is required with range'')
      else
        try_bind (check_revision s path expected_revision) (\<lambda>_.
        let content = s_content s;
            req = (case rng of Some r \<Rightarrow> r | None \<Rightarrow> \<lparr> start_byte = 0, end_byte = length content \<rparr>)
        in try_bind (validate_range s req) (\<lambda>_.
           try_bind (page_budget rng max_bytes) (\<lambda>budget.
           let stop = (case budget of
                         Some b \<Rightarrow> floor_boundary content (min (sat_add (start_byte req) b) (end_byte req))
                       | None \<Rightarrow> end_byte req)
           in if stop = start_byte req \<and> stop < end_byte req
              then Inl (InvalidSourceRange ''max_bytes cannot fit the next UTF-8 character'')
              else Inr \<lparr> p_content = slice content (start_byte req) stop, p_revision = s_revision s,
                         p_source_bytes = length content, requested_range = req,
                         returned_range = \<lparr> start_byte = start_byte req, end_byte = stop \<rparr>,
                         next_range = (if stop < end_byte req
                                       then Some \<lparr> start_byte = stop, end_byte = end_byte req \<rparr> else None) \<rparr>))))"

section \<open>Heading sections\<close>

text \<open>
  One pass with a stack of open headings: a heading closes every open heading of its level or a
  deeper one, and its parent is what stays on top. \<open>close_sections\<close> is the inner loop.
\<close>

fun close_sections :: "HeadingPos list \<Rightarrow> HeadingPos \<Rightarrow> nat list \<times> nat list \<Rightarrow> nat list \<times> nat list" where
  "close_sections hs h ([], ends) = ([], ends)"
| "close_sections hs h (previous # stack, ends) =
     (if level (hs ! previous) < level h then (previous # stack, ends)
      else close_sections hs h (stack, ends[previous := offset h]))"

definition section_step ::
  "HeadingPos list \<Rightarrow> nat \<Rightarrow> nat list \<times> nat option list \<times> nat list \<Rightarrow> nat list \<times> nat option list \<times> nat list" where
  "section_step hs i st =
     (let (stack, parents, ends) = st;
          (stack', ends') = close_sections hs (hs ! i) (stack, ends)
      in (i # stack', parents[i := (case stack' of [] \<Rightarrow> None | p # _ \<Rightarrow> Some p)], ends'))"

definition heading_sections :: "HeadingPos list \<Rightarrow> nat \<Rightarrow> nat option list \<times> nat list" where
  "heading_sections hs size0 =
     (let (stack, parents, ends) = fold (section_step hs) [0..<length hs]
            ([], replicate (length hs) None, replicate (length hs) size0)
      in (parents, ends))"

definition heading_record :: "HeadingPos list \<Rightarrow> nat option list \<Rightarrow> nat list \<Rightarrow> nat \<Rightarrow> SourceHeading" where
  "heading_record hs parents ends i =
     (let h = hs ! i; txt = concat (take MAX_HEADING_PREVIEW_CHARS (chars (htext h)))
      in \<lparr> ordinal = i, parent_ordinal = parents ! i, sh_level = level h, sh_text = txt,
           text_truncated = (length txt < length (htext h)),
           heading_range = \<lparr> start_byte = offset h, end_byte = hend h \<rparr>,
           section_range = \<lparr> start_byte = offset h, end_byte = ends ! i \<rparr> \<rparr>)"

text \<open>The loop that fills a page: \<open>envelope\<close> is the length of the page without its headings.\<close>

fun fill_headings ::
  "(SourceHeading \<Rightarrow> nat) \<Rightarrow> (nat option \<Rightarrow> nat) \<Rightarrow> (nat \<Rightarrow> SourceHeading) \<Rightarrow> nat \<Rightarrow> nat \<Rightarrow> nat list
     \<Rightarrow> SourceHeading list \<times> nat \<times> nat option \<Rightarrow> (SourceHeading list \<times> nat option) vault_result" where
  "fill_headings record_len envelope rec size0 max_bytes [] (acc, bytes, nxt) = Inr (acc, nxt)"
| "fill_headings record_len envelope rec size0 max_bytes (i # is) (acc, bytes, nxt) =
     (let nxt' = (if i + 1 < size0 then Some (i + 1) else None);
          n = record_len (rec i)
      in if max_bytes < envelope nxt' + bytes + n + length acc
         then (if acc = []
               then Inl (InvalidSourceRange ''max_bytes cannot fit one heading locator'')
               else Inr (acc, Some i))
         else fill_headings record_len envelope rec size0 max_bytes is (acc @ [rec i], bytes + n, nxt'))"

definition headings_page ::
  "md_parser \<Rightarrow> (SourceHeading \<Rightarrow> nat) \<Rightarrow> (SourceHeadingsPage \<Rightarrow> nat) \<Rightarrow> SourceSnapshot \<Rightarrow> str \<Rightarrow> str option \<Rightarrow> nat
     \<Rightarrow> nat option \<Rightarrow> nat option \<Rightarrow> SourceHeadingsPage vault_result" where
  "headings_page parse record_len page_len s path expected_revision heading_offset max_headings0 max_bytes0 =
     (if 0 < heading_offset \<and> expected_revision = None
      then Inl (InvalidSourceRange ''expected_revision is required with a nonzero heading_offset'')
      else
        try_bind (check_revision s path expected_revision) (\<lambda>_.
        try_bind (validate_limit (case max_headings0 of Some v \<Rightarrow> v | None \<Rightarrow> DEFAULT_HEADING_COUNT)
                    MAX_HEADING_COUNT ''max_headings'') (\<lambda>max_headings.
        try_bind (validate_limit (case max_bytes0 of Some v \<Rightarrow> v | None \<Rightarrow> DEFAULT_PAGE_BYTES)
                    MAX_PAGE_BYTES ''max_bytes'') (\<lambda>max_bytes.
        let hs = extract_headings_with_offsets parse (s_content s) in
        if length hs < heading_offset
        then Inl (InvalidSourceRange (''heading_offset '' @ dec_string heading_offset @ '' exceeds ''
                    @ dec_string (length hs) @ '' headings''))
        else
          let (parents, ends) = heading_sections hs (length (s_content s));
              empty_page = (\<lambda>nxt. \<lparr> hp_revision = s_revision s, hp_source_bytes = length (s_content s),
                 total_headings = length hs, hp_headings = [], next_heading_offset = nxt \<rparr>);
              last = min (length hs) (sat_add heading_offset max_headings)
          in try_bind (fill_headings record_len (\<lambda>nxt. page_len (empty_page nxt)) (heading_record hs parents ends)
                 (length hs) max_bytes [heading_offset..<last] ([], 0, None)) (\<lambda>(acc, nxt).
             let pg = (empty_page nxt) \<lparr> hp_headings := acc \<rparr>
             in if acc = [] \<and> max_bytes < page_len pg
                then Inl (InvalidSourceRange ''max_bytes cannot fit the heading page envelope'')
                else Inr pg)))))"

section \<open>Revisions are well formed\<close>

lemma hex_pair_digits: "b < 256 \<Longrightarrow> length (hex_pair b) = 2 \<and> list_all is_hex_digit (hex_pair b)"
proof -
  assume "b < 256"
  then have b: "b div 16 < 16" "b mod 16 < 16" by auto
  have "\<forall>i < 16. is_hex_digit (HEX ! i)" by code_simp
  with b show ?thesis by (simp add: hex_pair_def)
qed

lemma concat_hex: "list_all (\<lambda>b. b < 256) bs \<Longrightarrow>
    length (concat (map hex_pair bs)) = 2 * length bs \<and> list_all is_hex_digit (concat (map hex_pair bs))"
  by (induction bs) (auto simp: hex_pair_digits)

lemma validate_own_revision:
  "length (digest c) = 32 \<Longrightarrow> list_all (\<lambda>b. b < 256) (digest c) \<Longrightarrow>
   check_revision (SourceSnapshot_new digest c) path (Some (s_revision (SourceSnapshot_new digest c))) = Inr ()"
  using concat_hex [of "digest c"]
  by (simp add: check_revision_def SourceSnapshot_new_def source_revision_def validate_revision_def)

section \<open>Following the pages\<close>

lemma next_boundary:
  assumes u: "utf8 s" and a: "is_boundary s a" and l: "a < length s"
  obtains j where "a < j" and "j \<le> a + 4" and "is_boundary s j"
proof -
  obtain c cs where c: "drop a s = c # cs" using l by (cases "drop a s") auto
  have ud: "utf8 (c # cs)" using utf8_split_boundary(2) [OF u a] c by simp
  let ?j = "a + char_len c"
  have len: "length s = a + Suc (length cs)" using arg_cong [OF c, of length] l by simp
  have jl: "?j \<le> length s" using utf8_Cons(2) [OF ud] len by simp
  have "is_boundary s ?j"
  proof (cases "?j = length s")
    case False
    then have jlt: "?j < length s" using jl by simp
    have "drop ?j s = drop (char_len c) (drop a s)" by (simp add: add.commute)
    also have "\<dots> = drop (char_len c - 1) cs" unfolding c by (cases "char_len c") simp_all
    finally have "utf8 (drop ?j s)" using utf8_Cons(4) [OF ud] by simp
    moreover have "drop ?j s = s ! ?j # drop (Suc ?j) s" using jlt by (simp add: Cons_nth_drop_Suc)
    ultimately have "\<not> is_cont (s ! ?j)" using utf8_Cons(1) by metis
    with jlt show ?thesis by (simp add: is_boundary_def)
  qed simp
  moreover have "0 < char_len c" "char_len c \<le> 4" by (auto simp: char_len_def)
  ultimately show thesis by (intro that [of ?j]) simp_all
qed

text \<open>A reader that asks for one page after another until none is left.\<close>

fun follow_pages :: "nat \<Rightarrow> SourceSnapshot \<Rightarrow> str \<Rightarrow> nat \<Rightarrow> SourceRange option \<Rightarrow> str option" where
  "follow_pages 0 s path k rng = None"
| "follow_pages (Suc n) s path k rng =
     (case page s path (Some (s_revision s)) rng (Some k) of
        Inl _ \<Rightarrow> None
      | Inr pg \<Rightarrow>
          (case next_range pg of
             None \<Rightarrow> Some (p_content pg)
           | Some r \<Rightarrow> map_option ((@) (p_content pg)) (follow_pages n s path k (Some r))))"

lemma page_step:
  assumes u: "utf8 c" and sz: "length c < usize_max" and s: "s_content s = c"
    and rev: "check_revision s path (Some (s_revision s)) = Inr ()"
    and k: "4 \<le> k" "k \<le> MAX_PAGE_BYTES" and a: "is_boundary c a"
    and rng: "rng = Some \<lparr> start_byte = a, end_byte = length c \<rparr> \<or> rng = None \<and> a = 0"
  obtains stop where "page s path (Some (s_revision s)) rng (Some k) = Inr \<lparr> p_content = slice c a stop,
        p_revision = s_revision s, p_source_bytes = length c,
        requested_range = \<lparr> start_byte = a, end_byte = length c \<rparr>,
        returned_range = \<lparr> start_byte = a, end_byte = stop \<rparr>,
        next_range = (if stop < length c then Some \<lparr> start_byte = stop, end_byte = length c \<rparr> else None) \<rparr>"
    and "a < length c \<Longrightarrow> a < stop" and "a \<le> stop" and "stop \<le> length c" and "is_boundary c stop"
proof -
  have al: "a \<le> length c" by (rule is_boundary_le [OF a])
  let ?m = "min (sat_add a k) (length c)"
  let ?stop = "floor_boundary c ?m"
  have m: "?m = min (a + k) (length c)" using sz by (auto simp: sat_add_def)
  have st: "?stop \<le> length c" "is_boundary c ?stop" "a \<le> ?stop"
    using floor_boundary_le_length [of c ?m] floor_boundary_max [OF a, of ?m] al unfolding m by auto
  have prog: "a < ?stop" if l: "a < length c"
  proof -
    obtain j where j: "a < j" "j \<le> a + 4" "is_boundary c j" by (rule next_boundary [OF u a l])
    have "j \<le> ?m" using j k is_boundary_le [OF j(3)] unfolding m by simp
    with floor_boundary_max [OF j(3)] j(1) show ?thesis by (metis le_trans linorder_not_le)
  qed
  have vr: "validate_range s \<lparr> start_byte = a, end_byte = length c \<rparr> = Inr ()"
    using a al by (simp add: validate_range_def s)
  have vl: "validate_limit k MAX_PAGE_BYTES ''max_bytes'' = Inr k" using k by (simp add: validate_limit_def)
  have ne: "\<not> (?stop = a \<and> ?stop < length c)" using prog by auto
  have "page s path (Some (s_revision s)) rng (Some k) = Inr \<lparr> p_content = slice c a ?stop,
        p_revision = s_revision s, p_source_bytes = length c,
        requested_range = \<lparr> start_byte = a, end_byte = length c \<rparr>,
        returned_range = \<lparr> start_byte = a, end_byte = ?stop \<rparr>,
        next_range = (if ?stop < length c then Some \<lparr> start_byte = ?stop, end_byte = length c \<rparr> else None) \<rparr>"
    using rng rev vr vl ne by (auto simp: page_def Let_def s page_budget_def)
  then show thesis using prog st by (intro that [of ?stop]) simp_all
qed

lemma follow_from:
  assumes u: "utf8 c" and sz: "length c < usize_max" and s: "s_content s = c"
    and rev: "check_revision s path (Some (s_revision s)) = Inr ()"
    and k: "4 \<le> k" "k \<le> MAX_PAGE_BYTES"
  shows "is_boundary c a \<Longrightarrow> length c - a < n \<Longrightarrow>
     rng = Some \<lparr> start_byte = a, end_byte = length c \<rparr> \<or> rng = None \<and> a = 0 \<Longrightarrow>
     follow_pages n s path k rng = Some (drop a c)"
proof (induction n arbitrary: a rng)
  case (Suc n)
  obtain stop where p: "page s path (Some (s_revision s)) rng (Some k) = Inr \<lparr> p_content = slice c a stop,
        p_revision = s_revision s, p_source_bytes = length c,
        requested_range = \<lparr> start_byte = a, end_byte = length c \<rparr>,
        returned_range = \<lparr> start_byte = a, end_byte = stop \<rparr>,
        next_range = (if stop < length c then Some \<lparr> start_byte = stop, end_byte = length c \<rparr> else None) \<rparr>"
    and st: "a < length c \<Longrightarrow> a < stop" "a \<le> stop" "stop \<le> length c" "is_boundary c stop"
    by (rule page_step [OF u sz s rev k Suc.prems(1,3)]) (rule that)
  show ?case
  proof (cases "stop < length c")
    case True
    then have "length c - stop < n" using st(1,2) Suc.prems(2) by linarith
    from Suc.IH [OF st(4) this] have "follow_pages n s path k (Some \<lparr> start_byte = stop, end_byte = length c \<rparr>) = Some (drop stop c)"
      by simp
    moreover have "slice c a stop @ drop stop c = drop a c"
      using st(2) by (simp add: slice_def) (metis append_take_drop_id drop_drop le_add_diff_inverse2)
    ultimately show ?thesis using p True by simp
  next
    case False
    then have "stop = length c" using st(3) by simp
    with p show ?thesis by (simp add: slice_def)
  qed
qed simp

text \<open>
  Property C26. Reading a text page by page is complete and ends: for any page size of at least four
  bytes, a reader that follows the continuation ranges from the first page receives exactly the
  text after at most one page per byte, each page being cut on character boundaries.
\<close>

theorem pages_reconstruct:
  assumes "utf8 c" and "length c < usize_max"
    and "length (digest c) = 32" and "list_all (\<lambda>b. b < 256) (digest c)"
    and "4 \<le> k" and "k \<le> MAX_PAGE_BYTES" and "length c < n"
  shows "follow_pages n (SourceSnapshot_new digest c) path k None = Some c"
proof -
  have s: "s_content (SourceSnapshot_new digest c) = c" by (simp add: SourceSnapshot_new_def)
  have "follow_pages n (SourceSnapshot_new digest c) path k None = Some (drop 0 c)"
    by (rule follow_from [OF assms(1,2) s validate_own_revision [of digest, OF assms(3,4)] assms(5,6)])
       (use assms(7) in simp_all)
  then show ?thesis by simp
qed

theorem pages_reconstruct_witness:
  "follow_pages 13 (SourceSnapshot_new (\<lambda>_. replicate 32 171) ''# Title body'') ''n.md'' 4 None = Some ''# Title body''"
proof -
  have "utf8 ''# Title body''" by code_simp
  then show ?thesis by (rule pages_reconstruct) (simp_all add: MAX_PAGE_BYTES_def usize_max_def list_all_iff)
qed

section \<open>The stack finds parents and section ends\<close>

text \<open>The nearest earlier heading of a higher level, and the start of the next heading that is not deeper.\<close>

definition heading_parent :: "HeadingPos list \<Rightarrow> nat \<Rightarrow> nat option" where
  "heading_parent hs i = List.find (\<lambda>j. level (hs ! j) < level (hs ! i)) (rev [0..<i])"

definition section_end :: "HeadingPos list \<Rightarrow> nat \<Rightarrow> nat \<Rightarrow> nat" where
  "section_end hs size0 i =
     (case List.find (\<lambda>k. level (hs ! k) \<le> level (hs ! i)) [i + 1..<length hs] of
        Some k \<Rightarrow> offset (hs ! k) | None \<Rightarrow> size0)"

text \<open>After \<open>m\<close> headings: the headings still open, and the ends known so far.\<close>

definition open_headings :: "HeadingPos list \<Rightarrow> nat \<Rightarrow> nat list" where
  "open_headings hs m = filter (\<lambda>j. list_all (\<lambda>k. level (hs ! j) < level (hs ! k)) [j + 1..<m]) [0..<m]"

definition end_by :: "HeadingPos list \<Rightarrow> nat \<Rightarrow> nat \<Rightarrow> nat \<Rightarrow> nat" where
  "end_by hs size0 m j =
     (case List.find (\<lambda>k. level (hs ! k) \<le> level (hs ! j)) [j + 1..<m] of
        Some k \<Rightarrow> offset (hs ! k) | None \<Rightarrow> size0)"

lemma close_sections_split:
  "close_sections hs h (st, ends) =
     (dropWhile (\<lambda>p. \<not> level (hs ! p) < level h) st,
      fold (\<lambda>p e. e[p := offset h]) (takeWhile (\<lambda>p. \<not> level (hs ! p) < level h) st) ends)"
  by (induction st arbitrary: ends) auto

lemma while_filter:
  "sorted_wrt (\<lambda>a b. f b < f a) xs \<Longrightarrow>
   dropWhile (\<lambda>x. \<not> f x < (c :: nat)) xs = filter (\<lambda>x. f x < c) xs
   \<and> takeWhile (\<lambda>x. \<not> f x < c) xs = filter (\<lambda>x. \<not> f x < c) xs"
proof (induction xs)
  case (Cons x xs)
  show ?case
  proof (cases "f x < c")
    case True
    with Cons.prems have "\<forall>y \<in> set xs. f y < c" by auto
    with True show ?thesis by (simp add: filter_id_conv filter_empty_conv)
  next
    case False
    with Cons show ?thesis by simp
  qed
qed simp

lemma open_sorted: "sorted_wrt (\<lambda>a b. level (hs ! b) < level (hs ! a)) (rev (open_headings hs m))"
proof -
  have s: "sorted_wrt (<) (open_headings hs m)" by (simp add: open_headings_def sorted_wrt_filter)
  have "level (hs ! a) < level (hs ! b)" if "a < b" "a \<in> set (open_headings hs m)" "b \<in> set (open_headings hs m)" for a b
    using that by (auto simp: open_headings_def list_all_iff)
  with s have "sorted_wrt (\<lambda>a b. level (hs ! a) < level (hs ! b)) (open_headings hs m)"
    by (auto simp: sorted_wrt_iff_nth_less)
  then show ?thesis by (simp add: sorted_wrt_rev)
qed

lemma open_Suc:
  "open_headings hs (Suc m) = filter (\<lambda>j. level (hs ! j) < level (hs ! m)) (open_headings hs m) @ [m]"
proof -
  have "filter (\<lambda>j. list_all (\<lambda>k. level (hs ! j) < level (hs ! k)) [j + 1..<Suc m]) [0..<m]
      = filter (\<lambda>j. level (hs ! j) < level (hs ! m) \<and> list_all (\<lambda>k. level (hs ! j) < level (hs ! k)) [j + 1..<m]) [0..<m]"
    by (intro filter_cong refl) auto
  then show ?thesis by (simp add: open_headings_def conj_commute)
qed

lemma fold_set_nth:
  "j < length e \<Longrightarrow> fold (\<lambda>p e. e[p := v]) ps e ! j = (if j \<in> set ps then v else e ! j)
   \<and> length (fold (\<lambda>p e. e[p := v]) ps e) = length e"
  by (induction ps arbitrary: e) (auto simp: nth_list_update)

lemma fold_set_length: "length (fold (\<lambda>p e. e[p := v]) ps e) = length e"
  by (induction ps arbitrary: e) simp_all

lemma find_None_all: "List.find P xs = None \<longleftrightarrow> list_all (\<lambda>x. \<not> P x) xs"
  by (induction xs) auto

lemma find_append: "List.find P (xs @ ys) = (case List.find P xs of None \<Rightarrow> List.find P ys | Some x \<Rightarrow> Some x)"
  by (induction xs) auto

lemma find_filter: "List.find P (filter Q xs) = List.find (\<lambda>x. Q x \<and> P x) xs"
  by (induction xs) auto

lemma end_by_Suc:
  assumes "j < m"
  shows "end_by hs size0 (Suc m) j =
     (if j \<in> set (open_headings hs m) \<and> \<not> level (hs ! j) < level (hs ! m) then offset (hs ! m) else end_by hs size0 m j)"
proof -
  have u: "[j + 1..<Suc m] = [j + 1..<m] @ [m]" using assms by simp
  have o: "j \<in> set (open_headings hs m) \<longleftrightarrow> List.find (\<lambda>k. level (hs ! k) \<le> level (hs ! j)) [j + 1..<m] = None"
    using assms by (simp add: open_headings_def find_None_all not_le)
  show ?thesis unfolding end_by_def u find_append o by (auto split: option.splits)
qed

lemma find_rev_upt:
  "List.find P (rev [0..<m]) = Some j \<longleftrightarrow> j < m \<and> P j \<and> list_all (\<lambda>k. \<not> P k) [j + 1..<m]"
proof (induction m)
  case (Suc m)
  show ?case
  proof (cases "P m")
    case True
    then show ?thesis by (auto simp: list_all_iff less_Suc_eq)
  next
    case False
    with Suc show ?thesis by (auto simp: list_all_iff less_Suc_eq)
  qed
qed simp

lemma parent_open:
  "(case rev (filter (\<lambda>j. level (hs ! j) < level (hs ! m)) (open_headings hs m)) of [] \<Rightarrow> None | p # _ \<Rightarrow> Some p)
     = heading_parent hs m"
proof -
  have f: "(case filter Q xs of [] \<Rightarrow> None | p # _ \<Rightarrow> Some p) = List.find Q xs" for Q and xs :: "nat list"
    by (induction xs) auto
  let ?P = "\<lambda>j. level (hs ! j) < level (hs ! m)"
  let ?O = "\<lambda>j. list_all (\<lambda>k. level (hs ! j) < level (hs ! k)) [j + 1..<m]"
  have e: "rev (filter ?P (open_headings hs m)) = filter (\<lambda>j. ?P j \<and> ?O j) (rev [0..<m])"
    by (simp add: open_headings_def rev_filter conj_commute)
  have "List.find (\<lambda>j. ?P j \<and> ?O j) (rev [0..<m]) = List.find ?P (rev [0..<m])"
  proof (cases "List.find ?P (rev [0..<m])")
    case None
    then have "List.find (\<lambda>j. ?P j \<and> ?O j) (rev [0..<m]) = None" by (auto simp: find_None_all list_all_iff)
    with None show ?thesis by simp
  next
    case (Some j)
    then have j: "j < m" "?P j" "list_all (\<lambda>k. \<not> ?P k) [j + 1..<m]" by (simp_all add: find_rev_upt)
    then have "?O j" by (auto simp: list_all_iff)
    with j have "List.find (\<lambda>j. ?P j \<and> ?O j) (rev [0..<m]) = Some j"
      unfolding find_rev_upt by (auto simp: list_all_iff)
    with Some show ?thesis by simp
  qed
  then show ?thesis unfolding e f heading_parent_def .
qed

lemma sections_after:
  "m \<le> length hs \<Longrightarrow>
   (case fold (section_step hs) [0..<m] ([], replicate (length hs) None, replicate (length hs) size0) of
      (stack, parents, ends) \<Rightarrow>
        stack = rev (open_headings hs m)
        \<and> parents = map (\<lambda>i. if i < m then heading_parent hs i else None) [0..<length hs]
        \<and> ends = map (end_by hs size0 m) [0..<length hs])"
proof (induction m)
  case 0
  show ?case by (simp add: open_headings_def end_by_def map_replicate_const)
next
  case (Suc m)
  then have ml: "m < length hs" by simp
  let ?h = "hs ! m" and ?st = "rev (open_headings hs m)" and ?e = "map (end_by hs size0 m) [0..<length hs]"
  obtain stack parents ends where f: "fold (section_step hs) [0..<m] ([], replicate (length hs) None, replicate (length hs) size0)
      = (stack, parents, ends)" by (metis prod_cases3)
  then have i: "stack = ?st" "ends = ?e"
    "parents = map (\<lambda>i. if i < m then heading_parent hs i else None) [0..<length hs]"
    using Suc by auto
  note w = while_filter [OF open_sorted [of hs m], of "level ?h"]
  have c: "close_sections hs ?h (?st, ?e) =
      (rev (filter (\<lambda>p. level (hs ! p) < level ?h) (open_headings hs m)),
       fold (\<lambda>p e. e[p := offset ?h]) (filter (\<lambda>p. \<not> level (hs ! p) < level ?h) ?st) ?e)"
    unfolding close_sections_split using w by (simp add: rev_filter)
  have st: "m # rev (filter (\<lambda>p. level (hs ! p) < level ?h) (open_headings hs m)) = rev (open_headings hs (Suc m))"
    by (simp add: open_Suc)
  have ends: "fold (\<lambda>p e. e[p := offset ?h]) (filter (\<lambda>p. \<not> level (hs ! p) < level ?h) ?st) ?e
      = map (end_by hs size0 (Suc m)) [0..<length hs]" (is "?F = ?G")
  proof (rule nth_equalityI)
    have len: "length ?F = length hs"
      by (simp add: fold_set_length)
    then show "length ?F = length ?G" by simp
    fix j assume "j < length ?F"
    then have j: "j < length ?e" using len by simp
    show "?F ! j = ?G ! j"
    proof (cases "j < m")
      case True
      show ?thesis
        unfolding conjunct1 [OF fold_set_nth [OF j]] using j end_by_Suc [OF True, of hs size0] by simp
    next
      case False
      then have "j \<notin> set (open_headings hs m)" by (simp add: open_headings_def)
      moreover have "end_by hs size0 m j = size0" "end_by hs size0 (Suc m) j = size0" using False by (simp_all add: end_by_def)
      ultimately show ?thesis unfolding conjunct1 [OF fold_set_nth [OF j]] using j by simp
    qed
  qed
  have par: "parents[m := heading_parent hs m] =
      map (\<lambda>i. if i < Suc m then heading_parent hs i else None) [0..<length hs]"
    unfolding i by (rule nth_equalityI) (auto simp: nth_list_update less_Suc_eq)
  have "fold (section_step hs) [0..<Suc m] ([], replicate (length hs) None, replicate (length hs) size0)
      = section_step hs m (?st, parents, ?e)"
    using f i by simp
  also have "\<dots> = (rev (open_headings hs (Suc m)),
      map (\<lambda>i. if i < Suc m then heading_parent hs i else None) [0..<length hs],
      map (end_by hs size0 (Suc m)) [0..<length hs])"
    unfolding section_step_def Let_def prod.case c st ends parent_open par ..
  finally show ?case by simp
qed

lemma heading_sections_spec:
  "heading_sections hs size0 =
     (map (heading_parent hs) [0..<length hs], map (section_end hs size0) [0..<length hs])"
proof -
  obtain stack parents ends where f: "fold (section_step hs) [0..<length hs] ([], replicate (length hs) None, replicate (length hs) size0)
      = (stack, parents, ends)" by (metis prod_cases3)
  from sections_after [of "length hs" hs size0] f
  have "parents = map (\<lambda>i. if i < length hs then heading_parent hs i else None) [0..<length hs]"
    "ends = map (end_by hs size0 (length hs)) [0..<length hs]" by auto
  then show ?thesis using f by (auto simp: heading_sections_def end_by_def section_end_def)
qed

lemma fill_headings_spec:
  "fill_headings rl env rc n mb [a..<b] (acc, bytes, nxt) = Inr (acc', nxt') \<Longrightarrow> b \<le> n \<Longrightarrow>
   acc = map rc [c..<a] \<Longrightarrow> c \<le> a \<Longrightarrow> a \<le> b \<Longrightarrow>
   (c < a \<longrightarrow> nxt = (if a < n then Some a else None)) \<Longrightarrow>
   \<exists>e. c \<le> e \<and> e \<le> b \<and> acc' = map rc [c..<e] \<and> (c < e \<longrightarrow> nxt' = (if e < n then Some e else None))
     \<and> (c = e \<longrightarrow> b = c \<and> nxt' = nxt)"
proof (induction "[a..<b]" arbitrary: a acc bytes nxt)
  case Nil
  from Nil.hyps have "b \<le> a" by (cases "b \<le> a") (auto simp: upt_conv_Cons)
  then have "a = b" using Nil.prems(5) by simp
  with Nil show ?case by (intro exI [of _ a]) auto
next
  case (Cons i js)
  have ab: "a < b" and i: "i = a" and js: "js = [Suc a..<b]"
    using Cons.hyps(2) [symmetric, unfolded upt_eq_Cons_conv] by auto
  let ?nxt = "if a + 1 < n then Some (a + 1) else None"
  show ?case
  proof (cases "mb < env ?nxt + bytes + rl (rc a) + length acc")
    case True
    then have "acc \<noteq> []" "acc' = acc" "nxt' = Some a"
      using Cons.prems(1) ab by (auto simp: upt_conv_Cons Let_def split: if_splits)
    with Cons.prems ab show ?thesis by (intro exI [of _ a]) auto
  next
    case False
    with Cons.prems(1) ab have f: "fill_headings rl env rc n mb [Suc a..<b] (acc @ [rc a], bytes + rl (rc a), ?nxt) = Inr (acc', nxt')"
      by (simp add: upt_conv_Cons Let_def)
    have acc: "acc @ [rc a] = map rc [c..<Suc a]" using Cons.prems(3,4) by simp
    have "\<exists>e. c \<le> e \<and> e \<le> b \<and> acc' = map rc [c..<e] \<and> (c < e \<longrightarrow> nxt' = (if e < n then Some e else None))
     \<and> (c = e \<longrightarrow> b = c \<and> nxt' = ?nxt)"
      by (rule Cons.hyps(1) [OF js f Cons.prems(2) acc]) (use Cons.prems ab in auto)
    with Cons.prems(4) ab show ?thesis by auto
  qed
qed

lemma headings_page_sections_parts:
  assumes r: "headings_page parse record_len page_len s path expected off (Some k) max_bytes = Inr pg"
    and hs: "hs = extract_headings_with_offsets parse (s_content s)" and few: "length hs < usize_max"
  shows "map ordinal (hp_headings pg) = [off..<off + length (hp_headings pg)]"
    and "length (hp_headings pg) \<le> k \<and> off + length (hp_headings pg) \<le> length hs"
    and "off < length hs \<Longrightarrow> hp_headings pg \<noteq> []"
    and "next_heading_offset pg =
      (if off + length (hp_headings pg) < length hs then Some (off + length (hp_headings pg)) else None)"
    and "h \<in> set (hp_headings pg) \<Longrightarrow> parent_ordinal h = heading_parent hs (ordinal h)
      \<and> end_byte (section_range h) = section_end hs (length (s_content s)) (ordinal h)
      \<and> start_byte (section_range h) = offset (hs ! ordinal h)"
proof -
  let ?n = "length (s_content s)"
  let ?rec = "heading_record hs (map (heading_parent hs) [0..<length hs]) (map (section_end hs ?n) [0..<length hs])"
  let ?last = "min (length hs) (sat_add off k)"
  obtain env mb acc nxt where k: "1 \<le> k" "k \<le> MAX_HEADING_COUNT" and off: "off \<le> length hs"
    and f: "fill_headings record_len env ?rec (length hs) mb [off..<?last] ([], 0, None) = Inr (acc, nxt)"
    and pg: "hp_headings pg = acc" "next_heading_offset pg = nxt"
    using r unfolding headings_page_def hs [symmetric] heading_sections_spec Let_def prod.case
    by (auto simp: result_simps validate_limit_def split: if_splits)
  have last: "?last = min (length hs) (off + k)" using off few by (auto simp: sat_add_def min_def)
  have lo: "off \<le> ?last" using off unfolding last by simp
  have "\<exists>e. off \<le> e \<and> e \<le> ?last \<and> acc = map ?rec [off..<e] \<and> (off < e \<longrightarrow> nxt = (if e < length hs then Some e else None))
     \<and> (off = e \<longrightarrow> ?last = off \<and> nxt = None)"
    by (rule fill_headings_spec [OF f]) (use lo in auto)
  then obtain e where e: "off \<le> e" "e \<le> ?last" "acc = map ?rec [off..<e]"
    "off < e \<longrightarrow> nxt = (if e < length hs then Some e else None)" "off = e \<longrightarrow> ?last = off \<and> nxt = None"
    by blast
  have len: "off + length acc = e" using e(1,3) by simp
  show "map ordinal (hp_headings pg) = [off..<off + length (hp_headings pg)]"
    unfolding pg len using e(3) by (simp add: heading_record_def Let_def comp_def)
  show "length (hp_headings pg) \<le> k \<and> off + length (hp_headings pg) \<le> length hs"
    using e(2) len unfolding pg last by linarith
  show "hp_headings pg \<noteq> []" if "off < length hs"
    using e(5) len that k unfolding pg last by (cases "off = e") auto
  show "next_heading_offset pg =
      (if off + length (hp_headings pg) < length hs then Some (off + length (hp_headings pg)) else None)"
    unfolding pg len using e(1,4,5) k unfolding last by (cases "off = e") auto
  show "parent_ordinal h = heading_parent hs (ordinal h)
      \<and> end_byte (section_range h) = section_end hs ?n (ordinal h)
      \<and> start_byte (section_range h) = offset (hs ! ordinal h)" if "h \<in> set (hp_headings pg)"
    using that e(2,3) unfolding pg last by (auto simp: heading_record_def Let_def)
qed

text \<open>
  Property C27. A page of headings lists consecutive headings from the requested one, at most the
  requested number, with the parent and the section end a declarative reading gives: the parent is
  the nearest earlier heading of a higher level, the section ends at the next heading that is not
  deeper or at the end of the text. The continuation names the first heading left out, and a page
  of a text with headings left always makes progress.
\<close>

theorem headings_page_sections:
  assumes "headings_page parse record_len page_len s path expected off (Some k) max_bytes = Inr pg"
    and "hs = extract_headings_with_offsets parse (s_content s)" and "length hs < usize_max"
  shows "map ordinal (hp_headings pg) = [off..<off + length (hp_headings pg)]
    \<and> length (hp_headings pg) \<le> k \<and> off + length (hp_headings pg) \<le> length hs
    \<and> (off < length hs \<longrightarrow> hp_headings pg \<noteq> [])
    \<and> next_heading_offset pg =
         (if off + length (hp_headings pg) < length hs then Some (off + length (hp_headings pg)) else None)
    \<and> (\<forall>h \<in> set (hp_headings pg). parent_ordinal h = heading_parent hs (ordinal h)
         \<and> end_byte (section_range h) = section_end hs (length (s_content s)) (ordinal h)
         \<and> start_byte (section_range h) = offset (hs ! ordinal h))"
  using headings_page_sections_parts [OF assms] by blast



text \<open>A stream with three headings, of levels 1, 2 and 1, for the text below.\<close>

definition three_headings :: md_parser where
  "three_headings _ _ =
     [(Start (Heading 1), 0, 4), (MdText ''A'', 2, 3), (End (Heading 1), 0, 4),
      (Start (Heading 2), 4, 9), (MdText ''B'', 7, 8), (End (Heading 2), 4, 9),
      (Start (Heading 1), 9, 13), (MdText ''C'', 11, 12), (End (Heading 1), 9, 13)]"

definition three_page :: "SourceHeadingsPage vault_result" where
  "three_page = headings_page three_headings (\<lambda>_. 10) (\<lambda>_. 20)
     (SourceSnapshot_new (\<lambda>_. []) (''# A'' @ [LF] @ ''## B'' @ [LF] @ ''# C'' @ [LF])) ''n.md'' None 0 (Some 2) None"

theorem headings_page_sections_witness:
  "next_heading_offset (projr three_page) = Some 2
   \<and> map parent_ordinal (hp_headings (projr three_page)) = [None, Some 0]
   \<and> map (end_byte \<circ> section_range) (hp_headings (projr three_page)) = [9, 9]"
proof -
  let ?hs = "extract_headings_with_offsets three_headings (''# A'' @ [LF] @ ''## B'' @ [LF] @ ''# C'' @ [LF])"
  have e: "is_ok three_page" "length (hp_headings (projr three_page)) = 2" "length ?hs = 3"
    "map parent_ordinal (hp_headings (projr three_page)) = [None, Some 0]"
    "map (end_byte \<circ> section_range) (hp_headings (projr three_page)) = [9, 9]"
    by code_simp+
  have r: "three_page = Inr (projr three_page)" using e(1) by (metis is_ok_simps(1) obj_sumE sum.sel(2))
  have few: "length ?hs < usize_max" using e(3) by (simp add: usize_max_def)
  have "next_heading_offset (projr three_page) = Some (0 + length (hp_headings (projr three_page)))"
    using headings_page_sections [OF r [unfolded three_page_def], folded three_page_def, OF _ few] e(2,3)
    by (simp add: SourceSnapshot_new_def)
  with e show ?thesis by simp
qed

end
