(* ===== verification/Chunks.thy ===== *)
theory Chunks
  imports Source "HOL-Library.Code_Target_Nat"
begin

text \<open>
  Preparation of a note for embedding (src/src/vault/embedding_chunks.rs): the whole note when it
  fits the model, otherwise its sections, split where they do not fit, each chunk bound to its
  source range.

  The tokenizer is the parameter \<open>pr_count\<close>, with no assumption of monotonicity. The memory
  budget counts the capacities of strings and vectors, which the standard library only bounds
  below: \<open>pr_cap\<close>, \<open>pr_vec\<close> and \<open>pr_grow\<close> are the capacities it chooses. The loops follow the
  tokenizer's answers, so they are partial functions; that they return is proved.
  \<^verbatim>\<open>slice::partition_point\<close> is the length of the prefix that satisfies the predicate, what it
  documents for the partitioned slices it is given here: headings and blocks come in source order.
\<close>

definition MAX_SOURCE_BYTES :: nat where "MAX_SOURCE_BYTES = 16 * 1024 * 1024"
definition MAX_CHUNKS_PER_NOTE :: nat where "MAX_CHUNKS_PER_NOTE = 4096"
definition MAX_CONTEXT_BYTES :: nat where "MAX_CONTEXT_BYTES = 16 * 1024"
definition OVERLAP_TOKENS :: nat where "OVERLAP_TOKENS = 32"
definition MAX_SPLIT_PROBES :: nat where "MAX_SPLIT_PROBES = 4096"
definition MAX_NOTE_TAGS :: nat where "MAX_NOTE_TAGS = 4096"
definition MAX_NOTE_METADATA_BYTES :: nat where "MAX_NOTE_METADATA_BYTES = 64 * 1024"
definition BUDGET_RESOURCE :: str where "BUDGET_RESOURCE = ''embedding preparation budget''"

definition context_prefix_bytes :: "str \<Rightarrow> nat \<Rightarrow> nat \<Rightarrow> nat" where
  "context_prefix_bytes title heading_bytes heading_count =
     (let title_bytes = sat_add (length title) 1 in
      if heading_count = 0 then title_bytes
      else sat_add (sat_add (sat_add title_bytes heading_bytes) (sat_mul (heading_count - 1) 3)) 1)"

datatype EvidenceScope = NoteScope | Passage

record PreparedChunk =
  ck_text :: str
  ck_hash :: "nat list"
  ck_scope :: EvidenceScope
  ck_range :: SourceRange
  ck_overlap :: "SourceRange option"
  ck_headings :: "str list"
  ck_section :: "SourceRange option"
  ck_kind :: "str option"

record PreparedNote =
  pn_revision :: str
  pn_source_bytes :: nat
  pn_body :: SourceRange
  pn_title :: str
  pn_tags :: "str list"
  pn_chunks :: "PreparedChunk list"

record Section =
  sec_range :: SourceRange
  sec_path :: "str list"
  sec_subtree :: SourceRange
  heading_end :: nat

record Sizes =
  sz_note :: nat
  sz_chunk :: nat
  sz_string :: nat
  sz_vector :: nat
  sz_embedding :: nat
  sz_heading :: nat
  sz_block :: nat

record Preparation =
  pr_max_tokens :: nat
  pr_count :: "str \<Rightarrow> nat vault_result"
  pr_dimension :: nat
  pr_limit :: nat
  pr_sizes :: Sizes
  pr_cap :: "nat \<Rightarrow> nat"
  pr_vec :: "nat \<Rightarrow> nat"
  pr_grow :: "nat \<Rightarrow> nat"
  pr_digest :: "str \<Rightarrow> nat list"

text \<open>The chunks so far, the capacity of their vector, and the bytes in use.\<close>

record ChunkState =
  cs_chunks :: "PreparedChunk list"
  cs_capacity :: nat
  cs_used :: nat

section \<open>Budget\<close>

definition check_limit :: "str \<Rightarrow> nat \<Rightarrow> nat \<Rightarrow> unit vault_result" where
  "check_limit resource actual limit =
     (if limit < actual then Inl (SemanticResourceLimit resource actual limit) else Inr ())"

definition budget_check :: "Preparation \<Rightarrow> nat \<Rightarrow> nat \<Rightarrow> unit vault_result" where
  "budget_check pr used bytes = check_limit BUDGET_RESOURCE (sat_add used bytes) (pr_limit pr)"

definition budget_retain :: "Preparation \<Rightarrow> nat \<Rightarrow> nat \<Rightarrow> nat vault_result" where
  "budget_retain pr used bytes = try_bind (budget_check pr used bytes) (\<lambda>_. Inr (used + bytes))"

definition vector_reservation :: "Preparation \<Rightarrow> nat" where
  "vector_reservation pr =
     sat_add (sat_add (sat_add (sz_vector (pr_sizes pr)) (sz_embedding (pr_sizes pr)))
                (sat_mul (pr_dimension pr) 4)) 256"

definition string_vec_bytes :: "Preparation \<Rightarrow> str list \<Rightarrow> nat" where
  "string_vec_bytes pr ss =
     sat_add (sat_mul (pr_vec pr (length ss)) (sz_string (pr_sizes pr)))
       (foldl sat_add 0 (map (\<lambda>s. pr_cap pr (length s)) ss))"

definition staging_bytes :: "Preparation \<Rightarrow> nat \<Rightarrow> PreparedNote \<Rightarrow> nat" where
  "staging_bytes pr capacity n =
     sat_add (sat_add (sat_add (sat_add (sat_add (sz_note (pr_sizes pr))
        (pr_cap pr (length (pn_revision n)))) (pr_cap pr (length (pn_title n))))
        (string_vec_bytes pr (pn_tags n))) (sat_mul capacity (sz_chunk (pr_sizes pr))))
       (foldl sat_add 0 (map (\<lambda>c.
          sat_add (sat_add (sat_add (pr_cap pr (length (ck_text c))) (string_vec_bytes pr (ck_headings c)))
             (case ck_kind c of None \<Rightarrow> 0 | Some k \<Rightarrow> pr_cap pr (length k))) (vector_reservation pr)) (pn_chunks n)))"

section \<open>Composing and counting\<close>

definition overlap_text :: "str \<Rightarrow> SourceRange option \<Rightarrow> str" where
  "overlap_text src ov =
     (case ov of None \<Rightarrow> [] | Some r \<Rightarrow> slice src (start_byte r) (end_byte r) @ [LF])"

definition chunk_text :: "str \<Rightarrow> str \<Rightarrow> SourceRange option \<Rightarrow> nat \<Rightarrow> nat \<Rightarrow> str" where
  "chunk_text pre src ov a b = pre @ overlap_text src ov @ slice src a b"

definition compose :: "Preparation \<Rightarrow> nat \<Rightarrow> str \<Rightarrow> str \<Rightarrow> SourceRange option \<Rightarrow> nat \<Rightarrow> nat \<Rightarrow> str vault_result" where
  "compose pr used pre src ov a b =
     (let overlap_bytes = (case ov of None \<Rightarrow> 0 | Some r \<Rightarrow> end_byte r - start_byte r + 1);
          bytes = sat_add (sat_add (length pre) overlap_bytes) (b - a)
      in try_bind (budget_check pr used bytes) (\<lambda>_. Inr (chunk_text pre src ov a b)))"

definition trial :: "Preparation \<Rightarrow> nat \<Rightarrow> str \<Rightarrow> str \<Rightarrow> SourceRange option \<Rightarrow> nat \<Rightarrow> nat \<Rightarrow> nat vault_result" where
  "trial pr used pre src ov a b = try_bind (compose pr used pre src ov a b) (pr_count pr)"

definition fits :: "Preparation \<Rightarrow> nat \<Rightarrow> str \<Rightarrow> str \<Rightarrow> SourceRange option \<Rightarrow> nat \<Rightarrow> nat \<Rightarrow> bool vault_result" where
  "fits pr used pre src ov a b = try_bind (trial pr used pre src ov a b) (\<lambda>n. Inr (n \<le> pr_max_tokens pr))"

definition next_boundary :: "str \<Rightarrow> nat \<Rightarrow> nat" where
  "next_boundary src start = start + length (first_char (drop start src))"

section \<open>Where a chunk ends\<close>

fun probe_loop ::
  "Preparation \<Rightarrow> nat \<Rightarrow> str \<Rightarrow> str \<Rightarrow> SourceRange option \<Rightarrow> nat \<Rightarrow> str list \<Rightarrow> nat \<Rightarrow> nat \<Rightarrow> nat \<Rightarrow> nat vault_result" where
  "probe_loop pr used pre src ov start [] pos probes minimum_tokens =
     Inl (EmbeddingInputTooLong minimum_tokens (pr_max_tokens pr))"
| "probe_loop pr used pre src ov start (ch # chs) pos probes minimum_tokens =
     (if probes = MAX_SPLIT_PROBES
      then Inl (SemanticResourceLimit ''embedding split boundary probes'' (probes + 1) MAX_SPLIT_PROBES)
      else let stop = pos + length ch in
        try_bind (trial pr used pre src ov start stop) (\<lambda>tokens.
          if tokens \<le> pr_max_tokens pr then Inr stop
          else probe_loop pr used pre src ov start chs stop (probes + 1) (min minimum_tokens tokens)))"

definition probe_advancing_prefix ::
  "Preparation \<Rightarrow> nat \<Rightarrow> str \<Rightarrow> str \<Rightarrow> SourceRange option \<Rightarrow> nat \<Rightarrow> nat \<Rightarrow> nat vault_result" where
  "probe_advancing_prefix pr used pre src ov start sec_end =
     probe_loop pr used pre src ov start (chars (slice src start sec_end)) start 0 usize_max"

partial_function (option) fitting_loop ::
  "Preparation \<Rightarrow> nat \<Rightarrow> str \<Rightarrow> str \<Rightarrow> SourceRange option \<Rightarrow> nat \<Rightarrow> nat \<Rightarrow> nat \<Rightarrow> nat \<Rightarrow> nat option
     \<Rightarrow> nat vault_result option" where
  "fitting_loop pr used pre src ov start sec_end first_end stop known_fit =
     (case trial pr used pre src ov start stop of
        Inl e \<Rightarrow> Some (Inl e)
      | Inr tokens \<Rightarrow>
          if tokens \<le> pr_max_tokens pr
          then (if stop = sec_end then Some (Inr stop)
                else fitting_loop pr used pre src ov start sec_end first_end
                  (max (floor_boundary src (min (sat_add start (sat_mul (stop - start) 2)) sec_end))
                     (next_boundary src stop)) (Some stop))
          else (case known_fit of
                  Some e \<Rightarrow> Some (Inr e)
                | None \<Rightarrow>
                    if stop = first_end
                    then Some (probe_advancing_prefix pr used pre src ov start sec_end)
                    else fitting_loop pr used pre src ov start sec_end first_end
                      (max (floor_boundary src (start + (stop - start) div 2)) first_end) None))"

definition fitting_end ::
  "Preparation \<Rightarrow> nat \<Rightarrow> str \<Rightarrow> nat \<Rightarrow> nat \<Rightarrow> str \<Rightarrow> SourceRange option \<Rightarrow> nat vault_result option" where
  "fitting_end pr used src start sec_end pre ov =
     (let first_end = next_boundary src start;
          initial_bytes = max (sat_mul (pr_max_tokens pr) 4) 4;
          stop = max (floor_boundary src (min (sat_add start initial_bytes) sec_end)) first_end
      in fitting_loop pr used pre src ov start sec_end first_end stop None)"

definition partition_point :: "('a \<Rightarrow> bool) \<Rightarrow> 'a list \<Rightarrow> nat" where
  "partition_point P xs = length (takeWhile P xs)"

definition sentence_stops :: "str list" where
  "sentence_stops =
     [''.'', ''!'', ''?'', [CHR 0xE3, CHR 0x80, CHR 0x82], [CHR 0xEF, CHR 0xBC, CHR 0x81], [CHR 0xEF, CHR 0xBC, CHR 0x9F]]"

fun cut_scan :: "str \<Rightarrow> str list \<Rightarrow> nat \<Rightarrow> nat \<times> nat \<times> nat \<Rightarrow> nat \<times> nat \<times> nat" where
  "cut_scan src [] pos ends = ends"
| "cut_scan src (ch # chs) pos (sentence_end, line_end, word_end) =
     (let e = pos + length ch;
          line_end' = (if ch = [LF] then e else line_end);
          word_end' = (if is_ws_char ch then e else word_end);
          sentence_end' = (if ch \<in> set sentence_stops \<and> (drop e src = [] \<or> is_ws_char (first_char (drop e src)))
                           then e else sentence_end)
      in cut_scan src chs e (sentence_end', line_end', word_end'))"

fun try_cuts ::
  "Preparation \<Rightarrow> nat \<Rightarrow> str \<Rightarrow> str \<Rightarrow> SourceRange option \<Rightarrow> nat \<Rightarrow> nat \<Rightarrow> nat \<Rightarrow> nat list \<Rightarrow> nat vault_result" where
  "try_cuts pr used pre src ov start valid_end minimum_cut [] = Inr valid_end"
| "try_cuts pr used pre src ov start valid_end minimum_cut (e # es) =
     (if e \<le> minimum_cut \<or> valid_end < e
      then try_cuts pr used pre src ov start valid_end minimum_cut es
      else if e = valid_end then Inr e
      else try_bind (fits pr used pre src ov start e) (\<lambda>f.
        if f then Inr e else try_cuts pr used pre src ov start valid_end minimum_cut es))"

definition preferred_end ::
  "Preparation \<Rightarrow> nat \<Rightarrow> str \<Rightarrow> nat \<Rightarrow> nat \<Rightarrow> Section \<Rightarrow> MarkdownBlock list \<Rightarrow> str \<Rightarrow> SourceRange option \<Rightarrow> nat vault_result" where
  "preferred_end pr used src start valid_end sec blks pre ov =
     (if valid_end = end_byte (sec_range sec) then Inr valid_end
      else let last_block = partition_point (\<lambda>b. snd (brange b) \<le> valid_end) blks;
               block_end = (if last_block = 0 then start else snd (brange (blks ! (last_block - 1))));
               (sentence_end, line_end, word_end) =
                 cut_scan src (chars (slice src start valid_end)) start (start, start, start);
               minimum_cut = (if start = start_byte (sec_range sec)
                    \<and> (\<exists>ch \<in> set (chars (slice src (heading_end sec) (end_byte (sec_range sec)))). \<not> is_ws_char ch)
                  then heading_end sec else start)
           in try_cuts pr used pre src ov start valid_end minimum_cut [block_end, sentence_end, line_end, word_end])"

section \<open>Blocks and overlaps\<close>

definition containing_block :: "MarkdownBlock list \<Rightarrow> nat \<Rightarrow> MarkdownBlock option" where
  "containing_block blks off =
     (let i = partition_point (\<lambda>b. snd (brange b) \<le> off) blks in
      if i < length blks \<and> fst (brange (blks ! i)) \<le> off then Some (blks ! i) else None)"

definition split_block :: "MarkdownBlock list \<Rightarrow> nat \<Rightarrow> nat \<Rightarrow> MarkdownBlock option" where
  "split_block blks a b =
     (case containing_block blks a of
        Some k \<Rightarrow>
          if fst (brange k) < a \<or> b < snd (brange k) then Some k
          else (case containing_block blks (b - 1) of
                  Some k' \<Rightarrow> if b < snd (brange k') then Some k' else None | None \<Rightarrow> None)
      | None \<Rightarrow> (case containing_block blks (b - 1) of
                  Some k' \<Rightarrow> if b < snd (brange k') then Some k' else None | None \<Rightarrow> None))"

partial_function (option) overlap_loop ::
  "Preparation \<Rightarrow> nat \<Rightarrow> str \<Rightarrow> str \<Rightarrow> nat \<Rightarrow> nat \<Rightarrow> nat \<Rightarrow> SourceRange option vault_result option" where
  "overlap_loop pr used pre src start first_end overlap_start =
     (if \<not> overlap_start < start then Some (Inr None)
      else let ov = \<lparr> start_byte = overlap_start, end_byte = start \<rparr> in
        case pr_count pr (slice src overlap_start start) of
          Inl e \<Rightarrow> Some (Inl e)
        | Inr n \<Rightarrow>
          (case (if n \<le> OVERLAP_TOKENS then fits pr used pre src (Some ov) start first_end else Inr False) of
             Inl e \<Rightarrow> Some (Inl e)
           | Inr f \<Rightarrow>
               if f then Some (Inr (Some ov))
               else overlap_loop pr used pre src start first_end
                 (ceil_boundary src (overlap_start + (start - overlap_start + 1) div 2))))"

definition preceding_overlap ::
  "Preparation \<Rightarrow> nat \<Rightarrow> str \<Rightarrow> Section \<Rightarrow> MarkdownBlock option \<Rightarrow> nat \<Rightarrow> str \<Rightarrow> SourceRange option vault_result option" where
  "preceding_overlap pr used src sec blk start pre =
     (case blk of
        None \<Rightarrow> Some (Inr None)
      | Some b \<Rightarrow>
          if \<not> (start_byte (sec_range sec) < start \<and> fst (brange b) < start) then Some (Inr None)
          else overlap_loop pr used pre src start (next_boundary src start)
                 (ceil_boundary src (max (max (start - OVERLAP_TOKENS * 8) (fst (brange b)))
                    (start_byte (sec_range sec)))))"

section \<open>Preparing a section\<close>

text \<open>\<^verbatim>\<open>append_chunk\<close>: the new state, the bytes of the chunk retained.\<close>

definition append_chunk :: "Preparation \<Rightarrow> PreparedChunk \<Rightarrow> ChunkState \<Rightarrow> ChunkState vault_result" where
  "append_chunk pr c st =
     try_bind (check_limit ''chunks per note'' (length (cs_chunks st) + 1) MAX_CHUNKS_PER_NOTE) (\<lambda>_.
     let header_growth = (if length (cs_chunks st) = cs_capacity st then sz_chunk (pr_sizes pr) else 0);
         metadata = sat_add (sat_add (sat_mul (length (ck_headings c)) (sz_string (pr_sizes pr)))
                               (sum_list (map length (ck_headings c))))
                      (case ck_kind c of None \<Rightarrow> 0 | Some k \<Rightarrow> length k);
         retained = sat_add (sat_add (sat_add (pr_cap pr (length (ck_text c))) metadata) header_growth)
                      (vector_reservation pr)
     in try_bind (budget_check pr (cs_used st) retained) (\<lambda>_.
        Inr \<lparr> cs_chunks = cs_chunks st @ [c],
              cs_capacity = (if length (cs_chunks st) = cs_capacity st then pr_grow pr (length (cs_chunks st))
                             else cs_capacity st),
              cs_used = cs_used st + retained \<rparr>))"

definition passage :: "Preparation \<Rightarrow> str \<Rightarrow> nat \<Rightarrow> nat \<Rightarrow> SourceRange option \<Rightarrow> Section \<Rightarrow> str option \<Rightarrow> PreparedChunk" where
  "passage pr txt a b ov sec kind =
     \<lparr> ck_text = txt, ck_hash = pr_digest pr txt, ck_scope = Passage, ck_range = \<lparr> start_byte = a, end_byte = b \<rparr>,
       ck_overlap = ov, ck_headings = sec_path sec, ck_section = Some (sec_subtree sec), ck_kind = kind \<rparr>"

text \<open>The loop over a section that does not fit as a whole.\<close>

partial_function (option) section_loop ::
  "Preparation \<Rightarrow> str \<Rightarrow> str \<Rightarrow> Section \<Rightarrow> MarkdownBlock list \<Rightarrow> nat \<Rightarrow> ChunkState \<Rightarrow> ChunkState vault_result option" where
  "section_loop pr src pre sec blks start st =
     (if \<not> start < end_byte (sec_range sec) then Some (Inr st)
      else case preceding_overlap pr (cs_used st) src sec (containing_block blks start) start pre of
        None \<Rightarrow> None
      | Some overlap \<Rightarrow>
          (case overlap of Inl e \<Rightarrow> Some (Inl e) | Inr ov \<Rightarrow>
          (case fitting_end pr (cs_used st) src start (end_byte (sec_range sec)) pre ov of
             None \<Rightarrow> None
           | Some candidate \<Rightarrow>
               (case try_bind candidate (\<lambda>c.
                       try_bind (preferred_end pr (cs_used st) src start c sec blks pre ov) (\<lambda>stop.
                       try_bind (compose pr (cs_used st) pre src ov start stop) (\<lambda>txt.
                       try_bind (append_chunk pr
                          (passage pr txt start stop ov sec (map_option bkind (split_block blks start stop))) st) (\<lambda>st'.
                         Inr (stop, st'))))) of
                  Inl e \<Rightarrow> Some (Inl e)
                | Inr r \<Rightarrow> section_loop pr src pre sec blks (fst r) (snd r)))))"

definition section_prefix :: "str \<Rightarrow> str list \<Rightarrow> str" where
  "section_prefix title path = title @ [LF] @ join_with '' > '' path @ (if path = [] then [] else [LF])"

definition prepare_section ::
  "Preparation \<Rightarrow> str \<Rightarrow> str \<Rightarrow> MarkdownBlock list \<Rightarrow> Section \<Rightarrow> ChunkState \<Rightarrow> ChunkState vault_result option" where
  "prepare_section pr src title blks sec st0 =
     (let context_bytes = context_prefix_bytes title (sum_list (map length (sec_path sec))) (length (sec_path sec));
          pre = section_prefix title (sec_path sec);
          a = start_byte (sec_range sec); b = end_byte (sec_range sec);
          release = (\<lambda>st. st \<lparr> cs_used := cs_used st - context_bytes \<rparr>)
      in case try_bind (check_limit ''embedding context bytes'' context_bytes MAX_CONTEXT_BYTES) (\<lambda>_.
              try_bind (budget_retain pr (cs_used st0) context_bytes) (\<lambda>used.
              try_bind (compose pr used pre src None a b) (\<lambda>entire.
              try_bind (pr_count pr entire) (\<lambda>n. Inr (used, entire, n))))) of
           Inl e \<Rightarrow> Some (Inl e)
         | Inr (used, entire, n) \<Rightarrow>
             (let st = st0 \<lparr> cs_used := used \<rparr> in
              if n \<le> pr_max_tokens pr
              then Some (map_sum id release (append_chunk pr (passage pr entire a b None sec None) st))
              else if a = b then Some (Inl (EmbeddingInputTooLong n (pr_max_tokens pr)))
              else map_option (map_sum id release) (section_loop pr src pre sec blks a st)))"

fun prepare_each ::
  "Preparation \<Rightarrow> str \<Rightarrow> str \<Rightarrow> MarkdownBlock list \<Rightarrow> Section list \<Rightarrow> ChunkState \<Rightarrow> ChunkState vault_result option" where
  "prepare_each pr src title blks [] st = Some (Inr st)"
| "prepare_each pr src title blks (sec # secs) st =
     (case prepare_section pr src title blks sec st of
        None \<Rightarrow> None
      | Some (Inl e) \<Rightarrow> Some (Inl e)
      | Some (Inr st') \<Rightarrow> prepare_each pr src title blks secs st')"

text \<open>
  The sections of a body: what precedes its first heading, then one per heading up to the next. The
  path of a heading is the stack of open headings, kept as in \<open>close_sections\<close>.
\<close>

fun heading_sections_from ::
  "HeadingPos list \<Rightarrow> nat list \<Rightarrow> nat \<Rightarrow> nat list \<Rightarrow> nat list \<Rightarrow> Section list" where
  "heading_sections_from hs ends body_end [] stack = []"
| "heading_sections_from hs ends body_end (i # is) stack =
     (let h = hs ! i; stack' = i # dropWhile (\<lambda>p. level h \<le> level (hs ! p)) stack
      in \<lparr> sec_range = \<lparr> start_byte = offset h, end_byte = (if i + 1 < length hs then offset (hs ! (i + 1)) else body_end) \<rparr>,
           sec_path = map (\<lambda>p. htext (hs ! p)) (rev stack'),
           sec_subtree = \<lparr> start_byte = offset h, end_byte = ends ! i \<rparr>,
           heading_end = hend h \<rparr> # heading_sections_from hs ends body_end is stack')"

definition body_sections :: "SourceRange \<Rightarrow> HeadingPos list \<Rightarrow> Section list" where
  "body_sections body hs0 =
     (let hs = drop (partition_point (\<lambda>h. offset h < start_byte body) hs0) hs0;
          ends = snd (heading_sections hs (end_byte body));
          preamble_end = (case hs of [] \<Rightarrow> end_byte body | h # _ \<Rightarrow> offset h);
          rng = \<lparr> start_byte = start_byte body, end_byte = preamble_end \<rparr>
      in (if start_byte body < preamble_end \<or> hs = []
          then [\<lparr> sec_range = rng, sec_path = [], sec_subtree = rng, heading_end = start_byte body \<rparr>] else [])
         @ heading_sections_from hs ends (end_byte body) [0..<length hs] [])"

definition prepare_sections ::
  "Preparation \<Rightarrow> str \<Rightarrow> str \<Rightarrow> SourceRange \<Rightarrow> HeadingPos list \<Rightarrow> MarkdownBlock list \<Rightarrow> ChunkState
     \<Rightarrow> ChunkState vault_result option" where
  "prepare_sections pr src title body hs0 blks st0 =
     (let bytes = sat_mul (length hs0 - partition_point (\<lambda>h. offset h < start_byte body) hs0) 8 in
      case budget_retain pr (cs_used st0) bytes of
        Inl e \<Rightarrow> Some (Inl e)
      | Inr used \<Rightarrow>
          map_option (map_sum id (\<lambda>st. st \<lparr> cs_used := cs_used st - bytes \<rparr>))
            (prepare_each pr src title blks (body_sections body hs0) (st0 \<lparr> cs_used := used \<rparr>)))"

section \<open>Preparing a note\<close>

definition validate_note_metadata :: "str \<Rightarrow> str list \<Rightarrow> unit vault_result" where
  "validate_note_metadata title tags =
     (if MAX_NOTE_TAGS < length tags
      then Inl (SemanticResourceLimit ''embedding note tags'' (length tags) MAX_NOTE_TAGS)
      else let n = foldl (\<lambda>n t. sat_add n (length t)) (length title) tags
           in if MAX_NOTE_METADATA_BYTES < n
              then Inl (SemanticResourceLimit ''embedding note metadata bytes'' n MAX_NOTE_METADATA_BYTES)
              else Inr ())"

definition coverage_error :: vault_error where
  "coverage_error = Embedding ''prepared note does not cover the complete body with valid source ranges''"

definition incomplete_error :: vault_error where
  "incomplete_error = Embedding ''prepared note has incomplete body coverage''"

fun coverage_loop :: "str \<Rightarrow> SourceRange \<Rightarrow> nat \<Rightarrow> PreparedChunk list \<Rightarrow> nat vault_result" where
  "coverage_loop src body expected [] = Inr expected"
| "coverage_loop src body expected (c # cs) =
     (let r = ck_range c in
      if start_byte r \<noteq> expected \<or> end_byte body < end_byte r \<or> end_byte r < start_byte r
         \<or> (start_byte r = end_byte r \<and> start_byte body \<noteq> end_byte body)
         \<or> \<not> is_boundary src (start_byte r) \<or> \<not> is_boundary src (end_byte r)
      then Inl coverage_error else coverage_loop src body (end_byte r) cs)"

definition validate_coverage :: "str \<Rightarrow> SourceRange \<Rightarrow> PreparedChunk list \<Rightarrow> unit vault_result" where
  "validate_coverage src body cs =
     try_bind (coverage_loop src body (start_byte body) cs) (\<lambda>e.
       if cs = [] \<or> e \<noteq> end_byte body then Inl incomplete_error else Inr ())"

definition finish_note ::
  "Preparation \<Rightarrow> str \<Rightarrow> str \<Rightarrow> str list \<Rightarrow> SourceRange \<Rightarrow> ChunkState \<Rightarrow> PreparedNote vault_result" where
  "finish_note pr src title tags body st =
     try_bind (validate_coverage src body (cs_chunks st)) (\<lambda>_.
     let note = \<lparr> pn_revision = source_revision (pr_digest pr) src, pn_source_bytes = length src, pn_body = body,
                  pn_title = title, pn_tags = tags, pn_chunks = cs_chunks st \<rparr>
     in try_bind (check_limit BUDGET_RESOURCE (staging_bytes pr (cs_capacity st) note) (pr_limit pr)) (\<lambda>_. Inr note))"

text \<open>
  \<^verbatim>\<open>prepare_budgeted\<close>: \<open>stem\<close> is the UTF-8 file stem if there is one, \<open>source_tags\<close> the tags of the note
  and the bytes in use after collecting them from a given level. \<open>prepare_entire\<close> composes and counts
  the whole note, \<open>prepare_whole\<close> keeps it as the only chunk, \<open>prepare_split\<close> splits it.
\<close>

definition prepare_entire ::
  "(nat \<Rightarrow> (str list \<times> nat) vault_result) \<Rightarrow> Preparation \<Rightarrow> str option \<Rightarrow> str \<Rightarrow> str \<Rightarrow> SourceRange
     \<Rightarrow> (str \<times> str list \<times> nat \<times> nat \<times> str \<times> nat) vault_result" where
  "prepare_entire source_tags pr stem path src body =
     try_bind (check_limit ''semantic source bytes'' (length src) MAX_SOURCE_BYTES) (\<lambda>_.
     try_bind (budget_retain pr 0 (sz_note (pr_sizes pr) + 64)) (\<lambda>u1.
     try_bind (ok_or (InvalidPath (''note has no UTF-8 filename: '' @ path)) stem) (\<lambda>title.
     try_bind (budget_retain pr u1 (length title)) (\<lambda>u2.
     try_bind (source_tags u2) (\<lambda>(tags, u3).
     try_bind (validate_note_metadata title tags) (\<lambda>_.
     try_bind (check_limit ''embedding context bytes'' (context_prefix_bytes title 0 0) MAX_CONTEXT_BYTES) (\<lambda>_.
     try_bind (budget_retain pr u3 (context_prefix_bytes title 0 0)) (\<lambda>u4.
     try_bind (compose pr u4 (title @ [LF]) src None (start_byte body) (end_byte body)) (\<lambda>full.
     try_bind (pr_count pr full) (\<lambda>n. Inr (title, tags, u3, u4, full, n)))))))))))"

definition prepare_whole ::
  "Preparation \<Rightarrow> str \<Rightarrow> str \<Rightarrow> str list \<Rightarrow> SourceRange \<Rightarrow> str \<Rightarrow> nat \<Rightarrow> PreparedNote vault_result" where
  "prepare_whole pr src title tags body full used =
     try_bind (append_chunk pr
         \<lparr> ck_text = full, ck_hash = pr_digest pr full, ck_scope = NoteScope, ck_range = body,
           ck_overlap = None, ck_headings = [], ck_section = None, ck_kind = None \<rparr>
         \<lparr> cs_chunks = [], cs_capacity = 0, cs_used = used \<rparr>) (finish_note pr src title tags body)"

definition prepare_split ::
  "md_parser \<Rightarrow> Preparation \<Rightarrow> str \<Rightarrow> str \<Rightarrow> str list \<Rightarrow> SourceRange \<Rightarrow> nat \<Rightarrow> PreparedNote vault_result option" where
  "prepare_split events pr src title tags body used =
     (case try_bind (budget_retain pr used (semantic_structure_allocation_bound (sz_heading (pr_sizes pr))
                       (sz_block (pr_sizes pr)) events src)) (\<lambda>u5.
           try_bind (markdown_structure events src) (\<lambda>structure. Inr (u5, structure))) of
        Inl e \<Rightarrow> Some (Inl e)
      | Inr (u5, hs, blks) \<Rightarrow>
          map_option (\<lambda>r. try_bind r (finish_note pr src title tags body))
            (prepare_sections pr src title body hs blks \<lparr> cs_chunks = [], cs_capacity = 0, cs_used = u5 \<rparr>))"

definition prepare_budgeted ::
  "md_parser \<Rightarrow> (nat \<Rightarrow> (str list \<times> nat) vault_result) \<Rightarrow> Preparation \<Rightarrow> str option \<Rightarrow> str \<Rightarrow> str
     \<Rightarrow> PreparedNote vault_result option" where
  "prepare_budgeted events source_tags pr stem path src =
     (let body = \<lparr> start_byte = (case extract_raw_frontmatter src of Some (_, off) \<Rightarrow> off | None \<Rightarrow> 0),
                   end_byte = length src \<rparr>
      in case prepare_entire source_tags pr stem path src body of
           Inl e \<Rightarrow> Some (Inl e)
         | Inr (title, tags, u3, u4, full, n) \<Rightarrow>
             if n \<le> pr_max_tokens pr then Some (prepare_whole pr src title tags body full u4)
             else prepare_split events pr src title tags body u3)"

declare fitting_loop.simps [code] overlap_loop.simps [code] section_loop.simps [code]

end
