(* ===== verification/ChunkCover.thy ===== *)
theory ChunkCover
  imports Chunks
begin

text \<open>
  What preparation guarantees: every loop returns, whatever the tokenizer answers, and the chunks of
  a prepared note tile its body, fit the model, and show exactly the text of their source ranges
  under their context, so the final coverage check never fails.
\<close>

section \<open>Boundaries\<close>

lemma slice_boundary:
  assumes "is_boundary s a" and "is_boundary s b" and "a \<le> b" and "is_boundary (slice s a b) i"
  shows "is_boundary s (a + i)"
proof -
  have bl: "b \<le> length s" by (rule is_boundary_le [OF assms(2)])
  have len: "length (slice s a b) = b - a" by (rule length_slice [OF bl])
  consider "i = 0" | "i = b - a" | "i < b - a" "\<not> is_cont (slice s a b ! i)"
    using assms(4) len by (auto simp: is_boundary_def)
  then show ?thesis
  proof cases
    case 3
    then have "slice s a b ! i = s ! (a + i)" using bl assms(3) by (simp add: slice_def)
    with 3 bl assms(3) show ?thesis by (auto simp: is_boundary_def)
  qed (use assms in simp_all)
qed

lemma chars_boundary: "utf8 s \<Longrightarrow> is_boundary s (length (concat (take k (chars s))))"
proof -
  assume u: "utf8 s"
  have "\<exists>rest. s = concat (take k (chars s)) @ rest \<and> utf8 rest"
    using u
  proof (induction s arbitrary: k rule: chars.induct)
    case (2 c cs)
    show ?case
    proof (cases k)
      case 0
      with "2.prems" show ?thesis by auto
    next
      case (Suc m)
      obtain r where r: "drop (char_len c - 1) cs = concat (take m (chars (drop (char_len c - 1) cs))) @ r" "utf8 r"
        using "2.IH" [OF utf8_Cons(4) [OF "2.prems"]] by blast
      have "concat (take k (chars (c # cs))) @ r =
          (c # take (char_len c - 1) cs) @ (concat (take m (chars (drop (char_len c - 1) cs))) @ r)"
        by (simp add: Suc)
      also have "\<dots> = c # cs" unfolding r(1) [symmetric] by simp
      finally show ?thesis using r(2) by metis
    qed
  qed simp
  then obtain rest where r: "s = concat (take k (chars s)) @ rest" "utf8 rest" by blast
  show ?thesis
  proof (cases rest)
    case Nil
    with r(1) have "length (concat (take k (chars s))) = length s" by (metis append_Nil2)
    then show ?thesis by simp
  next
    case (Cons d ds)
    have "s ! length (concat (take k (chars s))) = d" "length (concat (take k (chars s))) < length s"
      using r(1) Cons by (metis nth_append_length, metis length_append length_greater_0_conv less_add_same_cancel1 list.distinct(1))
    with utf8_Cons(1) r(2) Cons show ?thesis by (simp add: is_boundary_def)
  qed
qed

lemma range_chars_boundary:
  assumes "utf8 s" and "is_boundary s a" and "is_boundary s b" and "a \<le> b"
  shows "is_boundary s (a + length (concat (take k (chars (slice s a b)))))"
  by (rule slice_boundary [OF assms(2-4) chars_boundary [OF utf8_slice [OF assms]]])

lemma next_boundary_min:
  assumes u: "utf8 s" and a: "is_boundary s a" and l: "a < length s"
  shows "a < next_boundary s a" and "is_boundary s (next_boundary s a)"
    and "is_boundary s j \<Longrightarrow> a < j \<Longrightarrow> next_boundary s a \<le> j"
proof -
  obtain c cs where c: "drop a s = c # cs" using l by (cases "drop a s") auto
  have ud: "utf8 (c # cs)" using utf8_split_boundary(2) [OF u a] c by simp
  have len: "length s = a + Suc (length cs)" using arg_cong [OF c, of length] l by simp
  have nb: "next_boundary s a = a + char_len c"
    using utf8_Cons(2) [OF ud] by (simp add: next_boundary_def c first_char_def)
  show "a < next_boundary s a" by (simp add: nb)
  have cont: "is_cont (s ! i)" if "a < i" "i < a + char_len c" for i
  proof -
    have "s ! i = (c # cs) ! (i - a)" using that l by (simp add: c [symmetric])
    also have "\<dots> = take (char_len c - 1) cs ! (i - a - 1)" using that by (cases "i - a") auto
    finally have "s ! i = take (char_len c - 1) cs ! (i - a - 1)" .
    moreover have "i - a - 1 < length (take (char_len c - 1) cs)"
      using that utf8_Cons(2) [OF ud] by auto
    ultimately show ?thesis using utf8_Cons(3) [OF ud] nth_mem by metis
  qed
  show min: "next_boundary s a \<le> j" if "is_boundary s j" "a < j" for j
  proof (rule ccontr)
    assume "\<not> next_boundary s a \<le> j"
    then have j: "j < a + char_len c" by (simp add: nb)
    then have "j < length s" using utf8_Cons(2) [OF ud] len by simp
    with cont [OF that(2) j] that show False by (auto simp: is_boundary_def)
  qed
  obtain j where j: "a < j" "j \<le> a + 4" "is_boundary s j" by (rule next_boundary [OF u a l])
  have "is_boundary s (a + length (concat (take 1 (chars (slice s a (length s))))))"
    by (rule range_chars_boundary [OF u a is_boundary_length]) (use l in simp)
  moreover have "length (concat (take 1 (chars (slice s a (length s))))) = char_len c"
    using utf8_Cons(2) [OF ud] by (simp add: slice_def c len)
  ultimately show "is_boundary s (next_boundary s a)" by (simp add: nb)
qed

section \<open>Ends that fit\<close>

lemma compose_text: "compose pr used pre src ov a b = Inr txt \<Longrightarrow> txt = chunk_text pre src ov a b"
  by (auto simp: compose_def Let_def result_simps)

lemma trial_count: "trial pr used pre src ov a b = Inr n \<Longrightarrow> pr_count pr (chunk_text pre src ov a b) = Inr n"
  by (auto simp: trial_def result_simps dest: compose_text)

text \<open>An end after \<open>a\<close>, on a character boundary, whose chunk the model accepts.\<close>

definition good_end :: "Preparation \<Rightarrow> str \<Rightarrow> str \<Rightarrow> SourceRange option \<Rightarrow> nat \<Rightarrow> nat \<Rightarrow> nat \<Rightarrow> bool" where
  "good_end pr pre src ov a b e \<longleftrightarrow>
     is_boundary src e \<and> a < e \<and> e \<le> b
     \<and> (\<exists>n. pr_count pr (chunk_text pre src ov a e) = Inr n \<and> n \<le> pr_max_tokens pr)"

lemma probe_loop_end:
  "probe_loop pr used pre src ov a chs pos probes mn = Inr e \<Longrightarrow>
   \<exists>k. 0 < k \<and> k \<le> length chs \<and> e = pos + length (concat (take k chs))
     \<and> (\<exists>n. pr_count pr (chunk_text pre src ov a e) = Inr n \<and> n \<le> pr_max_tokens pr)"
proof (induction chs arbitrary: pos probes mn)
  case (Cons ch chs)
  obtain n where n: "trial pr used pre src ov a (pos + length ch) = Inr n"
    and r: "if n \<le> pr_max_tokens pr then e = pos + length ch
      else probe_loop pr used pre src ov a chs (pos + length ch) (probes + 1) (min mn n) = Inr e"
    using Cons.prems by (auto simp: result_simps Let_def split: if_splits)
  show ?case
  proof (cases "n \<le> pr_max_tokens pr")
    case True
    with r trial_count [OF n] show ?thesis by (intro exI [of _ 1]) auto
  next
    case False
    with r have p: "probe_loop pr used pre src ov a chs (pos + length ch) (probes + 1) (min mn n) = Inr e" by simp
    obtain k where "0 < k" "k \<le> length chs" "e = pos + length ch + length (concat (take k chs))"
      "\<exists>n. pr_count pr (chunk_text pre src ov a e) = Inr n \<and> n \<le> pr_max_tokens pr"
      using Cons.IH [OF p] by blast
    then show ?thesis by (intro exI [of _ "Suc k"]) simp
  qed
qed simp

lemma chars_nonempty: "list_all (\<lambda>ch. ch \<noteq> []) (chars s)"
  by (induction s rule: chars.induct) simp_all

lemma take_concat_le: "length (concat (take k xs)) \<le> length (concat xs)"
  by (metis append_take_drop_id concat_append le_add1 length_append)

lemma probe_good:
  assumes u: "utf8 src" and a: "is_boundary src a" and b: "is_boundary src b" and le: "a \<le> b"
    and r: "probe_advancing_prefix pr used pre src ov a b = Inr e"
  shows "good_end pr pre src ov a b e"
proof -
  let ?chs = "chars (slice src a b)"
  obtain k where k: "0 < k" "k \<le> length ?chs" "e = a + length (concat (take k ?chs))"
    and n: "\<exists>n. pr_count pr (chunk_text pre src ov a e) = Inr n \<and> n \<le> pr_max_tokens pr"
    using probe_loop_end [OF r [unfolded probe_advancing_prefix_def]] by blast
  have "is_boundary src e" unfolding k(3) by (rule range_chars_boundary [OF u a b le])
  moreover have "0 < length (concat (take k ?chs))"
    using k(1,2) chars_nonempty [of "slice src a b"] by (cases ?chs; cases k) auto
  moreover have "length (concat (take k ?chs)) \<le> b - a"
    using take_concat_le [of k ?chs] length_slice [OF is_boundary_le [OF b]] by (simp add: concat_chars)
  ultimately show ?thesis unfolding good_end_def using k(3) n le by auto
qed

lemma fitting_known:
  assumes u: "utf8 src" and a: "is_boundary src a" and b: "is_boundary src b"
  shows "is_boundary src stop \<Longrightarrow> a < stop \<Longrightarrow> stop \<le> b \<Longrightarrow> good_end pr pre src ov a b e0 \<Longrightarrow>
    \<exists>r. fitting_loop pr used pre src ov a b f stop (Some e0) = Some r \<and> (\<forall>e. r = Inr e \<longrightarrow> good_end pr pre src ov a b e)"
proof (induction "b - stop" arbitrary: stop e0 rule: less_induct)
  case less
  note unfold = fitting_loop.simps [of pr used pre src ov a b f stop "Some e0"]
  show ?case
  proof (cases "trial pr used pre src ov a stop")
    case (Inl er)
    then show ?thesis unfolding unfold by simp
  next
    case (Inr n)
    have g: "good_end pr pre src ov a b stop" if "n \<le> pr_max_tokens pr"
      using that less.prems(1-3) trial_count [OF Inr] by (auto simp: good_end_def)
    show ?thesis
    proof (cases "n \<le> pr_max_tokens pr \<and> stop \<noteq> b")
      case False
      with Inr g less.prems(4) show ?thesis unfolding unfold by auto
    next
      case True
      let ?m = "min (sat_add a (sat_mul (stop - a) 2)) b"
      let ?s = "max (floor_boundary src ?m) (next_boundary src stop)"
      have sl: "stop < length src" using True less.prems(3) is_boundary_le [OF b] by simp
      note nb = next_boundary_min [OF u less.prems(1) sl]
      have "next_boundary src stop \<le> b" using nb(3) [OF b] True less.prems(3) by simp
      moreover have "floor_boundary src ?m \<le> b" using floor_boundary_le [of src ?m] by simp
      ultimately have s: "?s \<le> b" "stop < ?s" "is_boundary src ?s"
        using nb(1,2) by (auto simp: max_def)
      have d: "b - ?s < b - stop" by (rule diff_less_mono2 [OF s(2)]) (use True less.prems(3) in simp)
      have "\<exists>r. fitting_loop pr used pre src ov a b f ?s (Some stop) = Some r
          \<and> (\<forall>e. r = Inr e \<longrightarrow> good_end pr pre src ov a b e)"
        by (rule less.hyps [OF d s(3) less_trans [OF less.prems(2) s(2)] s(1) g]) (use True in simp)
      with True Inr show ?thesis unfolding unfold by simp
    qed
  qed
qed

lemma fitting_unknown:
  assumes u: "utf8 src" and a: "is_boundary src a" and b: "is_boundary src b" and ab: "a < b"
    and f: "f = next_boundary src a"
  shows "is_boundary src stop \<Longrightarrow> f \<le> stop \<Longrightarrow> stop \<le> b \<Longrightarrow>
    \<exists>r. fitting_loop pr used pre src ov a b f stop None = Some r \<and> (\<forall>e. r = Inr e \<longrightarrow> good_end pr pre src ov a b e)"
proof (induction stop rule: less_induct)
  case (less stop)
  have al: "a < length src" using ab is_boundary_le [OF b] by simp
  note fa = next_boundary_min [OF u a al, folded f]
  note unfold = fitting_loop.simps [of pr used pre src ov a b f stop None]
  have as: "a < stop" using fa(1) less.prems(2) by simp
  show ?case
  proof (cases "trial pr used pre src ov a stop")
    case (Inl er)
    then show ?thesis unfolding unfold by simp
  next
    case (Inr n)
    have g: "good_end pr pre src ov a b stop" if "n \<le> pr_max_tokens pr"
      using that less.prems as trial_count [OF Inr] by (auto simp: good_end_def)
    consider "n \<le> pr_max_tokens pr" "stop = b" | "n \<le> pr_max_tokens pr" "stop \<noteq> b"
      | "\<not> n \<le> pr_max_tokens pr" "stop = f" | "\<not> n \<le> pr_max_tokens pr" "stop \<noteq> f" by blast
    then show ?thesis
    proof cases
      case 1
      with Inr g show ?thesis unfolding unfold by auto
    next
      case 2
      let ?m = "min (sat_add a (sat_mul (stop - a) 2)) b"
      let ?s = "max (floor_boundary src ?m) (next_boundary src stop)"
      have sl: "stop < length src" using 2 less.prems(3) is_boundary_le [OF b] by simp
      note nb = next_boundary_min [OF u less.prems(1) sl]
      have "next_boundary src stop \<le> b" using nb(3) [OF b] 2 less.prems(3) by simp
      moreover have "floor_boundary src ?m \<le> b" using floor_boundary_le [of src ?m] by simp
      ultimately have s: "?s \<le> b" "a < ?s" "is_boundary src ?s"
        using nb(1,2) as by (auto simp: max_def)
      from fitting_known [OF u a b s(3,2,1) g [OF 2(1)]] 2 Inr show ?thesis unfolding unfold by simp
    next
      case 3
      with Inr probe_good [OF u a b less_imp_le [OF ab]] show ?thesis unfolding unfold by auto
    next
      case 4
      let ?h = "a + (stop - a) div 2"
      let ?s = "max (floor_boundary src ?h) f"
      have "f < stop" using 4 less.prems(2) by simp
      moreover have "floor_boundary src ?h < stop" using floor_boundary_le [of src ?h] as by linarith
      ultimately have s: "?s < stop" "is_boundary src ?s" "f \<le> ?s" using fa(2) by (auto simp: max_def)
      have "\<exists>r. fitting_loop pr used pre src ov a b f ?s None = Some r
          \<and> (\<forall>e. r = Inr e \<longrightarrow> good_end pr pre src ov a b e)"
        by (rule less.IH [OF s(1,2,3)]) (use s(1) less.prems(3) in simp)
      with 4 Inr show ?thesis unfolding unfold by simp
    qed
  qed
qed

lemma fitting_end_good:
  assumes u: "utf8 src" and a: "is_boundary src a" and b: "is_boundary src b" and ab: "a < b"
  shows "\<exists>r. fitting_end pr used src a b pre ov = Some r \<and> (\<forall>e. r = Inr e \<longrightarrow> good_end pr pre src ov a b e)"
proof -
  have al: "a < length src" using ab is_boundary_le [OF b] by simp
  note fa = next_boundary_min [OF u a al]
  let ?m = "min (sat_add a (max (sat_mul (pr_max_tokens pr) 4) 4)) b"
  let ?s = "max (floor_boundary src ?m) (next_boundary src a)"
  have "floor_boundary src ?m \<le> b" using floor_boundary_le [of src ?m] by simp
  then have "?s \<le> b" "next_boundary src a \<le> ?s" "is_boundary src ?s"
    using fa(2) fa(3) [OF b ab] by (auto simp: max_def)
  then show ?thesis
    unfolding fitting_end_def Let_def by (intro fitting_unknown [OF u a b ab refl])
qed

section \<open>Preferred ends and overlaps\<close>

definition blocks_aligned :: "str \<Rightarrow> MarkdownBlock list \<Rightarrow> bool" where
  "blocks_aligned src blks \<longleftrightarrow> list_all (\<lambda>b. is_boundary src (snd (brange b))) blks"

lemma cut_scan_ends:
  "cut_scan src chs pos (s, l, w) = (s', l', w') \<Longrightarrow> Q s \<Longrightarrow> Q l \<Longrightarrow> Q w \<Longrightarrow>
   (\<And>k. Q (pos + length (concat (take k chs)))) \<Longrightarrow> Q s' \<and> Q l' \<and> Q w'"
proof (induction chs arbitrary: pos s l w)
  case (Cons ch chs)
  have e: "Q (pos + length ch)" using Cons.prems(5) [of 1] by simp
  have all: "Q (pos + length ch + length (concat (take k chs)))" for k
    using Cons.prems(5) [of "Suc k"] by (simp add: add.assoc)
  from Cons.prems(1) show ?case
    unfolding cut_scan.simps Let_def by (rule Cons.IH) (use Cons.prems(2-4) e all in auto)
qed simp

lemma try_cuts_result:
  "try_cuts pr used pre src ov a v mc es = Inr e \<Longrightarrow>
   e = v \<or> e \<in> set es \<and> mc < e \<and> e \<le> v
     \<and> (\<exists>n. pr_count pr (chunk_text pre src ov a e) = Inr n \<and> n \<le> pr_max_tokens pr)"
proof (induction es)
  case (Cons x es)
  show ?case
  proof (cases "x \<le> mc \<or> v < x \<or> x = v \<or> fits pr used pre src ov a x \<noteq> Inr True")
    case True
    with Cons show ?thesis by (auto simp: result_simps split: if_splits)
  next
    case False
    then obtain n where "trial pr used pre src ov a x = Inr n" "n \<le> pr_max_tokens pr"
      by (auto simp: fits_def result_simps)
    with trial_count False Cons.prems show ?thesis by (auto simp: result_simps)
  qed
qed simp

lemma partition_le: "partition_point P xs \<le> length xs"
  by (simp add: partition_point_def length_takeWhile_le)

lemma preferred_good:
  assumes u: "utf8 src" and a: "is_boundary src a" and g: "good_end pr pre src ov a b v"
    and sec: "b = end_byte (sec_range sec)" "a = start_byte (sec_range sec) \<Longrightarrow> a \<le> heading_end sec"
    and blks: "blocks_aligned src blks"
    and r: "preferred_end pr used src a v sec blks pre ov = Inr e"
  shows "good_end pr pre src ov a b e"
proof (cases "v = b")
  case True
  with r g sec show ?thesis by (simp add: preferred_end_def)
next
  case False
  have v: "is_boundary src v" "a < v" "v \<le> b" using g by (auto simp: good_end_def)
  let ?lb = "partition_point (\<lambda>x. snd (brange x) \<le> v) blks"
  let ?be = "if ?lb = 0 then a else snd (brange (blks ! (?lb - 1)))"
  let ?mc = "if a = start_byte (sec_range sec)
      \<and> (\<exists>ch \<in> set (chars (slice src (heading_end sec) (end_byte (sec_range sec)))). \<not> is_ws_char ch)
    then heading_end sec else a"
  obtain s l w where c: "cut_scan src (chars (slice src a v)) a (a, a, a) = (s, l, w)"
    by (metis prod_cases3)
  have swl: "is_boundary src s \<and> is_boundary src l \<and> is_boundary src w"
    by (rule cut_scan_ends [where Q = "is_boundary src", OF c a a a]) (rule range_chars_boundary [OF u a v(1) less_imp_le [OF v(2)]])
  have be: "is_boundary src ?be"
  proof (cases "?lb = 0")
    case False
    then have "?lb - 1 < length blks" using partition_le [of "\<lambda>x. snd (brange x) \<le> v" blks] by linarith
    with blks False show ?thesis by (simp add: blocks_aligned_def list_all_length)
  qed (use a in simp)
  have "try_cuts pr used pre src ov a v ?mc [?be, s, l, w] = Inr e"
    using r False sec(1) by (simp add: preferred_end_def Let_def c)
  from try_cuts_result [OF this] show ?thesis
  proof
    assume "e = v"
    with g show ?thesis by simp
  next
    assume e: "e \<in> set [?be, s, l, w] \<and> ?mc < e \<and> e \<le> v
      \<and> (\<exists>n. pr_count pr (chunk_text pre src ov a e) = Inr n \<and> n \<le> pr_max_tokens pr)"
    have "a \<le> ?mc" using sec(2) by auto
    with e have ae: "a < e" by linarith
    have "is_boundary src e" using e be swl by auto
    with e ae v(3) show ?thesis unfolding good_end_def by auto
  qed
qed

definition overlap_ok :: "str \<Rightarrow> nat \<Rightarrow> SourceRange option \<Rightarrow> bool" where
  "overlap_ok src a ov \<longleftrightarrow>
     (case ov of None \<Rightarrow> True
      | Some r \<Rightarrow> end_byte r = a \<and> start_byte r < a \<and> is_boundary src (start_byte r))"

lemma overlap_loop_returns:
  assumes a: "is_boundary src a"
  shows "is_boundary src os \<Longrightarrow>
    \<exists>r. overlap_loop pr used pre src a f os = Some r \<and> (\<forall>ov. r = Inr ov \<longrightarrow> overlap_ok src a ov)"
proof (induction "a - os" arbitrary: os rule: less_induct)
  case less
  note unfold = overlap_loop.simps [of pr used pre src a f os]
  show ?case
  proof (cases "os < a")
    case False
    then show ?thesis unfolding unfold by (simp add: overlap_ok_def)
  next
    case True
    let ?x = "os + (a - os + 1) div 2"
    have x: "os < ?x" "?x \<le> a" using True by auto
    have xl: "?x \<le> length src" using x(2) is_boundary_le [OF a] by simp
    have n: "os < ceil_boundary src ?x" "is_boundary src (ceil_boundary src ?x)"
      using ceil_boundary_ge [OF xl] x(1) by simp_all
    have d: "a - ceil_boundary src ?x < a - os" by (rule diff_less_mono2 [OF n(1) True])
    from less.hyps [OF d n(2)] True less.prems show ?thesis
      unfolding unfold Let_def by (auto simp: overlap_ok_def split: sum.splits)
  qed
qed

lemma preceding_overlap_ok:
  assumes "is_boundary src a"
  shows "\<exists>r. preceding_overlap pr used src sec blk a pre = Some r \<and> (\<forall>ov. r = Inr ov \<longrightarrow> overlap_ok src a ov)"
proof (cases "\<exists>b. blk = Some b \<and> start_byte (sec_range sec) < a \<and> fst (brange b) < a")
  case True
  then obtain b where b: "blk = Some b" "start_byte (sec_range sec) < a \<and> fst (brange b) < a" by blast
  show ?thesis
    unfolding preceding_overlap_def b(1) option.case using b(2)
      overlap_loop_returns [OF assms ceil_boundary_boundary] by simp
next
  case False
  then show ?thesis by (auto simp: preceding_overlap_def overlap_ok_def split: option.splits)
qed

section \<open>Chunks tile a section\<close>

definition chunk_ok :: "Preparation \<Rightarrow> str \<Rightarrow> str \<Rightarrow> PreparedChunk \<Rightarrow> bool" where
  "chunk_ok pr title src c \<longleftrightarrow>
     (let a = start_byte (ck_range c); b = end_byte (ck_range c) in
      is_boundary src a \<and> is_boundary src b \<and> overlap_ok src a (ck_overlap c)
      \<and> ck_text c = chunk_text (section_prefix title (ck_headings c)) src (ck_overlap c) a b
      \<and> (\<exists>n. pr_count pr (ck_text c) = Inr n \<and> n \<le> pr_max_tokens pr))"

fun tiles :: "nat \<Rightarrow> nat \<Rightarrow> PreparedChunk list \<Rightarrow> bool" where
  "tiles a b [] \<longleftrightarrow> a = b"
| "tiles a b (c # cs) \<longleftrightarrow> start_byte (ck_range c) = a \<and> a \<le> end_byte (ck_range c) \<and> tiles (end_byte (ck_range c)) b cs"

definition nonempty_chunk :: "PreparedChunk \<Rightarrow> bool" where
  "nonempty_chunk c \<longleftrightarrow> start_byte (ck_range c) < end_byte (ck_range c)"

lemma tiles_append: "tiles a b cs \<Longrightarrow> tiles b c ds \<Longrightarrow> tiles a c (cs @ ds)"
  by (induction cs arbitrary: a) auto

lemma tiles_le: "tiles a b cs \<Longrightarrow> a \<le> b"
  by (induction cs arbitrary: a) fastforce+

text \<open>\<open>extends\<close>: the state gained chunks that tile a range.\<close>

definition extends :: "Preparation \<Rightarrow> str \<Rightarrow> str \<Rightarrow> nat \<Rightarrow> nat \<Rightarrow> ChunkState \<Rightarrow> ChunkState \<Rightarrow> bool" where
  "extends pr title src a b st st' \<longleftrightarrow>
     (\<exists>new. cs_chunks st' = cs_chunks st @ new \<and> tiles a b new \<and> list_all (chunk_ok pr title src) new
        \<and> (a < b \<longrightarrow> list_all nonempty_chunk new) \<and> new \<noteq> []
        \<and> length (cs_chunks st') \<le> MAX_CHUNKS_PER_NOTE)"

lemma append_chunk_chunks:
  "append_chunk pr c st = Inr st' \<Longrightarrow> cs_chunks st' = cs_chunks st @ [c] \<and> length (cs_chunks st') \<le> MAX_CHUNKS_PER_NOTE"
  by (auto simp: append_chunk_def Let_def result_simps check_limit_def split: if_splits)

lemma section_loop_tiles:
  assumes u: "utf8 src" and b: "is_boundary src b" and sec: "b = end_byte (sec_range sec)"
    and he: "start_byte (sec_range sec) \<le> heading_end sec" and blks: "blocks_aligned src blks"
  shows "is_boundary src a \<Longrightarrow> a < b \<Longrightarrow>
    \<exists>r. section_loop pr src (section_prefix title (sec_path sec)) sec blks a st = Some r
      \<and> (\<forall>st'. r = Inr st' \<longrightarrow> extends pr title src a b st st')"
proof (induction "b - a" arbitrary: a st rule: less_induct)
  case less
  let ?pre = "section_prefix title (sec_path sec)"
  note unfold = section_loop.simps [of pr src ?pre sec blks a st]
  obtain ro where ro: "preceding_overlap pr (cs_used st) src sec (containing_block blks a) a ?pre = Some ro"
    "\<forall>ov. ro = Inr ov \<longrightarrow> overlap_ok src a ov"
    using preceding_overlap_ok [OF less.prems(1)] by blast
  show ?case
  proof (cases ro)
    case (Inl e)
    with ro(1) less.prems(2) sec show ?thesis unfolding unfold by simp
  next
    case (Inr ov)
    then have ov: "overlap_ok src a ov" using ro(2) by simp
    obtain rc where rc: "fitting_end pr (cs_used st) src a b ?pre ov = Some rc"
      "\<forall>e. rc = Inr e \<longrightarrow> good_end pr ?pre src ov a b e"
      using fitting_end_good [OF u less.prems(1) b less.prems(2)] by blast
    let ?step = "try_bind rc (\<lambda>c.
         try_bind (preferred_end pr (cs_used st) src a c sec blks ?pre ov) (\<lambda>stop.
         try_bind (compose pr (cs_used st) ?pre src ov a stop) (\<lambda>tx.
         try_bind (append_chunk pr
            (passage pr tx a stop ov sec (map_option bkind (split_block blks a stop))) st) (\<lambda>st'.
           Inr (stop, st')))))"
    have unf: "section_loop pr src ?pre sec blks a st = (case ?step of Inl e \<Rightarrow> Some (Inl e)
        | Inr r \<Rightarrow> section_loop pr src ?pre sec blks (fst r) (snd r))"
      unfolding unfold using less.prems(2) ro(1) rc(1) Inr sec by simp
    show ?thesis
    proof (cases ?step)
      case (Inl e)
      show ?thesis unfolding unf Inl by simp
    next
      case (Inr r)
      obtain c stop tx st' where s: "rc = Inr c" "preferred_end pr (cs_used st) src a c sec blks ?pre ov = Inr stop"
        "compose pr (cs_used st) ?pre src ov a stop = Inr tx"
        "append_chunk pr (passage pr tx a stop ov sec (map_option bkind (split_block blks a stop))) st = Inr st'"
        "r = (stop, st')"
        using Inr by (auto simp: result_simps)
      have g: "good_end pr ?pre src ov a b stop"
        by (rule preferred_good [OF u less.prems(1) _ sec _ blks s(2)]) (use rc(2) s(1) he in auto)
      then have st: "a < stop" "stop \<le> b" "is_boundary src stop"
        and n: "\<exists>n. pr_count pr (chunk_text ?pre src ov a stop) = Inr n \<and> n \<le> pr_max_tokens pr"
        by (auto simp: good_end_def)
      let ?c = "passage pr tx a stop ov sec (map_option bkind (split_block blks a stop))"
      have c_ok: "chunk_ok pr title src ?c" "nonempty_chunk ?c"
        using st n less.prems(1) ov compose_text [OF s(3)]
        by (simp_all add: chunk_ok_def passage_def nonempty_chunk_def)
      have cr: "start_byte (ck_range ?c) = a" "end_byte (ck_range ?c) = stop" by (simp_all add: passage_def)
      have ch: "cs_chunks st' = cs_chunks st @ [?c]" using append_chunk_chunks [OF s(4)] by blast
      have len: "length (cs_chunks st') \<le> MAX_CHUNKS_PER_NOTE" using append_chunk_chunks [OF s(4)] by blast
      show ?thesis
      proof (cases "stop < b")
        case False
        then have "section_loop pr src ?pre sec blks stop st' = Some (Inr st')"
          using section_loop.simps [of pr src ?pre sec blks stop st'] sec by simp
        moreover have "extends pr title src a b st st'"
          unfolding extends_def using False st ch len c_ok cr by (intro exI [of _ "[?c]"]) simp
        ultimately show ?thesis unfolding unf Inr s(5) by simp
      next
        case True
        have d: "b - stop < b - a" by (rule diff_less_mono2 [OF st(1) less.prems(2)])
        obtain r' where r': "section_loop pr src ?pre sec blks stop st' = Some r'"
          "\<forall>st''. r' = Inr st'' \<longrightarrow> extends pr title src stop b st' st''"
          using less.hyps [OF d st(3) True] by blast
        have "extends pr title src a b st st''" if e: "r' = Inr st''" for st''
        proof -
          obtain cs where new: "cs_chunks st'' = cs_chunks st' @ cs" "tiles stop b cs"
            "list_all (chunk_ok pr title src) cs" "list_all nonempty_chunk cs"
            "length (cs_chunks st'') \<le> MAX_CHUNKS_PER_NOTE"
            using r'(2) e True unfolding extends_def by blast
          show ?thesis
            unfolding extends_def using new ch c_ok cr st by (intro exI [of _ "?c # cs"]) simp
        qed
        with r'(1) show ?thesis unfolding unf Inr s(5) by simp
      qed
    qed
  qed
qed

end
