(* ===== verification/ChunkNote.thy ===== *)
theory ChunkNote
  imports ChunkCover
begin

text \<open>
  A whole note: the sections of a body tile it when the events of the CommonMark parser are in
  place, so the chunks of a prepared note tile the body and the final coverage check never fails.
\<close>

section \<open>Where headings and blocks lie\<close>

text \<open>
  What the parser documents of its offset ranges: they lie on character boundaries, and headings,
  which are leaf blocks with at least one byte, come one after the other. \<open>lim\<close> is the end of the
  last heading.
\<close>

fun placed_stream :: "str \<Rightarrow> nat \<Rightarrow> md_stream \<Rightarrow> bool" where
  "placed_stream src lim [] \<longleftrightarrow> True"
| "placed_stream src lim ((ev, s, e) # evs) \<longleftrightarrow>
     is_boundary src s \<and> is_boundary src e
     \<and> (case ev of
          Start (Heading _) \<Rightarrow> lim \<le> s \<and> s < e \<and> placed_stream src e evs
        | End (Heading _) \<Rightarrow> lim \<le> e \<and> placed_stream src lim evs
        | _ \<Rightarrow> placed_stream src lim evs)"

definition placed_headings :: "str \<Rightarrow> HeadingPos list \<Rightarrow> bool" where
  "placed_headings src hs \<longleftrightarrow>
     sorted_wrt (\<lambda>h k. offset h < offset k) hs
     \<and> list_all (\<lambda>h. is_boundary src (offset h) \<and> offset h < length src \<and> offset h \<le> hend h) hs"

definition placed :: "str \<Rightarrow> nat \<Rightarrow> extraction \<Rightarrow> bool" where
  "placed src lim x \<longleftrightarrow>
     placed_headings src (x_headings x) \<and> list_all (\<lambda>h. offset h < lim) (x_headings x)
     \<and> blocks_aligned src (x_blocks x)
     \<and> (in_heading x \<longrightarrow> is_boundary src (current_offset x) \<and> current_offset x < length src
          \<and> current_offset x < lim \<and> list_all (\<lambda>h. offset h < current_offset x) (x_headings x))"

lemma placed_block_step:
  assumes "placed src lim x" and "is_boundary src s" and "is_boundary src e" and "block_step ev (s, e) x = Inr x'"
  shows "placed src lim x'"
  using assms
  by (cases ev) (auto simp: placed_def push_block_def blocks_aligned_def Let_def split: if_splits)

lemma placed_heading_step:
  assumes "placed src lim x" and "placed_stream src lim ((ev, s, e) # evs)"
    and "heading_step src collect ev (s, e) x = Inr x'"
  shows "\<exists>lim'. placed src lim' x' \<and> placed_stream src lim' evs"
  using assms
proof (cases "(src, collect, ev, (s, e), x)" rule: heading_step.cases)
  case (1 c co l r x'')
  then have "lim \<le> s" "s < e" "placed_stream src e evs" "is_boundary src s" "is_boundary src e"
    using assms(2) by auto
  moreover have "s < length src" using is_boundary_le [OF calculation(5)] calculation(2) by simp
  moreover have "list_all (\<lambda>h. offset h < m) (x_headings x)" if "lim \<le> m" for m
    using assms(1) that by (auto simp: placed_def list_all_iff)
  ultimately have "placed src e x'" using 1 assms(1,3) by (auto simp: placed_def)
  with \<open>placed_stream src e evs\<close> show ?thesis by blast
next
  case (5 c co l r x'')
  then have "lim \<le> e" "placed_stream src lim evs" using assms(2) by auto
  moreover have "placed src lim x'"
    using 5 assms(1,3) \<open>lim \<le> e\<close>
    by (auto simp: placed_def placed_headings_def list_all_iff sorted_wrt_append split: if_splits)
  ultimately show ?thesis by blast
qed (auto simp: placed_def split: if_splits)

lemma extract_loop_placed:
  "placed src lim x \<Longrightarrow> placed_stream src lim evs \<Longrightarrow>
   placed_headings src (headings (extract_loop src True evs x))
   \<and> blocks_aligned src (blocks (extract_loop src True evs x))"
proof (induction evs arbitrary: lim x)
  case (Cons p evs)
  obtain ev s e where p: "p = (ev, s, e)" by (cases p)
  have b: "placed src lim x1" if "block_step ev (s, e) x = Inr x1" for x1
    by (rule placed_block_step [OF Cons.prems(1) _ _ that]) (use Cons.prems(2) p in simp_all)
  show ?case
  proof (cases "block_step ev (s, e) x")
    case (Inl l)
    with Cons.prems(1) show ?thesis by (simp add: p extraction_of_def placed_def)
  next
    case (Inr x1)
    show ?thesis
    proof (cases "heading_step src True ev (s, e) x1")
      case (Inl l)
      with Inr b [OF Inr] show ?thesis by (simp add: p extraction_of_def placed_def)
    next
      case I2: (Inr x2)
      obtain lim' where "placed src lim' x2" "placed_stream src lim' evs"
        using placed_heading_step [OF b [OF Inr] _ I2] Cons.prems(2) p by blast
      with Cons.IH Inr I2 show ?thesis by (simp add: p)
    qed
  qed
qed (simp add: extraction_of_def placed_def)

lemma markdown_structure_placed:
  assumes "placed_stream src 0 (events True src)" and "markdown_structure events src = Inr (hs, blks)"
  shows "placed_headings src hs" and "blocks_aligned src blks"
proof -
  have "placed src 0 extraction_init"
    by (simp add: placed_def extraction_init_def placed_headings_def blocks_aligned_def)
  from extract_loop_placed [OF this assms(1)] assms(2)
  show "placed_headings src hs" "blocks_aligned src blks"
    by (auto simp: markdown_structure_def extract_structure_def Let_def split: option.splits)
qed

section \<open>Sections tile the body\<close>

definition section_ok :: "str \<Rightarrow> Section \<Rightarrow> bool" where
  "section_ok src sec \<longleftrightarrow>
     is_boundary src (start_byte (sec_range sec)) \<and> is_boundary src (end_byte (sec_range sec))
     \<and> start_byte (sec_range sec) \<le> end_byte (sec_range sec) \<and> start_byte (sec_range sec) \<le> heading_end sec"

definition strict_section :: "Section \<Rightarrow> bool" where
  "strict_section sec \<longleftrightarrow> start_byte (sec_range sec) < end_byte (sec_range sec)"

fun chain :: "str \<Rightarrow> nat \<Rightarrow> nat \<Rightarrow> Section list \<Rightarrow> bool" where
  "chain src a b [] \<longleftrightarrow> a = b"
| "chain src a b (sec # secs) \<longleftrightarrow>
     start_byte (sec_range sec) = a \<and> section_ok src sec \<and> chain src (end_byte (sec_range sec)) b secs"

lemma chain_le: "chain src a b secs \<Longrightarrow> a \<le> b"
  by (induction secs arbitrary: a) (fastforce simp: section_ok_def)+

lemma chain_strict: "chain src a b secs \<Longrightarrow> list_all strict_section secs \<Longrightarrow> secs \<noteq> [] \<Longrightarrow> a < b"
  by (cases secs) (auto simp: strict_section_def dest: chain_le)

lemma heading_sections_chain:
  assumes hs: "placed_headings src hs" and b: "is_boundary src b" "length src \<le> b"
  shows "i \<le> length hs \<Longrightarrow>
    chain src (if i < length hs then offset (hs ! i) else b) b (heading_sections_from hs ends b [i..<length hs] stack)
    \<and> list_all strict_section (heading_sections_from hs ends b [i..<length hs] stack)"
proof (induction "length hs - i" arbitrary: i stack)
  case (Suc n)
  then have i: "i < length hs" by linarith
  then have u: "[i..<length hs] = i # [Suc i..<length hs]" by (rule upt_conv_Cons)
  let ?e = "if i + 1 < length hs then offset (hs ! (i + 1)) else b"
  have h: "is_boundary src (offset (hs ! i))" "offset (hs ! i) < length src" "offset (hs ! i) \<le> hend (hs ! i)"
    using hs i by (auto simp: placed_headings_def list_all_length)
  have e: "is_boundary src ?e" "offset (hs ! i) < ?e"
    using hs i b h by (auto simp: placed_headings_def list_all_length sorted_wrt_iff_nth_less)
  have "chain src ?e b (heading_sections_from hs ends b [Suc i..<length hs] s)
      \<and> list_all strict_section (heading_sections_from hs ends b [Suc i..<length hs] s)" for s
    using Suc(1) [of "Suc i" s] Suc(2) i by auto
  then show ?case
    unfolding u heading_sections_from.simps Let_def
    using i h e by (simp add: section_ok_def strict_section_def)
qed simp

lemma body_sections_chain:
  assumes hs0: "placed_headings src hs0" and b: "is_boundary src (start_byte body)" "end_byte body = length src"
    and le: "start_byte body \<le> end_byte body"
  shows "chain src (start_byte body) (end_byte body) (body_sections body hs0)
    \<and> body_sections body hs0 \<noteq> []
    \<and> (start_byte body < end_byte body \<longrightarrow> list_all strict_section (body_sections body hs0))"
proof -
  let ?P = "\<lambda>h. offset h < start_byte body"
  let ?hs = "drop (partition_point ?P hs0) hs0"
  have d: "?hs = dropWhile ?P hs0" by (simp add: partition_point_def dropWhile_eq_drop)
  have hs: "placed_headings src ?hs"
    using hs0 by (auto simp: placed_headings_def sorted_wrt_drop list_all_iff dest: in_set_dropD)
  have eb: "is_boundary src (end_byte body)" using b by simp
  have le_src: "length src \<le> end_byte body" using b by simp
  note t = heading_sections_chain [OF hs eb le_src, of 0]
  show ?thesis
  proof (cases ?hs)
    case Nil
    then show ?thesis
      unfolding body_sections_def Let_def using b eb le
      by (simp add: section_ok_def strict_section_def)
  next
    case (Cons h rest)
    then have h: "is_boundary src (offset h)" "start_byte body \<le> offset h" "offset h < end_byte body"
      using hs b hd_dropWhile [of ?P hs0] unfolding d by (auto simp: placed_headings_def)
    show ?thesis
    proof (cases "start_byte body < offset h")
      case True
      then show ?thesis
        unfolding body_sections_def Let_def using t Cons b h
        by (simp add: section_ok_def strict_section_def)
    next
      case False
      then have eq: "offset h = start_byte body" using h(2) by simp
      let ?secs = "heading_sections_from ?hs (snd (heading_sections ?hs (end_byte body))) (end_byte body) [0..<length ?hs] []"
      have "body_sections body hs0 = ?secs" unfolding body_sections_def Let_def Cons using eq by simp
      moreover have "?secs \<noteq> []" unfolding Cons by (simp add: upt_conv_Cons Let_def del: upt_Suc)
      ultimately show ?thesis
        using t [of "snd (heading_sections ?hs (end_byte body))" "[]"] Cons eq by simp
    qed
  qed
qed

section \<open>Preparing sections\<close>

lemma extends_used [simp]:
  "extends pr title src a b (st\<lparr>cs_used := x\<rparr>) st' = extends pr title src a b st st'"
  "extends pr title src a b st (st'\<lparr>cs_used := x\<rparr>) = extends pr title src a b st st'"
  by (simp_all add: extends_def)

lemma prepare_section_tiles:
  assumes u: "utf8 src" and blks: "blocks_aligned src blks" and ok: "section_ok src sec"
  shows "\<exists>r. prepare_section pr src title blks sec st0 = Some r
    \<and> (\<forall>st'. r = Inr st' \<longrightarrow> extends pr title src (start_byte (sec_range sec)) (end_byte (sec_range sec)) st0 st')"
proof -
  let ?bytes = "context_prefix_bytes title (sum_list (map length (sec_path sec))) (length (sec_path sec))"
  let ?pre = "section_prefix title (sec_path sec)"
  let ?a = "start_byte (sec_range sec)" and ?b = "end_byte (sec_range sec)"
  let ?release = "\<lambda>st. st \<lparr> cs_used := cs_used st - ?bytes \<rparr>"
  let ?head = "try_bind (check_limit ''embedding context bytes'' ?bytes MAX_CONTEXT_BYTES) (\<lambda>_.
      try_bind (budget_retain pr (cs_used st0) ?bytes) (\<lambda>used.
      try_bind (compose pr used ?pre src None ?a ?b) (\<lambda>entire.
      try_bind (pr_count pr entire) (\<lambda>n. Inr (used, entire, n)))))"
  have s: "is_boundary src ?a" "is_boundary src ?b" "?a \<le> ?b" "?a \<le> heading_end sec"
    using ok by (simp_all add: section_ok_def)
  show ?thesis
  proof (cases ?head)
    case (Inl e)
    then show ?thesis by (simp add: prepare_section_def Let_def)
  next
    case (Inr p)
    obtain used entire n where p: "p = (used, entire, n)" by (cases p)
    from Inr p have e: "entire = chunk_text ?pre src None ?a ?b" "pr_count pr entire = Inr n"
      by (auto simp: result_simps dest: compose_text)
    note unf = prepare_section_def [of pr src title blks sec st0, unfolded Let_def Inr p, simplified]
    let ?c = "passage pr entire ?a ?b None sec None" and ?st = "st0\<lparr>cs_used := used\<rparr>"
    consider "n \<le> pr_max_tokens pr" | "\<not> n \<le> pr_max_tokens pr" "?a = ?b"
      | "\<not> n \<le> pr_max_tokens pr" "?a < ?b" using s(3) by linarith
    then show ?thesis
    proof cases
      case 1
      have c: "chunk_ok pr title src ?c" "start_byte (ck_range ?c) = ?a" "end_byte (ck_range ?c) = ?b"
        using 1 s e by (simp_all add: chunk_ok_def passage_def overlap_ok_def)
      have "extends pr title src ?a ?b ?st st'" if "append_chunk pr ?c ?st = Inr st'" for st'
        unfolding extends_def using append_chunk_chunks [OF that] c s(3)
        by (intro exI [of _ "[?c]"]) (auto simp: nonempty_chunk_def)
      with 1 show ?thesis unfolding unf by (cases "append_chunk pr ?c ?st") auto
    next
      case 2
      then show ?thesis unfolding unf by simp
    next
      case 3
      obtain r where "section_loop pr src ?pre sec blks ?a ?st = Some r"
        "\<forall>st'. r = Inr st' \<longrightarrow> extends pr title src ?a ?b ?st st'"
        using section_loop_tiles [OF u s(2) refl s(4) blks s(1) 3(2)] by blast
      with 3 show ?thesis unfolding unf by (cases r) auto
    qed
  qed
qed

lemma extends_trans:
  assumes "extends pr title src a b st st1" and "extends pr title src b c st1 st2"
    and "a < c \<Longrightarrow> a < b \<and> b < c"
  shows "extends pr title src a c st st2"
  using assms unfolding extends_def by (auto intro: tiles_append)

lemma prepare_each_tiles:
  assumes u: "utf8 src" and blks: "blocks_aligned src blks"
  shows "chain src a b secs \<Longrightarrow> secs \<noteq> [] \<Longrightarrow> (a < b \<longrightarrow> list_all strict_section secs) \<Longrightarrow>
    \<exists>r. prepare_each pr src title blks secs st = Some r \<and> (\<forall>st'. r = Inr st' \<longrightarrow> extends pr title src a b st st')"
proof (induction secs arbitrary: a st)
  case (Cons sec secs)
  let ?e = "end_byte (sec_range sec)"
  have c: "start_byte (sec_range sec) = a" "section_ok src sec" "chain src ?e b secs"
    using Cons.prems(1) by simp_all
  obtain r where r: "prepare_section pr src title blks sec st = Some r"
    "\<forall>st'. r = Inr st' \<longrightarrow> extends pr title src a ?e st st'"
    using prepare_section_tiles [OF u blks c(2)] c(1) by blast
  show ?case
  proof (cases r)
    case (Inl e)
    with r show ?thesis by simp
  next
    case (Inr st1)
    then have x: "extends pr title src a ?e st st1" using r(2) by blast
    show ?thesis
    proof (cases "secs = []")
      case True
      with r x c Inr show ?thesis by simp
    next
      case False
      have ae: "a \<le> ?e" using c(1,2) by (simp add: section_ok_def)
      have st: "?e < b \<longrightarrow> list_all strict_section secs" using Cons.prems(3) ae by simp
      obtain r' where r': "prepare_each pr src title blks secs st1 = Some r'"
        "\<forall>st'. r' = Inr st' \<longrightarrow> extends pr title src ?e b st1 st'"
        using Cons.IH [OF c(3) False st] by blast
      have "a < ?e \<and> ?e < b" if "a < b"
        using that Cons.prems(3) c chain_strict [OF c(3) _ False] by (simp add: strict_section_def [of sec])
      with r r' x Inr show ?thesis using extends_trans by fastforce
    qed
  qed
qed simp

lemma prepare_sections_tiles:
  assumes "utf8 src" and "placed_headings src hs" and "blocks_aligned src blks"
    and "is_boundary src (start_byte body)" and "end_byte body = length src"
  shows "\<exists>r. prepare_sections pr src title body hs blks st0 = Some r
    \<and> (\<forall>st'. r = Inr st' \<longrightarrow> extends pr title src (start_byte body) (end_byte body) st0 st')"
proof -
  let ?bytes = "sat_mul (length hs - partition_point (\<lambda>h. offset h < start_byte body) hs) 8"
  have "start_byte body \<le> end_byte body" using is_boundary_le [OF assms(4)] assms(5) by simp
  from body_sections_chain [OF assms(2,4,5) this]
  have c: "chain src (start_byte body) (end_byte body) (body_sections body hs)" "body_sections body hs \<noteq> []"
    "start_byte body < end_byte body \<longrightarrow> list_all strict_section (body_sections body hs)" by blast+
  show ?thesis
  proof (cases "budget_retain pr (cs_used st0) ?bytes")
    case (Inl e)
    then show ?thesis by (simp add: prepare_sections_def Let_def)
  next
    case (Inr used)
    obtain r where "prepare_each pr src title blks (body_sections body hs) (st0\<lparr>cs_used := used\<rparr>) = Some r"
      "\<forall>st'. r = Inr st' \<longrightarrow> extends pr title src (start_byte body) (end_byte body) (st0\<lparr>cs_used := used\<rparr>) st'"
      using prepare_each_tiles [OF assms(1,3) c] by blast
    with Inr show ?thesis by (cases r) (auto simp: prepare_sections_def Let_def)
  qed
qed

section \<open>Preparing a note\<close>

lemma tiles_concat:
  "tiles a b cs \<Longrightarrow> concat (map (\<lambda>c. slice src (start_byte (ck_range c)) (end_byte (ck_range c))) cs) = slice src a b"
proof (induction cs arbitrary: a)
  case (Cons c cs)
  then have t: "a \<le> end_byte (ck_range c)" "tiles (end_byte (ck_range c)) b cs" by simp_all
  show ?case using Cons.IH [OF t(2)] Cons.prems slice_append [OF t(1) tiles_le [OF t(2)], of src] by simp
qed (simp add: slice_def)

lemma frontmatter_end_boundary:
  assumes u: "utf8 src" and e: "extract_raw_frontmatter src = Some (y, off)"
  shows "is_boundary src off"
proof -
  from e obtain a where a: "opener_len src = Some a" "fm_scan src a 0 = Some (y, off)"
    by (auto simp: extract_raw_frontmatter_def split: option.splits)
  obtain opn r where o: "src = opn @ r" "length opn = a"
    using a(1) by (rule opener_len_Some)
  then have "a + 0 \<le> length src" by simp
  from fm_scan_sound [OF a(2) this] obtain ls f nl rest where
    d: "drop a src = unlines ls @ f @ nl @ rest" and c: "closes f nl rest" and off: "off = length src - length rest"
    by auto
  have src: "src = (opn @ unlines ls @ f @ nl) @ rest" using o d by auto
  then have off': "off = length (opn @ unlines ls @ f @ nl)" using off by (metis length_append add_diff_cancel_right')
  show ?thesis
  proof (cases rest)
    case Nil
    then show ?thesis using off by simp
  next
    case (Cons x xs)
    then have nl: "nl = [LF]" using c by (auto simp: closes_def)
    have "utf8 ((opn @ unlines ls @ f) @ LF # rest)" using u unfolding src nl by simp
    from utf8_split_ascii [OF this] Cons have "utf8 (x # xs)" by (simp add: byte_def)
    from utf8_Cons(1) [OF this] show ?thesis
      using src off' Cons by (metis is_boundary_def length_append length_greater_0_conv less_add_same_cancel1 list.distinct(1) nth_append_length)
  qed
qed

lemma tiles_covered:
  "tiles a b cs \<Longrightarrow> list_all (chunk_ok pr title src) cs \<Longrightarrow> b \<le> end_byte body \<Longrightarrow>
   (start_byte body \<noteq> end_byte body \<longrightarrow> list_all nonempty_chunk cs) \<Longrightarrow> coverage_loop src body a cs = Inr b"
proof (induction cs arbitrary: a)
  case (Cons c cs)
  then have "end_byte (ck_range c) \<le> b" using tiles_le [of "end_byte (ck_range c)" b cs] by simp
  with Cons show ?case
    by (auto simp: Let_def chunk_ok_def nonempty_chunk_def)
qed simp

lemma extends_covered:
  assumes "extends pr title src (start_byte body) (end_byte body) st st'" and "cs_chunks st = []"
  shows "validate_coverage src body (cs_chunks st') = Inr ()"
proof -
  obtain "tiles (start_byte body) (end_byte body) (cs_chunks st')" "list_all (chunk_ok pr title src) (cs_chunks st')"
    "start_byte body < end_byte body \<longrightarrow> list_all nonempty_chunk (cs_chunks st')" "cs_chunks st' \<noteq> []"
    using assms unfolding extends_def by auto
  moreover from calculation(1) have "start_byte body \<le> end_byte body" by (rule tiles_le)
  ultimately have "coverage_loop src body (start_byte body) (cs_chunks st') = Inr (end_byte body)"
    by (intro tiles_covered) auto
  with \<open>cs_chunks st' \<noteq> []\<close> show ?thesis by (simp add: validate_coverage_def)
qed

definition note_ok :: "Preparation \<Rightarrow> str \<Rightarrow> PreparedNote \<Rightarrow> bool" where
  "note_ok pr src n \<longleftrightarrow>
     (let a = start_byte (pn_body n) in
      tiles a (length src) (pn_chunks n) \<and> list_all (chunk_ok pr (pn_title n) src) (pn_chunks n)
      \<and> (a < length src \<longrightarrow> list_all nonempty_chunk (pn_chunks n))
      \<and> pn_chunks n \<noteq> [] \<and> length (pn_chunks n) \<le> MAX_CHUNKS_PER_NOTE)"

lemma finish_note_ok:
  assumes "extends pr title src (start_byte body) (length src) st st'" and "cs_chunks st = []"
    and "finish_note pr src title tags body st' = Inr n"
  shows "note_ok pr src n"
  using assms by (auto simp: finish_note_def result_simps note_ok_def extends_def Let_def)

lemma prepare_whole_ok:
  assumes "prepare_whole pr src title tags body full used = Inr n"
    and "is_boundary src (start_byte body)" and "end_byte body = length src"
    and "full = chunk_text (title @ [LF]) src None (start_byte body) (end_byte body)"
    and "pr_count pr full = Inr k" and "k \<le> pr_max_tokens pr"
  shows "note_ok pr src n"
proof -
  let ?c = "\<lparr> ck_text = full, ck_hash = pr_digest pr full, ck_scope = NoteScope, ck_range = body,
        ck_overlap = None, ck_headings = [], ck_section = None, ck_kind = None \<rparr>"
  let ?st = "\<lparr> cs_chunks = [], cs_capacity = 0, cs_used = used \<rparr>"
  obtain st' where st: "append_chunk pr ?c ?st = Inr st'" "finish_note pr src title tags body st' = Inr n"
    using assms(1) by (auto simp: prepare_whole_def result_simps)
  have "chunk_ok pr title src ?c"
    using assms(2-6) by (simp add: chunk_ok_def section_prefix_def overlap_ok_def)
  with assms(2,3) is_boundary_le [OF assms(2)] append_chunk_chunks [OF st(1)]
  have "extends pr title src (start_byte body) (length src) ?st st'"
    unfolding extends_def by (intro exI [of _ "[?c]"]) (auto simp: nonempty_chunk_def)
  from finish_note_ok [OF this _ st(2)] show ?thesis by simp
qed

lemma prepare_split_ok:
  assumes u: "utf8 src" and p: "placed_stream src 0 (events True src)"
    and b: "is_boundary src (start_byte body)" "end_byte body = length src"
  shows "\<exists>r. prepare_split events pr src title tags body used = Some r \<and> (\<forall>n. r = Inr n \<longrightarrow> note_ok pr src n)"
proof (cases "try_bind (budget_retain pr used (semantic_structure_allocation_bound (sz_heading (pr_sizes pr))
                       (sz_block (pr_sizes pr)) events src)) (\<lambda>u5.
           try_bind (markdown_structure events src) (\<lambda>structure. Inr (u5, structure)))")
  case (Inl e)
  then show ?thesis by (simp add: prepare_split_def)
next
  case (Inr q)
  obtain u5 hs blks where q: "q = (u5, hs, blks)" by (cases q)
  with Inr have "markdown_structure events src = Inr (hs, blks)" by (auto simp: result_simps)
  note s = markdown_structure_placed [where events = events, OF p this]
  let ?st = "\<lparr> cs_chunks = [], cs_capacity = 0, cs_used = u5 \<rparr>"
  obtain r where r: "prepare_sections pr src title body hs blks ?st = Some r"
    "\<forall>st'. r = Inr st' \<longrightarrow> extends pr title src (start_byte body) (end_byte body) ?st st'"
    using prepare_sections_tiles [OF u s b] by blast
  have "note_ok pr src n" if "try_bind r (finish_note pr src title tags body) = Inr n" for n
    using that r(2) b(2) by (auto simp: result_simps intro: finish_note_ok)
  with r(1) Inr q show ?thesis by (simp add: prepare_split_def)
qed

lemma prepare_budgeted_ok:
  assumes u: "utf8 src" and p: "placed_stream src 0 (events True src)"
  shows "\<exists>r. prepare_budgeted events source_tags pr stem path src = Some r \<and> (\<forall>n. r = Inr n \<longrightarrow> note_ok pr src n)"
proof -
  define body where "body = \<lparr> start_byte = (case extract_raw_frontmatter src of Some (_, off) \<Rightarrow> off | None \<Rightarrow> 0),
    end_byte = length src \<rparr>"
  have b: "is_boundary src (start_byte body)" "end_byte body = length src"
    using frontmatter_end_boundary [OF u] by (auto simp: body_def split: option.splits)
  note unf = prepare_budgeted_def [of events source_tags pr stem path src, unfolded Let_def, folded body_def]
  show ?thesis
  proof (cases "prepare_entire source_tags pr stem path src body")
    case (Inl e)
    then show ?thesis unfolding unf by simp
  next
    case (Inr q)
    obtain title tags u3 u4 full n where q: "q = (title, tags, u3, u4, full, n)" by (metis prod_cases6)
    from Inr q have f: "full = chunk_text (title @ [LF]) src None (start_byte body) (end_byte body)"
      "pr_count pr full = Inr n"
      by (auto simp: prepare_entire_def result_simps dest: compose_text)
    show ?thesis
      using prepare_whole_ok [OF _ b f, of tags u4] prepare_split_ok [where events = events, OF u p b]
      unfolding unf Inr q by simp
  qed
qed

section \<open>Properties\<close>

text \<open> Property C5. Preparing a note always returns, whatever the tokenizer answers and however the
  standard library sizes its buffers; and the chunks of a prepared note tile its body: each starts
  where the one before ends, on a character boundary, and together they spell the body. There are
  between 1 and 4096 of them, none is empty unless the body is, and each shows its headings, its
  overlap, which is the text just before it, and its source range, in at most the model's tokens.\<close>

theorem prepare_budgeted_covers:
  assumes "utf8 src" and "placed_stream src 0 (events True src)"
  shows "\<exists>r. prepare_budgeted events source_tags pr stem path src = Some r
    \<and> (\<forall>n. r = Inr n \<longrightarrow>
         (let a = start_byte (pn_body n); chunks = pn_chunks n in
          tiles a (length src) chunks
          \<and> concat (map (\<lambda>c. slice src (start_byte (ck_range c)) (end_byte (ck_range c))) chunks) = drop a src
          \<and> (a < length src \<longrightarrow> list_all nonempty_chunk chunks)
          \<and> list_all (chunk_ok pr (pn_title n) src) chunks
          \<and> 0 < length chunks \<and> length chunks \<le> 4096))"
proof -
  obtain r where r: "prepare_budgeted events source_tags pr stem path src = Some r"
    "\<forall>n. r = Inr n \<longrightarrow> note_ok pr src n"
    using prepare_budgeted_ok [where events = events, OF assms] by blast
  have "concat (map (\<lambda>c. slice src (start_byte (ck_range c)) (end_byte (ck_range c))) (pn_chunks n))
      = drop (start_byte (pn_body n)) src" if "note_ok pr src n" for n
  proof -
    have "tiles (start_byte (pn_body n)) (length src) (pn_chunks n)" using that by (simp add: note_ok_def Let_def)
    from tiles_concat [OF this, of src] show ?thesis by (simp add: slice_def)
  qed
  with r show ?thesis by (auto simp: note_ok_def Let_def MAX_CHUNKS_PER_NOTE_def)
qed

definition two_sections :: str where
  "two_sections = ''# A'' @ [LF] @ ''One two. Three.'' @ [LF] @ ''# B'' @ [LF] @ ''x'' @ [LF]"

definition two_section_events :: md_parser where
  "two_section_events _ _ =
     [(Start (Heading 1), 0, 4), (MdText ''A'', 2, 3), (End (Heading 1), 0, 4),
      (Start Paragraph, 4, 20), (MdText ''One two. Three.'', 4, 19), (End Paragraph, 4, 20),
      (Start (Heading 1), 20, 24), (MdText ''B'', 22, 23), (End (Heading 1), 20, 24),
      (Start Paragraph, 24, 26), (MdText ''x'', 24, 25), (End Paragraph, 24, 26)]"

text \<open>A model that counts bytes and takes sixteen.\<close>

definition byte_model :: Preparation where
  "byte_model =
     \<lparr> pr_max_tokens = 16, pr_count = (\<lambda>t. Inr (length t)), pr_dimension = 1, pr_limit = 1000000,
       pr_sizes = \<lparr> sz_note = 1, sz_chunk = 1, sz_string = 1, sz_vector = 1, sz_embedding = 1, sz_heading = 1, sz_block = 1 \<rparr>,
       pr_cap = (\<lambda>n. n), pr_vec = (\<lambda>n. n), pr_grow = (\<lambda>n. 2 * n + 4), pr_digest = (\<lambda>_. []) \<rparr>"

definition two_section_note :: "PreparedNote vault_result option" where
  "two_section_note = prepare_budgeted two_section_events (\<lambda>u. Inr ([], u)) byte_model (Some ''n'') ''n.md'' two_sections"

theorem prepare_budgeted_covers_witness:
  "case two_section_note of
     Some (Inr n) \<Rightarrow> length (pn_chunks n) = 6
       \<and> concat (map (\<lambda>c. slice two_sections (start_byte (ck_range c)) (end_byte (ck_range c))) (pn_chunks n)) = two_sections
       \<and> map ck_headings (pn_chunks n) = [[''A''], [''A''], [''A''], [''A''], [''A''], [''B'']]
   | _ \<Rightarrow> False"
proof -
  have h: "utf8 two_sections" "placed_stream two_sections 0 (two_section_events True two_sections)"
    by code_simp+
  have e: "(case two_section_note of
      Some (Inr n) \<Rightarrow> start_byte (pn_body n) = 0 \<and> length (pn_chunks n) = 6
        \<and> map ck_headings (pn_chunks n) = [[''A''], [''A''], [''A''], [''A''], [''A''], [''B'']]
    | _ \<Rightarrow> False)"
    by code_simp
  then obtain n where n: "two_section_note = Some (Inr n)" "start_byte (pn_body n) = 0" "length (pn_chunks n) = 6"
    "map ck_headings (pn_chunks n) = [[''A''], [''A''], [''A''], [''A''], [''A''], [''B'']]"
    by (auto split: option.splits sum.splits)
  from prepare_budgeted_covers [where events = two_section_events, OF h, of "\<lambda>u. Inr ([], u)" byte_model "Some ''n''" "''n.md''",
      folded two_section_note_def, unfolded n(1)]
  have "concat (map (\<lambda>c. slice two_sections (start_byte (ck_range c)) (end_byte (ck_range c))) (pn_chunks n)) = two_sections"
    by (auto simp: Let_def n(2))
  then show ?thesis unfolding n(1) option.case sum.case using n(3,4) by (intro conjI)
qed

text \<open>The coverage check that closes preparation never rejects a note split into sections: for
  a text whose Markdown events are in place, every result of preparing the sections passes it.\<close>

lemma split_coverage_never_fails:
  assumes "utf8 src" and "placed_stream src 0 (events True src)" and "markdown_structure events src = Inr (hs, blks)"
    and "is_boundary src a" and "body = \<lparr> start_byte = a, end_byte = length src \<rparr>"
    and "prepare_sections pr src title body hs blks \<lparr> cs_chunks = [], cs_capacity = c, cs_used = used \<rparr> = Some (Inr st)"
  shows "validate_coverage src body (cs_chunks st) = Inr ()"
proof -
  have b: "is_boundary src (start_byte body)" "end_byte body = length src" using assms(4,5) by simp_all
  note p = markdown_structure_placed [where events = events, OF assms(2,3)]
  from prepare_sections_tiles [OF assms(1) p b] assms(6)
  have "extends pr title src (start_byte body) (end_byte body) \<lparr> cs_chunks = [], cs_capacity = c, cs_used = used \<rparr> st"
    by (metis option.inject)
  then show ?thesis by (rule extends_covered) simp
qed

definition two_sections_state :: "ChunkState vault_result option" where
  "two_sections_state =
     prepare_sections byte_model two_sections ''n'' \<lparr> start_byte = 0, end_byte = length two_sections \<rparr>
       (fst (projr (markdown_structure two_section_events two_sections)))
       (snd (projr (markdown_structure two_section_events two_sections)))
       \<lparr> cs_chunks = [], cs_capacity = 0, cs_used = 0 \<rparr>"

lemma split_coverage_never_fails_example:
  "case two_sections_state of
     Some (Inr st) \<Rightarrow> length (cs_chunks st) = 6
       \<and> validate_coverage two_sections \<lparr> start_byte = 0, end_byte = length two_sections \<rparr> (cs_chunks st) = Inr ()
   | _ \<Rightarrow> False"
proof -
  have h: "utf8 two_sections" "placed_stream two_sections 0 (two_section_events True two_sections)"
    by code_simp+
  have m: "is_ok (markdown_structure two_section_events two_sections)" by code_simp
  then have m: "markdown_structure two_section_events two_sections =
      Inr (fst (projr (markdown_structure two_section_events two_sections)),
           snd (projr (markdown_structure two_section_events two_sections)))"
    by (cases "markdown_structure two_section_events two_sections") auto
  have e: "(case two_sections_state of Some (Inr st) \<Rightarrow> length (cs_chunks st) = 6 | _ \<Rightarrow> False)" by code_simp
  then obtain st where st: "two_sections_state = Some (Inr st)" "length (cs_chunks st) = 6"
    by (auto split: option.splits sum.splits)
  from split_coverage_never_fails [where events = two_section_events,
      OF h m is_boundary_0 refl st(1) [unfolded two_sections_state_def]] st(2)
  show ?thesis unfolding st(1) option.case sum.case by (intro conjI)
qed

end
