(* ===== verification/Cache.thy ===== *)
theory Cache
  imports Chunks Paths "HOL-Library.Word" "HOL-Library.AList"
begin

text \<open>
  The embedding store and its cache file (src/src/vault/embeddings.rs): one validated entry per note,
  the accounting of chunks and encoded bytes, and the binary codec.

  The hash map is an association list with distinct keys, an \<^verbatim>\<open>f32\<close> its 32 bits. The JSON form of a
  vector-space identity and the text of a UTF-8 error are third-party code, the record \<open>codec\<close>; a
  failed allocation is not modelled. Keys are the bytes of an \<^verbatim>\<open>OsString\<close>, ordered as bytes.
\<close>

definition CACHE_MAGIC :: str where "CACHE_MAGIC = ''OBSMCPEM''"
definition CACHE_SCHEMA_VERSION :: nat where "CACHE_SCHEMA_VERSION = 2"
definition EMBEDDING_INPUT_VERSION :: nat where "EMBEDDING_INPUT_VERSION = 2"
definition CHUNKING_VERSION :: nat where "CHUNKING_VERSION = 1"
definition MAX_CACHE_BYTES :: nat where "MAX_CACHE_BYTES = 1024 * 1024 * 1024"
definition MAX_CACHE_ENTRIES :: nat where "MAX_CACHE_ENTRIES = 1000000"
definition MAX_CACHE_PATH_BYTES :: nat where "MAX_CACHE_PATH_BYTES = 16 * 1024"
definition MAX_CACHE_DIMENSION :: nat where "MAX_CACHE_DIMENSION = 65536"

datatype EmbeddingBackendKind = Local | Api

record EmbeddingSpaceIdentity =
  si_backend :: EmbeddingBackendKind
  si_model :: str
  si_endpoint :: "str option"
  si_dimension :: nat
  si_input_version :: nat
  si_tokenizer :: str
  si_max_input_tokens :: nat
  si_chunking_version :: nat

type_synonym f32 = "32 word"

definition is_finite :: "f32 \<Rightarrow> bool" where
  "is_finite v \<longleftrightarrow> unat v div 2 ^ 23 mod 256 \<noteq> 255"

record ChunkEmbedding =
  ce_hash :: str
  ce_vector :: "f32 list"
  ce_scope :: EvidenceScope
  ce_range :: SourceRange
  ce_overlap :: "SourceRange option"
  ce_headings :: "str list"
  ce_section :: "SourceRange option"
  ce_kind :: "str option"

record NoteEmbeddingEntry =
  ne_revision :: str
  ne_source_bytes :: nat
  ne_body :: SourceRange
  ne_title :: str
  ne_tags :: "str list"
  ne_chunks :: "ChunkEmbedding list"

record EmbeddingStore =
  es_embeddings :: "(str \<times> NoteEmbeddingEntry) list"
  es_dim :: nat
  es_identity :: "EmbeddingSpaceIdentity option"
  es_first_pass_complete :: bool
  es_encoded_entries_bytes :: nat
  es_total_chunks :: nat

record codec =
  cd_identity_json :: "EmbeddingSpaceIdentity \<Rightarrow> str + str"
  cd_identity_parse :: "str \<Rightarrow> str + EmbeddingSpaceIdentity"
  cd_utf8_error :: "str \<Rightarrow> str"

definition cache_error :: "str \<Rightarrow> vault_error" where
  "cache_error m = Embedding m"

text \<open>\<^verbatim>\<open>usize::fmt\<close>.\<close>

fun show_nat :: "nat \<Rightarrow> str" where
  "show_nat n = (if n < 10 then [char_of (48 + n)] else show_nat (n div 10) @ [char_of (48 + n mod 10)])"

declare show_nat.simps [simp del]

section \<open>Validation\<close>

definition validate_source_range :: "SourceRange \<Rightarrow> nat \<Rightarrow> unit vault_result" where
  "validate_source_range r source_bytes =
     (if end_byte r < start_byte r \<or> source_bytes < end_byte r
      then Inl (cache_error ''embedding cache contains an invalid source range'') else Inr ())"

definition validate_vector :: "f32 list \<Rightarrow> nat \<Rightarrow> unit vault_result" where
  "validate_vector vector expected_dim =
     (if length vector \<noteq> expected_dim
      then Inl (Embedding (''embedding dimension mismatch: expected '' @ show_nat expected_dim @ '', got '' @ show_nat (length vector)))
      else if list_ex (\<lambda>v. \<not> is_finite v) vector
      then Inl (Embedding ''embedding vector contains a non-finite value'') else Inr ())"

text \<open>The body of the loop of \<^verbatim>\<open>validate_note_entry\<close>, with \<open>next_byte\<close> the end of the last chunk.\<close>

definition validate_chunk :: "NoteEmbeddingEntry \<Rightarrow> nat \<Rightarrow> nat \<Rightarrow> ChunkEmbedding \<Rightarrow> unit vault_result" where
  "validate_chunk entry d next_byte c =
     (let r = ce_range c; body = ne_body entry;
          context_bytes = context_prefix_bytes (ne_title entry) (sum_list (map length (ce_headings c))) (length (ce_headings c))
      in try_bind (validate_vector (ce_vector c) d) (\<lambda>_.
         try_bind (validate_source_range r (ne_source_bytes entry)) (\<lambda>_.
         if start_byte r \<noteq> next_byte \<or> end_byte r < start_byte r
            \<or> (start_byte r = end_byte r \<and> start_byte body \<noteq> end_byte body)
         then Inl (cache_error ''embedding chunk ranges do not cover the complete body exactly'')
         else try_bind (case ce_overlap c of
             None \<Rightarrow> Inr ()
           | Some ov \<Rightarrow> try_bind (validate_source_range ov (ne_source_bytes entry)) (\<lambda>_.
               if start_byte ov < start_byte body \<or> start_byte r < end_byte ov
               then Inl (cache_error ''embedding overlap is outside its preceding source'') else Inr ())) (\<lambda>_.
         try_bind (case ce_section c of
             None \<Rightarrow> Inr ()
           | Some s \<Rightarrow> try_bind (validate_source_range s (ne_source_bytes entry)) (\<lambda>_.
               if start_byte r < start_byte s \<or> end_byte s < end_byte r
               then Inl (cache_error ''embedding chunk is outside its section'') else Inr ())) (\<lambda>_.
         if 6 < length (ce_headings c) \<or> MAX_CONTEXT_BYTES < context_bytes
         then Inl (cache_error ''embedding chunk context exceeds supported limit'')
         else if (case ce_kind c of None \<Rightarrow> False | Some k \<Rightarrow> MAX_CONTEXT_BYTES < length k)
         then Inl (cache_error ''embedding block metadata exceeds supported limit'')
         else if ce_scope c = NoteScope
            \<and> (length (ne_chunks entry) \<noteq> 1 \<or> r \<noteq> body \<or> ce_headings c \<noteq> [] \<or> ce_section c \<noteq> None)
         then Inl (cache_error ''whole-note embedding has invalid evidence metadata'')
         else Inr ())))))"

fun validate_chunks :: "NoteEmbeddingEntry \<Rightarrow> nat \<Rightarrow> nat \<Rightarrow> ChunkEmbedding list \<Rightarrow> nat vault_result" where
  "validate_chunks entry d next_byte [] = Inr next_byte"
| "validate_chunks entry d next_byte (c # cs) =
     try_bind (validate_chunk entry d next_byte c) (\<lambda>_. validate_chunks entry d (end_byte (ce_range c)) cs)"

definition is_lower_hex :: "char \<Rightarrow> bool" where
  "is_lower_hex c \<longleftrightarrow> (48 \<le> byte c \<and> byte c \<le> 57) \<or> (97 \<le> byte c \<and> byte c \<le> 102)"

definition validate_note_entry :: "NoteEmbeddingEntry \<Rightarrow> nat \<Rightarrow> unit vault_result" where
  "validate_note_entry entry d =
     (let body = ne_body entry in
      if length (ne_revision entry) \<noteq> 64 \<or> \<not> list_all is_lower_hex (ne_revision entry)
      then Inl (cache_error ''embedding cache entry has an invalid source revision or prepared-text hash'')
      else if MAX_SOURCE_BYTES < ne_source_bytes entry
      then Inl (cache_error ''embedding source exceeds supported byte limit'')
      else try_bind (validate_source_range body (ne_source_bytes entry)) (\<lambda>_.
        if end_byte body \<noteq> ne_source_bytes entry
        then Inl (cache_error ''embedding body range must end at source EOF'')
        else try_bind (validate_note_metadata (ne_title entry) (ne_tags entry)) (\<lambda>_.
        if ne_chunks entry = [] \<or> MAX_CHUNKS_PER_NOTE < length (ne_chunks entry)
        then Inl (cache_error ''embedding note has an invalid chunk count'')
        else if start_byte body = end_byte body
           \<and> (length (ne_chunks entry) \<noteq> 1 \<or> ce_scope (hd (ne_chunks entry)) \<noteq> NoteScope)
        then Inl (cache_error ''an empty note body requires one whole-note embedding'')
        else try_bind (validate_chunks entry d (start_byte body) (ne_chunks entry)) (\<lambda>next_byte.
          if next_byte \<noteq> end_byte body then Inl (cache_error ''embedding chunks omit body content'') else Inr ()))))"

definition validate_space_identity :: "EmbeddingSpaceIdentity \<Rightarrow> unit vault_result" where
  "validate_space_identity i =
     (if si_dimension i = 0 \<or> MAX_CACHE_DIMENSION < si_dimension i
      then Inl (Embedding (''embedding dimension is outside supported bounds (1..='' @ show_nat MAX_CACHE_DIMENSION @ '')''))
      else if trim (si_model i) = [] \<or> MAX_CACHE_PATH_BYTES < length (si_model i)
      then Inl (Embedding ''embedding cache model identity must not be empty'')
      else if si_input_version i \<noteq> EMBEDDING_INPUT_VERSION
      then Inl (EmbeddingCacheIncompatible (''unsupported embedding input version '' @ show_nat (si_input_version i)))
      else if si_max_input_tokens i = 0
      then Inl (cache_error ''embedding input capacity must be positive'')
      else if si_chunking_version i \<noteq> CHUNKING_VERSION
      then Inl (EmbeddingCacheIncompatible (''unsupported embedding chunking version '' @ show_nat (si_chunking_version i)))
      else case (si_backend i, si_endpoint i) of
          (Local, None) \<Rightarrow> Inr () | (Api, Some _) \<Rightarrow> Inr ()
        | (Local, Some _) \<Rightarrow> Inl (Embedding ''local embedding cache identity must not contain an API endpoint fingerprint'')
        | (Api, None) \<Rightarrow> Inl (Embedding ''API embedding cache identity is missing its endpoint fingerprint''))"

definition quoted :: "str \<Rightarrow> str" where
  "quoted s = [CHR 0x27] @ s @ [CHR 0x27]"

text \<open>The display of the two errors \<open>VaultPath_parse\<close> gives.\<close>

fun path_error_text :: "vault_error \<Rightarrow> str" where
  "path_error_text (InvalidPath m) = ''Invalid path: '' @ m"
| "path_error_text (OutsideVault p) = ''Invalid vault path: '' @ p @ '' is outside vault root''"
| "path_error_text _ = []"

definition validate_cache_path :: "str \<Rightarrow> str vault_result" where
  "validate_cache_path path =
     (if path = [] \<or> MAX_CACHE_PATH_BYTES < length path \<or> backslash \<in> set path
      then Inl (Embedding (''invalid embedding cache path '' @ quoted path))
      else try_bind (map_err (\<lambda>e. Embedding (''invalid embedding cache path '' @ quoted path @ '': '' @ path_error_text e)) (VaultPath_parse path)) (\<lambda>normal.
        if normal \<noteq> path then Inl (Embedding (''embedding cache path is not normalized: '' @ quoted path)) else Inr normal))"

section \<open>Writing\<close>

record CacheWriter =
  cw_bytes :: str
  cw_counting :: bool
  cw_length :: nat

definition empty_writer :: "bool \<Rightarrow> CacheWriter" where
  "empty_writer counting = \<lparr> cw_bytes = [], cw_counting = counting, cw_length = 0 \<rparr>"

definition le_bytes :: "nat \<Rightarrow> nat \<Rightarrow> str" where
  "le_bytes n v = map (\<lambda>i. char_of (v div 256 ^ i mod 256)) [0..<n]"

fun of_le_bytes :: "str \<Rightarrow> nat" where
  "of_le_bytes [] = 0"
| "of_le_bytes (c # cs) = byte c + 256 * of_le_bytes cs"

definition flag_byte :: "bool \<Rightarrow> str" where
  "flag_byte b = [if b then CHR 0x01 else CHR 0x00]"

definition put :: "str \<Rightarrow> CacheWriter \<Rightarrow> CacheWriter vault_result" where
  "put bs w =
     try_bind (ok_or (cache_error ''embedding cache size overflow'') (checked_add (cw_length w) (length bs))) (\<lambda>needed.
       if MAX_CACHE_BYTES < needed then Inl (cache_error ''embedding cache is too large to persist'')
       else Inr (w \<lparr> cw_bytes := (if cw_counting w then cw_bytes w else cw_bytes w @ bs), cw_length := needed \<rparr>))"

definition put_number :: "nat \<Rightarrow> CacheWriter \<Rightarrow> CacheWriter vault_result" where
  "put_number v w =
     (if 2 ^ 32 \<le> v then Inl (cache_error ''cache length exceeds supported integer range'') else put (le_bytes 4 v) w)"

definition put_string :: "str \<Rightarrow> CacheWriter \<Rightarrow> CacheWriter vault_result" where
  "put_string s w = try_bind (put_number (length s) w) (put s)"

definition put_range :: "SourceRange \<Rightarrow> CacheWriter \<Rightarrow> CacheWriter vault_result" where
  "put_range r w = try_bind (put_number (start_byte r) w) (put_number (end_byte r))"

definition put_optional_range :: "SourceRange option \<Rightarrow> CacheWriter \<Rightarrow> CacheWriter vault_result" where
  "put_optional_range r w =
     try_bind (put (flag_byte (r \<noteq> None)) w) (\<lambda>w. case r of None \<Rightarrow> Inr w | Some x \<Rightarrow> put_range x w)"

fun put_all :: "('a \<Rightarrow> CacheWriter \<Rightarrow> CacheWriter vault_result) \<Rightarrow> 'a list \<Rightarrow> CacheWriter \<Rightarrow> CacheWriter vault_result" where
  "put_all f [] w = Inr w"
| "put_all f (x # xs) w = try_bind (f x w) (put_all f xs)"

definition write_header ::
  "codec \<Rightarrow> str \<Rightarrow> nat \<Rightarrow> EmbeddingSpaceIdentity \<Rightarrow> bool \<Rightarrow> nat \<Rightarrow> CacheWriter \<Rightarrow> CacheWriter vault_result" where
  "write_header cd magic schema i complete cnt w =
     try_bind (put magic w) (\<lambda>w.
     try_bind (put (le_bytes 2 schema) w) (\<lambda>w.
     try_bind (map_err (\<lambda>e. cache_error (''cache identity serialization failed: '' @ e)) (cd_identity_json cd i)) (\<lambda>json.
     if MAX_NOTE_METADATA_BYTES < length json
     then Inl (cache_error ''embedding identity exceeds supported metadata limit'')
     else try_bind (put_number (length json) w) (\<lambda>w.
     try_bind (put json w) (\<lambda>w.
     try_bind (put (flag_byte complete) w) (put_number cnt))))))"

definition write_chunk :: "ChunkEmbedding \<Rightarrow> CacheWriter \<Rightarrow> CacheWriter vault_result" where
  "write_chunk c w =
     try_bind (put (ce_hash c) w) (\<lambda>w.
     try_bind (put (flag_byte (ce_scope c = Passage)) w) (\<lambda>w.
     try_bind (put_range (ce_range c) w) (\<lambda>w.
     try_bind (put_optional_range (ce_overlap c) w) (\<lambda>w.
     try_bind (put_number (length (ce_headings c)) w) (\<lambda>w.
     try_bind (put_all put_string (ce_headings c) w) (\<lambda>w.
     try_bind (put_optional_range (ce_section c) w) (\<lambda>w.
     try_bind (put (flag_byte (ce_kind c \<noteq> None)) w) (\<lambda>w.
     try_bind (case ce_kind c of None \<Rightarrow> Inr w | Some k \<Rightarrow> put_string k w) (\<lambda>w.
     try_bind (put_number (length (ce_vector c)) w)
       (put_all (\<lambda>v. put (le_bytes 4 (unat v))) (ce_vector c)))))))))))"

definition write_entry :: "str \<Rightarrow> NoteEmbeddingEntry \<Rightarrow> CacheWriter \<Rightarrow> CacheWriter vault_result" where
  "write_entry path entry w =
     try_bind (put_string path w) (\<lambda>w.
     try_bind (put_string (ne_revision entry) w) (\<lambda>w.
     try_bind (put_number (ne_source_bytes entry) w) (\<lambda>w.
     try_bind (put_range (ne_body entry) w) (\<lambda>w.
     try_bind (put_string (ne_title entry) w) (\<lambda>w.
     try_bind (put_number (length (ne_tags entry)) w) (\<lambda>w.
     try_bind (put_all put_string (ne_tags entry) w) (\<lambda>w.
     try_bind (put_number (length (ne_chunks entry)) w) (put_all write_chunk (ne_chunks entry)))))))))"

definition encoded_entry_len :: "str \<Rightarrow> NoteEmbeddingEntry \<Rightarrow> nat vault_result" where
  "encoded_entry_len path entry = try_bind (write_entry path entry (empty_writer True)) (\<lambda>w. Inr (cw_length w))"

definition cache_header_len :: "codec \<Rightarrow> EmbeddingSpaceIdentity \<Rightarrow> nat vault_result" where
  "cache_header_len cd i =
     try_bind (write_header cd CACHE_MAGIC CACHE_SCHEMA_VERSION i False 0 (empty_writer True)) (\<lambda>w. Inr (cw_length w))"

section \<open>The store\<close>

definition EmbeddingStore_new :: "nat \<Rightarrow> EmbeddingStore" where
  "EmbeddingStore_new d =
     \<lparr> es_embeddings = [], es_dim = d, es_identity = None, es_first_pass_complete = False,
       es_encoded_entries_bytes = 0, es_total_chunks = 0 \<rparr>"

definition new_with_identity :: "EmbeddingSpaceIdentity \<Rightarrow> EmbeddingStore" where
  "new_with_identity i = (EmbeddingStore_new 0) \<lparr> es_dim := si_dimension i, es_identity := Some i \<rparr>"

definition insert_note :: "codec \<Rightarrow> str \<Rightarrow> NoteEmbeddingEntry \<Rightarrow> EmbeddingStore \<Rightarrow> EmbeddingStore vault_result" where
  "insert_note cd path entry st =
     try_bind (ok_or (cache_error ''cache path is not UTF-8'') (to_str path)) (\<lambda>path_text.
     try_bind (validate_cache_path path_text) (\<lambda>_.
     try_bind (validate_note_entry entry (es_dim st)) (\<lambda>_.
     try_bind (encoded_entry_len path_text entry) (\<lambda>entry_bytes.
     let old = map_of (es_embeddings st) path in
     try_bind (case old of None \<Rightarrow> Inr 0 | Some o' \<Rightarrow> encoded_entry_len path_text o') (\<lambda>old_bytes.
     let old_chunks = (case old of None \<Rightarrow> 0 | Some o' \<Rightarrow> length (ne_chunks o')) in
     try_bind (ok_or (cache_error ''embedding chunk count overflow'')
         (checked_add (es_total_chunks st - old_chunks) (length (ne_chunks entry)))) (\<lambda>chunks.
     try_bind (ok_or (cache_error ''embedding cache size overflow'')
         (checked_add (es_encoded_entries_bytes st - old_bytes) entry_bytes)) (\<lambda>entries_bytes.
     if MAX_CACHE_ENTRIES < chunks
        \<or> MAX_CACHE_ENTRIES < length (es_embeddings st) + (if old = None then 1 else 0)
     then Inl (cache_error ''embedding cache contains too many entries or chunks'')
     else try_bind (case es_identity st of None \<Rightarrow> Inr MAX_NOTE_METADATA_BYTES | Some i \<Rightarrow> cache_header_len cd i) (\<lambda>header_size.
     if MAX_CACHE_BYTES < sat_add entries_bytes header_size
     then Inl (cache_error ''embedding cache is too large to persist'')
     else Inr (st \<lparr> es_embeddings := AList.update path entry (es_embeddings st),
                   es_encoded_entries_bytes := entries_bytes, es_total_chunks := chunks \<rparr>)))))))))"

definition store_remove :: "str \<Rightarrow> EmbeddingStore \<Rightarrow> (bool \<times> EmbeddingStore) vault_result" where
  "store_remove path st =
     (case map_of (es_embeddings st) path of
        None \<Rightarrow> Inr (False, st)
      | Some old \<Rightarrow>
          try_bind (ok_or (cache_error ''cache path is not UTF-8'') (to_str path)) (\<lambda>path_text.
          try_bind (encoded_entry_len path_text old) (\<lambda>old_bytes.
          try_bind (ok_or (cache_error ''embedding chunk accounting underflow'')
              (checked_sub (es_total_chunks st) (length (ne_chunks old)))) (\<lambda>chunks.
          try_bind (ok_or (cache_error ''embedding cache size accounting underflow'')
              (checked_sub (es_encoded_entries_bytes st) old_bytes)) (\<lambda>entries_bytes.
          Inr (True, st \<lparr> es_embeddings := AList.delete path (es_embeddings st),
                        es_total_chunks := chunks, es_encoded_entries_bytes := entries_bytes \<rparr>))))))"

definition set_first_pass_complete :: "bool \<Rightarrow> EmbeddingStore \<Rightarrow> EmbeddingStore" where
  "set_first_pass_complete complete st = st \<lparr> es_first_pass_complete := complete \<rparr>"

text \<open>The removals happen one by one; an error keeps those done before it.\<close>

fun remove_paths :: "str list \<Rightarrow> EmbeddingStore \<Rightarrow> unit vault_result \<times> EmbeddingStore" where
  "remove_paths [] st = (Inr (), st)"
| "remove_paths (p # ps) st =
     (case store_remove p st of Inl e \<Rightarrow> (Inl e, st) | Inr (_, st') \<Rightarrow> remove_paths ps st')"

definition retain_paths :: "str set \<Rightarrow> EmbeddingStore \<Rightarrow> bool vault_result \<times> EmbeddingStore" where
  "retain_paths paths st =
     (let removed = filter (\<lambda>p. p \<notin> paths) (map fst (es_embeddings st));
          (r, st') = remove_paths removed st
      in (try_bind r (\<lambda>_. Inr (removed \<noteq> [])), st'))"

definition write_cache_entry :: "nat \<Rightarrow> str \<times> NoteEmbeddingEntry \<Rightarrow> CacheWriter \<Rightarrow> CacheWriter vault_result" where
  "write_cache_entry d p w =
     try_bind (ok_or (cache_error ''cache path is not UTF-8'') (to_str (fst p))) (\<lambda>path.
     try_bind (validate_cache_path path) (\<lambda>_.
     try_bind (validate_note_entry (snd p) d) (\<lambda>_. write_entry path (snd p) w)))"

definition encode_cache :: "codec \<Rightarrow> EmbeddingStore \<Rightarrow> str vault_result" where
  "encode_cache cd st =
     try_bind (ok_or (cache_error ''embedding store has no vector-space identity'') (es_identity st)) (\<lambda>i.
     try_bind (validate_space_identity i) (\<lambda>_.
     if si_dimension i \<noteq> es_dim st
     then Inl (cache_error ''embedding store identity has an invalid dimension'')
     else if MAX_CACHE_ENTRIES < length (es_embeddings st) \<or> MAX_CACHE_ENTRIES < es_total_chunks st
     then Inl (cache_error ''embedding cache contains too many entries or chunks'')
     else let entries = sort_key fst (es_embeddings st) in
       try_bind (write_header cd CACHE_MAGIC CACHE_SCHEMA_VERSION i (es_first_pass_complete st) (length entries)
                   (empty_writer False)) (\<lambda>w.
       try_bind (put_all (write_cache_entry (es_dim st)) entries w) (\<lambda>w. Inr (cw_bytes w)))))"

section \<open>Reading\<close>

text \<open>What is left to read, and how many bytes of the file the reader still accounts for.\<close>

record CacheReader =
  cr_input :: str
  cr_remaining :: nat

type_synonym 'a reader = "CacheReader \<Rightarrow> ('a \<times> CacheReader) vault_result"

definition read_bind :: "'a reader \<Rightarrow> ('a \<Rightarrow> 'b reader) \<Rightarrow> 'b reader" where
  "read_bind m f = (\<lambda>r. try_bind (m r) (\<lambda>(x, r). f x r))"

definition read_return :: "'a \<Rightarrow> 'a reader" where
  "read_return x = (\<lambda>r. Inr (x, r))"

definition read_fail :: "vault_error \<Rightarrow> 'a reader" where
  "read_fail e = (\<lambda>r. Inl e)"

text \<open>\<^verbatim>\<open>take\<close> and \<^verbatim>\<open>array\<close>: \<^verbatim>\<open>read_exact\<close> fails on an input that is too short.\<close>

definition read_take :: "nat \<Rightarrow> str reader" where
  "read_take n r =
     (if cr_remaining r < n then Inl (cache_error ''cache deserialize error: truncated field'')
      else if length (cr_input r) < n then Inl (cache_error ''cache deserialize error: failed to fill whole buffer'')
      else Inr (take n (cr_input r), r \<lparr> cr_input := drop n (cr_input r), cr_remaining := cr_remaining r - n \<rparr>))"

definition read_u16 :: "nat reader" where
  "read_u16 = read_bind (read_take 2) (\<lambda>bs. read_return (of_le_bytes bs))"

definition read_number :: "nat reader" where
  "read_number = read_bind (read_take 4) (\<lambda>bs. read_return (of_le_bytes bs))"

definition read_count :: "nat \<Rightarrow> str \<Rightarrow> nat reader" where
  "read_count maximum what =
     read_bind read_number (\<lambda>n.
       if maximum < n
       then read_fail (cache_error (''embedding cache contains too many '' @ what @ '': '' @ show_nat n
                         @ '' (limit '' @ show_nat maximum @ '')''))
       else read_return n)"

definition read_flag :: "bool reader" where
  "read_flag =
     read_bind (read_take 1) (\<lambda>bs.
       if bs = [CHR 0x00] then read_return False
       else if bs = [CHR 0x01] then read_return True
       else read_fail (cache_error ''cache deserialize error: invalid flag''))"

definition read_bytes :: "nat \<Rightarrow> str reader" where
  "read_bytes maximum = read_bind (read_count maximum ''field bytes'') read_take"

definition read_string :: "codec \<Rightarrow> nat \<Rightarrow> str reader" where
  "read_string cd maximum =
     read_bind (read_bytes maximum) (\<lambda>bs.
       if utf8 bs then read_return bs
       else read_fail (cache_error (''cache field is not UTF-8: '' @ cd_utf8_error cd bs)))"

definition read_range :: "SourceRange reader" where
  "read_range = read_bind read_number (\<lambda>a. read_bind read_number (\<lambda>b.
     read_return \<lparr> start_byte = a, end_byte = b \<rparr>))"

definition read_optional_range :: "SourceRange option reader" where
  "read_optional_range =
     read_bind read_flag (\<lambda>f. if f then read_bind read_range (\<lambda>r. read_return (Some r)) else read_return None)"

text \<open>
  The loops over tags and headings: each string may use what the limit leaves after \<open>used\<close> bytes.
\<close>

fun read_strings :: "codec \<Rightarrow> nat \<Rightarrow> nat \<Rightarrow> nat \<Rightarrow> str list reader" where
  "read_strings cd limit used 0 = read_return []"
| "read_strings cd limit used (Suc n) =
     read_bind (read_string cd (limit - used)) (\<lambda>s.
     read_bind (read_strings cd limit (used + length s) n) (\<lambda>ss. read_return (s # ss)))"

fun read_n :: "'a reader \<Rightarrow> nat \<Rightarrow> 'a list reader" where
  "read_n m 0 = read_return []"
| "read_n m (Suc n) = read_bind m (\<lambda>x. read_bind (read_n m n) (\<lambda>xs. read_return (x # xs)))"

definition read_f32 :: "f32 reader" where
  "read_f32 = read_bind (read_take 4) (\<lambda>bs. read_return (of_nat (of_le_bytes bs)))"

definition check_remaining :: "nat \<Rightarrow> unit reader" where
  "check_remaining n r =
     (if cr_remaining r < n then Inl (cache_error ''cache deserialize error: truncated vector'') else Inr ((), r))"

definition read_chunk :: "codec \<Rightarrow> nat \<Rightarrow> str \<Rightarrow> ChunkEmbedding reader" where
  "read_chunk cd d title =
     read_bind (read_take 32) (\<lambda>hash.
     read_bind read_flag (\<lambda>passage.
     read_bind read_range (\<lambda>range.
     read_bind read_optional_range (\<lambda>overlap.
     read_bind (read_count 6 ''ancestor headings'') (\<lambda>n.
     let context_bytes = context_prefix_bytes title 0 n in
     if MAX_CONTEXT_BYTES < context_bytes
     then read_fail (cache_error ''embedding chunk context exceeds supported limit'')
     else
     read_bind (read_strings cd MAX_CONTEXT_BYTES context_bytes n) (\<lambda>headings.
     read_bind read_optional_range (\<lambda>section.
     read_bind read_flag (\<lambda>has_kind.
     read_bind (if has_kind then read_bind (read_string cd MAX_CONTEXT_BYTES) (\<lambda>k. read_return (Some k))
                else read_return None) (\<lambda>kind.
     read_bind read_number (\<lambda>vector_length.
     if vector_length \<noteq> d
     then read_fail (cache_error (''embedding dimension mismatch: expected '' @ show_nat d @ '', got '' @ show_nat vector_length))
     else
     read_bind (check_remaining (sat_mul vector_length 4)) (\<lambda>_.
     read_bind (read_n read_f32 vector_length) (\<lambda>vector.
     read_return \<lparr> ce_hash = hash, ce_vector = vector, ce_scope = (if passage then Passage else NoteScope),
       ce_range = range, ce_overlap = overlap, ce_headings = headings, ce_section = section, ce_kind = kind \<rparr>))))))))))))"

definition read_entry :: "codec \<Rightarrow> nat \<Rightarrow> nat \<Rightarrow> NoteEmbeddingEntry reader" where
  "read_entry cd d stored_chunks =
     read_bind (read_string cd 64) (\<lambda>revision.
     read_bind (read_count MAX_SOURCE_BYTES ''source bytes'') (\<lambda>source_bytes.
     read_bind read_range (\<lambda>body.
     read_bind (read_string cd MAX_NOTE_METADATA_BYTES) (\<lambda>title.
     read_bind (read_count MAX_NOTE_TAGS ''tags'') (\<lambda>tag_count.
     read_bind (read_strings cd MAX_NOTE_METADATA_BYTES (length title) tag_count) (\<lambda>tags.
     read_bind (read_count (min MAX_CHUNKS_PER_NOTE (MAX_CACHE_ENTRIES - stored_chunks)) ''chunks'') (\<lambda>n.
     read_bind (read_n (read_chunk cd d title) n) (\<lambda>chunks.
     read_return \<lparr> ne_revision = revision, ne_source_bytes = source_bytes, ne_body = body, ne_title = title,
       ne_tags = tags, ne_chunks = chunks \<rparr>))))))))"

definition lift_result :: "'a vault_result \<Rightarrow> 'a reader" where
  "lift_result x r = try_bind x (\<lambda>x. Inr (x, r))"

fun read_entries :: "codec \<Rightarrow> nat \<Rightarrow> EmbeddingStore \<Rightarrow> EmbeddingStore reader" where
  "read_entries cd 0 st = read_return st"
| "read_entries cd (Suc n) st =
     read_bind (read_string cd MAX_CACHE_PATH_BYTES) (\<lambda>path_text.
     read_bind (lift_result (validate_cache_path path_text)) (\<lambda>path.
     if map_of (es_embeddings st) path \<noteq> None
     then read_fail (cache_error (''embedding cache contains duplicate path '' @ quoted path_text))
     else
     read_bind (read_entry cd (es_dim st) (es_total_chunks st)) (\<lambda>entry.
     read_bind (lift_result (insert_note cd path entry st)) (read_entries cd n))))"

definition decode_store :: "codec \<Rightarrow> EmbeddingSpaceIdentity option \<Rightarrow> nat \<Rightarrow> EmbeddingStore reader" where
  "decode_store cd expected max_entries =
     read_bind (read_take 8) (\<lambda>magic.
     if magic \<noteq> CACHE_MAGIC
     then read_fail (cache_error ''unsupported legacy embedding cache format or invalid magic'')
     else
     read_bind read_u16 (\<lambda>schema.
     if schema \<noteq> CACHE_SCHEMA_VERSION
     then read_fail (EmbeddingCacheIncompatible (''unsupported embedding cache schema version '' @ show_nat schema
            @ ''; rebuilding required''))
     else
     read_bind (read_bytes MAX_NOTE_METADATA_BYTES) (\<lambda>json.
     read_bind (lift_result (map_err (\<lambda>e. cache_error (''cache identity deserialize error: '' @ e)) (cd_identity_parse cd json))) (\<lambda>i.
     read_bind (lift_result (validate_space_identity i)) (\<lambda>_.
     if expected \<noteq> None \<and> expected \<noteq> Some i
     then read_fail (EmbeddingCacheIncompatible ''embedding cache vector-space identity mismatch'')
     else
     read_bind read_flag (\<lambda>complete.
     read_bind (read_count max_entries ''entries'') (\<lambda>n.
       read_entries cd n (set_first_pass_complete complete (new_with_identity i)))))))))"

text \<open>
  \<^verbatim>\<open>decode_file\<close> on a file whose metadata report \<open>file_size\<close> bytes and whose content is \<open>content\<close>
  by the time it is read.
\<close>

definition decode_file ::
  "codec \<Rightarrow> nat \<Rightarrow> str \<Rightarrow> EmbeddingSpaceIdentity option \<Rightarrow> nat \<Rightarrow> EmbeddingStore vault_result" where
  "decode_file cd file_size content expected max_entries =
     (if MAX_CACHE_BYTES < file_size then Inl (cache_error ''embedding cache is too large'')
      else try_bind (decode_store cd expected max_entries
             \<lparr> cr_input = take (MAX_CACHE_BYTES + 1) content, cr_remaining = file_size \<rparr>) (\<lambda>(st, r).
       if cr_remaining r \<noteq> 0 \<or> cr_input r \<noteq> []
       then Inl (cache_error ''embedding cache contains trailing bytes'') else Inr st))"

end
