(* ===== verification/CacheCodec.thy ===== *)
theory CacheCodec
  imports Cache
begin

text \<open>
  The binary codec of the embedding cache: what each writer appends, and that each reader takes back
  exactly what the matching writer appended.
\<close>

section \<open>Little-endian numbers\<close>

lemma length_le_bytes [simp]: "length (le_bytes n v) = n"
  by (simp add: le_bytes_def)

lemma byte_char_of [simp]: "byte (char_of n) = n mod 256"
  by (simp add: byte_def)

lemma le_bytes_Suc: "le_bytes (Suc n) v = char_of (v mod 256) # le_bytes n (v div 256)"
proof -
  have "[0..<Suc n] = 0 # map Suc [0..<n]" by (metis map_Suc_upt upt_conv_Cons zero_less_Suc)
  then show ?thesis by (simp add: le_bytes_def div_mult2_eq)
qed

lemma of_le_bytes_le_bytes: "v < 256 ^ n \<Longrightarrow> of_le_bytes (le_bytes n v) = v"
proof (induction n arbitrary: v)
  case (Suc n)
  then have "v div 256 < 256 ^ n" by (simp add: less_mult_imp_div_less mult.commute)
  with Suc show ?case by (simp add: le_bytes_Suc)
qed (simp add: le_bytes_def)

lemma of_le_bytes_4: "v < 2 ^ 32 \<Longrightarrow> of_le_bytes (le_bytes 4 v) = v"
  by (rule of_le_bytes_le_bytes) simp

section \<open>Writers\<close>

definition advance :: "str \<Rightarrow> CacheWriter \<Rightarrow> CacheWriter" where
  "advance bs w = w \<lparr> cw_bytes := (if cw_counting w then cw_bytes w else cw_bytes w @ bs),
                     cw_length := cw_length w + length bs \<rparr>"

lemma advance_advance [simp]: "advance cs (advance bs w) = advance (bs @ cs) w"
  by (simp add: advance_def)

lemma advance_length [simp]: "cw_length (advance bs w) = cw_length w + length bs"
  by (simp add: advance_def)

text \<open>\<open>writes f bs\<close>: \<open>f\<close> appends \<open>bs\<close>, and fails exactly when the limit is passed.\<close>

definition writes :: "(CacheWriter \<Rightarrow> CacheWriter vault_result) \<Rightarrow> str \<Rightarrow> bool" where
  "writes f bs \<longleftrightarrow>
     (\<forall>w w'. cw_length w \<le> MAX_CACHE_BYTES \<longrightarrow>
        (f w = Inr w' \<longleftrightarrow> cw_length w + length bs \<le> MAX_CACHE_BYTES \<and> w' = advance bs w))"

named_theorems write_intros "what a writer appends"

lemma writesD: "writes f bs \<Longrightarrow> cw_length w \<le> MAX_CACHE_BYTES \<Longrightarrow>
    f w = Inr w' \<longleftrightarrow> cw_length w + length bs \<le> MAX_CACHE_BYTES \<and> w' = advance bs w"
  by (simp add: writes_def)

lemma writes_put [write_intros]: "writes (put bs) bs"
proof -
  have "MAX_CACHE_BYTES \<le> usize_max" by (simp add: MAX_CACHE_BYTES_def usize_max_def)
  then show ?thesis by (auto simp: writes_def put_def advance_def result_simps checked_add_Some_iff split: if_splits)
qed

lemma writes_bind [write_intros]:
  assumes "writes f bs" and "writes g cs"
  shows "writes (\<lambda>w. try_bind (f w) g) (bs @ cs)"
  unfolding writes_def
proof (intro allI impI)
  fix w w' :: CacheWriter
  assume w: "cw_length w \<le> MAX_CACHE_BYTES"
  note f = writesD [OF assms(1) w]
  show "try_bind (f w) g = Inr w' \<longleftrightarrow>
      cw_length w + length (bs @ cs) \<le> MAX_CACHE_BYTES \<and> w' = advance (bs @ cs) w"
  proof (cases "cw_length w + length bs \<le> MAX_CACHE_BYTES")
    case True
    with f have "f w = Inr (advance bs w)" by simp
    with writesD [OF assms(2), of "advance bs w" w'] True show ?thesis by (simp add: add.assoc)
  next
    case False
    with f show ?thesis by (auto simp: result_simps)
  qed
qed

lemma writes_Inr [write_intros]: "writes Inr []"
  by (auto simp: writes_def advance_def)

lemma writes_all [write_intros]:
  "(\<And>x. x \<in> set xs \<Longrightarrow> writes (f x) (e x)) \<Longrightarrow> writes (put_all f xs) (concat (map e xs))"
proof (induction xs)
  case Nil
  then show ?case using writes_Inr by (simp add: writes_def)
next
  case (Cons x xs)
  have "writes (\<lambda>w. try_bind (f x w) (put_all f xs)) (e x @ concat (map e xs))"
    by (intro writes_bind Cons.prems Cons.IH) auto
  then show ?case by (simp add: writes_def)
qed

lemma writes_number [write_intros]: "v < 2 ^ 32 \<Longrightarrow> writes (put_number v) (le_bytes 4 v)"
  using writes_put [of "le_bytes 4 v"] by (simp add: put_number_def writes_def)

definition enc_string :: "str \<Rightarrow> str" where
  "enc_string s = le_bytes 4 (length s) @ s"

definition enc_range :: "SourceRange \<Rightarrow> str" where
  "enc_range r = le_bytes 4 (start_byte r) @ le_bytes 4 (end_byte r)"

definition enc_optional_range :: "SourceRange option \<Rightarrow> str" where
  "enc_optional_range r = flag_byte (r \<noteq> None) @ (case r of None \<Rightarrow> [] | Some x \<Rightarrow> enc_range x)"

definition enc_chunk :: "ChunkEmbedding \<Rightarrow> str" where
  "enc_chunk c =
     ce_hash c @ flag_byte (ce_scope c = Passage) @ enc_range (ce_range c) @ enc_optional_range (ce_overlap c)
     @ le_bytes 4 (length (ce_headings c)) @ concat (map enc_string (ce_headings c))
     @ enc_optional_range (ce_section c)
     @ flag_byte (ce_kind c \<noteq> None) @ (case ce_kind c of None \<Rightarrow> [] | Some k \<Rightarrow> enc_string k)
     @ le_bytes 4 (length (ce_vector c)) @ concat (map (\<lambda>v. le_bytes 4 (unat v)) (ce_vector c))"

definition enc_entry :: "str \<Rightarrow> NoteEmbeddingEntry \<Rightarrow> str" where
  "enc_entry path e =
     enc_string path @ enc_string (ne_revision e) @ le_bytes 4 (ne_source_bytes e) @ enc_range (ne_body e)
     @ enc_string (ne_title e) @ le_bytes 4 (length (ne_tags e)) @ concat (map enc_string (ne_tags e))
     @ le_bytes 4 (length (ne_chunks e)) @ concat (map enc_chunk (ne_chunks e))"

text \<open>Every length and offset fits the 32 bits the format has for it.\<close>

definition range_fits :: "SourceRange \<Rightarrow> bool" where
  "range_fits r \<longleftrightarrow> start_byte r < 2 ^ 32 \<and> end_byte r < 2 ^ 32"

definition chunk_fits :: "ChunkEmbedding \<Rightarrow> bool" where
  "chunk_fits c \<longleftrightarrow>
     range_fits (ce_range c) \<and> pred_option range_fits (ce_overlap c) \<and> pred_option range_fits (ce_section c)
     \<and> length (ce_headings c) < 2 ^ 32 \<and> list_all (\<lambda>s. length s < 2 ^ 32) (ce_headings c)
     \<and> pred_option (\<lambda>k. length k < 2 ^ 32) (ce_kind c) \<and> length (ce_vector c) < 2 ^ 32"

definition entry_fits :: "NoteEmbeddingEntry \<Rightarrow> bool" where
  "entry_fits e \<longleftrightarrow>
     length (ne_revision e) < 2 ^ 32 \<and> ne_source_bytes e < 2 ^ 32 \<and> range_fits (ne_body e)
     \<and> length (ne_title e) < 2 ^ 32 \<and> length (ne_tags e) < 2 ^ 32 \<and> list_all (\<lambda>s. length s < 2 ^ 32) (ne_tags e)
     \<and> length (ne_chunks e) < 2 ^ 32 \<and> list_all chunk_fits (ne_chunks e)"

lemma writes_string [write_intros]: "length s < 2 ^ 32 \<Longrightarrow> writes (put_string s) (enc_string s)"
  using writes_bind [OF writes_number writes_put, of "length s" s]
  by (simp add: writes_def put_string_def enc_string_def)

lemma writes_range [write_intros]: "range_fits r \<Longrightarrow> writes (put_range r) (enc_range r)"
  using writes_bind [OF writes_number writes_number, of "start_byte r" "end_byte r"]
  by (simp add: writes_def put_range_def enc_range_def range_fits_def)

lemma writes_optional_range [write_intros]:
  assumes "pred_option range_fits r"
  shows "writes (put_optional_range r) (enc_optional_range r)"
proof -
  have "writes (\<lambda>w. case r of None \<Rightarrow> Inr w | Some x \<Rightarrow> put_range x w) (case r of None \<Rightarrow> [] | Some x \<Rightarrow> enc_range x)"
    using assms writes_Inr writes_range by (cases r) (auto simp: writes_def)
  from writes_bind [OF writes_put this] show ?thesis
    by (simp add: writes_def put_optional_range_def enc_optional_range_def)
qed

lemma writes_chunk:
  assumes "chunk_fits c"
  shows "writes (write_chunk c) (enc_chunk c)"
proof -
  have k: "writes (\<lambda>w. case ce_kind c of None \<Rightarrow> Inr w | Some k \<Rightarrow> put_string k w)
      (case ce_kind c of None \<Rightarrow> [] | Some k \<Rightarrow> enc_string k)"
    using assms writes_Inr writes_string by (cases "ce_kind c") (auto simp: writes_def chunk_fits_def)
  have v: "writes (put (le_bytes 4 (unat v))) (le_bytes 4 (unat v))" for v :: f32 by (rule writes_put)
  have h: "writes (put_string s) (enc_string s)" if "s \<in> set (ce_headings c)" for s
    using assms that by (auto simp: chunk_fits_def list_all_iff intro: writes_string)
  show ?thesis
    unfolding write_chunk_def enc_chunk_def
    by (intro writes_bind writes_put writes_range writes_optional_range writes_number writes_all h v k)
       (use assms in \<open>simp_all add: chunk_fits_def\<close>)
qed

lemma writes_entry:
  assumes "length path < 2 ^ 32" and "entry_fits e"
  shows "writes (write_entry path e) (enc_entry path e)"
proof -
  have t: "writes (put_string s) (enc_string s)" if "s \<in> set (ne_tags e)" for s
    using assms(2) that by (auto simp: entry_fits_def list_all_iff intro: writes_string)
  have c: "writes (write_chunk c) (enc_chunk c)" if "c \<in> set (ne_chunks e)" for c
    using assms(2) that by (auto simp: entry_fits_def list_all_iff intro: writes_chunk)
  show ?thesis
    unfolding write_entry_def enc_entry_def
    by (intro writes_bind writes_string writes_range writes_number writes_all t c)
       (use assms in \<open>simp_all add: entry_fits_def\<close>)
qed

section \<open>Readers\<close>

text \<open>\<open>reads m bs x\<close>: \<open>m\<close> takes \<open>bs\<close> off the input and gives \<open>x\<close>.\<close>

definition reads :: "'a reader \<Rightarrow> str \<Rightarrow> 'a \<Rightarrow> bool" where
  "reads m bs x \<longleftrightarrow>
     (\<forall>rest k. m \<lparr> cr_input = bs @ rest, cr_remaining = length bs + k \<rparr>
        = Inr (x, \<lparr> cr_input = rest, cr_remaining = k \<rparr>))"

lemma reads_bind:
  assumes "reads m bs x" and "reads (f x) cs y"
  shows "reads (read_bind m f) (bs @ cs) y"
  unfolding reads_def
proof (intro allI)
  fix rest k
  have "m \<lparr> cr_input = bs @ (cs @ rest), cr_remaining = length bs + (length cs + k) \<rparr>
      = Inr (x, \<lparr> cr_input = cs @ rest, cr_remaining = length cs + k \<rparr>)"
    using assms(1) by (simp only: reads_def)
  moreover have "f x \<lparr> cr_input = cs @ rest, cr_remaining = length cs + k \<rparr>
      = Inr (y, \<lparr> cr_input = rest, cr_remaining = k \<rparr>)"
    using assms(2) by (simp only: reads_def)
  ultimately show "read_bind m f \<lparr> cr_input = (bs @ cs) @ rest, cr_remaining = length (bs @ cs) + k \<rparr>
      = Inr (y, \<lparr> cr_input = rest, cr_remaining = k \<rparr>)"
    by (simp add: read_bind_def add.assoc)
qed

lemma reads_return: "reads (read_return x) [] x"
  by (simp add: reads_def read_return_def)

lemma reads_map: "reads m bs x \<Longrightarrow> y = f x \<Longrightarrow> reads (read_bind m (\<lambda>x. read_return (f x))) bs y"
  using reads_bind [OF _ reads_return, of m bs x f] by simp

lemma reads_take: "n = length bs \<Longrightarrow> reads (read_take n) bs bs"
  by (simp add: reads_def read_take_def)

lemma reads_number: "v < 2 ^ 32 \<Longrightarrow> reads read_number (le_bytes 4 v) v"
  unfolding read_number_def by (rule reads_map [OF reads_take]) (simp_all add: of_le_bytes_4)

lemma reads_count: "v \<le> m \<Longrightarrow> v < 2 ^ 32 \<Longrightarrow> reads (read_count m what) (le_bytes 4 v) v"
  using reads_number [of v] unfolding read_count_def by (simp add: reads_def read_bind_def read_return_def)

lemma reads_flag: "reads read_flag (flag_byte b) b"
  using reads_take [of 1 "flag_byte b"]
  by (simp add: reads_def read_flag_def read_bind_def read_return_def flag_byte_def)

lemma reads_string:
  assumes "length s \<le> m" and "length s < 2 ^ 32" and "utf8 s"
  shows "reads (read_string cd m) (enc_string s) s"
proof -
  have "reads (read_bytes m) (enc_string s) s"
    unfolding read_bytes_def enc_string_def
    by (rule reads_bind [OF reads_count [OF assms(1,2)] reads_take]) simp
  then show ?thesis
    using assms(3) by (simp add: reads_def read_string_def read_bind_def read_return_def)
qed

lemma reads_range: "range_fits r \<Longrightarrow> reads read_range (enc_range r) r"
  unfolding read_range_def enc_range_def range_fits_def
  by (rule reads_bind [OF reads_number reads_map [OF reads_number]]) auto

lemma reads_optional_range:
  assumes "pred_option range_fits r"
  shows "reads read_optional_range (enc_optional_range r) r"
proof (cases r)
  case None
  show ?thesis
    unfolding read_optional_range_def enc_optional_range_def None
    by (intro reads_bind [OF reads_flag]) (simp add: reads_return)
next
  case (Some x)
  have "reads (read_bind read_range (\<lambda>r. read_return (Some r))) (enc_range x) (Some x)"
    by (rule reads_map [OF reads_range]) (use assms Some in simp_all)
  then show ?thesis
    unfolding read_optional_range_def enc_optional_range_def Some
    by (intro reads_bind [OF reads_flag]) simp
qed

lemma reads_n:
  "(\<And>x. x \<in> set xs \<Longrightarrow> reads m (e x) x) \<Longrightarrow> reads (read_n m (length xs)) (concat (map e xs)) xs"
proof (induction xs)
  case (Cons x xs)
  have "reads (read_bind m (\<lambda>x. read_bind (read_n m (length xs)) (\<lambda>xs. read_return (x # xs)))) (e x @ concat (map e xs)) (x # xs)"
    by (intro reads_bind [of m "e x" x] reads_map [OF Cons.IH] Cons.prems) auto
  then show ?case by simp
qed (simp add: reads_return)

lemma reads_strings:
  assumes "list_all utf8 ss" and "limit < 2 ^ 32" and "used + sum_list (map length ss) \<le> limit"
  shows "reads (read_strings cd limit used (length ss)) (concat (map enc_string ss)) ss"
  using assms(1,3)
proof (induction ss arbitrary: used)
  case (Cons s ss)
  have s: "reads (read_string cd (limit - used)) (enc_string s) s"
    by (rule reads_string) (use Cons.prems assms(2) in simp_all)
  have "reads (read_strings cd limit (used + length s) (length ss)) (concat (map enc_string ss)) ss"
    by (rule Cons.IH) (use Cons.prems in simp_all)
  from reads_map [OF this refl, of "\<lambda>ss. s # ss"]
  have "reads (read_bind (read_string cd (limit - used)) (\<lambda>s. read_bind (read_strings cd limit (used + length s) (length ss))
      (\<lambda>ss. read_return (s # ss)))) (enc_string s @ concat (map enc_string ss)) (s # ss)"
    by (intro reads_bind [OF s])
  then show ?case by simp
qed (simp add: reads_return)

lemma reads_f32: "reads read_f32 (le_bytes 4 (unat v)) v"
proof -
  have "unat v < 2 ^ LENGTH(32)" by (rule unsigned_less)
  then show ?thesis
    unfolding read_f32_def by (intro reads_map [OF reads_take]) (simp_all add: of_le_bytes_4)
qed

lemma reads_vector:
  assumes "length vs < 2 ^ 32"
  shows "reads (read_bind (check_remaining (sat_mul (length vs) 4)) (\<lambda>_. read_n read_f32 (length vs)))
    (concat (map (\<lambda>v. le_bytes 4 (unat v)) vs)) vs"
proof -
  let ?bs = "concat (map (\<lambda>v. le_bytes 4 (unat v)) vs)"
  have "length ?bs = length vs * 4" by (induction vs) simp_all
  moreover have "reads (read_n read_f32 (length vs)) ?bs vs" by (intro reads_n reads_f32)
  ultimately show ?thesis by (simp add: reads_def read_bind_def check_remaining_def sat_mul_def)
qed

lemma read_bind_assoc: "read_bind (read_bind m f) g = read_bind m (\<lambda>x. read_bind (f x) g)"
proof
  fix r
  show "read_bind (read_bind m f) g r = read_bind m (\<lambda>x. read_bind (f x) g) r"
    by (cases "m r") (auto simp: read_bind_def)
qed

section \<open>Entries\<close>

text \<open>What the types of the fields guarantee: texts are UTF-8, a hash has 32 bytes.\<close>

definition typed_chunk :: "ChunkEmbedding \<Rightarrow> bool" where
  "typed_chunk c \<longleftrightarrow> length (ce_hash c) = 32 \<and> list_all utf8 (ce_headings c) \<and> pred_option utf8 (ce_kind c)"

definition typed_entry :: "NoteEmbeddingEntry \<Rightarrow> bool" where
  "typed_entry e \<longleftrightarrow>
     utf8 (ne_revision e) \<and> utf8 (ne_title e) \<and> list_all utf8 (ne_tags e) \<and> list_all typed_chunk (ne_chunks e)"

lemma context_split:
  "context_prefix_bytes t h n \<le> MAX_CONTEXT_BYTES \<Longrightarrow> (n = 0 \<Longrightarrow> h = 0) \<Longrightarrow>
   context_prefix_bytes t 0 n + h \<le> MAX_CONTEXT_BYTES"
  by (auto simp: context_prefix_bytes_def Let_def sat_add_def sat_mul_def MAX_CONTEXT_BYTES_def usize_max_def
      min_def split: if_splits)

text \<open>The conditions of \<open>validate_chunk\<close> that do not depend on its neighbours.\<close>

definition chunk_valid :: "str \<Rightarrow> nat \<Rightarrow> ChunkEmbedding \<Rightarrow> bool" where
  "chunk_valid title d c \<longleftrightarrow>
     length (ce_vector c) = d \<and> length (ce_headings c) \<le> 6
     \<and> context_prefix_bytes title (sum_list (map length (ce_headings c))) (length (ce_headings c)) \<le> MAX_CONTEXT_BYTES
     \<and> pred_option (\<lambda>k. length k \<le> MAX_CONTEXT_BYTES) (ce_kind c)"

lemma reads_chunk:
  assumes t: "typed_chunk c" and f: "chunk_fits c" and v: "chunk_valid title d c"
  shows "reads (read_chunk cd d title) (enc_chunk c) c"
proof -
  let ?n = "length (ce_headings c)"
  have ctx: "context_prefix_bytes title 0 ?n + sum_list (map length (ce_headings c)) \<le> MAX_CONTEXT_BYTES"
    using v by (intro context_split) (auto simp: chunk_valid_def)
  then have ctx0: "\<not> MAX_CONTEXT_BYTES < context_prefix_bytes title 0 ?n" by simp
  have small: "MAX_CONTEXT_BYTES < 2 ^ 32" by (simp add: MAX_CONTEXT_BYTES_def)
  have d: "length (ce_vector c) = d" "d < 2 ^ 32" using v f by (auto simp: chunk_valid_def chunk_fits_def)
  have kind: "reads (if ce_kind c \<noteq> None then read_bind (read_string cd MAX_CONTEXT_BYTES) (\<lambda>k. read_return (Some k))
       else read_return None) (case ce_kind c of None \<Rightarrow> [] | Some k \<Rightarrow> enc_string k) (ce_kind c)"
  proof (cases "ce_kind c")
    case None
    then show ?thesis by (simp add: reads_return)
  next
    case (Some k)
    have "reads (read_string cd MAX_CONTEXT_BYTES) (enc_string k) k"
      using Some t v small by (intro reads_string) (auto simp: typed_chunk_def chunk_valid_def)
    from reads_map [OF this, of "Some k" Some] Some show ?thesis by simp
  qed
  have headings: "reads (read_strings cd MAX_CONTEXT_BYTES (context_prefix_bytes title 0 ?n) ?n)
      (concat (map enc_string (ce_headings c))) (ce_headings c)"
    using t ctx small by (intro reads_strings) (auto simp: typed_chunk_def)
  have cnt: "reads (read_count 6 ''ancestor headings'') (le_bytes 4 ?n) ?n"
    using v f by (intro reads_count) (auto simp: chunk_valid_def chunk_fits_def)
  have len: "reads read_number (le_bytes 4 (length (ce_vector c))) (length (ce_vector c))"
    using d by (intro reads_number) simp
  have scope: "(if ce_scope c = Passage then Passage else NoteScope) = ce_scope c" by (cases "ce_scope c") simp_all
  let ?fin = "\<lambda>vector. \<lparr> ce_hash = ce_hash c, ce_vector = vector, ce_scope = (if ce_scope c = Passage then Passage else NoteScope),
       ce_range = ce_range c, ce_overlap = ce_overlap c, ce_headings = ce_headings c, ce_section = ce_section c, ce_kind = ce_kind c \<rparr>"
  have "c = ?fin (ce_vector c)" unfolding scope by simp
  from reads_map [where f = ?fin, OF reads_vector this, unfolded read_bind_assoc] d
  have vec: "reads (read_bind (check_remaining (sat_mul (length (ce_vector c)) 4)) (\<lambda>_.
      read_bind (read_n read_f32 (length (ce_vector c))) (\<lambda>vector. read_return (?fin vector))))
      (concat (map (\<lambda>v. le_bytes 4 (unat v)) (ce_vector c))) c"
    by simp
  show ?thesis
    unfolding read_chunk_def enc_chunk_def Let_def
    apply (rule reads_bind [OF reads_take])
     apply (use t in \<open>simp add: typed_chunk_def\<close>)
    apply (rule reads_bind [OF reads_flag])
    apply (rule reads_bind [OF reads_range])
     apply (use f in \<open>simp add: chunk_fits_def\<close>)
    apply (rule reads_bind [OF reads_optional_range])
     apply (use f in \<open>simp add: chunk_fits_def\<close>)
    apply (rule reads_bind [OF cnt])
    apply (simp only: ctx0 if_False)
    apply (rule reads_bind [OF headings])
    apply (rule reads_bind [OF reads_optional_range])
     apply (use f in \<open>simp add: chunk_fits_def\<close>)
    apply (rule reads_bind [OF reads_flag])
    apply (rule reads_bind [OF kind])
    apply (rule reads_bind [OF len])
    apply (use vec d in simp)
    done
qed

lemma fold_sat_add_below:
  assumes "m < usize_max"
  shows "foldl (\<lambda>n t. sat_add n (length t)) a ts \<le> m \<Longrightarrow> a + sum_list (map length ts) \<le> m"
proof (induction ts arbitrary: a)
  case (Cons t ts)
  then have i: "sat_add a (length t) + sum_list (map length ts) \<le> m" by simp
  then have "a + length t < usize_max" using assms by (auto simp: sat_add_def)
  then have "sat_add a (length t) = a + length t" by (simp add: sat_add_def)
  with i show ?case by simp
qed simp

definition entry_valid :: "nat \<Rightarrow> NoteEmbeddingEntry \<Rightarrow> bool" where
  "entry_valid d e \<longleftrightarrow>
     length (ne_revision e) = 64 \<and> ne_source_bytes e \<le> MAX_SOURCE_BYTES
     \<and> end_byte (ne_body e) = ne_source_bytes e \<and> start_byte (ne_body e) \<le> ne_source_bytes e
     \<and> length (ne_tags e) \<le> MAX_NOTE_TAGS
     \<and> length (ne_title e) + sum_list (map length (ne_tags e)) \<le> MAX_NOTE_METADATA_BYTES
     \<and> 0 < length (ne_chunks e) \<and> length (ne_chunks e) \<le> MAX_CHUNKS_PER_NOTE
     \<and> list_all (\<lambda>c. chunk_valid (ne_title e) d c
          \<and> end_byte (ce_range c) \<le> ne_source_bytes e \<and> start_byte (ce_range c) \<le> end_byte (ce_range c)
          \<and> pred_option (\<lambda>r. start_byte r \<le> end_byte r \<and> end_byte r \<le> ne_source_bytes e) (ce_overlap c)
          \<and> pred_option (\<lambda>r. start_byte r \<le> end_byte r \<and> end_byte r \<le> ne_source_bytes e) (ce_section c)) (ne_chunks e)"

lemma validate_chunk_valid:
  assumes "validate_chunk e d nb c = Inr ()"
  shows "chunk_valid (ne_title e) d c
    \<and> end_byte (ce_range c) \<le> ne_source_bytes e \<and> start_byte (ce_range c) \<le> end_byte (ce_range c)
    \<and> pred_option (\<lambda>r. start_byte r \<le> end_byte r \<and> end_byte r \<le> ne_source_bytes e) (ce_overlap c)
    \<and> pred_option (\<lambda>r. start_byte r \<le> end_byte r \<and> end_byte r \<le> ne_source_bytes e) (ce_section c)"
  using assms
  by (auto simp: validate_chunk_def Let_def result_simps validate_vector_def validate_source_range_def chunk_valid_def
      pred_option_def split: if_splits option.splits)

lemma validate_chunks_all:
  "validate_chunks e d nb cs = Inr n \<Longrightarrow> list_all (\<lambda>c. \<exists>k. validate_chunk e d k c = Inr ()) cs"
  by (induction cs arbitrary: nb) (auto simp: result_simps)

lemma validate_note_entry_valid:
  assumes "validate_note_entry e d = Inr ()"
  shows "entry_valid d e"
proof -
  have m: "MAX_NOTE_METADATA_BYTES < usize_max" by (simp add: MAX_NOTE_METADATA_BYTES_def usize_max_def)
  obtain n where v: "length (ne_revision e) = 64" "ne_source_bytes e \<le> MAX_SOURCE_BYTES"
    "end_byte (ne_body e) = ne_source_bytes e" "start_byte (ne_body e) \<le> ne_source_bytes e"
    "validate_note_metadata (ne_title e) (ne_tags e) = Inr ()"
    "ne_chunks e \<noteq> []" "length (ne_chunks e) \<le> MAX_CHUNKS_PER_NOTE"
    "validate_chunks e d (start_byte (ne_body e)) (ne_chunks e) = Inr n"
    using assms
    by (auto simp: validate_note_entry_def Let_def result_simps validate_source_range_def split: if_splits)
  have "length (ne_tags e) \<le> MAX_NOTE_TAGS
      \<and> length (ne_title e) + sum_list (map length (ne_tags e)) \<le> MAX_NOTE_METADATA_BYTES"
    using v(5) fold_sat_add_below [OF m, of "length (ne_title e)" "ne_tags e"]
    by (auto simp: validate_note_metadata_def Let_def not_less split: if_splits)
  with v validate_chunks_all [OF v(8)] show ?thesis
    unfolding entry_valid_def by (auto simp: list_all_iff dest: validate_chunk_valid)
qed

lemma sum_list_bound: "sum_list (map length ss) \<le> m \<Longrightarrow> s \<in> set ss \<Longrightarrow> length s \<le> m"
  using member_le_sum_list [of "length s" "map length ss"] by auto

lemma entry_valid_fits:
  assumes v: "entry_valid d e" and d: "d < 2 ^ 32"
  shows "entry_fits e"
proof -
  have n: "MAX_SOURCE_BYTES < 2 ^ 32" "MAX_NOTE_METADATA_BYTES < 2 ^ 32" "MAX_NOTE_TAGS < 2 ^ 32"
    "MAX_CHUNKS_PER_NOTE < 2 ^ 32" "MAX_CONTEXT_BYTES < 2 ^ 32"
    by (simp_all add: MAX_SOURCE_BYTES_def MAX_NOTE_METADATA_BYTES_def MAX_NOTE_TAGS_def MAX_CHUNKS_PER_NOTE_def
        MAX_CONTEXT_BYTES_def)
  have c: "chunk_fits c" if "c \<in> set (ne_chunks e)" for c
  proof -
    have cv: "chunk_valid (ne_title e) d c" using v that by (auto simp: entry_valid_def list_all_iff)
    then have "context_prefix_bytes (ne_title e) 0 (length (ce_headings c)) + sum_list (map length (ce_headings c)) \<le> MAX_CONTEXT_BYTES"
      by (intro context_split) (auto simp: chunk_valid_def)
    then have "length s < 2 ^ 32" if "s \<in> set (ce_headings c)" for s
      using sum_list_bound [of "ce_headings c" MAX_CONTEXT_BYTES s] n(5) that by simp
    then show ?thesis
      using v cv that n d
      by (fastforce simp: entry_valid_def chunk_fits_def chunk_valid_def range_fits_def list_all_iff pred_option_def)
  qed
  have t: "length s < 2 ^ 32" if "s \<in> set (ne_tags e)" for s
    using sum_list_bound [of "ne_tags e" MAX_NOTE_METADATA_BYTES s] v n(2) that by (auto simp: entry_valid_def)
  show ?thesis
    unfolding entry_fits_def using v n c t by (auto simp: entry_valid_def range_fits_def list_all_iff)
qed

lemma reads_entry:
  assumes t: "typed_entry e" and v: "entry_valid d e" and d: "d < 2 ^ 32"
    and room: "stored + length (ne_chunks e) \<le> MAX_CACHE_ENTRIES"
  shows "reads (read_entry cd d stored)
    (enc_string (ne_revision e) @ le_bytes 4 (ne_source_bytes e) @ enc_range (ne_body e)
     @ enc_string (ne_title e) @ le_bytes 4 (length (ne_tags e)) @ concat (map enc_string (ne_tags e))
     @ le_bytes 4 (length (ne_chunks e)) @ concat (map enc_chunk (ne_chunks e))) e"
proof -
  note f = entry_valid_fits [OF v d, unfolded entry_fits_def]
  have meta: "MAX_NOTE_METADATA_BYTES < 2 ^ 32" by (simp add: MAX_NOTE_METADATA_BYTES_def)
  have rev: "reads (read_string cd 64) (enc_string (ne_revision e)) (ne_revision e)"
    using t v by (intro reads_string) (auto simp: typed_entry_def entry_valid_def)
  have src: "reads (read_count MAX_SOURCE_BYTES ''source bytes'') (le_bytes 4 (ne_source_bytes e)) (ne_source_bytes e)"
    using v f by (intro reads_count) (auto simp: entry_valid_def)
  have body: "reads read_range (enc_range (ne_body e)) (ne_body e)" using f by (intro reads_range) simp
  have title: "reads (read_string cd MAX_NOTE_METADATA_BYTES) (enc_string (ne_title e)) (ne_title e)"
    using t v f by (intro reads_string) (auto simp: typed_entry_def entry_valid_def)
  have cnt: "reads (read_count MAX_NOTE_TAGS ''tags'') (le_bytes 4 (length (ne_tags e))) (length (ne_tags e))"
    using v f by (intro reads_count) (auto simp: entry_valid_def)
  have tags: "reads (read_strings cd MAX_NOTE_METADATA_BYTES (length (ne_title e)) (length (ne_tags e)))
      (concat (map enc_string (ne_tags e))) (ne_tags e)"
    using t v meta by (intro reads_strings) (auto simp: typed_entry_def entry_valid_def)
  have n: "reads (read_count (min MAX_CHUNKS_PER_NOTE (MAX_CACHE_ENTRIES - stored)) ''chunks'')
      (le_bytes 4 (length (ne_chunks e))) (length (ne_chunks e))"
    using v f room by (intro reads_count) (auto simp: entry_valid_def)
  have chunks: "reads (read_n (read_chunk cd d (ne_title e)) (length (ne_chunks e))) (concat (map enc_chunk (ne_chunks e))) (ne_chunks e)"
    using t v f by (intro reads_n reads_chunk) (auto simp: typed_entry_def entry_valid_def list_all_iff)
  show ?thesis
    unfolding read_entry_def
    by (intro reads_bind [OF rev] reads_bind [OF src] reads_bind [OF body] reads_bind [OF title] reads_bind [OF cnt]
        reads_bind [OF tags] reads_bind [OF n] reads_map [OF chunks]) simp
qed

end
