(* ===== verification/CacheStore.thy ===== *)
theory CacheStore
  imports CacheCodec Links
begin

text \<open>
  The embedding store over a run: its accounting invariant on every reachable store, saving and
  loading as inverses, and what a loaded file may contain.
\<close>

section \<open>Sums over the table\<close>

definition keyed_sum :: "('k \<Rightarrow> 'v \<Rightarrow> nat) \<Rightarrow> ('k \<times> 'v) list \<Rightarrow> nat" where
  "keyed_sum f t = sum_list (map (\<lambda>(k, v). f k v) t)"

lemma keyed_sum_simps [simp]: "keyed_sum f [] = 0" "keyed_sum f ((k, v) # t) = f k v + keyed_sum f t"
  by (simp_all add: keyed_sum_def)

lemma keyed_sum_delete:
  "distinct (map fst t) \<Longrightarrow>
   keyed_sum f t = (case map_of t k of None \<Rightarrow> 0 | Some v \<Rightarrow> f k v) + keyed_sum f (AList.delete k t)"
proof (induction t)
  case (Cons e t)
  obtain a b where e: "e = (a, b)" by (cases e)
  show ?case
  proof (cases "a = k")
    case True
    with Cons.prems have "map_of t k = None" "AList.delete k t = t" by (auto simp: e map_of_eq_None_iff)
    then show ?thesis using True by (simp add: e)
  next
    case False
    with Cons show ?thesis by (simp add: e)
  qed
qed simp

lemma keyed_sum_update:
  "distinct (map fst t) \<Longrightarrow> keyed_sum f (AList.update k v t) = f k v + keyed_sum f (AList.delete k t)"
proof (induction t)
  case (Cons e t)
  then show ?case by (cases e) auto
qed simp

lemma keyed_sum_sort [simp]: "keyed_sum f (sort_key g t) = keyed_sum f t"
  unfolding keyed_sum_def by (simp flip: sum_mset_sum_list)

lemma length_keyed_sum: "length t = keyed_sum (\<lambda>_ _. 1) t"
  by (induction t) auto

lemma length_delete:
  "distinct (map fst t) \<Longrightarrow> length t = (case map_of t k of None \<Rightarrow> 0 | Some _ \<Rightarrow> 1) + length (AList.delete k t)"
  unfolding length_keyed_sum by (rule keyed_sum_delete)

lemma length_update: "distinct (map fst t) \<Longrightarrow> length (AList.update k v t) = 1 + length (AList.delete k t)"
  unfolding length_keyed_sum by (rule keyed_sum_update)

section \<open>The header\<close>

definition enc_header :: "str \<Rightarrow> bool \<Rightarrow> nat \<Rightarrow> str" where
  "enc_header json complete cnt =
     CACHE_MAGIC @ le_bytes 2 CACHE_SCHEMA_VERSION @ le_bytes 4 (length json) @ json @ flag_byte complete @ le_bytes 4 cnt"

lemma writes_header:
  assumes "cd_identity_json cd i = Inr json" and "length json \<le> MAX_NOTE_METADATA_BYTES" and "cnt < 2 ^ 32"
  shows "writes (write_header cd CACHE_MAGIC CACHE_SCHEMA_VERSION i complete cnt) (enc_header json complete cnt)"
proof -
  have "length json < 2 ^ 32" using assms(2) by (simp add: MAX_NOTE_METADATA_BYTES_def)
  then have "writes (\<lambda>w. try_bind (put CACHE_MAGIC w) (\<lambda>w.
     try_bind (put (le_bytes 2 CACHE_SCHEMA_VERSION) w) (\<lambda>w.
     try_bind (put_number (length json) w) (\<lambda>w.
     try_bind (put json w) (\<lambda>w.
     try_bind (put (flag_byte complete) w) (put_number cnt)))))) (enc_header json complete cnt)"
    unfolding enc_header_def by (intro writes_bind writes_put writes_number assms(3))
  then show ?thesis
    using assms(1,2) unfolding write_header_def by simp
qed

definition header_len :: "str \<Rightarrow> nat" where
  "header_len json = 19 + length json"

lemma length_enc_header [simp]: "length (enc_header json complete cnt) = header_len json"
  by (simp add: enc_header_def header_len_def CACHE_MAGIC_def flag_byte_def)

lemma cache_header_len_iff:
  "cache_header_len cd i = Inr h \<longleftrightarrow>
     (\<exists>json. cd_identity_json cd i = Inr json \<and> length json \<le> MAX_NOTE_METADATA_BYTES \<and> h = header_len json)"
proof (cases "\<exists>json. cd_identity_json cd i = Inr json \<and> length json \<le> MAX_NOTE_METADATA_BYTES")
  case True
  then obtain json where j: "cd_identity_json cd i = Inr json" "length json \<le> MAX_NOTE_METADATA_BYTES" by blast
  have "header_len json \<le> MAX_CACHE_BYTES"
    using j(2) by (simp add: header_len_def MAX_NOTE_METADATA_BYTES_def MAX_CACHE_BYTES_def)
  with writesD [OF writes_header [OF j, of 0 False], of "empty_writer True"]
  have "write_header cd CACHE_MAGIC CACHE_SCHEMA_VERSION i False 0 (empty_writer True)
      = Inr (advance (enc_header json False 0) (empty_writer True))"
    by (simp add: empty_writer_def)
  with j show ?thesis by (auto simp: cache_header_len_def empty_writer_def)
next
  case False
  then show ?thesis
    by (cases "cd_identity_json cd i") (auto simp: cache_header_len_def write_header_def result_simps split: if_splits)
qed

section \<open>The invariant\<close>

definition entry_ok :: "nat \<Rightarrow> str \<Rightarrow> NoteEmbeddingEntry \<Rightarrow> bool" where
  "entry_ok d p e \<longleftrightarrow>
     utf8 p \<and> validate_cache_path p = Inr p \<and> validate_note_entry e d = Inr () \<and> typed_entry e"

text \<open>
  Every entry is valid, both counters are the exact sums, and what the store holds still fits a
  cache file with its header.
\<close>

definition store_inv :: "codec \<Rightarrow> EmbeddingSpaceIdentity \<Rightarrow> EmbeddingStore \<Rightarrow> bool" where
  "store_inv cd i st \<longleftrightarrow>
     es_identity st = Some i \<and> es_dim st = si_dimension i \<and> validate_space_identity i = Inr ()
     \<and> distinct (map fst (es_embeddings st))
     \<and> list_all (\<lambda>(p, e). entry_ok (es_dim st) p e) (es_embeddings st)
     \<and> es_total_chunks st = keyed_sum (\<lambda>_ e. length (ne_chunks e)) (es_embeddings st)
     \<and> es_encoded_entries_bytes st = keyed_sum (\<lambda>p e. length (enc_entry p e)) (es_embeddings st)
     \<and> es_total_chunks st \<le> MAX_CACHE_ENTRIES \<and> length (es_embeddings st) \<le> MAX_CACHE_ENTRIES
     \<and> (case cache_header_len cd i of
          Inl _ \<Rightarrow> es_embeddings st = []
        | Inr h \<Rightarrow> es_encoded_entries_bytes st + h \<le> MAX_CACHE_BYTES)"

lemma dimension_fits: "validate_space_identity i = Inr () \<Longrightarrow> si_dimension i < 2 ^ 32"
  by (auto simp: validate_space_identity_def MAX_CACHE_DIMENSION_def split: if_splits)

lemma cache_path_short: "validate_cache_path p = Inr q \<Longrightarrow> length p < 2 ^ 32"
  by (auto simp: validate_cache_path_def MAX_CACHE_PATH_BYTES_def split: if_splits)

lemma entry_ok_writes:
  assumes "entry_ok d p e" and "d < 2 ^ 32"
  shows "writes (write_entry p e) (enc_entry p e)"
  using assms by (auto simp: entry_ok_def intro!: writes_entry entry_valid_fits dest!: validate_note_entry_valid cache_path_short)

lemma encoded_len_iff:
  assumes "entry_ok d p e" and "d < 2 ^ 32"
  shows "encoded_entry_len p e = Inr n \<longleftrightarrow> n = length (enc_entry p e) \<and> n \<le> MAX_CACHE_BYTES"
proof -
  have "write_entry p e (empty_writer True) = Inr w' \<longleftrightarrow>
      length (enc_entry p e) \<le> MAX_CACHE_BYTES \<and> w' = advance (enc_entry p e) (empty_writer True)" for w'
    using writesD [OF entry_ok_writes [OF assms], of "empty_writer True"] by (simp add: empty_writer_def)
  then show ?thesis by (auto simp: encoded_entry_len_def result_simps empty_writer_def)
qed

lemma inv_entries: "store_inv cd i st \<Longrightarrow> list_all (\<lambda>(p, e). entry_ok (es_dim st) p e) (es_embeddings st)"
  unfolding store_inv_def by blast

lemma inv_dimension: "store_inv cd i st \<Longrightarrow> es_dim st < 2 ^ 32"
  using dimension_fits by (auto simp: store_inv_def)

lemma inv_complete [simp]: "store_inv cd i (st\<lparr>es_first_pass_complete := b\<rparr>) = store_inv cd i st"
  unfolding store_inv_def by (simp split: sum.split)

lemma start_inv:
  assumes "validate_space_identity i = Inr ()"
  shows "store_inv cd i (new_with_identity i)"
proof -
  have "h \<le> MAX_CACHE_BYTES" if "cache_header_len cd i = Inr h" for h
    using that by (auto simp: cache_header_len_iff header_len_def MAX_NOTE_METADATA_BYTES_def MAX_CACHE_BYTES_def)
  with assms show ?thesis
    by (auto simp: store_inv_def new_with_identity_def EmbeddingStore_new_def split: sum.split)
qed

lemma list_all_update:
  "distinct (map fst t) \<Longrightarrow> list_all (\<lambda>(k, v). P k v) t \<Longrightarrow> P k v \<Longrightarrow> list_all (\<lambda>(k, v). P k v) (AList.update k v t)"
  by (simp only: list_all_map_of distinct_update update_conv' fun_upd_apply) (metis option.inject)

lemma list_all_delete:
  "list_all P t \<Longrightarrow> list_all P (AList.delete k t)"
  by (induction t) (auto split: if_splits)

lemma insert_inv:
  assumes inv: "store_inv cd i st" and t: "typed_entry e" and ins: "insert_note cd p e st = Inr st'"
  shows "store_inv cd i st'"
proof -
  let ?t = "es_embeddings st" and ?old = "map_of (es_embeddings st) p"
  let ?t' = "AList.update p e ?t"
  let ?len = "\<lambda>p e. length (enc_entry p e)" and ?cnt = "\<lambda>_ e. length (ne_chunks e)"
  have d: "es_dim st < 2 ^ 32" by (rule inv_dimension [OF inv])
  have id: "es_identity st = Some i" and dist: "distinct (map fst ?t)" using inv by (auto simp: store_inv_def)
  obtain q nb ob chunks bytes h where
    q: "to_str p = Some p" "validate_cache_path p = Inr q" "validate_note_entry e (es_dim st) = Inr ()"
    and nb: "encoded_entry_len p e = Inr nb"
    and ob: "(case ?old of None \<Rightarrow> Inr 0 | Some o' \<Rightarrow> encoded_entry_len p o') = Inr ob"
    and chunks: "checked_add (es_total_chunks st - (case ?old of None \<Rightarrow> 0 | Some o' \<Rightarrow> length (ne_chunks o')))
        (length (ne_chunks e)) = Some chunks"
    and bytes: "checked_add (es_encoded_entries_bytes st - ob) nb = Some bytes"
    and lim: "\<not> MAX_CACHE_ENTRIES < chunks" "\<not> MAX_CACHE_ENTRIES < length ?t + (if ?old = None then 1 else 0)"
    and h: "cache_header_len cd i = Inr h" "\<not> MAX_CACHE_BYTES < sat_add bytes h"
    and st': "st' = st \<lparr> es_embeddings := ?t', es_encoded_entries_bytes := bytes, es_total_chunks := chunks \<rparr>"
    using ins id
    by (auto simp: insert_note_def Let_def result_simps to_str_def split: if_splits)
  have "q = p" using q(2) by (auto simp: validate_cache_path_def result_simps split: if_splits)
  with q t have ok: "entry_ok (es_dim st) p e" by (auto simp: entry_ok_def to_str_def split: if_splits)
  have all: "list_all (\<lambda>(p, e). entry_ok (es_dim st) p e) ?t" by (rule inv_entries [OF inv])
  have old_ok: "entry_ok (es_dim st) p o'" if "?old = Some o'" for o'
    using all that by (auto simp: list_all_iff dest: map_of_SomeD)
  have nb': "nb = ?len p e" using nb encoded_len_iff [OF ok d] by simp
  have ob': "ob = (case ?old of None \<Rightarrow> 0 | Some o' \<Rightarrow> ?len p o')"
    using ob encoded_len_iff [OF old_ok d] by (cases ?old) auto
  have "es_total_chunks st = keyed_sum ?cnt ?t" "es_encoded_entries_bytes st = keyed_sum ?len ?t"
    using inv by (simp_all add: store_inv_def)
  with keyed_sum_delete [OF dist, of ?cnt p] keyed_sum_delete [OF dist, of ?len p] chunks bytes nb' ob'
  have c': "chunks = keyed_sum ?cnt ?t'" and b': "bytes = keyed_sum ?len ?t'"
    by (auto simp: checked_add_Some_iff keyed_sum_update [OF dist])
  have l': "length ?t' \<le> MAX_CACHE_ENTRIES"
    using lim(2) length_delete [OF dist, of p] length_update [OF dist, of p e] by (cases ?old) auto
  have "MAX_CACHE_BYTES < usize_max" by (simp add: MAX_CACHE_BYTES_def usize_max_def)
  then have "bytes + h \<le> MAX_CACHE_BYTES" using sat_add_below [of bytes h MAX_CACHE_BYTES] h(2) by simp
  with h(1) c' b' l' lim(1) inv list_all_update [OF dist all ok] dist show ?thesis
    unfolding st' by (simp add: store_inv_def distinct_update)
qed

lemma remove_inv:
  assumes inv: "store_inv cd i st" and rem: "store_remove p st = Inr (b, st')"
  shows "store_inv cd i st'"
proof (cases "map_of (es_embeddings st) p")
  case None
  with inv rem show ?thesis by (simp add: store_remove_def)
next
  case (Some old)
  let ?t = "es_embeddings st" and ?t' = "AList.delete p (es_embeddings st)"
  let ?len = "\<lambda>p e. length (enc_entry p e)" and ?cnt = "\<lambda>_ e. length (ne_chunks e)"
  have d: "es_dim st < 2 ^ 32" by (rule inv_dimension [OF inv])
  have dist: "distinct (map fst ?t)" using inv by (simp add: store_inv_def)
  have all: "list_all (\<lambda>(p, e). entry_ok (es_dim st) p e) ?t" by (rule inv_entries [OF inv])
  have ok: "entry_ok (es_dim st) p old" using all Some by (auto simp: list_all_iff dest: map_of_SomeD)
  then have "to_str p = Some p" by (simp add: entry_ok_def to_str_def)
  with rem Some obtain ob where ob: "encoded_entry_len p old = Inr ob"
    and st': "st' = st \<lparr> es_embeddings := ?t', es_total_chunks := es_total_chunks st - length (ne_chunks old),
      es_encoded_entries_bytes := es_encoded_entries_bytes st - ob \<rparr>"
    by (auto simp: store_remove_def result_simps checked_sub_Some_iff simp del: map_of_eq_Some_iff)
  have ob': "ob = ?len p old" using ob encoded_len_iff [OF ok d] by simp
  have s: "es_total_chunks st = keyed_sum ?cnt ?t" "es_encoded_entries_bytes st = keyed_sum ?len ?t"
    using inv by (simp_all add: store_inv_def)
  have c: "es_total_chunks st - length (ne_chunks old) = keyed_sum ?cnt ?t'"
    and b: "es_encoded_entries_bytes st - ob = keyed_sum ?len ?t'"
    using s keyed_sum_delete [OF dist, of ?cnt p] keyed_sum_delete [OF dist, of ?len p] Some ob'
    by (simp_all del: map_of_eq_Some_iff)
  have l: "length ?t' \<le> length ?t" using length_delete [OF dist, of p] by linarith
  show ?thesis
    using inv list_all_delete [OF all, of p] l c b dist unfolding st' store_inv_def
    by (auto simp: distinct_delete split: sum.splits)
qed

lemma remove_paths_inv:
  "store_inv cd i st \<Longrightarrow> remove_paths ps st = (r, st') \<Longrightarrow> store_inv cd i st'"
  by (induction ps st rule: remove_paths.induct) (auto split: sum.splits dest: remove_inv)

text \<open>The stores of a vector space: every operation that changes one.\<close>

inductive store_reachable :: "codec \<Rightarrow> EmbeddingSpaceIdentity \<Rightarrow> EmbeddingStore \<Rightarrow> bool" for cd i where
  start: "validate_space_identity i = Inr () \<Longrightarrow> store_reachable cd i (new_with_identity i)"
| insert: "store_reachable cd i st \<Longrightarrow> typed_entry e \<Longrightarrow> insert_note cd p e st = Inr st' \<Longrightarrow> store_reachable cd i st'"
| remove: "store_reachable cd i st \<Longrightarrow> store_remove p st = Inr (b, st') \<Longrightarrow> store_reachable cd i st'"
| retain: "store_reachable cd i st \<Longrightarrow> retain_paths ps st = (r, st') \<Longrightarrow> store_reachable cd i st'"
| complete: "store_reachable cd i st \<Longrightarrow> store_reachable cd i (set_first_pass_complete b st)"

lemma reachable_store_inv: "store_reachable cd i st \<Longrightarrow> store_inv cd i st"
proof (induction rule: store_reachable.induct)
  case start
  then show ?case by (rule start_inv)
next
  case (insert st e p st')
  from insert_inv [OF insert.IH insert.hyps(2,3)] show ?case .
next
  case (remove st p b st')
  from remove_inv [OF remove.IH remove.hyps(2)] show ?case .
next
  case (retain st ps r st')
  then show ?case by (auto simp: retain_paths_def Let_def split: prod.splits dest: remove_paths_inv)
next
  case (complete st b)
  then show ?case by (simp add: set_first_pass_complete_def)
qed

section \<open>Saving\<close>

definition enc_entries :: "(str \<times> NoteEmbeddingEntry) list \<Rightarrow> str" where
  "enc_entries t = concat (map (\<lambda>(p, e). enc_entry p e) t)"

lemma length_enc_entries: "length (enc_entries t) = keyed_sum (\<lambda>p e. length (enc_entry p e)) t"
  by (induction t) (auto simp: enc_entries_def)

lemma writes_entries:
  assumes "list_all (\<lambda>(p, e). entry_ok d p e) t" and "d < 2 ^ 32"
  shows "writes (put_all (write_cache_entry d) t) (enc_entries t)"
  unfolding enc_entries_def
proof (rule writes_all)
  fix x assume x: "x \<in> set t"
  obtain p e where pe: "x = (p, e)" by (cases x)
  with assms(1) x have ok: "entry_ok d p e" by (auto simp: list_all_iff)
  then have "write_cache_entry d x = write_entry p e"
    by (auto simp: write_cache_entry_def pe entry_ok_def to_str_def)
  with entry_ok_writes [OF ok assms(2)] show "writes (write_cache_entry d x) (case x of (p, e) \<Rightarrow> enc_entry p e)"
    by (simp add: pe)
qed

lemma encode_cache_bytes:
  assumes inv: "store_inv cd i st" and json: "cd_identity_json cd i = Inr json" "length json \<le> MAX_NOTE_METADATA_BYTES"
  shows "encode_cache cd st = Inr (enc_header json (es_first_pass_complete st) (length (es_embeddings st))
      @ enc_entries (sort_key fst (es_embeddings st)))"
    and "length (enc_header json (es_first_pass_complete st) (length (es_embeddings st))
      @ enc_entries (sort_key fst (es_embeddings st))) \<le> MAX_CACHE_BYTES"
proof -
  let ?t = "sort_key fst (es_embeddings st)" and ?n = "length (es_embeddings st)"
  let ?h = "enc_header json (es_first_pass_complete st) ?n"
  have d: "es_dim st < 2 ^ 32" by (rule inv_dimension [OF inv])
  have all: "list_all (\<lambda>(p, e). entry_ok (es_dim st) p e) ?t" using inv_entries [OF inv] by (auto simp: list_all_iff)
  have n: "?n < 2 ^ 32" using inv by (auto simp: store_inv_def MAX_CACHE_ENTRIES_def)
  have "cache_header_len cd i = Inr (header_len json)" using json by (auto simp: cache_header_len_iff)
  then have "es_encoded_entries_bytes st + header_len json \<le> MAX_CACHE_BYTES" using inv by (simp add: store_inv_def)
  then have len: "length ?h + length (enc_entries ?t) \<le> MAX_CACHE_BYTES"
    using inv by (simp add: store_inv_def length_enc_entries)
  then show "length (?h @ enc_entries ?t) \<le> MAX_CACHE_BYTES" by simp
  have w: "write_header cd CACHE_MAGIC CACHE_SCHEMA_VERSION i (es_first_pass_complete st) ?n (empty_writer False)
      = Inr (advance ?h (empty_writer False))"
    using writesD [OF writes_header [OF json n], of "empty_writer False"] len by (simp add: empty_writer_def)
  have "put_all (write_cache_entry (es_dim st)) ?t (advance ?h (empty_writer False))
      = Inr (advance (?h @ enc_entries ?t) (empty_writer False))"
    using writesD [OF writes_entries [OF all d], of "advance ?h (empty_writer False)"] len by (simp add: empty_writer_def)
  with w inv show "encode_cache cd st = Inr (?h @ enc_entries ?t)"
    by (auto simp: encode_cache_def store_inv_def advance_def empty_writer_def)
qed

section \<open>Loading what was saved\<close>

lemma update_fresh: "map_of t k = None \<Longrightarrow> AList.update k v t = t @ [(k, v)]"
  by (induction t) (auto split: if_splits)

lemma keyed_sum_append [simp]: "keyed_sum f (s @ t) = keyed_sum f s + keyed_sum f t"
  by (simp add: keyed_sum_def)

lemma reads_lift: "x = Inr y \<Longrightarrow> reads (lift_result x) [] y"
  by (simp add: reads_def lift_result_def)

text \<open>The store after \<open>ts\<close> has been added to it.\<close>

definition with_entries :: "(str \<times> NoteEmbeddingEntry) list \<Rightarrow> EmbeddingStore \<Rightarrow> EmbeddingStore" where
  "with_entries ts st =
     st \<lparr> es_embeddings := es_embeddings st @ ts,
          es_encoded_entries_bytes := es_encoded_entries_bytes st + keyed_sum (\<lambda>p e. length (enc_entry p e)) ts,
          es_total_chunks := es_total_chunks st + keyed_sum (\<lambda>_ e. length (ne_chunks e)) ts \<rparr>"

text \<open>There is room for \<open>ts\<close> under every limit.\<close>

definition room_for :: "nat \<Rightarrow> (str \<times> NoteEmbeddingEntry) list \<Rightarrow> EmbeddingStore \<Rightarrow> bool" where
  "room_for h ts st \<longleftrightarrow>
     es_total_chunks st + keyed_sum (\<lambda>_ e. length (ne_chunks e)) ts \<le> MAX_CACHE_ENTRIES
     \<and> length (es_embeddings st) + length ts \<le> MAX_CACHE_ENTRIES
     \<and> es_encoded_entries_bytes st + keyed_sum (\<lambda>p e. length (enc_entry p e)) ts + h \<le> MAX_CACHE_BYTES
     \<and> distinct (map fst (es_embeddings st @ ts))"

lemma insert_fresh:
  assumes inv: "store_inv cd i st" and h: "cache_header_len cd i = Inr h" and ok: "entry_ok (es_dim st) p e"
    and room: "room_for h ((p, e) # ts) st"
  shows "insert_note cd p e st = Inr (with_entries [(p, e)] st)"
proof -
  have fresh: "map_of (es_embeddings st) p = None" using room by (auto simp: room_for_def map_of_eq_None_iff)
  have d: "es_dim st < 2 ^ 32" by (rule inv_dimension [OF inv])
  have id: "es_identity st = Some i" using inv by (simp add: store_inv_def)
  have lim: "es_total_chunks st + length (ne_chunks e) \<le> MAX_CACHE_ENTRIES" "length (es_embeddings st) + 1 \<le> MAX_CACHE_ENTRIES"
    "es_encoded_entries_bytes st + length (enc_entry p e) + h \<le> MAX_CACHE_BYTES"
    using room by (auto simp: room_for_def)
  have max: "MAX_CACHE_ENTRIES < usize_max" "MAX_CACHE_BYTES < usize_max"
    by (simp_all add: MAX_CACHE_BYTES_def MAX_CACHE_ENTRIES_def usize_max_def)
  have "encoded_entry_len p e = Inr (length (enc_entry p e))" using encoded_len_iff [OF ok d] lim(3) by simp
  moreover have "checked_add (es_total_chunks st) (length (ne_chunks e)) = Some (es_total_chunks st + length (ne_chunks e))"
    "checked_add (es_encoded_entries_bytes st) (length (enc_entry p e)) = Some (es_encoded_entries_bytes st + length (enc_entry p e))"
    using lim max by (simp_all add: checked_add_def)
  moreover have "\<not> MAX_CACHE_BYTES < sat_add (es_encoded_entries_bytes st + length (enc_entry p e)) h"
    using lim(3) by (simp add: sat_add_def)
  moreover have "to_str p = Some p" "validate_cache_path p = Inr p" "validate_note_entry e (es_dim st) = Inr ()"
    using ok by (auto simp: entry_ok_def to_str_def)
  ultimately show ?thesis
    using fresh id h lim unfolding insert_note_def with_entries_def
    by (simp add: update_fresh del: map_of_eq_None_iff)
qed

lemma reads_entries:
  "store_inv cd i st \<Longrightarrow> cache_header_len cd i = Inr h \<Longrightarrow> list_all (\<lambda>(p, e). entry_ok (es_dim st) p e) ts \<Longrightarrow>
   room_for h ts st \<Longrightarrow> reads (read_entries cd (length ts) st) (enc_entries ts) (with_entries ts st)"
proof (induction ts arbitrary: st)
  case Nil
  then show ?case by (simp add: reads_return enc_entries_def with_entries_def)
next
  case (Cons x ts)
  obtain p e where x: "x = (p, e)" by (cases x)
  let ?st = "with_entries [(p, e)] st"
  have ok: "entry_ok (es_dim st) p e" using Cons.prems(3) x by simp
  then have ok': "utf8 p" "validate_cache_path p = Inr p" "typed_entry e" "entry_valid (es_dim st) e"
    by (auto simp: entry_ok_def dest: validate_note_entry_valid)
  have d: "es_dim st < 2 ^ 32" by (rule inv_dimension [OF Cons.prems(1)])
  have ins: "insert_note cd p e st = Inr ?st"
    by (rule insert_fresh [OF Cons.prems(1,2) ok Cons.prems(4) [unfolded x]])
  have "reads (read_entries cd (length ts) ?st) (enc_entries ts) (with_entries ts ?st)"
  proof (rule Cons.IH [OF insert_inv [OF Cons.prems(1) ok'(3) ins] Cons.prems(2)])
    show "list_all (\<lambda>(p, e). entry_ok (es_dim ?st) p e) ts" using Cons.prems(3) by (simp add: with_entries_def)
    show "room_for h ts ?st" using Cons.prems(4) unfolding x by (auto simp: room_for_def with_entries_def)
  qed
  moreover have "with_entries ts ?st = with_entries (x # ts) st" by (simp add: with_entries_def x)
  ultimately have tail: "reads (read_entries cd (length ts) ?st) (enc_entries ts) (with_entries (x # ts) st)" by simp
  have path: "reads (read_string cd MAX_CACHE_PATH_BYTES) (enc_string p) p"
    using ok'(1,2) cache_path_short [OF ok'(2)]
    by (intro reads_string) (auto simp: validate_cache_path_def split: if_splits)
  have room: "es_total_chunks st + length (ne_chunks e) \<le> MAX_CACHE_ENTRIES"
    and fresh: "map_of (es_embeddings st) p = None"
    using Cons.prems(4) x by (auto simp: room_for_def map_of_eq_None_iff)
  note entry = reads_entry [OF ok'(3,4) d room]
  let ?k1 = "\<lambda>entry. read_bind (lift_result (insert_note cd p entry st)) (read_entries cd (length ts))"
  have b1: "reads (?k1 e) ([] @ enc_entries ts) (with_entries (x # ts) st)"
    by (rule reads_bind [OF reads_lift [OF ins]]) (rule tail)
  have b2: "reads (if map_of (es_embeddings st) p \<noteq> None
        then read_fail (cache_error (''embedding cache contains duplicate path '' @ quoted p))
        else read_bind (read_entry cd (es_dim st) (es_total_chunks st)) ?k1)
      (drop (length (enc_string p)) (enc_entry p e) @ [] @ enc_entries ts) (with_entries (x # ts) st)"
    using reads_bind [where f = ?k1, OF entry b1] fresh by (simp add: enc_entry_def del: map_of_eq_None_iff)
  have "reads (read_entries cd (length (x # ts)) st)
      (enc_string p @ [] @ (drop (length (enc_string p)) (enc_entry p e) @ [] @ enc_entries ts)) (with_entries (x # ts) st)"
    unfolding list.size add_Suc_right read_entries.simps
    by (simp only: add_0_right read_entries.simps) (rule reads_bind [OF path], rule reads_bind [OF reads_lift [OF ok'(2)]], rule b2)
  moreover have "enc_string p @ drop (length (enc_string p)) (enc_entry p e) = enc_entry p e" by (simp add: enc_entry_def)
  ultimately show ?case by (simp add: enc_entries_def x flip: append_assoc)
qed

lemma reads_u16: "v < 2 ^ 16 \<Longrightarrow> reads read_u16 (le_bytes 2 v) v"
  unfolding read_u16_def by (rule reads_map [OF reads_take]) (simp_all add: of_le_bytes_le_bytes)

lemma reads_bytes: "length s \<le> m \<Longrightarrow> length s < 2 ^ 32 \<Longrightarrow> reads (read_bytes m) (le_bytes 4 (length s) @ s) s"
  unfolding read_bytes_def by (rule reads_bind [OF reads_count reads_take]) simp_all

lemma decode_saved:
  assumes inv: "store_inv cd i st" and json: "cd_identity_json cd i = Inr json" "length json \<le> MAX_NOTE_METADATA_BYTES"
    and parse: "cd_identity_parse cd json = Inr i" and ex: "expected = None \<or> expected = Some i"
    and n: "length (es_embeddings st) \<le> max_entries" and bytes: "encode_cache cd st = Inr bytes"
  shows "decode_file cd (length bytes) bytes expected max_entries
    = Inr (st \<lparr> es_embeddings := sort_key fst (es_embeddings st) \<rparr>)"
proof -
  let ?t = "sort_key fst (es_embeddings st)" and ?n = "length (es_embeddings st)"
  let ?c = "es_first_pass_complete st"
  let ?st0 = "set_first_pass_complete ?c (new_with_identity i)"
  let ?st' = "st \<lparr> es_embeddings := ?t \<rparr>"
  note enc = encode_cache_bytes [OF inv json]
  from bytes enc have b: "bytes = enc_header json ?c ?n @ enc_entries ?t" "length bytes \<le> MAX_CACHE_BYTES" by simp_all
  have valid: "validate_space_identity i = Inr ()" using inv by (simp add: store_inv_def)
  have st0: "store_inv cd i ?st0" using start_inv [OF valid, of cd] by (simp add: set_first_pass_complete_def)
  have dim: "es_dim ?st0 = es_dim st" using inv by (simp add: store_inv_def set_first_pass_complete_def new_with_identity_def)
  have st': "with_entries ?t ?st0 = ?st'"
    using inv by (simp add: store_inv_def with_entries_def set_first_pass_complete_def new_with_identity_def EmbeddingStore_new_def)
  have hl: "cache_header_len cd i = Inr (header_len json)" using json by (auto simp: cache_header_len_iff)
  have dist: "distinct (map fst ?t)" using inv by (simp add: store_inv_def distinct_map)
  have "es_encoded_entries_bytes st + header_len json \<le> MAX_CACHE_BYTES" using inv hl by (simp add: store_inv_def)
  then have room: "room_for (header_len json) ?t ?st0"
    using inv dist by (simp add: room_for_def store_inv_def set_first_pass_complete_def new_with_identity_def EmbeddingStore_new_def)
  have all: "list_all (\<lambda>(p, e). entry_ok (es_dim ?st0) p e) ?t"
    using inv_entries [OF inv] unfolding dim by (auto simp: list_all_iff)
  have entries: "reads (read_entries cd ?n ?st0) (enc_entries ?t) ?st'"
    using reads_entries [OF st0 hl all room] unfolding st' by simp
  have small: "length json < 2 ^ 32" "?n < 2 ^ 32"
    using json(2) inv by (auto simp: MAX_NOTE_METADATA_BYTES_def store_inv_def MAX_CACHE_ENTRIES_def)
  have magic: "reads (read_take 8) CACHE_MAGIC CACHE_MAGIC" by (rule reads_take) (simp add: CACHE_MAGIC_def)
  have schema: "reads read_u16 (le_bytes 2 CACHE_SCHEMA_VERSION) CACHE_SCHEMA_VERSION"
    by (rule reads_u16) (simp add: CACHE_SCHEMA_VERSION_def)
  have ex': "\<not> (expected \<noteq> None \<and> expected \<noteq> Some i)" using ex by blast
  have "reads (decode_store cd expected max_entries)
      (CACHE_MAGIC @ le_bytes 2 CACHE_SCHEMA_VERSION @ (le_bytes 4 (length json) @ json) @ [] @ [] @ flag_byte ?c
        @ le_bytes 4 ?n @ enc_entries ?t) ?st'"
    unfolding decode_store_def
    apply (rule reads_bind [OF magic], simp only: simp_thms if_False)
    apply (rule reads_bind [OF schema], simp only: simp_thms if_False)
    apply (rule reads_bind [OF reads_bytes [OF json(2) small(1)]])
    apply (rule reads_bind [OF reads_lift], simp only: parse map_err.simps)
    apply (rule reads_bind [OF reads_lift [OF valid]])
    apply (simp only: ex' if_False)
    apply (rule reads_bind [OF reads_flag])
    apply (rule reads_bind [OF reads_count [OF n small(2)]])
    apply (rule entries)
    done
  then have "reads (decode_store cd expected max_entries) bytes ?st'" by (simp add: b(1) enc_header_def)
  then have "decode_store cd expected max_entries \<lparr> cr_input = bytes @ [], cr_remaining = length bytes + 0 \<rparr>
      = Inr (?st', \<lparr> cr_input = [], cr_remaining = 0 \<rparr>)"
    by (simp only: reads_def)
  then show ?thesis using b(2) by (simp add: decode_file_def)
qed

section \<open>Whatever a file contains\<close>

definition ensures :: "'a reader \<Rightarrow> ('a \<Rightarrow> bool) \<Rightarrow> bool" where
  "ensures m P \<longleftrightarrow> (\<forall>r x r'. m r = Inr (x, r') \<longrightarrow> P x)"

lemma ensures_bind: "ensures m P \<Longrightarrow> (\<And>x. P x \<Longrightarrow> ensures (f x) Q) \<Longrightarrow> ensures (read_bind m f) Q"
  unfolding ensures_def read_bind_def by (fastforce simp: result_simps)

lemma ensures_return: "P x \<Longrightarrow> ensures (read_return x) P"
  by (simp add: ensures_def read_return_def)

lemma ensures_fail: "ensures (read_fail e) P"
  by (simp add: ensures_def read_fail_def)

lemma ensures_lift: "(\<And>y. x = Inr y \<Longrightarrow> P y) \<Longrightarrow> ensures (lift_result x) P"
  by (auto simp: ensures_def lift_result_def result_simps)

lemma ensures_True: "ensures m (\<lambda>_. True)"
  by (simp add: ensures_def)

lemma ensures_take: "ensures (read_take n) (\<lambda>bs. length bs = n)"
  by (auto simp: ensures_def read_take_def split: if_splits)

lemma ensures_if: "(b \<Longrightarrow> ensures m P) \<Longrightarrow> (\<not> b \<Longrightarrow> ensures m' P) \<Longrightarrow> ensures (if b then m else m') P"
  by simp

lemma ensures_string: "ensures (read_string cd m) utf8"
  unfolding read_string_def
  by (intro ensures_bind [OF ensures_True] ensures_if ensures_return ensures_fail)

lemma ensures_count: "ensures (read_count m what) (\<lambda>n. n \<le> m)"
  unfolding read_count_def
  by (intro ensures_bind [OF ensures_True] ensures_if ensures_return ensures_fail) simp

lemma ensures_strings: "ensures (read_strings cd limit used n) (list_all utf8)"
proof (induction n arbitrary: used)
  case (Suc n)
  show ?case
    unfolding read_strings.simps
    by (intro ensures_bind [OF ensures_string] ensures_bind [OF Suc.IH] ensures_return) simp
qed (simp add: ensures_return)

lemma ensures_n: "ensures m P \<Longrightarrow> ensures (read_n m n) (list_all P)"
proof (induction n)
  case (Suc n)
  show ?case
    unfolding read_n.simps
    by (intro ensures_bind [OF Suc.prems] ensures_bind [OF Suc.IH [OF Suc.prems]] ensures_return) simp
qed (simp add: ensures_return)

lemma ensures_chunk: "ensures (read_chunk cd d title) typed_chunk"
proof -
  have k: "ensures (if b then read_bind (read_string cd MAX_CONTEXT_BYTES) (\<lambda>k. read_return (Some k)) else read_return None)
      (pred_option utf8)" for b
    by (intro ensures_if ensures_bind [OF ensures_string] ensures_return) simp_all
  show ?thesis
    unfolding read_chunk_def Let_def
    by (intro ensures_bind [OF ensures_take] ensures_bind [OF ensures_strings] ensures_bind [OF k]
        ensures_if ensures_fail ensures_return ensures_bind [OF ensures_True]) (simp add: typed_chunk_def)
qed

lemma ensures_entry: "ensures (read_entry cd d stored) typed_entry"
  unfolding read_entry_def
  by (intro ensures_bind [OF ensures_string] ensures_bind [OF ensures_strings] ensures_bind [OF ensures_n [OF ensures_chunk]]
      ensures_return ensures_bind [OF ensures_True]) (simp add: typed_entry_def)

lemma insert_length:
  assumes "map_of (es_embeddings st) p = None" and "insert_note cd p e st = Inr st'"
  shows "length (es_embeddings st') = Suc (length (es_embeddings st))"
  using assms by (auto simp: insert_note_def Let_def result_simps update_fresh simp del: map_of_eq_None_iff split: if_splits)

lemma ensures_entries:
  "store_reachable cd i st \<Longrightarrow>
   ensures (read_entries cd n st) (\<lambda>st'. store_reachable cd i st' \<and> length (es_embeddings st') = length (es_embeddings st) + n)"
proof (induction n arbitrary: st)
  case 0
  then show ?case by (simp add: ensures_return)
next
  case (Suc n)
  let ?Q = "\<lambda>st'. store_reachable cd i st' \<and> length (es_embeddings st') = length (es_embeddings st) + Suc n"
  have ins: "ensures (read_bind (lift_result (insert_note cd p e st)) (read_entries cd n)) ?Q"
    if "map_of (es_embeddings st) p = None" "typed_entry e" for p e
  proof (rule ensures_bind)
    show "ensures (lift_result (insert_note cd p e st))
        (\<lambda>st'. store_reachable cd i st' \<and> length (es_embeddings st') = Suc (length (es_embeddings st)))"
      using Suc.prems that by (intro ensures_lift) (auto intro: store_reachable.insert insert_length simp del: map_of_eq_None_iff)
    show "ensures (read_entries cd n st') ?Q"
      if "store_reachable cd i st' \<and> length (es_embeddings st') = Suc (length (es_embeddings st))" for st'
      using Suc.IH [of st'] that by simp
  qed
  show ?case
    unfolding read_entries.simps
    by (intro ensures_bind [OF ensures_True] ensures_if ensures_fail ensures_bind [OF ensures_entry] ins)
       (simp_all del: map_of_eq_None_iff)
qed

lemma decoded_reachable:
  assumes "decode_file cd sz content expected max_entries = Inr st"
  shows "\<exists>i. store_reachable cd i st \<and> (expected = None \<or> expected = Some i) \<and> length (es_embeddings st) \<le> max_entries"
proof -
  let ?Q = "\<lambda>st. \<exists>i. store_reachable cd i st \<and> (expected = None \<or> expected = Some i) \<and> length (es_embeddings st) \<le> max_entries"
  have entries: "ensures (read_entries cd n (set_first_pass_complete b (new_with_identity i))) ?Q"
    if "validate_space_identity i = Inr ()" "expected = None \<or> expected = Some i" "n \<le> max_entries" for n b i
  proof -
    have r: "store_reachable cd i (set_first_pass_complete b (new_with_identity i))"
      by (rule store_reachable.complete [OF store_reachable.start [OF that(1)]])
    have "es_embeddings (set_first_pass_complete b (new_with_identity i)) = []"
      by (simp add: set_first_pass_complete_def new_with_identity_def EmbeddingStore_new_def)
    with ensures_entries [OF r, of n] that(2,3) show ?thesis unfolding ensures_def by auto
  qed
  have valid: "ensures (lift_result (validate_space_identity i)) (\<lambda>_. validate_space_identity i = Inr ())" for i
    by (rule ensures_lift) simp
  have "ensures (decode_store cd expected max_entries) ?Q"
    unfolding decode_store_def
    by (intro ensures_bind [OF valid] ensures_bind [OF ensures_count] entries ensures_bind [OF ensures_True]
        ensures_if ensures_fail) auto
  with assms show ?thesis by (auto simp: decode_file_def ensures_def result_simps split: if_splits)
qed

section \<open>Properties\<close>

text \<open> Property C17. In every store a vector space can reach by inserting, removing and retaining notes, each
  entry is valid under its normalised path, the counters of chunks and encoded bytes are exactly the
  sums over the entries, and the limits on entries and chunks hold.\<close>

theorem store_accounting:
  assumes "store_reachable cd i st"
  shows "distinct (map fst (es_embeddings st))
    \<and> list_all (\<lambda>(p, e). validate_cache_path p = Inr p \<and> validate_note_entry e (si_dimension i) = Inr ()) (es_embeddings st)
    \<and> es_total_chunks st = sum_list (map (\<lambda>(p, e). length (ne_chunks e)) (es_embeddings st))
    \<and> sum_list (map (\<lambda>(p, e). projr (encoded_entry_len p e)) (es_embeddings st)) = es_encoded_entries_bytes st
    \<and> es_total_chunks st \<le> MAX_CACHE_ENTRIES \<and> length (es_embeddings st) \<le> MAX_CACHE_ENTRIES"
proof -
  have inv: "store_inv cd i st" by (rule reachable_store_inv [OF assms])
  have len: "projr (encoded_entry_len p e) = length (enc_entry p e)" if m: "(p, e) \<in> set (es_embeddings st)" for p e
  proof -
    have ok: "entry_ok (es_dim st) p e" using inv_entries [OF inv] m by (auto simp: list_all_iff)
    have "length (enc_entry p e) \<le> es_encoded_entries_bytes st"
      using m inv member_le_sum_list [of "length (enc_entry p e)" "map (\<lambda>(p, e). length (enc_entry p e)) (es_embeddings st)"]
      by (force simp: store_inv_def keyed_sum_def)
    moreover have "es_encoded_entries_bytes st \<le> MAX_CACHE_BYTES" using inv m by (auto simp: store_inv_def split: sum.splits)
    ultimately have "encoded_entry_len p e = Inr (length (enc_entry p e))"
      using encoded_len_iff [OF ok inv_dimension [OF inv]] by simp
    then show ?thesis by simp
  qed
  have "map (\<lambda>(p, e). projr (encoded_entry_len p e)) (es_embeddings st) = map (\<lambda>(p, e). length (enc_entry p e)) (es_embeddings st)"
    using len by auto
  then have "sum_list (map (\<lambda>(p, e). projr (encoded_entry_len p e)) (es_embeddings st)) = es_encoded_entries_bytes st"
    using inv by (simp only: store_inv_def keyed_sum_def)
  with inv inv_entries [OF inv] show ?thesis
    by (auto simp: store_inv_def keyed_sum_def entry_ok_def list_all_iff)
qed

text \<open> Property C6. Saving and loading are inverse: every reachable store whose identity has a JSON text is
  encoded, in at most 1 GiB, and decoding those bytes, for the same vector space or for any, gives back the
  same store, its entries in the order of their paths.\<close>

theorem cache_save_load:
  assumes "store_reachable cd i st" and "cd_identity_json cd i = Inr json" and "length json \<le> MAX_NOTE_METADATA_BYTES"
    and "cd_identity_parse cd json = Inr i" and "expected = None \<or> expected = Some i"
    and "length (es_embeddings st) \<le> max_entries"
  shows "\<exists>bytes entries. encode_cache cd st = Inr bytes \<and> length bytes \<le> 2 ^ 30
    \<and> decode_file cd (length bytes) bytes expected max_entries = Inr (st \<lparr> es_embeddings := entries \<rparr>)
    \<and> sorted (map fst entries) \<and> map_of entries = map_of (es_embeddings st)"
proof -
  have inv: "store_inv cd i st" by (rule reachable_store_inv [OF assms(1)])
  obtain bytes where b: "encode_cache cd st = Inr bytes" "length bytes \<le> MAX_CACHE_BYTES"
    using encode_cache_bytes [OF inv assms(2,3)] by simp
  have "map_of (sort_key fst (es_embeddings st)) = map_of (es_embeddings st)"
    using inv by (subst map_of_inject_set) (auto simp: store_inv_def distinct_map)
  moreover have "length bytes \<le> 2 ^ 30" using b(2) by (simp add: MAX_CACHE_BYTES_def)
  ultimately show ?thesis
    using b(1) decode_saved [OF inv assms(2-6) b(1)] by (intro exI [of _ bytes] exI [of _ "sort_key fst (es_embeddings st)"]) simp
qed

text \<open> Property C18. A cache file is never trusted: whatever its bytes, its reported size and the JSON it holds, a
  decoded store has a valid identity, the expected one if there is one, at most the entries allowed,
  and only entries that pass every check, under distinct normalised paths.\<close>

theorem decoded_store_valid:
  assumes "decode_file cd sz content expected max_entries = Inr st"
  shows "\<exists>i. es_identity st = Some i \<and> validate_space_identity i = Inr () \<and> es_dim st = si_dimension i
    \<and> (expected = None \<or> expected = Some i) \<and> length (es_embeddings st) \<le> max_entries
    \<and> distinct (map fst (es_embeddings st))
    \<and> list_all (\<lambda>(p, e). validate_cache_path p = Inr p \<and> validate_note_entry e (es_dim st) = Inr ()) (es_embeddings st)"
proof -
  obtain i where i: "store_reachable cd i st" "expected = None \<or> expected = Some i" "length (es_embeddings st) \<le> max_entries"
    using decoded_reachable [OF assms] by blast
  have inv: "store_inv cd i st" by (rule reachable_store_inv [OF i(1)])
  then have "es_identity st = Some i" "validate_space_identity i = Inr ()" "es_dim st = si_dimension i"
    "distinct (map fst (es_embeddings st))" unfolding store_inv_def by blast+
  with i inv_entries [OF inv] show ?thesis by (auto simp: entry_ok_def list_all_iff)
qed

definition sample_identity :: EmbeddingSpaceIdentity where
  "sample_identity = \<lparr> si_backend = Local, si_model = ''m'', si_endpoint = None, si_dimension = 1, si_input_version = 2,
     si_tokenizer = replicate 32 (CHR 0x00), si_max_input_tokens = 8, si_chunking_version = 1 \<rparr>"

definition sample_codec :: codec where
  "sample_codec = \<lparr> cd_identity_json = (\<lambda>_. Inr ''{}''), cd_identity_parse = (\<lambda>_. Inr sample_identity), cd_utf8_error = (\<lambda>_. []) \<rparr>"

definition sample_entry :: "str \<Rightarrow> NoteEmbeddingEntry" where
  "sample_entry title =
     \<lparr> ne_revision = replicate 64 (CHR ''0''), ne_source_bytes = 3, ne_body = \<lparr> start_byte = 0, end_byte = 3 \<rparr>,
       ne_title = title, ne_tags = [''t''],
       ne_chunks = [\<lparr> ce_hash = replicate 32 (CHR 0x07), ce_vector = [0x3F800000], ce_scope = NoteScope,
          ce_range = \<lparr> start_byte = 0, end_byte = 3 \<rparr>, ce_overlap = None, ce_headings = [], ce_section = None, ce_kind = None \<rparr>] \<rparr>"

definition sample_store :: EmbeddingStore where
  "sample_store =
     projr (try_bind (insert_note sample_codec ''b.md'' (sample_entry ''b'') (new_with_identity sample_identity))
       (insert_note sample_codec ''a.md'' (sample_entry ''a'')))"

lemma sample_header: "cache_header_len sample_codec sample_identity = Inr 21"
  by (simp add: cache_header_len_iff sample_codec_def header_len_def MAX_NOTE_METADATA_BYTES_def)

lemma sample_identity_valid: "validate_space_identity sample_identity = Inr ()"
  by code_simp

lemma sample_entries_ok: "entry_ok 1 ''a.md'' (sample_entry ''a'')" "entry_ok 1 ''b.md'' (sample_entry ''b'')"
proof -
  have u: "utf8 (replicate 64 (CHR ''0''))" "utf8 ''t''" "utf8 ''a''" "utf8 ''b''" "utf8 ''a.md''" "utf8 ''b.md''" by code_simp+
  have p: "validate_cache_path ''a.md'' = Inr ''a.md''" "validate_cache_path ''b.md'' = Inr ''b.md''" by code_simp+
  have v: "validate_note_entry (sample_entry ''a'') 1 = Inr ()" "validate_note_entry (sample_entry ''b'') 1 = Inr ()"
    by code_simp+
  have t: "typed_entry (sample_entry x)" if "utf8 x" for x
    unfolding typed_entry_def typed_chunk_def sample_entry_def by (simp add: u that del: utf8.simps)
  show "entry_ok 1 ''a.md'' (sample_entry ''a'')" "entry_ok 1 ''b.md'' (sample_entry ''b'')"
    unfolding entry_ok_def by (intro conjI u p v t)+
qed

lemma sample_entry_len: "length (enc_entry p (sample_entry t)) = 157 + length p + length t"
  by (simp add: enc_entry_def enc_string_def enc_range_def enc_chunk_def enc_optional_range_def sample_entry_def flag_byte_def)

lemma sample_reachable:
  "store_reachable sample_codec sample_identity sample_store"
  "es_embeddings sample_store = [(''b.md'', sample_entry ''b''), (''a.md'', sample_entry ''a'')]"
proof -
  let ?s0 = "new_with_identity sample_identity"
  let ?s1 = "with_entries [(''b.md'', sample_entry ''b'')] ?s0"
  have r0: "store_reachable sample_codec sample_identity ?s0" by (rule store_reachable.start [OF sample_identity_valid])
  have s0: "es_embeddings ?s0 = []" "es_encoded_entries_bytes ?s0 = 0" "es_total_chunks ?s0 = 0" "es_dim ?s0 = 1"
    by (simp_all add: new_with_identity_def EmbeddingStore_new_def sample_identity_def)
  have chunks: "length (ne_chunks (sample_entry t)) = 1" for t by (simp add: sample_entry_def)
  note limits = MAX_CACHE_ENTRIES_def MAX_CACHE_BYTES_def
  have i1: "insert_note sample_codec ''b.md'' (sample_entry ''b'') ?s0 = Inr ?s1"
    by (rule insert_fresh [where ts = "[]", OF reachable_store_inv [OF r0] sample_header])
       (simp_all only: s0 sample_entries_ok, simp add: room_for_def s0 sample_entry_len chunks limits)
  have typed: "typed_entry (sample_entry ''b'')" "typed_entry (sample_entry ''a'')"
    using sample_entries_ok by (auto simp: entry_ok_def)
  note r1 = store_reachable.insert [OF r0 typed(1) i1]
  have d1: "es_dim ?s1 = 1" by (simp add: with_entries_def s0)
  have i2: "insert_note sample_codec ''a.md'' (sample_entry ''a'') ?s1 = Inr (with_entries [(''a.md'', sample_entry ''a'')] ?s1)"
    by (rule insert_fresh [where ts = "[]", OF reachable_store_inv [OF r1] sample_header])
       (simp_all only: d1 sample_entries_ok, simp add: room_for_def with_entries_def s0 sample_entry_len chunks limits)
  have st: "sample_store = with_entries [(''a.md'', sample_entry ''a'')] ?s1" by (simp add: sample_store_def i1 i2)
  show "store_reachable sample_codec sample_identity sample_store"
    unfolding st by (rule store_reachable.insert [OF r1 typed(2) i2])
  show "es_embeddings sample_store = [(''b.md'', sample_entry ''b''), (''a.md'', sample_entry ''a'')]"
    by (simp add: st with_entries_def s0)
qed

lemma sample_json: "cd_identity_json sample_codec sample_identity = Inr ''{}''" "length ''{}'' \<le> MAX_NOTE_METADATA_BYTES"
  "cd_identity_parse sample_codec ''{}'' = Inr sample_identity"
  by (simp_all add: sample_codec_def MAX_NOTE_METADATA_BYTES_def)

theorem store_accounting_witness:
  "map fst (es_embeddings sample_store) = [''b.md'', ''a.md''] \<and> es_total_chunks sample_store = 2"
  using store_accounting [OF sample_reachable(1)] sample_reachable(2) by (simp add: sample_entry_def)

theorem cache_save_load_witness:
  "\<exists>bytes entries. encode_cache sample_codec sample_store = Inr bytes
    \<and> decode_file sample_codec (length bytes) bytes None 2 = Inr (sample_store \<lparr> es_embeddings := entries \<rparr>)
    \<and> map_of entries ''b.md'' = Some (sample_entry ''b'')"
proof -
  have two: "length (es_embeddings sample_store) \<le> 2" by (simp add: sample_reachable)
  have b: "map_of (es_embeddings sample_store) ''b.md'' = Some (sample_entry ''b'')" by (simp add: sample_reachable)
  from cache_save_load [OF sample_reachable(1) sample_json _ two, of None] obtain bytes entries where
    e: "encode_cache sample_codec sample_store = Inr bytes"
    "decode_file sample_codec (length bytes) bytes None 2 = Inr (sample_store \<lparr> es_embeddings := entries \<rparr>)"
    "map_of entries = map_of (es_embeddings sample_store)" by blast
  show ?thesis using e(1,2) b unfolding e(3) [symmetric] by (intro exI conjI)
qed

theorem decoded_store_valid_witness:
  "\<exists>bytes st. decode_file sample_codec (length bytes) bytes (Some sample_identity) 2 = Inr st
    \<and> length (es_embeddings st) = 2 \<and> es_identity st = Some sample_identity
    \<and> validate_space_identity sample_identity = Inr ()"
proof -
  have two: "length (es_embeddings sample_store) \<le> 2" by (simp add: sample_reachable)
  note inv = reachable_store_inv [OF sample_reachable(1)]
  obtain bytes where b: "encode_cache sample_codec sample_store = Inr bytes"
    using encode_cache_bytes [OF inv sample_json(1,2)] by blast
  note d = decode_saved [OF inv sample_json _ two b, of "Some sample_identity", simplified]
  obtain i where i: "es_identity (sample_store \<lparr> es_embeddings := sort_key fst (es_embeddings sample_store) \<rparr>) = Some i"
    "Some sample_identity = None \<or> Some sample_identity = Some i" "validate_space_identity i = Inr ()"
    using decoded_store_valid [OF d] by blast
  show ?thesis
    by (intro exI [of _ bytes] exI [of _ "sample_store \<lparr> es_embeddings := sort_key fst (es_embeddings sample_store) \<rparr>"] conjI)
       (use d i in \<open>auto simp: sample_reachable\<close>)
qed

section \<open>The store as a table of entries\<close>

text \<open>
  What the users of a store of entries rely on: an insertion sets one path and a removal clears one,
  and says whether there was an entry.
\<close>

locale entry_table =
  fixes lookup :: "'st \<Rightarrow> str \<Rightarrow> 'e option"
    and insert_entry :: "str \<Rightarrow> 'e \<Rightarrow> 'st \<Rightarrow> 'st vault_result"
    and remove_entry :: "str \<Rightarrow> 'st \<Rightarrow> (bool \<times> 'st) vault_result"
  assumes insert_lookup: "insert_entry p e st = Inr st' \<Longrightarrow> lookup st' = (lookup st)(p := Some e)"
    and remove_lookup: "remove_entry p st = Inr (b, st') \<Longrightarrow> lookup st' = (lookup st)(p := None) \<and> (b \<longleftrightarrow> lookup st p \<noteq> None)"
begin

lemma insert_only: "insert_entry p e st = Inr st' \<Longrightarrow> lookup st' q \<noteq> lookup st q \<Longrightarrow> q = p"
  by (drule insert_lookup) (auto split: if_splits)

lemma remove_only: "remove_entry p st = Inr (b, st') \<Longrightarrow> lookup st' q \<noteq> lookup st q \<Longrightarrow> q = p"
  by (drule remove_lookup) (auto split: if_splits)

lemma remove_again:
  "remove_entry p st = Inr (b, st') \<Longrightarrow> remove_entry p st' = Inr (b', st'') \<Longrightarrow> \<not> b' \<and> lookup st'' = lookup st'"
  by (drule remove_lookup, drule remove_lookup) auto

end

interpretation embeddings: entry_table "\<lambda>st. map_of (es_embeddings st)" "insert_note cd" store_remove for cd
proof (unfold_locales, goal_cases)
  case (1 p e st st')
  then show ?case by (auto simp: insert_note_def result_simps Let_def AList.update_conv' split: if_splits)
next
  case (2 p st b st')
  then show ?case by (auto simp: store_remove_def result_simps AList.delete_conv' split: option.splits)
qed

end
