(* ===== verification/Runtime.thy ===== *)
theory Runtime
  imports IndexQueries ChunkNote CacheStore
begin

text \<open>
  The state of the embedding runtime and the operations on it (src/src/vault/embedding_runtime.rs).

  Each operation of the source takes the lock of the state once and is one function here; what it
  sees of the outside is a \<open>Moment\<close>, the time and the identity failure of a remote source. The
  runtime's tables are association lists, a time is a number of nanoseconds. Whether the state
  publishes a model and a store is a flag; the store itself is the cell the coordinator works on and
  an argument of the operations that use it. Logging and the waking of waiters are left out.

  \<open>rs_submitted\<close> and \<open>rs_finished\<close> are history variables: the generations handed out and the
  generations recorded as done, newest first. No operation reads them.
\<close>

section \<open>Error messages\<close>

fun outcome_debug :: "mutation_outcome \<Rightarrow> str" where
  "outcome_debug NotDispatched = ''NotDispatched''"
| "outcome_debug NotCommitted = ''NotCommitted''"
| "outcome_debug Committed = ''Committed''"
| "outcome_debug UnknownOutcome = ''Unknown''"

definition show_int :: "int \<Rightarrow> str" where
  "show_int i = (if i < 0 then ''-'' else []) @ show_nat (nat \<bar>i\<bar>)"

text \<open>The display of an error; \<open>io_text\<close> is the one of an \<^verbatim>\<open>io::Error\<close>. Paths are UTF-8.\<close>

fun error_text :: "(io_kind \<Rightarrow> int option \<Rightarrow> str) \<Rightarrow> vault_error \<Rightarrow> str" where
  "error_text io (Storage op p k m oc) =
     ''Storage '' @ op @ '' failed for '' @ p @ '': '' @ m @ '' (outcome: '' @ outcome_debug oc @ '')''"
| "error_text io (NoteNotFound p) = ''Note not found: '' @ p"
| "error_text io (DirectoryNotFound p) = ''Directory not found: '' @ p"
| "error_text io (InvalidPath m) = ''Invalid path: '' @ m"
| "error_text io (InvalidSourceRange m) = ''Invalid source range: '' @ m"
| "error_text io (SourceChanged p _ _) = ''Note changed since the requested revision: '' @ p"
| "error_text io (SemanticResourceLimit r a l) =
     ''Semantic resource limit exceeded for '' @ r @ '': '' @ show_nat a @ '' (maximum '' @ show_nat l @ '')''"
| "error_text io (EmbeddingInputTooLong a l) =
     ''Embedding input has '' @ show_nat a @ '' tokens (maximum '' @ show_nat l @ '')''"
| "error_text io (EmbeddingConfiguration m) = ''Embedding configuration error: '' @ m"
| "error_text io (EmbeddingCacheIncompatible m) = ''Embedding cache requires rebuilding: '' @ m"
| "error_text io (EmbeddingRequest m _ _) = ''Embedding request failed: '' @ m"
| "error_text io (FrontmatterParse p m) = ''Frontmatter parse error in '' @ p @ '': '' @ m"
| "error_text io (InvalidFrontmatter p a) =
     ''Invalid frontmatter for '' @ p @ '': expected a JSON object, got '' @ a"
| "error_text io (Io k c) = ''IO error: '' @ io k c"
| "error_text io (AlreadyExists p) = ''File already exists: '' @ p"
| "error_text io (PatchTargetNotFound p ty t) =
     ''Patch target not found: '' @ ty @ '' '' @ quoted t @ '' in '' @ p"
| "error_text io (OutsideVault p) = ''Invalid vault path: '' @ p @ '' is outside vault root''"
| "error_text io (InvalidRegex p m) = ''Invalid regex pattern '' @ quoted p @ '': '' @ m"
| "error_text io (InvalidDateFormat f m) =
     ''Invalid date format '' @ quoted f @ '' for a date without a time: '' @ m"
| "error_text io (Watcher m) = ''Watcher error: '' @ m"
| "error_text io (Tantivy m) = ''Tantivy index error: '' @ m"
| "error_text io (Embedding m) = ''Embedding error: '' @ m"
| "error_text io (DaemonIpc m) = ''Daemon IPC error: '' @ m"
| "error_text io (DaemonProtocol m) = ''Daemon protocol error: '' @ m"
| "error_text io (DaemonUnavailable m) = ''Daemon unavailable: '' @ m"
| "error_text io (DaemonRpc c m) = ''Daemon RPC error ('' @ show_int c @ ''): '' @ m"
| "error_text io (DaemonTimeout op t) = ''Daemon request timed out after '' @ show_nat t @ ''ms: '' @ op"
| "error_text io (DaemonBootstrap m) = ''Daemon bootstrap error: '' @ m"
| "error_text io (Other m) = m"

section \<open>State\<close>

definition seconds :: "nat \<Rightarrow> nat" where "seconds n = n * 10 ^ 9"

definition MAX_DIRTY_INTERVAL :: nat where "MAX_DIRTY_INTERVAL = seconds 2"
definition MAX_RETRY_DELAY :: nat where "MAX_RETRY_DELAY = seconds 30"
definition MAX_STAGING_BYTES :: nat where "MAX_STAGING_BYTES = 64 * 1024 * 1024"

datatype EmbeddingPhase = WarmingPhase | Ready | Degraded

record EmbeddingRuntimeStatus =
  us_phase :: EmbeddingPhase
  us_queryable :: bool
  us_indexed_notes :: nat
  us_total_notes :: nat
  us_pending_notes :: nat
  us_last_error :: "str option"

record PendingWork =
  w_path :: str
  w_generation :: nat
  w_kind :: PendingKind
  w_attempt :: nat
  w_not_before :: nat

record StagedNote =
  d_work :: PendingWork
  d_prepared :: PreparedNote
  d_vectors :: "f32 list option list"
  d_hash_order :: "nat list"
  d_memory_bytes :: nat
  d_last_used :: nat

record RuntimeState =
  rs_next_generation :: nat
  rs_pending :: "PendingWork table"
  rs_inflight :: "(nat \<times> PendingKind) table"
  rs_batch_started_at :: "nat option"
  rs_initial_remaining :: "str set"
  rs_initial_started :: bool
  rs_reconciliation_complete :: bool
  rs_failures :: "str table"
  rs_persistence_error :: "str option"
  rs_cache_error :: "str option"
  rs_staged :: "StagedNote table"
  rs_model :: bool
  rs_store :: bool
  rs_store_queryable :: bool
  rs_status :: EmbeddingRuntimeStatus
  rs_submitted :: "nat table"
  rs_finished :: "(str \<times> nat) list"

record Runtime =
  rt_state :: RuntimeState
  rt_live :: bool
  rt_active :: bool
  rt_first_load_error :: "str option"

text \<open>
  What the runtime is built with: the kind of source, the batch size, the embedding model and the
  parameters of preparation and cache, and the sizes of the target. \<open>rc_chunk_capacity\<close> is the
  capacity of a prepared note's chunk vector.
\<close>

record RuntimeConfig =
  rc_remote :: bool
  rc_batch_size :: nat
  rc_identity :: EmbeddingSpaceIdentity
  rc_codec :: codec
  rc_deps :: deps
  rc_preparation :: Preparation
  rc_source_tags :: "str \<Rightarrow> nat \<Rightarrow> nat \<Rightarrow> (str list \<times> nat) vault_result"
  rc_chunk_capacity :: "PreparedNote \<Rightarrow> nat"
  rc_draft_size :: nat
  rc_io_text :: "io_kind \<Rightarrow> int option \<Rightarrow> str"

record Moment =
  m_now :: nat
  m_identity_changed :: "str option"

definition error_to_string :: "RuntimeConfig \<Rightarrow> vault_error \<Rightarrow> str" where
  "error_to_string cfg e = error_text (rc_io_text cfg) e"

text \<open>\<^verbatim>\<open>Instant::checked_add\<close>: on Unix an instant counts seconds in 64 bits.\<close>

definition instant_add :: "nat \<Rightarrow> nat \<Rightarrow> nat option" where
  "instant_add t d = (if t + d < seconds (2 ^ 63) then Some (t + d) else None)"

section \<open>Generations and counts\<close>

definition next_generation :: "RuntimeState \<Rightarrow> nat \<times> RuntimeState" where
  "next_generation st =
     (let g = wrap_add (rs_next_generation st) 1; g = (if g = 0 then 1 else g)
      in (g, st \<lparr> rs_next_generation := g \<rparr>))"

definition state_generation :: "RuntimeState \<Rightarrow> str \<Rightarrow> nat option" where
  "state_generation st p =
     (case map_of (rs_pending st) p of
        Some w \<Rightarrow> Some (w_generation w)
      | None \<Rightarrow> map_option fst (map_of (rs_inflight st) p))"

definition distinct_pending_count :: "RuntimeState \<Rightarrow> nat" where
  "distinct_pending_count st = length (remdups (map fst (rs_pending st) @ map fst (rs_inflight st)))"

definition update_pending_status :: "RuntimeState \<Rightarrow> RuntimeState" where
  "update_pending_status st =
     (let n = distinct_pending_count st; us = (rs_status st) \<lparr> us_pending_notes := n \<rparr>
      in st \<lparr> rs_status :=
           (if 0 < n \<and> us_last_error us = None \<and> us_phase us = Ready
            then us \<lparr> us_phase := WarmingPhase \<rparr> else us) \<rparr>)"

definition replace_status :: "EmbeddingRuntimeStatus \<Rightarrow> RuntimeState \<Rightarrow> RuntimeState" where
  "replace_status us st = st \<lparr> rs_status := us \<rparr>"

text \<open>The next generation of a path becomes its pending work.\<close>

definition enqueue :: "nat \<Rightarrow> str \<Rightarrow> PendingKind \<Rightarrow> RuntimeState \<Rightarrow> RuntimeState" where
  "enqueue now p kind st0 =
     (let (g, st) = next_generation st0;
          w = \<lparr> w_path = p, w_generation = g, w_kind = kind, w_attempt = 0, w_not_before = now \<rparr>
      in st \<lparr> rs_pending := AList.update p w (rs_pending st), rs_submitted := (p, g) # rs_submitted st \<rparr>)"

section \<open>Liveness of the source\<close>

definition record_terminal_failure_message :: "str \<Rightarrow> nat \<Rightarrow> Runtime \<Rightarrow> Runtime" where
  "record_terminal_failure_message message n rt =
     (let st = (rt_state rt) \<lparr> rs_model := False, rs_store := False, rs_store_queryable := False \<rparr>;
          us = \<lparr> us_phase = Degraded, us_queryable = False, us_indexed_notes = 0, us_total_notes = n,
                 us_pending_notes = distinct_pending_count st, us_last_error = Some message \<rparr>
      in rt \<lparr> rt_first_load_error := (case rt_first_load_error rt of None \<Rightarrow> Some message | Some m \<Rightarrow> Some m),
              rt_state := replace_status us st \<rparr>)"

definition current_paths :: "'s VaultIndex \<Rightarrow> str list" where
  "current_paths ix = map fst (notes ix)"

definition record_terminal_failure :: "RuntimeConfig \<Rightarrow> 's VaultIndex \<Rightarrow> vault_error \<Rightarrow> Runtime \<Rightarrow> Runtime" where
  "record_terminal_failure cfg ix e rt =
     record_terminal_failure_message (error_to_string cfg e) (length (current_paths ix)) rt"

definition source_is_live :: "RuntimeConfig \<Rightarrow> Moment \<Rightarrow> Runtime \<Rightarrow> bool \<times> Runtime" where
  "source_is_live cfg m rt =
     (if \<not> rc_remote cfg then (rt_live rt, rt)
      else case m_identity_changed m of
          None \<Rightarrow> (rt_live rt, rt)
        | Some message \<Rightarrow>
            (False, record_terminal_failure_message message (us_total_notes (rs_status (rt_state rt)))
                      (rt \<lparr> rt_live := False \<rparr>)))"

text \<open>An operation on a runtime that answers \<open>r\<close> when its source is no longer live.\<close>

definition if_live :: "RuntimeConfig \<Rightarrow> Moment \<Rightarrow> 'r \<Rightarrow> (Runtime \<Rightarrow> 'r \<times> Runtime) \<Rightarrow> Runtime \<Rightarrow> 'r \<times> Runtime" where
  "if_live cfg m r f rt = (let (live, rt) = source_is_live cfg m rt in if live then f rt else (r, rt))"

definition retire :: "Runtime \<Rightarrow> Runtime" where
  "retire rt = rt \<lparr> rt_live := False \<rparr>"

definition activate :: "RuntimeConfig \<Rightarrow> Moment \<Rightarrow> Runtime \<Rightarrow> bool \<times> Runtime" where
  "activate cfg m = if_live cfg m False (\<lambda>rt. (\<not> rt_active rt, rt \<lparr> rt_active := True \<rparr>))"

section \<open>Submitting and asking\<close>

definition normalize_intent_path :: "RuntimeConfig \<Rightarrow> str \<Rightarrow> str vault_result" where
  "normalize_intent_path cfg path =
     (if \<not> rc_remote cfg then normalize_relative path
      else try_bind (ok_or (InvalidPath ''vault-relative paths must be UTF-8'') (to_str path)) VaultPath_parse)"

definition submit :: "RuntimeConfig \<Rightarrow> Moment \<Rightarrow> str \<Rightarrow> PendingKind \<Rightarrow> Runtime \<Rightarrow> Runtime" where
  "submit cfg m path kind rt =
     snd (if_live cfg m () (\<lambda>rt. ((), case normalize_intent_path cfg path of
         Inl e \<Rightarrow> rt
       | Inr p \<Rightarrow>
           if p = [] then rt
           else let st = rt_state rt;
                    st = st \<lparr> rs_staged := AList.delete p (rs_staged st),
                              rs_failures := AList.delete p (rs_failures st) \<rparr>
                in rt \<lparr> rt_state := update_pending_status (enqueue (m_now m) p kind st) \<rparr>)) rt)"

definition store_note :: "str \<Rightarrow> EmbeddingStore \<Rightarrow> NoteEmbeddingEntry option" where
  "store_note p store = map_of (es_embeddings store) p"

definition store_get :: "str \<Rightarrow> EmbeddingStore \<Rightarrow> f32 list option" where
  "store_get p store =
     (case store_note p store of
        None \<Rightarrow> None
      | Some e \<Rightarrow> (case ne_chunks e of [] \<Rightarrow> None | c # _ \<Rightarrow> Some (ce_vector c)))"

text \<open>The store \<^verbatim>\<open>state.store\<close> publishes, if it does.\<close>

definition published_store :: "EmbeddingStore \<Rightarrow> RuntimeState \<Rightarrow> EmbeddingStore option" where
  "published_store store st = (if rs_store st then Some store else None)"

definition note_kind :: "PendingKind \<Rightarrow> bool" where
  "note_kind k \<longleftrightarrow> k = Upsert \<or> k = AwaitingLexical"

definition current_note_work :: "RuntimeState \<Rightarrow> str \<Rightarrow> bool" where
  "current_note_work st p \<longleftrightarrow>
     (let current = state_generation st p; note_work = (\<lambda>g k. current = Some g \<and> note_kind k) in
      (case map_of (rs_pending st) p of None \<Rightarrow> False | Some w \<Rightarrow> note_work (w_generation w) (w_kind w))
      \<or> (case map_of (rs_inflight st) p of None \<Rightarrow> False | Some (g, k) \<Rightarrow> note_work g k)
      \<or> (case map_of (rs_staged st) p of
           None \<Rightarrow> False | Some d \<Rightarrow> note_work (w_generation (d_work d)) (w_kind (d_work d))))"

definition removing :: "RuntimeState \<Rightarrow> str \<Rightarrow> bool" where
  "removing st p \<longleftrightarrow>
     (case map_of (rs_pending st) p of None \<Rightarrow> False | Some w \<Rightarrow> w_kind w = Remove)
     \<or> (case map_of (rs_inflight st) p of
          None \<Rightarrow> False | Some (g, k) \<Rightarrow> state_generation st p = Some g \<and> k = Remove)"

definition has_current_or_pending ::
  "RuntimeConfig \<Rightarrow> Moment \<Rightarrow> EmbeddingStore \<Rightarrow> str \<Rightarrow> str \<Rightarrow> Runtime \<Rightarrow> bool \<times> Runtime" where
  "has_current_or_pending cfg m store path revision =
     if_live cfg m False (\<lambda>rt.
       (let st = rt_state rt in
        case normalize_intent_path cfg path of
          Inl e \<Rightarrow> False
        | Inr p \<Rightarrow>
            if removing st p then False
            else if current_note_work st p then True
            else case published_store store st of
                None \<Rightarrow> False
              | Some s \<Rightarrow> (case store_note p s of None \<Rightarrow> False | Some e \<Rightarrow> ne_revision e = revision), rt))"

definition indexed_count :: "EmbeddingStore \<Rightarrow> str list \<Rightarrow> nat" where
  "indexed_count store ps = length (filter (\<lambda>p. store_get p store \<noteq> None) ps)"

definition status_for_loaded_state :: "RuntimeState \<Rightarrow> nat \<Rightarrow> nat \<Rightarrow> EmbeddingRuntimeStatus" where
  "status_for_loaded_state st total_count indexed =
     (let waiting = distinct_pending_count st;
          err = (case rs_persistence_error st of
              Some e \<Rightarrow> Some e
            | None \<Rightarrow> (case rs_cache_error st of
                Some e \<Rightarrow> Some e
              | None \<Rightarrow> (case rs_failures st of [] \<Rightarrow> None | (_, e) # _ \<Rightarrow> Some e)));
          phase = (if err \<noteq> None then Degraded
                   else if \<not> rs_reconciliation_complete st \<or> 0 < waiting then WarmingPhase else Ready)
      in \<lparr> us_phase = phase, us_queryable = (rs_store_queryable st \<and> rs_model st \<and> rs_store st),
           us_indexed_notes = indexed, us_total_notes = total_count, us_pending_notes = waiting,
           us_last_error = err \<rparr>)"

definition status_for_current_paths :: "EmbeddingStore \<Rightarrow> RuntimeState \<Rightarrow> str list \<Rightarrow> EmbeddingRuntimeStatus" where
  "status_for_current_paths store st ps =
     (if \<not> rs_model st
      then (rs_status st) \<lparr> us_indexed_notes := 0, us_total_notes := length ps,
                            us_pending_notes := distinct_pending_count st \<rparr>
      else status_for_loaded_state st (length ps)
             (case published_store store st of None \<Rightarrow> 0 | Some s \<Rightarrow> indexed_count s ps))"

definition runtime_status ::
  "RuntimeConfig \<Rightarrow> Moment \<Rightarrow> 's VaultIndex \<Rightarrow> EmbeddingStore \<Rightarrow> Runtime \<Rightarrow> EmbeddingRuntimeStatus \<times> Runtime" where
  "runtime_status cfg m ix store rt =
     (let (live, rt) = source_is_live cfg m rt;
          us = status_for_current_paths store (rt_state rt) (current_paths ix)
      in (if live then us else us \<lparr> us_queryable := False \<rparr>, rt))"

definition not_ready_message :: "EmbeddingRuntimeStatus \<Rightarrow> str" where
  "not_ready_message us =
     ''semantic embeddings are not ready ('' @ show_nat (us_indexed_notes us) @ ''/'' @ show_nat (us_total_notes us)
     @ '', '' @ show_nat (us_pending_notes us) @ '' pending): ''
     @ (case us_last_error us of Some e \<Rightarrow> e | None \<Rightarrow> ''embedding runtime is warming up'')"

text \<open>A snapshot shares the store, so it is the store as it is when the snapshot is used.\<close>

definition query_snapshot ::
  "RuntimeConfig \<Rightarrow> Moment \<Rightarrow> 's VaultIndex \<Rightarrow> EmbeddingStore \<Rightarrow> Runtime \<Rightarrow> EmbeddingStore vault_result \<times> Runtime" where
  "query_snapshot cfg m ix store rt0 =
     (let (live, rt) = source_is_live cfg m rt0; st = rt_state rt in
      (if \<not> live
       then Inl (Embedding (case us_last_error (rs_status st) of Some e \<Rightarrow> e | None \<Rightarrow> ''embedding runtime has stopped''))
       else if rs_model st \<and> rs_store st \<and> rs_store_queryable st then Inr store
       else Inl (Embedding (not_ready_message (status_for_current_paths store st (current_paths ix)))), rt))"

definition capture_entries :: "str set \<Rightarrow> EmbeddingStore \<Rightarrow> NoteEmbeddingEntry table" where
  "capture_entries allowed store = filter (\<lambda>(p, _). p \<in> allowed) (es_embeddings store)"

definition validate_query :: "RuntimeConfig \<Rightarrow> str \<Rightarrow> unit vault_result" where
  "validate_query cfg query =
     try_bind (pr_count (rc_preparation cfg) query) (\<lambda>tokens.
       if pr_max_tokens (rc_preparation cfg) < tokens
       then Inl (EmbeddingInputTooLong tokens (pr_max_tokens (rc_preparation cfg))) else Inr ())"

section \<open>Taking a batch\<close>

definition runnable :: "nat \<Rightarrow> PendingWork \<Rightarrow> bool" where
  "runnable now w \<longleftrightarrow> w_kind w \<noteq> AwaitingLexical \<and> w_not_before w \<le> now"

text \<open>Removals first, then by generation and path: three stable sorts, the least significant key first.\<close>

definition due_order :: "PendingWork table \<Rightarrow> PendingWork table" where
  "due_order t =
     sort_key (\<lambda>(_, w). if w_kind w = Upsert then 1 else 0 :: nat)
       (sort_key (\<lambda>(_, w). w_generation w) (sort_key fst t))"

fun take_each :: "str list \<Rightarrow> RuntimeState \<Rightarrow> PendingWork list \<times> RuntimeState" where
  "take_each [] st = ([], st)"
| "take_each (p # ps) st =
     (case map_of (rs_pending st) p of
        None \<Rightarrow> take_each ps st
      | Some w \<Rightarrow>
          let (ws, st') = take_each ps (st \<lparr> rs_pending := AList.delete p (rs_pending st),
                rs_inflight := AList.update p (w_generation w, w_kind w) (rs_inflight st) \<rparr>)
          in (w # ws, st'))"

fun minimum :: "nat list \<Rightarrow> nat option" where
  "minimum [] = None"
| "minimum (x # xs) = Some (case minimum xs of None \<Rightarrow> x | Some y \<Rightarrow> min x y)"

definition take_due_batch ::
  "RuntimeConfig \<Rightarrow> nat \<Rightarrow> RuntimeState \<Rightarrow> (PendingWork list \<times> nat option \<times> bool) \<times> RuntimeState" where
  "take_due_batch cfg now st0 =
     (let due = take (rc_batch_size cfg) (due_order (filter (\<lambda>(_, w). runnable now w) (rs_pending st0)));
          (batch, st) = take_each (map fst due) st0;
          next_pending = minimum (map (w_not_before \<circ> snd) (filter (\<lambda>(_, w). w_kind w \<noteq> AwaitingLexical) (rs_pending st)));
          pending_empty = (rs_pending st = [] \<and> rs_inflight st = []);
          st = st \<lparr> rs_batch_started_at := (if batch \<noteq> [] then Some now else None) \<rparr>
      in ((batch, next_pending, pending_empty), update_pending_status st))"

definition due_observation_paths :: "nat \<Rightarrow> RuntimeState \<Rightarrow> PendingWork list \<Rightarrow> nat table" where
  "due_observation_paths now st batch =
     fold (\<lambda>w. AList.update (w_path w) (w_generation w))
       (filter (\<lambda>w. w_kind w = Upsert \<and> w_not_before w \<le> now) (map snd (rs_pending st) @ batch)) []"

text \<open>One observation of the source: the generations it covers and its error, if it failed.\<close>

record ObservationPass =
  op_generations :: "nat table"
  op_failed :: "vault_error option"

definition pass_contains :: "PendingWork list \<Rightarrow> ObservationPass \<Rightarrow> bool" where
  "pass_contains batch pass \<longleftrightarrow>
     list_all (\<lambda>w. w_kind w = Remove \<or> map_of (op_generations pass) (w_path w) = Some (w_generation w)) batch"

definition pass_consume :: "PendingWork list \<Rightarrow> ObservationPass \<Rightarrow> ObservationPass" where
  "pass_consume batch pass =
     pass \<lparr> op_generations := fold (\<lambda>w t.
        if map_of t (w_path w) = Some (w_generation w) then AList.delete (w_path w) t else t) batch (op_generations pass) \<rparr>"

section \<open>Giving work back\<close>

definition drop_inflight :: "PendingWork \<Rightarrow> RuntimeState \<Rightarrow> RuntimeState" where
  "drop_inflight w st =
     (if map_option fst (map_of (rs_inflight st) (w_path w)) = Some (w_generation w)
      then st \<lparr> rs_inflight := AList.delete (w_path w) (rs_inflight st) \<rparr> else st)"

definition work_is_current :: "RuntimeConfig \<Rightarrow> Moment \<Rightarrow> PendingWork \<Rightarrow> Runtime \<Rightarrow> bool \<times> Runtime" where
  "work_is_current cfg m w =
     if_live cfg m False (\<lambda>rt. (state_generation (rt_state rt) (w_path w) = Some (w_generation w), rt))"

definition discard_inflight :: "PendingWork \<Rightarrow> RuntimeState \<Rightarrow> RuntimeState" where
  "discard_inflight w st = update_pending_status (drop_inflight w st)"

definition defer_pending :: "nat \<Rightarrow> PendingWork \<Rightarrow> RuntimeState \<Rightarrow> RuntimeState" where
  "defer_pending now w st0 =
     (let st = (if state_generation st0 (w_path w) = Some (w_generation w)
                then st0 \<lparr> rs_pending := AList.update (w_path w) (w \<lparr> w_not_before := now \<rparr>) (rs_pending st0) \<rparr>
                else st0)
      in update_pending_status (drop_inflight w st))"

definition defer_work :: "nat \<Rightarrow> StagedNote \<Rightarrow> bool \<Rightarrow> RuntimeState \<Rightarrow> RuntimeState" where
  "defer_work now d0 retain st0 =
     (let w = d_work d0;
          st = (if state_generation st0 (w_path w) = Some (w_generation w)
                then let d = d0 \<lparr> d_work := w \<lparr> w_not_before := now \<rparr> \<rparr>;
                         st = st0 \<lparr> rs_pending := AList.update (w_path w) (d_work d) (rs_pending st0) \<rparr>
                     in if retain then st \<lparr> rs_staged := AList.update (w_path w) d (rs_staged st) \<rparr> else st
                else st0)
      in update_pending_status (drop_inflight w st))"

definition finish_success :: "PendingWork \<Rightarrow> RuntimeState \<Rightarrow> RuntimeState" where
  "finish_success w st =
     update_pending_status (st \<lparr> rs_inflight := AList.delete (w_path w) (rs_inflight st),
        rs_initial_remaining := rs_initial_remaining st - {w_path w},
        rs_failures := AList.delete (w_path w) (rs_failures st),
        rs_finished := (w_path w, w_generation w) # rs_finished st \<rparr>)"

text \<open>What a commit does when a newer intent has replaced its work.\<close>

definition drop_stale :: "PendingWork \<Rightarrow> RuntimeState \<Rightarrow> RuntimeState" where
  "drop_stale w st = update_pending_status (st \<lparr> rs_inflight := AList.delete (w_path w) (rs_inflight st) \<rparr>)"

section \<open>Failures and retries\<close>

fun transient_source_io :: "io_kind \<Rightarrow> int option \<Rightarrow> bool" where
  "transient_source_io k c =
     (c = Some 5
      \<or> k \<in> {IoInterrupted, IoWouldBlock, IoTimedOut, IoResourceBusy, IoConnectionAborted, IoConnectionReset,
             IoNotConnected, IoBrokenPipe})"

fun retry_hint :: "vault_error \<Rightarrow> nat option" where
  "retry_hint (EmbeddingRequest _ True after) = Some (case after of None \<Rightarrow> 0 | Some d \<Rightarrow> d)"
| "retry_hint (Io k c) = (if transient_source_io k c then Some 0 else None)"
| "retry_hint (Storage _ _ k _ _) = (if k = Unavailable \<or> k = RemoteFailure then Some 0 else None)"
| "retry_hint _ = None"

definition retry_delay :: "nat \<Rightarrow> nat" where
  "retry_delay attempt = min (seconds (2 ^ min (attempt - 1) 5)) MAX_RETRY_DELAY"

definition next_attempt :: "nat \<Rightarrow> nat" where
  "next_attempt a = min (a + 1) 255"

text \<open>The work of the next attempt, and the text a deadline out of range adds to the error.\<close>

definition retry_at :: "nat \<Rightarrow> PendingWork \<Rightarrow> nat option \<Rightarrow> PendingWork \<times> nat option \<times> str" where
  "retry_at now w retry_after =
     (case retry_after of
        None \<Rightarrow> (w, None, [])
      | Some least \<Rightarrow>
          let w = w \<lparr> w_attempt := next_attempt (w_attempt w) \<rparr>;
              deadline = instant_add now (max (retry_delay (w_attempt w)) least)
          in (w, deadline, if deadline = None then ''; retry delay cannot be represented by the runtime clock'' else []))"

definition failure_message :: "PendingWork \<Rightarrow> str \<Rightarrow> str" where
  "failure_message w e = ''embedding update for '' @ w_path w @ '' failed: '' @ e"

definition record_failure_message ::
  "nat \<Rightarrow> PendingWork \<Rightarrow> str \<Rightarrow> nat option \<Rightarrow> StagedNote option \<Rightarrow> RuntimeState \<Rightarrow> RuntimeState" where
  "record_failure_message now w e retry_after staged st0 =
     (let is_current = (state_generation st0 (w_path w) = Some (w_generation w));
          st = drop_inflight w st0;
          (w, deadline, note) = retry_at now w retry_after;
          st = (if is_current then
                  let st = st \<lparr> rs_initial_remaining := rs_initial_remaining st - {w_path w},
                                rs_failures := AList.update (w_path w) (failure_message w (e @ note)) (rs_failures st) \<rparr>
                  in case deadline of
                      None \<Rightarrow> st \<lparr> rs_staged := AList.delete (w_path w) (rs_staged st) \<rparr>
                    | Some t \<Rightarrow>
                        let w = w \<lparr> w_not_before := t \<rparr>;
                            st = st \<lparr> rs_pending := AList.update (w_path w) w (rs_pending st) \<rparr>
                        in (case staged of
                              None \<Rightarrow> st
                            | Some d \<Rightarrow> st \<lparr> rs_staged := AList.update (w_path w)
                                          (d \<lparr> d_work := w, d_last_used := now \<rparr>) (rs_staged st) \<rparr>)
                else st)
      in update_pending_status st)"

definition record_failure ::
  "RuntimeConfig \<Rightarrow> nat \<Rightarrow> PendingWork \<Rightarrow> vault_error \<Rightarrow> StagedNote option \<Rightarrow> RuntimeState \<Rightarrow> RuntimeState" where
  "record_failure cfg now w e staged = record_failure_message now w (error_to_string cfg e) (retry_hint e) staged"

section \<open>Publishing\<close>

text \<open>
  The operations that change the store work on the runtime and the store together. They answer
  whether the store changed, or the store's error, which the caller records with the lock taken again.
\<close>

definition on_state :: "(RuntimeState \<Rightarrow> RuntimeState) \<Rightarrow> Runtime \<Rightarrow> Runtime" where
  "on_state f rt = rt \<lparr> rt_state := f (rt_state rt) \<rparr>"

definition commit_remove ::
  "RuntimeConfig \<Rightarrow> Moment \<Rightarrow> PendingWork \<Rightarrow> Runtime \<times> EmbeddingStore \<Rightarrow> bool vault_result \<times> Runtime \<times> EmbeddingStore" where
  "commit_remove cfg m w = (\<lambda>(rt0, store).
     let (live, rt) = source_is_live cfg m rt0 in
     if \<not> live then (Inr False, rt, store)
     else if state_generation (rt_state rt) (w_path w) \<noteq> Some (w_generation w)
     then (Inr False, on_state (drop_stale w) rt, store)
     else case store_remove (w_path w) store of
         Inr (removed, store') \<Rightarrow> (Inr removed, on_state (finish_success w) rt, store')
       | Inl e \<Rightarrow> (Inl e, rt, store))"

definition commit_note ::
  "RuntimeConfig \<Rightarrow> Moment \<Rightarrow> PendingWork \<Rightarrow> NoteEmbeddingEntry \<Rightarrow> Runtime \<times> EmbeddingStore
     \<Rightarrow> bool vault_result \<times> Runtime \<times> EmbeddingStore" where
  "commit_note cfg m w entry = (\<lambda>(rt0, store).
     let (live, rt) = source_is_live cfg m rt0 in
     if \<not> live then (Inr False, rt, store)
     else if state_generation (rt_state rt) (w_path w) \<noteq> Some (w_generation w)
     then (Inr False, on_state (drop_stale w) rt, store)
     else case insert_note (rc_codec cfg) (w_path w) entry store of
         Inr store' \<Rightarrow>
           (Inr True, on_state (\<lambda>st. let st = finish_success w st in
              if rs_reconciliation_complete st \<and> \<not> rs_store_queryable st
              then st \<lparr> rs_store_queryable := True \<rparr> else st) rt, store')
       | Inl e \<Rightarrow> (Inl e, rt, store))"

definition mark_success :: "RuntimeConfig \<Rightarrow> Moment \<Rightarrow> PendingWork \<Rightarrow> Runtime \<Rightarrow> Runtime" where
  "mark_success cfg m w rt0 =
     (let (live, rt) = source_is_live cfg m rt0 in
      if \<not> live then rt
      else on_state (\<lambda>st. if state_generation st (w_path w) = Some (w_generation w)
                          then finish_success w st else drop_stale w st) rt)"

definition finalize_reconciliation_if_complete ::
  "RuntimeConfig \<Rightarrow> Moment \<Rightarrow> 's VaultIndex \<Rightarrow> Runtime \<times> EmbeddingStore \<Rightarrow> bool \<times> Runtime \<times> EmbeddingStore" where
  "finalize_reconciliation_if_complete cfg m ix = (\<lambda>(rt0, store).
     let empty_vault = (notes ix = []); (live, rt) = source_is_live cfg m rt0; st = rt_state rt in
     if \<not> live \<or> \<not> rs_initial_started st \<or> rs_reconciliation_complete st \<or> rs_initial_remaining st \<noteq> {}
     then (False, rt, store)
     else (\<not> es_first_pass_complete store,
           on_state (\<lambda>st. st \<lparr> rs_reconciliation_complete := True, rs_cache_error := None,
             rs_store_queryable := (rs_store_queryable st \<or> empty_vault \<or> es_embeddings store \<noteq> []) \<rparr>) rt,
           set_first_pass_complete True store))"

definition refresh_status :: "'s VaultIndex \<Rightarrow> EmbeddingStore \<Rightarrow> RuntimeState \<Rightarrow> RuntimeState" where
  "refresh_status ix store st =
     (let ps = current_paths ix
      in replace_status (status_for_loaded_state st (length ps) (indexed_count store ps)) st)"

end
