(* ===== verification/RuntimeBatch.thy ===== *)
theory RuntimeBatch
  imports Runtime
begin

text \<open>
  The work on one note (src/src/vault/embedding_runtime.rs): the memory of unpublished drafts,
  preparation under that budget, the reuse of vectors, and the requests for the missing ones.

  A sort by hash and index is a stable sort of the ascending indices by hash. Of several cached
  chunks with one hash a binary search may find any; here it is the first. A panic in a blocking
  task is not modelled.
\<close>

section \<open>Staging memory\<close>

definition draft_overhead :: "RuntimeConfig \<Rightarrow> PendingWork \<Rightarrow> nat" where
  "draft_overhead cfg w =
     sat_add (sat_add (rc_draft_size cfg) 16) (sat_mul (pr_cap (rc_preparation cfg) (length (w_path w))) 2)"

definition paused_bytes :: "StagedNote table \<Rightarrow> nat" where
  "paused_bytes staged = sum_list (map (d_memory_bytes \<circ> snd) staged)"

definition available_staging :: "nat \<Rightarrow> RuntimeState \<Rightarrow> nat" where
  "available_staging active_bytes st = MAX_STAGING_BYTES - sat_add active_bytes (paused_bytes (rs_staged st))"

text \<open>The first draft with the least time of last use.\<close>

fun oldest :: "StagedNote table \<Rightarrow> (str \<times> StagedNote) option" where
  "oldest [] = None"
| "oldest (x # xs) =
     (case oldest xs of
        None \<Rightarrow> Some x
      | Some y \<Rightarrow> if d_last_used (snd y) < d_last_used (snd x) then Some y else Some x)"

lemma oldest_mem: "oldest t = Some x \<Longrightarrow> x \<in> set t"
  by (induction t arbitrary: x) (auto split: option.splits if_splits)

lemma oldest_None [simp]: "oldest t = None \<longleftrightarrow> t = []"
  by (cases t) (auto split: option.splits)

function evict :: "nat \<Rightarrow> nat \<Rightarrow> StagedNote table \<Rightarrow> bool \<times> StagedNote table" where
  "evict active_bytes required staged =
     (if sat_add (sat_add active_bytes (paused_bytes staged)) required \<le> MAX_STAGING_BYTES then (True, staged)
      else case oldest staged of
          None \<Rightarrow> (False, staged)
        | Some (p, _) \<Rightarrow> evict active_bytes required (AList.delete p staged))"
  by pat_completeness auto
termination
proof (relation "measure (\<lambda>(_, _, t). length t)", simp, goal_cases)
  case (1 active_bytes required staged x p d)
  then have "(p, d) \<in> set staged" by (metis oldest_mem)
  then show ?case
    by (auto simp: AList.delete_eq intro!: length_filter_less)
qed

declare evict.simps [simp del]

definition admit_staging :: "nat \<Rightarrow> nat \<Rightarrow> RuntimeState \<Rightarrow> bool \<times> RuntimeState" where
  "admit_staging active_bytes required st =
     (if MAX_STAGING_BYTES < sat_add active_bytes required then (False, st)
      else let (ok, staged) = evict active_bytes required (rs_staged st) in (ok, st \<lparr> rs_staged := staged \<rparr>))"

definition staging_size :: "RuntimeConfig \<Rightarrow> PreparedNote \<Rightarrow> PendingWork \<Rightarrow> nat vault_result" where
  "staging_size cfg n w =
     (let bytes = sat_add (draft_overhead cfg w) (staging_bytes (rc_preparation cfg) (rc_chunk_capacity cfg n) n)
      in if MAX_STAGING_BYTES < bytes
         then Inl (SemanticResourceLimit ''unpublished embedding staging bytes'' bytes MAX_STAGING_BYTES)
         else Inr bytes)"

section \<open>Preparation\<close>

datatype PreparationOutcome = Prepared PreparedNote | Unchanged | Missing | Deferred

text \<open>\<^verbatim>\<open>prepare_note_with_budget\<close> binds a model's limits and a budget to \<open>prepare_budgeted\<close>.\<close>

definition prepare_note_with_budget :: "RuntimeConfig \<Rightarrow> str \<Rightarrow> str \<Rightarrow> nat \<Rightarrow> PreparedNote vault_result option" where
  "prepare_note_with_budget cfg path src budget =
     prepare_budgeted (d_events (rc_deps cfg)) (rc_source_tags cfg src budget)
       ((rc_preparation cfg) \<lparr> pr_limit := budget \<rparr>) (logical_file_stem path) path src"

fun rebase_limit :: "nat \<Rightarrow> nat \<Rightarrow> vault_error \<Rightarrow> vault_error" where
  "rebase_limit reserved available (SemanticResourceLimit r a l) =
     (if r = BUDGET_RESOURCE then SemanticResourceLimit r (sat_add reserved a) available
      else SemanticResourceLimit r a l)"
| "rebase_limit reserved available e = e"

text \<open>
  What is done with the text of a note: \<open>ix\<close> is the index at that moment, \<open>previous\<close> the entry the
  store held before.
\<close>

definition prepare_raw ::
  "RuntimeConfig \<Rightarrow> 's VaultIndex \<Rightarrow> nat \<Rightarrow> nat \<Rightarrow> PendingWork \<Rightarrow> NoteEmbeddingEntry option \<Rightarrow> str
     \<Rightarrow> PreparationOutcome vault_result option" where
  "prepare_raw cfg ix available overhead w previous src =
     (if \<not> allows_source (d_yaml (rc_deps cfg)) (exclude ix) (w_path w) src then Some (Inr Missing)
      else if (case previous of
          None \<Rightarrow> False
        | Some e \<Rightarrow> source_revision_matches (pr_digest (rc_preparation cfg)) src (ne_revision e))
      then Some (Inr Unchanged)
      else let reserved = sat_add overhead (pr_cap (rc_preparation cfg) (length src)) in
        map_option (map_sum (rebase_limit reserved available) Prepared)
          (prepare_note_with_budget cfg (w_path w) src (available - reserved)))"

definition read_limit :: "nat \<Rightarrow> nat \<Rightarrow> nat" where
  "read_limit available overhead = min MAX_SOURCE_BYTES (available - sat_add overhead 1)"

text \<open>The reservation a failed attempt needs, if its error is one of the budget.\<close>

fun required_staging :: "nat \<Rightarrow> vault_error \<Rightarrow> nat option" where
  "required_staging overhead (SemanticResourceLimit r a l) =
     (if r = BUDGET_RESOURCE then Some a
      else if starts_with r ''source bytes for '' \<and> l < MAX_SOURCE_BYTES then Some (sat_add (sat_add overhead a) 1)
      else None)"
| "required_staging overhead e = None"

text \<open>What follows an attempt: \<open>None\<close> is another attempt.\<close>

definition after_attempt ::
  "nat \<Rightarrow> nat \<Rightarrow> PreparationOutcome vault_result \<Rightarrow> RuntimeState \<Rightarrow> PreparationOutcome vault_result option \<times> RuntimeState" where
  "after_attempt active_bytes overhead r st =
     (case r of
        Inr out \<Rightarrow> (Some (Inr out), st)
      | Inl e \<Rightarrow>
          case required_staging overhead e of
            None \<Rightarrow> (Some (Inl e), st)
          | Some required \<Rightarrow>
              let (ok, st') = admit_staging active_bytes required st in
              if ok then (None, st')
              else if 0 < active_bytes then (Some (Inr Deferred), st')
              else (Some (Inl (SemanticResourceLimit BUDGET_RESOURCE required MAX_STAGING_BYTES)), st'))"

definition reuse_index_bytes :: "NoteEmbeddingEntry option \<Rightarrow> nat" where
  "reuse_index_bytes previous =
     (case previous of None \<Rightarrow> 0 | Some e \<Rightarrow> sat_add 24 (sat_mul (length (ne_chunks e)) 8))"

definition prepare_overhead :: "RuntimeConfig \<Rightarrow> PendingWork \<Rightarrow> NoteEmbeddingEntry option \<Rightarrow> nat" where
  "prepare_overhead cfg w previous = sat_add (draft_overhead cfg w) (reuse_index_bytes previous)"

section \<open>Drafts\<close>

definition hash_bytes :: "nat list \<Rightarrow> str" where
  "hash_bytes h = map char_of h"

text \<open>The vectors a previous entry lends to the chunks with the same input.\<close>

definition reused_vectors :: "NoteEmbeddingEntry option \<Rightarrow> PreparedNote \<Rightarrow> f32 list option list" where
  "reused_vectors previous n =
     map (\<lambda>c. case previous of
            None \<Rightarrow> None
          | Some e \<Rightarrow> map_option ce_vector (find (\<lambda>k. ce_hash k = hash_bytes (ck_hash c)) (ne_chunks e)))
       (pn_chunks n)"

definition chunk_hash :: "PreparedNote \<Rightarrow> nat \<Rightarrow> nat list" where
  "chunk_hash n i = ck_hash (pn_chunks n ! i)"

definition hash_order :: "PreparedNote \<Rightarrow> nat list" where
  "hash_order n = sort_key (chunk_hash n) [0..<length (pn_chunks n)]"

definition new_draft :: "nat \<Rightarrow> PendingWork \<Rightarrow> PreparedNote \<Rightarrow> NoteEmbeddingEntry option \<Rightarrow> nat \<Rightarrow> StagedNote" where
  "new_draft now w n previous memory_bytes =
     \<lparr> d_work = w, d_prepared = n, d_vectors = reused_vectors previous n, d_hash_order = hash_order n,
       d_memory_bytes = memory_bytes, d_last_used = now \<rparr>"

definition draft_complete :: "StagedNote \<Rightarrow> bool" where
  "draft_complete d \<longleftrightarrow>
     length (d_vectors d) = length (pn_chunks (d_prepared d)) \<and> list_all (\<lambda>v. v \<noteq> None) (d_vectors d)"

definition incomplete_note :: vault_error where
  "incomplete_note = Embedding ''attempted to publish an incomplete note embedding''"

fun entry_chunks :: "PreparedChunk list \<Rightarrow> f32 list option list \<Rightarrow> ChunkEmbedding list vault_result" where
  "entry_chunks (c # cs) (v # vs) =
     (case v of
        None \<Rightarrow> Inl incomplete_note
      | Some x \<Rightarrow> try_bind (entry_chunks cs vs) (\<lambda>rest.
          Inr (\<lparr> ce_hash = hash_bytes (ck_hash c), ce_vector = x, ce_scope = ck_scope c, ce_range = ck_range c,
                 ce_overlap = ck_overlap c, ce_headings = ck_headings c, ce_section = ck_section c,
                 ce_kind = ck_kind c \<rparr> # rest)))"
| "entry_chunks _ _ = Inr []"

definition into_entry :: "StagedNote \<Rightarrow> NoteEmbeddingEntry vault_result" where
  "into_entry d =
     (if \<not> draft_complete d then Inl incomplete_note
      else let n = d_prepared d in
        try_bind (entry_chunks (pn_chunks n) (d_vectors d)) (\<lambda>cs.
          Inr \<lparr> ne_revision = pn_revision n, ne_source_bytes = pn_source_bytes n, ne_body = pn_body n,
                ne_title = pn_title n, ne_tags = pn_tags n, ne_chunks = cs \<rparr>))"

section \<open>Requests\<close>

text \<open>The positions in the hash order of the chunks with the hash of chunk \<open>i\<close>.\<close>

definition first_same :: "StagedNote \<Rightarrow> nat \<Rightarrow> nat" where
  "first_same d i = partition_point (\<lambda>j. chunk_hash (d_prepared d) j < chunk_hash (d_prepared d) i) (d_hash_order d)"

definition end_same :: "StagedNote \<Rightarrow> nat \<Rightarrow> nat" where
  "end_same d i = partition_point (\<lambda>j. chunk_hash (d_prepared d) j \<le> chunk_hash (d_prepared d) i) (d_hash_order d)"

text \<open>A missing vector is requested once, for the first chunk with its hash.\<close>

definition wanted_chunks :: "StagedNote \<Rightarrow> nat list" where
  "wanted_chunks d =
     filter (\<lambda>i. d_vectors d ! i = None \<and> d_hash_order d ! first_same d i = i)
       [0..<min (length (pn_chunks (d_prepared d))) (length (d_vectors d))]"

definition fill_vector :: "nat \<Rightarrow> f32 list \<Rightarrow> StagedNote \<Rightarrow> StagedNote" where
  "fill_vector i v d =
     (let same = drop (first_same d i) (take (end_same d i) (d_hash_order d));
          vs = fold (\<lambda>j vs. if j \<noteq> i \<and> vs ! j = None then vs[j := Some v] else vs) same (d_vectors d)
      in d \<lparr> d_vectors := vs[i := Some v] \<rparr>)"

fun fill_all :: "((nat \<times> nat) \<times> f32 list) list \<Rightarrow> StagedNote option list \<Rightarrow> StagedNote option list" where
  "fill_all [] active = active"
| "fill_all (((slot, i), v) # rest) active =
     fill_all rest (case active ! slot of None \<Rightarrow> active | Some d \<Rightarrow> active[slot := Some (fill_vector i v d)])"

fun validate_vectors :: "f32 list list \<Rightarrow> nat \<Rightarrow> unit vault_result" where
  "validate_vectors [] d = Inr ()"
| "validate_vectors (v # vs) d = try_bind (validate_vector v d) (\<lambda>_. validate_vectors vs d)"

definition validate_embedding_batch :: "f32 list list \<Rightarrow> nat \<Rightarrow> nat \<Rightarrow> f32 list list vault_result" where
  "validate_embedding_batch vectors expected_count d =
     (if length vectors \<noteq> expected_count
      then Inl (Embedding (''embedding backend returned '' @ show_nat (length vectors) @ '' vectors for ''
             @ show_nat expected_count @ '' inputs''))
      else try_bind (validate_vectors vectors d) (\<lambda>_. Inr vectors))"

text \<open>
  \<^verbatim>\<open>Embedder::embed_next_batch\<close>: \<open>plan\<close> is the planner's answer for the wanted texts, \<open>dispatch\<close> what the
  backend returns for the first of them.
\<close>

definition embed_next_batch ::
  "bool \<Rightarrow> nat \<Rightarrow> nat vault_result \<Rightarrow> (nat \<Rightarrow> f32 list list vault_result) \<Rightarrow> nat \<times> f32 list list vault_result" where
  "embed_next_batch live texts plan dispatch =
     (if \<not> live then (1, Inl (Embedding ''embedding scope retired''))
      else case plan of
          Inl e \<Rightarrow> (1, Inl e)
        | Inr n \<Rightarrow> if 0 < n \<and> n \<le> texts then (n, dispatch n)
                    else (1, Inl (Embedding ''embedding request planner did not make progress'')))"

definition embed_wanted ::
  "RuntimeConfig \<Rightarrow> bool \<Rightarrow> bool \<Rightarrow> nat \<Rightarrow> nat vault_result \<Rightarrow> (nat \<Rightarrow> f32 list list vault_result)
     \<Rightarrow> nat \<times> f32 list list vault_result" where
  "embed_wanted cfg live owner_live texts plan dispatch =
     (if \<not> live then (0, Inl (Embedding ''embedding source authority was withdrawn''))
      else let (n, r) = embed_next_batch owner_live texts plan dispatch
           in (n, try_bind r (\<lambda>vectors. validate_embedding_batch vectors n (pr_dimension (rc_preparation cfg)))))"

end
