(* ===== verification/RuntimeRun.thy ===== *)
theory RuntimeRun
  imports RuntimeBatch
begin

text \<open>
  The coordinator of the embedding runtime (src/src/vault/embedding_runtime.rs) as a state machine.

  Every submission, query and retirement may come between two locked operations of the coordinator,
  so a step of the coordinator takes the state's lock at most once and \<open>Control\<close> names the point
  where it stands. \<open>World\<close> is what the runtime shares with its callers, with the coordinator's own
  variables. The answers of the outside, the model, the cache file, the source and the backend, are
  the \<open>Answer\<close> of a step. Waiting for a notification or a timer may end at any time.
\<close>

section \<open>Points of the coordinator\<close>

text \<open>The calls that give a work back, each one locked operation.\<close>

datatype Release =
    RemoveNote PendingWork
  | CommitNote PendingWork NoteEmbeddingEntry
  | Succeed PendingWork
  | Discard PendingWork
  | DeferPending PendingWork
  | DeferDraft StagedNote bool
  | Fail PendingWork str "nat option" "StagedNote option"

fun release_work :: "Release \<Rightarrow> PendingWork" where
  "release_work (RemoveNote w) = w"
| "release_work (CommitNote w _) = w"
| "release_work (Succeed w) = w"
| "release_work (Discard w) = w"
| "release_work (DeferPending w) = w"
| "release_work (DeferDraft d _) = d_work d"
| "release_work (Fail w _ _ _) = w"

fun run_release ::
  "RuntimeConfig \<Rightarrow> Moment \<Rightarrow> Release \<Rightarrow> Runtime \<times> EmbeddingStore \<Rightarrow> bool vault_result \<times> Runtime \<times> EmbeddingStore" where
  "run_release cfg m (RemoveNote w) s = commit_remove cfg m w s"
| "run_release cfg m (CommitNote w entry) s = commit_note cfg m w entry s"
| "run_release cfg m (Succeed w) (rt, store) = (Inr False, mark_success cfg m w rt, store)"
| "run_release cfg m (Discard w) (rt, store) = (Inr False, on_state (discard_inflight w) rt, store)"
| "run_release cfg m (DeferPending w) (rt, store) = (Inr False, on_state (defer_pending (m_now m) w) rt, store)"
| "run_release cfg m (DeferDraft d retain) (rt, store) = (Inr False, on_state (defer_work (m_now m) d retain) rt, store)"
| "run_release cfg m (Fail w e retry_after d) (rt, store) =
     (Inr False, on_state (record_failure_message (m_now m) w e retry_after d) rt, store)"

definition fail_with :: "RuntimeConfig \<Rightarrow> PendingWork \<Rightarrow> vault_error \<Rightarrow> Release" where
  "fail_with cfg w e = Fail w (error_to_string cfg e) (retry_hint e) None"

text \<open>A store that refuses a commit leaves the work with the coordinator, to be failed next.\<close>

definition after_release :: "RuntimeConfig \<Rightarrow> Release \<Rightarrow> bool vault_result \<Rightarrow> Release list" where
  "after_release cfg r answer = (case answer of Inl e \<Rightarrow> [fail_with cfg (release_work r) e] | Inr _ \<Rightarrow> [])"

text \<open>The variables of \<^verbatim>\<open>process_batch\<close>: its batch, the works still to begin and the drafts in memory.\<close>

record Batch =
  b_works :: "PendingWork list"
  b_queue :: "PendingWork list"
  b_active :: "StagedNote option list"
  b_active_bytes :: nat
  b_source_failed :: bool
  b_observed :: "vault_error option"

datatype Control =
    Waiting
  | Loading
  | OpeningCache "str list"
  | Publishing "str option" bool
  | Idle
  | Taking
  | Observing "PendingWork list"
  | Processing Batch
  | Resuming PendingWork Batch
  | Preparing PendingWork "NoteEmbeddingEntry option" Batch
  | Reading PendingWork "NoteEmbeddingEntry option" nat Batch
  | Attempted PendingWork "NoteEmbeddingEntry option" "PreparationOutcome vault_result" Batch
  | Reserving PendingWork "NoteEmbeddingEntry option" PreparedNote Batch
  | Checking StagedNote Batch
  | Admitting StagedNote Batch
  | Releasing "Release list" Control
  | Collecting nat "(nat \<times> nat) list" Batch
  | Requesting "(nat \<times> nat) list" Batch
  | BatchDone Batch
  | Removed "PendingWork list"
  | Settling
  | Finalizing bool
  | Started
  | Refreshing bool
  | Quiet "nat option" bool
  | Persisting
  | AfterPersist
  | Stopped

record 's World =
  wd_runtime :: Runtime
  wd_store :: EmbeddingStore
  wd_index :: "'s VaultIndex"
  wd_control :: Control
  wd_dirty :: bool
  wd_last_persist :: nat
  wd_retry_at :: nat
  wd_attempt :: nat
  wd_observation :: "ObservationPass option"

datatype Answer =
    NoAnswer
  | ModelLoaded "unit vault_result"
  | CacheOpened "(nat \<times> str) option vault_result"
  | SourceObserved "vault_error option"
  | SourceRead "str vault_result"
  | Planned "nat vault_result" "nat \<Rightarrow> f32 list list vault_result"
  | CacheWritten "bool vault_result"

section \<open>Start\<close>

definition initial_embedding_work :: "'s VaultIndex \<Rightarrow> (str \<times> PendingKind) list" where
  "initial_embedding_work ix =
     sort_key fst (List.map_filter (\<lambda>p. map_option (\<lambda>k. (p, k)) (embedding_change p False ix)) (map fst (notes ix)))"

definition initial_status :: "nat \<Rightarrow> EmbeddingRuntimeStatus" where
  "initial_status n =
     \<lparr> us_phase = WarmingPhase, us_queryable = False, us_indexed_notes = 0, us_total_notes = n,
       us_pending_notes = 0, us_last_error = None \<rparr>"

definition initial_state :: "nat \<Rightarrow> RuntimeState" where
  "initial_state n =
     \<lparr> rs_next_generation = 0, rs_pending = [], rs_inflight = [], rs_batch_started_at = None,
       rs_initial_remaining = {}, rs_initial_started = False, rs_reconciliation_complete = False,
       rs_failures = [], rs_persistence_error = None, rs_cache_error = None, rs_staged = [],
       rs_model = False, rs_store = False, rs_store_queryable = False, rs_status = initial_status n,
       rs_submitted = [], rs_finished = [] \<rparr>"

definition spawn :: "nat \<Rightarrow> bool \<Rightarrow> 's VaultIndex \<Rightarrow> Runtime" where
  "spawn now initially_active ix =
     (let works = initial_embedding_work ix;
          st = fold (\<lambda>(p, k). enqueue now p k) works (initial_state (length works))
      in \<lparr> rt_state = update_pending_status st, rt_live = True, rt_active = initially_active,
           rt_first_load_error = None \<rparr>)"

definition spawned :: "RuntimeConfig \<Rightarrow> nat \<Rightarrow> bool \<Rightarrow> 's VaultIndex \<Rightarrow> 's World" where
  "spawned cfg now initially_active ix =
     \<lparr> wd_runtime = spawn now initially_active ix, wd_store = new_with_identity (rc_identity cfg),
       wd_index = ix, wd_control = Waiting, wd_dirty = False, wd_last_persist = 0, wd_retry_at = 0,
       wd_attempt = 0, wd_observation = None \<rparr>"

text \<open>\<^verbatim>\<open>CacheFile::load\<close> on what opening the file gives: its reported size and content, if it is there.\<close>

definition load_cache :: "RuntimeConfig \<Rightarrow> nat \<Rightarrow> (nat \<times> str) option vault_result \<Rightarrow> EmbeddingStore option vault_result" where
  "load_cache cfg note_count r =
     try_bind r (\<lambda>file. case file of
         None \<Rightarrow> Inr None
       | Some (sz, content) \<Rightarrow>
           map_sum id Some (decode_file (rc_codec cfg) sz content (Some (rc_identity cfg))
             (min (sat_add note_count 1024) MAX_CACHE_ENTRIES)))"

fun confinement_error :: "vault_error \<Rightarrow> bool" where
  "confinement_error (OutsideVault _) = True"
| "confinement_error (InvalidPath _) = True"
| "confinement_error _ = False"

text \<open>A cache that cannot be used is rebuilt; \<open>Inl\<close> is an error that stops the coordinator.\<close>

fun cache_outcome :: "RuntimeConfig \<Rightarrow> EmbeddingStore option vault_result \<Rightarrow> (EmbeddingStore option \<times> str option) vault_result" where
  "cache_outcome cfg (Inr store) = Inr (store, None)"
| "cache_outcome cfg (Inl (EmbeddingCacheIncompatible _)) = Inr (None, None)"
| "cache_outcome cfg (Inl e) =
     (if confinement_error e then Inl e
      else Inr (None, Some (''embedding cache could not be loaded; rebuilding: '' @ error_to_string cfg e)))"

text \<open>The section that publishes model and store and queues what the index holds.\<close>

definition publish_loaded :: "nat \<Rightarrow> 's VaultIndex \<Rightarrow> str option \<Rightarrow> bool \<Rightarrow> RuntimeState \<Rightarrow> RuntimeState" where
  "publish_loaded now ix cache_err queryable st =
     (let works = initial_embedding_work ix;
          st = st \<lparr> rs_cache_error := cache_err, rs_model := True, rs_store := True, rs_store_queryable := queryable,
                    rs_initial_started := True, rs_initial_remaining := set (map fst works) \<rparr>;
          st = fold (\<lambda>(p, k) st. if map_of (rs_pending st) p = None then enqueue now p k st else st) works st
      in update_pending_status st)"

section \<open>Saving the cache\<close>

definition persist_store ::
  "RuntimeConfig \<Rightarrow> Moment \<Rightarrow> EmbeddingStore \<Rightarrow> bool vault_result \<Rightarrow> Runtime \<Rightarrow> bool vault_result \<times> Runtime" where
  "persist_store cfg m store written rt =
     (case encode_cache (rc_codec cfg) store of
        Inl e \<Rightarrow> (Inl e, rt)
      | Inr bytes \<Rightarrow> if_live cfg m (Inr False) (\<lambda>rt.
          (if MAX_CACHE_BYTES < length bytes then Inl (cache_error ''embedding cache is too large to persist'')
           else written, rt)) rt)"

definition persist_dirty :: "RuntimeConfig \<Rightarrow> Moment \<Rightarrow> bool vault_result \<Rightarrow> 's World \<Rightarrow> 's World" where
  "persist_dirty cfg m written s0 =
     (let (r, rt) = persist_store cfg m (wd_store s0) written (wd_runtime s0); s = s0 \<lparr> wd_runtime := rt \<rparr> in
      case r of
        Inr True \<Rightarrow>
          s \<lparr> wd_dirty := False, wd_attempt := 0, wd_retry_at := m_now m, wd_last_persist := m_now m,
              wd_runtime := on_state (\<lambda>st. st \<lparr> rs_persistence_error := None \<rparr>) rt, wd_control := AfterPersist \<rparr>
      | Inr False \<Rightarrow> s \<lparr> wd_control := Stopped \<rparr>
      | Inl e \<Rightarrow>
          if confinement_error e
          then s \<lparr> wd_runtime := record_terminal_failure cfg (wd_index s) e rt, wd_control := Stopped \<rparr>
          else s \<lparr> wd_attempt := next_attempt (wd_attempt s),
                   wd_retry_at := m_now m + retry_delay (next_attempt (wd_attempt s)),
                   wd_runtime := on_state (\<lambda>st. st \<lparr> rs_persistence_error := Some (error_to_string cfg e) \<rparr>) rt,
                   wd_control := AfterPersist \<rparr>)"

definition persist_ripe :: "nat \<Rightarrow> 's World \<Rightarrow> bool" where
  "persist_ripe now s \<longleftrightarrow> MAX_DIRTY_INTERVAL \<le> now - wd_last_persist s"

section \<open>Steps of the coordinator\<close>

definition goto :: "Control \<Rightarrow> 's World \<Rightarrow> 's World" where
  "goto c s = s \<lparr> wd_control := c \<rparr>"

definition on_runtime :: "(RuntimeState \<Rightarrow> RuntimeState) \<Rightarrow> 's World \<Rightarrow> 's World" where
  "on_runtime f s = s \<lparr> wd_runtime := on_state f (wd_runtime s) \<rparr>"

text \<open>\<^verbatim>\<open>if !shared.source_is_live() { return; }\<close>, then the rest.\<close>

definition when_live :: "RuntimeConfig \<Rightarrow> Moment \<Rightarrow> ('s World \<Rightarrow> 's World) \<Rightarrow> 's World \<Rightarrow> 's World" where
  "when_live cfg m f s =
     (let (live, rt) = source_is_live cfg m (wd_runtime s); s = s \<lparr> wd_runtime := rt \<rparr>
      in if live then f s else goto Stopped s)"

definition step_waiting :: "'s World \<Rightarrow> 's World" where
  "step_waiting s = goto (if rt_active (wd_runtime s) then Loading else Waiting) s"

definition step_loading :: "RuntimeConfig \<Rightarrow> Moment \<Rightarrow> unit vault_result \<Rightarrow> 's World \<Rightarrow> 's World" where
  "step_loading cfg m r s =
     (case r of
        Inl e \<Rightarrow> goto Stopped (s \<lparr> wd_runtime := record_terminal_failure cfg (wd_index s) e (wd_runtime s) \<rparr>)
      | Inr _ \<Rightarrow> when_live cfg m (\<lambda>s. goto (OpeningCache (current_paths (wd_index s))) s) s)"

definition step_opening ::
  "RuntimeConfig \<Rightarrow> Moment \<Rightarrow> str list \<Rightarrow> (nat \<times> str) option vault_result \<Rightarrow> 's World \<Rightarrow> 's World" where
  "step_opening cfg m ps r s =
     (case cache_outcome cfg (load_cache cfg (length ps) r) of
        Inl e \<Rightarrow> goto Stopped (s \<lparr> wd_runtime := record_terminal_failure cfg (wd_index s) e (wd_runtime s) \<rparr>)
      | Inr (loaded, cache_err) \<Rightarrow> when_live cfg m (\<lambda>s.
          let store0 = (case loaded of Some st \<Rightarrow> st | None \<Rightarrow> new_with_identity (rc_identity cfg));
              (retained, store) = retain_paths (set ps) store0 in
          case retained of
            Inl e \<Rightarrow> goto Stopped (s \<lparr> wd_runtime := record_terminal_failure cfg (wd_index s) e (wd_runtime s) \<rparr>)
          | Inr dirty \<Rightarrow>
              goto (Publishing cache_err (es_first_pass_complete store0 \<and> (ps = [] \<or> es_embeddings store \<noteq> [])))
                (s \<lparr> wd_store := store, wd_dirty := dirty \<rparr>)) s)"

text \<open>A batch in the order its works begin: groups of 32, the removals of a group first.\<close>

fun groups_of :: "nat \<Rightarrow> nat \<Rightarrow> 'a list \<Rightarrow> 'a list list" where
  "groups_of n 0 xs = []"
| "groups_of n (Suc fuel) xs = (if xs = [] then [] else take n xs # groups_of n fuel (drop n xs))"

definition batch_order :: "PendingWork list \<Rightarrow> PendingWork list" where
  "batch_order batch =
     concat (map (\<lambda>g. filter (\<lambda>w. w_kind w = Remove) g @ filter (\<lambda>w. w_kind w \<noteq> Remove) g)
       (groups_of 32 (length batch) batch))"

definition new_batch :: "PendingWork list \<Rightarrow> ObservationPass \<Rightarrow> Batch" where
  "new_batch batch pass =
     \<lparr> b_works = batch, b_queue = batch_order batch, b_active = [], b_active_bytes = 0,
       b_source_failed = (op_failed pass \<noteq> None), b_observed = op_failed pass \<rparr>"

definition step_taking :: "RuntimeConfig \<Rightarrow> Moment \<Rightarrow> 's World \<Rightarrow> 's World" where
  "step_taking cfg m s0 =
     (let ((batch, next_pending, pending_empty), st) = take_due_batch cfg (m_now m) (rt_state (wd_runtime s0));
          s = on_runtime (\<lambda>_. st) s0 in
      if batch = [] then goto (Quiet next_pending pending_empty) s
      else if list_all (\<lambda>w. w_kind w = Remove) batch then goto (Releasing (map RemoveNote batch) (Removed batch)) s
      else case wd_observation s of
          None \<Rightarrow> goto (Observing batch) s
        | Some pass \<Rightarrow>
            if pass_contains batch pass then goto (Processing (new_batch batch pass)) s else goto (Observing batch) s)"

definition step_observing :: "Moment \<Rightarrow> PendingWork list \<Rightarrow> vault_error option \<Rightarrow> 's World \<Rightarrow> 's World" where
  "step_observing m batch failed s =
     (let pass = \<lparr> op_generations = due_observation_paths (m_now m) (rt_state (wd_runtime s)) batch, op_failed = failed \<rparr>
      in goto (Processing (new_batch batch pass)) (s \<lparr> wd_observation := Some pass \<rparr>))"

text \<open>A check that work is still current; its answer chooses the next point.\<close>

definition if_current :: "RuntimeConfig \<Rightarrow> Moment \<Rightarrow> PendingWork \<Rightarrow> Control \<Rightarrow> Control \<Rightarrow> 's World \<Rightarrow> 's World" where
  "if_current cfg m w c_yes c_no s =
     (let (current, rt) = work_is_current cfg m w (wd_runtime s)
      in goto (if current then c_yes else c_no) (s \<lparr> wd_runtime := rt \<rparr>))"

definition step_processing :: "RuntimeConfig \<Rightarrow> Moment \<Rightarrow> Batch \<Rightarrow> 's World \<Rightarrow> 's World" where
  "step_processing cfg m b s =
     (case b_queue b of
        [] \<Rightarrow> goto (Collecting 0 [] b) s
      | w # ws \<Rightarrow>
          let b = b \<lparr> b_queue := ws \<rparr> in
          if w_kind w = Remove then goto (Releasing [RemoveNote w] (Processing b)) s
          else if_current cfg m w (Resuming w b) (Releasing [Discard w] (Processing b)) s)"

definition step_resuming :: "RuntimeConfig \<Rightarrow> PendingWork \<Rightarrow> Batch \<Rightarrow> 's World \<Rightarrow> 's World" where
  "step_resuming cfg w b s0 =
     (let found = map_of (rs_staged (rt_state (wd_runtime s0))) (w_path w);
          s = on_runtime (\<lambda>st. st \<lparr> rs_staged := AList.delete (w_path w) (rs_staged st) \<rparr>) s0;
          fresh = (case b_observed b of
              Some e \<Rightarrow> Releasing [fail_with cfg w e] (Processing b)
            | None \<Rightarrow> Preparing w (store_note (w_path w) (wd_store s)) b)
      in goto (case found of
          None \<Rightarrow> fresh
        | Some d \<Rightarrow> if w_generation (d_work d) = w_generation w then Checking (d \<lparr> d_work := w \<rparr>) b else fresh) s)"

definition step_preparing :: "RuntimeConfig \<Rightarrow> PendingWork \<Rightarrow> NoteEmbeddingEntry option \<Rightarrow> Batch \<Rightarrow> 's World \<Rightarrow> 's World" where
  "step_preparing cfg w previous b s =
     (let available = available_staging (b_active_bytes b) (rt_state (wd_runtime s));
          overhead = prepare_overhead cfg w previous in
      goto (if available \<le> overhead
            then Attempted w previous (Inl (SemanticResourceLimit BUDGET_RESOURCE (sat_add overhead 1) available)) b
            else if get_note (w_path w) (wd_index s) = None then Attempted w previous (Inr Missing) b
            else Reading w previous available b) s)"

text \<open>The read answers within \<open>read_limit\<close>, what the source promises of a bounded read.\<close>

definition step_reading ::
  "RuntimeConfig \<Rightarrow> PendingWork \<Rightarrow> NoteEmbeddingEntry option \<Rightarrow> nat \<Rightarrow> Batch \<Rightarrow> str vault_result \<Rightarrow> 's World \<Rightarrow> 's World option" where
  "step_reading cfg w previous available b r s =
     (case r of
        Inl e \<Rightarrow> Some (goto (Attempted w previous (Inl e) b) s)
      | Inr src \<Rightarrow>
          map_option (\<lambda>out. goto (Attempted w previous out b) s)
            (prepare_raw cfg (wd_index s) available (prepare_overhead cfg w previous) w previous src))"

fun source_wide :: "vault_error \<Rightarrow> bool" where
  "source_wide (Storage _ _ k _ _) = (k = Unavailable \<or> k = Protocol \<or> k = IdentityChanged)"
| "source_wide _ = False"

definition step_attempted ::
  "RuntimeConfig \<Rightarrow> PendingWork \<Rightarrow> NoteEmbeddingEntry option \<Rightarrow> PreparationOutcome vault_result \<Rightarrow> Batch \<Rightarrow> 's World \<Rightarrow> 's World" where
  "step_attempted cfg w previous r b s0 =
     (let (answer, st) = after_attempt (b_active_bytes b) (prepare_overhead cfg w previous) r (rt_state (wd_runtime s0));
          s = on_runtime (\<lambda>_. st) s0 in
      case answer of
        None \<Rightarrow> goto (Preparing w previous b) s
      | Some (Inl e) \<Rightarrow>
          goto (Releasing [fail_with cfg w e] (Processing (b \<lparr> b_source_failed := (b_source_failed b \<or> source_wide e) \<rparr>))) s
      | Some (Inr (Prepared n)) \<Rightarrow> goto (Reserving w previous n b) s
      | Some (Inr Missing) \<Rightarrow> goto (Releasing [RemoveNote w] (Processing b)) s
      | Some (Inr Unchanged) \<Rightarrow> goto (Releasing [Succeed w] (Processing b)) s
      | Some (Inr Deferred) \<Rightarrow> goto (Releasing [DeferPending w] (Processing b)) s)"

definition step_reserving ::
  "RuntimeConfig \<Rightarrow> Moment \<Rightarrow> PendingWork \<Rightarrow> NoteEmbeddingEntry option \<Rightarrow> PreparedNote \<Rightarrow> Batch \<Rightarrow> 's World \<Rightarrow> 's World" where
  "step_reserving cfg m w previous n b s0 =
     (case staging_size cfg n w of
        Inl e \<Rightarrow> goto (Releasing [fail_with cfg w e] (Processing b)) s0
      | Inr bytes \<Rightarrow>
          let (ok, st) = admit_staging (b_active_bytes b) (sat_add bytes (reuse_index_bytes previous)) (rt_state (wd_runtime s0));
              s = on_runtime (\<lambda>_. st) s0
          in goto (if ok then Checking (new_draft (m_now m) w n previous bytes) b
                   else Releasing [DeferPending w] (Processing b)) s)"

definition publish_release :: "RuntimeConfig \<Rightarrow> StagedNote \<Rightarrow> Release" where
  "publish_release cfg d =
     (case into_entry d of Inr entry \<Rightarrow> CommitNote (d_work d) entry | Inl e \<Rightarrow> fail_with cfg (d_work d) e)"

definition step_admitting :: "RuntimeConfig \<Rightarrow> Moment \<Rightarrow> StagedNote \<Rightarrow> Batch \<Rightarrow> 's World \<Rightarrow> 's World" where
  "step_admitting cfg m d b s0 =
     (let (ok, st) = admit_staging (b_active_bytes b) (d_memory_bytes d) (rt_state (wd_runtime s0));
          s = on_runtime (\<lambda>_. st) s0
      in goto (if \<not> ok then Releasing [DeferDraft (d \<lparr> d_last_used := m_now m \<rparr>) False] (Processing b)
               else if draft_complete d then Releasing [publish_release cfg d] (Processing b)
               else Processing (b \<lparr> b_active := b_active b @ [Some d],
                                    b_active_bytes := b_active_bytes b + d_memory_bytes d \<rparr>)) s)"

definition step_releasing :: "RuntimeConfig \<Rightarrow> Moment \<Rightarrow> Release list \<Rightarrow> Control \<Rightarrow> 's World \<Rightarrow> 's World" where
  "step_releasing cfg m rs c s =
     (case rs of
        [] \<Rightarrow> goto c s
      | r # rs \<Rightarrow>
          let (answer, rt, store) = run_release cfg m r (wd_runtime s, wd_store s)
          in goto (Releasing (after_release cfg r answer @ rs) c)
               (s \<lparr> wd_runtime := rt, wd_store := store, wd_dirty := (wd_dirty s \<or> answer = Inr True) \<rparr>))"

text \<open>One slot of \<open>b_active\<close> at a time; then the wanted texts are sent, or the batch is done.\<close>

definition step_collecting :: "RuntimeConfig \<Rightarrow> Moment \<Rightarrow> nat \<Rightarrow> (nat \<times> nat) list \<Rightarrow> Batch \<Rightarrow> 's World \<Rightarrow> 's World" where
  "step_collecting cfg m k jobs b s =
     (if k < length (b_active b)
      then case b_active b ! k of
          None \<Rightarrow> goto (Collecting (Suc k) jobs b) s
        | Some d \<Rightarrow>
            if_current cfg m (d_work d)
              (Collecting (Suc k) (jobs @ map (Pair k) (wanted_chunks d)) b)
              (Releasing [Discard (d_work d)]
                 (Collecting (Suc k) jobs (b \<lparr> b_active := (b_active b)[k := None],
                    b_active_bytes := b_active_bytes b - d_memory_bytes d \<rparr>))) s
      else goto (if jobs = [] then BatchDone b else Requesting jobs b) s)"

definition complete_slot :: "StagedNote option \<Rightarrow> bool" where
  "complete_slot slot = (case slot of None \<Rightarrow> False | Some d \<Rightarrow> draft_complete d)"

definition slots :: "StagedNote option list \<Rightarrow> StagedNote list" where
  "slots active = List.map_filter id active"

text \<open>The vectors of a request are filled in and every completed note is published.\<close>

definition after_vectors :: "RuntimeConfig \<Rightarrow> (nat \<times> nat) list \<Rightarrow> f32 list list \<Rightarrow> Batch \<Rightarrow> Control" where
  "after_vectors cfg jobs vectors b =
     (let active = fill_all (zip jobs vectors) (b_active b);
          finished = slots (filter complete_slot active)
      in Releasing (map (publish_release cfg) finished)
           (Collecting 0 [] (b \<lparr> b_active := map (\<lambda>slot. if complete_slot slot then None else slot) active,
              b_active_bytes := b_active_bytes b - sum_list (map d_memory_bytes finished) \<rparr>)))"

text \<open>A failed request fails the notes it asked for; the other drafts keep their progress.\<close>

definition after_request_error :: "RuntimeConfig \<Rightarrow> nat list \<Rightarrow> vault_error \<Rightarrow> Batch \<Rightarrow> Control" where
  "after_request_error cfg affected e b =
     Releasing (map (\<lambda>(k, d). if k \<in> set affected
          then Fail (d_work d) (error_to_string cfg e) (retry_hint e) (Some d) else DeferDraft d True)
        (List.map_filter (\<lambda>(k, slot). map_option (Pair k) slot) (enumerate 0 (b_active b))))
      (BatchDone (b \<lparr> b_active := map (\<lambda>_. None) (b_active b) \<rparr>))"

definition step_requesting ::
  "RuntimeConfig \<Rightarrow> Moment \<Rightarrow> (nat \<times> nat) list \<Rightarrow> Batch \<Rightarrow> nat vault_result \<Rightarrow> (nat \<Rightarrow> f32 list list vault_result)
     \<Rightarrow> 's World \<Rightarrow> 's World" where
  "step_requesting cfg m jobs b plan dispatch s0 =
     (let (live, rt) = source_is_live cfg m (wd_runtime s0); s = s0 \<lparr> wd_runtime := rt \<rparr>;
          (n, r) = embed_wanted cfg live (rt_live rt) (length jobs) plan dispatch
      in goto (case r of
          Inr vectors \<Rightarrow> after_vectors cfg (take n jobs) vectors b
        | Inl e \<Rightarrow> after_request_error cfg (map fst (take n jobs)) e b) s)"

definition step_batch_done :: "Batch \<Rightarrow> 's World \<Rightarrow> 's World" where
  "step_batch_done b s =
     (let pass = map_option (pass_consume (b_works b)) (wd_observation s);
          over = (b_source_failed b \<or> (case pass of None \<Rightarrow> False | Some p \<Rightarrow> op_generations p = []))
      in goto Settling (s \<lparr> wd_observation := (if over then None else pass) \<rparr>))"

definition step_removed :: "PendingWork list \<Rightarrow> 's World \<Rightarrow> 's World" where
  "step_removed batch s =
     goto Settling (s \<lparr> wd_observation := map_option (pass_consume batch) (wd_observation s) \<rparr>)"

definition step_finalizing :: "RuntimeConfig \<Rightarrow> Moment \<Rightarrow> bool \<Rightarrow> 's World \<Rightarrow> 's World" where
  "step_finalizing cfg m starting s =
     (let (changed, rt, store) = finalize_reconciliation_if_complete cfg m (wd_index s) (wd_runtime s, wd_store s)
      in goto (if starting then Started else Refreshing False)
           (s \<lparr> wd_runtime := rt, wd_store := store, wd_dirty := (wd_dirty s \<or> changed) \<rparr>))"

definition step_refreshing :: "Moment \<Rightarrow> bool \<Rightarrow> 's World \<Rightarrow> 's World" where
  "step_refreshing m starting s0 =
     (let s = on_runtime (refresh_status (wd_index s0) (wd_store s0)) s0 in
      if starting then goto Idle (s \<lparr> wd_last_persist := m_now m, wd_retry_at := m_now m \<rparr>)
      else goto (if wd_dirty s \<and> wd_retry_at s \<le> m_now m \<and> persist_ripe (m_now m) s then Persisting else Idle) s)"

definition step_quiet :: "Moment \<Rightarrow> bool \<Rightarrow> 's World \<Rightarrow> 's World" where
  "step_quiet m pending_empty s =
     goto (if wd_dirty s \<and> wd_retry_at s \<le> m_now m \<and> (pending_empty \<or> persist_ripe (m_now m) s) then Persisting else Idle)
       (s \<lparr> wd_observation := None \<rparr>)"

text \<open>The next step at a point; \<open>None\<close> if the answer is not the one awaited there.\<close>

fun silent :: "Answer \<Rightarrow> 'a \<Rightarrow> 'a option" where
  "silent NoAnswer s = Some s"
| "silent _ s = None"

definition control_step :: "RuntimeConfig \<Rightarrow> Moment \<Rightarrow> Control \<Rightarrow> Answer \<Rightarrow> 's World \<Rightarrow> 's World option" where
  "control_step cfg m c a s =
     (case c of
        Waiting \<Rightarrow> silent a (when_live cfg m step_waiting s)
      | Loading \<Rightarrow>
          (case a of ModelLoaded r \<Rightarrow> Some (step_loading cfg m r s) | _ \<Rightarrow> None)
      | OpeningCache ps \<Rightarrow>
          (case a of CacheOpened r \<Rightarrow> Some (step_opening cfg m ps r s) | _ \<Rightarrow> None)
      | Publishing cache_err queryable \<Rightarrow>
          silent a (goto (Finalizing True) (on_runtime (publish_loaded (m_now m) (wd_index s) cache_err queryable) s))
      | Idle \<Rightarrow> silent a (when_live cfg m (goto Taking) s)
      | Taking \<Rightarrow> silent a (step_taking cfg m s)
      | Observing batch \<Rightarrow>
          (case a of SourceObserved failed \<Rightarrow> Some (step_observing m batch failed s) | _ \<Rightarrow> None)
      | Processing b \<Rightarrow> silent a (step_processing cfg m b s)
      | Resuming w b \<Rightarrow> silent a (step_resuming cfg w b s)
      | Preparing w previous b \<Rightarrow> silent a (step_preparing cfg w previous b s)
      | Reading w previous available b \<Rightarrow>
          (case a of SourceRead r \<Rightarrow> step_reading cfg w previous available b r s | _ \<Rightarrow> None)
      | Attempted w previous r b \<Rightarrow> silent a (step_attempted cfg w previous r b s)
      | Reserving w previous n b \<Rightarrow> silent a (step_reserving cfg m w previous n b s)
      | Checking d b \<Rightarrow>
          silent a (if_current cfg m (d_work d) (Admitting d b) (Releasing [Discard (d_work d)] (Processing b)) s)
      | Admitting d b \<Rightarrow> silent a (step_admitting cfg m d b s)
      | Releasing rs c \<Rightarrow> silent a (step_releasing cfg m rs c s)
      | Collecting k jobs b \<Rightarrow> silent a (step_collecting cfg m k jobs b s)
      | Requesting jobs b \<Rightarrow>
          (case a of Planned plan dispatch \<Rightarrow> Some (step_requesting cfg m jobs b plan dispatch s) | _ \<Rightarrow> None)
      | BatchDone b \<Rightarrow> silent a (step_batch_done b s)
      | Removed batch \<Rightarrow> silent a (step_removed batch s)
      | Settling \<Rightarrow>
          silent a (when_live cfg m (\<lambda>s. goto (Finalizing False) (on_runtime (\<lambda>st. st \<lparr> rs_batch_started_at := None \<rparr>) s)) s)
      | Finalizing starting \<Rightarrow> silent a (step_finalizing cfg m starting s)
      | Started \<Rightarrow> silent a (when_live cfg m (goto (Refreshing True)) s)
      | Refreshing starting \<Rightarrow> silent a (step_refreshing m starting s)
      | Quiet next_pending pending_empty \<Rightarrow> silent a (step_quiet m pending_empty s)
      | Persisting \<Rightarrow>
          (case a of CacheWritten r \<Rightarrow> Some (persist_dirty cfg m r s) | _ \<Rightarrow> None)
      | AfterPersist \<Rightarrow> silent a (goto Idle (on_runtime (refresh_status (wd_index s) (wd_store s)) s))
      | Stopped \<Rightarrow> None)"

definition coordinator_step :: "RuntimeConfig \<Rightarrow> Moment \<Rightarrow> Answer \<Rightarrow> 's World \<Rightarrow> 's World option" where
  "coordinator_step cfg m a s = control_step cfg m (wd_control s) a s"

text \<open>
  The steps of the whole: the callers submit, retire, activate and ask, the index changes under its
  own lock, and the coordinator runs.
\<close>

inductive runtime_step :: "RuntimeConfig \<Rightarrow> 's World \<Rightarrow> 's World \<Rightarrow> bool" for cfg where
  submitted: "runtime_step cfg s (s \<lparr> wd_runtime := submit cfg m path kind (wd_runtime s) \<rparr>)"
| retired: "runtime_step cfg s (s \<lparr> wd_runtime := retire (wd_runtime s) \<rparr>)"
| activated: "runtime_step cfg s (s \<lparr> wd_runtime := snd (activate cfg m (wd_runtime s)) \<rparr>)"
| asked: "runtime_step cfg s (s \<lparr> wd_runtime := snd (source_is_live cfg m (wd_runtime s)) \<rparr>)"
| indexed: "runtime_step cfg s (s \<lparr> wd_index := ix \<rparr>)"
| ran: "coordinator_step cfg m a s = Some s' \<Longrightarrow> runtime_step cfg s s'"

inductive runtime_reachable :: "RuntimeConfig \<Rightarrow> 's World \<Rightarrow> bool" for cfg where
  start: "runtime_reachable cfg (spawned cfg now initially_active ix)"
| step: "runtime_reachable cfg s \<Longrightarrow> runtime_step cfg s s' \<Longrightarrow> runtime_reachable cfg s'"

end
