(* ===== verification/RuntimeLedger.thy ===== *)
theory RuntimeLedger
  imports RuntimeRun
begin

text \<open>
  The ledger of the embedding runtime: what pending, in-flight, failed and finished work say about
  each path, while the coordinator holds a list of works. Each operation of
  src/src/vault/embedding_runtime.rs keeps it.
\<close>

abbreviation latest :: "RuntimeState \<Rightarrow> str \<Rightarrow> nat option" where
  "latest st \<equiv> map_of (rs_submitted st)"

definition held_at :: "PendingWork list \<Rightarrow> str \<Rightarrow> PendingWork option" where
  "held_at held = map_of (map (\<lambda>w. (w_path w, w)) held)"

lemma held_at_simps [simp]:
  "held_at [] p = None"
  "held_at (w # held) p = (if w_path w = p then Some w else held_at held p)"
  by (simp_all add: held_at_def)

lemma held_at_None [simp]: "held_at held p = None \<longleftrightarrow> p \<notin> w_path ` set held"
  by (force simp: held_at_def map_of_eq_None_iff)

lemma held_at_Some: "distinct (map w_path held) \<Longrightarrow> held_at held p = Some w \<longleftrightarrow> w \<in> set held \<and> w_path w = p"
  by (induction held) auto

lemma held_at_mset:
  assumes "mset xs = mset ys" and "distinct (map w_path xs)"
  shows "held_at xs = held_at ys"
proof
  fix p
  have "distinct (map w_path ys)" using assms by (metis mset_eq_imp_distinct_iff mset_map)
  with assms held_at_Some [of xs p] held_at_Some [of ys p] mset_eq_setD [OF assms(1)] show "held_at xs p = held_at ys p"
    by (metis option.exhaust)
qed

text \<open>
  The ledger of one path: pending work is the newest intent; a held work is in flight, and is the newest intent
  unless a newer one is pending; an intent that is neither was finished or has failed; the
  finished generations are past; a staged draft belongs to the newest intent.
\<close>

definition pending_newest :: "str \<Rightarrow> RuntimeState \<Rightarrow> bool" where
  "pending_newest p st \<longleftrightarrow>
     (\<forall>w. map_of (rs_pending st) p = Some w \<longrightarrow> w_path w = p \<and> latest st p = Some (w_generation w))"

definition held_newest :: "str \<Rightarrow> PendingWork option \<Rightarrow> RuntimeState \<Rightarrow> bool" where
  "held_newest p h st \<longleftrightarrow>
     (\<forall>w. h = Some w \<longrightarrow> (\<exists>g. latest st p = Some g
        \<and> (if map_of (rs_pending st) p = None then w_generation w = g else w_generation w < g)))"

definition none_lost :: "str \<Rightarrow> PendingWork option \<Rightarrow> RuntimeState \<Rightarrow> bool" where
  "none_lost p h st \<longleftrightarrow>
     (\<forall>g. latest st p = Some g \<longrightarrow> map_of (rs_pending st) p = None \<longrightarrow> h = None
        \<longrightarrow> (p, g) \<in> set (rs_finished st) \<or> map_of (rs_failures st) p \<noteq> None)"

definition finished_past :: "str \<Rightarrow> PendingWork option \<Rightarrow> RuntimeState \<Rightarrow> bool" where
  "finished_past p h st \<longleftrightarrow>
     (\<forall>g. (p, g) \<in> set (rs_finished st)
        \<longrightarrow> (\<exists>g'. latest st p = Some g' \<and> g \<le> g' \<and> (g = g' \<longrightarrow> map_of (rs_pending st) p = None \<and> h = None)))"

definition staged_newest :: "str \<Rightarrow> RuntimeState \<Rightarrow> bool" where
  "staged_newest p st \<longleftrightarrow>
     (\<forall>d. map_of (rs_staged st) p = Some d \<longrightarrow> w_path (d_work d) = p \<and> latest st p = Some (w_generation (d_work d)))"

definition path_ok :: "str \<Rightarrow> PendingWork option \<Rightarrow> RuntimeState \<Rightarrow> bool" where
  "path_ok p h st \<longleftrightarrow>
     pending_newest p st \<and> map_of (rs_inflight st) p = map_option (\<lambda>w. (w_generation w, w_kind w)) h
     \<and> held_newest p h st \<and> none_lost p h st \<and> finished_past p h st \<and> staged_newest p st"

lemma path_okD:
  assumes "path_ok p h st"
  shows "map_of (rs_pending st) p = Some w \<Longrightarrow> w_path w = p \<and> latest st p = Some (w_generation w)"
    and "map_of (rs_inflight st) p = map_option (\<lambda>w. (w_generation w, w_kind w)) h"
    and "h = Some w \<Longrightarrow> \<exists>g. latest st p = Some g \<and> (if map_of (rs_pending st) p = None then w_generation w = g else w_generation w < g)"
    and "latest st p = Some g \<Longrightarrow> map_of (rs_pending st) p = None \<Longrightarrow> h = None
      \<Longrightarrow> (p, g) \<in> set (rs_finished st) \<or> map_of (rs_failures st) p \<noteq> None"
    and "(p, g) \<in> set (rs_finished st) \<Longrightarrow> \<exists>g'. latest st p = Some g' \<and> g \<le> g' \<and> (g = g' \<longrightarrow> map_of (rs_pending st) p = None \<and> h = None)"
    and "map_of (rs_staged st) p = Some d \<Longrightarrow> w_path (d_work d) = p \<and> latest st p = Some (w_generation (d_work d))"
proof -
  have 1: "pending_newest p st" and 2: "map_of (rs_inflight st) p = map_option (\<lambda>w. (w_generation w, w_kind w)) h"
    and 3: "held_newest p h st" and 4: "none_lost p h st" and 5: "finished_past p h st" and 6: "staged_newest p st"
    using assms unfolding path_ok_def by blast+
  show "map_of (rs_pending st) p = Some w \<Longrightarrow> w_path w = p \<and> latest st p = Some (w_generation w)"
    using 1 unfolding pending_newest_def by blast
  show "map_of (rs_inflight st) p = map_option (\<lambda>w. (w_generation w, w_kind w)) h" by (rule 2)
  show "h = Some w \<Longrightarrow> \<exists>g. latest st p = Some g \<and> (if map_of (rs_pending st) p = None then w_generation w = g else w_generation w < g)"
    using 3 unfolding held_newest_def by blast
  show "latest st p = Some g \<Longrightarrow> map_of (rs_pending st) p = None \<Longrightarrow> h = None
      \<Longrightarrow> (p, g) \<in> set (rs_finished st) \<or> map_of (rs_failures st) p \<noteq> None"
    using 4 unfolding none_lost_def by blast
  show "(p, g) \<in> set (rs_finished st) \<Longrightarrow> \<exists>g'. latest st p = Some g' \<and> g \<le> g' \<and> (g = g' \<longrightarrow> map_of (rs_pending st) p = None \<and> h = None)"
    using 5 unfolding finished_past_def by blast
  show "map_of (rs_staged st) p = Some d \<Longrightarrow> w_path (d_work d) = p \<and> latest st p = Some (w_generation (d_work d))"
    using 6 unfolding staged_newest_def by blast
qed

lemmas path_parts = pending_newest_def held_newest_def none_lost_def finished_past_def staged_newest_def

lemma path_ok_mono:
  assumes ok: "path_ok p h st" and same: "latest st' p = latest st p" "map_of (rs_pending st') p = map_of (rs_pending st) p"
      "map_of (rs_inflight st') p = map_of (rs_inflight st) p" "map_of (rs_failures st') p = map_of (rs_failures st) p"
    and finished: "\<And>g. (p, g) \<in> set (rs_finished st') \<longleftrightarrow> (p, g) \<in> set (rs_finished st)"
    and staged: "\<And>d. map_of (rs_staged st') p = Some d \<Longrightarrow> map_of (rs_staged st) p = Some d"
  shows "path_ok p h st'"
proof -
  have "staged_newest p st'"
    unfolding staged_newest_def same by (intro allI impI, drule staged, erule path_okD(6) [OF ok])
  moreover have "pending_newest p st' = pending_newest p st" "held_newest p h st' = held_newest p h st"
      "none_lost p h st' = none_lost p h st" "finished_past p h st' = finished_past p h st"
    by (simp_all only: pending_newest_def held_newest_def none_lost_def finished_past_def same finished)
  ultimately show ?thesis using ok by (simp only: path_ok_def same)
qed

definition counter_ok :: "RuntimeState \<Rightarrow> bool" where
  "counter_ok st \<longleftrightarrow>
     rs_next_generation st = length (rs_submitted st) \<and> length (rs_submitted st) < 2 ^ 64
     \<and> (\<forall>(p, g) \<in> set (rs_submitted st). 0 < g \<and> g \<le> length (rs_submitted st)) \<and> distinct (rs_finished st)"

definition ledger :: "PendingWork list \<Rightarrow> RuntimeState \<Rightarrow> bool" where
  "ledger held st \<longleftrightarrow> counter_ok st \<and> distinct (map w_path held) \<and> (\<forall>p. path_ok p (held_at held p) st)"

lemma ledger_mset: "ledger xs st \<Longrightarrow> mset xs = mset ys \<Longrightarrow> ledger ys st"
  unfolding ledger_def by (metis held_at_mset mset_eq_imp_distinct_iff mset_map)

text \<open>What an operation may change without touching the ledger.\<close>

definition same_ledger :: "RuntimeState \<Rightarrow> RuntimeState \<Rightarrow> bool" where
  "same_ledger st st' \<longleftrightarrow>
     rs_pending st' = rs_pending st \<and> rs_inflight st' = rs_inflight st \<and> rs_submitted st' = rs_submitted st
     \<and> rs_finished st' = rs_finished st \<and> rs_failures st' = rs_failures st \<and> rs_next_generation st' = rs_next_generation st
     \<and> (\<forall>p d. map_of (rs_staged st') p = Some d \<longrightarrow> map_of (rs_staged st) p = Some d)"

lemma same_ledger_refl [simp]: "same_ledger st st"
  by (simp add: same_ledger_def)

lemma same_ledger_ok: "same_ledger st st' \<Longrightarrow> ledger held st \<Longrightarrow> ledger held st'"
  by (auto simp: same_ledger_def ledger_def counter_ok_def path_ok_def path_parts)

lemma update_pending_status_simps [simp]:
  "rs_pending (update_pending_status st) = rs_pending st"
  "rs_inflight (update_pending_status st) = rs_inflight st"
  "rs_submitted (update_pending_status st) = rs_submitted st"
  "rs_finished (update_pending_status st) = rs_finished st"
  "rs_failures (update_pending_status st) = rs_failures st"
  "rs_staged (update_pending_status st) = rs_staged st"
  "rs_next_generation (update_pending_status st) = rs_next_generation st"
  "rs_initial_remaining (update_pending_status st) = rs_initial_remaining st"
  by (simp_all add: update_pending_status_def Let_def)

lemma ledger_update_pending_status [simp]: "ledger held (update_pending_status st) = ledger held st"
  by (simp add: ledger_def counter_ok_def path_ok_def path_parts)

lemmas alist_maps = AList.update_conv' AList.delete_conv'

text \<open>An operation that only changes what the ledger says of one path.\<close>

definition changes_only :: "str \<Rightarrow> RuntimeState \<Rightarrow> RuntimeState \<Rightarrow> bool" where
  "changes_only p st st' \<longleftrightarrow>
     rs_submitted st' = rs_submitted st \<and> rs_next_generation st' = rs_next_generation st
     \<and> (\<forall>q. q \<noteq> p \<longrightarrow> map_of (rs_pending st') q = map_of (rs_pending st) q
          \<and> map_of (rs_inflight st') q = map_of (rs_inflight st) q
          \<and> map_of (rs_failures st') q = map_of (rs_failures st) q
          \<and> (\<forall>d. map_of (rs_staged st') q = Some d \<longrightarrow> map_of (rs_staged st) q = Some d)
          \<and> (\<forall>g. (q, g) \<in> set (rs_finished st') \<longleftrightarrow> (q, g) \<in> set (rs_finished st)))"

lemma ledger_change:
  assumes "ledger (w # held) st" and "changes_only (w_path w) st st'" and "distinct (rs_finished st')"
    and "path_ok (w_path w) None st'"
  shows "ledger held st'"
proof -
  have "path_ok q (held_at held q) st'" for q
  proof (cases "q = w_path w")
    case True
    with assms(1,4) show ?thesis by (auto simp: ledger_def held_at_None [THEN iffD2])
  next
    case False
    with assms(1) have "path_ok q (held_at held q) st" by (auto simp: ledger_def dest!: spec [of _ q])
    moreover have "latest st' q = latest st q" "map_of (rs_pending st') q = map_of (rs_pending st) q"
        "map_of (rs_inflight st') q = map_of (rs_inflight st) q" "map_of (rs_failures st') q = map_of (rs_failures st) q"
        "(q, g) \<in> set (rs_finished st') \<longleftrightarrow> (q, g) \<in> set (rs_finished st)"
        "map_of (rs_staged st') q = Some d \<Longrightarrow> map_of (rs_staged st) q = Some d" for g d
      using False assms(2) by (simp_all add: changes_only_def)
    ultimately show ?thesis by (rule path_ok_mono)
  qed
  with assms show ?thesis by (auto simp: ledger_def counter_ok_def changes_only_def)
qed

text \<open>What the ledger says of a held work.\<close>

lemma held_path_ok: "ledger (w # held) st \<Longrightarrow> path_ok (w_path w) (Some w) st"
  by (auto simp: ledger_def dest!: spec [of _ "w_path w"])

lemma held_inflight: "ledger (w # held) st \<Longrightarrow> map_of (rs_inflight st) (w_path w) = Some (w_generation w, w_kind w)"
  by (drule held_path_ok) (auto simp: path_ok_def path_parts)

lemma drop_inflight_held:
  "ledger (w # held) st \<Longrightarrow> drop_inflight w st = st \<lparr> rs_inflight := AList.delete (w_path w) (rs_inflight st) \<rparr>"
  by (simp add: drop_inflight_def held_inflight)

lemma held_current:
  assumes "ledger (w # held) st"
  shows "state_generation st (w_path w) = Some (w_generation w) \<longleftrightarrow> map_of (rs_pending st) (w_path w) = None"
    and "state_generation st (w_path w) = Some (w_generation w) \<longleftrightarrow> latest st (w_path w) = Some (w_generation w)"
proof -
  note p = held_path_ok [OF assms]
  obtain g where g: "latest st (w_path w) = Some g"
    "if map_of (rs_pending st) (w_path w) = None then w_generation w = g else w_generation w < g"
    using path_okD(3) [OF p refl] by (elim exE conjE)
  have n: "map_of (rs_pending st) (w_path w) = Some v \<Longrightarrow> w_generation v = g" for v
    using path_okD(1) [OF p] g(1) by simp
  show "state_generation st (w_path w) = Some (w_generation w) \<longleftrightarrow> map_of (rs_pending st) (w_path w) = None"
    using g(2) n by (cases "map_of (rs_pending st) (w_path w)") (auto simp: state_generation_def held_inflight [OF assms])
  show "state_generation st (w_path w) = Some (w_generation w) \<longleftrightarrow> latest st (w_path w) = Some (w_generation w)"
    using g n by (cases "map_of (rs_pending st) (w_path w)") (auto simp: state_generation_def held_inflight [OF assms])
qed

section \<open>Giving work back\<close>

definition stale :: "RuntimeState \<Rightarrow> PendingWork \<Rightarrow> bool" where
  "stale st w \<longleftrightarrow> latest st (w_path w) \<noteq> Some (w_generation w)"

lemma current_path:
  assumes "ledger (w # held) st" and "state_generation st (w_path w) = Some (w_generation w)"
  shows "map_of (rs_pending st) (w_path w) = None" "latest st (w_path w) = Some (w_generation w)"
    and "(w_path w, g) \<in> set (rs_finished st) \<Longrightarrow> g < w_generation w"
proof -
  show n: "map_of (rs_pending st) (w_path w) = None" and l: "latest st (w_path w) = Some (w_generation w)"
    using assms held_current [OF assms(1)] by simp_all
  show "g < w_generation w" if "(w_path w, g) \<in> set (rs_finished st)"
    using path_okD(5) [OF held_path_ok [OF assms(1)] that] l by auto
qed

lemma stale_path:
  assumes "ledger (w # held) st" and "state_generation st (w_path w) \<noteq> Some (w_generation w)"
  obtains v where "map_of (rs_pending st) (w_path w) = Some v" "w_path v = w_path w"
    "latest st (w_path w) = Some (w_generation v)"
proof -
  obtain v where v: "map_of (rs_pending st) (w_path w) = Some v"
    using assms(2) held_current(1) [OF assms(1)] by (cases "map_of (rs_pending st) (w_path w)") simp_all
  with path_okD(1) [OF held_path_ok [OF assms(1)] v] that show thesis by blast
qed

lemma ledger_stale:
  assumes "ledger (w # held) st" and "state_generation st (w_path w) \<noteq> Some (w_generation w)"
  shows "ledger held (st \<lparr> rs_inflight := AList.delete (w_path w) (rs_inflight st) \<rparr>)"
proof (rule ledger_change [OF assms(1)])
  obtain v where v: "map_of (rs_pending st) (w_path w) = Some v" "w_path v = w_path w"
    "latest st (w_path w) = Some (w_generation v)" by (rule stale_path [OF assms])
  note p = held_path_ok [OF assms(1)]
  show "path_ok (w_path w) None (st \<lparr> rs_inflight := AList.delete (w_path w) (rs_inflight st) \<rparr>)"
    using v path_okD(5,6) [OF p] by (auto simp: path_ok_def path_parts alist_maps)
qed (use assms(1) in \<open>auto simp: changes_only_def alist_maps ledger_def counter_ok_def\<close>)

text \<open>A current work goes back to the queue, with new time and attempt and, perhaps, its draft.\<close>

lemma ledger_back:
  assumes l: "ledger (w # held) st" and c: "state_generation st (w_path w) = Some (w_generation w)"
    and v: "w_path v = w_path w" "w_generation v = w_generation w"
    and pending: "rs_pending st' = AList.update (w_path w) v (rs_pending st)"
    and inflight: "rs_inflight st' = AList.delete (w_path w) (rs_inflight st)"
    and staged: "\<And>q d. map_of (rs_staged st') q = Some d \<Longrightarrow> map_of (rs_staged st) q = Some d \<or> q = w_path w \<and> d_work d = v"
    and failures: "\<And>q. q \<noteq> w_path w \<Longrightarrow> map_of (rs_failures st') q = map_of (rs_failures st) q"
    and rest: "rs_submitted st' = rs_submitted st" "rs_next_generation st' = rs_next_generation st" "rs_finished st' = rs_finished st"
  shows "ledger held st'"
proof (rule ledger_change [OF l])
  note p = held_path_ok [OF l]
  show "path_ok (w_path w) None st'"
    using current_path [OF l c] path_okD(6) [OF p] staged v
    unfolding path_ok_def path_parts pending inflight rest by (fastforce simp: alist_maps)
  show "changes_only (w_path w) st st'"
    using staged failures by (auto simp: changes_only_def alist_maps pending inflight rest)
  show "distinct (rs_finished st')" using l by (simp add: rest ledger_def counter_ok_def)
qed

lemma defer_pending_ledger:
  assumes l: "ledger (w # held) st"
  shows "ledger held (defer_pending now w st)"
proof (cases "state_generation st (w_path w) = Some (w_generation w)")
  case True
  then show ?thesis
    by (auto simp: defer_pending_def drop_inflight_def held_inflight [OF l]
        intro!: ledger_back [OF l True, where v = "w \<lparr> w_not_before := now \<rparr>"])
next
  case False
  with ledger_stale [OF l] show ?thesis by (simp add: defer_pending_def drop_inflight_held [OF l])
qed

lemma defer_work_ledger:
  assumes l: "ledger (d_work d # held) st"
  shows "ledger held (defer_work now d retain st)"
proof (cases "state_generation st (w_path (d_work d)) = Some (w_generation (d_work d))")
  case True
  then show ?thesis
    by (auto simp: defer_work_def Let_def drop_inflight_def held_inflight [OF l] alist_maps split: if_splits
        intro!: ledger_back [OF l True, where v = "d_work d \<lparr> w_not_before := now \<rparr>"])
next
  case False
  with ledger_stale [OF l] show ?thesis by (simp add: defer_work_def Let_def drop_inflight_held [OF l])
qed

lemma drop_stale_ledger:
  "ledger (w # held) st \<Longrightarrow> state_generation st (w_path w) \<noteq> Some (w_generation w) \<Longrightarrow> ledger held (drop_stale w st)"
  by (simp add: drop_stale_def ledger_stale)

lemma discard_inflight_ledger:
  "ledger (w # held) st \<Longrightarrow> stale st w \<Longrightarrow> ledger held (discard_inflight w st)"
  by (simp add: discard_inflight_def drop_inflight_held ledger_stale stale_def held_current(2))

lemma finish_success_ledger:
  assumes l: "ledger (w # held) st" and c: "state_generation st (w_path w) = Some (w_generation w)"
  shows "ledger held (finish_success w st)"
proof (rule ledger_change [OF l])
  note p = held_path_ok [OF l]
  show "path_ok (w_path w) None (finish_success w st)"
    using current_path [OF l c] path_okD(6) [OF p]
    by (fastforce simp: path_ok_def path_parts finish_success_def alist_maps)
  show "changes_only (w_path w) st (finish_success w st)"
    by (auto simp: changes_only_def finish_success_def alist_maps)
  show "distinct (rs_finished (finish_success w st))"
    using current_path(3) [OF l c] l by (auto simp: finish_success_def ledger_def counter_ok_def)
qed

lemma ledger_failed:
  assumes l: "ledger (w # held) st" and c: "state_generation st (w_path w) = Some (w_generation w)"
    and inflight: "rs_inflight st' = AList.delete (w_path w) (rs_inflight st)" and pending: "rs_pending st' = rs_pending st"
    and failures: "rs_failures st' = AList.update (w_path w) e (rs_failures st)"
    and staged: "rs_staged st' = AList.delete (w_path w) (rs_staged st)"
    and rest: "rs_submitted st' = rs_submitted st" "rs_next_generation st' = rs_next_generation st" "rs_finished st' = rs_finished st"
  shows "ledger held st'"
proof (rule ledger_change [OF l])
  show "path_ok (w_path w) None st'"
    using current_path [OF l c] unfolding path_ok_def path_parts pending inflight failures staged rest
    by (fastforce simp: alist_maps)
  show "changes_only (w_path w) st st'"
    by (auto simp: changes_only_def alist_maps pending inflight failures staged rest)
  show "distinct (rs_finished st')" using l by (simp add: rest ledger_def counter_ok_def)
qed

lemma retry_at_work:
  "retry_at now w hint = (v, deadline, note) \<Longrightarrow> w_path v = w_path w \<and> w_generation v = w_generation w \<and> w_kind v = w_kind w"
  by (auto simp: retry_at_def Let_def split: option.splits)

lemma record_failure_ledger:
  assumes l: "ledger (w # held) st"
  shows "ledger held (record_failure_message now w e hint staged st)"
proof (cases "state_generation st (w_path w) = Some (w_generation w)")
  case False
  then show ?thesis
    using l by (auto simp: record_failure_message_def Let_def drop_inflight_held ledger_stale split: prod.splits)
next
  case True
  obtain v deadline suffix where v: "retry_at now w hint = (v, deadline, suffix)" by (cases "retry_at now w hint")
  note sames = retry_at_work [OF v]
  show ?thesis
  proof (cases deadline)
    case None
    with True v sames show ?thesis
      by (auto simp: record_failure_message_def Let_def drop_inflight_held [OF l] intro: ledger_failed [OF l True])
  next
    case (Some t)
    with True v sames show ?thesis
      by (auto simp: record_failure_message_def Let_def drop_inflight_held [OF l] alist_maps split: option.splits if_splits
          intro!: ledger_back [OF l True, where v = "v \<lparr> w_not_before := t \<rparr>"])
  qed
qed

section \<open>New work\<close>

lemma latest_bound:
  assumes "counter_ok st" and "latest st p = Some g"
  shows "g \<le> length (rs_submitted st)"
  using assms map_of_SomeD [OF assms(2)] by (auto simp: counter_ok_def)

lemma next_generation_eq:
  assumes "counter_ok st" and "length (rs_submitted st) + 1 < 2 ^ 64"
  shows "next_generation st = (length (rs_submitted st) + 1, st \<lparr> rs_next_generation := length (rs_submitted st) + 1 \<rparr>)"
  using assms by (simp add: next_generation_def counter_ok_def)

lemma enqueue_eq:
  assumes "counter_ok st" and "length (rs_submitted st) + 1 < 2 ^ 64"
  shows "enqueue now p kind st =
    (let g = length (rs_submitted st) + 1 in
     st \<lparr> rs_next_generation := g,
          rs_pending := AList.update p \<lparr> w_path = p, w_generation = g, w_kind = kind, w_attempt = 0, w_not_before = now \<rparr> (rs_pending st),
          rs_submitted := (p, g) # rs_submitted st \<rparr>)"
  unfolding enqueue_def next_generation_eq [OF assms] by (simp add: Let_def)

lemma submitted_enqueue [simp]: "length (rs_submitted (enqueue now p kind st)) = Suc (length (rs_submitted st))"
  by (simp add: enqueue_def Let_def split: prod.splits) (simp add: next_generation_def Let_def)

text \<open>
  A new intent is pending and newer than anything known of its path; no draft of the path may be
  staged.
\<close>

lemma enqueue_ledger:
  assumes l: "ledger held st" and n: "length (rs_submitted (enqueue now p kind st)) < 2 ^ 64"
    and s: "map_of (rs_staged st) p = None"
  shows "ledger held (enqueue now p kind st)"
proof -
  let ?st = "enqueue now p kind st"
  have c: "counter_ok st" using l by (simp add: ledger_def)
  have "length (rs_submitted st) + 1 < 2 ^ 64" using n by simp
  note eq = enqueue_eq [OF c this, of now p kind, unfolded Let_def]
  have "path_ok q (held_at held q) ?st" for q
  proof (cases "q = p")
    case False
    moreover have "path_ok q (held_at held q) st" using l by (simp add: ledger_def)
    ultimately show ?thesis by (elim path_ok_mono) (simp_all add: eq alist_maps)
  next
    case True
    have ok: "path_ok p (held_at held p) st" using l by (simp add: ledger_def)
    have b: "g \<le> length (rs_submitted st)" if "latest st p = Some g" for g by (rule latest_bound [OF c that])
    have "held_newest p (held_at held p) ?st"
      unfolding held_newest_def eq using path_okD(3) [OF ok] b by (fastforce simp: alist_maps split: if_splits)
    moreover have "finished_past p (held_at held p) ?st"
      unfolding finished_past_def eq using path_okD(5) [OF ok] b by (fastforce simp: alist_maps)
    ultimately show ?thesis
      using path_okD(2) [OF ok] s True by (simp add: path_ok_def pending_newest_def none_lost_def staged_newest_def eq alist_maps)
  qed
  moreover have "counter_ok ?st" using c n by (auto simp: counter_ok_def eq)
  ultimately show ?thesis using l by (simp add: ledger_def)
qed

lemma take_each_ledger:
  assumes "ledger held st" and "\<And>p. map_of (rs_pending st) p \<noteq> None \<Longrightarrow> p \<notin> w_path ` set held"
    and "take_each ps st = (ws, st')"
  shows "ledger (rev ws @ held) st'"
  using assms
proof (induction ps arbitrary: held st ws)
  case (Cons p ps)
  show ?case
  proof (cases "map_of (rs_pending st) p")
    case None
    with Cons show ?thesis by simp
  next
    case (Some w)
    define st1 where "st1 = st \<lparr> rs_pending := AList.delete p (rs_pending st),
        rs_inflight := AList.update p (w_generation w, w_kind w) (rs_inflight st) \<rparr>"
    obtain vs where vs: "take_each ps st1 = (vs, st')" "ws = w # vs"
      using Cons.prems(3) Some by (auto simp: st1_def split: prod.splits)
    have c: "counter_ok st" "distinct (map w_path held)" and ok: "path_ok q (held_at held q) st" for q
      using Cons.prems(1) by (simp_all add: ledger_def)
    have w: "w_path w = p" "latest st p = Some (w_generation w)" using path_okD(1) [OF ok Some] by simp_all
    have fresh: "p \<notin> w_path ` set held" using Cons.prems(2) [of p] Some by simp
    have "path_ok q (held_at (w # held) q) st1" for q
    proof (cases "q = p")
      case False
      then have "path_ok q (held_at held q) st1"
        by (intro path_ok_mono [OF ok]) (simp_all add: st1_def alist_maps)
      with False w(1) show ?thesis by simp
    next
      case True
      have g: "g < w_generation w" if "(p, g) \<in> set (rs_finished st)" for g
        using path_okD(5) [OF ok that] Some w(2) by auto
      have "staged_newest p st" "finished_past p (held_at held p) st" using ok [of p] by (simp_all add: path_ok_def)
      with True w g show ?thesis
        by (auto simp: path_ok_def path_parts st1_def alist_maps)
    qed
    with c fresh w(1) have "ledger (w # held) st1"
      by (auto simp: ledger_def counter_ok_def st1_def)
    moreover have "q \<notin> w_path ` set (w # held)" if "map_of (rs_pending st1) q \<noteq> None" for q
      using that Cons.prems(2) [of q] w(1) by (auto simp: st1_def alist_maps split: if_splits)
    ultimately have "ledger (rev vs @ w # held) st'" by (rule Cons.IH [OF _ _ vs(1)])
    then show ?thesis by (simp add: vs(2))
  qed
qed simp

lemma take_due_batch_ledger:
  assumes "ledger [] st" and "take_due_batch cfg now st = ((batch, np, pe), st')"
  shows "ledger batch st'"
proof -
  obtain st1 where 1: "take_each (map fst (take (rc_batch_size cfg) (due_order (filter (\<lambda>(_, w). runnable now w) (rs_pending st))))) st = (batch, st1)"
    and 2: "st' = update_pending_status (st1 \<lparr> rs_batch_started_at := (if batch \<noteq> [] then Some now else None) \<rparr>)"
    using assms(2) by (auto simp: take_due_batch_def Let_def split: prod.splits)
  have "ledger (rev batch @ []) st1" by (rule take_each_ledger [OF assms(1) _ 1]) simp
  then have "ledger batch st1" by (rule ledger_mset) simp
  then show ?thesis by (auto simp: 2 intro: same_ledger_ok [rotated] simp: same_ledger_def)
qed

end
