(* ===== verification/RuntimeInv.thy ===== *)
theory RuntimeInv
  imports RuntimeLedger
begin

text \<open>
  The ledger of the embedding runtime (src/src/vault/embedding_runtime.rs) under every interleaving of
  submissions with the steps of the coordinator: what each point holds, and that each step keeps it.
\<close>

section \<open>Steps by point\<close>

lemma silent_Some [simp]: "silent a x = Some y \<longleftrightarrow> a = NoAnswer \<and> x = y"
  by (cases a) auto

lemma coordinator_cases [consumes 1, case_names Waiting Loading OpeningCache Publishing Idle Taking Observing
    Processing Resuming Preparing Reading Attempted Reserving Checking Admitting Releasing Collecting Requesting
    BatchDone Removed Settling Finalizing Started Refreshing Quiet Persisting AfterPersist]:
  assumes "coordinator_step cfg m a s = Some s'"
  obtains "wd_control s = Waiting" "s' = when_live cfg m step_waiting s"
  | r where "wd_control s = Loading" "s' = step_loading cfg m r s"
  | ps r where "wd_control s = OpeningCache ps" "s' = step_opening cfg m ps r s"
  | e q where "wd_control s = Publishing e q"
      "s' = goto (Finalizing True) (on_runtime (publish_loaded (m_now m) (wd_index s) e q) s)"
  | "wd_control s = Idle" "s' = when_live cfg m (goto Taking) s"
  | "wd_control s = Taking" "s' = step_taking cfg m s"
  | batch f where "wd_control s = Observing batch" "s' = step_observing m batch f s"
  | b where "wd_control s = Processing b" "s' = step_processing cfg m b s"
  | w b where "wd_control s = Resuming w b" "s' = step_resuming cfg w b s"
  | w previous b where "wd_control s = Preparing w previous b" "s' = step_preparing cfg w previous b s"
  | w previous available b r where "wd_control s = Reading w previous available b"
      "step_reading cfg w previous available b r s = Some s'"
  | w previous r b where "wd_control s = Attempted w previous r b" "s' = step_attempted cfg w previous r b s"
  | w previous n b where "wd_control s = Reserving w previous n b" "s' = step_reserving cfg m w previous n b s"
  | d b where "wd_control s = Checking d b"
      "s' = if_current cfg m (d_work d) (Admitting d b) (Releasing [Discard (d_work d)] (Processing b)) s"
  | d b where "wd_control s = Admitting d b" "s' = step_admitting cfg m d b s"
  | rs c where "wd_control s = Releasing rs c" "s' = step_releasing cfg m rs c s"
  | k jobs b where "wd_control s = Collecting k jobs b" "s' = step_collecting cfg m k jobs b s"
  | jobs b plan dispatch where "wd_control s = Requesting jobs b" "s' = step_requesting cfg m jobs b plan dispatch s"
  | b where "wd_control s = BatchDone b" "s' = step_batch_done b s"
  | batch where "wd_control s = Removed batch" "s' = step_removed batch s"
  | "wd_control s = Settling"
      "s' = when_live cfg m (\<lambda>s. goto (Finalizing False) (on_runtime (\<lambda>st. st \<lparr> rs_batch_started_at := None \<rparr>) s)) s"
  | starting where "wd_control s = Finalizing starting" "s' = step_finalizing cfg m starting s"
  | "wd_control s = Started" "s' = when_live cfg m (goto (Refreshing True)) s"
  | starting where "wd_control s = Refreshing starting" "s' = step_refreshing m starting s"
  | np pe where "wd_control s = Quiet np pe" "s' = step_quiet m pe s"
  | r where "wd_control s = Persisting" "s' = persist_dirty cfg m r s"
  | "wd_control s = AfterPersist" "s' = goto Idle (on_runtime (refresh_status (wd_index s) (wd_store s)) s)"
proof (cases "wd_control s")
  case Waiting
  with assms that(1) show thesis by (auto simp: coordinator_step_def control_step_def split: Answer.splits)
next
  case Loading
  with assms that(2) show thesis by (auto simp: coordinator_step_def control_step_def split: Answer.splits)
next
  case OpeningCache
  with assms that(3) show thesis by (auto simp: coordinator_step_def control_step_def split: Answer.splits)
next
  case Publishing
  with assms that(4) show thesis by (auto simp: coordinator_step_def control_step_def split: Answer.splits)
next
  case Idle
  with assms that(5) show thesis by (auto simp: coordinator_step_def control_step_def split: Answer.splits)
next
  case Taking
  with assms that(6) show thesis by (auto simp: coordinator_step_def control_step_def split: Answer.splits)
next
  case Observing
  with assms that(7) show thesis by (auto simp: coordinator_step_def control_step_def split: Answer.splits)
next
  case Processing
  with assms that(8) show thesis by (auto simp: coordinator_step_def control_step_def split: Answer.splits)
next
  case Resuming
  with assms that(9) show thesis by (auto simp: coordinator_step_def control_step_def split: Answer.splits)
next
  case Preparing
  with assms that(10) show thesis by (auto simp: coordinator_step_def control_step_def split: Answer.splits)
next
  case Reading
  with assms that(11) show thesis by (auto simp: coordinator_step_def control_step_def split: Answer.splits)
next
  case Attempted
  with assms that(12) show thesis by (auto simp: coordinator_step_def control_step_def split: Answer.splits)
next
  case Reserving
  with assms that(13) show thesis by (auto simp: coordinator_step_def control_step_def split: Answer.splits)
next
  case Checking
  with assms that(14) show thesis by (auto simp: coordinator_step_def control_step_def split: Answer.splits)
next
  case Admitting
  with assms that(15) show thesis by (auto simp: coordinator_step_def control_step_def split: Answer.splits)
next
  case Releasing
  with assms that(16) show thesis by (auto simp: coordinator_step_def control_step_def split: Answer.splits)
next
  case Collecting
  with assms that(17) show thesis by (auto simp: coordinator_step_def control_step_def split: Answer.splits)
next
  case Requesting
  with assms that(18) show thesis by (auto simp: coordinator_step_def control_step_def split: Answer.splits)
next
  case BatchDone
  with assms that(19) show thesis by (auto simp: coordinator_step_def control_step_def split: Answer.splits)
next
  case Removed
  with assms that(20) show thesis by (auto simp: coordinator_step_def control_step_def split: Answer.splits)
next
  case Settling
  with assms that(21) show thesis by (auto simp: coordinator_step_def control_step_def split: Answer.splits)
next
  case Finalizing
  with assms that(22) show thesis by (auto simp: coordinator_step_def control_step_def split: Answer.splits)
next
  case Started
  with assms that(23) show thesis by (auto simp: coordinator_step_def control_step_def split: Answer.splits)
next
  case Refreshing
  with assms that(24) show thesis by (auto simp: coordinator_step_def control_step_def split: Answer.splits)
next
  case Quiet
  with assms that(25) show thesis by (auto simp: coordinator_step_def control_step_def split: Answer.splits)
next
  case Persisting
  with assms that(26) show thesis by (auto simp: coordinator_step_def control_step_def split: Answer.splits)
next
  case AfterPersist
  with assms that(27) show thesis by (auto simp: coordinator_step_def control_step_def split: Answer.splits)
next
  case Stopped
  with assms show thesis by (simp add: coordinator_step_def control_step_def)
qed

section \<open>The source's liveness\<close>

lemma source_is_live_cases:
  assumes "source_is_live cfg m rt = (live, rt')"
  shows "live \<Longrightarrow> rt' = rt \<and> rt_live rt" and "\<not> live \<Longrightarrow> \<not> rt_live rt'"
    and "rs_staged (rt_state rt') = rs_staged (rt_state rt)" and "rs_submitted (rt_state rt') = rs_submitted (rt_state rt)"
  using assms
  by (auto simp: source_is_live_def record_terminal_failure_message_def replace_status_def Let_def split: if_splits option.splits)

section \<open>Held works\<close>

definition slot_works :: "StagedNote option list \<Rightarrow> PendingWork list" where
  "slot_works active = map d_work (slots active)"

definition batch_held :: "Batch \<Rightarrow> PendingWork list" where
  "batch_held b = b_queue b @ slot_works (b_active b)"

text \<open>The works the coordinator has taken and not given back at a point.\<close>

fun held :: "Control \<Rightarrow> PendingWork list" where
  "held (Observing batch) = batch"
| "held (Processing b) = batch_held b"
| "held (Resuming w b) = w # batch_held b"
| "held (Preparing w _ b) = w # batch_held b"
| "held (Reading w _ _ b) = w # batch_held b"
| "held (Attempted w _ _ b) = w # batch_held b"
| "held (Reserving w _ _ b) = w # batch_held b"
| "held (Checking d b) = d_work d # batch_held b"
| "held (Admitting d b) = d_work d # batch_held b"
| "held (Releasing rs c) = map release_work rs @ held c"
| "held (Collecting _ _ b) = batch_held b"
| "held (Requesting _ b) = batch_held b"
| "held (BatchDone b) = batch_held b"
| "held _ = []"

text \<open>What a point says of the state: discarded work is stale, and nothing is staged before the start.\<close>

fun plain :: "Control \<Rightarrow> bool" where
  "plain (Processing _) \<longleftrightarrow> True"
| "plain (Collecting _ _ _) \<longleftrightarrow> True"
| "plain (BatchDone _) \<longleftrightarrow> True"
| "plain (Removed _) \<longleftrightarrow> True"
| "plain _ \<longleftrightarrow> False"

fun point_ok :: "RuntimeState \<Rightarrow> Control \<Rightarrow> bool" where
  "point_ok st (Releasing rs c) \<longleftrightarrow> (\<forall>w. Discard w \<in> set rs \<longrightarrow> stale st w) \<and> plain c"
| "point_ok st Waiting \<longleftrightarrow> rs_staged st = []"
| "point_ok st Loading \<longleftrightarrow> rs_staged st = []"
| "point_ok st (OpeningCache _) \<longleftrightarrow> rs_staged st = []"
| "point_ok st (Publishing _ _) \<longleftrightarrow> rs_staged st = []"
| "point_ok st _ \<longleftrightarrow> True"

definition accounted :: "Control \<Rightarrow> Runtime \<Rightarrow> bool" where
  "accounted c rt \<longleftrightarrow>
     (rt_live rt \<longrightarrow> length (rs_submitted (rt_state rt)) < 2 ^ 64
        \<longrightarrow> ledger (held c) (rt_state rt) \<and> point_ok (rt_state rt) c)"

lemma point_ok_mono:
  assumes "point_ok st c" and "\<And>w. w \<in> set (held c) \<Longrightarrow> stale st w \<Longrightarrow> stale st' w" and "rs_staged st = [] \<Longrightarrow> rs_staged st' = []"
  shows "point_ok st' c"
proof (cases c)
  case (Releasing rs c')
  have "w \<in> set (held c)" if "Discard w \<in> set rs" for w
    using that Releasing by (auto intro!: image_eqI [of w release_work "Discard w"])
  with assms(1,2) Releasing show ?thesis by auto
qed (use assms(1,3) in simp_all)

lemma plain_point_ok: "plain c \<Longrightarrow> point_ok st c"
  by (cases c) simp_all

lemma accounted_same:
  assumes "accounted c rt" and "rt_live rt' \<Longrightarrow> rt_live rt \<and> same_ledger (rt_state rt) (rt_state rt')"
    and "mset (held c') = mset (held c)"
    and "point_ok (rt_state rt) c \<Longrightarrow> rt_live rt' \<Longrightarrow> point_ok (rt_state rt') c'"
  shows "accounted c' rt'"
  unfolding accounted_def
proof (intro impI)
  assume live: "rt_live rt'" and n: "length (rs_submitted (rt_state rt')) < 2 ^ 64"
  have s: "rt_live rt" "same_ledger (rt_state rt) (rt_state rt')" using assms(2) live by simp_all
  with n assms(1) have "ledger (held c) (rt_state rt)" "point_ok (rt_state rt) c"
    by (simp_all add: accounted_def same_ledger_def)
  with s(2) assms(3,4) live show "ledger (held c') (rt_state rt') \<and> point_ok (rt_state rt') c'"
    by (metis ledger_mset same_ledger_ok)
qed

lemma accounted_dead: "\<not> rt_live rt \<Longrightarrow> accounted c rt"
  by (simp add: accounted_def)

lemma accounted_when_live:
  assumes "accounted (wd_control s) (wd_runtime s)" and "rt_live (wd_runtime s) \<Longrightarrow> accounted (wd_control (f s)) (wd_runtime (f s))"
  shows "accounted (wd_control (when_live cfg m f s)) (wd_runtime (when_live cfg m f s))"
proof -
  obtain live rt where l: "source_is_live cfg m (wd_runtime s) = (live, rt)" by (cases "source_is_live cfg m (wd_runtime s)")
  with source_is_live_cases [OF l] assms(2) show ?thesis
    by (cases live) (auto simp: when_live_def goto_def accounted_dead)
qed

lemma accounted_if_current:
  assumes "accounted (wd_control s) (wd_runtime s)"
    and "mset (held c_yes) = mset (held (wd_control s))" "mset (held c_no) = mset (held (wd_control s))"
    and "w \<in> set (held (wd_control s))"
    and "point_ok (rt_state (wd_runtime s)) c_yes" "stale (rt_state (wd_runtime s)) w \<Longrightarrow> point_ok (rt_state (wd_runtime s)) c_no"
  shows "accounted (wd_control (if_current cfg m w c_yes c_no s)) (wd_runtime (if_current cfg m w c_yes c_no s))"
proof -
  obtain live rt where l: "source_is_live cfg m (wd_runtime s) = (live, rt)" by (cases "source_is_live cfg m (wd_runtime s)")
  show ?thesis
  proof (cases live)
    case False
    with l source_is_live_cases [OF l] show ?thesis
      by (simp add: if_current_def work_is_current_def if_live_def accounted_dead goto_def)
  next
    case True
    with source_is_live_cases [OF l] have rt: "rt = wd_runtime s" by simp
    let ?st = "rt_state (wd_runtime s)"
    have "stale ?st w" if "ledger (held (wd_control s)) ?st" "state_generation ?st (w_path w) \<noteq> Some (w_generation w)"
    proof -
      have "ledger (w # remove1 w (held (wd_control s))) ?st"
        by (rule ledger_mset [OF that(1)]) (simp add: assms(4))
      from held_current(2) [OF this] that(2) show ?thesis by (simp add: stale_def)
    qed
    with True l rt assms show ?thesis
      by (auto simp: if_current_def work_is_current_def if_live_def goto_def accounted_def intro: ledger_mset)
  qed
qed

lemma rs_submitted_simps [simp]:
  "rs_submitted (finish_success w st) = rs_submitted st"
  "rs_submitted (drop_stale w st) = rs_submitted st"
  "rs_submitted (discard_inflight w st) = rs_submitted st"
  "rs_submitted (defer_pending now w st) = rs_submitted st"
  "rs_submitted (defer_work now d retain st) = rs_submitted st"
  "rs_submitted (record_failure_message now w e hint staged st) = rs_submitted st"
  by (auto simp: finish_success_def drop_stale_def discard_inflight_def drop_inflight_def defer_pending_def defer_work_def
      record_failure_message_def Let_def split: prod.splits option.splits)

lemma on_state_simps [simp]:
  "rt_state (on_state f rt) = f (rt_state rt)" "rt_live (on_state f rt) = rt_live rt"
  by (simp_all add: on_state_def)

lemma commit_remove_ledger:
  assumes l: "ledger (w # ws) (rt_state rt)" and r: "commit_remove cfg m w (rt, store) = (answer, rt', store')" and live: "rt_live rt'"
  shows "rt_live rt \<and> ledger ((if isl answer then [w] else []) @ ws) (rt_state rt') \<and> rs_submitted (rt_state rt') = rs_submitted (rt_state rt)"
proof -
  obtain alive rt1 where s: "source_is_live cfg m rt = (alive, rt1)" by (cases "source_is_live cfg m rt")
  have "alive"
  proof (rule ccontr)
    assume "\<not> alive"
    with r s have "rt' = rt1" by (simp add: commit_remove_def)
    with source_is_live_cases(2) [OF s \<open>\<not> alive\<close>] live show False by simp
  qed
  with source_is_live_cases(1) [OF s] have rt: "rt1 = rt" "rt_live rt" by simp_all
  with r s \<open>alive\<close> l show ?thesis
    by (auto simp: commit_remove_def split: if_splits sum.splits intro: drop_stale_ledger finish_success_ledger)
qed

lemma commit_note_ledger:
  assumes l: "ledger (w # ws) (rt_state rt)" and r: "commit_note cfg m w e (rt, store) = (answer, rt', store')" and live: "rt_live rt'"
  shows "rt_live rt \<and> ledger ((if isl answer then [w] else []) @ ws) (rt_state rt') \<and> rs_submitted (rt_state rt') = rs_submitted (rt_state rt)"
proof -
  obtain alive rt1 where s: "source_is_live cfg m rt = (alive, rt1)" by (cases "source_is_live cfg m rt")
  have "alive"
  proof (rule ccontr)
    assume "\<not> alive"
    with r s have "rt' = rt1" by (simp add: commit_note_def)
    with source_is_live_cases(2) [OF s \<open>\<not> alive\<close>] live show False by simp
  qed
  with source_is_live_cases(1) [OF s] have rt: "rt1 = rt" "rt_live rt" by simp_all
  have q: "ledger ws (st \<lparr> rs_store_queryable := True \<rparr>)" if "ledger ws st" for st
    by (rule same_ledger_ok [OF _ that]) (simp add: same_ledger_def)
  from r s \<open>alive\<close> rt l show ?thesis
    by (auto simp: commit_note_def Let_def q drop_stale_ledger [OF l] finish_success_ledger [OF l] split: if_splits sum.splits)
qed

lemma mark_success_ledger:
  assumes l: "ledger (w # ws) (rt_state rt)" and live: "rt_live (mark_success cfg m w rt)"
  shows "rt_live rt \<and> ledger ws (rt_state (mark_success cfg m w rt))
    \<and> rs_submitted (rt_state (mark_success cfg m w rt)) = rs_submitted (rt_state rt)"
proof -
  obtain alive rt1 where s: "source_is_live cfg m rt = (alive, rt1)" by (cases "source_is_live cfg m rt")
  have "alive" using live s source_is_live_cases(2) [OF s] by (auto simp: mark_success_def split: if_splits)
  with source_is_live_cases(1) [OF s] have rt: "rt1 = rt" "rt_live rt" by simp_all
  with s \<open>alive\<close> l show ?thesis
    by (auto simp: mark_success_def intro: drop_stale_ledger finish_success_ledger)
qed

lemma release_live:
  assumes "run_release cfg m r (rt, store) = (answer, rt', store')" and "rt_live rt'"
  shows "rt_live rt \<and> rs_submitted (rt_state rt') = rs_submitted (rt_state rt)"
proof -
  obtain alive rt1 where s: "source_is_live cfg m rt = (alive, rt1)" by (cases "source_is_live cfg m rt")
  have q: "rs_submitted (let st' = finish_success w st in if rs_reconciliation_complete st' \<and> \<not> rs_store_queryable st'
      then st' \<lparr> rs_store_queryable := True \<rparr> else st') = rs_submitted st" for w st
    by (simp add: Let_def)
  from source_is_live_cases [OF s] assms s show ?thesis
    by (cases r; cases alive)
      (auto simp: commit_remove_def commit_note_def mark_success_def q split: if_splits sum.splits prod.splits)
qed

lemma release_ledger:
  assumes l: "ledger (release_work r # ws) (rt_state rt)" and d: "\<And>w. r = Discard w \<Longrightarrow> stale (rt_state rt) w"
    and r: "run_release cfg m r (rt, store) = (answer, rt', store')" and live: "rt_live rt'"
  shows "rt_live rt \<and> ledger (map release_work (after_release cfg r answer) @ ws) (rt_state rt') \<and> rs_submitted (rt_state rt') = rs_submitted (rt_state rt)"
proof (cases r)
  case (RemoveNote w)
  with l r have "ledger (w # ws) (rt_state rt)" "commit_remove cfg m w (rt, store) = (answer, rt', store')" by simp_all
  from commit_remove_ledger [OF this live] RemoveNote show ?thesis
    by (cases answer) (auto simp: after_release_def fail_with_def)
next
  case (CommitNote w e)
  with l r have "ledger (w # ws) (rt_state rt)" "commit_note cfg m w e (rt, store) = (answer, rt', store')" by simp_all
  from commit_note_ledger [OF this live] CommitNote show ?thesis
    by (cases answer) (auto simp: after_release_def fail_with_def)
next
  case (Succeed w)
  with mark_success_ledger [of w ws rt cfg m] live l r show ?thesis by (auto simp: after_release_def)
qed (use l d r live discard_inflight_ledger defer_pending_ledger defer_work_ledger record_failure_ledger in
      \<open>auto simp: after_release_def\<close>)

section \<open>Works through the steps\<close>

lemma slots_simps [simp]:
  "slots [] = []" "slots (None # xs) = slots xs" "slots (Some d # xs) = d # slots xs" "slots (xs @ ys) = slots xs @ slots ys"
  by (simp_all add: slots_def List.map_filter_def)

lemma slots_Cons: "slots (x # xs) = (case x of None \<Rightarrow> [] | Some d \<Rightarrow> [d]) @ slots xs"
  by (cases x) simp_all

lemma in_slots: "d \<in> set (slots active) \<longleftrightarrow> Some d \<in> set active"
  by (induction active) (auto simp: slots_Cons split: option.splits)

lemma fill_vector_simps [simp]:
  "d_work (fill_vector i v d) = d_work d" "d_prepared (fill_vector i v d) = d_prepared d"
  "d_hash_order (fill_vector i v d) = d_hash_order d" "d_memory_bytes (fill_vector i v d) = d_memory_bytes d"
  by (simp_all add: fill_vector_def Let_def)

lemma slots_map_update:
  "active ! k = Some d \<Longrightarrow> f d' = f d \<Longrightarrow> map f (slots (active[k := Some d'])) = map f (slots active)"
proof (induction active arbitrary: k)
  case (Cons x active)
  then show ?case by (cases k; cases x) auto
qed simp

lemma fill_all_map:
  assumes "\<And>i v d. f (fill_vector i v d) = f d"
  shows "map f (slots (fill_all jobs active)) = map f (slots active)"
  by (induction jobs active rule: fill_all.induct) (auto simp: assms slots_map_update split: option.splits)

lemma split_complete:
  "mset (slots (filter complete_slot active)) + mset (slots (map (\<lambda>s. if complete_slot s then None else s) active)) = mset (slots active)"
  by (induction active) (auto simp: slots_Cons complete_slot_def split: option.splits)

lemma enumerated_slots: "map snd (List.map_filter (\<lambda>(k, slot). map_option (Pair k) slot) (enumerate n active)) = slots active"
  by (induction active arbitrary: n) (auto simp: slots_Cons List.map_filter_def split: option.splits)

lemma release_work_simps [simp]:
  "release_work (publish_release cfg d) = d_work d" "release_work (fail_with cfg w e) = w"
  by (auto simp: publish_release_def fail_with_def split: sum.splits)

lemma publish_release_no_discard [simp]: "publish_release cfg d \<noteq> Discard w" "fail_with cfg v e \<noteq> Discard w"
    "Discard w \<noteq> publish_release cfg d" "Discard w \<noteq> fail_with cfg v e"
  by (auto simp: publish_release_def fail_with_def split: sum.splits)

lemma held_after_vectors: "mset (held (after_vectors cfg jobs vectors b)) = mset (batch_held b)"
proof -
  have "mset (map d_work (slots (fill_all (zip jobs vectors) (b_active b)))) = mset (map d_work (slots (b_active b)))"
    by (simp add: fill_all_map)
  with split_complete [of "fill_all (zip jobs vectors) (b_active b)", THEN arg_cong [where f = "image_mset d_work"]]
  show ?thesis
    by (simp add: after_vectors_def Let_def batch_held_def slot_works_def comp_def)
qed

lemma held_after_request_error: "held (after_request_error cfg affected e b) = slot_works (b_active b) @ b_queue b"
proof -
  let ?xs = "List.map_filter (\<lambda>(k, slot). map_option (Pair k) slot) (enumerate 0 (b_active b))"
  have "map release_work (map (\<lambda>(k, d). if k \<in> set affected
          then Fail (d_work d) (error_to_string cfg e) (retry_hint e) (Some d) else DeferDraft d True) ?xs) = map d_work (map snd ?xs)"
    by (auto simp: comp_def)
  moreover have "slots (map (\<lambda>_. None) (b_active b)) = []" by (induction "b_active b") (simp_all add: slots_def List.map_filter_def)
  ultimately show ?thesis
    by (simp add: after_request_error_def batch_held_def slot_works_def enumerated_slots)
qed

lemma groups_of_concat: "0 < n \<Longrightarrow> length xs \<le> fuel \<Longrightarrow> concat (groups_of n fuel xs) = xs"
  by (induction n fuel xs rule: groups_of.induct) auto

lemma batch_order_mset: "mset (batch_order batch) = mset batch"
proof -
  have split: "mset (concat (map (\<lambda>g. filter P g @ filter (\<lambda>w. \<not> P w) g) gs)) = mset (concat gs)" for P and gs :: "'a list list"
    by (induction gs) (simp_all add: multiset_partition [symmetric])
  have "mset (batch_order batch) = mset (concat (groups_of 32 (length batch) batch))"
    unfolding batch_order_def by (rule split)
  also have "\<dots> = mset batch" by (simp add: groups_of_concat)
  finally show ?thesis .
qed

lemma held_new_batch: "mset (held (Processing (new_batch batch pass))) = mset batch"
  by (simp add: new_batch_def batch_held_def slot_works_def batch_order_mset)

lemma slot_works_take:
  "active ! k = Some d \<Longrightarrow> k < length active \<Longrightarrow> mset (slot_works active) = add_mset (d_work d) (mset (slot_works (active[k := None])))"
proof (induction active arbitrary: k)
  case (Cons x active)
  then show ?case by (cases k; cases x) (auto simp: slot_works_def slots_Cons)
qed simp

section \<open>The ledger through the steps\<close>

lemma evict_sub: "map_of (snd (evict a r staged)) p = Some d \<Longrightarrow> map_of staged p = Some d"
proof (induction a r staged rule: evict.induct)
  case (1 a r staged)
  show ?case
  proof (cases "sat_add (sat_add a (paused_bytes staged)) r \<le> MAX_STAGING_BYTES \<or> oldest staged = None")
    case True
    then have "snd (evict a r staged) = staged" by (subst evict.simps) (auto simp del: oldest_None)
    with "1.prems" show ?thesis by simp
  next
    case False
    then obtain q e where o: "oldest staged = Some (q, e)" by (cases "oldest staged") auto
    with False "1.prems" have "map_of (snd (evict a r (AList.delete q staged))) p = Some d"
      by (simp add: evict.simps [of a r staged])
    with "1.IH" [OF _ o refl] False have "map_of (AList.delete q staged) p = Some d" by simp
    then show ?thesis by (simp add: alist_maps split: if_splits)
  qed
qed

lemma admit_staging_same: "admit_staging a r st = (ok, st') \<Longrightarrow> same_ledger st st'"
  using evict_sub [of a r "rs_staged st"] by (cases "evict a r (rs_staged st)") (auto simp: admit_staging_def same_ledger_def split: if_splits)

lemma after_attempt_same: "after_attempt a ov r st = (answer, st') \<Longrightarrow> same_ledger st st'"
  by (auto simp: after_attempt_def split: sum.splits option.splits prod.splits if_splits dest: admit_staging_same)

lemma on_runtime_simps [simp]:
  "wd_runtime (on_runtime f s) = on_state f (wd_runtime s)" "wd_control (on_runtime f s) = wd_control s"
  "wd_store (on_runtime f s) = wd_store s" "wd_index (on_runtime f s) = wd_index s"
  by (simp_all add: on_runtime_def)

lemma goto_simps [simp]:
  "wd_runtime (goto c s) = wd_runtime s" "wd_control (goto c s) = c" "wd_store (goto c s) = wd_store s"
  by (simp_all add: goto_def)

lemma same_ledger_submitted: "same_ledger st st' \<Longrightarrow> rs_submitted st' = rs_submitted st"
  by (simp add: same_ledger_def)

lemma stale_same: "rs_submitted st' = rs_submitted st \<Longrightarrow> stale st' w = stale st w"
  by (simp add: stale_def)

lemma accounted_state:
  assumes "accounted c rt" and "same_ledger (rt_state rt) st'" and "mset (held c') = mset (held c)" and "point_ok st' c'"
  shows "accounted c' (on_state (\<lambda>_. st') rt)"
  by (rule accounted_same [OF assms(1) _ assms(3)]) (use assms in simp_all)

lemma terminal_failure_simps [simp]:
  "rt_live (record_terminal_failure_message e n rt) = rt_live rt"
  "same_ledger (rt_state rt) (rt_state (record_terminal_failure_message e n rt))"
  "rs_staged (rt_state (record_terminal_failure_message e n rt)) = rs_staged (rt_state rt)"
  "rt_live (record_terminal_failure cfg ix er rt) = rt_live rt"
  "same_ledger (rt_state rt) (rt_state (record_terminal_failure cfg ix er rt))"
  "rs_staged (rt_state (record_terminal_failure cfg ix er rt)) = rs_staged (rt_state rt)"
  by (simp_all add: record_terminal_failure_def record_terminal_failure_message_def replace_status_def Let_def same_ledger_def)

lemma accounted_stop:
  assumes "accounted c rt" and "held c = []"
  shows "accounted Stopped rt" and "accounted Stopped (record_terminal_failure cfg ix e rt)"
  using assms by (auto intro: accounted_same)

definition enqueue_missing :: "nat \<Rightarrow> str \<times> PendingKind \<Rightarrow> RuntimeState \<Rightarrow> RuntimeState" where
  "enqueue_missing now = (\<lambda>(p, k) st. if map_of (rs_pending st) p = None then enqueue now p k st else st)"

lemma enqueue_missing_grows: "length (rs_submitted st) \<le> length (rs_submitted (fold (enqueue_missing now) works st))"
proof (induction works arbitrary: st)
  case (Cons w works)
  have "length (rs_submitted st) \<le> length (rs_submitted (enqueue_missing now w st))"
    by (cases w) (simp add: enqueue_missing_def)
  with Cons.IH [of "enqueue_missing now w st"] show ?case by simp
qed simp

lemma fold_enqueue_ledger:
  assumes "ledger [] st" and "rs_staged st = []" and "length (rs_submitted (fold (enqueue_missing now) works st)) < 2 ^ 64"
  shows "ledger [] (fold (enqueue_missing now) works st)"
  using assms
proof (induction works arbitrary: st)
  case (Cons w works)
  obtain p k where w: "w = (p, k)" by (cases w)
  have n: "length (rs_submitted (enqueue_missing now w st)) < 2 ^ 64"
    using enqueue_missing_grows [of "enqueue_missing now w st" now works] Cons.prems(3) by simp
  have "ledger [] (enqueue_missing now w st)"
    using Cons.prems n by (auto simp: enqueue_missing_def w intro: enqueue_ledger)
  moreover have "rs_staged (enqueue_missing now w st) = []"
    using Cons.prems(2) by (simp add: enqueue_missing_def w enqueue_def next_generation_def Let_def)
  ultimately show ?case using Cons.IH [of "enqueue_missing now w st"] Cons.prems(3) by simp
qed simp

lemma accounted_publish:
  assumes t: "accounted (Publishing e q) rt"
  shows "accounted (Finalizing True) (on_state (publish_loaded now ix e q') rt)"
  unfolding accounted_def
proof (intro impI)
  let ?works = "initial_embedding_work ix"
  define st where "st = (rt_state rt) \<lparr> rs_cache_error := e, rs_model := True, rs_store := True,
      rs_store_queryable := q', rs_initial_started := True, rs_initial_remaining := set (map fst ?works) \<rparr>"
  have p: "publish_loaded now ix e q' (rt_state rt) = update_pending_status (fold (enqueue_missing now) ?works st)"
    by (simp add: publish_loaded_def st_def enqueue_missing_def Let_def)
  assume live: "rt_live (on_state (publish_loaded now ix e q') rt)"
    and n: "length (rs_submitted (rt_state (on_state (publish_loaded now ix e q') rt))) < 2 ^ 64"
  have "length (rs_submitted (rt_state rt)) < 2 ^ 64"
    using n enqueue_missing_grows [of st now ?works] by (simp add: p) (simp add: st_def)
  with t live have "ledger [] (rt_state rt)" "rs_staged (rt_state rt) = []" by (simp_all add: accounted_def)
  then have "ledger [] st" "rs_staged st = []"
    by (auto simp: st_def same_ledger_def intro: same_ledger_ok [of "rt_state rt"])
  with n show "ledger (held (Finalizing True)) (rt_state (on_state (publish_loaded now ix e q') rt))
      \<and> point_ok (rt_state (on_state (publish_loaded now ix e q') rt)) (Finalizing True)"
    by (simp add: p fold_enqueue_ledger)
qed

lemma accounted_opening:
  assumes t: "accounted (wd_control s) (wd_runtime s)" and c: "wd_control s = OpeningCache ps"
  shows "accounted (wd_control (step_opening cfg m ps r s)) (wd_runtime (step_opening cfg m ps r s))"
proof -
  have stop: "accounted Stopped (record_terminal_failure cfg ix e (wd_runtime s))" for ix :: "'a VaultIndex" and e
    using accounted_stop(2) [OF t] c by simp
  have on: "accounted (Publishing x y) (wd_runtime s)" for x y
    using t by (rule accounted_same) (simp_all add: c)
  show ?thesis
  proof (cases "cache_outcome cfg (load_cache cfg (length ps) r)")
    case (Inl e)
    then show ?thesis by (simp add: step_opening_def stop)
  next
    case (Inr x)
    then show ?thesis
      by (cases x) (auto simp: step_opening_def Let_def stop on intro!: accounted_when_live [OF t] split: prod.splits sum.splits)
  qed
qed

lemma take_each_same: "take_each ps st = (ws, st') \<Longrightarrow> rs_submitted st' = rs_submitted st \<and> rs_staged st' = rs_staged st"
proof (induction ps arbitrary: st ws)
  case (Cons p ps)
  then show ?case by (fastforce simp: Let_def split: option.splits prod.splits)
qed simp

lemma accounted_taking:
  assumes t: "accounted (wd_control s) (wd_runtime s)" and c: "wd_control s = Taking"
  shows "accounted (wd_control (step_taking cfg m s)) (wd_runtime (step_taking cfg m s))"
proof -
  obtain batch np pe st where b: "take_due_batch cfg (m_now m) (rt_state (wd_runtime s)) = ((batch, np, pe), st)"
    by (metis prod.exhaust)
  have sub: "rs_submitted st = rs_submitted (rt_state (wd_runtime s))"
    using b by (auto simp: take_due_batch_def Let_def take_each_same split: prod.splits)
  have on: "accounted c' (on_state (\<lambda>_. st) (wd_runtime s))" if "mset (held c') = mset batch" "point_ok st c'" for c'
    unfolding accounted_def
  proof (intro impI)
    assume "rt_live (on_state (\<lambda>_. st) (wd_runtime s))"
      and "length (rs_submitted (rt_state (on_state (\<lambda>_. st) (wd_runtime s)))) < 2 ^ 64"
    with t c sub have "ledger [] (rt_state (wd_runtime s))" by (simp add: accounted_def)
    from ledger_mset [OF take_due_batch_ledger [OF this b]] that
    show "ledger (held c') (rt_state (on_state (\<lambda>_. st) (wd_runtime s)))
        \<and> point_ok (rt_state (on_state (\<lambda>_. st) (wd_runtime s))) c'" by simp
  qed
  have "accounted (Releasing (map RemoveNote batch) (Removed batch)) (on_state (\<lambda>_. st) (wd_runtime s))"
    by (rule on) (auto simp: comp_def)
  with on held_new_batch show ?thesis by (auto simp: step_taking_def b Let_def split: option.splits)
qed

lemma accounted_releasing:
  assumes t: "accounted (wd_control s) (wd_runtime s)" and c: "wd_control s = Releasing rs c"
  shows "accounted (wd_control (step_releasing cfg m rs c s)) (wd_runtime (step_releasing cfg m rs c s))"
proof (cases rs)
  case Nil
  have "accounted c (wd_runtime s)" using t by (rule accounted_same) (simp_all add: c Nil plain_point_ok)
  with Nil show ?thesis by (simp add: step_releasing_def)
next
  case (Cons r rs')
  obtain answer rt store where r: "run_release cfg m r (wd_runtime s, wd_store s) = (answer, rt, store)"
    by (metis prod.exhaust)
  have "accounted (Releasing (after_release cfg r answer @ rs') c) rt"
    unfolding accounted_def
  proof (intro impI)
    assume live: "rt_live rt" and n: "length (rs_submitted (rt_state rt)) < 2 ^ 64"
    have same: "rt_live (wd_runtime s)" "rs_submitted (rt_state rt) = rs_submitted (rt_state (wd_runtime s))"
      using release_live [OF r live] by simp_all
    have l: "ledger (release_work r # held (Releasing rs' c)) (rt_state (wd_runtime s))"
      and p: "point_ok (rt_state (wd_runtime s)) (Releasing rs c)"
      using t c n same by (simp_all add: accounted_def Cons)
    from release_ledger [OF l _ r live] p
    have "ledger (held (Releasing (after_release cfg r answer @ rs') c)) (rt_state rt)" by (simp add: Cons)
    moreover have "Discard w \<notin> set (after_release cfg r answer)" for w
      by (simp add: after_release_def fail_with_def split: sum.split)
    ultimately show "ledger (held (Releasing (after_release cfg r answer @ rs') c)) (rt_state rt)
        \<and> point_ok (rt_state rt) (Releasing (after_release cfg r answer @ rs') c)"
      using p by (simp add: Cons stale_same [OF same(2)])
  qed
  then show ?thesis by (simp add: step_releasing_def Cons r)
qed

lemma accounted_requesting:
  assumes t: "accounted (wd_control s) (wd_runtime s)" and c: "wd_control s = Requesting jobs b"
  shows "accounted (wd_control (step_requesting cfg m jobs b plan dispatch s)) (wd_runtime (step_requesting cfg m jobs b plan dispatch s))"
proof -
  obtain live rt where l: "source_is_live cfg m (wd_runtime s) = (live, rt)" by (cases "source_is_live cfg m (wd_runtime s)")
  obtain n r where e: "embed_wanted cfg live (rt_live rt) (length jobs) plan dispatch = (n, r)"
    by (cases "embed_wanted cfg live (rt_live rt) (length jobs) plan dispatch")
  have "accounted c' rt" if "mset (held c') = mset (batch_held b)" "\<And>st. point_ok st c'" for c'
  proof (cases live)
    case True
    with source_is_live_cases [OF l] t c that show ?thesis by (auto intro: accounted_same)
  next
    case False
    with source_is_live_cases [OF l] show ?thesis by (simp add: accounted_dead)
  qed
  moreover have "mset (held (after_request_error cfg (map fst (take n jobs)) e b)) = mset (batch_held b)" for e
    by (simp add: held_after_request_error batch_held_def)
  moreover have "point_ok st (after_request_error cfg (map fst (take n jobs)) e b)" for st e
    by (auto simp: after_request_error_def split: if_splits)
  moreover have "point_ok st (after_vectors cfg jobs vectors b)" for st jobs vectors
    by (auto simp: after_vectors_def Let_def)
  ultimately show ?thesis
    using held_after_vectors by (auto simp: step_requesting_def l e split: sum.splits)
qed

lemma accounted_persist:
  assumes t: "accounted (wd_control s) (wd_runtime s)" and c: "wd_control s = Persisting"
  shows "accounted (wd_control (persist_dirty cfg m r s)) (wd_runtime (persist_dirty cfg m r s))"
proof -
  obtain q rt where q: "persist_store cfg m (wd_store s) r (wd_runtime s) = (q, rt)" by (metis prod.exhaust)
  obtain live rt1 where l: "source_is_live cfg m (wd_runtime s) = (live, rt1)" by (cases "source_is_live cfg m (wd_runtime s)")
  have rt: "rt = wd_runtime s \<or> \<not> rt_live rt"
    using q l source_is_live_cases(1,2) [OF l]
    by (cases live) (auto simp: persist_store_def if_live_def split: sum.splits)
  have "accounted c' rt" if "held c' = []" "\<And>st. point_ok st c'" for c'
    using rt t c that by (auto intro: accounted_same accounted_dead)
  moreover have "accounted c' (on_state (\<lambda>st. st \<lparr> rs_persistence_error := e \<rparr>) rt)" if "held c' = []" "\<And>st. point_ok st c'" for c' e
    using rt t c that by (auto simp: same_ledger_def intro: accounted_same accounted_dead)
  moreover have "accounted Stopped (record_terminal_failure cfg (wd_index s) e rt)" for e
    using rt t c by (auto intro: accounted_same accounted_dead)
  ultimately show ?thesis
    by (auto simp: persist_dirty_def q Let_def split: sum.splits bool.splits)
qed

lemma accounted_coordinator:
  assumes step: "coordinator_step cfg m a s = Some s'" and t: "accounted (wd_control s) (wd_runtime s)"
    and idle: "\<And>b. wd_control s = BatchDone b \<Longrightarrow> batch_held b = []"
  shows "accounted (wd_control s') (wd_runtime s')"
proof -
  have on: "accounted c' (wd_runtime s)"
    if "mset (held c') = mset (held (wd_control s))" "point_ok (rt_state (wd_runtime s)) (wd_control s) \<Longrightarrow> point_ok (rt_state (wd_runtime s)) c'" for c'
    by (rule accounted_same [OF t _ that(1)]) (use that(2) in simp_all)
  have upd: "accounted c' (on_state (\<lambda>_. st') (wd_runtime s))"
    if "same_ledger (rt_state (wd_runtime s)) st'" "mset (held c') = mset (held (wd_control s))" "point_ok st' c'" for c' st'
    by (rule accounted_state [OF t that])
  from step show ?thesis
  proof (cases rule: coordinator_cases)
    case Waiting
    show ?thesis unfolding Waiting(2)
      by (rule accounted_when_live [OF t]) (auto simp: step_waiting_def Waiting(1) intro: on)
  next
    case (Loading r)
    show ?thesis
      using accounted_stop(2) [OF t] accounted_when_live [OF t] on
      by (auto simp: Loading step_loading_def split: sum.splits)
  next
    case (OpeningCache ps r)
    show ?thesis unfolding OpeningCache(2) by (rule accounted_opening [OF t OpeningCache(1)])
  next
    case (Publishing e q)
    with t show ?thesis by (simp add: accounted_publish)
  next
    case Idle
    show ?thesis unfolding Idle(2) by (rule accounted_when_live [OF t]) (auto simp: Idle(1) intro: on)
  next
    case Taking
    show ?thesis unfolding Taking(2) by (rule accounted_taking [OF t Taking(1)])
  next
    case (Observing batch f)
    with held_new_batch on show ?thesis by (simp add: step_observing_def Let_def)
  next
    case (Processing b)
    show ?thesis
      using on
      by (auto simp: Processing step_processing_def Let_def batch_held_def split: list.splits intro!: accounted_if_current [OF t])
  next
    case (Resuming w b)
    have "same_ledger (rt_state (wd_runtime s)) ((rt_state (wd_runtime s)) \<lparr> rs_staged := AList.delete (w_path w) (rs_staged (rt_state (wd_runtime s))) \<rparr>)"
      by (auto simp: same_ledger_def alist_maps split: if_splits)
    from upd [OF this] show ?thesis
      by (auto simp: Resuming step_resuming_def Let_def on_state_def split: option.splits)
  next
    case (Preparing w previous b)
    with on show ?thesis by (auto simp: step_preparing_def Let_def)
  next
    case (Reading w previous available b r)
    with on show ?thesis by (auto simp: step_reading_def split: sum.splits)
  next
    case (Attempted w previous r b)
    obtain answer st where a: "after_attempt (b_active_bytes b) (prepare_overhead cfg w previous) r (rt_state (wd_runtime s)) = (answer, st)"
      by (metis prod.exhaust)
    from upd [OF after_attempt_same [OF a]] show ?thesis
      by (auto simp: Attempted step_attempted_def a batch_held_def Let_def split: option.splits sum.splits PreparationOutcome.splits)
  next
    case (Reserving w previous n b)
    show ?thesis
      using on upd [OF admit_staging_same]
      by (auto simp: Reserving step_reserving_def Let_def new_draft_def split: sum.splits prod.splits)
  next
    case (Checking d b)
    show ?thesis unfolding Checking(2) by (rule accounted_if_current [OF t]) (simp_all add: Checking(1))
  next
    case (Admitting d b)
    show ?thesis
      using upd [OF admit_staging_same]
      by (auto simp: Admitting step_admitting_def Let_def batch_held_def slot_works_def split: prod.splits)
  next
    case (Releasing rs c)
    show ?thesis unfolding Releasing(2) by (rule accounted_releasing [OF t Releasing(1)])
  next
    case (Collecting k jobs b)
    show ?thesis
    proof (cases "k < length (b_active b)")
      case False
      with on show ?thesis by (simp add: Collecting step_collecting_def)
    next
      case True
      show ?thesis
      proof (cases "b_active b ! k")
        case None
        with on True show ?thesis by (simp add: Collecting step_collecting_def batch_held_def)
      next
        case (Some d)
        note take = slot_works_take [OF Some True]
        then have "d_work d \<in> set (slot_works (b_active b))" by (metis union_single_eq_member set_mset_mset)
        with take show ?thesis
          unfolding Collecting(2)
          by (auto simp: step_collecting_def True Some Collecting(1) batch_held_def intro!: accounted_if_current [OF t])
      qed
    qed
  next
    case (Requesting jobs b plan dispatch)
    show ?thesis unfolding Requesting(2) by (rule accounted_requesting [OF t Requesting(1)])
  next
    case (BatchDone b)
    with on [of Settling] idle show ?thesis by (simp add: step_batch_done_def Let_def)
  next
    case (Removed batch)
    with on show ?thesis by (simp add: step_removed_def)
  next
    case Settling
    show ?thesis unfolding Settling(2)
      by (rule accounted_when_live [OF t])
        (auto simp: Settling(1) on_state_def same_ledger_def intro!: upd [unfolded on_state_def])
  next
    case (Finalizing starting)
    obtain live rt where l: "source_is_live cfg m (wd_runtime s) = (live, rt)" by (cases "source_is_live cfg m (wd_runtime s)")
    show ?thesis
    proof (cases live)
      case False
      with source_is_live_cases(2) [OF l] l show ?thesis
        by (simp add: Finalizing step_finalizing_def finalize_reconciliation_if_complete_def accounted_dead)
    next
      case True
      with source_is_live_cases(1) [OF l] l show ?thesis
        by (auto simp: Finalizing step_finalizing_def finalize_reconciliation_if_complete_def Let_def on_state_def same_ledger_def
            intro!: on upd [unfolded on_state_def])
    qed
  next
    case Started
    show ?thesis unfolding Started(2) by (rule accounted_when_live [OF t]) (auto simp: Started(1) intro: on)
  next
    case (Refreshing starting)
    have "same_ledger (rt_state (wd_runtime s)) (refresh_status (wd_index s) (wd_store s) (rt_state (wd_runtime s)))"
      by (simp add: refresh_status_def replace_status_def Let_def same_ledger_def)
    from upd [OF this] show ?thesis by (auto simp: Refreshing step_refreshing_def Let_def on_state_def)
  next
    case (Quiet np pe)
    with on show ?thesis by (auto simp: step_quiet_def)
  next
    case (Persisting r)
    show ?thesis unfolding Persisting(2) by (rule accounted_persist [OF t Persisting(1)])
  next
    case AfterPersist
    have "same_ledger (rt_state (wd_runtime s)) (refresh_status (wd_index s) (wd_store s) (rt_state (wd_runtime s)))"
      by (simp add: refresh_status_def replace_status_def Let_def same_ledger_def)
    from upd [OF this] show ?thesis by (auto simp: AfterPersist on_state_def)
  qed
qed

section \<open>The ledger under the callers\<close>

lemma forget_failure_ledger:
  assumes "ledger ws st" and "map_of (rs_pending st) p \<noteq> None"
  shows "ledger ws (st \<lparr> rs_failures := AList.delete p (rs_failures st) \<rparr>)"
proof -
  let ?st = "st \<lparr> rs_failures := AList.delete p (rs_failures st) \<rparr>"
  have "path_ok q (held_at ws q) ?st" for q
  proof -
    have ok: "path_ok q (held_at ws q) st" using assms(1) by (simp add: ledger_def)
    have "pending_newest q ?st = pending_newest q st" "held_newest q h ?st = held_newest q h st"
        "finished_past q h ?st = finished_past q h st" "staged_newest q ?st = staged_newest q st" for h
      by (simp_all add: pending_newest_def held_newest_def finished_past_def staged_newest_def)
    moreover have "none_lost q (held_at ws q) ?st"
      using ok assms(2) by (cases "q = p") (auto simp: path_ok_def none_lost_def alist_maps)
    ultimately show ?thesis using ok by (simp add: path_ok_def)
  qed
  with assms(1) show ?thesis by (simp add: ledger_def counter_ok_def)
qed

definition submitted_state :: "nat \<Rightarrow> str \<Rightarrow> PendingKind \<Rightarrow> RuntimeState \<Rightarrow> RuntimeState" where
  "submitted_state now p kind st =
     update_pending_status (enqueue now p kind
       (st \<lparr> rs_staged := AList.delete p (rs_staged st), rs_failures := AList.delete p (rs_failures st) \<rparr>))"

lemma submitted_state_ledger:
  assumes "ledger ws st" and n: "length (rs_submitted (submitted_state now p kind st)) < 2 ^ 64"
  shows "ledger ws (submitted_state now p kind st)"
proof -
  let ?st = "st \<lparr> rs_staged := AList.delete p (rs_staged st) \<rparr>"
  have "ledger ws ?st"
    by (rule same_ledger_ok [OF _ assms(1)]) (simp add: same_ledger_def alist_maps)
  then have "ledger ws (enqueue now p kind ?st)"
    by (rule enqueue_ledger) (use n in \<open>simp_all add: submitted_state_def alist_maps\<close>)
  moreover have "map_of (rs_pending (enqueue now p kind ?st)) p \<noteq> None"
    by (simp add: enqueue_def next_generation_def Let_def alist_maps)
  ultimately have l: "ledger ws ((enqueue now p kind ?st) \<lparr> rs_failures := AList.delete p (rs_failures (enqueue now p kind ?st)) \<rparr>)"
    by (rule forget_failure_ledger)
  have "enqueue now p kind (st \<lparr> rs_staged := AList.delete p (rs_staged st), rs_failures := AList.delete p (rs_failures st) \<rparr>)
      = (enqueue now p kind ?st) \<lparr> rs_failures := AList.delete p (rs_failures (enqueue now p kind ?st)) \<rparr>"
    by (simp add: enqueue_def next_generation_def Let_def)
  with l show ?thesis by (simp add: submitted_state_def)
qed

lemma submit_cases:
  obtains "\<not> rt_live (submit cfg m path kind rt)" "rs_staged (rt_state (submit cfg m path kind rt)) = rs_staged (rt_state rt)"
  | "submit cfg m path kind rt = rt"
  | p where "normalize_intent_path cfg path = Inr p" "rt_live rt"
      "submit cfg m path kind rt = on_state (submitted_state (m_now m) p kind) rt"
proof -
  obtain live rt1 where l: "source_is_live cfg m rt = (live, rt1)" by (cases "source_is_live cfg m rt")
  show thesis
  proof (cases live)
    case False
    with l source_is_live_cases(2,3) [OF l] that(1) show thesis by (simp add: submit_def if_live_def)
  next
    case True
    with source_is_live_cases(1) [OF l] have "rt1 = rt" "rt_live rt" by simp_all
    with True l have eq: "submit cfg m path kind rt = (case normalize_intent_path cfg path of
        Inl e \<Rightarrow> rt | Inr p \<Rightarrow> if p = [] then rt else on_state (submitted_state (m_now m) p kind) rt)"
      by (simp add: submit_def if_live_def submitted_state_def on_state_def Let_def split: sum.splits)
    show thesis
    proof (cases "normalize_intent_path cfg path")
      case (Inl e)
      with eq show thesis by (intro that(2)) simp
    next
      case (Inr p)
      with eq \<open>rt_live rt\<close> show thesis by (cases "p = []") (auto intro: that(2,3))
    qed
  qed
qed

lemma accounted_submit:
  assumes t: "accounted c rt"
  shows "accounted c (submit cfg m path kind rt)"
proof (cases rule: submit_cases [of cfg m path kind rt])
  case (3 p)
  let ?st = "submitted_state (m_now m) p kind (rt_state rt)"
  show ?thesis
    unfolding accounted_def
  proof (intro impI)
    assume n: "length (rs_submitted (rt_state (submit cfg m path kind rt))) < 2 ^ 64"
    have less: "length (rs_submitted (rt_state rt)) < 2 ^ 64" using n by (simp add: 3 submitted_state_def)
    with t 3 have l: "ledger (held c) (rt_state rt)" and p: "point_ok (rt_state rt) c" by (simp_all add: accounted_def)
    have count: "counter_ok (rt_state rt)" using l by (simp add: ledger_def)
    have "stale ?st w" if "w \<in> set (held c)" "stale (rt_state rt) w" for w
    proof -
      have "held_at (held c) (w_path w) = Some w" using l that(1) by (subst held_at_Some) (simp_all add: ledger_def)
      moreover have "path_ok (w_path w) (held_at (held c) (w_path w)) (rt_state rt)" using l by (simp add: ledger_def)
      ultimately obtain g where "latest (rt_state rt) (w_path w) = Some g" "w_generation w \<le> g"
        using path_okD(3) by (metis less_imp_le order_refl)
      with latest_bound [OF count] have "w_generation w \<le> length (rs_submitted (rt_state rt))" by fastforce
      then show ?thesis
        using that(2) n 3 enqueue_eq [of "(rt_state rt) \<lparr> rs_staged := AList.delete p (rs_staged (rt_state rt)), rs_failures := AList.delete p (rs_failures (rt_state rt)) \<rparr>" "m_now m" p kind] count
        by (auto simp: stale_def submitted_state_def counter_ok_def Let_def)
    qed
    then have "point_ok ?st c"
      by (rule point_ok_mono [OF p]) (simp_all add: submitted_state_def enqueue_def next_generation_def Let_def)
    moreover have "ledger (held c) ?st" using n by (intro submitted_state_ledger [OF l]) (simp add: 3)
    ultimately show "ledger (held c) (rt_state (submit cfg m path kind rt)) \<and> point_ok (rt_state (submit cfg m path kind rt)) c"
      by (simp add: 3)
  qed
qed (use t in \<open>simp_all add: accounted_dead\<close>)

end
