(* ===== verification/RuntimeDrafts.thy ===== *)
theory RuntimeDrafts
  imports RuntimeRun
begin

text \<open>
  Drafts of the embedding runtime (src/src/vault/embedding_runtime.rs): chunks with one input share
  their vector, an incomplete draft always asks for something, and the memory of staged and active
  drafts stays within the budget.
\<close>

section \<open>Chunks with the same input\<close>

definition same_hash :: "PreparedNote \<Rightarrow> nat list \<Rightarrow> nat list" where
  "same_hash n h = filter (\<lambda>j. chunk_hash n j = h) [0..<length (pn_chunks n)]"

definition uniform :: "StagedNote \<Rightarrow> bool" where
  "uniform d \<longleftrightarrow>
     (\<forall>i < length (d_vectors d). \<forall>j < length (d_vectors d).
        chunk_hash (d_prepared d) i = chunk_hash (d_prepared d) j \<longrightarrow> d_vectors d ! i = None \<longrightarrow> d_vectors d ! j = None)"

definition draft_ok :: "StagedNote \<Rightarrow> bool" where
  "draft_ok d \<longleftrightarrow>
     length (d_vectors d) = length (pn_chunks (d_prepared d)) \<and> d_hash_order d = hash_order (d_prepared d) \<and> uniform d"

lemma sorted_segment:
  fixes f :: "'a \<Rightarrow> 'b::linorder"
  assumes "sorted (map f xs)"
  shows "drop (partition_point (\<lambda>x. f x < h) xs) (take (partition_point (\<lambda>x. f x \<le> h) xs) xs) = filter (\<lambda>x. f x = h) xs"
  using assms
proof (induction xs)
  case (Cons x xs)
  consider "f x < h" | "f x = h" | "h < f x" by (rule linorder_cases)
  then show ?case
  proof cases
    case 1
    then have "f x \<le> h" "f x \<noteq> h" by simp_all
    with 1 Cons show ?thesis by (simp add: partition_point_def)
  next
    case 2
    with Cons.prems have "takeWhile (\<lambda>x. f x < h) xs = []" by (cases xs) auto
    with 2 Cons show ?thesis by (simp add: partition_point_def)
  next
    case 3
    with Cons.prems have "filter (\<lambda>x. f x = h) xs = []" by (auto simp: filter_empty_conv)
    with 3 show ?thesis by (auto simp: partition_point_def)
  qed
qed (simp add: partition_point_def)

lemma same_segment:
  assumes "draft_ok d" and "h = chunk_hash (d_prepared d) i"
  shows "drop (first_same d i) (take (end_same d i) (d_hash_order d)) = same_hash (d_prepared d) h"
proof -
  have o: "d_hash_order d = sort_key (chunk_hash (d_prepared d)) [0..<length (pn_chunks (d_prepared d))]"
    using assms(1) by (simp add: draft_ok_def hash_order_def)
  have "sorted (map (chunk_hash (d_prepared d)) (d_hash_order d))" by (simp add: o)
  from sorted_segment [OF this, of h] show ?thesis
    by (simp add: first_same_def end_same_def assms(2) same_hash_def) (simp add: o sort_key_stable)
qed

lemma first_same_hd:
  assumes "draft_ok d" and "i < length (pn_chunks (d_prepared d))"
  shows "d_hash_order d ! first_same d i = hd (same_hash (d_prepared d) (chunk_hash (d_prepared d) i))"
proof -
  let ?s = "drop (first_same d i) (take (end_same d i) (d_hash_order d))"
  have "i \<in> set (same_hash (d_prepared d) (chunk_hash (d_prepared d) i))" using assms(2) by (simp add: same_hash_def)
  then have ne: "?s \<noteq> []" unfolding same_segment [OF assms(1) refl] by auto
  then have "hd ?s = take (end_same d i) (d_hash_order d) ! first_same d i" by (subst hd_drop_conv_nth) auto
  also have "\<dots> = d_hash_order d ! first_same d i" using ne by (intro nth_take) auto
  finally show ?thesis unfolding same_segment [OF assms(1) refl] by simp
qed

section \<open>Incomplete drafts ask\<close>

lemma wanted_bound: "i \<in> set (wanted_chunks d) \<Longrightarrow> i < length (pn_chunks (d_prepared d)) \<and> d_vectors d ! i = None"
  by (auto simp: wanted_chunks_def)

lemma incomplete_wants:
  assumes ok: "draft_ok d" and "\<not> draft_complete d"
  shows "wanted_chunks d \<noteq> []"
proof -
  let ?n = "d_prepared d"
  have len: "length (d_vectors d) = length (pn_chunks ?n)" using ok by (simp add: draft_ok_def)
  obtain i where i: "i < length (pn_chunks ?n)" "d_vectors d ! i = None"
    using assms(2) len by (auto simp: draft_complete_def list_all_length)
  let ?s = "same_hash ?n (chunk_hash ?n i)"
  define j where "j = hd ?s"
  have "i \<in> set ?s" using i(1) by (simp add: same_hash_def)
  then have "j \<in> set ?s" by (cases ?s) (auto simp: j_def)
  then have j: "j < length (pn_chunks ?n)" "chunk_hash ?n j = chunk_hash ?n i" by (auto simp: same_hash_def)
  have "uniform d" using ok by (simp add: draft_ok_def)
  then have "d_vectors d ! j = None" using i j len unfolding uniform_def by metis
  moreover have "d_hash_order d ! first_same d j = j"
    using first_same_hd [OF ok j(1)] j(2) by (simp add: j_def)
  ultimately have "j \<in> set (wanted_chunks d)" using j(1) len by (simp add: wanted_chunks_def)
  then show ?thesis by auto
qed

section \<open>New drafts and filled ones\<close>

lemma reused_vectors_same:
  assumes "i < length (pn_chunks n)" "j < length (pn_chunks n)" "chunk_hash n i = chunk_hash n j"
  shows "reused_vectors previous n ! i = reused_vectors previous n ! j"
  using assms by (cases previous) (simp_all add: reused_vectors_def chunk_hash_def)

lemma new_draft_ok: "draft_ok (new_draft now w n previous bytes)"
proof -
  have len: "length (reused_vectors previous n) = length (pn_chunks n)" by (simp add: reused_vectors_def)
  have "uniform (new_draft now w n previous bytes)"
    unfolding uniform_def by (simp add: new_draft_def len) (metis reused_vectors_same)
  with len show ?thesis by (simp add: draft_ok_def new_draft_def)
qed

lemma fill_fold_nth:
  assumes "j < length vs" and "\<And>k. k \<in> set ks \<Longrightarrow> k < length vs"
  shows "fold (\<lambda>k vs. if k \<noteq> i \<and> vs ! k = None then vs[k := Some v] else vs) ks vs ! j
    = (if j \<in> set ks \<and> j \<noteq> i \<and> vs ! j = None then Some v else vs ! j)"
  using assms by (induction ks arbitrary: vs) (auto simp: nth_list_update)

lemma fill_fold_length [simp]:
  "length (fold (\<lambda>k vs. if k \<noteq> i \<and> vs ! k = None then vs[k := Some v] else vs) ks vs) = length vs"
  by (induction ks arbitrary: vs) auto

lemma fill_vector_nth:
  assumes "draft_ok d" and "i < length (pn_chunks (d_prepared d))" and "j < length (pn_chunks (d_prepared d))"
  shows "d_vectors (fill_vector i v d) ! j =
    (if j = i then Some v
     else if chunk_hash (d_prepared d) j = chunk_hash (d_prepared d) i \<and> d_vectors d ! j = None then Some v else d_vectors d ! j)"
proof -
  have len: "length (d_vectors d) = length (pn_chunks (d_prepared d))" using assms(1) by (simp add: draft_ok_def)
  let ?s = "same_hash (d_prepared d) (chunk_hash (d_prepared d) i)"
  let ?vs = "fold (\<lambda>k vs. if k \<noteq> i \<and> vs ! k = None then vs[k := Some v] else vs) ?s (d_vectors d)"
  have "?vs ! j = (if j \<in> set ?s \<and> j \<noteq> i \<and> d_vectors d ! j = None then Some v else d_vectors d ! j)"
    using assms(3) len by (intro fill_fold_nth) (auto simp: same_hash_def)
  moreover have "d_vectors (fill_vector i v d) = ?vs[i := Some v]"
    unfolding fill_vector_def Let_def same_segment [OF assms(1) refl] by simp
  ultimately show ?thesis using assms(2,3) len by (auto simp: nth_list_update same_hash_def)
qed

lemma fill_vector_ok:
  assumes "draft_ok d" and "i < length (pn_chunks (d_prepared d))"
  shows "draft_ok (fill_vector i v d)"
proof -
  have len: "length (d_vectors (fill_vector i v d)) = length (pn_chunks (d_prepared d))"
    and keep: "d_prepared (fill_vector i v d) = d_prepared d" "d_hash_order (fill_vector i v d) = d_hash_order d"
    using assms(1) by (simp_all add: fill_vector_def Let_def draft_ok_def)
  moreover have "uniform (fill_vector i v d)"
    unfolding uniform_def len keep
  proof (intro allI impI)
    fix j k
    assume b: "j < length (pn_chunks (d_prepared d))" "k < length (pn_chunks (d_prepared d))"
      and h: "chunk_hash (d_prepared d) j = chunk_hash (d_prepared d) k" and none: "d_vectors (fill_vector i v d) ! j = None"
    have j: "j \<noteq> i" "chunk_hash (d_prepared d) j \<noteq> chunk_hash (d_prepared d) i" "d_vectors d ! j = None"
      using none unfolding fill_vector_nth [OF assms b(1)] by (auto split: if_splits)
    have "uniform d" "length (d_vectors d) = length (pn_chunks (d_prepared d))" using assms(1) by (simp_all add: draft_ok_def)
    with b h j(3) have "d_vectors d ! k = None" unfolding uniform_def by metis
    with j h show "d_vectors (fill_vector i v d) ! k = None"
      unfolding fill_vector_nth [OF assms b(2)] by auto
  qed
  ultimately show ?thesis using assms(1) by (simp add: draft_ok_def)
qed

end
