(* ===== verification/RuntimeSafe.thy ===== *)
theory RuntimeSafe
  imports RuntimeInv RuntimeDrafts
begin

text \<open>
  What the invariants of the embedding runtime (src/src/vault/embedding_runtime.rs) give: no work is
  published that a newer intent has replaced, no intent is lost, the coordinator holds nothing when
  it is idle, and unpublished drafts stay within 64 MiB.
\<close>

section \<open>The shape of a point\<close>

definition active_ok :: "Batch \<Rightarrow> bool" where
  "active_ok b \<longleftrightarrow> (\<forall>d \<in> set (slots (b_active b)). draft_ok d \<and> \<not> draft_complete d)"

definition jobs_ok :: "(nat \<times> nat) list \<Rightarrow> Batch \<Rightarrow> bool" where
  "jobs_ok jobs b \<longleftrightarrow>
     (\<forall>(k, i) \<in> set jobs. k < length (b_active b) \<and> (\<forall>d. b_active b ! k = Some d \<longrightarrow> i < length (pn_chunks (d_prepared d))))"

fun release_drafts :: "Release \<Rightarrow> StagedNote list" where
  "release_drafts (DeferDraft d True) = [d]"
| "release_drafts (Fail _ _ _ (Some d)) = [d]"
| "release_drafts _ = []"

text \<open>
  Drafts are well formed, those waiting for vectors are incomplete, requests name chunks there are,
  and a round of collecting that asks nothing has emptied its slots.
\<close>

fun shape :: "Control \<Rightarrow> bool" where
  "shape (Processing b) = active_ok b"
| "shape (Resuming _ b) = active_ok b"
| "shape (Preparing _ _ b) = active_ok b"
| "shape (Reading _ _ _ b) = active_ok b"
| "shape (Attempted _ _ _ b) = active_ok b"
| "shape (Reserving _ _ _ b) = active_ok b"
| "shape (Checking d b) = (draft_ok d \<and> active_ok b)"
| "shape (Admitting d b) = (draft_ok d \<and> active_ok b)"
| "shape (Releasing rs c) = ((\<forall>r \<in> set rs. \<forall>d \<in> set (release_drafts r). draft_ok d) \<and> shape c)"
| "shape (Collecting k jobs b) =
     (active_ok b \<and> b_queue b = [] \<and> jobs_ok jobs b
      \<and> (jobs = [] \<longrightarrow> (\<forall>j < k. j < length (b_active b) \<longrightarrow> b_active b ! j = None)))"
| "shape (Requesting jobs b) = (active_ok b \<and> b_queue b = [] \<and> jobs_ok jobs b)"
| "shape (BatchDone b) = (b_queue b = [] \<and> slots (b_active b) = [])"
| "shape _ = True"

definition staged_ok :: "RuntimeState \<Rightarrow> bool" where
  "staged_ok st \<longleftrightarrow> (\<forall>(p, d) \<in> set (rs_staged st). draft_ok d)"

lemma draft_ok_work [simp]: "draft_ok (d \<lparr> d_work := w \<rparr>) = draft_ok d" "draft_ok (d \<lparr> d_last_used := t \<rparr>) = draft_ok d"
  by (simp_all add: draft_ok_def uniform_def)

lemma in_alist_update: "x \<in> set (AList.update k v t) \<Longrightarrow> x = (k, v) \<or> x \<in> set t"
  by (induction t) (auto split: if_splits)

lemma staged_ok_update: "staged_ok st \<Longrightarrow> draft_ok d \<Longrightarrow> staged_ok (st \<lparr> rs_staged := AList.update p d (rs_staged st) \<rparr>)"
  by (auto simp: staged_ok_def dest!: in_alist_update)

lemma staged_ok_delete: "staged_ok st \<Longrightarrow> staged_ok (st \<lparr> rs_staged := AList.delete p (rs_staged st) \<rparr>)"
  by (auto simp: staged_ok_def AList.delete_eq)

lemma staged_ok_cong: "rs_staged st' = rs_staged st \<Longrightarrow> staged_ok st' = staged_ok st"
  by (simp add: staged_ok_def)

lemma evict_subset: "set (snd (evict a r staged)) \<subseteq> set staged"
proof (induction a r staged rule: evict.induct)
  case (1 a r staged)
  show ?case
  proof (cases "sat_add (sat_add a (paused_bytes staged)) r \<le> MAX_STAGING_BYTES \<or> oldest staged = None")
    case True
    then have "snd (evict a r staged) = staged" by (subst evict.simps) (auto simp del: oldest_None)
    then show ?thesis by simp
  next
    case False
    then obtain q e where o: "oldest staged = Some (q, e)" by (cases "oldest staged") auto
    with False have "evict a r staged = evict a r (AList.delete q staged)"
      by (subst evict.simps) simp
    with "1.IH" [OF _ o refl] False show ?thesis by (auto simp: AList.delete_eq)
  qed
qed

lemma admit_staged_ok: "admit_staging a r st = (ok, st') \<Longrightarrow> staged_ok st \<Longrightarrow> staged_ok st'"
  using evict_subset [of a r "rs_staged st"]
  by (cases "evict a r (rs_staged st)") (fastforce simp: admit_staging_def staged_ok_def split: if_splits)

lemma attempt_staged_ok: "after_attempt a ov r st = (answer, st') \<Longrightarrow> staged_ok st \<Longrightarrow> staged_ok st'"
  by (auto simp: after_attempt_def split: sum.splits option.splits prod.splits if_splits dest: admit_staged_ok)

section \<open>The shape through the steps\<close>

lemma slots_empty_iff: "slots active = [] \<longleftrightarrow> (\<forall>j < length active. active ! j = None)"
proof -
  have "slots active = [] \<longleftrightarrow> (\<forall>x \<in> set active. x = None)"
  proof (induction active)
    case (Cons x xs)
    then show ?case by (cases x) simp_all
  qed simp
  then show ?thesis unfolding all_set_conv_all_nth .
qed

lemma slots_update_None: "set (slots (active[k := None])) \<subseteq> set (slots active)"
  using set_update_subset_insert [of active k None] by (auto simp: in_slots)

lemma rs_staged_simps [simp]:
  "rs_staged (drop_inflight w st) = rs_staged st" "rs_staged (discard_inflight w st) = rs_staged st"
  "rs_staged (defer_pending now w st) = rs_staged st"
  by (simp_all add: drop_inflight_def discard_inflight_def defer_pending_def Let_def)

lemma release_staged_ok:
  assumes r: "run_release cfg m r (rt, store) = (answer, rt', store')" and ok: "staged_ok (rt_state rt)"
    and d: "\<And>d. d \<in> set (release_drafts r) \<Longrightarrow> draft_ok d"
  shows "staged_ok (rt_state rt')"
proof -
  have upd: "staged_ok (update_pending_status st) = staged_ok st" for st by (rule staged_ok_cong) simp
  have inf: "staged_ok (drop_inflight w st) = staged_ok st" for w st
    by (rule staged_ok_cong) (simp add: drop_inflight_def)
  have fin: "staged_ok (finish_success w st) = staged_ok st" "staged_ok (drop_stale w st) = staged_ok st" for w st
    by (simp_all add: finish_success_def drop_stale_def upd staged_ok_def)
  have fail: "staged_ok (record_failure_message now w e hint sd st)"
    if "staged_ok st" "\<And>d. sd = Some d \<Longrightarrow> draft_ok d" for now w e hint sd st
  proof -
    have "staged_ok (drop_inflight w st)" using that(1) by (simp add: inf)
    with that(2) show ?thesis
      by (auto simp: record_failure_message_def Let_def upd staged_ok_def AList.delete_eq
          split: prod.splits option.splits dest!: in_alist_update)
  qed
  obtain alive rt1 where s: "source_is_live cfg m rt = (alive, rt1)" by (cases "source_is_live cfg m rt")
  have ok1: "staged_ok (rt_state rt1)" using source_is_live_cases(3) [OF s] ok by (simp add: staged_ok_def)
  show ?thesis
  proof (cases r)
    case (RemoveNote w)
    with r s ok1 show ?thesis
      by (auto simp: commit_remove_def fin split: if_splits sum.splits)
  next
    case (CommitNote w e)
    have q: "staged_ok (st \<lparr> rs_store_queryable := True \<rparr>) = staged_ok st" for st by (simp add: staged_ok_def)
    from CommitNote r s ok1 show ?thesis
      by (auto simp: commit_note_def Let_def q fin split: if_splits sum.splits)
  next
    case (Succeed w)
    with r s ok1 show ?thesis by (auto simp: mark_success_def fin)
  next
    case (DeferDraft d keep)
    have "staged_ok (defer_work now d keep (rt_state rt))" for now
    proof (cases keep)
      case True
      with DeferDraft d have "draft_ok d" by simp
      with ok show ?thesis
        by (auto simp: defer_work_def Let_def upd inf staged_ok_def dest!: in_alist_update)
    next
      case False
      with ok show ?thesis by (auto simp: defer_work_def Let_def upd inf staged_ok_def drop_inflight_def)
    qed
    with DeferDraft r show ?thesis by auto
  next
    case (Fail w e h sd)
    have "staged_ok (record_failure_message (m_now m) w e h sd (rt_state rt))"
      by (rule fail [OF ok]) (use d Fail in auto)
    with Fail r show ?thesis by auto
  qed (use r ok in \<open>auto simp: staged_ok_def\<close>)
qed

lemma fill_all_ok:
  assumes "\<forall>d \<in> set (slots active). draft_ok d"
    and "\<And>k i v d. ((k, i), v) \<in> set jobs \<Longrightarrow> active ! k = Some d \<Longrightarrow> i < length (pn_chunks (d_prepared d))"
    and "\<And>k i v. ((k, i), v) \<in> set jobs \<Longrightarrow> k < length active"
  shows "\<forall>d \<in> set (slots (fill_all jobs active)). draft_ok d"
  using assms
proof (induction jobs active rule: fill_all.induct)
  case (2 k i v rest active)
  have rest: "i' < length (pn_chunks (d_prepared e))" if "((k', i'), u) \<in> set rest" "active ! k' = Some e" for k' i' u e
    using 2(3) [of k' i' u e] that by simp
  have slot: "k' < length active" if "((k', i'), u) \<in> set rest" for k' i' u
    using 2(4) [of k' i' u] that by simp
  show ?case
  proof (cases "active ! k")
    case None
    then have "fill_all (((k, i), v) # rest) active = fill_all rest active" by simp
    moreover have "\<forall>d \<in> set (slots (fill_all rest active)). draft_ok d"
      by (rule 2(1) [unfolded None option.case]) (rule 2(2), erule (1) rest, erule slot)
    ultimately show ?thesis by simp
  next
    case (Some d)
    let ?active = "active[k := Some (fill_vector i v d)]"
    have k: "k < length active" "i < length (pn_chunks (d_prepared d))"
      using 2(4) [of k i v] 2(3) [of k i v d] Some by simp_all
    have "d \<in> set (slots active)" unfolding in_slots Some [symmetric] using k(1) by (rule nth_mem)
    with 2(2) have "draft_ok d" by blast
    then have "draft_ok (fill_vector i v d)" by (rule fill_vector_ok) (rule k(2))
    then have ok: "\<forall>d \<in> set (slots ?active). draft_ok d"
      using 2(2) set_update_subset_insert [of active k "Some (fill_vector i v d)"] by (auto simp: in_slots)
    have range: "i' < length (pn_chunks (d_prepared e))" if "((k', i'), u) \<in> set rest" "?active ! k' = Some e" for k' i' u e
    proof (cases "k' = k")
      case True
      with that k(1) have "e = fill_vector i v d" by simp
      with 2(3) [of k i' u d] that(1) True Some show ?thesis by simp
    next
      case False
      with 2(3) [of k' i' u e] that show ?thesis by simp
    qed
    have "\<forall>d \<in> set (slots (fill_all rest ?active)). draft_ok d"
      by (rule 2(1) [unfolded Some option.case]) (rule ok, erule (1) range, simp add: slot)
    with Some show ?thesis by simp
  qed
qed simp

definition drafts_ok :: "Control \<Rightarrow> RuntimeState \<Rightarrow> bool" where
  "drafts_ok c st \<longleftrightarrow> shape c \<and> staged_ok st"

lemma release_drafts_simps [simp]: "release_drafts (publish_release cfg d) = []" "release_drafts (fail_with cfg w e) = []"
  by (simp_all add: publish_release_def fail_with_def split: sum.splits)

lemma active_ok_simps [simp]:
  "active_ok (b \<lparr> b_queue := q \<rparr>) = active_ok b" "active_ok (b \<lparr> b_source_failed := x \<rparr>) = active_ok b"
  by (simp_all add: active_ok_def)

lemma new_batch_active [simp]: "active_ok (new_batch batch pass)"
  by (simp add: active_ok_def new_batch_def)

lemma when_live_drafts:
  assumes "staged_ok (rt_state (wd_runtime s))"
    and "staged_ok (rt_state (wd_runtime s)) \<Longrightarrow> drafts_ok (wd_control (f s)) (rt_state (wd_runtime (f s)))"
  shows "drafts_ok (wd_control (when_live cfg m f s)) (rt_state (wd_runtime (when_live cfg m f s)))"
proof -
  obtain live rt where l: "source_is_live cfg m (wd_runtime s) = (live, rt)" by (cases "source_is_live cfg m (wd_runtime s)")
  with source_is_live_cases(1,3) [OF l] assms show ?thesis
    by (cases live) (auto simp: when_live_def drafts_ok_def staged_ok_def)
qed

lemma if_current_drafts:
  assumes "staged_ok (rt_state (wd_runtime s))" and "shape c_yes" and "shape c_no"
  shows "drafts_ok (wd_control (if_current cfg m w c_yes c_no s)) (rt_state (wd_runtime (if_current cfg m w c_yes c_no s)))"
proof -
  obtain live rt where l: "source_is_live cfg m (wd_runtime s) = (live, rt)" by (cases "source_is_live cfg m (wd_runtime s)")
  with source_is_live_cases(1,3) [OF l] assms show ?thesis
    by (cases live) (auto simp: if_current_def work_is_current_def if_live_def drafts_ok_def staged_ok_def)
qed

lemma update_None_Some: "xs[k := None] ! j = Some d \<Longrightarrow> xs ! j = Some d"
  by (cases "k < length xs") (auto simp: nth_list_update not_less list_update_beyond split: if_splits)

lemma collecting_drafts:
  assumes s: "shape (Collecting k jobs b)" and st: "staged_ok (rt_state (wd_runtime s))"
  shows "drafts_ok (wd_control (step_collecting cfg m k jobs b s)) (rt_state (wd_runtime (step_collecting cfg m k jobs b s)))"
proof (cases "k < length (b_active b)")
  case False
  with s st show ?thesis
    by (auto simp: step_collecting_def drafts_ok_def slots_empty_iff)
next
  case k: True
  show ?thesis
  proof (cases "b_active b ! k")
    case None
    with s st k show ?thesis by (auto simp: step_collecting_def drafts_ok_def less_Suc_eq)
  next
    case (Some d)
    have "d \<in> set (slots (b_active b))" unfolding in_slots Some [symmetric] using k by (rule nth_mem)
    with s have d: "draft_ok d" "\<not> draft_complete d" by (auto simp: active_ok_def)
    have yes: "shape (Collecting (Suc k) (jobs @ map (Pair k) (wanted_chunks d)) b)"
      using s k incomplete_wants [OF d] Some by (auto simp: jobs_ok_def dest: wanted_bound)
    have "jobs_ok jobs (b \<lparr> b_active := (b_active b)[k := None], b_active_bytes := n \<rparr>)" for n
      using s by (auto simp: jobs_ok_def dest!: update_None_Some)
    then have no: "shape (Releasing [Discard (d_work d)] (Collecting (Suc k) jobs (b \<lparr> b_active := (b_active b)[k := None],
        b_active_bytes := b_active_bytes b - d_memory_bytes d \<rparr>)))"
      using s slots_update_None [of "b_active b" k] by (auto simp: active_ok_def less_Suc_eq nth_list_update)
    from if_current_drafts [OF st yes no] show ?thesis by (simp add: step_collecting_def k Some)
  qed
qed

lemma requesting_drafts:
  assumes s: "shape (Requesting jobs b)" and st: "staged_ok (rt_state (wd_runtime s))"
  shows "drafts_ok (wd_control (step_requesting cfg m jobs b plan dispatch s)) (rt_state (wd_runtime (step_requesting cfg m jobs b plan dispatch s)))"
proof -
  obtain live rt where l: "source_is_live cfg m (wd_runtime s) = (live, rt)" by (cases "source_is_live cfg m (wd_runtime s)")
  have st': "staged_ok (rt_state rt)" using source_is_live_cases(3) [OF l] st by (simp add: staged_ok_def)
  have "shape (after_vectors cfg (take n jobs) vectors b)" for n vectors
  proof -
    let ?active = "fill_all (zip (take n jobs) vectors) (b_active b)"
    have "\<forall>d \<in> set (slots ?active). draft_ok d"
    proof (rule fill_all_ok)
      show "\<forall>d \<in> set (slots (b_active b)). draft_ok d" using s by (auto simp: active_ok_def)
      fix k i v
      assume "((k, i), v) \<in> set (zip (take n jobs) vectors)"
      then have "(k, i) \<in> set jobs" by (meson in_set_takeD set_zip_leftD)
      then show "k < length (b_active b)" and "b_active b ! k = Some d \<Longrightarrow> i < length (pn_chunks (d_prepared d))" for d
        using s by (auto simp: jobs_ok_def)
    qed
    moreover have "d \<in> set (slots ?active) \<and> \<not> draft_complete d"
      if "d \<in> set (slots (map (\<lambda>slot. if complete_slot slot then None else slot) ?active))" for d
      using that by (auto simp: in_slots complete_slot_def split: if_splits option.splits)
    ultimately show ?thesis using s by (auto simp: after_vectors_def Let_def active_ok_def jobs_ok_def)
  qed
  moreover have "shape (after_request_error cfg affected e b)" for affected e
  proof -
    let ?xs = "List.map_filter (\<lambda>(k, slot). map_option (Pair k) slot) (enumerate 0 (b_active b))"
    have "draft_ok d" if "(k, d) \<in> set ?xs" for k d
    proof -
      have "d \<in> set (map snd ?xs)" using that by force
      with s show ?thesis unfolding enumerated_slots by (auto simp: active_ok_def)
    qed
    moreover have "slots (map (\<lambda>_. None) (b_active b)) = []" by (simp add: slots_empty_iff)
    ultimately show ?thesis using s by (auto simp: after_request_error_def split: if_splits)
  qed
  ultimately show ?thesis
    using st' by (auto simp: step_requesting_def l drafts_ok_def split: sum.splits prod.splits)
qed

lemma take_due_batch_staged:
  assumes "take_due_batch cfg now st = (x, st')"
  shows "rs_staged st' = rs_staged st"
proof -
  let ?due = "take (rc_batch_size cfg) (due_order (filter (\<lambda>(_, w). runnable now w) (rs_pending st)))"
  obtain batch st1 where 1: "take_each (map fst ?due) st = (batch, st1)" by (metis prod.exhaust)
  with assms have "rs_staged st' = rs_staged st1" by (auto simp: take_due_batch_def)
  with take_each_same [OF 1] show ?thesis by simp
qed

lemma staged_publish_loaded: "rs_staged (publish_loaded now ix e q st) = rs_staged st"
proof -
  have "rs_staged (enqueue_missing now w st) = rs_staged st" for w st
    by (cases w) (simp add: enqueue_missing_def enqueue_def next_generation_def Let_def)
  then have "rs_staged (fold (enqueue_missing now) works st) = rs_staged st" for works st
    by (induction works arbitrary: st) simp_all
  then show ?thesis by (simp add: publish_loaded_def Let_def enqueue_missing_def [symmetric])
qed

lemma drafts_coordinator:
  assumes step: "coordinator_step cfg m a s = Some s'"
    and ok: "drafts_ok (wd_control s) (rt_state (wd_runtime s))"
  shows "drafts_ok (wd_control s') (rt_state (wd_runtime s'))"
proof -
  have st: "staged_ok (rt_state (wd_runtime s))" and c: "shape (wd_control s)" using ok by (simp_all add: drafts_ok_def)
  have terminal: "staged_ok (rt_state (record_terminal_failure cfg ix e (wd_runtime s)))" for ix :: "'a VaultIndex" and e
    using st by (simp add: staged_ok_def)
  from step show ?thesis
  proof (cases rule: coordinator_cases)
    case Waiting
    show ?thesis unfolding Waiting(2) by (rule when_live_drafts [OF st]) (simp add: step_waiting_def drafts_ok_def)
  next
    case (Loading r)
    then show ?thesis
      using terminal by (auto simp: step_loading_def drafts_ok_def split: sum.splits intro!: when_live_drafts [OF st, unfolded drafts_ok_def])
  next
    case (OpeningCache ps r)
    then show ?thesis
      using terminal by (auto simp: step_opening_def Let_def drafts_ok_def split: sum.splits prod.splits
          intro!: when_live_drafts [OF st, unfolded drafts_ok_def])
  next
    case (Publishing e q)
    with st show ?thesis by (simp add: drafts_ok_def staged_publish_loaded staged_ok_def)
  next
    case Idle
    show ?thesis unfolding Idle(2) by (rule when_live_drafts [OF st]) (simp add: drafts_ok_def)
  next
    case Taking
    obtain batch np pe st' where b: "take_due_batch cfg (m_now m) (rt_state (wd_runtime s)) = ((batch, np, pe), st')"
      by (metis prod.exhaust)
    have "staged_ok st'" using st take_due_batch_staged [OF b] by (simp add: staged_ok_def)
    with Taking b show ?thesis by (auto simp: step_taking_def Let_def drafts_ok_def split: option.splits)
  next
    case (Observing batch f)
    with st show ?thesis by (simp add: step_observing_def drafts_ok_def Let_def)
  next
    case (Processing b)
    with c have "active_ok b" by simp
    with st show ?thesis
      by (auto simp: Processing step_processing_def Let_def drafts_ok_def active_ok_def jobs_ok_def split: list.splits
          intro!: if_current_drafts [OF st, unfolded drafts_ok_def])
  next
    case (Resuming w b)
    have "draft_ok d" if "map_of (rs_staged (rt_state (wd_runtime s))) (w_path w) = Some d" for d
      using map_of_SomeD [OF that] st by (auto simp: staged_ok_def)
    with Resuming c staged_ok_delete [OF st] show ?thesis
      by (auto simp: step_resuming_def Let_def drafts_ok_def on_state_def split: option.splits)
  next
    case (Preparing w previous b)
    with c st show ?thesis by (auto simp: step_preparing_def Let_def drafts_ok_def)
  next
    case (Reading w previous available b r)
    with c st show ?thesis by (auto simp: step_reading_def drafts_ok_def split: sum.splits)
  next
    case (Attempted w previous r b)
    obtain answer st' where a: "after_attempt (b_active_bytes b) (prepare_overhead cfg w previous) r (rt_state (wd_runtime s)) = (answer, st')"
      by (metis prod.exhaust)
    with attempt_staged_ok [OF a st] c show ?thesis
      by (auto simp: Attempted step_attempted_def Let_def drafts_ok_def split: option.splits sum.splits PreparationOutcome.splits)
  next
    case (Reserving w previous n b)
    with c st show ?thesis
      by (auto simp: step_reserving_def Let_def drafts_ok_def new_draft_ok split: sum.splits prod.splits dest: admit_staged_ok)
  next
    case (Checking d b)
    show ?thesis unfolding Checking(2) by (rule if_current_drafts [OF st]) (use c in \<open>simp_all add: Checking(1)\<close>)
  next
    case (Admitting d b)
    with c st show ?thesis
      by (auto simp: step_admitting_def Let_def drafts_ok_def active_ok_def split: prod.splits dest: admit_staged_ok)
  next
    case (Releasing rs c')
    show ?thesis
    proof (cases rs)
      case Nil
      with Releasing c st show ?thesis by (simp add: step_releasing_def drafts_ok_def)
    next
      case (Cons r rs')
      obtain answer rt store where r: "run_release cfg m r (wd_runtime s, wd_store s) = (answer, rt, store)"
        by (metis prod.exhaust)
      have "release_drafts q = []" if "q \<in> set (after_release cfg r answer)" for q
        using that by (cases answer) (simp_all add: after_release_def fail_with_def)
      moreover
      have "staged_ok (rt_state rt)" using c by (intro release_staged_ok [OF r st]) (simp add: Releasing Cons)
      ultimately show ?thesis using c by (auto simp: Releasing Cons step_releasing_def r drafts_ok_def)
    qed
  next
    case (Collecting k jobs b)
    show ?thesis unfolding Collecting(2) by (rule collecting_drafts [OF _ st]) (use c Collecting(1) in simp)
  next
    case (Requesting jobs b plan dispatch)
    show ?thesis unfolding Requesting(2) by (rule requesting_drafts [OF _ st]) (use c Requesting(1) in simp)
  next
    case (BatchDone b)
    with st show ?thesis by (simp add: step_batch_done_def Let_def drafts_ok_def)
  next
    case (Removed batch)
    with st show ?thesis by (simp add: step_removed_def drafts_ok_def)
  next
    case Settling
    show ?thesis unfolding Settling(2) by (rule when_live_drafts [OF st]) (simp add: drafts_ok_def staged_ok_def)
  next
    case (Finalizing starting)
    obtain live rt where l: "source_is_live cfg m (wd_runtime s) = (live, rt)" by (cases "source_is_live cfg m (wd_runtime s)")
    with source_is_live_cases(3) [OF l] st show ?thesis
      by (auto simp: Finalizing step_finalizing_def finalize_reconciliation_if_complete_def Let_def drafts_ok_def staged_ok_def)
  next
    case Started
    show ?thesis unfolding Started(2) by (rule when_live_drafts [OF st]) (simp add: drafts_ok_def)
  next
    case (Refreshing starting)
    with st show ?thesis
      by (simp add: step_refreshing_def refresh_status_def replace_status_def Let_def drafts_ok_def staged_ok_def)
  next
    case (Quiet np pe)
    with st show ?thesis by (simp add: step_quiet_def drafts_ok_def)
  next
    case (Persisting r)
    obtain q rt where q: "persist_store cfg m (wd_store s) r (wd_runtime s) = (q, rt)" by (metis prod.exhaust)
    obtain live rt1 where l: "source_is_live cfg m (wd_runtime s) = (live, rt1)" by (cases "source_is_live cfg m (wd_runtime s)")
    have "rs_staged (rt_state rt) = rs_staged (rt_state (wd_runtime s))"
      using q l source_is_live_cases(3) [OF l] by (cases live) (auto simp: persist_store_def if_live_def split: sum.splits)
    with st show ?thesis
      by (auto simp: Persisting persist_dirty_def q Let_def drafts_ok_def staged_ok_def split: sum.splits bool.splits)
  next
    case AfterPersist
    with st show ?thesis by (simp add: refresh_status_def replace_status_def Let_def drafts_ok_def staged_ok_def)
  qed
qed

section \<open>Reachable runtimes\<close>

lemma spawn_ledger:
  assumes "ledger [] st" and "rs_staged st = []" and "length (rs_submitted (fold (\<lambda>(p, k). enqueue now p k) works st)) < 2 ^ 64"
  shows "ledger [] (fold (\<lambda>(p, k). enqueue now p k) works st) \<and> rs_staged (fold (\<lambda>(p, k). enqueue now p k) works st) = []"
  using assms
proof (induction works arbitrary: st)
  case (Cons w works)
  let ?f = "\<lambda>(p, k). enqueue now p k"
  have grow: "length (rs_submitted st) \<le> length (rs_submitted (fold ?f ws st))" for ws st
  proof (induction ws arbitrary: st)
    case (Cons w ws)
    have "length (rs_submitted st) \<le> length (rs_submitted (?f w st))" by (cases w) simp
    with Cons.IH [of "?f w st"] show ?case by simp
  qed simp
  obtain p k where w: "w = (p, k)" by (cases w)
  have n: "length (rs_submitted (enqueue now p k st)) < 2 ^ 64"
    using grow [of "enqueue now p k st" works] Cons.prems(3) w by simp
  have "ledger [] (enqueue now p k st)" by (rule enqueue_ledger [OF Cons.prems(1) n]) (simp add: Cons.prems(2))
  moreover have "rs_staged (enqueue now p k st) = []"
    using Cons.prems(2) by (simp add: enqueue_def next_generation_def Let_def)
  ultimately show ?case using Cons.IH [of "enqueue now p k st"] Cons.prems(3) w by simp
qed simp

lemma initial_ledger: "ledger [] (initial_state n)"
  by (simp add: ledger_def counter_ok_def path_ok_def path_parts initial_state_def)

lemma spawned_accounted:
  "accounted (wd_control (spawned cfg now act ix)) (wd_runtime (spawned cfg now act ix))
   \<and> drafts_ok (wd_control (spawned cfg now act ix)) (rt_state (wd_runtime (spawned cfg now act ix)))"
proof -
  let ?works = "initial_embedding_work ix"
  let ?st = "fold (\<lambda>(p, k). enqueue now p k) ?works (initial_state (length ?works))"
  have none: "rs_staged (initial_state n) = []" for n by (simp add: initial_state_def)
  have "rs_staged (fold (\<lambda>(p, k). enqueue now p k) works st) = rs_staged st" for works st
    by (induction works arbitrary: st) (auto simp: enqueue_def next_generation_def Let_def split: prod.splits)
  from this [of ?works "initial_state (length ?works)"] none spawn_ledger [OF initial_ledger, of "length ?works" now ?works] show ?thesis
    by (auto simp: accounted_def drafts_ok_def staged_ok_def spawned_def spawn_def Let_def)
qed

lemma step_accounted:
  assumes "runtime_step cfg s s'" and a: "accounted (wd_control s) (wd_runtime s)"
    and d: "drafts_ok (wd_control s) (rt_state (wd_runtime s))"
  shows "accounted (wd_control s') (wd_runtime s') \<and> drafts_ok (wd_control s') (rt_state (wd_runtime s'))"
  using assms(1)
proof cases
  case (submitted m path kind)
  have "staged_ok (rt_state (submit cfg m path kind (wd_runtime s)))"
  proof (cases rule: submit_cases [of cfg m path kind "wd_runtime s"])
    case (3 p)
    have "rs_staged (submitted_state now p kind st) = AList.delete p (rs_staged st)" for now st
      by (simp add: submitted_state_def enqueue_def next_generation_def Let_def)
    with 3 staged_ok_delete [of "rt_state (wd_runtime s)" p] d show ?thesis by (simp add: drafts_ok_def staged_ok_def)
  qed (use d in \<open>simp_all add: drafts_ok_def staged_ok_def\<close>)
  with d accounted_submit [OF a] submitted show ?thesis by (simp add: drafts_ok_def)
next
  case retired
  with d show ?thesis by (simp add: retire_def accounted_dead)
next
  case (activated m)
  obtain live rt where l: "source_is_live cfg m (wd_runtime s) = (live, rt)" by (cases "source_is_live cfg m (wd_runtime s)")
  have "accounted (wd_control s) (wd_runtime s \<lparr> rt_active := True \<rparr>)"
    using a by (rule accounted_same) simp_all
  with activated l source_is_live_cases [OF l] d show ?thesis
    by (cases live) (auto simp: activate_def if_live_def accounted_dead drafts_ok_def staged_ok_def)
next
  case (asked m)
  obtain live rt where l: "source_is_live cfg m (wd_runtime s) = (live, rt)" by (cases "source_is_live cfg m (wd_runtime s)")
  with asked source_is_live_cases [OF l] a d show ?thesis
    by (cases live) (auto simp: accounted_dead drafts_ok_def staged_ok_def)
next
  case (indexed ix)
  with a d show ?thesis by simp
next
  case (ran m ans)
  have "batch_held b = []" if "wd_control s = BatchDone b" for b
    using d that by (simp add: drafts_ok_def batch_held_def slot_works_def)
  with accounted_coordinator [OF ran a] drafts_coordinator [OF ran d] show ?thesis by blast
qed

lemma reachable_accounted:
  "runtime_reachable cfg s \<Longrightarrow> accounted (wd_control s) (wd_runtime s) \<and> drafts_ok (wd_control s) (rt_state (wd_runtime s))"
proof (induction rule: runtime_reachable.induct)
  case (start now act ix)
  show ?case by (rule spawned_accounted)
next
  case (step s s')
  then show ?case using step_accounted by blast
qed

end
