(* ===== verification/RuntimeMemory.thy ===== *)
theory RuntimeMemory
  imports RuntimeSafe
begin

text \<open>
  The memory of unpublished drafts (src/src/vault/embedding_runtime.rs, \<^verbatim>\<open>MAX_STAGING_BYTES\<close>): staged
  drafts, active ones and those on their way back to the stage never exceed 64 MiB together.
\<close>

section \<open>Counting\<close>

definition active_memory :: "Batch \<Rightarrow> nat" where
  "active_memory b = sum_list (map d_memory_bytes (slots (b_active b)))"

fun control_batch :: "Control \<Rightarrow> Batch option" where
  "control_batch (Processing b) = Some b"
| "control_batch (Resuming _ b) = Some b"
| "control_batch (Preparing _ _ b) = Some b"
| "control_batch (Reading _ _ _ b) = Some b"
| "control_batch (Attempted _ _ _ b) = Some b"
| "control_batch (Reserving _ _ _ b) = Some b"
| "control_batch (Checking _ b) = Some b"
| "control_batch (Admitting _ b) = Some b"
| "control_batch (Releasing _ c) = control_batch c"
| "control_batch (Collecting _ _ b) = Some b"
| "control_batch (Requesting _ b) = Some b"
| "control_batch (BatchDone b) = Some b"
| "control_batch _ = None"

definition returning_memory :: "Release list \<Rightarrow> nat" where
  "returning_memory rs = sum_list (map d_memory_bytes (concat (map release_drafts rs)))"

fun returning :: "Control \<Rightarrow> nat" where
  "returning (Releasing rs c) = returning_memory rs + returning c"
| "returning _ = 0"

definition unpublished :: "Control \<Rightarrow> nat" where
  "unpublished c = (case control_batch c of None \<Rightarrow> 0 | Some b \<Rightarrow> active_memory b) + returning c"

definition counted :: "Control \<Rightarrow> bool" where
  "counted c \<longleftrightarrow> (case control_batch c of None \<Rightarrow> True | Some b \<Rightarrow> active_memory b \<le> b_active_bytes b)"

definition budget_ok :: "Control \<Rightarrow> RuntimeState \<Rightarrow> bool" where
  "budget_ok c st \<longleftrightarrow> counted c \<and> unpublished c + paused_bytes (rs_staged st) \<le> MAX_STAGING_BYTES"

section \<open>Admission\<close>

lemma paused_delete: "paused_bytes (AList.delete p t) \<le> paused_bytes t"
  by (induction t) (auto simp: paused_bytes_def)

lemma paused_update: "paused_bytes (AList.update p d t) \<le> paused_bytes t + d_memory_bytes d"
  by (induction t) (auto simp: paused_bytes_def)

lemma evict_paused: "paused_bytes (snd (evict a r staged)) \<le> paused_bytes staged
    \<and> (fst (evict a r staged) \<longrightarrow> sat_add (sat_add a (paused_bytes (snd (evict a r staged)))) r \<le> MAX_STAGING_BYTES)"
proof (induction a r staged rule: evict.induct)
  case (1 a r staged)
  show ?case
  proof (cases "sat_add (sat_add a (paused_bytes staged)) r \<le> MAX_STAGING_BYTES")
    case True
    then have "evict a r staged = (True, staged)" by (subst evict.simps) simp
    with True show ?thesis by simp
  next
    case full: False
    show ?thesis
    proof (cases "oldest staged")
      case None
      with full have "evict a r staged = (False, staged)" by (subst evict.simps) (simp del: oldest_None)
      then show ?thesis by simp
    next
      case (Some x)
      obtain q e where x: "x = (q, e)" by (cases x)
      with full Some have "evict a r staged = evict a r (AList.delete q staged)" by (subst evict.simps) simp
      with "1.IH" [OF full Some x [symmetric]] paused_delete [of q staged] show ?thesis by auto
    qed
  qed
qed

lemma sat_add_small: "sat_add a b \<le> MAX_STAGING_BYTES \<Longrightarrow> a + b \<le> MAX_STAGING_BYTES"
  by (rule sat_add_below) (simp_all add: MAX_STAGING_BYTES_def usize_max_def)

lemma admit_paused:
  assumes "admit_staging a r st = (ok, st')"
  shows "paused_bytes (rs_staged st') \<le> paused_bytes (rs_staged st)"
    and "ok \<Longrightarrow> a + paused_bytes (rs_staged st') + r \<le> MAX_STAGING_BYTES"
proof -
  note e = evict_paused [of a r "rs_staged st"]
  show "paused_bytes (rs_staged st') \<le> paused_bytes (rs_staged st)"
    using assms e by (cases "evict a r (rs_staged st)") (auto simp: admit_staging_def split: if_splits)
  assume ok
  with assms have "evict a r (rs_staged st) = (True, rs_staged st')"
    by (cases "evict a r (rs_staged st)") (auto simp: admit_staging_def split: if_splits)
  with e have s: "sat_add (sat_add a (paused_bytes (rs_staged st'))) r \<le> MAX_STAGING_BYTES" by simp
  from sat_add_small [OF s] have "sat_add a (paused_bytes (rs_staged st')) \<le> MAX_STAGING_BYTES" by simp
  from sat_add_small [OF this] have "sat_add a (paused_bytes (rs_staged st')) = a + paused_bytes (rs_staged st')"
    by (simp add: sat_add_def MAX_STAGING_BYTES_def usize_max_def)
  with sat_add_small [OF s] show "a + paused_bytes (rs_staged st') + r \<le> MAX_STAGING_BYTES" by simp
qed

lemma attempt_paused:
  "after_attempt a ov r st = (answer, st') \<Longrightarrow> paused_bytes (rs_staged st') \<le> paused_bytes (rs_staged st)"
  by (auto simp: after_attempt_def split: sum.splits option.splits prod.splits if_splits dest: admit_paused(1))

lemma release_paused:
  assumes r: "run_release cfg m r (rt, store) = (answer, rt', store')"
  shows "paused_bytes (rs_staged (rt_state rt')) \<le> paused_bytes (rs_staged (rt_state rt)) + returning_memory [r]"
proof -
  have fin: "rs_staged (finish_success w st) = rs_staged st" "rs_staged (drop_stale w st) = rs_staged st" for w st
    by (simp_all add: finish_success_def drop_stale_def)
  have fail: "paused_bytes (rs_staged (record_failure_message now w e hint sd st)) \<le> paused_bytes (rs_staged st) + returning_memory [Fail w e hint sd]"
    for now w e hint sd st
  proof -
    obtain v deadline suffix where v: "retry_at now w hint = (v, deadline, suffix)" by (cases "retry_at now w hint")
    let ?d = "\<lambda>d t. d \<lparr> d_work := v \<lparr> w_not_before := t \<rparr>, d_last_used := now \<rparr>"
    have "rs_staged (record_failure_message now w e hint sd st) =
        (if state_generation st (w_path w) = Some (w_generation w)
         then (case deadline of None \<Rightarrow> AList.delete (w_path v) (rs_staged st)
           | Some t \<Rightarrow> (case sd of None \<Rightarrow> rs_staged st | Some d \<Rightarrow> AList.update (w_path v) (?d d t) (rs_staged st)))
         else rs_staged st)"
      by (simp add: record_failure_message_def v Let_def split: option.splits)
    moreover have "paused_bytes (AList.update (w_path v) (?d d t) (rs_staged st)) \<le> paused_bytes (rs_staged st) + d_memory_bytes d" for d t
      using paused_update [of "w_path v" "?d d t" "rs_staged st"] by simp
    ultimately show ?thesis
      using paused_delete [of "w_path v" "rs_staged st"]
      by (auto simp: returning_memory_def split: option.splits)
  qed
  have deferred: "paused_bytes (rs_staged (defer_work now d retain st)) \<le> paused_bytes (rs_staged st) + returning_memory [DeferDraft d retain]"
    for now d retain st
    using paused_update [of "w_path (d_work d)" "d \<lparr> d_work := (d_work d) \<lparr> w_not_before := now \<rparr> \<rparr>" "rs_staged st"]
    by (cases retain) (auto simp: defer_work_def Let_def returning_memory_def)
  obtain alive rt1 where s: "source_is_live cfg m rt = (alive, rt1)" by (cases "source_is_live cfg m rt")
  have same: "rs_staged (rt_state rt1) = rs_staged (rt_state rt)" by (rule source_is_live_cases(3) [OF s])
  show ?thesis
  proof (cases r)
    case (RemoveNote w)
    with assms s same show ?thesis by (auto simp: commit_remove_def fin split: if_splits sum.splits)
  next
    case (CommitNote w e)
    with assms s same show ?thesis by (auto simp: commit_note_def Let_def fin split: if_splits sum.splits)
  next
    case (Succeed w)
    with assms s same show ?thesis by (auto simp: mark_success_def fin)
  next
    case (DeferDraft d keep)
    with assms deferred show ?thesis by auto
  next
    case (Fail w e h sd)
    with assms fail show ?thesis by auto
  qed (use assms in auto)
qed

section \<open>The budget through the steps\<close>

lemma budget_le:
  assumes "budget_ok c st" and "paused_bytes (rs_staged st') \<le> paused_bytes (rs_staged st)"
    and "unpublished c' \<le> unpublished c" and "counted c \<Longrightarrow> counted c'"
  shows "budget_ok c' st'"
  using assms by (auto simp: budget_ok_def)

lemma returning_Cons: "returning_memory (r # rs) = sum_list (map d_memory_bytes (release_drafts r)) + returning_memory rs"
  by (simp add: returning_memory_def)

lemma returning_simps [simp]:
  "returning_memory [] = 0"
  "returning_memory [fail_with cfg w e] = 0" "returning_memory [publish_release cfg d] = 0"
  "returning_memory [Discard w] = 0" "returning_memory [RemoveNote w] = 0" "returning_memory [Succeed w] = 0"
  "returning_memory [DeferPending w] = 0" "returning_memory [DeferDraft d False] = 0"
  by (simp_all add: returning_memory_def)

lemma budget_live:
  assumes "budget_ok (wd_control s) (rt_state (wd_runtime s))"
    and "budget_ok (wd_control s) (rt_state (wd_runtime s)) \<Longrightarrow> budget_ok (wd_control (f s)) (rt_state (wd_runtime (f s)))"
  shows "budget_ok (wd_control (when_live cfg m f s)) (rt_state (wd_runtime (when_live cfg m f s)))"
proof -
  obtain live rt where l: "source_is_live cfg m (wd_runtime s) = (live, rt)" by (cases "source_is_live cfg m (wd_runtime s)")
  have "budget_ok Stopped (rt_state rt)"
    using assms(1) source_is_live_cases(3) [OF l] by (auto simp: budget_ok_def unpublished_def counted_def)
  with l source_is_live_cases(1) [OF l] assms show ?thesis by (cases live) (auto simp: when_live_def)
qed

lemma budget_current:
  assumes "budget_ok (wd_control s) (rt_state (wd_runtime s))"
    and "unpublished c_yes \<le> unpublished (wd_control s)" "counted (wd_control s) \<Longrightarrow> counted c_yes"
    and "unpublished c_no \<le> unpublished (wd_control s)" "counted (wd_control s) \<Longrightarrow> counted c_no"
  shows "budget_ok (wd_control (if_current cfg m w c_yes c_no s)) (rt_state (wd_runtime (if_current cfg m w c_yes c_no s)))"
proof -
  obtain live rt where l: "source_is_live cfg m (wd_runtime s) = (live, rt)" by (cases "source_is_live cfg m (wd_runtime s)")
  have "budget_ok c' (rt_state rt)" if "unpublished c' \<le> unpublished (wd_control s)" "counted (wd_control s) \<Longrightarrow> counted c'" for c'
    by (rule budget_le [OF assms(1) _ that]) (simp add: source_is_live_cases(3) [OF l])
  with assms(2-5) l source_is_live_cases(1) [OF l] show ?thesis
    by (cases live) (auto simp: if_current_def work_is_current_def if_live_def)
qed

lemma sum_split_complete:
  "sum_list (map d_memory_bytes (slots (filter complete_slot active)))
   + sum_list (map d_memory_bytes (slots (map (\<lambda>s. if complete_slot s then None else s) active)))
   = sum_list (map d_memory_bytes (slots active))"
  by (induction active) (auto simp: slots_Cons complete_slot_def split: option.splits)

lemma memory_after_vectors:
  assumes "active_memory b \<le> b_active_bytes b"
  shows "unpublished (after_vectors cfg jobs vectors b) \<le> active_memory b \<and> counted (after_vectors cfg jobs vectors b)"
proof -
  let ?active = "fill_all (zip jobs vectors) (b_active b)"
  have "map d_memory_bytes (slots ?active) = map d_memory_bytes (slots (b_active b))" by (rule fill_all_map) simp
  with sum_split_complete [of ?active] have split: "sum_list (map d_memory_bytes (slots (filter complete_slot ?active)))
      + sum_list (map d_memory_bytes (slots (map (\<lambda>s. if complete_slot s then None else s) ?active))) = active_memory b"
    by (simp add: active_memory_def)
  have "returning_memory (map (publish_release cfg) ds) = 0" for ds by (induction ds) (simp_all add: returning_Cons)
  with split assms show ?thesis
    by (simp add: after_vectors_def Let_def unpublished_def counted_def active_memory_def)
qed

lemma memory_after_error:
  "unpublished (after_request_error cfg affected e b) = active_memory b \<and> counted (after_request_error cfg affected e b)"
proof -
  let ?f = "\<lambda>(k, d). if k \<in> set affected then Fail (d_work d) (error_to_string cfg e) (retry_hint e) (Some d) else DeferDraft d True"
  let ?xs = "List.map_filter (\<lambda>(k, slot). map_option (Pair k) slot) (enumerate 0 (b_active b))"
  have "sum_list (map d_memory_bytes (release_drafts (?f x))) = d_memory_bytes (snd x)" for x by (cases x) simp
  then have "returning_memory (map ?f xs) = sum_list (map d_memory_bytes (map snd xs))" for xs
    by (induction xs) (simp_all add: returning_Cons)
  moreover have "slots (map (\<lambda>_. None) (b_active b)) = []" by (simp add: slots_empty_iff)
  ultimately show ?thesis
    by (simp add: after_request_error_def unpublished_def counted_def active_memory_def enumerated_slots del: map_map)
qed

lemma active_memory_drop:
  assumes "k < length (b_active b)" and "b_active b ! k = Some d"
  shows "active_memory b = d_memory_bytes d + sum_list (map d_memory_bytes (slots ((b_active b)[k := None])))"
proof -
  have "sum_list (map d_memory_bytes (slots xs)) = d_memory_bytes d + sum_list (map d_memory_bytes (slots (xs[k := None])))"
    if "k < length xs" "xs ! k = Some d" for xs k
    using that
  proof (induction xs arbitrary: k)
    case (Cons x xs)
    then show ?case by (cases k; cases x) auto
  qed simp
  with assms show ?thesis by (simp add: active_memory_def)
qed

lemma budget_releasing:
  assumes ok: "budget_ok (wd_control s) (rt_state (wd_runtime s))" and c: "wd_control s = Releasing rs c"
  shows "budget_ok (wd_control (step_releasing cfg m rs c s)) (rt_state (wd_runtime (step_releasing cfg m rs c s)))"
proof (cases rs)
  case Nil
  with ok c show ?thesis by (simp add: step_releasing_def budget_ok_def unpublished_def counted_def)
next
  case (Cons r rs')
  obtain answer rt store where r: "run_release cfg m r (wd_runtime s, wd_store s) = (answer, rt, store)"
    by (metis prod.exhaust)
  have "returning_memory (after_release cfg r answer @ rs') = returning_memory rs'"
    by (cases answer) (simp_all add: after_release_def fail_with_def returning_memory_def)
  then have "unpublished (Releasing (after_release cfg r answer @ rs') c) = unpublished (Releasing rs' c)"
    by (simp add: unpublished_def)
  moreover
  have "unpublished (Releasing rs c) = returning_memory [r] + unpublished (Releasing rs' c)"
    by (simp add: unpublished_def Cons returning_Cons)
  ultimately show ?thesis
    using release_paused [OF r] ok c by (simp add: step_releasing_def Cons r budget_ok_def counted_def)
qed

lemma budget_coordinator:
  assumes step: "coordinator_step cfg m a s = Some s'" and ok: "budget_ok (wd_control s) (rt_state (wd_runtime s))"
  shows "budget_ok (wd_control s') (rt_state (wd_runtime s'))"
proof -
  note defs = unpublished_def counted_def active_memory_def
  have on: "budget_ok c' st'"
    if "rs_staged st' = rs_staged (rt_state (wd_runtime s))" "unpublished c' \<le> unpublished (wd_control s)"
      "counted (wd_control s) \<Longrightarrow> counted c'" for c' st'
    by (rule budget_le [OF ok _ that(2,3)]) (simp add: that(1))
  have idle: "budget_ok c' st'"
    if "paused_bytes (rs_staged st') \<le> paused_bytes (rs_staged (rt_state (wd_runtime s)))" "control_batch c' = None" "returning c' = 0" for c' st'
    by (rule budget_le [OF ok that(1)]) (simp_all add: defs that(2,3))
  from step show ?thesis
  proof (cases rule: coordinator_cases)
    case Waiting
    show ?thesis unfolding Waiting(2) by (rule budget_live [OF ok]) (simp add: step_waiting_def idle)
  next
    case (Loading r)
    then show ?thesis
      by (auto simp: step_loading_def idle split: sum.splits intro!: budget_live [OF ok])
  next
    case (OpeningCache ps r)
    then show ?thesis
      by (auto simp: step_opening_def Let_def idle split: sum.splits prod.splits intro!: budget_live [OF ok])
  next
    case (Publishing e q)
    then show ?thesis by (simp add: idle staged_publish_loaded)
  next
    case Idle
    show ?thesis unfolding Idle(2) by (rule budget_live [OF ok]) (simp add: idle)
  next
    case Taking
    obtain batch np pe st' where b: "take_due_batch cfg (m_now m) (rt_state (wd_runtime s)) = ((batch, np, pe), st')"
      by (metis prod.exhaust)
    have "returning_memory (map RemoveNote ws) = 0" for ws by (induction ws) (simp_all add: returning_Cons)
    then have "unpublished (wd_control s') = 0 \<and> counted (wd_control s')"
      unfolding Taking(2) by (simp add: step_taking_def b Let_def defs new_batch_def split: option.splits)
    moreover have "rt_state (wd_runtime s') = st'"
      unfolding Taking(2) by (simp add: step_taking_def b Let_def split: option.splits)
    ultimately show ?thesis by (intro budget_le [OF ok]) (simp_all add: take_due_batch_staged [OF b])
  next
    case (Observing batch f)
    then show ?thesis by (auto simp: step_observing_def Let_def defs new_batch_def intro!: on)
  next
    case (Processing b)
    have at: "unpublished c' \<le> unpublished (wd_control s)" "counted (wd_control s) \<Longrightarrow> counted c'"
      if "control_batch c' = Some (b \<lparr> b_queue := q \<rparr>)" "returning c' = 0" for c' q
      using that Processing(1) by (simp_all add: defs)
    show ?thesis
    proof (cases "b_queue b")
      case Nil
      with Processing show ?thesis by (auto simp: step_processing_def intro!: on) (simp_all add: defs)
    next
      case (Cons w ws)
      show ?thesis
      proof (cases "w_kind w = Remove")
        case True
        with Cons Processing show ?thesis by (auto simp: step_processing_def Let_def intro!: on at [of _ ws])
      next
        case False
        have "budget_ok (wd_control (if_current cfg m w (Resuming w (b \<lparr> b_queue := ws \<rparr>)) (Releasing [Discard w] (Processing (b \<lparr> b_queue := ws \<rparr>))) s))
            (rt_state (wd_runtime (if_current cfg m w (Resuming w (b \<lparr> b_queue := ws \<rparr>)) (Releasing [Discard w] (Processing (b \<lparr> b_queue := ws \<rparr>))) s)))"
          by (rule budget_current [OF ok]) (rule at [of _ ws]; simp)+
        with False Cons Processing(2) show ?thesis by (simp add: step_processing_def Let_def)
      qed
    qed
  next
    case (Resuming w b)
    have "budget_ok c' (rt_state (wd_runtime s) \<lparr> rs_staged := AList.delete (w_path w) (rs_staged (rt_state (wd_runtime s))) \<rparr>)"
      if "control_batch c' = Some b" "returning c' = 0" for c'
      by (rule budget_le [OF ok]) (use that Resuming paused_delete in \<open>simp_all add: defs\<close>)
    then show ?thesis unfolding Resuming(2)
      by (auto simp: step_resuming_def Let_def on_state_def split: option.splits)
  next
    case (Preparing w previous b)
    then show ?thesis by (auto simp: step_preparing_def Let_def intro!: on) (simp_all add: defs)
  next
    case (Reading w previous available b r)
    then show ?thesis by (auto simp: step_reading_def split: sum.splits intro!: on) (simp_all add: defs)
  next
    case (Attempted w previous r b)
    obtain answer st' where a: "after_attempt (b_active_bytes b) (prepare_overhead cfg w previous) r (rt_state (wd_runtime s)) = (answer, st')"
      by (metis prod.exhaust)
    have "budget_ok c' st'" if "unpublished c' \<le> unpublished (wd_control s)" "counted (wd_control s) \<Longrightarrow> counted c'" for c'
      by (rule budget_le [OF ok attempt_paused [OF a] that])
    then show ?thesis unfolding Attempted(2)
      by (auto simp: step_attempted_def a Let_def Attempted(1) defs split: option.splits sum.splits PreparationOutcome.splits)
  next
    case (Reserving w previous n b)
    have "budget_ok c' st'"
      if "admit_staging x y (rt_state (wd_runtime s)) = (r, st')" "control_batch c' = Some b" "returning c' = 0" for x y r st' c'
      by (rule budget_le [OF ok admit_paused(1) [OF that(1)]]) (use that(2,3) Reserving in \<open>simp_all add: defs\<close>)
    then show ?thesis unfolding Reserving(2)
      by (auto simp: step_reserving_def Let_def split: sum.splits prod.splits intro!: on) (simp_all add: Reserving(1) defs)
  next
    case (Checking d b)
    show ?thesis unfolding Checking(2) by (rule budget_current [OF ok]) (simp_all add: Checking(1) defs)
  next
    case (Admitting d b)
    obtain r st' where a: "admit_staging (b_active_bytes b) (d_memory_bytes d) (rt_state (wd_runtime s)) = (r, st')" by (metis prod.exhaust)
    have counted: "active_memory b \<le> b_active_bytes b" using ok by (simp add: Admitting(1) budget_ok_def counted_def)
    have "budget_ok c' st'" if "control_batch c' = Some b" "returning c' = 0" for c'
      by (rule budget_le [OF ok admit_paused(1) [OF a]]) (use that Admitting in \<open>simp_all add: defs\<close>)
    moreover have "budget_ok (Processing (b \<lparr> b_active := b_active b @ [Some d], b_active_bytes := b_active_bytes b + d_memory_bytes d \<rparr>)) st'" if r
      using admit_paused(2) [OF a that] counted by (simp add: budget_ok_def defs)
    ultimately show ?thesis unfolding Admitting(2) by (simp add: step_admitting_def a)
  next
    case (Releasing rs c')
    show ?thesis unfolding Releasing(2) by (rule budget_releasing [OF ok Releasing(1)])
  next
    case (Collecting k jobs b)
    show ?thesis
    proof (cases "k < length (b_active b)")
      case False
      then show ?thesis by (auto simp: Collecting step_collecting_def intro!: on) (simp_all add: Collecting(1) defs)
    next
      case True
      show ?thesis
      proof (cases "b_active b ! k")
        case None
        with True show ?thesis by (auto simp: Collecting step_collecting_def intro!: on) (simp_all add: Collecting(1) defs)
      next
        case (Some d)
        from active_memory_drop [OF True Some] show ?thesis
          unfolding Collecting(2)
          by (auto simp: step_collecting_def True Some intro!: budget_current [OF ok]) (auto simp: Collecting(1) defs)
      qed
    qed
  next
    case (Requesting jobs b plan dispatch)
    obtain live rt where l: "source_is_live cfg m (wd_runtime s) = (live, rt)" by (cases "source_is_live cfg m (wd_runtime s)")
    have counted: "active_memory b \<le> b_active_bytes b" using ok by (simp add: Requesting(1) budget_ok_def counted_def)
    have "budget_ok c' (rt_state rt)" if "unpublished c' \<le> active_memory b" "counted c'" for c'
      by (rule budget_le [OF ok]) (use that Requesting(1) source_is_live_cases(3) [OF l] in \<open>simp_all add: unpublished_def\<close>)
    with memory_after_vectors [OF counted] memory_after_error show ?thesis
      unfolding Requesting(2) by (auto simp: step_requesting_def l split: sum.splits prod.splits)
  next
    case (BatchDone b)
    then show ?thesis by (simp add: step_batch_done_def Let_def idle)
  next
    case (Removed batch)
    then show ?thesis by (simp add: step_removed_def idle)
  next
    case Settling
    show ?thesis unfolding Settling(2) by (rule budget_live [OF ok]) (simp add: idle)
  next
    case (Finalizing starting)
    obtain live rt where l: "source_is_live cfg m (wd_runtime s) = (live, rt)" by (cases "source_is_live cfg m (wd_runtime s)")
    with source_is_live_cases(3) [OF l] show ?thesis
      by (auto simp: Finalizing step_finalizing_def finalize_reconciliation_if_complete_def Let_def intro!: idle)
  next
    case Started
    show ?thesis unfolding Started(2) by (rule budget_live [OF ok]) (simp add: idle)
  next
    case (Refreshing starting)
    then show ?thesis
      by (simp add: step_refreshing_def refresh_status_def replace_status_def Let_def idle)
  next
    case (Quiet np pe)
    then show ?thesis by (simp add: step_quiet_def idle)
  next
    case (Persisting r)
    obtain q rt where q: "persist_store cfg m (wd_store s) r (wd_runtime s) = (q, rt)" by (metis prod.exhaust)
    obtain live rt1 where l: "source_is_live cfg m (wd_runtime s) = (live, rt1)" by (cases "source_is_live cfg m (wd_runtime s)")
    have "rs_staged (rt_state rt) = rs_staged (rt_state (wd_runtime s))"
      using q l source_is_live_cases(3) [OF l] by (cases live) (auto simp: persist_store_def if_live_def split: sum.splits)
    then show ?thesis
      by (auto simp: Persisting persist_dirty_def q Let_def idle split: sum.splits bool.splits)
  next
    case AfterPersist
    then show ?thesis by (simp add: refresh_status_def replace_status_def Let_def idle)
  qed
qed

lemma reachable_budget: "runtime_reachable cfg s \<Longrightarrow> budget_ok (wd_control s) (rt_state (wd_runtime s))"
proof (induction rule: runtime_reachable.induct)
  case (start now act ix)
  have "rs_staged (initial_state n) = []" for n by (simp add: initial_state_def)
  moreover have "rs_staged (fold (\<lambda>(p, k). enqueue now p k) works st) = rs_staged st" for works st
    by (induction works arbitrary: st) (auto simp: enqueue_def next_generation_def Let_def split: prod.splits)
  ultimately show ?case
    by (simp add: budget_ok_def spawned_def spawn_def Let_def unpublished_def counted_def paused_bytes_def)
next
  case (step s s')
  show ?case
    using step.hyps(2)
  proof cases
    case (submitted m path kind)
    have "paused_bytes (rs_staged (rt_state (submit cfg m path kind (wd_runtime s)))) \<le> paused_bytes (rs_staged (rt_state (wd_runtime s)))"
    proof (cases rule: submit_cases [of cfg m path kind "wd_runtime s"])
      case (3 p)
      have "rs_staged (submitted_state now p kind st) = AList.delete p (rs_staged st)" for now st
        by (simp add: submitted_state_def enqueue_def next_generation_def Let_def)
      with 3 paused_delete show ?thesis by simp
    qed simp_all
    with submitted step.IH show ?thesis by (auto simp: budget_ok_def)
  next
    case (activated m)
    obtain live rt where l: "source_is_live cfg m (wd_runtime s) = (live, rt)" by (cases "source_is_live cfg m (wd_runtime s)")
    with activated source_is_live_cases(3) [OF l] step.IH show ?thesis
      by (cases live) (auto simp: activate_def if_live_def budget_ok_def)
  next
    case (asked m)
    obtain live rt where l: "source_is_live cfg m (wd_runtime s) = (live, rt)" by (cases "source_is_live cfg m (wd_runtime s)")
    with asked source_is_live_cases(3) [OF l] step.IH show ?thesis by (auto simp: budget_ok_def)
  next
    case (ran m ans)
    with budget_coordinator step.IH show ?thesis by blast
  qed (use step.IH in \<open>simp_all add: retire_def\<close>)
qed

end
