(* ===== verification/RuntimeStore.thy ===== *)
theory RuntimeStore
  imports RuntimeMemory
begin

text \<open>
  The embedding store in the hands of the runtime (src/src/vault/embedding_runtime.rs): which steps write it, that
  it stays valid for the configured vector space, and when queries may see it.
\<close>

section \<open>The store's only writers\<close>

lemma commit_remove_store:
  assumes "commit_remove cfg m w (rt, store) = (answer, rt', store')" and "map_of (es_embeddings store') p \<noteq> map_of (es_embeddings store) p"
  shows "p = w_path w \<and> rt_live rt \<and> state_generation (rt_state rt) (w_path w) = Some (w_generation w)
    \<and> rt' = on_state (finish_success w) rt"
proof -
  obtain alive rt1 where s: "source_is_live cfg m rt = (alive, rt1)" by (cases "source_is_live cfg m rt")
  have alive: "alive" using assms s by (cases alive) (auto simp: commit_remove_def)
  with source_is_live_cases(1) [OF s] have rt: "rt1 = rt" "rt_live rt" by simp_all
  with assms s alive show ?thesis
    by (auto simp: commit_remove_def dest: embeddings.remove_only split: if_splits sum.splits)
qed

lemma commit_note_store:
  assumes "commit_note cfg m w e (rt, store) = (answer, rt', store')" and "map_of (es_embeddings store') p \<noteq> map_of (es_embeddings store) p"
  shows "p = w_path w \<and> rt_live rt \<and> state_generation (rt_state rt) (w_path w) = Some (w_generation w)
    \<and> rs_finished (rt_state rt') = (w_path w, w_generation w) # rs_finished (rt_state rt)"
proof -
  obtain alive rt1 where s: "source_is_live cfg m rt = (alive, rt1)" by (cases "source_is_live cfg m rt")
  have alive: "alive" using assms s by (cases alive) (auto simp: commit_note_def)
  with source_is_live_cases(1) [OF s] have rt: "rt1 = rt" "rt_live rt" by simp_all
  with assms s alive show ?thesis
    by (auto simp: commit_note_def Let_def finish_success_def update_pending_status_def
        dest: embeddings.insert_only split: if_splits sum.splits)
qed

lemma release_store:
  assumes "run_release cfg m r (rt, store) = (answer, rt', store')" and "map_of (es_embeddings store') p \<noteq> map_of (es_embeddings store) p"
  shows "p = w_path (release_work r) \<and> rt_live rt
    \<and> state_generation (rt_state rt) p = Some (w_generation (release_work r))
    \<and> rs_finished (rt_state rt') = (p, w_generation (release_work r)) # rs_finished (rt_state rt)"
proof (cases r)
  case (RemoveNote w)
  with commit_remove_store [of cfg m w rt store answer rt' store' p] assms show ?thesis
    by (auto simp: finish_success_def)
next
  case (CommitNote w e)
  with commit_note_store [of cfg m w e rt store answer rt' store' p] assms show ?thesis by auto
qed (use assms in auto)

lemma when_live_store: "(\<And>s. wd_store (f s) = wd_store s) \<Longrightarrow> wd_store (when_live cfg m f s) = wd_store s"
  by (cases "source_is_live cfg m (wd_runtime s)") (simp add: when_live_def goto_def Let_def)

lemma if_current_store [simp]: "wd_store (if_current cfg m w c1 c2 s) = wd_store s"
  by (simp add: if_current_def split: prod.splits)

lemma coordinator_writes:
  assumes "coordinator_step cfg m a s = Some s'" and "wd_store s' \<noteq> wd_store s"
  shows "(\<exists>ps r. wd_control s = OpeningCache ps \<and> s' = step_opening cfg m ps r s)
    \<or> (\<exists>r rs c. wd_control s = Releasing (r # rs) c \<and> s' = step_releasing cfg m (r # rs) c s)
    \<or> (\<exists>starting. wd_control s = Finalizing starting \<and> s' = step_finalizing cfg m starting s)"
  using assms
proof (cases rule: coordinator_cases)
  case (Releasing rs c)
  with assms(2) show ?thesis by (cases rs) (auto simp: step_releasing_def)
next
  case (Waiting)
  with assms(2) show ?thesis by (simp add: when_live_store step_waiting_def)
next
  case (Loading r)
  with assms(2) show ?thesis by (auto simp: step_loading_def when_live_store split: sum.splits)
next
  case (Persisting r)
  have "wd_store (persist_dirty cfg m r s) = wd_store s"
    by (auto simp: persist_dirty_def Let_def split: prod.splits sum.splits bool.splits)
  with Persisting assms(2) show ?thesis by simp
qed (use assms(2) in \<open>auto simp: when_live_store step_taking_def step_observing_def step_processing_def step_resuming_def
      step_preparing_def step_reading_def step_attempted_def step_reserving_def step_admitting_def step_collecting_def
      step_requesting_def step_batch_done_def step_removed_def step_refreshing_def step_quiet_def Let_def
      split: prod.splits list.splits option.splits sum.splits PreparationOutcome.splits if_splits\<close>)

lemma finalizing_store:
  "wd_store (step_finalizing cfg m starting s) = wd_store s \<or> wd_store (step_finalizing cfg m starting s) = set_first_pass_complete True (wd_store s)"
  by (auto simp: step_finalizing_def finalize_reconciliation_if_complete_def Let_def goto_def split: prod.splits if_splits)

lemma coordinator_store:
  assumes "coordinator_step cfg m a s = Some s'" and "map_of (es_embeddings (wd_store s')) p \<noteq> map_of (es_embeddings (wd_store s)) p"
  shows "(\<exists>ps. wd_control s = OpeningCache ps) \<or> (\<exists>r rs c. wd_control s = Releasing (r # rs) c \<and> s' = step_releasing cfg m (r # rs) c s)"
proof -
  have "wd_store s' \<noteq> wd_store s" using assms(2) by auto
  moreover have "es_embeddings (wd_store (step_finalizing cfg m starting s)) = es_embeddings (wd_store s)" for starting
    using finalizing_store [of cfg m starting s] by (auto simp: set_first_pass_complete_def)
  ultimately show ?thesis using coordinator_writes [OF assms(1)] assms(2) by metis
qed

lemma step_runtime_store:
  assumes "runtime_step cfg s s'" and "wd_store s' \<noteq> wd_store s"
  obtains m a where "coordinator_step cfg m a s = Some s'"
  using assms by (cases rule: runtime_step.cases) auto

section \<open>Validity\<close>

definition store_sound :: "EmbeddingSpaceIdentity \<Rightarrow> EmbeddingStore \<Rightarrow> bool" where
  "store_sound i st \<longleftrightarrow>
     es_identity st = Some i \<and> es_dim st = si_dimension i \<and> distinct (map fst (es_embeddings st))
     \<and> list_all (\<lambda>(p, e). validate_cache_path p = Inr p \<and> validate_note_entry e (si_dimension i) = Inr ()) (es_embeddings st)"

lemma store_sound_new: "store_sound i (new_with_identity i)"
  by (simp add: store_sound_def new_with_identity_def EmbeddingStore_new_def)

lemma store_sound_complete [simp]: "store_sound i (set_first_pass_complete b st) = store_sound i st"
  by (simp add: store_sound_def set_first_pass_complete_def)

lemma store_sound_insert:
  assumes "store_sound i st" and "insert_note cd p e st = Inr st'"
  shows "store_sound i st'"
proof -
  from assms have p: "to_str p = Some p" "validate_cache_path p = Inr p" "validate_note_entry e (si_dimension i) = Inr ()"
    and st': "es_embeddings st' = AList.update p e (es_embeddings st)" "es_identity st' = es_identity st" "es_dim st' = es_dim st"
    by (auto simp: insert_note_def Let_def result_simps to_str_def store_sound_def validate_cache_path_def split: if_splits)
  with assms(1) show ?thesis
    by (auto simp: store_sound_def distinct_update intro!: list_all_update)
qed

lemma store_sound_remove: "store_sound i st \<Longrightarrow> store_remove p st = Inr (b, st') \<Longrightarrow> store_sound i st'"
  by (auto simp: store_remove_def result_simps store_sound_def distinct_delete list_all_delete split: option.splits)

lemma store_sound_remove_paths: "store_sound i st \<Longrightarrow> remove_paths ps st = (r, st') \<Longrightarrow> store_sound i st'"
  by (induction ps st rule: remove_paths.induct) (auto split: sum.splits dest: store_sound_remove)

lemma store_sound_retain: "store_sound i st \<Longrightarrow> retain_paths ps st = (r, st') \<Longrightarrow> store_sound i st'"
  by (auto simp: retain_paths_def Let_def split: prod.splits dest: store_sound_remove_paths)

lemma map_sum_Inr: "map_sum f g r = Inr y \<longleftrightarrow> (\<exists>x. r = Inr x \<and> y = g x)"
  by (cases r) auto

lemma store_sound_load:
  assumes "load_cache cfg n r = Inr (Some st)"
  shows "store_sound (rc_identity cfg) st"
proof -
  from assms obtain sz content k where d: "decode_file (rc_codec cfg) sz content (Some (rc_identity cfg)) k = Inr st"
    by (cases r) (auto simp: load_cache_def result_simps map_sum_Inr split: option.splits prod.splits)
  then obtain i where i: "store_reachable (rc_codec cfg) i st" "i = rc_identity cfg"
    using decoded_reachable [OF d] by auto
  have inv: "store_inv (rc_codec cfg) i st" by (rule reachable_store_inv [OF i(1)])
  then have "es_identity st = Some i" "es_dim st = si_dimension i" "distinct (map fst (es_embeddings st))"
    unfolding store_inv_def by blast+
  with inv_entries [OF inv] i(2) show ?thesis by (auto simp: store_sound_def entry_ok_def list_all_iff)
qed

lemma store_sound_release:
  assumes "store_sound i store" and "run_release cfg m r (rt, store) = (answer, rt', store')"
  shows "store_sound i store'"
  using assms(1) assms(2)
  by (cases r) (auto simp: commit_remove_def commit_note_def Let_def split: prod.splits if_splits sum.splits
      dest: store_sound_remove store_sound_insert)

lemma store_sound_opening:
  assumes "store_sound (rc_identity cfg) (wd_store s)"
  shows "store_sound (rc_identity cfg) (wd_store (step_opening cfg m ps r s))"
proof (cases "cache_outcome cfg (load_cache cfg (length ps) r)")
  case (Inl e)
  with assms show ?thesis by (simp add: step_opening_def goto_def)
next
  case (Inr x)
  obtain loaded err where x: "x = (loaded, err)" by (cases x)
  have "store_sound (rc_identity cfg) st" if "loaded = Some st" for st
  proof (cases "load_cache cfg (length ps) r")
    case l: (Inr q)
    with Inr x that have "load_cache cfg (length ps) r = Inr (Some st)" by simp
    then show ?thesis by (rule store_sound_load)
  next
    case (Inl e)
    with Inr x that show ?thesis by (cases e) (auto split: if_splits)
  qed
  then have l: "store_sound (rc_identity cfg) (case loaded of Some st \<Rightarrow> st | None \<Rightarrow> new_with_identity (rc_identity cfg))"
    by (cases loaded) (simp_all add: store_sound_new)
  obtain q st where q: "retain_paths (set ps) (case loaded of Some st \<Rightarrow> st | None \<Rightarrow> new_with_identity (rc_identity cfg)) = (q, st)"
    by (metis prod.exhaust)
  have "store_sound (rc_identity cfg) st" by (rule store_sound_retain [OF l q])
  with assms show ?thesis
    by (auto simp: step_opening_def Inr x q when_live_def goto_def Let_def split: prod.splits sum.splits)
qed

lemma reachable_store_sound: "runtime_reachable cfg s \<Longrightarrow> store_sound (rc_identity cfg) (wd_store s)"
proof (induction rule: runtime_reachable.induct)
  case (start now act ix)
  show ?case by (simp add: spawned_def store_sound_new)
next
  case (step s s')
  show ?case
  proof (cases "wd_store s' = wd_store s")
    case False
    then obtain m a where c: "coordinator_step cfg m a s = Some s'" by (rule step_runtime_store [OF step.hyps(2)])
    from coordinator_writes [OF c False] consider
        ps r where "s' = step_opening cfg m ps r s" | r rs c where "s' = step_releasing cfg m (r # rs) c s"
      | starting where "s' = step_finalizing cfg m starting s" by blast
    then show ?thesis
    proof cases
      case 1
      with store_sound_opening [OF step.IH] show ?thesis by simp
    next
      case (2 r rs c)
      obtain answer rt' store' where "run_release cfg m r (wd_runtime s, wd_store s) = (answer, rt', store')" by (metis prod_cases3)
      with 2 store_sound_release [OF step.IH this] show ?thesis by (simp add: step_releasing_def goto_def)
    next
      case (3 starting)
      with finalizing_store [of cfg m starting s] step.IH show ?thesis by (metis store_sound_complete)
    qed
  qed (use step.IH in simp)
qed

section \<open>Readiness\<close>

text \<open>Whether queries may use the store and whether the first pass is over: what most steps only switch off.\<close>

definition ready :: "RuntimeState \<Rightarrow> bool \<times> bool" where
  "ready st = (rs_store_queryable st, rs_reconciliation_complete st)"

lemma ready_update [simp]:
  "ready (st \<lparr> rs_next_generation := g \<rparr>) = ready st"
  "ready (st \<lparr> rs_pending := t \<rparr>) = ready st"
  "ready (st \<lparr> rs_inflight := i \<rparr>) = ready st"
  "ready (st \<lparr> rs_batch_started_at := b \<rparr>) = ready st"
  "ready (st \<lparr> rs_initial_remaining := r \<rparr>) = ready st"
  "ready (st \<lparr> rs_failures := f \<rparr>) = ready st"
  "ready (st \<lparr> rs_persistence_error := e \<rparr>) = ready st"
  "ready (st \<lparr> rs_staged := d \<rparr>) = ready st"
  "ready (st \<lparr> rs_status := us \<rparr>) = ready st"
  "ready (st \<lparr> rs_submitted := s \<rparr>) = ready st"
  "ready (st \<lparr> rs_finished := l \<rparr>) = ready st"
  by (simp_all add: ready_def)

lemma ready_status [simp]: "ready (update_pending_status st) = ready st" "ready (replace_status us st) = ready st"
  by (simp_all add: update_pending_status_def replace_status_def Let_def)

lemma ready_enqueue [simp]: "ready (enqueue now p k st) = ready st"
  by (simp add: enqueue_def next_generation_def Let_def)

lemma ready_drop [simp]: "ready (drop_inflight w st) = ready st" "ready (drop_stale w st) = ready st"
  "ready (discard_inflight w st) = ready st" "ready (finish_success w st) = ready st"
  by (simp_all add: drop_inflight_def drop_stale_def discard_inflight_def finish_success_def)

lemma ready_defer [simp]: "ready (defer_pending now w st) = ready st" "ready (defer_work now d retain st) = ready st"
  by (simp_all add: defer_pending_def defer_work_def Let_def)

lemma ready_failure [simp]: "ready (record_failure_message now w e hint staged st) = ready st"
proof -
  obtain w' deadline extra where r: "retry_at now w hint = (w', deadline, extra)" by (metis prod_cases3)
  show ?thesis
    by (cases deadline; cases staged) (simp_all add: record_failure_message_def r Let_def)
qed

lemma ready_refresh [simp]: "ready (refresh_status ix store st) = ready st"
  by (simp add: refresh_status_def Let_def)

lemma ready_take [simp]: "ready (snd (take_each ps st)) = ready st"
  by (induction ps st rule: take_each.induct) (auto split: option.splits prod.splits)

lemma ready_admit [simp]: "ready (snd (admit_staging a r st)) = ready st"
  by (simp add: admit_staging_def split_beta)

lemma ready_batch [simp]: "ready (snd (take_due_batch cfg now st)) = ready st"
  by (simp add: take_due_batch_def Let_def split_beta)

lemma ready_attempt [simp]: "ready (snd (after_attempt a overhead r st)) = ready st"
  by (auto simp: after_attempt_def Let_def split_beta split: sum.splits option.splits)

text \<open>Most steps only ever switch readiness off.\<close>

definition ready_down :: "RuntimeState \<Rightarrow> RuntimeState \<Rightarrow> bool" where
  "ready_down st st' \<longleftrightarrow> (fst (ready st') \<longrightarrow> fst (ready st)) \<and> (snd (ready st') \<longrightarrow> snd (ready st))"

lemma ready_down_refl: "ready st' = ready st \<Longrightarrow> ready_down st st'"
  by (simp add: ready_down_def)

lemma ready_down_trans: "ready_down a b \<Longrightarrow> ready_down b c \<Longrightarrow> ready_down a c"
  by (auto simp: ready_down_def)

lemma ready_terminal: "ready_down (rt_state rt) (rt_state (record_terminal_failure_message msg n rt))"
  by (simp add: ready_down_def ready_def record_terminal_failure_message_def replace_status_def Let_def)

lemma ready_live: "ready_down (rt_state rt) (rt_state (snd (source_is_live cfg m rt)))"
  using ready_terminal [of "rt \<lparr> rt_live := False \<rparr>"]
  by (auto simp: source_is_live_def ready_down_refl split: option.split)

lemma ready_if_live:
  "(\<And>rt. ready_down (rt_state rt) (rt_state (snd (f rt)))) \<Longrightarrow> ready_down (rt_state rt) (rt_state (snd (if_live cfg m r f rt)))"
  using ready_live [of rt cfg m] by (auto simp: if_live_def split_beta Let_def intro: ready_down_trans)


fun early :: "Control \<Rightarrow> bool" where
  "early Waiting \<longleftrightarrow> True"
| "early Loading \<longleftrightarrow> True"
| "early (OpeningCache _) \<longleftrightarrow> True"
| "early (Publishing _ _) \<longleftrightarrow> True"
| "early (Releasing _ c) \<longleftrightarrow> early c"
| "early _ \<longleftrightarrow> False"

fun offered :: "Control \<Rightarrow> bool" where
  "offered (Publishing _ q) \<longleftrightarrow> q"
| "offered (Releasing _ c) \<longleftrightarrow> offered c"
| "offered _ \<longleftrightarrow> False"

text \<open>A store that queries may use has completed its first pass, in this process or before it was saved.\<close>

definition ready_ok :: "'s World \<Rightarrow> bool" where
  "ready_ok s \<longleftrightarrow>
     (fst (ready (rt_state (wd_runtime s))) \<or> snd (ready (rt_state (wd_runtime s)))
        \<longrightarrow> es_first_pass_complete (wd_store s) \<and> \<not> early (wd_control s))
     \<and> (offered (wd_control s) \<longrightarrow> es_first_pass_complete (wd_store s))"

lemma ready_ok_down:
  assumes "ready_ok s" and "wd_store s' = wd_store s" and "ready_down (rt_state (wd_runtime s)) (rt_state (wd_runtime s'))"
    and "early (wd_control s') \<Longrightarrow> early (wd_control s)" and "offered (wd_control s') \<Longrightarrow> offered (wd_control s)"
  shows "ready_ok s'"
  using assms by (auto simp: ready_ok_def ready_down_def)

lemma ready_when_live:
  assumes "ready_ok s" and "\<And>s'. ready_ok s' \<Longrightarrow> wd_control s' = wd_control s \<Longrightarrow> ready_ok (f s')"
  shows "ready_ok (when_live cfg m f s)"
proof -
  obtain live rt where l: "source_is_live cfg m (wd_runtime s) = (live, rt)" by (cases "source_is_live cfg m (wd_runtime s)")
  have "ready_down (rt_state (wd_runtime s)) (rt_state rt)" using ready_live [of "wd_runtime s" cfg m] l by simp
  then have ok: "ready_ok (s \<lparr> wd_runtime := rt \<rparr>)" "ready_ok (goto Stopped (s \<lparr> wd_runtime := rt \<rparr>))"
    using assms(1) by (auto intro: ready_ok_down simp: goto_def)
  with assms(2) [OF ok(1)] show ?thesis by (simp add: when_live_def l Let_def)
qed

lemma ready_goto: "ready_ok s \<Longrightarrow> early c = early (wd_control s) \<Longrightarrow> \<not> offered c \<Longrightarrow> ready_ok (goto c s)"
  by (rule ready_ok_down [of s]) (simp_all add: goto_def ready_down_def)

lemma ready_if_current:
  assumes "ready_ok s" and "early c1 = early (wd_control s)" "early c2 = early (wd_control s)" "\<not> offered c1" "\<not> offered c2"
  shows "ready_ok (if_current cfg m w c1 c2 s)"
proof -
  obtain current rt where l: "work_is_current cfg m w (wd_runtime s) = (current, rt)" by (cases "work_is_current cfg m w (wd_runtime s)")
  have "ready_down (rt_state (wd_runtime s)) (rt_state rt)"
    using ready_if_live [where f = "\<lambda>rt. (state_generation (rt_state rt) (w_path w) = Some (w_generation w), rt)"
        and rt = "wd_runtime s" and cfg = cfg and m = m and r = False] l
    by (simp add: work_is_current_def ready_down_refl)
  with assms show ?thesis
    by (auto simp: if_current_def l goto_def intro: ready_ok_down)
qed

lemma ready_on_runtime:
  assumes "ready_ok s" and "ready (f (rt_state (wd_runtime s))) = ready (rt_state (wd_runtime s))"
  shows "ready_ok (on_runtime f s)"
  using assms by (auto simp: ready_ok_def on_runtime_def)

lemma ready_failed: "ready_ok s \<Longrightarrow> ready_ok (goto Stopped (s \<lparr> wd_runtime := record_terminal_failure cfg ix e (wd_runtime s) \<rparr>))"
  using ready_terminal [of "wd_runtime s" "error_to_string cfg e" "length (current_paths ix)"]
  by (auto intro!: ready_ok_down [of s] simp: goto_def record_terminal_failure_def)


lemma ready_late:
  assumes "ready_ok s" and "wd_store s' = wd_store s" and "ready (rt_state (wd_runtime s')) = ready (rt_state (wd_runtime s))"
    and "\<not> early (wd_control s')" and "\<not> offered (wd_control s')"
  shows "ready_ok s'"
  using assms by (auto simp: ready_ok_def)

lemma release_complete:
  assumes "run_release cfg m r (rt, store) = (answer, rt', store')"
  shows "es_first_pass_complete store' = es_first_pass_complete store"
proof -
  have i: "es_first_pass_complete st' = es_first_pass_complete st" if "insert_note cd p e st = Inr st'" for cd p e st st'
    using that by (auto simp: insert_note_def Let_def result_simps split: if_splits)
  have d: "es_first_pass_complete st' = es_first_pass_complete st" if "store_remove p st = Inr (b, st')" for p st b st'
    using that by (auto simp: store_remove_def result_simps split: option.splits)
  from assms show ?thesis
    by (cases r) (auto simp: commit_remove_def commit_note_def Let_def dest: i d split: prod.splits if_splits sum.splits)
qed

lemma release_ready:
  assumes "run_release cfg m r (rt, store) = (answer, rt', store')"
  shows "(fst (ready (rt_state rt')) \<longrightarrow> fst (ready (rt_state rt)) \<or> snd (ready (rt_state rt)))
    \<and> (snd (ready (rt_state rt')) \<longrightarrow> snd (ready (rt_state rt)))"
proof -
  obtain live rt1 where l: "source_is_live cfg m rt = (live, rt1)" by (cases "source_is_live cfg m rt")
  have down: "ready_down (rt_state rt) (rt_state rt1)" using ready_live [of rt cfg m] l by simp
  have f: "rs_store_queryable (finish_success w st) = fst (ready st)"
    "rs_reconciliation_complete (finish_success w st) = snd (ready st)" for w st
    using ready_drop(4) [of w st] by (simp_all add: ready_def)
  have q: "ready (let st' = finish_success w st in
      if rs_reconciliation_complete st' \<and> \<not> rs_store_queryable st' then st' \<lparr> rs_store_queryable := True \<rparr> else st')
    = (fst (ready st) \<or> snd (ready st), snd (ready st))" for w st
    using f [of w st] by (auto simp: ready_def Let_def)
  show ?thesis
    using assms l down
    by (cases r) (auto simp: commit_remove_def commit_note_def mark_success_def ready_down_def q
        split: if_splits sum.splits)
qed

lemma ready_releasing:
  assumes "ready_ok s" and "wd_control s = Releasing rs c"
  shows "ready_ok (step_releasing cfg m rs c s)"
proof (cases rs)
  case Nil
  with assms show ?thesis by (auto simp: step_releasing_def goto_def ready_ok_def)
next
  case (Cons r rs')
  obtain answer rt' store' where run: "run_release cfg m r (wd_runtime s, wd_store s) = (answer, rt', store')" by (metis prod_cases3)
  from release_complete [OF run] release_ready [OF run] assms Cons show ?thesis
    by (auto simp: step_releasing_def run goto_def ready_ok_def)
qed

lemma ready_finalizing:
  assumes "ready_ok s" and "wd_control s = Finalizing starting"
  shows "ready_ok (step_finalizing cfg m starting s)"
proof -
  obtain live rt where l: "source_is_live cfg m (wd_runtime s) = (live, rt)" by (cases "source_is_live cfg m (wd_runtime s)")
  have "ready_down (rt_state (wd_runtime s)) (rt_state rt)" using ready_live [of "wd_runtime s" cfg m] l by simp
  with assms l show ?thesis
    by (simp add: step_finalizing_def finalize_reconciliation_if_complete_def goto_def ready_ok_def ready_down_def
        set_first_pass_complete_def Let_def)
qed

lemma retain_complete: "retain_paths ps st = (r, st') \<Longrightarrow> es_first_pass_complete st' = es_first_pass_complete st"
proof -
  have "remove_paths qs st = (r, st') \<Longrightarrow> es_first_pass_complete st' = es_first_pass_complete st" for qs st r st'
    by (induction qs st rule: remove_paths.induct)
       (auto simp: store_remove_def result_simps split: sum.splits option.splits)
  then show "retain_paths ps st = (r, st') \<Longrightarrow> es_first_pass_complete st' = es_first_pass_complete st"
    by (auto simp: retain_paths_def Let_def split: prod.splits)
qed

lemma ready_opening:
  assumes ok: "ready_ok s" and c: "wd_control s = OpeningCache ps"
  shows "ready_ok (step_opening cfg m ps r s)"
proof (cases "cache_outcome cfg (load_cache cfg (length ps) r)")
  case (Inl e)
  with ok ready_failed show ?thesis by (simp add: step_opening_def)
next
  case (Inr x)
  obtain loaded err where x: "x = (loaded, err)" by (cases x)
  let ?store = "case loaded of Some st \<Rightarrow> st | None \<Rightarrow> new_with_identity (rc_identity cfg)"
  obtain q st where q: "retain_paths (set ps) ?store = (q, st)" by (metis prod.exhaust)
  have step: "ready_ok (case q of
        Inl e \<Rightarrow> goto Stopped (s' \<lparr> wd_runtime := record_terminal_failure cfg (wd_index s') e (wd_runtime s') \<rparr>)
      | Inr dirty \<Rightarrow> goto (Publishing err (es_first_pass_complete ?store \<and> (ps = [] \<or> es_embeddings st \<noteq> [])))
          (s' \<lparr> wd_store := st, wd_dirty := dirty \<rparr>))"
    if "ready_ok s'" "wd_control s' = wd_control s" for s'
    using that c ready_failed [OF that(1)] retain_complete [OF q] by (cases q) (auto simp: goto_def ready_ok_def)
  show ?thesis
    unfolding step_opening_def Inr x sum.case prod.case Let_def q by (rule ready_when_live [OF ok], rule step)
qed


lemma ready_persisting:
  assumes "ready_ok s" and "wd_control s = Persisting"
  shows "ready_ok (persist_dirty cfg m r s)"
proof -
  obtain q rt where q: "persist_store cfg m (wd_store s) r (wd_runtime s) = (q, rt)" by (metis prod.exhaust)
  obtain live rt1 where l: "source_is_live cfg m (wd_runtime s) = (live, rt1)" by (cases "source_is_live cfg m (wd_runtime s)")
  have "rt = wd_runtime s \<or> rt = rt1"
    using q l by (auto simp: persist_store_def if_live_def split: sum.splits if_splits)
  then have down: "ready_down (rt_state (wd_runtime s)) (rt_state rt)"
    using ready_live [of "wd_runtime s" cfg m] l by (auto simp: ready_down_refl)
  have ok: "ready_ok (s \<lparr> wd_runtime := rt \<rparr>)" by (rule ready_ok_down [OF assms(1)]) (simp_all add: down)
  have late: "\<not> early (wd_control s)" "\<not> offered (wd_control s)" using assms(2) by simp_all
  show ?thesis
  proof (cases q)
    case (Inr b)
    with ok late show ?thesis by (cases b) (auto simp: persist_dirty_def q ready_ok_def)
  next
    case (Inl e)
    show ?thesis
    proof (cases "confinement_error e")
      case True
      with ready_failed [OF ok] Inl q show ?thesis by (simp add: persist_dirty_def goto_def)
    next
      case False
      with ok late Inl q show ?thesis by (auto simp: persist_dirty_def ready_ok_def)
    qed
  qed
qed

lemma ready_requesting:
  assumes "ready_ok s" and "wd_control s = Requesting jobs b"
  shows "ready_ok (step_requesting cfg m jobs b plan dispatch s)"
proof -
  obtain live rt where l: "source_is_live cfg m (wd_runtime s) = (live, rt)" by (cases "source_is_live cfg m (wd_runtime s)")
  obtain n r where e: "embed_wanted cfg live (rt_live rt) (length jobs) plan dispatch = (n, r)" by (metis prod.exhaust)
  have down: "ready_down (rt_state (wd_runtime s)) (rt_state rt)" using ready_live [of "wd_runtime s" cfg m] l by simp
  show ?thesis
    by (rule ready_ok_down [OF assms(1)])
       (auto simp: step_requesting_def l e goto_def down after_vectors_def after_request_error_def Let_def split: sum.splits)
qed

lemma ready_coordinator:
  assumes step: "coordinator_step cfg m a s = Some s'" and ok: "ready_ok s"
  shows "ready_ok s'"
  using step
proof (cases rule: coordinator_cases)
  case Waiting
  show ?thesis
    unfolding Waiting(2)
    by (rule ready_when_live [OF ok]) (simp add: step_waiting_def ready_goto Waiting(1))
next
  case (Loading r)
  show ?thesis
  proof (cases r)
    case (Inl e)
    with Loading ok ready_failed show ?thesis by (simp add: step_loading_def)
  next
    case (Inr u)
    have "ready_ok (when_live cfg m (\<lambda>s. goto (OpeningCache (current_paths (wd_index s))) s) s)"
      by (rule ready_when_live [OF ok]) (simp add: ready_goto Loading(1))
    with Loading(2) Inr show ?thesis by (simp add: step_loading_def)
  qed
next
  case (OpeningCache ps r)
  with ok ready_opening show ?thesis by blast
next
  case (Publishing e q)
  have f: "ready (fold (\<lambda>(p, k) st. if map_of (rs_pending st) p = None then enqueue now p k st else st) works st) = ready st" for now works st
    by (induction works arbitrary: st) (auto split: prod.splits)
  have "ready (publish_loaded (m_now m) (wd_index s) e q st) = (q, snd (ready st))" for st
    by (simp add: publish_loaded_def Let_def f) (simp add: ready_def)
  with Publishing ok show ?thesis by (auto simp: ready_ok_def goto_def on_runtime_def)
next
  case Idle
  show ?thesis
    unfolding Idle(2) by (rule ready_when_live [OF ok]) (simp add: ready_goto Idle(1))
next
  case Taking
  obtain x st where x: "take_due_batch cfg (m_now m) (rt_state (wd_runtime s)) = (x, st)" by (metis prod.exhaust)
  obtain batch np pe where t: "x = (batch, np, pe)" by (metis prod_cases3)
  have "ready st = ready (rt_state (wd_runtime s))" using x ready_batch by (metis snd_conv)
  then have "ready_ok (on_runtime (\<lambda>_. st) s)" by (rule ready_on_runtime [OF ok])
  with Taking show ?thesis
    by (auto simp: step_taking_def x t Let_def on_runtime_def intro!: ready_goto split: option.splits)
next
  case (Processing b)
  with ok show ?thesis
    by (auto simp: step_processing_def Let_def intro!: ready_goto ready_if_current split: list.splits)
next
  case (Resuming w b)
  have "ready_ok (on_runtime (\<lambda>st. st \<lparr> rs_staged := AList.delete (w_path w) (rs_staged st) \<rparr>) s)"
    by (rule ready_on_runtime [OF ok]) simp
  with Resuming show ?thesis
    by (auto simp: step_resuming_def Let_def intro!: ready_goto split: option.splits)
next
  case (Attempted w previous r b)
  obtain x st where x: "after_attempt (b_active_bytes b) (prepare_overhead cfg w previous) r (rt_state (wd_runtime s)) = (x, st)"
    by (metis prod.exhaust)
  then have "ready st = ready (rt_state (wd_runtime s))" using ready_attempt by (metis snd_conv)
  then have "ready_ok (on_runtime (\<lambda>_. st) s)" by (rule ready_on_runtime [OF ok])
  with Attempted show ?thesis
    by (auto simp: step_attempted_def x Let_def intro!: ready_goto split: option.splits sum.splits PreparationOutcome.splits)
next
  case (Reserving w previous n b)
  have r: "ready_ok (on_runtime (\<lambda>_. st) s)" if "admit_staging a k (rt_state (wd_runtime s)) = (x, st)" for a k x st
    using that ready_admit by (intro ready_on_runtime [OF ok]) (metis snd_conv)
  from Reserving ok show ?thesis
    by (auto simp: step_reserving_def Let_def intro!: ready_goto split: sum.splits prod.splits dest: r)
next
  case (Admitting d b)
  have r: "ready_ok (on_runtime (\<lambda>_. st) s)" if "admit_staging a k (rt_state (wd_runtime s)) = (x, st)" for a k x st
    using that ready_admit by (intro ready_on_runtime [OF ok]) (metis snd_conv)
  from Admitting ok show ?thesis
    by (auto simp: step_admitting_def Let_def intro!: ready_goto split: prod.splits dest: r)
next
  case Settling
  show ?thesis
    unfolding Settling(2)
    by (rule ready_when_live [OF ok], rule ready_goto, rule ready_on_runtime) (simp_all add: Settling(1) on_runtime_def)
next
  case Started
  show ?thesis
    unfolding Started(2) by (rule ready_when_live [OF ok]) (simp add: ready_goto Started(1))
next
  case (Refreshing starting)
  with ok show ?thesis
    by (auto simp: step_refreshing_def Let_def goto_def on_runtime_def intro!: ready_late [OF ok])
next
  case (Quiet np pe)
  with ok show ?thesis by (auto simp: step_quiet_def goto_def intro!: ready_late [OF ok])
next
  case AfterPersist
  with ok show ?thesis by (auto simp: goto_def on_runtime_def intro!: ready_late [OF ok])
next
  case (Checking d b)
  with ok show ?thesis by (auto intro!: ready_if_current)
next
  case (Collecting k jobs b)
  with ok show ?thesis
    by (auto simp: step_collecting_def intro!: ready_goto ready_if_current split: option.splits)
next
  case (Releasing rs c)
  with ok ready_releasing show ?thesis by blast
next
  case (Finalizing starting)
  with ok ready_finalizing show ?thesis by blast
next
  case (Persisting r)
  with ok ready_persisting show ?thesis by blast
next
  case (Requesting jobs b plan dispatch)
  with ok ready_requesting show ?thesis by blast
next
  case (Preparing w previous b)
  with ok show ?thesis by (auto simp: step_preparing_def Let_def intro!: ready_goto)
next
  case (Reading w previous available b r)
  with ok show ?thesis by (auto simp: step_reading_def intro!: ready_goto split: sum.splits)
next
  case (Observing batch f)
  with ok show ?thesis by (auto simp: step_observing_def Let_def goto_def intro!: ready_late [OF ok])
next
  case (BatchDone b)
  with ok show ?thesis by (auto simp: step_batch_done_def Let_def goto_def intro!: ready_late [OF ok])
next
  case (Removed batch)
  with ok show ?thesis by (auto simp: step_removed_def goto_def intro!: ready_late [OF ok])
qed

lemma reachable_ready: "runtime_reachable cfg s \<Longrightarrow> ready_ok s"
proof (induction rule: runtime_reachable.induct)
  case (start now act ix)
  have "ready (fold (\<lambda>(p, k). enqueue now p k) works st) = ready st" for works st
    by (induction works arbitrary: st) (auto split: prod.splits)
  then show ?case
    by (simp add: ready_ok_def spawned_def spawn_def Let_def) (simp add: ready_def initial_state_def)
next
  case (step s s')
  show ?case
    using step.hyps(2)
  proof cases
    case (submitted m path kind)
    have "ready_down (rt_state (wd_runtime s)) (rt_state (submit cfg m path kind (wd_runtime s)))"
      unfolding submit_def
      by (rule ready_if_live) (simp add: ready_down_refl Let_def split: sum.split)
    with submitted step.IH show ?thesis by (auto intro: ready_ok_down)
  next
    case (activated m)
    have "ready_down (rt_state (wd_runtime s)) (rt_state (snd (activate cfg m (wd_runtime s))))"
      unfolding activate_def by (rule ready_if_live) (simp add: ready_down_refl)
    with activated step.IH show ?thesis by (auto intro: ready_ok_down)
  next
    case (asked m)
    with ready_live [of "wd_runtime s" cfg m] step.IH show ?thesis by (auto intro: ready_ok_down)
  next
    case (ran m ans)
    with ready_coordinator step.IH show ?thesis by blast
  qed (use step.IH in \<open>simp_all add: retire_def ready_ok_def\<close>)
qed

end
