(* ===== verification/RuntimeProps.thy ===== *)
theory RuntimeProps
  imports RuntimeStore
begin

text \<open>
  What holds of the embedding runtime (src/src/vault/embedding_runtime.rs) whatever the order of
  submissions, queries, retirement and the coordinator's steps, and a run of it.
\<close>

section \<open>A run\<close>

text \<open>Events of a run: a submission, a change of the index, a step of the coordinator.\<close>

datatype 's Event = Submitted Moment str PendingKind | Reindexed "'s VaultIndex" | Ran Moment Answer

fun run_event :: "RuntimeConfig \<Rightarrow> 's Event \<Rightarrow> 's World \<Rightarrow> 's World option" where
  "run_event cfg (Submitted m p k) s = Some (s \<lparr> wd_runtime := submit cfg m p k (wd_runtime s) \<rparr>)"
| "run_event cfg (Reindexed ix) s = Some (s \<lparr> wd_index := ix \<rparr>)"
| "run_event cfg (Ran m a) s = coordinator_step cfg m a s"

fun run_events :: "RuntimeConfig \<Rightarrow> 's Event list \<Rightarrow> 's World \<Rightarrow> 's World option" where
  "run_events cfg [] s = Some s"
| "run_events cfg (e # es) s = (case run_event cfg e s of None \<Rightarrow> None | Some s' \<Rightarrow> run_events cfg es s')"

lemma run_event_step: "run_event cfg e s = Some s' \<Longrightarrow> runtime_step cfg s s'"
  by (cases e) (auto intro: runtime_step.intros)

lemma run_events_reachable:
  "runtime_reachable cfg s \<Longrightarrow> run_events cfg es s = Some s' \<Longrightarrow> runtime_reachable cfg s'"
  by (induction es arbitrary: s) (auto split: option.splits dest: runtime_reachable.step [OF _ run_event_step])

text \<open>
  A vault with one note of one chunk and no cache file. The run
  stops before the release that publishes the note.
\<close>

definition sample_config :: RuntimeConfig where
  "sample_config =
     \<lparr> rc_remote = False, rc_batch_size = 8, rc_identity = sample_identity, rc_codec = sample_codec,
       rc_deps = plain_deps,
       rc_preparation = byte_model \<lparr> pr_digest := (\<lambda>t. replicate 32 (length t)) \<rparr>,
       rc_source_tags = (\<lambda>_ _ u. Inr ([], u)), rc_chunk_capacity = (\<lambda>n. length (pn_chunks n)),
       rc_draft_size = 1, rc_io_text = (\<lambda>_ _. []) \<rparr>"

definition at_time :: "nat \<Rightarrow> Moment" where
  "at_time n = \<lparr> m_now = n, m_identity_changed = None \<rparr>"

definition one_note :: "unit VaultIndex" where
  "one_note = snd (apply_observation (rc_deps sample_config) (\<lambda>_ _. False) ''n.md'' (Some ''hello'')
     \<lparr> fsize = 5, created = None, modified = None \<rparr> None False (\<lambda>_. [])
     (empty_index \<lparr> globs = (), patterns = [], private_memory = False \<rparr>))"

definition quiet :: "nat \<Rightarrow> unit Event list" where
  "quiet n = replicate n (Ran (at_time 5) NoAnswer)"

definition vectors_for :: "nat \<Rightarrow> f32 list list vault_result" where
  "vectors_for n = Inr (replicate n [0x3F800000])"

definition first_request :: "unit Event list" where
  "first_request =
     [Ran (at_time 0) NoAnswer, Ran (at_time 1) (ModelLoaded (Inr ())), Ran (at_time 2) (CacheOpened (Inr None))]
     @ quiet 6 @ [Ran (at_time 3) (SourceObserved None)] @ quiet 3
     @ [Ran (at_time 3) (SourceRead (Inr ''hello''))] @ quiet 7"

definition until_commit :: "unit Event list" where
  "until_commit =
     first_request @ [Ran (at_time 4) (Planned (Inr 1) vectors_for)]"

definition sample_start :: "unit World" where
  "sample_start = spawned sample_config 0 True one_note"

definition publishing_ok :: "unit World \<Rightarrow> unit World \<Rightarrow> unit World \<Rightarrow> bool" where
  "publishing_ok s s' s'' \<longleftrightarrow>
     (case wd_control s of Releasing (CommitNote w _ # _) _ \<Rightarrow> w_path w = ''n.md'' \<and> w_generation w = 1 | _ \<Rightarrow> False)
     \<and> map_of (es_embeddings (wd_store s)) ''n.md'' = None
     \<and> map_option (map ce_vector \<circ> ne_chunks) (map_of (es_embeddings (wd_store s')) ''n.md'') = Some [[0x3F800000]]
     \<and> rs_submitted (rt_state (wd_runtime s)) = [(''n.md'', 1)] \<and> rt_live (wd_runtime s)
     \<and> rs_finished (rt_state (wd_runtime s)) = [] \<and> rs_failures (rt_state (wd_runtime s)) = []
     \<and> rs_pending (rt_state (wd_runtime s)) = [] \<and> map fst (rs_inflight (rt_state (wd_runtime s))) = [''n.md'']
     \<and> map_option fst (map_of (rs_inflight (rt_state (wd_runtime s))) ''n.md'') = Some 1
     \<and> rs_finished (rt_state (wd_runtime s')) = [(''n.md'', 1)]
     \<and> wd_control s'' = Idle
     \<and> map_sum id (map fst \<circ> es_embeddings) (fst (query_snapshot sample_config (at_time 6) one_note (wd_store s'') (wd_runtime s'')))
         = Inr [''n.md'']"

lemma publishing_run:
  "case run_events sample_config until_commit sample_start of
     None \<Rightarrow> False
   | Some s \<Rightarrow> (case run_event sample_config (Ran (at_time 4) NoAnswer) s of
       None \<Rightarrow> False
     | Some s' \<Rightarrow> (case run_events sample_config (quiet 7) s' of None \<Rightarrow> False | Some s'' \<Rightarrow> publishing_ok s s' s''))"
  by code_simp

lemma sample_reachable_run:
  "\<exists>s s' s''. runtime_reachable sample_config s \<and> runtime_step sample_config s s'
    \<and> runtime_reachable sample_config s'' \<and> publishing_ok s s' s''"
proof -
  from publishing_run obtain s s' s'' where s: "run_events sample_config until_commit sample_start = Some s"
    "run_event sample_config (Ran (at_time 4) NoAnswer) s = Some s'" "run_events sample_config (quiet 7) s' = Some s''"
    "publishing_ok s s' s''"
    by (auto split: option.splits)
  have r: "runtime_reachable sample_config s"
    using run_events_reachable [OF _ s(1)] unfolding sample_start_def by (metis runtime_reachable.start)
  with runtime_reachable.step [OF r run_event_step [OF s(2)]] run_events_reachable [OF _ s(3)] run_event_step [OF s(2)] s(4)
  show ?thesis by blast
qed

section \<open>Publication\<close>

text \<open> Property C1. Nothing stale is published: after the cache is opened, a step changes the stored entry of a note only
  by finishing the newest intent submitted for that note, and it finishes every intent at most once.\<close>

theorem no_stale_publication:
  assumes "runtime_reachable cfg s" and "runtime_step cfg s s'" and "length (rs_submitted (rt_state (wd_runtime s))) < 2 ^ 64"
    and "map_of (es_embeddings (wd_store s')) p \<noteq> map_of (es_embeddings (wd_store s)) p"
  shows "(\<exists>ps. wd_control s = OpeningCache ps)
    \<or> (\<exists>g. latest (rt_state (wd_runtime s)) p = Some g \<and> (p, g) \<notin> set (rs_finished (rt_state (wd_runtime s)))
         \<and> rs_finished (rt_state (wd_runtime s')) = (p, g) # rs_finished (rt_state (wd_runtime s)))"
proof -
  obtain m a where c: "coordinator_step cfg m a s = Some s'"
    using step_runtime_store [OF assms(2)] assms(4) by metis
  consider "\<exists>ps. wd_control s = OpeningCache ps"
    | r rs c where "wd_control s = Releasing (r # rs) c" "s' = step_releasing cfg m (r # rs) c s"
    using coordinator_store [OF c assms(4)] by blast
  then show ?thesis
  proof cases
    case 2
    let ?st = "rt_state (wd_runtime s)" and ?w = "release_work r"
    obtain answer rt' store' where run: "run_release cfg m r (wd_runtime s, wd_store s) = (answer, rt', store')"
      by (metis prod_cases3)
    with 2(2) have s': "wd_store s' = store'" "wd_runtime s' = rt'" by (simp_all add: step_releasing_def goto_def)
    from release_store [OF run] assms(4) s'
    have r: "p = w_path ?w" "rt_live (wd_runtime s)" "state_generation ?st p = Some (w_generation ?w)"
      "rs_finished (rt_state rt') = (p, w_generation ?w) # rs_finished ?st" by auto
    have l: "ledger (?w # map release_work rs @ held c) ?st"
      using reachable_accounted [OF assms(1)] r(2) assms(3) 2(1) by (simp add: accounted_def)
    have "latest ?st p = Some (w_generation ?w)" using held_current(2) [OF l] r(1,3) by simp
    moreover have "(p, w_generation ?w) \<notin> set (rs_finished ?st)"
      using current_path [OF l] r(1,3) by auto
    ultimately show ?thesis using r(4) s'(2) by blast
  qed simp
qed

theorem no_stale_publication_witness:
  "\<exists>(s :: unit World) s'. runtime_step sample_config s s' \<and> map_of (es_embeddings (wd_store s)) ''n.md'' = None
    \<and> map_of (es_embeddings (wd_store s')) ''n.md'' \<noteq> None
    \<and> latest (rt_state (wd_runtime s)) ''n.md'' = Some 1 \<and> rs_finished (rt_state (wd_runtime s')) = [(''n.md'', 1)]"
proof -
  obtain s s' s'' where s: "runtime_reachable sample_config s" "runtime_step sample_config s s'" "publishing_ok s s' s''"
    using sample_reachable_run by blast
  have p: "map_of (es_embeddings (wd_store s)) ''n.md'' = None" "map_of (es_embeddings (wd_store s')) ''n.md'' \<noteq> None"
    "rs_submitted (rt_state (wd_runtime s)) = [(''n.md'', 1)]" "rs_finished (rt_state (wd_runtime s)) = []"
    "\<nexists>ps. wd_control s = OpeningCache ps"
    using s(3) by (auto simp: publishing_ok_def)
  have "rs_finished (rt_state (wd_runtime s')) = [(''n.md'', 1)]"
    using no_stale_publication [OF s(1,2), of "''n.md''"] p by simp
  moreover have "latest (rt_state (wd_runtime s)) ''n.md'' = Some 1" using p(3) by simp
  ultimately show ?thesis using s(2) p(1,2) by blast
qed

text \<open> Property C2. No intent is lost: the newest intent of a path is pending, held by the coordinator and in
  flight, finished or recorded as failed; older intents are never finished after it, no intent is
  finished twice, and a path is in flight exactly while the coordinator holds its work.\<close>

theorem intents_never_lost:
  assumes "runtime_reachable cfg s" and "rt_live (wd_runtime s)" and "length (rs_submitted (rt_state (wd_runtime s))) < 2 ^ 64"
    and "latest (rt_state (wd_runtime s)) p = Some g"
  shows "((\<exists>w. map_of (rs_pending (rt_state (wd_runtime s))) p = Some w \<and> w_generation w = g)
      \<or> (\<exists>w. w \<in> set (held (wd_control s)) \<and> w_path w = p \<and> w_generation w = g
           \<and> map_of (rs_inflight (rt_state (wd_runtime s))) p = Some (g, w_kind w))
      \<or> (p, g) \<in> set (rs_finished (rt_state (wd_runtime s)))
      \<or> map_of (rs_failures (rt_state (wd_runtime s))) p \<noteq> None)
    \<and> (\<forall>h. (p, h) \<in> set (rs_finished (rt_state (wd_runtime s))) \<longrightarrow> h \<le> g)
    \<and> distinct (rs_finished (rt_state (wd_runtime s)))
    \<and> (map_of (rs_inflight (rt_state (wd_runtime s))) p \<noteq> None \<longleftrightarrow> p \<in> w_path ` set (held (wd_control s)))"
proof -
  let ?st = "rt_state (wd_runtime s)" and ?h = "held_at (held (wd_control s)) p"
  have l: "ledger (held (wd_control s)) ?st"
    using reachable_accounted [OF assms(1)] assms(2,3) by (simp add: accounted_def)
  then have ok: "path_ok p ?h ?st" and d: "distinct (map w_path (held (wd_control s)))" "distinct (rs_finished ?st)"
    by (simp_all add: ledger_def counter_ok_def)
  note p = path_okD [OF ok]
  have "(\<exists>w. map_of (rs_pending ?st) p = Some w \<and> w_generation w = g)
      \<or> (\<exists>w. w \<in> set (held (wd_control s)) \<and> w_path w = p \<and> w_generation w = g \<and> map_of (rs_inflight ?st) p = Some (g, w_kind w))
      \<or> (p, g) \<in> set (rs_finished ?st) \<or> map_of (rs_failures ?st) p \<noteq> None"
  proof (cases "map_of (rs_pending ?st) p")
    case (Some w)
    with p(1) [OF Some] assms(4) show ?thesis by simp
  next
    case None
    show ?thesis
    proof (cases ?h)
      case h: (Some w)
      have "w \<in> set (held (wd_control s))" "w_path w = p" using h held_at_Some [OF d(1)] by simp_all
      moreover have "w_generation w = g" using p(3) [OF h] None assms(4) by simp
      moreover have "map_of (rs_inflight ?st) p = Some (w_generation w, w_kind w)" using p(2) h by simp
      ultimately show ?thesis by blast
    next
      case h: None
      from p(4) [OF assms(4) None h] show ?thesis by blast
    qed
  qed
  moreover have "h \<le> g" if "(p, h) \<in> set (rs_finished ?st)" for h
    using p(5) [OF that] assms(4) by auto
  moreover have "map_of (rs_inflight ?st) p \<noteq> None \<longleftrightarrow> p \<in> w_path ` set (held (wd_control s))"
    using p(2) held_at_None [of "held (wd_control s)" p] by (cases ?h) (simp_all del: held_at_None)
  ultimately show ?thesis using d(2) by blast
qed

theorem intents_never_lost_witness:
  "\<exists>(s :: unit World) w. runtime_reachable sample_config s \<and> latest (rt_state (wd_runtime s)) ''n.md'' = Some 1
    \<and> w \<in> set (held (wd_control s)) \<and> w_path w = ''n.md'' \<and> w_generation w = 1
    \<and> map_of (rs_inflight (rt_state (wd_runtime s))) ''n.md'' = Some (1, w_kind w)"
proof -
  obtain s s' s'' where s: "runtime_reachable sample_config s" "publishing_ok s s' s''"
    using sample_reachable_run by blast
  have p: "rs_submitted (rt_state (wd_runtime s)) = [(''n.md'', 1)]" "rs_finished (rt_state (wd_runtime s)) = []"
    "rs_failures (rt_state (wd_runtime s)) = []" "rs_pending (rt_state (wd_runtime s)) = []" "rt_live (wd_runtime s)"
    using s(2) by (simp_all add: publishing_ok_def)
  from intents_never_lost [OF s(1) p(5), of "''n.md''" 1] p s(1) show ?thesis by auto
qed

text \<open> Property C8. The drafts that wait for vectors never take more memory than the budget: in every reachable
  state those of the running batch, those being given back and those set aside together have at most 64 MiB.\<close>

theorem staging_bounded:
  assumes "runtime_reachable cfg s"
  shows "unpublished (wd_control s) + paused_bytes (rs_staged (rt_state (wd_runtime s))) \<le> 64 * 1024 * 1024"
  using reachable_budget [OF assms] by (simp add: budget_ok_def MAX_STAGING_BYTES_def)

theorem staging_bounded_witness:
  "\<exists>(s :: unit World) w e rs c. runtime_reachable sample_config s \<and> wd_control s = Releasing (CommitNote w e # rs) c
    \<and> unpublished (wd_control s) + paused_bytes (rs_staged (rt_state (wd_runtime s))) \<le> 64 * 1024 * 1024"
proof -
  obtain s s' s'' where s: "runtime_reachable sample_config s" "publishing_ok s s' s''"
    using sample_reachable_run by blast
  then obtain w e rs c where "wd_control s = Releasing (CommitNote w e # rs) c"
    by (auto simp: publishing_ok_def split: Control.splits list.splits Release.splits)
  with s(1) staging_bounded [OF s(1)] show ?thesis by blast
qed

section \<open>Queries\<close>

text \<open> Property C7. A query only sees a store that is ready: it gets one only while the source is live and was not
  replaced, the first pass over the vault has been completed, and every stored note is valid for the configured
  vector space, under its normalised path.\<close>

theorem queries_see_ready_store:
  assumes "runtime_reachable cfg s"
    and "query_snapshot cfg m (wd_index s) (wd_store s) (wd_runtime s) = (Inr store, rt)"
  shows "store = wd_store s \<and> rt_live rt \<and> \<not> (rc_remote cfg \<and> m_identity_changed m \<noteq> None)
    \<and> es_first_pass_complete store \<and> es_identity store = Some (rc_identity cfg)
    \<and> distinct (map fst (es_embeddings store))
    \<and> list_all (\<lambda>(p, e). validate_cache_path p = Inr p
         \<and> validate_note_entry e (si_dimension (rc_identity cfg)) = Inr ()) (es_embeddings store)"
proof -
  obtain live rt1 where l: "source_is_live cfg m (wd_runtime s) = (live, rt1)" by (cases "source_is_live cfg m (wd_runtime s)")
  with assms(2) have q: live "rs_store_queryable (rt_state rt1)" "store = wd_store s" "rt = rt1"
    by (auto simp: query_snapshot_def Let_def split: if_splits)
  with source_is_live_cases(1) [OF l] have rt: "rt1 = wd_runtime s" "rt_live (wd_runtime s)" by simp_all
  have "\<not> (rc_remote cfg \<and> m_identity_changed m \<noteq> None)"
    using l q(1) by (cases "m_identity_changed m") (auto simp: source_is_live_def)
  moreover have "es_first_pass_complete (wd_store s)"
    using reachable_ready [OF assms(1)] q(2) rt(1) by (simp add: ready_ok_def ready_def)
  ultimately show ?thesis
    using reachable_store_sound [OF assms(1)] q rt by (simp add: store_sound_def)
qed

theorem queries_see_ready_store_witness:
  "\<exists>(s :: unit World) store rt. runtime_reachable sample_config s
    \<and> query_snapshot sample_config (at_time 6) (wd_index s) (wd_store s) (wd_runtime s) = (Inr store, rt)
    \<and> map fst (es_embeddings store) = [''n.md''] \<and> es_first_pass_complete store"
proof -
  obtain s s' s'' where s: "runtime_reachable sample_config s''" "publishing_ok s s' s''"
    using sample_reachable_run by blast
  from s(2) obtain store rt where q:
    "query_snapshot sample_config (at_time 6) one_note (wd_store s'') (wd_runtime s'') = (Inr store, rt)"
    "map fst (es_embeddings store) = [''n.md'']"
    by (cases "query_snapshot sample_config (at_time 6) one_note (wd_store s'') (wd_runtime s'')") (auto simp: publishing_ok_def map_sum_Inr)
  have r: "runtime_reachable sample_config (s'' \<lparr> wd_index := one_note \<rparr>)"
    by (rule runtime_reachable.step [OF s(1) runtime_step.indexed])
  have "es_first_pass_complete store"
    using queries_see_ready_store [OF r, of "at_time 6" store rt, simplified, OF q(1)] by blast
  with q r show ?thesis
    by (intro exI [of _ "s'' \<lparr> wd_index := one_note \<rparr>"] exI [of _ store] exI [of _ rt]) simp
qed

end
