(* ===== verification/EmbedInput.thy ===== *)
theory EmbedInput
  imports Errors "HOL-Library.Code_Target_Nat"
begin

text \<open>
  Request capacity for embedding backends (src/src/vault/embedding_input.rs): the check of one
  input, the plan of the next request, and the admission of an API profile. The tokenizer is the
  parameter \<open>count\<close>, the length of a text as a JSON string \<open>encoded_len\<close>; URL parsing, file reading
  and hashing are arguments.
\<close>

definition MAX_EMBEDDING_REQUEST_BYTES :: nat where "MAX_EMBEDDING_REQUEST_BYTES = 16 * 1024 * 1024"

record EmbeddingInputPolicy =
  max_input_tokens :: nat
  tokenizer_fingerprint :: "nat list"

record EmbeddingRequestLimits =
  max_inputs :: nat
  max_total_tokens :: nat
  max_request_bytes :: nat

definition validate_input ::
  "str \<Rightarrow> EmbeddingInputPolicy \<Rightarrow> (str \<Rightarrow> nat vault_result) \<Rightarrow> nat vault_result" where
  "validate_input txt policy count =
     (if txt = [] then Inl (EmbeddingConfiguration ''embedding input cannot be empty'')
      else try_bind (count txt) (\<lambda>tokens.
        if max_input_tokens policy < tokens then Inl (EmbeddingInputTooLong tokens (max_input_tokens policy))
        else Inr tokens))"

fun plan_loop ::
  "EmbeddingInputPolicy \<Rightarrow> EmbeddingRequestLimits \<Rightarrow> (str \<Rightarrow> nat vault_result) \<Rightarrow> (str \<Rightarrow> nat vault_result)
     \<Rightarrow> str list \<Rightarrow> nat \<Rightarrow> nat \<Rightarrow> nat \<Rightarrow> nat vault_result" where
  "plan_loop policy limits count encoded_len [] total_tokens request_bytes accepted = Inr accepted"
| "plan_loop policy limits count encoded_len (txt # txts) total_tokens request_bytes accepted =
     try_bind (validate_input txt policy count) (\<lambda>tokens.
     try_bind (encoded_len txt) (\<lambda>len.
     try_bind (ok_or (EmbeddingConfiguration ''embedding request token count overflow'')
                 (checked_add total_tokens tokens)) (\<lambda>next_tokens.
     try_bind (ok_or (EmbeddingConfiguration ''embedding request byte count overflow'')
                 (Option.bind (checked_add request_bytes len)
                    (\<lambda>b. checked_add b (if accepted \<noteq> 0 then 1 else 0)))) (\<lambda>next_bytes.
       let fits_tokens = next_tokens \<le> max_total_tokens limits;
           fits_bytes = next_bytes \<le> max_request_bytes limits
       in if \<not> fits_tokens \<or> \<not> fits_bytes
          then (if accepted = 0
                then (if \<not> fits_tokens
                      then Inl (SemanticResourceLimit ''embedding request tokens'' tokens (max_total_tokens limits))
                      else Inl (SemanticResourceLimit ''embedding request bytes'' next_bytes (max_request_bytes limits)))
                else Inr accepted)
          else plan_loop policy limits count encoded_len txts next_tokens next_bytes (accepted + 1)))))"

definition plan_batch ::
  "str list \<Rightarrow> EmbeddingInputPolicy \<Rightarrow> EmbeddingRequestLimits \<Rightarrow> nat \<Rightarrow> (str \<Rightarrow> nat vault_result)
     \<Rightarrow> (str \<Rightarrow> nat vault_result) \<Rightarrow> nat vault_result" where
  "plan_batch texts policy limits empty_request_bytes count encoded_len =
     (if texts = [] then Inr 0
      else if max_inputs limits = 0 \<or> max_total_tokens limits = 0 \<or> max_request_bytes limits = 0
      then Inl (EmbeddingConfiguration ''embedding request limits must be positive'')
      else plan_loop policy limits count encoded_len (take (max_inputs limits) texts) 0 empty_request_bytes 0)"

definition validate_batch ::
  "str list \<Rightarrow> EmbeddingInputPolicy \<Rightarrow> EmbeddingRequestLimits \<Rightarrow> nat \<Rightarrow> (str \<Rightarrow> nat vault_result)
     \<Rightarrow> (str \<Rightarrow> nat vault_result) \<Rightarrow> unit vault_result" where
  "validate_batch texts policy limits empty_request_bytes count encoded_len =
     try_bind (plan_batch texts policy limits empty_request_bytes count encoded_len) (\<lambda>accepted.
       if accepted \<noteq> length texts
       then Inl (SemanticResourceLimit ''embedding request inputs'' (length texts) accepted) else Inr ())"

section \<open>API profiles\<close>

record Url =
  scheme :: str
  host :: "str option"
  username :: str
  password :: "str option"
  query :: "str option"
  fragment :: "str option"
  url_path :: str

text \<open>\<open>parse_url\<close> and \<open>url_text\<close> (the text of a URL with another path) are the URL library.\<close>

definition normalize_api_base :: "(str \<Rightarrow> Url option) \<Rightarrow> (Url \<Rightarrow> str \<Rightarrow> str) \<Rightarrow> str \<Rightarrow> str vault_result" where
  "normalize_api_base parse_url url_text base =
     (case parse_url base of
        None \<Rightarrow> Inl (EmbeddingConfiguration ''invalid embedding API base URL'')
      | Some url \<Rightarrow>
          if (scheme url \<noteq> ''http'' \<and> scheme url \<noteq> ''https'') \<or> host url = None \<or> username url \<noteq> []
             \<or> password url \<noteq> None \<or> query url \<noteq> None \<or> fragment url \<noteq> None
          then Inl (EmbeddingConfiguration
                 ''embedding API base must be an HTTP(S) URL without credentials, query or fragment'')
          else Inr (trim_end_char (CHR ''/'') (url_text url (trim_end_char (CHR ''/'') (url_path url)))))"

datatype ApiTokenizer =
    Cl100kBase
  | Huggingface str str bool

record ApiProfile =
  version :: nat
  profile_revision :: str
  api_base :: str
  model :: str
  tokenizer :: ApiTokenizer
  p_max_input_tokens :: nat
  max_batch_inputs :: nat
  max_batch_tokens :: nat

record ApiInputContract =
  c_policy :: EmbeddingInputPolicy
  c_limits :: EmbeddingRequestLimits

text \<open>
  The tokenizer of a profile: \<open>cl100k\<close> and \<open>hugging_face\<close> give the fingerprint of a loaded tokenizer,
  \<open>read_tokenizer\<close> the bytes and hexadecimal digest of its file.
\<close>

definition load_tokenizer ::
  "nat list vault_result \<Rightarrow> (str \<Rightarrow> (str \<times> str) vault_result) \<Rightarrow> (str \<Rightarrow> bool \<Rightarrow> nat list vault_result)
     \<Rightarrow> ApiTokenizer \<Rightarrow> nat list vault_result" where
  "load_tokenizer cl100k read_tokenizer hugging_face t =
     (case t of
        Cl100kBase \<Rightarrow> cl100k
      | Huggingface path sha256 special \<Rightarrow>
          try_bind (read_tokenizer path) (\<lambda>(bytes, digest).
            if length sha256 \<noteq> 64
               \<or> \<not> list_all (\<lambda>c. 48 \<le> byte c \<and> byte c \<le> 57 \<or> 97 \<le> byte c \<and> byte c \<le> 102) sha256
               \<or> digest \<noteq> sha256
            then Inl (EmbeddingConfiguration ''embedding tokenizer SHA-256 mismatch or invalid digest'')
            else hugging_face bytes special))"

definition openai_models :: "str list" where
  "openai_models = [''text-embedding-3-small'', ''text-embedding-3-large'', ''text-embedding-ada-002'']"

text \<open>\<open>profile\<close> is the decoded profile file, if one is configured; \<open>mix\<close> hashes fingerprint and revision.\<close>

definition ApiInputContract_load ::
  "(str \<Rightarrow> str vault_result) \<Rightarrow> (ApiTokenizer \<Rightarrow> nat list vault_result) \<Rightarrow> (nat list \<Rightarrow> str \<Rightarrow> nat list)
     \<Rightarrow> str \<Rightarrow> str \<Rightarrow> ApiProfile vault_result option \<Rightarrow> ApiInputContract vault_result" where
  "ApiInputContract_load norm_base load_tok mix base mdl profile0 =
     try_bind (norm_base base) (\<lambda>actual_base.
     try_bind
       (case profile0 of
          Some decoded \<Rightarrow>
            try_bind decoded (\<lambda>profile.
            if version profile \<noteq> 1 \<or> trim (profile_revision profile) = []
            then Inl (EmbeddingConfiguration
                   ''embedding API profile requires version 1 and a nonempty profile_revision'')
            else try_bind (norm_base (api_base profile)) (\<lambda>b.
              if b \<noteq> actual_base \<or> model profile \<noteq> mdl
              then Inl (EmbeddingConfiguration
                     ''embedding API profile does not match the exact configured endpoint and model'')
              else try_bind (load_tok (tokenizer profile)) (\<lambda>fp.
                Inr (fp, p_max_input_tokens profile, max_batch_inputs profile, max_batch_tokens profile,
                     profile_revision profile))))
        | None \<Rightarrow>
            if actual_base \<noteq> ''https://api.openai.com/v1'' \<or> mdl \<notin> set openai_models
            then Inl (EmbeddingConfiguration
                   ''unknown embedding API tokenizer/capacity; set OBSIDIAN_EMBEDDING_API_PROFILE to a verified profile for this exact endpoint and model'')
            else try_bind (load_tok Cl100kBase) (\<lambda>fp. Inr (fp, 8192, 2048, 300000, ''openai-embedding-contract-v1'')))
       (\<lambda>(fp, input_tokens, inputs, total_tokens, revision).
         if input_tokens = 0 \<or> inputs = 0 \<or> total_tokens < input_tokens
         then Inl (EmbeddingConfiguration
                ''embedding API limits must be positive and a request must accommodate one maximum-sized input'')
         else Inr \<lparr> c_policy = \<lparr> max_input_tokens = input_tokens, tokenizer_fingerprint = mix fp revision \<rparr>,
                   c_limits = \<lparr> max_inputs = inputs, max_total_tokens = total_tokens,
                               max_request_bytes = MAX_EMBEDDING_REQUEST_BYTES \<rparr> \<rparr>))"

section \<open>The plan is a greedy fit\<close>

definition tokens_of :: "(str \<Rightarrow> nat vault_result) \<Rightarrow> str \<Rightarrow> nat" where
  "tokens_of count t = (case count t of Inr n \<Rightarrow> n | Inl _ \<Rightarrow> 0)"

text \<open>The JSON array of \<open>ts\<close> inside a request: the encoded inputs and the commas between them.\<close>

definition request_size :: "(str \<Rightarrow> nat vault_result) \<Rightarrow> nat \<Rightarrow> str list \<Rightarrow> nat" where
  "request_size encoded_len empty_bytes ts =
     empty_bytes + sum_list (map (tokens_of encoded_len) ts) + (length ts - 1)"

definition batch_fits ::
  "EmbeddingInputPolicy \<Rightarrow> EmbeddingRequestLimits \<Rightarrow> (str \<Rightarrow> nat vault_result) \<Rightarrow> (str \<Rightarrow> nat vault_result)
     \<Rightarrow> nat \<Rightarrow> str list \<Rightarrow> bool" where
  "batch_fits policy limits count encoded_len e ts \<longleftrightarrow>
     sum_list (map (tokens_of count) ts) \<le> max_total_tokens limits
     \<and> (ts = [] \<or> request_size encoded_len e ts \<le> max_request_bytes limits)
     \<and> list_all (\<lambda>t. t \<noteq> [] \<and> tokens_of count t \<le> max_input_tokens policy) ts"

lemma plan_loop_greedy:
  assumes "plan_loop policy limits count encoded_len txts (sum_list (map (tokens_of count) before))
      (request_size encoded_len e before) (length before) = Inr n"
    and "batch_fits policy limits count encoded_len e before"
  shows "\<exists>k \<le> length txts. n = length before + k \<and> batch_fits policy limits count encoded_len e (before @ take k txts)
       \<and> (k < length txts \<longrightarrow> before @ take k txts \<noteq> []
            \<and> \<not> batch_fits policy limits count encoded_len e (before @ take k txts @ [txts ! k]))"
  using assms
proof (induction txts arbitrary: before)
  case Nil
  then show ?case by auto
next
  case (Cons t txts)
  let ?sum = "\<lambda>ts. sum_list (map (tokens_of count) ts)" and ?size = "request_size encoded_len e"
    and ?fits = "batch_fits policy limits count encoded_len e"
  obtain tok len where t: "validate_input t policy count = Inr tok" "encoded_len t = Inr len"
    using Cons.prems(1) by (auto simp: result_simps)
  then have tk: "t \<noteq> []" "tokens_of count t = tok" "tok \<le> max_input_tokens policy"
    by (auto simp: validate_input_def tokens_of_def result_simps split: if_splits)
  have s: "?sum (before @ [t]) = ?sum before + tok" by (simp add: tk)
  have b: "?size (before @ [t]) = ?size before + len + (if length before \<noteq> 0 then 1 else 0)"
    by (cases before) (simp_all add: request_size_def tokens_of_def t)
  have fits: "?fits (before @ [t]) \<longleftrightarrow>
      ?sum (before @ [t]) \<le> max_total_tokens limits \<and> ?size (before @ [t]) \<le> max_request_bytes limits"
    using Cons.prems(2) tk unfolding batch_fits_def by auto
  show ?case
  proof (cases "?fits (before @ [t])")
    case False
    then have "before \<noteq> []" "n = length before"
      using Cons.prems(1) t s b unfolding fits
      by (auto simp: result_simps Let_def checked_add_Some_iff bind_eq_Some_conv split: if_splits)
    with False Cons.prems show ?thesis by (intro exI [of _ 0]) simp
  next
    case True
    then have "plan_loop policy limits count encoded_len txts (?sum (before @ [t])) (?size (before @ [t])) (length (before @ [t])) = Inr n"
      using Cons.prems(1) t s b unfolding fits
      by (auto simp: result_simps Let_def checked_add_Some_iff bind_eq_Some_conv split: if_splits)
    from Cons.IH [OF this True] obtain k where k: "k \<le> length txts" "n = length (before @ [t]) + k"
      "?fits ((before @ [t]) @ take k txts)"
      "k < length txts \<longrightarrow> (before @ [t]) @ take k txts \<noteq> [] \<and> \<not> ?fits ((before @ [t]) @ take k txts @ [txts ! k])"
      by blast
    then show ?thesis by (intro exI [of _ "Suc k"]) simp
  qed
qed

lemma plan_batch_greedy_parts:
  assumes p: "plan_batch texts policy limits e count encoded_len = Inr n" and ne: "texts \<noteq> []"
  shows "1 \<le> n" and "n \<le> length texts" and "n \<le> max_inputs limits"
    and "batch_fits policy limits count encoded_len e (take n texts)"
    and "n < length texts \<Longrightarrow> n < max_inputs limits \<Longrightarrow>
      \<not> batch_fits policy limits count encoded_len e (take (Suc n) texts)"
proof -
  let ?txts = "take (max_inputs limits) texts"
  have m: "max_inputs limits \<noteq> 0"
    and loop: "plan_loop policy limits count encoded_len ?txts (sum_list (map (tokens_of count) []))
      (request_size encoded_len e []) (length ([] :: str list)) = Inr n"
    using p ne by (auto simp: plan_batch_def request_size_def split: if_splits)
  have "batch_fits policy limits count encoded_len e []" by (simp add: batch_fits_def)
  from plan_loop_greedy [OF loop this] obtain k where k: "k \<le> length ?txts" "n = k"
    "batch_fits policy limits count encoded_len e (take k ?txts)"
    "k < length ?txts \<longrightarrow> take k ?txts \<noteq> [] \<and> \<not> batch_fits policy limits count encoded_len e (take k ?txts @ [?txts ! k])"
    by auto
  have tk: "take k ?txts = take n texts" using k(1,2) by (simp add: min_absorb1)
  show "1 \<le> n"
  proof (cases "k < length ?txts")
    case True
    with k show ?thesis by (cases k) auto
  next
    case False
    moreover have "0 < length ?txts" using ne m by simp
    ultimately show ?thesis using k(2) by linarith
  qed
  show "n \<le> length texts" "n \<le> max_inputs limits" using k(1,2) by simp_all
  show "batch_fits policy limits count encoded_len e (take n texts)" using k(3) unfolding tk .
  show "\<not> batch_fits policy limits count encoded_len e (take (Suc n) texts)"
    if "n < length texts" "n < max_inputs limits"
  proof -
    have l: "k < length ?txts" using that k(2) by simp
    have "take (Suc n) texts = take k ?txts @ [?txts ! k]"
      using that unfolding tk k(2) [symmetric] by (simp add: take_Suc_conv_app_nth)
    with k(4) l show ?thesis by simp
  qed
qed

text \<open>
  Property C28. The plan of a request is a maximal fit: it takes at least one of the inputs offered,
  never more than the request may hold, every input taken is nonempty and within the model's
  context, the total of tokens and the exact size of the JSON request stay within the limits, and
  the next input, if the count limit allows one, would break a limit. So a caller that repeats the
  plan on the rest always advances and never has a request refused for its size.
\<close>

theorem plan_batch_greedy:
  assumes "plan_batch texts policy limits e count encoded_len = Inr n" and "texts \<noteq> []"
  shows "1 \<le> n \<and> n \<le> length texts \<and> n \<le> max_inputs limits
    \<and> batch_fits policy limits count encoded_len e (take n texts)
    \<and> (n < length texts \<and> n < max_inputs limits \<longrightarrow>
         \<not> batch_fits policy limits count encoded_len e (take (Suc n) texts))"
  using plan_batch_greedy_parts [OF assms] by blast


theorem plan_batch_greedy_witness:
  "plan_batch [''abc'', ''de'', ''f''] \<lparr> max_input_tokens = 3, tokenizer_fingerprint = [] \<rparr>
     \<lparr> max_inputs = 8, max_total_tokens = 5, max_request_bytes = 100 \<rparr> 10 (\<lambda>t. Inr (length t)) (\<lambda>t. Inr (length t + 2)) = Inr 2
   \<and> batch_fits \<lparr> max_input_tokens = 3, tokenizer_fingerprint = [] \<rparr>
     \<lparr> max_inputs = 8, max_total_tokens = 5, max_request_bytes = 100 \<rparr> (\<lambda>t. Inr (length t)) (\<lambda>t. Inr (length t + 2)) 10
     [''abc'', ''de'']"
proof -
  have p: "plan_batch [''abc'', ''de'', ''f''] \<lparr> max_input_tokens = 3, tokenizer_fingerprint = [] \<rparr>
     \<lparr> max_inputs = 8, max_total_tokens = 5, max_request_bytes = 100 \<rparr> 10 (\<lambda>t. Inr (length t)) (\<lambda>t. Inr (length t + 2)) = Inr 2"
    by code_simp
  from p plan_batch_greedy [OF p] show ?thesis by simp
qed

end
