(* ===== verification/Semantic.thy ===== *)
theory Semantic
  imports Runtime
begin

text \<open>
  Ranking and rendering of semantic results (src/src/vault/semantic_results.rs, search_utils.rs).

  The cosine similarity of a query, the scaling of lexical scores and the blend of both are
  floating-point functions and parameters; the order of two scores is computed on their bits. The
  regular expression that finds a query word is the parameter \<open>word_regex\<close>, a compiler whose result
  gives the first match of a text.
\<close>

section \<open>Order of scores\<close>

text \<open>\<^verbatim>\<open>f32::total_cmp\<close> compares these numbers; \<open>>\<close> and \<open>==\<close> on finite values compare the others.\<close>

definition total_key :: "f32 \<Rightarrow> int" where
  "total_key v = (if uint v < 0x80000000 then uint v else - 1 - (uint v - 0x80000000))"

definition value_key :: "f32 \<Rightarrow> int" where
  "value_key v = (if uint v < 0x80000000 then uint v else - (uint v - 0x80000000))"

section \<open>Ranking\<close>

record SemanticEvidence =
  ev_scope :: EvidenceScope
  ev_similarity :: f32
  ev_range :: SourceRange
  ev_headings :: "str list"
  ev_section :: "SourceRange option"

record RankedNote =
  rn_path :: str
  rn_score :: f32
  rn_evidence :: SemanticEvidence
  rn_entry :: NoteEmbeddingEntry

type_synonym similarity = "f32 list \<Rightarrow> f32"

definition better :: "f32 \<Rightarrow> nat \<Rightarrow> (f32 \<times> nat) option \<Rightarrow> bool" where
  "better score start winner \<longleftrightarrow>
     (case winner of
        None \<Rightarrow> True
      | Some (previous, previous_start) \<Rightarrow>
          value_key previous < value_key score \<or> (value_key score = value_key previous \<and> start < previous_start))"

fun best_chunk :: "similarity \<Rightarrow> str \<Rightarrow> ChunkEmbedding list \<Rightarrow> (f32 \<times> nat) option \<Rightarrow> (f32 \<times> nat) option vault_result" where
  "best_chunk sim path [] winner = Inr winner"
| "best_chunk sim path (c # cs) winner =
     (let score = sim (ce_vector c); start = start_byte (ce_range c) in
      if \<not> is_finite score then Inl (Embedding (''non-finite semantic score for '' @ path))
      else best_chunk sim path cs (if better score start winner then Some (score, start) else winner))"

definition best_note :: "similarity \<Rightarrow> str \<Rightarrow> NoteEmbeddingEntry \<Rightarrow> RankedNote vault_result" where
  "best_note sim path entry =
     try_bind (best_chunk sim path (ne_chunks entry) None) (\<lambda>winner.
     try_bind (ok_or (Embedding (''no complete semantic input for '' @ path)) winner) (\<lambda>(score, start).
     try_bind (ok_or (Embedding ''semantic winner is absent from its observation'')
         (find (\<lambda>c. start_byte (ce_range c) = start) (ne_chunks entry))) (\<lambda>c.
     Inr \<lparr> rn_path = path, rn_score = score,
           rn_evidence = \<lparr> ev_scope = ce_scope c, ev_similarity = score, ev_range = ce_range c,
             ev_headings = ce_headings c, ev_section = ce_section c \<rparr>,
           rn_entry = entry \<rparr>)))"

text \<open>
  The best \<open>top_k\<close> by falling score, then by path. Hits the order does not tell apart are equal for it,
  and which of them is kept is open in the source.
\<close>

definition finish_ranking :: "RankedNote list \<Rightarrow> nat \<Rightarrow> RankedNote list" where
  "finish_ranking hits top_k = take top_k (sort_key (\<lambda>h. - total_key (rn_score h)) (sort_key rn_path hits))"

fun collect_results :: "'a vault_result list \<Rightarrow> 'a list vault_result" where
  "collect_results [] = Inr []"
| "collect_results (r # rs) = try_bind r (\<lambda>x. try_bind (collect_results rs) (\<lambda>xs. Inr (x # xs)))"

definition rank_semantic :: "similarity \<Rightarrow> NoteEmbeddingEntry table \<Rightarrow> nat \<Rightarrow> RankedNote list vault_result" where
  "rank_semantic sim entries top_k =
     try_bind (collect_results (map (\<lambda>(path, entry). best_note sim path entry) entries)) (\<lambda>hits.
     Inr (finish_ranking hits top_k))"

text \<open>\<open>scale\<close> is the min-max formula over the finite scores, 1 for all of them when their range is 0.\<close>

definition normalize_bm25_scores :: "(f32 list \<Rightarrow> f32 \<Rightarrow> f32) \<Rightarrow> (str \<times> f32) list \<Rightarrow> (str \<times> f32) list" where
  "normalize_bm25_scores scale hits =
     (let finite_hits = filter (\<lambda>(_, s). is_finite s) hits
      in map (\<lambda>(path, score). (path, scale (map snd finite_hits) score)) finite_hits)"

text \<open>\<open>blend lexical cosine\<close> is the weighted sum of the two scores.\<close>

definition hybrid_hit ::
  "similarity \<Rightarrow> (f32 \<Rightarrow> f32 \<Rightarrow> f32) \<Rightarrow> NoteEmbeddingEntry table \<Rightarrow> str \<times> f32 \<Rightarrow> RankedNote vault_result" where
  "hybrid_hit sim blend entries = (\<lambda>(path, lexical_score).
     try_bind (ok_or (Embedding (''lexical candidate '' @ path @ '' is outside the captured semantic scope''))
         (map_of entries path)) (\<lambda>entry.
     try_bind (best_note sim path entry) (\<lambda>hit.
     Inr (hit \<lparr> rn_score := blend lexical_score (ev_similarity (rn_evidence hit)) \<rparr>))))"

definition rank_hybrid ::
  "similarity \<Rightarrow> (f32 list \<Rightarrow> f32 \<Rightarrow> f32) \<Rightarrow> (f32 \<Rightarrow> f32 \<Rightarrow> f32) \<Rightarrow> NoteEmbeddingEntry table \<Rightarrow> (str \<times> f32) list \<Rightarrow> nat
     \<Rightarrow> RankedNote list vault_result" where
  "rank_hybrid sim scale blend entries lexical top_k =
     try_bind (collect_results (map (hybrid_hit sim blend entries) (normalize_bm25_scores scale lexical))) (\<lambda>hits.
     Inr (finish_ranking hits top_k))"

section \<open>Previews\<close>

type_synonym word_regex = "str \<Rightarrow> (str \<Rightarrow> nat option) option"

fun split_spaces :: "str list \<Rightarrow> str \<Rightarrow> str list" where
  "split_spaces [] word = (if word = [] then [] else [word])"
| "split_spaces (u # us) word =
     (if is_ws_char u then (if word = [] then [] else [word]) @ split_spaces us [] else split_spaces us (word @ u))"

definition split_whitespace :: "str \<Rightarrow> str list" where
  "split_whitespace s = split_spaces (chars s) []"

definition compile_query_word_regex :: "(str \<Rightarrow> str) \<Rightarrow> word_regex \<Rightarrow> str \<Rightarrow> (str \<Rightarrow> nat option) option" where
  "compile_query_word_regex escape regex query =
     (let pattern = join_with ''|'' (map escape (split_whitespace query))
      in if pattern = [] then None else regex (''(?i)'' @ pattern))"

text \<open>The byte position of a character, the length of the text if there are fewer.\<close>

definition char_offset :: "nat \<Rightarrow> str \<Rightarrow> nat" where
  "char_offset n s = length (concat (take n (chars s)))"

definition MAX_PREVIEW_CHARS :: nat where "MAX_PREVIEW_CHARS = 300"

definition preview_range :: "(str \<Rightarrow> str) \<Rightarrow> word_regex \<Rightarrow> str \<Rightarrow> SourceRange \<Rightarrow> str \<Rightarrow> SourceRange" where
  "preview_range escape regex content evidence query =
     (let text = Prelude.slice content (start_byte evidence) (end_byte evidence);
          found = Option.bind (compile_query_word_regex escape regex query) (\<lambda>re. re text);
          target = (case found of None \<Rightarrow> 0 | Some position \<Rightarrow> length (chars (take position text)));
          start = char_offset (target - MAX_PREVIEW_CHARS div 2) text;
          til = start + char_offset MAX_PREVIEW_CHARS (drop start text)
      in \<lparr> start_byte = start_byte evidence + start, end_byte = start_byte evidence + til \<rparr>)"

section \<open>Rendering\<close>

datatype SourceStatus = Current | Changed | SourceUnavailable

record SemanticPreview =
  pv_range :: SourceRange
  pv_complete :: bool

record SemanticContextError =
  cx_code :: str
  cx_message :: str
  cx_current_revision :: "str option"

record SemanticNoteResult =
  sr_path :: str
  sr_title :: str
  sr_score :: f32
  sr_tags :: "str list"
  sr_snippet :: "str option"
  sr_content :: "str option"
  sr_revision :: str
  sr_source_bytes :: nat
  sr_status :: SourceStatus
  sr_evidence :: SemanticEvidence
  sr_preview :: "SemanticPreview option"
  sr_error :: "SemanticContextError option"

definition observed_result :: "RankedNote \<Rightarrow> SemanticNoteResult" where
  "observed_result hit =
     \<lparr> sr_path = rn_path hit, sr_title = ne_title (rn_entry hit), sr_score = rn_score hit, sr_tags = ne_tags (rn_entry hit),
       sr_snippet = None, sr_content = None, sr_revision = ne_revision (rn_entry hit),
       sr_source_bytes = ne_source_bytes (rn_entry hit), sr_status = Current, sr_evidence = rn_evidence hit,
       sr_preview = None, sr_error = None \<rparr>"

definition valid_source :: "SourceSnapshot \<Rightarrow> SemanticNoteResult \<Rightarrow> unit vault_result" where
  "valid_source snapshot result =
     (let range = ev_range (sr_evidence result) in
      try_bind (validate_range snapshot range) (\<lambda>_.
        if sr_source_bytes result \<noteq> length (s_content snapshot)
        then Inl (InvalidSourceRange ''indexed source length does not match the observed revision'')
        else case ev_section (sr_evidence result) of
            None \<Rightarrow> Inr ()
          | Some sec \<Rightarrow> try_bind (validate_range snapshot sec) (\<lambda>_.
              if start_byte range < start_byte sec \<or> end_byte sec < end_byte range
              then Inl (InvalidSourceRange ''indexed section does not contain its semantic evidence'') else Inr ())))"

text \<open>What rendering needs of the outside: escaping, the expression compiler and the display of an error.\<close>

record Renderer =
  re_escape :: "str \<Rightarrow> str"
  re_regex :: word_regex
  re_io_text :: "io_kind \<Rightarrow> int option \<Rightarrow> str"

definition render_snapshot ::
  "Renderer \<Rightarrow> SourceSnapshot vault_result \<Rightarrow> RankedNote \<Rightarrow> str \<Rightarrow> bool \<Rightarrow> SemanticNoteResult" where
  "render_snapshot re snapshot hit query include_content =
     (let result = observed_result hit in
      case snapshot of
        Inl e \<Rightarrow> result \<lparr> sr_status := SourceUnavailable,
          sr_error := Some \<lparr> cx_code = ''source_unavailable'', cx_message = error_text (re_io_text re) e,
            cx_current_revision = None \<rparr> \<rparr>
      | Inr s \<Rightarrow>
          if s_revision s \<noteq> sr_revision result
          then result \<lparr> sr_status := Changed,
            sr_error := Some \<lparr> cx_code = ''source_changed'',
              cx_message = ''The note changed after this semantic observation was indexed.'',
              cx_current_revision = Some (s_revision s) \<rparr> \<rparr>
          else case valid_source s result of
              Inl e \<Rightarrow> result \<lparr> sr_status := SourceUnavailable,
                sr_error := Some \<lparr> cx_code = ''invalid_source_range'', cx_message = error_text (re_io_text re) e,
                  cx_current_revision = Some (s_revision s) \<rparr> \<rparr>
            | Inr _ \<Rightarrow>
                if include_content then result \<lparr> sr_content := Some (s_content s) \<rparr>
                else let range = ev_range (sr_evidence result);
                         preview = preview_range (re_escape re) (re_regex re) (s_content s) range query
                     in result \<lparr> sr_snippet := Some (Prelude.slice (s_content s) (start_byte preview) (end_byte preview)),
                          sr_preview := Some \<lparr> pv_range = preview, pv_complete = (preview = range) \<rparr> \<rparr>)"


section \<open>Facts about ranking\<close>

definition ranks_before :: "RankedNote \<Rightarrow> RankedNote \<Rightarrow> bool" where
  "ranks_before a b \<longleftrightarrow>
     total_key (rn_score b) < total_key (rn_score a)
     \<or> total_key (rn_score a) = total_key (rn_score b) \<and> rn_path a < rn_path b"

lemma sorted_wrt_insort_key:
  assumes "sorted_wrt (\<lambda>x y. f x < f y \<or> f x = f y \<and> g x \<le> (g y :: 'b :: linorder)) zs" and "\<forall>z \<in> set zs. g x \<le> g z"
  shows "sorted_wrt (\<lambda>x y. f x < f y \<or> f x = (f y :: 'a :: linorder) \<and> g x \<le> g y) (insort_key f x zs)"
  using assms by (induction zs) (auto simp: set_insort_key)

lemma sorted_wrt_sort_sort:
  "sorted_wrt (\<lambda>x y. f x < f y \<or> f x = f y \<and> g x \<le> g y) (sort_key f (sort_key (g :: 'c \<Rightarrow> 'b :: linorder) xs))"
proof -
  have "sorted_wrt (\<lambda>x y. f x < f y \<or> f x = f y \<and> g x \<le> g y) (sort_key f ys)" if "sorted (map g ys)" for ys :: "'c list"
    using that by (induction ys) (auto intro!: sorted_wrt_insort_key)
  then show ?thesis by simp
qed

lemma sorted_wrt_take_drop: "sorted_wrt P xs \<Longrightarrow> x \<in> set (take k xs) \<Longrightarrow> y \<in> set (drop k xs) \<Longrightarrow> P x y"
  using sorted_wrt_append [of P "take k xs" "drop k xs"] by simp

lemma sorted_wrt_distinct: "distinct (map f xs) \<Longrightarrow> sorted_wrt (\<lambda>x y. f x \<noteq> f y) xs"
  by (induction xs) force+

lemma sorted_wrt_both: "sorted_wrt P xs \<Longrightarrow> sorted_wrt Q xs \<Longrightarrow> (\<And>x y. P x y \<Longrightarrow> Q x y \<Longrightarrow> R x y) \<Longrightarrow> sorted_wrt R xs"
  by (induction xs) auto

lemma finish_ranking_order:
  assumes "distinct (map rn_path hits)"
  shows "sorted_wrt ranks_before (finish_ranking hits k)"
    and "set (finish_ranking hits k) \<subseteq> set hits" and "length (finish_ranking hits k) = min k (length hits)"
    and "b \<in> set hits \<Longrightarrow> b \<notin> set (finish_ranking hits k) \<Longrightarrow> h \<in> set (finish_ranking hits k) \<Longrightarrow> ranks_before h b"
proof -
  let ?xs = "sort_key (\<lambda>h. - total_key (rn_score h)) (sort_key rn_path hits)"
  let ?P = "\<lambda>x y. - total_key (rn_score x) < - total_key (rn_score y)
      \<or> - total_key (rn_score x) = - total_key (rn_score y) \<and> rn_path x \<le> rn_path y"
  have "mset (map rn_path ?xs) = mset (map rn_path hits)" by simp
  with assms have "distinct (map rn_path ?xs)" by (metis mset_eq_imp_distinct_iff)
  then have d: "sorted_wrt (\<lambda>x y. rn_path x \<noteq> rn_path y) ?xs" by (rule sorted_wrt_distinct)
  have "sorted_wrt ?P ?xs" by (rule sorted_wrt_sort_sort)
  from this d have s: "sorted_wrt ranks_before ?xs"
    by (rule sorted_wrt_both) (auto simp: ranks_before_def)
  then show "sorted_wrt ranks_before (finish_ranking hits k)" by (simp add: finish_ranking_def sorted_wrt_take)
  show "set (finish_ranking hits k) \<subseteq> set hits" by (auto simp: finish_ranking_def dest: in_set_takeD)
  show "length (finish_ranking hits k) = min k (length hits)" by (simp add: finish_ranking_def min.commute)
  show "ranks_before h b"
    if "b \<in> set hits" "b \<notin> set (finish_ranking hits k)" "h \<in> set (finish_ranking hits k)"
  proof -
    have "b \<in> set ?xs" using that(1) by simp
    with that(2) have "b \<in> set (drop k ?xs)" by (metis UnE append_take_drop_id finish_ranking_def set_append)
    with s that(3) show ?thesis by (auto simp: finish_ranking_def dest: sorted_wrt_take_drop)
  qed
qed

lemma best_chunk_wins:
  assumes "best_chunk sim path cs w = Inr (Some (s, st))"
  shows "(w = Some (s, st) \<or> (\<exists>c \<in> set cs. sim (ce_vector c) = s \<and> start_byte (ce_range c) = st))
    \<and> (\<forall>c \<in> set cs. is_finite (sim (ce_vector c)) \<and> value_key (sim (ce_vector c)) \<le> value_key s
         \<and> (value_key (sim (ce_vector c)) = value_key s \<longrightarrow> st \<le> start_byte (ce_range c)))
    \<and> (\<forall>v vst. w = Some (v, vst) \<longrightarrow> value_key v \<le> value_key s \<and> (value_key v = value_key s \<longrightarrow> st \<le> vst))"
  using assms
proof (induction cs arbitrary: w)
  case (Cons c cs)
  let ?v = "sim (ce_vector c)" and ?vst = "start_byte (ce_range c)"
  let ?w = "if better ?v ?vst w then Some (?v, ?vst) else w"
  from Cons.prems have f: "is_finite ?v" and r: "best_chunk sim path cs ?w = Inr (Some (s, st))"
    by (auto simp: Let_def split: if_splits)
  note ih = Cons.IH [OF r]
  show ?case
  proof (cases "better ?v ?vst w")
    case True
    then have w: "?w = Some (?v, ?vst)" by simp
    from ih have i: "Some (?v, ?vst) = Some (s, st) \<or> (\<exists>c \<in> set cs. sim (ce_vector c) = s \<and> start_byte (ce_range c) = st)"
      "value_key ?v \<le> value_key s" "value_key ?v = value_key s \<Longrightarrow> st \<le> ?vst"
      unfolding w by blast+
    have "value_key u \<le> value_key s \<and> (value_key u = value_key s \<longrightarrow> st \<le> ust)" if "w = Some (u, ust)" for u ust
    proof -
      from True that consider "value_key u < value_key ?v" | "value_key ?v = value_key u" "?vst < ust"
        by (auto simp: better_def)
      then show ?thesis using i(2,3) by cases auto
    qed
    moreover from i(1) have "\<exists>c \<in> set (c # cs). sim (ce_vector c) = s \<and> start_byte (ce_range c) = st" by auto
    ultimately show ?thesis using ih f i(2,3) unfolding list.set by blast
  next
    case False
    then obtain u ust where w: "w = Some (u, ust)" by (cases w) (auto simp: better_def)
    with False have n: "value_key ?v \<le> value_key u" "value_key ?v = value_key u \<Longrightarrow> ust \<le> ?vst"
      by (auto simp: better_def not_less)
    from ih False have "?w = Some (u, ust)" by (simp add: w)
    with ih have u: "value_key u \<le> value_key s" "value_key u = value_key s \<Longrightarrow> st \<le> ust" by auto
    have "value_key ?v \<le> value_key s" using n(1) u(1) by simp
    moreover have "st \<le> ?vst" if "value_key ?v = value_key s"
      using that n u by (metis antisym le_trans)
    ultimately show ?thesis using ih f False by auto
  qed
qed auto


lemma best_chunk_none: "best_chunk sim path cs w = Inr None \<Longrightarrow> cs = [] \<and> w = None"
proof (induction cs arbitrary: w)
  case (Cons c cs)
  then show ?case by (cases w) (auto simp: Let_def better_def split: if_splits)
qed auto

lemma best_chunk_error:
  "best_chunk sim path cs w = Inl e \<Longrightarrow>
    e = Embedding (''non-finite semantic score for '' @ path) \<and> (\<exists>c \<in> set cs. \<not> is_finite (sim (ce_vector c)))"
  by (induction cs arbitrary: w) (auto simp: Let_def split: if_splits)

text \<open>A hit's score is the best of its note, its evidence the first chunk with that score.\<close>

definition is_best :: "similarity \<Rightarrow> RankedNote \<Rightarrow> bool" where
  "is_best sim h \<longleftrightarrow>
     (\<exists>c \<in> set (ne_chunks (rn_entry h)).
        rn_score h = sim (ce_vector c) \<and> ev_similarity (rn_evidence h) = sim (ce_vector c) \<and> ev_range (rn_evidence h) = ce_range c
        \<and> (\<forall>c' \<in> set (ne_chunks (rn_entry h)). value_key (sim (ce_vector c')) \<le> value_key (rn_score h)
             \<and> (value_key (sim (ce_vector c')) = value_key (rn_score h) \<longrightarrow> start_byte (ce_range c) \<le> start_byte (ce_range c'))))"

lemma find_distinct:
  "distinct (map f xs) \<Longrightarrow> x \<in> set xs \<Longrightarrow> find (\<lambda>y. f y = f x) xs = Some x"
  by (induction xs) (auto simp: image_iff)

lemma best_note_best:
  assumes "distinct (map (start_byte \<circ> ce_range) (ne_chunks entry))" and "best_note sim path entry = Inr h"
  shows "rn_path h = path \<and> rn_entry h = entry \<and> is_best sim h"
proof -
  from assms(2) obtain s st d where b: "best_chunk sim path (ne_chunks entry) None = Inr (Some (s, st))"
    and d: "find (\<lambda>c. start_byte (ce_range c) = st) (ne_chunks entry) = Some d"
    and h: "h = \<lparr> rn_path = path, rn_score = s, rn_evidence = \<lparr> ev_scope = ce_scope d, ev_similarity = s, ev_range = ce_range d,
        ev_headings = ce_headings d, ev_section = ce_section d \<rparr>, rn_entry = entry \<rparr>"
    by (auto simp: best_note_def result_simps split: prod.splits option.splits)
  note w = best_chunk_wins [OF b]
  then obtain c where c: "c \<in> set (ne_chunks entry)" "sim (ce_vector c) = s" "start_byte (ce_range c) = st" by blast
  have "d = c" using find_distinct [OF assms(1) c(1)] d c(3) by (simp add: comp_def)
  with w c h show ?thesis by (auto simp: is_best_def)
qed

lemma best_note_error:
  assumes "distinct (map (start_byte \<circ> ce_range) (ne_chunks entry))" and "ne_chunks entry \<noteq> []" and "best_note sim path entry = Inl e"
  shows "e = Embedding (''non-finite semantic score for '' @ path) \<and> (\<exists>c \<in> set (ne_chunks entry). \<not> is_finite (sim (ce_vector c)))"
proof (cases "best_chunk sim path (ne_chunks entry) None")
  case (Inl e')
  with assms(3) best_chunk_error [OF Inl] show ?thesis by (simp add: best_note_def)
next
  case (Inr w)
  then obtain s st where w: "w = Some (s, st)" using best_chunk_none assms(2) by (metis option.exhaust prod.exhaust)
  from best_chunk_wins [OF Inr [unfolded w]] obtain c where c: "c \<in> set (ne_chunks entry)" "start_byte (ce_range c) = st" by blast
  with find_distinct [OF assms(1) c(1)] assms(3) Inr w show ?thesis by (simp add: best_note_def comp_def)
qed

lemma collect_results_Inr: "collect_results rs = Inr xs \<longleftrightarrow> rs = map Inr xs"
  by (induction rs arbitrary: xs) (auto simp: result_simps)

lemma collect_results_Inl: "collect_results rs = Inl e \<Longrightarrow> Inl e \<in> set rs"
  by (induction rs) (auto simp: result_simps)

lemma valid_chunks_starts:
  "validate_chunks entry d next cs = Inr til \<Longrightarrow> start_byte (ne_body entry) \<noteq> end_byte (ne_body entry) \<Longrightarrow>
    sorted_wrt (<) (map (start_byte \<circ> ce_range) cs) \<and> (\<forall>c \<in> set cs. next \<le> start_byte (ce_range c))"
proof (induction cs arbitrary: "next")
  case (Cons c cs)
  from Cons.prems(1) have c: "validate_chunk entry d next c = Inr ()" and r: "validate_chunks entry d (end_byte (ce_range c)) cs = Inr til"
    by (auto simp: result_simps)
  from c Cons.prems(2) have b: "start_byte (ce_range c) = next" "start_byte (ce_range c) < end_byte (ce_range c)"
    by (auto simp: validate_chunk_def Let_def result_simps split: if_splits)
  from Cons.IH [OF r Cons.prems(2)] b show ?case by (auto intro: less_le_trans)
qed simp

lemma valid_entry_starts:
  assumes "validate_note_entry entry d = Inr ()"
  shows "distinct (map (start_byte \<circ> ce_range) (ne_chunks entry))" and "ne_chunks entry \<noteq> []"
proof -
  from assms obtain til where v: "validate_chunks entry d (start_byte (ne_body entry)) (ne_chunks entry) = Inr til"
    and n: "ne_chunks entry \<noteq> []"
    and e: "start_byte (ne_body entry) = end_byte (ne_body entry) \<Longrightarrow> length (ne_chunks entry) = 1"
    by (auto simp: validate_note_entry_def Let_def result_simps split: if_splits)
  show "ne_chunks entry \<noteq> []" by (rule n)
  show "distinct (map (start_byte \<circ> ce_range) (ne_chunks entry))"
  proof (cases "start_byte (ne_body entry) = end_byte (ne_body entry)")
    case True
    with e show ?thesis by (cases "ne_chunks entry") auto
  next
    case False
    with valid_chunks_starts [OF v] show ?thesis by (auto simp: strict_sorted_iff)
  qed
qed


section \<open>Facts about previews\<close>

lemma chars_concat_drop: "chars (concat (drop n (chars s))) = drop n (chars s)"
proof (induction s arbitrary: n rule: chars.induct)
  case (2 c cs)
  show ?case
  proof (cases n)
    case 0
    have "concat (drop n (chars (c # cs))) = c # cs" using 0 by (simp only: drop_0 concat_chars)
    with 0 show ?thesis by simp
  next
    case (Suc k)
    with "2.IH" [of k] show ?thesis by simp
  qed
qed simp

lemma chars_concat_take: "chars (concat (take n (chars s))) = take n (chars s)"
proof (induction s arbitrary: n rule: chars.induct)
  case (2 c cs)
  let ?k = "char_len c - 1"
  show ?case
  proof (cases n)
    case (Suc m)
    have "concat (take m (chars (drop ?k cs))) = []" if "length cs < ?k" using that by simp
    then have "take ?k (take ?k cs @ concat (take m (chars (drop ?k cs)))) = take ?k cs"
      and "drop ?k (take ?k cs @ concat (take m (chars (drop ?k cs)))) = concat (take m (chars (drop ?k cs)))"
      by (cases "length cs < ?k"; simp)+
    with Suc "2.IH" [of m] show ?thesis by simp
  qed simp
qed simp

lemma take_char_offset: "take (char_offset n s) s = concat (take n (chars s))"
  and drop_char_offset: "drop (char_offset n s) s = concat (drop n (chars s))"
proof -
  have "s = concat (take n (chars s)) @ concat (drop n (chars s))"
    by (metis append_take_drop_id concat_append concat_chars)
  then show "take (char_offset n s) s = concat (take n (chars s))" "drop (char_offset n s) s = concat (drop n (chars s))"
    unfolding char_offset_def by (metis append_eq_conv_conj)+
qed

lemma char_offset_le: "char_offset n s \<le> length s"
proof -
  have "length s = length (concat (take n (chars s))) + length (concat (drop n (chars s)))"
    by (metis append_take_drop_id concat_append concat_chars length_append)
  then show ?thesis by (simp add: char_offset_def)
qed

lemma char_offset_add: "char_offset m s + char_offset n (drop (char_offset m s) s) = char_offset (m + n) s"
  unfolding drop_char_offset
  by (simp add: char_offset_def chars_concat_drop take_add flip: length_append concat_append)

lemma chars_lead: "utf8 s \<Longrightarrow> u \<in> set (chars s) \<Longrightarrow> u \<noteq> [] \<and> \<not> is_cont (hd u)"
proof (induction s rule: chars.induct)
  case (2 c cs)
  from "2.prems"(1) have "\<not> is_cont c" and "utf8 (drop (char_len c - 1) cs)"
    using utf8_Cons by auto
  with 2 show ?case by auto
qed simp

lemma char_offset_boundary:
  assumes "utf8 s"
  shows "is_boundary s (char_offset n s)"
proof (cases "drop n (chars s)")
  case Nil
  then have "drop (char_offset n s) s = []" by (simp add: drop_char_offset)
  with char_offset_le [of n s] show ?thesis by (simp add: is_boundary_def)
next
  case (Cons u us)
  then have "u \<in> set (chars s)" by (metis in_set_dropD list.set_intros(1))
  with assms have u: "u \<noteq> []" "\<not> is_cont (hd u)" using chars_lead by blast+
  have d: "drop (char_offset n s) s = u @ concat us" by (simp add: drop_char_offset Cons)
  with u have l: "char_offset n s < length s" by (metis append_is_Nil_conv drop_eq_Nil not_le)
  with d u have "s ! char_offset n s = hd u" by (metis hd_append2 hd_drop_conv_nth)
  with l u show ?thesis by (simp add: is_boundary_def)
qed

lemma char_offset_of:
  assumes "utf8 s" and "is_boundary s i"
  shows "char_offset (length (chars (take i s))) s = i"
proof -
  have "chars s = chars (take i s) @ chars (drop i s)"
    using utf8_split_boundary(1) [OF assms] by (metis append_take_drop_id chars_append)
  then show ?thesis using is_boundary_le [OF assms(2)] by (simp add: char_offset_def concat_chars)
qed

lemma char_offset_mono: "m \<le> n \<Longrightarrow> char_offset m s \<le> char_offset n s"
  using char_offset_add [of m s "n - m"] by simp

lemma char_offset_less:
  assumes "utf8 s" and "m < n" and "char_offset m s < length s"
  shows "char_offset m s < char_offset n s"
proof -
  have "m < length (chars s)"
  proof (rule ccontr)
    assume "\<not> ?thesis"
    then have "char_offset m s = length s" by (simp add: char_offset_def concat_chars)
    with assms(3) show False by simp
  qed
  then have "take (Suc m) (chars s) = take m (chars s) @ [chars s ! m]" by (rule take_Suc_conv_app_nth)
  moreover have "chars s ! m \<noteq> []" using chars_lead [OF assms(1)] \<open>m < length (chars s)\<close> nth_mem by blast
  ultimately have "char_offset m s < char_offset (Suc m) s" by (simp add: char_offset_def)
  with char_offset_mono [of "Suc m" n s] assms(2) show ?thesis by simp
qed

lemma boundary_slice:
  assumes "is_boundary s a" and "is_boundary s b" and "a \<le> b" and "is_boundary (Prelude.slice s a b) i"
  shows "is_boundary s (a + i)"
proof -
  have l: "length (Prelude.slice s a b) = b - a" using is_boundary_le [OF assms(2)] by simp
  from assms(4) l consider "i = 0" | "i = b - a" | "i < b - a" "\<not> is_cont (Prelude.slice s a b ! i)"
    by (auto simp: is_boundary_def)
  then show ?thesis
  proof cases
    case 3
    then have "Prelude.slice s a b ! i = s ! (a + i)" "a + i < length s"
      using is_boundary_le [OF assms(2)] by (simp_all add: Prelude.slice_def)
    with 3 show ?thesis by (simp add: is_boundary_def)
  qed (use assms in simp_all)
qed


definition found_word :: "Renderer \<Rightarrow> str \<Rightarrow> str \<Rightarrow> nat option" where
  "found_word re text query = Option.bind (compile_query_word_regex (re_escape re) (re_regex re) query) (\<lambda>r. r text)"

lemma preview_bounds:
  fixes re :: Renderer and query content :: str
  assumes u: "utf8 content" and b: "is_boundary content (start_byte ev)" "is_boundary content (end_byte ev)"
    and le: "start_byte ev \<le> end_byte ev"
  defines "shown \<equiv> Prelude.slice content (start_byte ev) (end_byte ev)"
    and "p \<equiv> preview_range (re_escape re) (re_regex re) content ev query"
  shows "start_byte ev \<le> start_byte p \<and> start_byte p \<le> end_byte p \<and> end_byte p \<le> end_byte ev
    \<and> is_boundary content (start_byte p) \<and> is_boundary content (end_byte p)
    \<and> length (chars (Prelude.slice content (start_byte p) (end_byte p))) \<le> 300"
    and "found_word re shown query = Some pos \<Longrightarrow> is_boundary shown pos \<Longrightarrow> pos < length shown
      \<Longrightarrow> start_byte p \<le> start_byte ev + pos \<and> start_byte ev + pos < end_byte p"
proof -
  define target where "target = (case found_word re shown query of None \<Rightarrow> 0 | Some position \<Rightarrow> length (chars (take position shown)))"
  define a where "a = target - 150"
  define i where "i = char_offset a shown"
  define j where "j = char_offset (a + 300) shown"
  have ut: "utf8 shown" unfolding shown_def by (rule utf8_slice [OF u b le])
  have len: "length shown = end_byte ev - start_byte ev" using is_boundary_le [OF b(2)] by (simp add: shown_def)
  have p: "start_byte p = start_byte ev + i" "end_byte p = start_byte ev + j"
    using char_offset_add [of a shown 300]
    by (simp_all add: p_def preview_range_def Let_def found_word_def [symmetric] shown_def [symmetric] target_def [symmetric]
        MAX_PREVIEW_CHARS_def a_def i_def j_def)
  have ij: "i \<le> j" "j \<le> length shown"
    unfolding i_def j_def by (rule char_offset_mono, simp) (rule char_offset_le)
  have bi: "is_boundary shown i" "is_boundary shown j" unfolding i_def j_def by (rule char_offset_boundary [OF ut])+
  have "Prelude.slice content (start_byte p) (end_byte p) = take (j - i) (drop i shown)"
    using ij len by (simp add: p shown_def Prelude.slice_def take_drop drop_drop add.commute min_def)
  also have "\<dots> = take (char_offset 300 (drop i shown)) (drop i shown)"
    unfolding i_def j_def char_offset_add [symmetric] by simp
  also have "\<dots> = concat (take 300 (chars (drop i shown)))" by (rule take_char_offset)
  finally have "length (chars (Prelude.slice content (start_byte p) (end_byte p))) \<le> 300" by (simp add: chars_concat_take)
  then show "start_byte ev \<le> start_byte p \<and> start_byte p \<le> end_byte p \<and> end_byte p \<le> end_byte ev
    \<and> is_boundary content (start_byte p) \<and> is_boundary content (end_byte p)
    \<and> length (chars (Prelude.slice content (start_byte p) (end_byte p))) \<le> 300"
    using p ij len le boundary_slice [OF b le bi(1) [unfolded shown_def]] boundary_slice [OF b le bi(2) [unfolded shown_def]] by simp
  assume f: "found_word re shown query = Some pos" and pos: "is_boundary shown pos" "pos < length shown"
  have t: "char_offset target shown = pos" using char_offset_of [OF ut pos(1)] by (simp add: target_def f)
  have "i \<le> pos" using char_offset_mono [of a target shown] by (simp add: i_def a_def t)
  moreover have "pos < j" using char_offset_less [OF ut, of target "a + 300"] t pos(2) by (simp add: j_def a_def)
  ultimately show "start_byte p \<le> start_byte ev + pos \<and> start_byte ev + pos < end_byte p" by (simp add: p)
qed

lemma valid_source_range:
  "valid_source s (observed_result hit) = Inr () \<Longrightarrow>
    is_boundary (s_content s) (start_byte (ev_range (rn_evidence hit))) \<and> is_boundary (s_content s) (end_byte (ev_range (rn_evidence hit)))
    \<and> start_byte (ev_range (rn_evidence hit)) \<le> end_byte (ev_range (rn_evidence hit))"
  by (auto simp: valid_source_def validate_range_def observed_result_def Let_def result_simps split: if_splits)


section \<open>Properties\<close>

text \<open> Property C12. A semantic ranking is exact: over the valid entries of a vault it either reports a score that is not
  a finite number, or gives the best notes, as many as asked for or there are, in strict order of score and
  path; each with the best score of its chunks and the first chunk with that score as evidence; and every note left out
  ranks after every note given.\<close>

theorem rank_semantic_exact:
  assumes "distinct (map fst entries)" and "list_all (\<lambda>(p, e). validate_note_entry e d = Inr ()) entries"
  shows "case rank_semantic sim entries top_k of
      Inl err \<Rightarrow> \<exists>p e c. (p, e) \<in> set entries \<and> c \<in> set (ne_chunks e) \<and> \<not> is_finite (sim (ce_vector c))
        \<and> err = Embedding (''non-finite semantic score for '' @ p)
    | Inr hits \<Rightarrow> length hits = min top_k (length entries) \<and> sorted_wrt ranks_before hits
        \<and> (\<forall>h \<in> set hits. (rn_path h, rn_entry h) \<in> set entries \<and> is_best sim h)
        \<and> (\<forall>(p, e) \<in> set entries. p \<notin> rn_path ` set hits \<longrightarrow>
             (\<exists>b. rn_path b = p \<and> rn_entry b = e \<and> is_best sim b \<and> (\<forall>h \<in> set hits. ranks_before h b)))"
proof (cases "collect_results (map (\<lambda>(p, e). best_note sim p e) entries)")
  case (Inl err)
  from collect_results_Inl [OF Inl] obtain p e where m: "(p, e) \<in> set entries" "best_note sim p e = Inl err" by auto
  with assms(2) have v: "validate_note_entry e d = Inr ()" by (auto simp: list_all_iff)
  from best_note_error [OF valid_entry_starts [OF v] m(2)] m(1) Inl show ?thesis
    by (auto simp: rank_semantic_def)
next
  case (Inr all)
  then have all: "map (\<lambda>(p, e). best_note sim p e) entries = map Inr all" by (simp add: collect_results_Inr)
  have len: "length all = length entries" using arg_cong [OF all, of length] by simp
  have at: "rn_path (all ! i) = fst (entries ! i) \<and> rn_entry (all ! i) = snd (entries ! i) \<and> is_best sim (all ! i)"
    if "i < length entries" for i
  proof -
    from that len arg_cong [OF all, of "\<lambda>xs. xs ! i"]
    have b: "best_note sim (fst (entries ! i)) (snd (entries ! i)) = Inr (all ! i)" by (simp add: split_beta)
    from that assms(2) have "validate_note_entry (snd (entries ! i)) d = Inr ()" by (auto simp: list_all_length split_beta)
    from best_note_best [OF valid_entry_starts(1) [OF this] b] show ?thesis .
  qed
  have paths: "map rn_path all = map fst entries" by (rule nth_equalityI) (use len at in simp_all)
  then have dist: "distinct (map rn_path all)" using assms(1) by simp
  note f = finish_ranking_order [OF dist, where k = top_k]
  have mem: "(rn_path h, rn_entry h) \<in> set entries \<and> is_best sim h" if "h \<in> set all" for h
    using that at len by (metis in_set_conv_nth prod.collapse)
  have "\<exists>b. rn_path b = p \<and> rn_entry b = e \<and> is_best sim b \<and> (\<forall>h \<in> set (finish_ranking all top_k). ranks_before h b)"
    if "(p, e) \<in> set entries" "p \<notin> rn_path ` set (finish_ranking all top_k)" for p e
  proof -
    from that(1) obtain i where i: "i < length entries" "entries ! i = (p, e)" by (metis in_set_conv_nth)
    with at [OF i(1)] len have b: "all ! i \<in> set all" "rn_path (all ! i) = p" "rn_entry (all ! i) = e" "is_best sim (all ! i)"
      by simp_all
    with that(2) have "all ! i \<notin> set (finish_ranking all top_k)" by blast
    with f(4) [OF b(1)] b show ?thesis by blast
  qed
  with f(1-3) mem len Inr show ?thesis by (auto simp: rank_semantic_def)
qed

theorem rank_semantic_exact_witness:
  "\<exists>hits. rank_semantic hd [(''b.md'', sample_entry ''b''), (''a.md'', sample_entry ''a'')] 1 = Inr hits
    \<and> length hits = 1 \<and> map rn_path hits = [''a.md'']"
proof -
  let ?entries = "[(''b.md'', sample_entry ''b''), (''a.md'', sample_entry ''a'')]"
  have e: "case rank_semantic hd ?entries 1 of Inl _ \<Rightarrow> False | Inr hits \<Rightarrow> map rn_path hits = [''a.md'']"
    by code_simp
  have v: "list_all (\<lambda>(p, e). validate_note_entry e 1 = Inr ()) ?entries"
    using sample_entries_ok by (simp add: entry_ok_def)
  from e obtain hits where h: "rank_semantic hd ?entries 1 = Inr hits" "map rn_path hits = [''a.md'']"
    by (auto split: sum.splits)
  have "distinct (map fst ?entries)" by simp
  from rank_semantic_exact [OF this v, of hd 1] have "length hits = 1" unfolding h(1) sum.case by (elim conjE) simp
  with h show ?thesis by (intro exI [of _ hits] conjI)
qed

text \<open>
  A snippet is right if it is the preview's text: within the evidence, on character boundaries, at most
  300 characters, and with the beginning of the found word in it.
\<close>

definition snippet_ok :: "Renderer \<Rightarrow> str \<Rightarrow> str \<Rightarrow> SourceRange \<Rightarrow> SourceRange \<Rightarrow> str \<Rightarrow> bool" where
  "snippet_ok re query content ev p snippet \<longleftrightarrow>
     snippet = Prelude.slice content (start_byte p) (end_byte p) \<and> length (chars snippet) \<le> 300
     \<and> is_boundary content (start_byte p) \<and> is_boundary content (end_byte p)
     \<and> start_byte ev \<le> start_byte p \<and> start_byte p \<le> end_byte p \<and> end_byte p \<le> end_byte ev
     \<and> (\<forall>pos. found_word re (Prelude.slice content (start_byte ev) (end_byte ev)) query = Some pos
          \<longrightarrow> is_boundary (Prelude.slice content (start_byte ev) (end_byte ev)) pos
          \<longrightarrow> pos < length (Prelude.slice content (start_byte ev) (end_byte ev))
          \<longrightarrow> start_byte p \<le> start_byte ev + pos \<and> start_byte ev + pos < end_byte p)"

lemma render_snapshot_bound:
  fixes re :: Renderer and query :: str and include_content :: bool and hit :: RankedNote and snapshot :: "SourceSnapshot vault_result"
  assumes "\<And>s. snapshot = Inr s \<Longrightarrow> utf8 (s_content s)"
  defines "r \<equiv> render_snapshot re snapshot hit query include_content"
  shows "(sr_error r = None \<longleftrightarrow> sr_status r = Current) \<and> (sr_status r = Current \<longleftrightarrow> sr_content r \<noteq> None \<or> sr_snippet r \<noteq> None)
    \<and> (sr_status r = Changed \<longleftrightarrow> (\<exists>s. snapshot = Inr s \<and> s_revision s \<noteq> ne_revision (rn_entry hit)))
    \<and> (\<forall>content. sr_content r = Some content \<longrightarrow>
         include_content \<and> (\<exists>s. snapshot = Inr s \<and> s_content s = content \<and> s_revision s = ne_revision (rn_entry hit)))
    \<and> (\<forall>snippet. sr_snippet r = Some snippet \<longrightarrow>
         (\<exists>s p. snapshot = Inr s \<and> s_revision s = ne_revision (rn_entry hit) \<and> map_option pv_range (sr_preview r) = Some p
            \<and> snippet_ok re query (s_content s) (ev_range (rn_evidence hit)) p snippet))"
proof (cases snapshot)
  case (Inl e)
  then show ?thesis by (simp add: r_def render_snapshot_def observed_result_def)
next
  case (Inr s)
  have rev: "sr_revision (observed_result hit) = ne_revision (rn_entry hit)" and ev: "sr_evidence (observed_result hit) = rn_evidence hit"
    by (simp_all add: observed_result_def)
  show ?thesis
  proof (cases "s_revision s = ne_revision (rn_entry hit)")
    case False
    with Inr show ?thesis by (simp add: r_def render_snapshot_def observed_result_def)
  next
    case same: True
    show ?thesis
    proof (cases "valid_source s (observed_result hit)")
      case (Inl e)
      with Inr same rev show ?thesis by (simp add: r_def render_snapshot_def observed_result_def)
    next
      case ok: (Inr u)
      show ?thesis
      proof (cases include_content)
        case True
        with Inr same rev ok show ?thesis by (simp add: r_def render_snapshot_def observed_result_def)
      next
        case False
        let ?p = "preview_range (re_escape re) (re_regex re) (s_content s) (ev_range (rn_evidence hit)) query"
        have r: "sr_error r = None" "sr_status r = Current" "sr_content r = None" "map_option pv_range (sr_preview r) = Some ?p"
          "sr_snippet r = Some (Prelude.slice (s_content s) (start_byte ?p) (end_byte ?p))"
          using Inr same rev ev ok False by (simp_all add: r_def render_snapshot_def Let_def observed_result_def)
        from valid_source_range [of s hit] ok have b: "is_boundary (s_content s) (start_byte (ev_range (rn_evidence hit)))"
          "is_boundary (s_content s) (end_byte (ev_range (rn_evidence hit)))"
          "start_byte (ev_range (rn_evidence hit)) \<le> end_byte (ev_range (rn_evidence hit))" by simp_all
        from preview_bounds [OF assms(1) [OF Inr] b, of re query]
        have "snippet_ok re query (s_content s) (ev_range (rn_evidence hit)) ?p
            (Prelude.slice (s_content s) (start_byte ?p) (end_byte ?p))"
          unfolding snippet_ok_def by blast
        with r Inr same show ?thesis by auto
      qed
    qed
  qed
qed

text \<open> Property C11. Rendered source is bound to the scored revision: a result shows content or a snippet only of the text whose
  revision was scored and whose ranges are valid; a snippet lies within the evidence, on character boundaries, has at most 300
  characters and holds the beginning of the found word; and a result carries an error exactly when it is not current.\<close>

theorem render_revision_bound:
  fixes re :: Renderer and query :: str and include_content :: bool and hit :: RankedNote and snapshot :: "SourceSnapshot vault_result"
  assumes "\<And>s. snapshot = Inr s \<Longrightarrow> utf8 (s_content s)"
  shows "let r = render_snapshot re snapshot hit query include_content in
    (sr_error r = None \<longleftrightarrow> sr_status r = Current) \<and> (sr_status r = Current \<longleftrightarrow> sr_content r \<noteq> None \<or> sr_snippet r \<noteq> None)
    \<and> (sr_status r = Changed \<longleftrightarrow> (\<exists>s. snapshot = Inr s \<and> s_revision s \<noteq> ne_revision (rn_entry hit)))
    \<and> (\<forall>content. sr_content r = Some content \<longrightarrow>
         include_content \<and> (\<exists>s. snapshot = Inr s \<and> s_content s = content \<and> s_revision s = ne_revision (rn_entry hit)))
    \<and> (\<forall>snippet. sr_snippet r = Some snippet \<longrightarrow>
         (\<exists>s p. snapshot = Inr s \<and> s_revision s = ne_revision (rn_entry hit) \<and> map_option pv_range (sr_preview r) = Some p
            \<and> snippet_ok re query (s_content s) (ev_range (rn_evidence hit)) p snippet))"
  using render_snapshot_bound [OF assms] unfolding Let_def by blast

definition sample_renderer :: Renderer where
  "sample_renderer = \<lparr> re_escape = (\<lambda>w. w), re_regex = (\<lambda>p. Some (\<lambda>t. find_str (drop 4 p) t)), re_io_text = (\<lambda>_ _. []) \<rparr>"

definition sample_hit :: RankedNote where
  "sample_hit =
     \<lparr> rn_path = ''a.md'', rn_score = 0, rn_evidence = \<lparr> ev_scope = Passage, ev_similarity = 0,
         ev_range = \<lparr> start_byte = 4, end_byte = 17 \<rparr>, ev_headings = [], ev_section = None \<rparr>,
       rn_entry = (sample_entry ''a'') \<lparr> ne_revision := ''6161'', ne_source_bytes := 17 \<rparr> \<rparr>"

definition sample_snapshot :: SourceSnapshot where
  "sample_snapshot = SourceSnapshot_new (\<lambda>_. [97, 97]) ''one. two, three.x''"

theorem render_revision_bound_witness:
  "\<exists>p. sr_status (render_snapshot sample_renderer (Inr sample_snapshot) sample_hit ''three'' False) = Current
    \<and> sr_snippet (render_snapshot sample_renderer (Inr sample_snapshot) sample_hit ''three'' False) = Some '' two, three.x''
    \<and> snippet_ok sample_renderer ''three'' (s_content sample_snapshot) (ev_range (rn_evidence sample_hit)) p '' two, three.x''"
proof -
  let ?r = "render_snapshot sample_renderer (Inr sample_snapshot) sample_hit ''three'' False"
  have e: "sr_status ?r = Current" "sr_snippet ?r = Some '' two, three.x''" "utf8 (s_content sample_snapshot)"
    by code_simp+
  have u: "utf8 (s_content s)" if "Inr sample_snapshot = Inr s" for s using that e(3) by auto
  have "\<exists>s p. (Inr sample_snapshot :: SourceSnapshot vault_result) = Inr s
      \<and> snippet_ok sample_renderer ''three'' (s_content s) (ev_range (rn_evidence sample_hit)) p '' two, three.x''"
    using render_revision_bound [of "Inr sample_snapshot" sample_renderer sample_hit "''three''" False, OF u] e(2) unfolding Let_def by blast
  with e show ?thesis by auto
qed

end
