(* ===== verification/SemanticContext.thy ===== *)
theory SemanticContext
  imports Semantic
begin

text \<open>
  The acquisition of source context for ranked notes (src/src/vault/semantic_results.rs,
  acquire_source_context and render_many_source).

  The task that reads sources is a state machine: each hit is an index into the list, a read in
  progress is pending, a rendered result is sent on the channel. \<open>aq_finished\<close> is that the deadline has passed
  or the caller has stopped waiting; once true it stays true, and a step may see it change between its two checks.
\<close>

section \<open>The reading task\<close>

definition CONCURRENT_SOURCE_READS :: nat where "CONCURRENT_SOURCE_READS = 4"

record Acquisition =
  aq_starts :: nat
  aq_next :: nat
  aq_pending :: "nat list"
  aq_failed :: bool
  aq_failure :: "vault_error option"
  aq_sent :: "(nat \<times> SemanticNoteResult) list"
  aq_finished :: bool

datatype ReadAnswer =
    NotStarted
  | Observed "SourceSnapshot vault_result"
  | TaskFailed vault_error

definition acquire_init :: Acquisition where
  "acquire_init =
     \<lparr> aq_starts = CONCURRENT_SOURCE_READS, aq_next = 0, aq_pending = [], aq_failed = False, aq_failure = None,
       aq_sent = [], aq_finished = False \<rparr>"

definition aq_admit :: "RankedNote list \<Rightarrow> Acquisition \<Rightarrow> Acquisition" where
  "aq_admit hits s =
     (if aq_next s < length hits then s \<lparr> aq_pending := aq_pending s @ [aq_next s], aq_next := Suc (aq_next s) \<rparr> else s)"

text \<open>One round of the loop that fills the pending reads.\<close>

definition acquire_start :: "RankedNote list \<Rightarrow> bool \<Rightarrow> Acquisition \<Rightarrow> Acquisition" where
  "acquire_start hits fin s =
     (if fin then s \<lparr> aq_starts := 0, aq_finished := True \<rparr> else aq_admit hits (s \<lparr> aq_starts := aq_starts s - 1 \<rparr>))"

text \<open>One round of the main loop: the read of hit \<open>i\<close> has ended; the two flags are the answers of the two checks.\<close>

definition acquire_complete ::
  "Renderer \<Rightarrow> RankedNote list \<Rightarrow> str \<Rightarrow> bool \<Rightarrow> bool \<Rightarrow> bool \<Rightarrow> nat \<Rightarrow> ReadAnswer \<Rightarrow> Acquisition \<Rightarrow> Acquisition" where
  "acquire_complete re hits query include_content fin1 fin2 i answer s0 =
     (let s = s0 \<lparr> aq_pending := remove1 i (aq_pending s0), aq_finished := fin2 \<rparr>;
          s = (case answer of
              NotStarted \<Rightarrow> s
            | Observed snapshot \<Rightarrow>
                if fin1 then s
                else s \<lparr> aq_sent := aq_sent s @ [(i, render_snapshot re snapshot (hits ! i) query include_content)] \<rparr>
            | TaskFailed e \<Rightarrow>
                s \<lparr> aq_failed := True, aq_failure := (case aq_failure s of None \<Rightarrow> Some e | Some f \<Rightarrow> Some f) \<rparr>)
      in if \<not> aq_failed s \<and> \<not> fin2 then aq_admit hits s else s)"

inductive acquire_step :: "Renderer \<Rightarrow> RankedNote list \<Rightarrow> str \<Rightarrow> bool \<Rightarrow> Acquisition \<Rightarrow> Acquisition \<Rightarrow> bool"
  for re hits query include_content where
  fill: "0 < aq_starts s \<Longrightarrow> aq_finished s \<longrightarrow> fin
    \<Longrightarrow> acquire_step re hits query include_content s (acquire_start hits fin s)"
| ended: "aq_starts s = 0 \<Longrightarrow> i \<in> set (aq_pending s) \<Longrightarrow> aq_finished s \<longrightarrow> fin1 \<Longrightarrow> fin1 \<longrightarrow> fin2 \<Longrightarrow> answer = NotStarted \<longrightarrow> fin1
    \<Longrightarrow> acquire_step re hits query include_content s (acquire_complete re hits query include_content fin1 fin2 i answer s)"
| stopped: "acquire_step re hits query include_content s (s \<lparr> aq_finished := True \<rparr>)"

inductive acquire_reachable :: "Renderer \<Rightarrow> RankedNote list \<Rightarrow> str \<Rightarrow> bool \<Rightarrow> Acquisition \<Rightarrow> bool"
  for re hits query include_content where
  init: "acquire_reachable re hits query include_content acquire_init"
| step: "acquire_reachable re hits query include_content s \<Longrightarrow> acquire_step re hits query include_content s s'
    \<Longrightarrow> acquire_reachable re hits query include_content s'"

text \<open>What is sent when the sources could not be observed, up to where the task stopped.\<close>

definition unobserved_results :: "Renderer \<Rightarrow> RankedNote list \<Rightarrow> vault_error \<Rightarrow> nat \<Rightarrow> (nat \<times> SemanticNoteResult) list" where
  "unobserved_results re hits e n =
     take n (map (\<lambda>(i, hit). (i, render_snapshot re (Inl (Other (error_text (re_io_text re) e))) hit [] False)) (enumerate 0 hits))"

section \<open>The caller\<close>

definition CONTEXT_DEADLINE_ERROR :: str where "CONTEXT_DEADLINE_ERROR = ''semantic source context deadline exceeded''"

text \<open>\<open>received\<close> is what the caller took from the channel before it stopped waiting, \<open>failure\<close> what was reported to it.\<close>

definition store_received :: "nat \<Rightarrow> (nat \<times> SemanticNoteResult) list \<Rightarrow> SemanticNoteResult option list" where
  "store_received n received = fold (\<lambda>(i, r) results. results[i := Some r]) received (replicate n None)"

definition context_or_deadline :: "Renderer \<Rightarrow> RankedNote \<Rightarrow> SemanticNoteResult option \<Rightarrow> SemanticNoteResult" where
  "context_or_deadline re hit result =
     (case result of Some r \<Rightarrow> r | None \<Rightarrow> render_snapshot re (Inl (Other CONTEXT_DEADLINE_ERROR)) hit [] False)"

definition render_many_source ::
  "Renderer \<Rightarrow> RankedNote list \<Rightarrow> bool \<Rightarrow> vault_error option \<Rightarrow> (nat \<times> SemanticNoteResult) list \<Rightarrow> SemanticNoteResult list vault_result" where
  "render_many_source re hits deadline failure received =
     (if hits = [] then Inr []
      else case failure of
          Some e \<Rightarrow> Inl e
        | None \<Rightarrow>
            let results = store_received (length hits) received in
            if \<not> deadline \<and> None \<in> set results
            then Inl (Other ''semantic context acquisition finished without all observations'')
            else Inr (map2 (context_or_deadline re) hits results))"

section \<open>Invariants\<close>

definition rendering_of :: "Renderer \<Rightarrow> RankedNote list \<Rightarrow> str \<Rightarrow> bool \<Rightarrow> nat \<Rightarrow> SemanticNoteResult \<Rightarrow> bool" where
  "rendering_of re hits query include_content i r \<longleftrightarrow>
     (\<exists>snapshot. r = render_snapshot re snapshot (hits ! i) query include_content)"

definition acquire_ids :: "Acquisition \<Rightarrow> nat list" where "acquire_ids s = map fst (aq_sent s) @ aq_pending s"

definition acquire_safe :: "Renderer \<Rightarrow> RankedNote list \<Rightarrow> str \<Rightarrow> bool \<Rightarrow> Acquisition \<Rightarrow> bool" where
  "acquire_safe re hits query include_content s \<longleftrightarrow>
     aq_starts s + length (aq_pending s) \<le> CONCURRENT_SOURCE_READS
     \<and> distinct (acquire_ids s) \<and> aq_next s \<le> length hits
     \<and> (\<forall>i \<in> set (acquire_ids s). i < aq_next s)
     \<and> (\<forall>x \<in> set (aq_sent s). rendering_of re hits query include_content (fst x) (snd x))"

definition acquire_busy :: "RankedNote list \<Rightarrow> Acquisition \<Rightarrow> bool" where
  "acquire_busy hits s \<longleftrightarrow>
     {..< aq_next s} \<subseteq> set (acquire_ids s)
     \<and> (aq_next s < length hits \<longrightarrow> aq_starts s + length (aq_pending s) = CONCURRENT_SOURCE_READS)"

lemma admit_safe:
  assumes ok: "acquire_safe re hits query ic s" and room: "aq_starts s + length (aq_pending s) < CONCURRENT_SOURCE_READS"
  shows "acquire_safe re hits query ic (aq_admit hits s)"
proof (cases "aq_next s < length hits")
  case True
  have new: "aq_next s \<notin> set (acquire_ids s)" using ok unfolding acquire_safe_def by blast
  have ids: "acquire_ids (aq_admit hits s) = acquire_ids s @ [aq_next s]"
    using True by (simp add: acquire_ids_def aq_admit_def)
  have "\<forall>i \<in> set (acquire_ids s). i < Suc (aq_next s)" using ok unfolding acquire_safe_def by (meson less_SucI)
  with ok room True new show ?thesis unfolding acquire_safe_def ids by (simp add: aq_admit_def)
next
  case False
  with ok show ?thesis by (simp add: aq_admit_def)
qed

lemma safe_less_start:
  "acquire_safe re hits query ic s \<Longrightarrow> acquire_safe re hits query ic (s \<lparr> aq_starts := aq_starts s - n \<rparr>)"
  unfolding acquire_safe_def acquire_ids_def by (simp, linarith)

lemma start_safe:
  assumes ok: "acquire_safe re hits query ic s" and start: "0 < aq_starts s"
  shows "acquire_safe re hits query ic (acquire_start hits fin s)"
proof (cases fin)
  case True
  with ok show ?thesis by (simp add: acquire_safe_def acquire_start_def acquire_ids_def)
next
  case False
  have "aq_starts s - 1 + length (aq_pending s) < CONCURRENT_SOURCE_READS"
    using ok start unfolding acquire_safe_def by linarith
  with False admit_safe [OF safe_less_start [OF ok], of 1] show ?thesis by (simp add: acquire_start_def)
qed

text \<open>The answer of one read, before the next one is admitted.\<close>

definition answered ::
  "Renderer \<Rightarrow> RankedNote list \<Rightarrow> str \<Rightarrow> bool \<Rightarrow> bool \<Rightarrow> bool \<Rightarrow> nat \<Rightarrow> ReadAnswer \<Rightarrow> Acquisition \<Rightarrow> Acquisition" where
  "answered re hits query include_content fin1 fin2 i answer s0 =
     (let s = s0 \<lparr> aq_pending := remove1 i (aq_pending s0), aq_finished := fin2 \<rparr> in
      case answer of
        NotStarted \<Rightarrow> s
      | Observed snapshot \<Rightarrow>
          if fin1 then s
          else s \<lparr> aq_sent := aq_sent s @ [(i, render_snapshot re snapshot (hits ! i) query include_content)] \<rparr>
      | TaskFailed e \<Rightarrow>
          s \<lparr> aq_failed := True, aq_failure := (case aq_failure s of None \<Rightarrow> Some e | Some f \<Rightarrow> Some f) \<rparr>)"

lemma acquire_complete_answered:
  "acquire_complete re hits query ic fin1 fin2 i answer s =
    (let s' = answered re hits query ic fin1 fin2 i answer s in if \<not> aq_failed s' \<and> \<not> fin2 then aq_admit hits s' else s')"
  by (simp add: acquire_complete_def answered_def Let_def)

lemma answered_simps [simp]:
  "aq_pending (answered re hits query ic fin1 fin2 i answer s) = remove1 i (aq_pending s)"
  "aq_starts (answered re hits query ic fin1 fin2 i answer s) = aq_starts s"
  "aq_next (answered re hits query ic fin1 fin2 i answer s) = aq_next s"
  "aq_finished (answered re hits query ic fin1 fin2 i answer s) = fin2"
  by (simp_all add: answered_def Let_def split: ReadAnswer.split)

lemma answered_sent:
  "aq_sent (answered re hits query ic fin1 fin2 i answer s) = aq_sent s
   \<or> (\<exists>snapshot. aq_sent (answered re hits query ic fin1 fin2 i answer s)
         = aq_sent s @ [(i, render_snapshot re snapshot (hits ! i) query ic)])"
  by (cases answer) (auto simp: answered_def Let_def)

lemma safe_room:
  assumes "acquire_safe re hits query ic s" and "aq_starts s = 0" and "i \<in> set (aq_pending s)"
  shows "length (remove1 i (aq_pending s)) < CONCURRENT_SOURCE_READS"
proof -
  have "0 < length (aq_pending s)" by (rule length_pos_if_in_set [OF assms(3)])
  moreover have "length (aq_pending s) \<le> CONCURRENT_SOURCE_READS" using assms(1,2) by (simp add: acquire_safe_def)
  ultimately show ?thesis using assms(3) by (simp only: length_remove1 if_True)
qed

lemma answered_safe:
  assumes ok: "acquire_safe re hits query ic s" and i: "i \<in> set (aq_pending s)"
  shows "acquire_safe re hits query ic (answered re hits query ic fin1 fin2 i answer s)" (is "acquire_safe _ _ _ _ ?s")
proof -
  have d: "distinct (acquire_ids s)" and below: "\<forall>k \<in> set (acquire_ids s). k < aq_next s"
    and r: "\<forall>x \<in> set (aq_sent s). rendering_of re hits query ic (fst x) (snd x)"
    and n: "aq_starts s + length (aq_pending s) \<le> CONCURRENT_SOURCE_READS" "aq_next s \<le> length hits"
    using ok by (simp_all add: acquire_safe_def)
  have sent: "distinct (acquire_ids ?s) \<and> set (acquire_ids ?s) \<subseteq> set (acquire_ids s)
      \<and> (\<forall>x \<in> set (aq_sent ?s). rendering_of re hits query ic (fst x) (snd x))"
    using answered_sent [of re hits query ic fin1 fin2 i answer s]
  proof (elim disjE exE)
    assume "aq_sent ?s = aq_sent s"
    with d r show ?thesis by (auto simp: acquire_ids_def dest: notin_set_remove1)
  next
    fix snapshot assume "aq_sent ?s = aq_sent s @ [(i, render_snapshot re snapshot (hits ! i) query ic)]"
    with d r i show ?thesis by (auto simp: acquire_ids_def rendering_of_def dest: notin_set_remove1)
  qed
  with below n show ?thesis unfolding acquire_safe_def by (auto simp: length_remove1)
qed

lemma step_safe:
  assumes "acquire_step re hits query ic s s'" and ok: "acquire_safe re hits query ic s"
  shows "acquire_safe re hits query ic s'"
  using assms(1)
proof cases
  case (fill fin)
  with start_safe [OF ok] show ?thesis by simp
next
  case (ended i fin1 fin2 answer)
  let ?s = "answered re hits query ic fin1 fin2 i answer s"
  have ok': "acquire_safe re hits query ic ?s" by (rule answered_safe [OF ok ended(3)])
  have "aq_starts ?s + length (aq_pending ?s) < CONCURRENT_SOURCE_READS"
    using safe_room [OF ok ended(2,3)] ended(2) by simp
  from admit_safe [OF ok' this] ok' show ?thesis
    unfolding ended(1) acquire_complete_answered Let_def by (simp only: split: if_split) blast
next
  case stopped
  with ok show ?thesis by (simp add: acquire_safe_def acquire_ids_def)
qed

text \<open>While nothing has stopped it, every hit that was taken is pending or answered, and the reads are kept at four
  for as long as there are hits to take.\<close>

lemma admit_busy:
  assumes "{..< aq_next s} \<subseteq> set (acquire_ids s)"
    and "aq_next s < length hits \<Longrightarrow> Suc (aq_starts s + length (aq_pending s)) = CONCURRENT_SOURCE_READS"
  shows "acquire_busy hits (aq_admit hits s)"
  using assms by (auto simp: acquire_busy_def aq_admit_def acquire_ids_def lessThan_Suc)

definition acquire_running :: "Acquisition \<Rightarrow> bool" where "acquire_running s \<longleftrightarrow> \<not> aq_finished s \<and> \<not> aq_failed s"

lemma step_busy:
  assumes "acquire_step re hits query ic s s'" and busy: "acquire_running s \<Longrightarrow> acquire_busy hits s"
    and run: "acquire_running s'"
  shows "acquire_busy hits s'"
  using assms(1)
proof cases
  case (fill fin)
  let ?s = "s \<lparr> aq_starts := aq_starts s - 1 \<rparr>"
  have s': "s' = aq_admit hits ?s" "\<not> fin" using fill run by (auto simp: acquire_start_def acquire_running_def split: if_splits)
  then have "acquire_running s" using run by (simp add: acquire_running_def aq_admit_def split: if_splits)
  from busy [OF this] fill(2) show ?thesis
    unfolding s'(1) by (intro admit_busy) (auto simp: acquire_busy_def acquire_ids_def)
next
  case (ended i fin1 fin2 answer)
  let ?s = "answered re hits query ic fin1 fin2 i answer s"
  have s': "s' = (if \<not> aq_failed ?s \<and> \<not> fin2 then aq_admit hits ?s else ?s)"
    using ended(1) by (simp add: acquire_complete_answered Let_def)
  then have ok: "\<not> aq_failed ?s" "\<not> fin2" using run by (auto simp: acquire_running_def split: if_splits)
  then have "\<not> fin1" "\<not> aq_finished s" using ended by auto
  then obtain snapshot where a: "answer = Observed snapshot" using ok ended by (cases answer) (auto simp: answered_def)
  have sent: "aq_sent ?s = aq_sent s @ [(i, render_snapshot re snapshot (hits ! i) query ic)]"
    using a \<open>\<not> fin1\<close> by (simp add: answered_def)
  have "acquire_running s" using ok \<open>\<not> aq_finished s\<close> a \<open>\<not> fin1\<close> by (simp add: acquire_running_def answered_def)
  then have b: "acquire_busy hits s" by (rule busy)
  have sub: "set (acquire_ids s) \<subseteq> set (acquire_ids ?s)" unfolding acquire_ids_def sent by (auto simp: in_set_remove1)
  have cover: "{..< aq_next ?s} \<subseteq> set (acquire_ids ?s)"
    using subset_trans [OF _ sub] b by (simp add: acquire_busy_def)
  have full: "Suc (aq_starts ?s + length (aq_pending ?s)) = CONCURRENT_SOURCE_READS" if "aq_next ?s < length hits"
    using b that ended(2,3) length_pos_if_in_set [OF ended(3)] by (simp add: acquire_busy_def length_remove1)
  from admit_busy [OF cover full] ok show ?thesis by (simp add: s')
next
  case stopped
  with run show ?thesis by (simp add: acquire_running_def)
qed

lemma reachable_safe: "acquire_reachable re hits query ic s \<Longrightarrow> acquire_safe re hits query ic s"
proof (induction rule: acquire_reachable.induct)
  case init
  show ?case by (simp add: acquire_safe_def acquire_init_def acquire_ids_def)
next
  case step
  then show ?case by (blast intro: step_safe)
qed

lemma reachable_busy: "acquire_reachable re hits query ic s \<Longrightarrow> acquire_running s \<Longrightarrow> acquire_busy hits s"
proof (induction rule: acquire_reachable.induct)
  case init
  show ?case by (simp add: acquire_busy_def acquire_init_def acquire_ids_def)
next
  case step
  then show ?case by (blast intro: step_busy)
qed


section \<open>What the caller gets\<close>

lemma store_received_snoc: "store_received n (xs @ [x]) = (store_received n xs)[fst x := Some (snd x)]"
  by (simp add: store_received_def case_prod_unfold)

lemma length_store_received [simp]: "length (store_received n xs) = n"
  by (induction xs rule: rev_induct) (simp_all add: store_received_snoc, simp add: store_received_def)

lemma store_received_nth: "i < n \<Longrightarrow> store_received n xs ! i = map_of (rev xs) i"
proof (induction xs rule: rev_induct)
  case Nil
  then show ?case by (simp add: store_received_def)
next
  case (snoc x xs)
  then show ?case by (cases x) (simp add: store_received_snoc nth_list_update)
qed

lemma received_rendering:
  assumes "acquire_safe re hits query ic s" and "map_of (rev (take n (aq_sent s))) i = Some r"
  shows "rendering_of re hits query ic i r"
proof -
  have "(i, r) \<in> set (take n (aq_sent s))" using map_of_SomeD [OF assms(2)] by simp
  then have "(i, r) \<in> set (aq_sent s)" by (rule in_set_takeD)
  with assms(1) show ?thesis by (auto simp: acquire_safe_def)
qed

lemma render_many_nth:
  assumes r: "render_many_source re hits deadline None received = Inr results" and i: "i < length hits"
  shows "results ! i = context_or_deadline re (hits ! i) (map_of (rev received) i)"
proof -
  have "results = map2 (context_or_deadline re) hits (store_received (length hits) received)"
    using r i by (auto simp: render_many_source_def Let_def split: if_splits)
  with i show ?thesis by (simp add: store_received_nth)
qed

lemma render_many_length:
  "render_many_source re hits deadline None received = Inr results \<Longrightarrow> length results = length hits"
  by (auto simp: render_many_source_def Let_def split: if_splits)

lemma acquisition_complete:
  assumes ok: "acquire_safe re hits query ic s" and busy: "acquire_busy hits s"
    and "aq_starts s = 0" and "aq_pending s = []" and i: "i < length hits"
  obtains r where "map_of (rev (aq_sent s)) i = Some r" "rendering_of re hits query ic i r"
proof -
  have "aq_next s = length hits" using ok busy assms(3,4) by (auto simp: acquire_safe_def acquire_busy_def CONCURRENT_SOURCE_READS_def)
  then have "i \<in> set (acquire_ids s)" using busy i by (auto simp: acquire_busy_def)
  then have "i \<in> fst ` set (rev (aq_sent s))" using assms(4) by (simp add: acquire_ids_def)
  then obtain r where r: "map_of (rev (aq_sent s)) i = Some r"
    using map_of_eq_None_iff [of "rev (aq_sent s)" i] by fastforce
  with received_rendering [OF ok, of "length (aq_sent s)"] that show ?thesis by simp
qed

lemma render_many_complete:
  assumes ok: "acquire_safe re hits query ic s" and busy: "acquire_busy hits s"
    and z: "aq_starts s = 0" "aq_pending s = []"
  shows "\<exists>results. render_many_source re hits False None (aq_sent s) = Inr results
      \<and> list_all2 (rendering_of re hits query ic) [0..<length hits] results"
proof (cases "hits = []")
  case True
  then show ?thesis by (simp add: render_many_source_def)
next
  case False
  have "None \<notin> set (store_received (length hits) (aq_sent s))"
    using acquisition_complete [OF ok busy z] by (fastforce simp: in_set_conv_nth store_received_nth)
  with False obtain results where r: "render_many_source re hits False None (aq_sent s) = Inr results"
    by (simp add: render_many_source_def Let_def)
  have "rendering_of re hits query ic i (results ! i)" if i: "i < length hits" for i
    using acquisition_complete [OF ok busy z i] render_many_nth [OF r i] by (metis context_or_deadline_def option.simps(5))
  with r show ?thesis by (auto simp: list_all2_conv_all_nth render_many_length [OF r])
qed


text \<open>
  Property C13. Reading source context for a list of hits never has more than four reads in progress. Whatever part of the
  sent results the caller took before its deadline, each hit gets the rendering of that very hit, or, when its own result
  was not received, the deadline error for it. When the task has ended without being stopped and without a failure, the
  caller who waits without a deadline gets the rendering of every hit, and never the error that observations are missing.
\<close>
theorem source_context_accounted:
  assumes "acquire_reachable re hits query ic s"
  shows "length (aq_pending s) \<le> CONCURRENT_SOURCE_READS
    \<and> (render_many_source re hits deadline None (take n (aq_sent s)) = Inr results
       \<longrightarrow> list_all2 (\<lambda>i r. rendering_of re hits query ic i r \<or> r = context_or_deadline re (hits ! i) None)
             [0..<length hits] results)
    \<and> (aq_starts s = 0 \<and> aq_pending s = [] \<and> \<not> aq_finished s \<and> \<not> aq_failed s
       \<longrightarrow> (\<exists>all. render_many_source re hits False None (aq_sent s) = Inr all
             \<and> list_all2 (rendering_of re hits query ic) [0..<length hits] all))"
proof (intro conjI impI)
  have safe: "acquire_safe re hits query ic s" by (rule reachable_safe [OF assms])
  then show "length (aq_pending s) \<le> CONCURRENT_SOURCE_READS" by (simp add: acquire_safe_def)
  show "list_all2 (\<lambda>i r. rendering_of re hits query ic i r \<or> r = context_or_deadline re (hits ! i) None)
      [0..<length hits] results"
    if r: "render_many_source re hits deadline None (take n (aq_sent s)) = Inr results"
  proof (clarsimp simp: list_all2_conv_all_nth render_many_length [OF r])
    fix i assume i: "i < length hits" and no: "results ! i \<noteq> context_or_deadline re (hits ! i) None"
    with render_many_nth [OF r i] obtain x where x: "map_of (rev (take n (aq_sent s))) i = Some x" "results ! i = x"
      by (cases "map_of (rev (take n (aq_sent s))) i") (auto simp: context_or_deadline_def)
    with received_rendering [OF safe x(1)] show "rendering_of re hits query ic i (results ! i)" by simp
  qed
  show "\<exists>all. render_many_source re hits False None (aq_sent s) = Inr all
      \<and> list_all2 (rendering_of re hits query ic) [0..<length hits] all"
    if "aq_starts s = 0 \<and> aq_pending s = [] \<and> \<not> aq_finished s \<and> \<not> aq_failed s"
  proof (rule render_many_complete [OF safe])
    show "acquire_busy hits s" by (rule reachable_busy [OF assms], unfold acquire_running_def, use that in blast)
    show "aq_starts s = 0" "aq_pending s = []" using that by blast+
  qed
qed

definition sample_fill :: "Acquisition \<Rightarrow> Acquisition" where "sample_fill = acquire_start [sample_hit] False"

definition sample_full :: Acquisition where
  "sample_full = sample_fill (sample_fill (sample_fill (sample_fill acquire_init)))"

lemma sample_fill_reached:
  "acquire_reachable re [sample_hit] query ic s \<Longrightarrow> 0 < aq_starts s \<Longrightarrow> \<not> aq_finished s
    \<Longrightarrow> acquire_reachable re [sample_hit] query ic (sample_fill s)"
  unfolding sample_fill_def by (erule acquire_reachable.step, rule acquire_step.fill) simp_all

lemma sample_full_reached: "acquire_reachable re [sample_hit] query ic sample_full"
  unfolding sample_full_def
  by (intro sample_fill_reached acquire_reachable.init)
     (simp_all add: sample_fill_def acquire_init_def acquire_start_def aq_admit_def CONCURRENT_SOURCE_READS_def)

lemma sample_reached: "acquire_reachable re [sample_hit] query ic
    (acquire_complete re [sample_hit] query ic False False 0 (Observed (Inr sample_snapshot)) sample_full)"
  by (rule acquire_reachable.step [OF sample_full_reached], rule acquire_step.ended)
     (simp_all add: sample_full_def sample_fill_def acquire_init_def acquire_start_def aq_admit_def CONCURRENT_SOURCE_READS_def)

lemma sample_ended:
  "aq_sent (acquire_complete re [sample_hit] query ic False False 0 (Observed (Inr sample_snapshot)) sample_full)
      = [(0, render_snapshot re (Inr sample_snapshot) sample_hit query ic)]
   \<and> aq_starts (acquire_complete re [sample_hit] query ic False False 0 (Observed (Inr sample_snapshot)) sample_full) = 0
   \<and> aq_pending (acquire_complete re [sample_hit] query ic False False 0 (Observed (Inr sample_snapshot)) sample_full) = []
   \<and> \<not> aq_finished (acquire_complete re [sample_hit] query ic False False 0 (Observed (Inr sample_snapshot)) sample_full)
   \<and> \<not> aq_failed (acquire_complete re [sample_hit] query ic False False 0 (Observed (Inr sample_snapshot)) sample_full)"
  by (simp add: acquire_complete_def sample_full_def sample_fill_def acquire_init_def acquire_start_def aq_admit_def
      CONCURRENT_SOURCE_READS_def)

lemma source_context_accounted_witness:
  "\<exists>all. render_many_source sample_renderer [sample_hit] False None
            [(0, render_snapshot sample_renderer (Inr sample_snapshot) sample_hit ''three'' True)] = Inr all
      \<and> list_all2 (rendering_of sample_renderer [sample_hit] ''three'' True) [0] all"
proof -
  have l: "[0..<length [sample_hit]] = [0]" by simp
  note e = sample_ended [of sample_renderer "''three''" True]
  note p = source_context_accounted [OF sample_reached [of sample_renderer "''three''" True], THEN conjunct2, THEN conjunct2]
  from p show ?thesis unfolding l e [THEN conjunct1] by (rule mp) (use e in blast)
qed

end
