(* ===== verification/Registry.thy ===== *)
theory Registry
  imports Exclude "HOL-Library.AList"
begin

text \<open>
  The vault registry of the shared daemon (src/src/daemon/vault_registry.rs, with the watcher and lifecycle of
  daemon/vault_context.rs, ensure_vault of daemon/query.rs and the limits of an index scope of daemon/protocol.rs).

  Connections ask to attach to a vault. A vault is known by the path of its root; for each vault the registry keeps the
  policy floor last read and one live scope per effective policy, with the holders that share it. Vaults, contexts,
  locks and floors that the source shares behind \<^verbatim>\<open>Arc\<close> are numbers into the state. What the file system
  answers, the policy that is loaded, the random identifier and the start of a watcher are arguments of the steps.
\<close>

section \<open>State\<close>

record VaultRoot =
  vr_path :: str
  vr_object :: nat

record LiveScope =
  ls_init :: nat
  ls_context :: "nat option"
  ls_holders :: "(str \<times> bool) list"

record 's AttachedVault =
  av_root :: VaultRoot
  av_refreshing :: "nat option"
  av_replaced :: bool
  av_floor :: "(nat \<times> 's ExcludeSet) option"
  av_scopes :: "(str \<times> LiveScope) list"

record 's VaultContext =
  vc_root :: VaultRoot
  vc_exclude :: "'s ExcludeSet"
  vc_live :: bool
  vc_active :: bool
  vc_watching :: bool

record VaultAttachment =
  at_vault :: nat
  at_scope :: str
  at_id :: str

text \<open>Where the attach request of a connection has got to, between two points at which another task may run.\<close>

datatype 's Phase =
    Idle
  | Waiting nat bool "str list"
  | Loading nat bool "str list"
  | Reserved nat "'s ExcludeSet" "VaultAttachment option" nat
  | Initializing nat "'s ExcludeSet" "VaultAttachment option" nat "nat option" bool
  | Starting nat "'s ExcludeSet" "VaultAttachment option" nat "nat option" bool
  | Opened nat "'s ExcludeSet" "VaultAttachment option" nat nat bool
  | Releasing "VaultAttachment option"

record 's Connection =
  cn_attachment :: "VaultAttachment option"
  cn_phase :: "'s Phase"

record 's Registry =
  rg_roots :: "(str \<times> nat) list"
  rg_closed :: bool
  rg_closing :: "nat list option"
  rg_vaults :: "nat \<Rightarrow> 's AttachedVault"
  rg_next_vault :: nat
  rg_contexts :: "nat \<Rightarrow> 's VaultContext"
  rg_next_context :: nat
  rg_next_stamp :: nat
  rg_init_owner :: "nat \<Rightarrow> nat option"
  rg_connections :: "nat \<Rightarrow> 's Connection"

section \<open>Contexts and scopes\<close>

definition context_retire :: "'s VaultContext \<Rightarrow> 's VaultContext" where
  "context_retire ctx = ctx \<lparr> vc_live := False, vc_watching := False \<rparr>"

definition context_activate :: "'s VaultContext \<Rightarrow> 's VaultContext" where
  "context_activate ctx = (if vc_live ctx then ctx \<lparr> vc_active := True \<rparr> else ctx)"

definition install_watcher :: "'s VaultContext \<Rightarrow> 's VaultContext" where
  "install_watcher ctx = ctx \<lparr> vc_watching := True \<rparr>"

definition stop_watcher :: "'s VaultContext \<Rightarrow> 's VaultContext" where
  "stop_watcher ctx = ctx \<lparr> vc_watching := False \<rparr>"

definition scope_watching :: "LiveScope \<Rightarrow> bool" where
  "scope_watching sc \<longleftrightarrow> list_ex snd (ls_holders sc)"

definition by_holder :: "str \<Rightarrow> (str \<times> LiveScope) list \<Rightarrow> (str \<times> LiveScope) option" where
  "by_holder ident scopes = find (\<lambda>(_, sc). map_of (ls_holders sc) ident \<noteq> None) scopes"

definition set_context :: "nat \<Rightarrow> ('s VaultContext \<Rightarrow> 's VaultContext) \<Rightarrow> 's Registry \<Rightarrow> 's Registry" where
  "set_context x f r = r \<lparr> rg_contexts := (rg_contexts r)(x := f (rg_contexts r x)) \<rparr>"

definition set_vault :: "nat \<Rightarrow> ('s AttachedVault \<Rightarrow> 's AttachedVault) \<Rightarrow> 's Registry \<Rightarrow> 's Registry" where
  "set_vault v f r = r \<lparr> rg_vaults := (rg_vaults r)(v := f (rg_vaults r v)) \<rparr>"

definition set_phase :: "nat \<Rightarrow> 's Phase \<Rightarrow> 's Registry \<Rightarrow> 's Registry" where
  "set_phase c p r = r \<lparr> rg_connections := (rg_connections r)(c := (rg_connections r c) \<lparr> cn_phase := p \<rparr>) \<rparr>"

definition scopes_of :: "'s Registry \<Rightarrow> nat \<Rightarrow> (str \<times> LiveScope) list" where
  "scopes_of r v = av_scopes (rg_vaults r v)"

definition retire_all :: "nat \<Rightarrow> 's Registry \<Rightarrow> 's Registry" where
  "retire_all v r =
     (let retired = List.map_filter (ls_context \<circ> snd) (scopes_of r v)
      in set_vault v (\<lambda>vault. vault \<lparr> av_scopes := [], av_floor := None \<rparr>)
           (fold (\<lambda>x. set_context x context_retire) retired r))"

section \<open>The policy of a scope\<close>

record ('g, 's) Policies =
  po_glob :: "str \<Rightarrow> str + 'g"
  po_set :: "'g list \<Rightarrow> str + 's"
  po_private :: bool
  po_digest :: "str \<Rightarrow> str"
  po_storage_key :: "str \<Rightarrow> str"
  po_model :: str

record IndexScope =
  ix_version :: nat
  ix_exclude_patterns :: "str list"

definition IndexScope_validate :: "(nat \<Rightarrow> str) \<Rightarrow> IndexScope \<Rightarrow> str + unit" where
  "IndexScope_validate show_nat scope =
     (if ix_version scope \<noteq> 1 then Inl (''unsupported indexing scope version '' @ show_nat (ix_version scope))
      else if 4096 < length (ix_exclude_patterns scope)
           \<or> 256 * 1024 < sum_list (map length (ix_exclude_patterns scope))
      then Inl ''indexing scope exceeds 4096 patterns or 256 KiB of pattern text''
      else Inr ())"

definition floor_merged :: "('g, 's) Policies \<Rightarrow> 's ExcludeSet \<Rightarrow> str list \<Rightarrow> 's ExcludeSet vault_result" where
  "floor_merged po = ExcludeSet_merged (po_glob po) (po_set po) (po_private po)"

definition policy_scope :: "('g, 's) Policies \<Rightarrow> VaultRoot \<Rightarrow> 's ExcludeSet \<Rightarrow> str" where
  "policy_scope po dir ex = ExcludeSet_scope_id (po_digest po) (po_storage_key po (vr_path dir)) ex"

text \<open>The policy task: the floor of the daemon and, under it, the effective policy with its scope identity.\<close>

definition load_policy ::
  "('g, 's) Policies \<Rightarrow> VaultRoot \<Rightarrow> str list \<Rightarrow> 's ExcludeSet vault_result
     \<Rightarrow> ('s ExcludeSet \<times> ('s ExcludeSet \<times> str) vault_result) vault_result" where
  "load_policy po dir rules daemon_exclusions =
     try_bind daemon_exclusions (\<lambda>base.
     Inr (base, try_bind (floor_merged po base rules) (\<lambda>effective. Inr (effective, policy_scope po dir effective))))"

definition ERR_VAULT_NOT_ATTACHED :: int where "ERR_VAULT_NOT_ATTACHED = -32031"

definition unattached :: vault_error where
  "unattached = DaemonRpc ERR_VAULT_NOT_ATTACHED ''vault attachment expired; attach again''"

section \<open>Reserving a scope\<close>

definition apply_floor :: "nat \<Rightarrow> 's ExcludeSet \<Rightarrow> 's Registry \<Rightarrow> 's Registry" where
  "apply_floor v base r =
     (case av_floor (rg_vaults r v) of
        Some (_, previous) \<Rightarrow>
          if patterns previous = patterns base then r
          else set_vault v (\<lambda>vault. vault \<lparr> av_floor := Some (rg_next_stamp r, base) \<rparr>)
                 (retire_all v (r \<lparr> rg_next_stamp := Suc (rg_next_stamp r) \<rparr>))
      | None \<Rightarrow> set_vault v (\<lambda>vault. vault \<lparr> av_floor := Some (rg_next_stamp r, base) \<rparr>)
                 (retire_all v (r \<lparr> rg_next_stamp := Suc (rg_next_stamp r) \<rparr>)))"

definition add_holder :: "nat \<Rightarrow> str \<Rightarrow> str \<Rightarrow> bool \<Rightarrow> 's Registry \<Rightarrow> nat \<times> 's Registry" where
  "add_holder v sid ident watch r =
     (let scope = (case map_of (scopes_of r v) sid of
            Some sc \<Rightarrow> sc
          | None \<Rightarrow> \<lparr> ls_init = rg_next_stamp r, ls_context = None, ls_holders = [] \<rparr>);
          scope = scope \<lparr> ls_holders := AList.update ident watch (ls_holders scope) \<rparr>
      in (ls_init scope,
          set_vault v (\<lambda>vault. vault \<lparr> av_scopes := AList.update sid scope (av_scopes vault) \<rparr>)
            (r \<lparr> rg_next_stamp := Suc (rg_next_stamp r) \<rparr>)))"

definition reserve ::
  "('g, 's) Policies \<Rightarrow> nat \<Rightarrow> bool \<Rightarrow> str list \<Rightarrow> VaultAttachment option \<Rightarrow> 's ExcludeSet vault_result \<Rightarrow> str vault_result
     \<Rightarrow> 's Registry \<Rightarrow> ('s ExcludeSet \<times> VaultAttachment option \<times> nat) vault_result \<times> 's Registry" where
  "reserve po v watch rules current daemon_exclusions random r =
     (if av_replaced (rg_vaults r v) \<or> rg_closed r then (Inl unattached, r)
      else case load_policy po (av_root (rg_vaults r v)) rules daemon_exclusions of
          Inl e \<Rightarrow> (Inl e, retire_all v r)
        | Inr (base, effective) \<Rightarrow>
            let r = apply_floor v base r in
            case effective of
              Inl e \<Rightarrow> (Inl e, r)
            | Inr (exclude, sid) \<Rightarrow>
                case Option.bind current (\<lambda>h. map_option (\<lambda>(_, sc). (h, sc)) (by_holder (at_id h) (scopes_of r v))) of
                  Some (h, sc) \<Rightarrow>
                    if at_scope h \<noteq> sid \<or> map_of (ls_holders sc) (at_id h) \<noteq> Some watch
                    then (Inl (InvalidPath ''an attachment connection retains its indexing scope and watch preference''), r)
                    else (Inr (exclude, None, ls_init sc), r)
                | None \<Rightarrow>
                    case random of
                      Inl e \<Rightarrow> (Inl e, r)
                    | Inr ident \<Rightarrow>
                        let (init, r) = add_holder v sid ident watch r
                        in (Inr (exclude, Some \<lparr> at_vault = v, at_scope = sid, at_id = ident \<rparr>, init), r))"

text \<open>\<^verbatim>\<open>Drop for VaultAttachment\<close>.\<close>

definition drop_grant :: "VaultAttachment \<Rightarrow> 's Registry \<Rightarrow> 's Registry" where
  "drop_grant h r =
     (case map_of (scopes_of r (at_vault h)) (at_scope h) of
        None \<Rightarrow> r
      | Some sc \<Rightarrow>
          if map_of (ls_holders sc) (at_id h) = None then r
          else let left = AList.delete (at_id h) (ls_holders sc) in
            if left = []
            then set_vault (at_vault h) (\<lambda>vault. vault \<lparr> av_scopes := AList.delete (at_scope h) (av_scopes vault) \<rparr>)
                   (case ls_context sc of None \<Rightarrow> r | Some x \<Rightarrow> set_context x context_retire r)
            else set_vault (at_vault h)
                   (\<lambda>vault. vault \<lparr> av_scopes := AList.update (at_scope h) (sc \<lparr> ls_holders := left \<rparr>) (av_scopes vault) \<rparr>)
                   (if scope_watching (sc \<lparr> ls_holders := left \<rparr>) then r
                    else case ls_context sc of None \<Rightarrow> r | Some x \<Rightarrow> set_context x stop_watcher r))"

section \<open>Finding a root\<close>

record RootAnswers =
  ra_first :: "str + VaultRoot"
  ra_second :: "str + VaultRoot"
  ra_same_previous :: "bool vault_result"
  ra_same_current :: "bool vault_result"
  ra_upgrade :: "nat \<Rightarrow> bool"

definition open_requested_root :: "str \<Rightarrow> str + VaultRoot \<Rightarrow> VaultRoot vault_result" where
  "open_requested_root vault_root opened =
     (if \<not> starts_with vault_root ''/'' then Inl (InvalidPath (''vault_root must be absolute: '' @ vault_root))
      else case opened of
          Inl err \<Rightarrow> Inl (InvalidPath (''failed to open vault root '' @ [CHR 0x27] @ vault_root @ [CHR 0x27] @ '': '' @ err))
        | Inr dir \<Rightarrow> Inr dir)"

definition replace_vault :: "nat \<Rightarrow> str \<Rightarrow> 's Registry \<Rightarrow> 's Registry" where
  "replace_vault v path r =
     (let r = retire_all v (set_vault v (\<lambda>vault. vault \<lparr> av_replaced := True \<rparr>) r)
      in r \<lparr> rg_roots := AList.delete path (rg_roots r) \<rparr>)"

definition new_vault :: "VaultRoot \<Rightarrow> 's Registry \<Rightarrow> nat \<times> 's Registry" where
  "new_vault dir r =
     (rg_next_vault r,
      r \<lparr> rg_vaults := (rg_vaults r)(rg_next_vault r :=
            \<lparr> av_root = dir, av_refreshing = None, av_replaced = False, av_floor = None, av_scopes = [] \<rparr>),
          rg_next_vault := Suc (rg_next_vault r),
          rg_roots := AList.update (vr_path dir) (rg_next_vault r) (rg_roots r) \<rparr>)"

definition enrolled_vault :: "RootAnswers \<Rightarrow> VaultRoot \<Rightarrow> 's Registry \<Rightarrow> nat option" where
  "enrolled_vault ra dir r =
     (case map_of (rg_roots r) (vr_path dir) of
        Some v \<Rightarrow> if ra_upgrade ra v then Some v else None
      | None \<Rightarrow> None)"

definition enroll_root :: "nat option \<Rightarrow> VaultRoot \<Rightarrow> bool \<Rightarrow> 's Registry \<Rightarrow> nat option \<times> 's Registry" where
  "enroll_root previous dir create r =
     (let r = (case previous of None \<Rightarrow> r | Some v \<Rightarrow> replace_vault v (vr_path dir) r)
      in if \<not> create then (None, r) else let (v, r) = new_vault dir r in (Some v, r))"

definition lookup_root ::
  "RootAnswers \<Rightarrow> str \<Rightarrow> bool \<Rightarrow> 's Registry \<Rightarrow> nat option vault_result \<times> 's Registry" where
  "lookup_root ra path create r =
     (case open_requested_root path (ra_first ra) of
        Inl e \<Rightarrow> (Inl e, r)
      | Inr dir \<Rightarrow>
          if rg_closed r then (Inr None, r)
          else
            let previous = enrolled_vault ra dir r;
                same = (case previous of None \<Rightarrow> Inr False | Some v \<Rightarrow> ra_same_previous ra)
            in case same of
                Inl e \<Rightarrow> (Inl e, r)
              | Inr True \<Rightarrow> (Inr previous, r)
              | Inr False \<Rightarrow>
                  if previous = None \<and> \<not> create then (Inr None, r)
                  else case open_requested_root path (ra_second ra) of
                      Inl e \<Rightarrow> (Inl e, r)
                    | Inr current \<Rightarrow>
                        case (if vr_path current \<noteq> vr_path dir then Inr False else ra_same_current ra) of
                          Inl e \<Rightarrow> (Inl e, r)
                        | Inr False \<Rightarrow> (Inr None, r)
                        | Inr True \<Rightarrow> let (v, r) = enroll_root previous dir create r in (Inr v, r))"

text \<open>\<^verbatim>\<open>Drop for AttachedVault\<close>.\<close>

definition drop_vault :: "nat \<Rightarrow> 's Registry \<Rightarrow> 's Registry" where
  "drop_vault v r =
     (let path = vr_path (av_root (rg_vaults r v)) in
      if map_of (rg_roots r) path = Some v then r \<lparr> rg_roots := AList.delete path (rg_roots r) \<rparr> else r)"


section \<open>An attach request, between its waits\<close>

text \<open>Validation, the model and the root of the request; then it waits for the lock that orders floor readings.\<close>

definition attach_begin ::
  "('g, 's) Policies \<Rightarrow> (nat \<Rightarrow> str) \<Rightarrow> RootAnswers \<Rightarrow> str \<Rightarrow> bool \<Rightarrow> str \<Rightarrow> IndexScope \<Rightarrow> nat \<Rightarrow> 's Registry
     \<Rightarrow> unit vault_result \<times> 's Registry" where
  "attach_begin po show_nat ra path watch model descriptor c r =
     (case IndexScope_validate show_nat descriptor of
        Inl e \<Rightarrow> (Inl (InvalidPath e), r)
      | Inr _ \<Rightarrow>
          if model \<noteq> po_model po
          then (Inl (InvalidPath (''requested model '' @ [CHR 0x27] @ model @ [CHR 0x27] @ '' does not match daemon model ''
                  @ [CHR 0x27] @ po_model po @ [CHR 0x27])), r)
          else case lookup_root ra path True r of
              (Inl e, r) \<Rightarrow> (Inl e, r)
            | (Inr None, r) \<Rightarrow> (Inl unattached, r)
            | (Inr (Some v), r) \<Rightarrow>
                case cn_attachment (rg_connections r c) of
                  Some active \<Rightarrow>
                    if vr_path (av_root (rg_vaults r (at_vault active))) \<noteq> vr_path (av_root (rg_vaults r v))
                    then (Inl (InvalidPath ''an attachment connection belongs to one vault''), r)
                    else (Inr (), set_phase c (Waiting v watch (ix_exclude_patterns descriptor)) r)
                | None \<Rightarrow> (Inr (), set_phase c (Waiting v watch (ix_exclude_patterns descriptor)) r))"

definition attach_lock_floor :: "nat \<Rightarrow> 's Registry \<Rightarrow> 's Registry" where
  "attach_lock_floor c r =
     (case cn_phase (rg_connections r c) of
        Waiting v watch rules \<Rightarrow>
          set_phase c (Loading v watch rules) (set_vault v (\<lambda>vault. vault \<lparr> av_refreshing := Some c \<rparr>) r)
      | _ \<Rightarrow> r)"

definition unlock_floor :: "nat \<Rightarrow> 's Registry \<Rightarrow> 's Registry" where
  "unlock_floor v = set_vault v (\<lambda>vault. vault \<lparr> av_refreshing := None \<rparr>)"

definition unlock_init :: "nat \<Rightarrow> 's Registry \<Rightarrow> 's Registry" where
  "unlock_init i r = r \<lparr> rg_init_owner := (rg_init_owner r)(i := None) \<rparr>"

definition attach_reserve ::
  "('g, 's) Policies \<Rightarrow> 's ExcludeSet vault_result \<Rightarrow> str vault_result \<Rightarrow> nat \<Rightarrow> 's Registry \<Rightarrow> 's Registry" where
  "attach_reserve po daemon_exclusions random c r =
     (case cn_phase (rg_connections r c) of
        Loading v watch rules \<Rightarrow>
          (case reserve po v watch rules (cn_attachment (rg_connections r c)) daemon_exclusions random r of
             (Inl e, r) \<Rightarrow> set_phase c (Releasing None) (unlock_floor v r)
           | (Inr (exclude, grant, i), r) \<Rightarrow> set_phase c (Reserved v exclude grant i) (unlock_floor v r))
      | _ \<Rightarrow> r)"

definition holder_of :: "VaultAttachment option \<Rightarrow> 's Connection \<Rightarrow> VaultAttachment option" where
  "holder_of grant cn = (case grant of Some h \<Rightarrow> Some h | None \<Rightarrow> cn_attachment cn)"

definition attach_initialize :: "nat \<Rightarrow> 's Registry \<Rightarrow> 's Registry" where
  "attach_initialize c r =
     (case cn_phase (rg_connections r c) of
        Reserved v exclude grant i \<Rightarrow>
          (case Option.bind (holder_of grant (rg_connections r c)) (\<lambda>h. by_holder (at_id h) (scopes_of r v)) of
             None \<Rightarrow> set_phase c (Releasing grant) r
           | Some (_, sc) \<Rightarrow>
               set_phase c (Initializing v exclude grant i (ls_context sc) (scope_watching sc))
                 (r \<lparr> rg_init_owner := (rg_init_owner r)(i := Some c) \<rparr>))
      | _ \<Rightarrow> r)"

text \<open>The flag says from here on that a watcher is to be started.\<close>

definition attach_start :: "nat \<Rightarrow> 's Registry \<Rightarrow> 's Registry" where
  "attach_start c r =
     (case cn_phase (rg_connections r c) of
        Initializing v exclude grant i context wants_watcher \<Rightarrow>
          set_phase c (Starting v exclude grant i context
            (case context of None \<Rightarrow> wants_watcher | Some x \<Rightarrow> wants_watcher \<and> \<not> vc_watching (rg_contexts r x))) r
      | _ \<Rightarrow> r)"

definition attach_open :: "nat \<Rightarrow> 's Registry \<Rightarrow> 's Registry" where
  "attach_open c r =
     (case cn_phase (rg_connections r c) of
        Starting v exclude grant i (Some x) resumed \<Rightarrow> set_phase c (Opened v exclude grant i x resumed) r
      | Starting v exclude grant i None watcher \<Rightarrow>
          set_phase c (Opened v exclude grant i (rg_next_context r) False)
            (set_context (rg_next_context r)
              (\<lambda>_. \<lparr> vc_root = av_root (rg_vaults r v), vc_exclude = exclude, vc_live = True, vc_active = False,
                     vc_watching = watcher \<rparr>)
              (r \<lparr> rg_next_context := Suc (rg_next_context r) \<rparr>))
      | _ \<Rightarrow> r)"

definition publish_context :: "LiveScope \<Rightarrow> bool \<Rightarrow> 's VaultContext \<Rightarrow> 's VaultContext" where
  "publish_context sc pending ctx =
     context_activate (if scope_watching sc then (if pending then install_watcher ctx else ctx) else stop_watcher ctx)"

text \<open>The end of attach, and the connection that keeps a new grant in the place of its old one.\<close>

definition attach_publish :: "nat \<Rightarrow> 's Registry \<Rightarrow> 's Registry" where
  "attach_publish c r =
     (case cn_phase (rg_connections r c) of
        Opened v exclude grant i x pending \<Rightarrow>
          (case Option.bind (holder_of grant (rg_connections r c)) (\<lambda>h.
                  Option.bind (map_of (scopes_of r v) (at_scope h)) (\<lambda>sc.
                    if map_of (ls_holders sc) (at_id h) = None then None else Some (h, sc))) of
             None \<Rightarrow> set_phase c (Releasing grant) (unlock_init i r)
           | Some (h, sc) \<Rightarrow>
               let r = set_context x (publish_context sc pending) (unlock_init i r);
                   r = set_vault v (\<lambda>vault. vault \<lparr> av_scopes :=
                         AList.update (at_scope h) (sc \<lparr> ls_context := Some x \<rparr>) (av_scopes vault) \<rparr>) r;
                   cn = rg_connections r c
               in r \<lparr> rg_connections := (rg_connections r)(c :=
                    (case grant of
                       None \<Rightarrow> cn \<lparr> cn_phase := Idle \<rparr>
                     | Some new_holder \<Rightarrow>
                         cn \<lparr> cn_attachment := Some new_holder, cn_phase := Releasing (cn_attachment cn) \<rparr>)) \<rparr>)
      | _ \<Rightarrow> r)"

definition phase_grant :: "'s Phase \<Rightarrow> VaultAttachment option" where
  "phase_grant p =
     (case p of
        Reserved v exclude grant i \<Rightarrow> grant
      | Initializing v exclude grant i context wants \<Rightarrow> grant
      | Starting v exclude grant i context wants \<Rightarrow> grant
      | Opened v exclude grant i x pending \<Rightarrow> grant
      | Releasing grant \<Rightarrow> grant
      | _ \<Rightarrow> None)"

definition phase_lock :: "'s Phase \<Rightarrow> nat option" where
  "phase_lock p =
     (case p of
        Initializing v exclude grant i context wants \<Rightarrow> Some i
      | Starting v exclude grant i context wants \<Rightarrow> Some i
      | Opened v exclude grant i x pending \<Rightarrow> Some i
      | _ \<Rightarrow> None)"

text \<open>An error of a wait, or the request is dropped: its locks are released, then its grant.\<close>

definition attach_abort :: "nat \<Rightarrow> 's Registry \<Rightarrow> 's Registry" where
  "attach_abort c r =
     (let p = cn_phase (rg_connections r c);
          r = (case p of Loading v watch rules \<Rightarrow> unlock_floor v r | _ \<Rightarrow> r);
          r = (case phase_lock p of Some i \<Rightarrow> unlock_init i r | None \<Rightarrow> r)
      in set_phase c (Releasing (phase_grant p)) r)"

definition connection_release :: "nat \<Rightarrow> 's Registry \<Rightarrow> 's Registry" where
  "connection_release c r =
     (case cn_phase (rg_connections r c) of
        Releasing grant \<Rightarrow>
          set_phase c Idle (case grant of None \<Rightarrow> r | Some h \<Rightarrow> drop_grant h r)
      | _ \<Rightarrow> r)"

definition connection_close :: "nat \<Rightarrow> 's Registry \<Rightarrow> 's Registry" where
  "connection_close c r =
     r \<lparr> rg_connections := (rg_connections r)(c :=
       \<lparr> cn_attachment = None, cn_phase = Releasing (cn_attachment (rg_connections r c)) \<rparr>) \<rparr>"

section \<open>Closing and asking\<close>

definition close_begin :: "'s Registry \<Rightarrow> 's Registry" where
  "close_begin r = r \<lparr> rg_closed := True \<rparr>"

definition close_collect :: "(nat \<Rightarrow> bool) \<Rightarrow> 's Registry \<Rightarrow> 's Registry" where
  "close_collect upgrade r = r \<lparr> rg_closing := Some (filter upgrade (map snd (rg_roots r))) \<rparr>"

definition close_next :: "'s Registry \<Rightarrow> 's Registry" where
  "close_next r =
     (case rg_closing r of
        Some (v # vs) \<Rightarrow> retire_all v (r \<lparr> rg_closing := Some vs \<rparr>)
      | _ \<Rightarrow> r)"

definition view_context :: "'s Registry \<Rightarrow> nat \<Rightarrow> str \<Rightarrow> nat option" where
  "view_context r v holder = Option.bind (by_holder holder (scopes_of r v)) (\<lambda>(_, sc). ls_context sc)"

definition context_for_holder ::
  "RootAnswers \<Rightarrow> str \<Rightarrow> str \<Rightarrow> 's Registry \<Rightarrow> nat option vault_result \<times> 's Registry" where
  "context_for_holder ra path holder r =
     (case lookup_root ra path False r of
        (Inl e, r) \<Rightarrow> (Inl e, r)
      | (Inr None, r) \<Rightarrow> (Inr None, r)
      | (Inr (Some v), r) \<Rightarrow> (Inr (view_context r v holder), r))"

text \<open>The floor is read at one moment, the scopes at a later one, and answer only while that floor is still the vault's.\<close>

definition policy_context ::
  "('g, 's) Policies \<Rightarrow> nat \<Rightarrow> str list \<Rightarrow> (nat \<times> 's ExcludeSet) option \<Rightarrow> 's Registry \<Rightarrow> nat option vault_result" where
  "policy_context po v rules observed r =
     (case observed of
        None \<Rightarrow> try_bind (ExcludeSet_build (po_glob po) (po_set po) (po_private po) rules) (\<lambda>_. Inr None)
      | Some (stamp, base) \<Rightarrow>
          try_bind (floor_merged po base rules) (\<lambda>effective.
          if map_option fst (av_floor (rg_vaults r v)) \<noteq> Some stamp then Inr None
          else Inr (Option.bind (map_of (scopes_of r v) (policy_scope po (av_root (rg_vaults r v)) effective)) ls_context)))"

section \<open>Runs\<close>

definition registry_init :: "'s VaultContext \<Rightarrow> 's Registry" where
  "registry_init blank =
     \<lparr> rg_roots = [], rg_closed = False, rg_closing = None,
       rg_vaults = (\<lambda>_. \<lparr> av_root = vc_root blank, av_refreshing = None, av_replaced = False, av_floor = None, av_scopes = [] \<rparr>),
       rg_next_vault = 0, rg_contexts = (\<lambda>_. blank), rg_next_context = 0, rg_next_stamp = 0,
       rg_init_owner = (\<lambda>_. None), rg_connections = (\<lambda>_. \<lparr> cn_attachment = None, cn_phase = Idle \<rparr>) \<rparr>"

definition holds :: "'s Registry \<Rightarrow> nat \<Rightarrow> VaultAttachment \<Rightarrow> bool" where
  "holds r c h \<longleftrightarrow> cn_attachment (rg_connections r c) = Some h \<or> phase_grant (cn_phase (rg_connections r c)) = Some h"

definition phase_vault :: "'s Phase \<Rightarrow> nat option" where
  "phase_vault p =
     (case p of
        Waiting v watch rules \<Rightarrow> Some v
      | Loading v watch rules \<Rightarrow> Some v
      | Reserved v exclude grant i \<Rightarrow> Some v
      | Initializing v exclude grant i context wants \<Rightarrow> Some v
      | Starting v exclude grant i context wants \<Rightarrow> Some v
      | Opened v exclude grant i x pending \<Rightarrow> Some v
      | _ \<Rightarrow> None)"

text \<open>A vault to which something still refers; a weak reference to it can be upgraded.\<close>

definition referenced :: "'s Registry \<Rightarrow> nat \<Rightarrow> bool" where
  "referenced r v \<longleftrightarrow>
     (\<exists>c. (\<exists>h. holds r c h \<and> at_vault h = v) \<or> phase_vault (cn_phase (rg_connections r c)) = Some v)"

inductive registry_step :: "('g, 's) Policies \<Rightarrow> 's Registry \<Rightarrow> 's Registry \<Rightarrow> bool"
  for po where
  asked: "cn_phase (rg_connections r c) = Idle \<Longrightarrow> \<forall>v. referenced r v \<longrightarrow> ra_upgrade ra v
    \<Longrightarrow> registry_step po r (snd (attach_begin po show_nat ra path watch model descriptor c r))"
| floor_locked: "cn_phase (rg_connections r c) = Waiting v watch rules \<Longrightarrow> av_refreshing (rg_vaults r v) = None
    \<Longrightarrow> registry_step po r (attach_lock_floor c r)"
| reserved: "cn_phase (rg_connections r c) = Loading v watch rules
    \<Longrightarrow> \<forall>ident d h. random = Inr ident \<longrightarrow> holds r d h \<longrightarrow> at_id h \<noteq> ident
    \<Longrightarrow> registry_step po r (attach_reserve po daemon_exclusions random c r)"
| init_locked: "cn_phase (rg_connections r c) = Reserved v exclude grant i \<Longrightarrow> rg_init_owner r i = None
    \<Longrightarrow> registry_step po r (attach_initialize c r)"
| started: "registry_step po r (attach_start c r)"
| opened: "registry_step po r (attach_open c r)"
| published: "registry_step po r (attach_publish c r)"
| aborted: "phase_vault (cn_phase (rg_connections r c)) \<noteq> None \<Longrightarrow> registry_step po r (attach_abort c r)"
| released: "registry_step po r (connection_release c r)"
| hung_up: "cn_phase (rg_connections r c) = Idle \<Longrightarrow> registry_step po r (connection_close c r)"
| looked_up: "\<forall>v. referenced r v \<longrightarrow> ra_upgrade ra v \<Longrightarrow> registry_step po r (snd (lookup_root ra path False r))"
| vault_dropped: "\<not> referenced r v \<Longrightarrow> registry_step po r (drop_vault v r)"
| closing: "registry_step po r (close_begin r)"
| collected: "rg_closed r \<Longrightarrow> rg_closing r = None \<Longrightarrow> \<forall>v. referenced r v \<longrightarrow> upgrade v
    \<Longrightarrow> registry_step po r (close_collect upgrade r)"
| closed_one: "registry_step po r (close_next r)"

inductive registry_reachable :: "('g, 's) Policies \<Rightarrow> 's VaultContext \<Rightarrow> 's Registry \<Rightarrow> bool"
  for po blank where
  init: "registry_reachable po blank (registry_init blank)"
| step: "registry_reachable po blank r \<Longrightarrow> registry_step po r r' \<Longrightarrow> registry_reachable po blank r'"

end
