(* ===== verification/RegistryInv.thy ===== *)
theory RegistryInv
  imports Registry
begin

text \<open>
  The invariant of the vault registry and its preservation by every step. The structural part ties holders to the
  grants of connections, vaults to the table of roots and locks to their owners; the other part ties published contexts
  to the scopes and floors they serve, and the requests under way to what they have observed.
\<close>

section \<open>Reading the tables\<close>

definition scope_at :: "'s Registry \<Rightarrow> nat \<Rightarrow> str \<Rightarrow> LiveScope option" where
  "scope_at r v k = map_of (scopes_of r v) k"

definition hold :: "LiveScope \<Rightarrow> str \<Rightarrow> bool option" where
  "hold sc ident = map_of (ls_holders sc) ident"

lemma by_holder_Some: "by_holder ident al = Some (k, sc) \<Longrightarrow> distinct (map fst al) \<Longrightarrow> map_of al k = Some sc \<and> hold sc ident \<noteq> None"
  by (auto simp: by_holder_def find_Some_iff hold_def intro!: map_of_is_SomeI) (metis nth_mem)

lemma by_holder_None: "by_holder ident al = None \<Longrightarrow> map_of al k = Some sc \<Longrightarrow> hold sc ident = None"
  by (auto simp: by_holder_def find_None_iff hold_def dest!: map_of_SomeD)

lemma scope_watching_iff: "distinct (map fst (ls_holders sc)) \<Longrightarrow> scope_watching sc \<longleftrightarrow> (\<exists>ident. hold sc ident = Some True)"
  by (force simp: scope_watching_def hold_def list_ex_iff)

lemma scope_watchingI: "hold sc ident = Some True \<Longrightarrow> scope_watching sc"
  by (force simp: scope_watching_def hold_def list_ex_iff dest: map_of_SomeD)

section \<open>The invariant\<close>

definition tables_ok :: "'s Registry \<Rightarrow> bool" where
  "tables_ok r \<longleftrightarrow>
     (\<forall>v. distinct (map fst (scopes_of r v)))
     \<and> (\<forall>v k sc. scope_at r v k = Some sc \<longrightarrow> distinct (map fst (ls_holders sc)) \<and> ls_holders sc \<noteq> [])"

definition holders_ok :: "'s Registry \<Rightarrow> bool" where
  "holders_ok r \<longleftrightarrow>
     (\<forall>v k sc ident. scope_at r v k = Some sc \<longrightarrow> hold sc ident \<noteq> None
        \<longrightarrow> (\<exists>c. holds r c \<lparr> at_vault = v, at_scope = k, at_id = ident \<rparr>))"

definition grants_ok :: "'s Registry \<Rightarrow> bool" where
  "grants_ok r \<longleftrightarrow> (\<forall>c d g h. holds r c g \<longrightarrow> holds r d h \<longrightarrow> at_id g = at_id h \<longrightarrow> g = h)"

definition roots_ok :: "'s Registry \<Rightarrow> bool" where
  "roots_ok r \<longleftrightarrow>
     (\<forall>v. referenced r v \<longrightarrow> v < rg_next_vault r
        \<and> (av_replaced (rg_vaults r v) \<or> map_of (rg_roots r) (vr_path (av_root (rg_vaults r v))) = Some v))
     \<and> (\<forall>v. av_replaced (rg_vaults r v) \<longrightarrow> scopes_of r v = [])
     \<and> (\<forall>p v. map_of (rg_roots r) p = Some v \<longrightarrow> v < rg_next_vault r \<and> vr_path (av_root (rg_vaults r v)) = p)"

definition locks_ok :: "'s Registry \<Rightarrow> bool" where
  "locks_ok r \<longleftrightarrow>
     (\<forall>c i. phase_lock (cn_phase (rg_connections r c)) = Some i \<longrightarrow> rg_init_owner r i = Some c)
     \<and> (\<forall>v k sc. scope_at r v k = Some sc \<longrightarrow> ls_init sc < rg_next_stamp r)
     \<and> (\<forall>v k sc v' k' sc'. scope_at r v k = Some sc \<longrightarrow> scope_at r v' k' = Some sc' \<longrightarrow> ls_init sc = ls_init sc' \<longrightarrow> v = v' \<and> k = k')"

definition policy_ok :: "('g, 's) Policies \<Rightarrow> 's AttachedVault \<Rightarrow> str \<Rightarrow> 's ExcludeSet \<Rightarrow> bool" where
  "policy_ok po vault k ex \<longleftrightarrow>
     (\<exists>stamp base rules. av_floor vault = Some (stamp, base) \<and> floor_merged po base rules = Inr ex
        \<and> k = policy_scope po (av_root vault) ex)"

definition contexts_ok :: "('g, 's) Policies \<Rightarrow> 's Registry \<Rightarrow> bool" where
  "contexts_ok po r \<longleftrightarrow>
     (\<forall>v k sc x. scope_at r v k = Some sc \<longrightarrow> ls_context sc = Some x \<longrightarrow>
        x < rg_next_context r \<and> vc_live (rg_contexts r x) \<and> vc_active (rg_contexts r x)
        \<and> (vc_watching (rg_contexts r x) \<longrightarrow> scope_watching sc)
        \<and> vc_root (rg_contexts r x) = av_root (rg_vaults r v)
        \<and> policy_ok po (rg_vaults r v) k (vc_exclude (rg_contexts r x)))
     \<and> (\<forall>v k sc v' k' sc' x. scope_at r v k = Some sc \<longrightarrow> scope_at r v' k' = Some sc' \<longrightarrow> ls_context sc = Some x
          \<longrightarrow> ls_context sc' = Some x \<longrightarrow> v = v' \<and> k = k')"

text \<open>What a request knows of the scope in which its holder stands, as long as it stands there.\<close>

definition lease ::
  "('g, 's) Policies \<Rightarrow> 's Registry \<Rightarrow> nat \<Rightarrow> nat \<Rightarrow> VaultAttachment option \<Rightarrow> nat \<Rightarrow> 's ExcludeSet \<Rightarrow> (LiveScope \<Rightarrow> bool \<Rightarrow> bool) \<Rightarrow> bool" where
  "lease po r c v grant i ex P \<longleftrightarrow>
     i < rg_next_stamp r
     \<and> (\<exists>h. holder_of grant (rg_connections r c) = Some h
          \<and> (\<forall>sc w. scope_at r v (at_scope h) = Some sc \<longrightarrow> hold sc (at_id h) = Some w
               \<longrightarrow> ls_init sc = i \<and> policy_ok po (rg_vaults r v) (at_scope h) ex \<and> P sc w))"

definition start_seen :: "'s Registry \<Rightarrow> nat option \<Rightarrow> bool \<Rightarrow> LiveScope \<Rightarrow> bool \<Rightarrow> bool" where
  "start_seen r context start sc w \<longleftrightarrow>
     ls_context sc = context \<and> (w \<longrightarrow> start \<or> (\<exists>x. context = Some x \<and> vc_watching (rg_contexts r x)))"

definition open_seen :: "'s Registry \<Rightarrow> nat \<Rightarrow> 's ExcludeSet \<Rightarrow> nat \<Rightarrow> bool \<Rightarrow> LiveScope \<Rightarrow> bool \<Rightarrow> bool" where
  "open_seen r v ex x pending sc w \<longleftrightarrow>
     (ls_context sc = Some x
      \<or> ls_context sc = None \<and> \<not> vc_active (rg_contexts r x) \<and> vc_live (rg_contexts r x)
        \<and> vc_root (rg_contexts r x) = av_root (rg_vaults r v) \<and> vc_exclude (rg_contexts r x) = ex)
     \<and> (w \<longrightarrow> pending \<or> vc_watching (rg_contexts r x))"

definition seen_context :: "'s Registry \<Rightarrow> nat option \<Rightarrow> bool" where
  "seen_context r context \<longleftrightarrow> (\<forall>x. context = Some x \<longrightarrow> x < rg_next_context r \<and> vc_active (rg_contexts r x))"

definition phase_ok :: "('g, 's) Policies \<Rightarrow> 's Registry \<Rightarrow> nat \<Rightarrow> bool" where
  "phase_ok po r c \<longleftrightarrow>
     (case cn_phase (rg_connections r c) of
        Reserved v ex grant i \<Rightarrow> lease po r c v grant i ex (\<lambda>_ _. True)
      | Initializing v ex grant i context wants \<Rightarrow>
          seen_context r context \<and> lease po r c v grant i ex (\<lambda>sc w. ls_context sc = context \<and> (w \<longrightarrow> wants))
      | Starting v ex grant i context start \<Rightarrow>
          seen_context r context \<and> lease po r c v grant i ex (start_seen r context start)
      | Opened v ex grant i x pending \<Rightarrow>
          x < rg_next_context r \<and> lease po r c v grant i ex (open_seen r v ex x pending)
      | _ \<Rightarrow> True)"

definition opened_context :: "'s Phase \<Rightarrow> nat option" where
  "opened_context p = (case p of Opened v ex grant i x pending \<Rightarrow> Some x | _ \<Rightarrow> None)"

definition opened_ok :: "'s Registry \<Rightarrow> bool" where
  "opened_ok r \<longleftrightarrow>
     (\<forall>c d x. opened_context (cn_phase (rg_connections r c)) = Some x \<longrightarrow> opened_context (cn_phase (rg_connections r d)) = Some x
        \<longrightarrow> \<not> vc_active (rg_contexts r x) \<longrightarrow> c = d)"

text \<open>The holder a connection keeps, while it stands, has a published context, watched if the connection asked for it.\<close>

definition attached_ok :: "'s Registry \<Rightarrow> bool" where
  "attached_ok r \<longleftrightarrow>
     (\<forall>c h sc w. cn_attachment (rg_connections r c) = Some h \<longrightarrow> scope_at r (at_vault h) (at_scope h) = Some sc
        \<longrightarrow> hold sc (at_id h) = Some w
        \<longrightarrow> (\<exists>x. ls_context sc = Some x \<and> (w \<longrightarrow> vc_watching (rg_contexts r x))))"

definition closing_ok :: "'s Registry \<Rightarrow> bool" where
  "closing_ok r \<longleftrightarrow>
     (\<forall>vs. rg_closing r = Some vs \<longrightarrow> rg_closed r \<and> (\<forall>v. v \<notin> set vs \<longrightarrow> scopes_of r v = []))"

definition struct_ok :: "'s Registry \<Rightarrow> bool" where
  "struct_ok r \<longleftrightarrow> tables_ok r \<and> holders_ok r \<and> grants_ok r \<and> roots_ok r \<and> locks_ok r \<and> closing_ok r"

definition serve_ok :: "('g, 's) Policies \<Rightarrow> 's Registry \<Rightarrow> bool" where
  "serve_ok po r \<longleftrightarrow> contexts_ok po r \<and> (\<forall>c. phase_ok po r c) \<and> opened_ok r \<and> attached_ok r"

section \<open>Steps that leave the scopes of the holders as they are\<close>

definition frame :: "'s Registry \<Rightarrow> 's Registry \<Rightarrow> bool" where
  "frame r r' \<longleftrightarrow>
     rg_connections r' = rg_connections r \<and> rg_next_context r \<le> rg_next_context r' \<and> rg_next_stamp r \<le> rg_next_stamp r'
     \<and> (\<forall>v k sc' ident w c h. scope_at r' v k = Some sc' \<longrightarrow> hold sc' ident = Some w \<longrightarrow> holds r c h \<longrightarrow> at_id h = ident
          \<longrightarrow> av_floor (rg_vaults r' v) = av_floor (rg_vaults r v) \<and> av_root (rg_vaults r' v) = av_root (rg_vaults r v)
              \<and> (\<exists>sc. scope_at r v k = Some sc \<and> hold sc ident = Some w \<and> ls_init sc' = ls_init sc \<and> ls_context sc' = ls_context sc))
     \<and> (\<forall>v k sc' x. scope_at r' v k = Some sc' \<longrightarrow> ls_context sc' = Some x
          \<longrightarrow> av_floor (rg_vaults r' v) = av_floor (rg_vaults r v) \<and> av_root (rg_vaults r' v) = av_root (rg_vaults r v)
              \<and> (\<exists>sc. scope_at r v k = Some sc \<and> ls_context sc = Some x
                   \<and> (rg_contexts r' x = rg_contexts r x \<and> (scope_watching sc \<longrightarrow> scope_watching sc')
                      \<or> rg_contexts r' x = stop_watcher (rg_contexts r x) \<and> \<not> scope_watching sc')))
     \<and> (\<forall>x < rg_next_context r. \<not> vc_active (rg_contexts r x) \<longrightarrow> rg_contexts r' x = rg_contexts r x)
     \<and> (\<forall>x < rg_next_context r. vc_active (rg_contexts r x) \<longrightarrow> vc_active (rg_contexts r' x))"

lemma frame_refl: "frame r r"
  by (auto simp: frame_def)

lemma holder_holds: "holder_of grant (rg_connections r c) = Some h \<Longrightarrow> phase_grant (cn_phase (rg_connections r c)) = grant \<Longrightarrow> holds r c h"
  by (auto simp: holder_of_def holds_def split: option.splits)

lemma frame_lease:
  assumes f: "frame r r'" and l: "lease po r c v grant i ex P" and g: "phase_grant (cn_phase (rg_connections r c)) = grant"
    and P: "\<And>h sc sc' w. holds r c h \<Longrightarrow> scope_at r v (at_scope h) = Some sc \<Longrightarrow> scope_at r' v (at_scope h) = Some sc'
      \<Longrightarrow> hold sc (at_id h) = Some w \<Longrightarrow> hold sc' (at_id h) = Some w \<Longrightarrow> ls_context sc' = ls_context sc \<Longrightarrow> P sc w \<Longrightarrow> P' sc' w"
  shows "lease po r' c v grant i ex P'"
proof -
  from l obtain h where h: "holder_of grant (rg_connections r c) = Some h" and i: "i < rg_next_stamp r"
    and ok: "\<And>sc w. scope_at r v (at_scope h) = Some sc \<Longrightarrow> hold sc (at_id h) = Some w
      \<Longrightarrow> ls_init sc = i \<and> policy_ok po (rg_vaults r v) (at_scope h) ex \<and> P sc w"
    unfolding lease_def by blast
  have hc: "holds r c h" by (rule holder_holds [OF h g])
  have "ls_init sc' = i \<and> policy_ok po (rg_vaults r' v) (at_scope h) ex \<and> P' sc' w"
    if s': "scope_at r' v (at_scope h) = Some sc'" "hold sc' (at_id h) = Some w" for sc' w
  proof -
    from f s' hc obtain sc where fl: "av_floor (rg_vaults r' v) = av_floor (rg_vaults r v)" "av_root (rg_vaults r' v) = av_root (rg_vaults r v)"
      and sc: "scope_at r v (at_scope h) = Some sc" "hold sc (at_id h) = Some w" "ls_init sc' = ls_init sc" "ls_context sc' = ls_context sc"
      unfolding frame_def by blast
    from ok [OF sc(1,2)] P [OF hc sc(1) s'(1) sc(2) s'(2) sc(4)] sc(3) show ?thesis by (simp add: policy_ok_def fl)
  qed
  with f h i show ?thesis unfolding lease_def frame_def by (metis order_less_le_trans)
qed


lemma contexts_okD:
  assumes "contexts_ok po r" and "scope_at r v k = Some sc" and "ls_context sc = Some x"
  shows "x < rg_next_context r" "vc_live (rg_contexts r x)" "vc_active (rg_contexts r x)"
    "vc_watching (rg_contexts r x) \<Longrightarrow> scope_watching sc" "vc_root (rg_contexts r x) = av_root (rg_vaults r v)"
    "policy_ok po (rg_vaults r v) k (vc_exclude (rg_contexts r x))"
  using assms unfolding contexts_ok_def by blast+

lemma stop_watcher_simps [simp]:
  "vc_watching (stop_watcher ctx) = False" "vc_live (stop_watcher ctx) = vc_live ctx" "vc_active (stop_watcher ctx) = vc_active ctx"
  "vc_root (stop_watcher ctx) = vc_root ctx" "vc_exclude (stop_watcher ctx) = vc_exclude ctx"
  by (simp_all add: stop_watcher_def)

lemma frame_context:
  assumes "frame r r'" and "scope_at r' v k = Some sc'" and "ls_context sc' = Some x"
  obtains sc where "av_floor (rg_vaults r' v) = av_floor (rg_vaults r v)" "av_root (rg_vaults r' v) = av_root (rg_vaults r v)"
    "scope_at r v k = Some sc" "ls_context sc = Some x"
    "rg_contexts r' x = rg_contexts r x \<and> (scope_watching sc \<longrightarrow> scope_watching sc')
      \<or> rg_contexts r' x = stop_watcher (rg_contexts r x) \<and> \<not> scope_watching sc'"
  using assms unfolding frame_def by blast

lemma frame_watched:
  assumes "frame r r'" and "scope_at r' v k = Some sc'" and "ls_context sc' = Some x"
    and "hold sc' ident = Some True" and "vc_watching (rg_contexts r x)"
  shows "vc_watching (rg_contexts r' x)"
  using frame_context [OF assms(1-3)] scope_watchingI [OF assms(4)] assms(5) by metis

lemma frame_contexts:
  assumes f: "frame r r'" and ok: "contexts_ok po r"
  shows "contexts_ok po r'"
proof -
  have one: "x < rg_next_context r' \<and> vc_live (rg_contexts r' x) \<and> vc_active (rg_contexts r' x)
      \<and> (vc_watching (rg_contexts r' x) \<longrightarrow> scope_watching sc') \<and> vc_root (rg_contexts r' x) = av_root (rg_vaults r' v)
      \<and> policy_ok po (rg_vaults r' v) k (vc_exclude (rg_contexts r' x))"
    if s: "scope_at r' v k = Some sc'" "ls_context sc' = Some x" for v k sc' x
  proof -
    obtain sc where fl: "av_floor (rg_vaults r' v) = av_floor (rg_vaults r v)" "av_root (rg_vaults r' v) = av_root (rg_vaults r v)"
      and sc: "scope_at r v k = Some sc" "ls_context sc = Some x"
      and ch: "rg_contexts r' x = rg_contexts r x \<and> (scope_watching sc \<longrightarrow> scope_watching sc')
        \<or> rg_contexts r' x = stop_watcher (rg_contexts r x) \<and> \<not> scope_watching sc'" by (rule frame_context [OF f s])
    have "rg_next_context r \<le> rg_next_context r'" using f unfolding frame_def by blast
    with contexts_okD [OF ok sc] ch fl show ?thesis by (auto simp: policy_ok_def)
  qed
  have two: "v = v' \<and> k = k'"
    if b: "scope_at r' v k = Some sc" "scope_at r' v' k' = Some sc'" "ls_context sc = Some x" "ls_context sc' = Some x"
    for v k sc v' k' sc' x
  proof -
    obtain s where s: "scope_at r v k = Some s" "ls_context s = Some x" by (rule frame_context [OF f b(1,3)])
    obtain s' where s': "scope_at r v' k' = Some s'" "ls_context s' = Some x" by (rule frame_context [OF f b(2,4)])
    from ok s s' show ?thesis unfolding contexts_ok_def by blast
  qed
  from one two show ?thesis unfolding contexts_ok_def by blast
qed

lemma frame_connections: "frame r r' \<Longrightarrow> rg_connections r' = rg_connections r"
  by (simp add: frame_def)

lemma frame_inactive:
  "frame r r' \<Longrightarrow> x < rg_next_context r \<Longrightarrow> \<not> vc_active (rg_contexts r x) \<Longrightarrow> rg_contexts r' x = rg_contexts r x"
  unfolding frame_def by blast

lemma frame_start_seen:
  assumes f: "frame r r'" and s': "scope_at r' v k = Some sc'" "hold sc' ident = Some w" and c: "ls_context sc' = ls_context sc"
    and seen: "start_seen r context start sc w"
  shows "start_seen r' context start sc' w"
  using seen frame_watched [OF f s'(1)] s'(2) c unfolding start_seen_def by auto

lemma frame_open_seen:
  assumes f: "frame r r'" and ok: "contexts_ok po r" and x: "x < rg_next_context r"
    and s': "scope_at r' v k = Some sc'" "hold sc' ident = Some w" and c: "ls_context sc' = ls_context sc"
    and root: "av_root (rg_vaults r' v) = av_root (rg_vaults r v)" and seen: "open_seen r v ex x pending sc w"
  shows "open_seen r' v ex x pending sc' w"
proof (cases "ls_context sc = Some x")
  case True
  with seen frame_watched [OF f s'(1)] s'(2) c show ?thesis unfolding open_seen_def by auto
next
  case False
  with seen have "\<not> vc_active (rg_contexts r x)" unfolding open_seen_def by blast
  from frame_inactive [OF f x this] seen c root False show ?thesis unfolding open_seen_def by simp
qed

lemma frame_seen:
  assumes f: "frame r r'" and "seen_context r ctx"
  shows "seen_context r' ctx"
proof -
  have n: "rg_next_context r \<le> rg_next_context r'"
    and a: "\<forall>x < rg_next_context r. vc_active (rg_contexts r x) \<longrightarrow> vc_active (rg_contexts r' x)"
    using f unfolding frame_def by blast+
  show ?thesis unfolding seen_context_def
  proof (intro allI impI)
    fix x assume "ctx = Some x"
    with assms(2) have "x < rg_next_context r" "vc_active (rg_contexts r x)" unfolding seen_context_def by blast+
    with n a show "x < rg_next_context r' \<and> vc_active (rg_contexts r' x)" by simp
  qed
qed

lemma frame_phase:
  assumes f: "frame r r'" and ok: "contexts_ok po r" and p: "phase_ok po r c"
  shows "phase_ok po r' c"
proof (cases "cn_phase (rg_connections r c)")
  case (Reserved v ex grant i)
  with p frame_lease [OF f, of po c v grant i ex "\<lambda>_ _. True" "\<lambda>_ _. True"] show ?thesis
    by (simp add: phase_ok_def frame_connections [OF f] phase_grant_def)
next
  case (Initializing v ex grant i ctx wants)
  with p have l: "lease po r c v grant i ex (\<lambda>sc w. ls_context sc = ctx \<and> (w \<longrightarrow> wants))" and seen: "seen_context r ctx"
    by (simp_all add: phase_ok_def)
  have "lease po r' c v grant i ex (\<lambda>sc w. ls_context sc = ctx \<and> (w \<longrightarrow> wants))"
    by (rule frame_lease [OF f l]) (simp_all add: Initializing phase_grant_def)
  with Initializing frame_seen [OF f seen] show ?thesis by (simp add: phase_ok_def frame_connections [OF f])
next
  case (Starting v ex grant i ctx start)
  with p have l: "lease po r c v grant i ex (start_seen r ctx start)" and seen: "seen_context r ctx" by (simp_all add: phase_ok_def)
  have "lease po r' c v grant i ex (start_seen r' ctx start)"
    by (rule frame_lease [OF f l]) (simp_all add: Starting phase_grant_def frame_start_seen [OF f])
  with Starting frame_seen [OF f seen] show ?thesis by (simp add: phase_ok_def frame_connections [OF f])
next
  case (Opened v ex grant i x pending)
  with p have l: "lease po r c v grant i ex (open_seen r v ex x pending)" and x: "x < rg_next_context r"
    by (simp_all add: phase_ok_def)
  have "lease po r' c v grant i ex (open_seen r' v ex x pending)"
  proof (rule frame_lease [OF f l])
    show "phase_grant (cn_phase (rg_connections r c)) = grant" by (simp add: Opened phase_grant_def)
    fix h sc sc' w
    assume h: "holds r c h" "scope_at r' v (at_scope h) = Some sc'" "hold sc' (at_id h) = Some w"
      "ls_context sc' = ls_context sc" "open_seen r v ex x pending sc w"
    then have "av_root (rg_vaults r' v) = av_root (rg_vaults r v)" using f unfolding frame_def by blast
    with frame_open_seen [OF f ok x h(2-4)] h(5) show "open_seen r' v ex x pending sc' w" by blast
  qed
  moreover have "x < rg_next_context r'" using f x unfolding frame_def by (metis order_less_le_trans)
  ultimately show ?thesis using Opened by (simp add: phase_ok_def frame_connections [OF f])
qed (simp_all add: phase_ok_def frame_connections [OF f])

lemma frame_attached:
  assumes f: "frame r r'" and ok: "attached_ok r"
  shows "attached_ok r'"
  unfolding attached_ok_def
proof (intro allI impI)
  fix c h sc' w
  assume a: "cn_attachment (rg_connections r' c) = Some h" and s': "scope_at r' (at_vault h) (at_scope h) = Some sc'" "hold sc' (at_id h) = Some w"
  have "holds r c h" using a by (simp add: holds_def frame_connections [OF f])
  with f s' obtain sc where sc: "scope_at r (at_vault h) (at_scope h) = Some sc" "hold sc (at_id h) = Some w" "ls_context sc' = ls_context sc"
    unfolding frame_def by blast
  with ok a obtain x where x: "ls_context sc = Some x" "w \<longrightarrow> vc_watching (rg_contexts r x)"
    unfolding attached_ok_def frame_connections [OF f] by blast
  with frame_watched [OF f s'(1)] s'(2) sc(3) show "\<exists>x. ls_context sc' = Some x \<and> (w \<longrightarrow> vc_watching (rg_contexts r' x))" by auto
qed

lemma frame_opened:
  assumes f: "frame r r'" and ok: "opened_ok r" and p: "\<And>c. phase_ok po r c"
  shows "opened_ok r'"
  unfolding opened_ok_def frame_connections [OF f]
proof (intro allI impI)
  fix c d x
  assume o: "opened_context (cn_phase (rg_connections r c)) = Some x" "opened_context (cn_phase (rg_connections r d)) = Some x"
    and n: "\<not> vc_active (rg_contexts r' x)"
  have "x < rg_next_context r" using p [of c] o(1) by (auto simp: phase_ok_def opened_context_def split: Phase.splits)
  with f n have "\<not> vc_active (rg_contexts r x)" unfolding frame_def by blast
  with ok o show "c = d" unfolding opened_ok_def by blast
qed

lemma frame_serve: "frame r r' \<Longrightarrow> serve_ok po r \<Longrightarrow> serve_ok po r'"
  unfolding serve_ok_def
  by (intro conjI allI) (blast intro: frame_contexts, blast intro: frame_phase, blast intro: frame_opened, blast intro: frame_attached)


section \<open>What the elementary updates change\<close>

lemmas registry_updates = set_vault_def set_context_def set_phase_def scopes_of_def

lemma context_retire_idem [simp]: "context_retire (context_retire ctx) = context_retire ctx"
  by (simp add: context_retire_def)

lemma fold_retire:
  "fold (\<lambda>x. set_context x context_retire) xs r =
     r \<lparr> rg_contexts := (\<lambda>x. if x \<in> set xs then context_retire (rg_contexts r x) else rg_contexts r x) \<rparr>"
  by (induction xs arbitrary: r) (auto simp: set_context_def fun_eq_iff)

lemma set_retired: "distinct (map fst al) \<Longrightarrow> x \<in> set (List.map_filter (ls_context \<circ> snd) al) \<longleftrightarrow> (\<exists>k sc. map_of al k = Some sc \<and> ls_context sc = Some x)"
  by (force simp: List.map_filter_def image_iff)

lemma retire_all_simps [simp]:
  "rg_vaults (retire_all v r) = (rg_vaults r)(v := (rg_vaults r v) \<lparr> av_scopes := [], av_floor := None \<rparr>)"
  "rg_connections (retire_all v r) = rg_connections r" "rg_roots (retire_all v r) = rg_roots r"
  "rg_closed (retire_all v r) = rg_closed r" "rg_closing (retire_all v r) = rg_closing r"
  "rg_next_vault (retire_all v r) = rg_next_vault r" "rg_next_context (retire_all v r) = rg_next_context r"
  "rg_next_stamp (retire_all v r) = rg_next_stamp r" "rg_init_owner (retire_all v r) = rg_init_owner r"
  by (simp_all add: retire_all_def fold_retire set_vault_def)

lemma retire_all_contexts:
  "rg_contexts (retire_all v r) x =
    (if x \<in> set (List.map_filter (ls_context \<circ> snd) (scopes_of r v)) then context_retire (rg_contexts r x) else rg_contexts r x)"
  by (simp add: retire_all_def fold_retire set_vault_def)

lemma retire_all_scopes: "scope_at (retire_all v r) u k = (if u = v then None else scope_at r u k)"
  by (simp add: scope_at_def scopes_of_def)

lemma retire_all_frame:
  assumes t: "tables_ok r" and ok: "contexts_ok po r"
  shows "frame r (retire_all v r)"
proof -
  have retired: "x \<in> set (List.map_filter (ls_context \<circ> snd) (scopes_of r v)) \<longleftrightarrow> (\<exists>k sc. scope_at r v k = Some sc \<and> ls_context sc = Some x)" for x
    using t by (simp add: set_retired scope_at_def tables_ok_def)
  have other: "rg_contexts (retire_all v r) x = rg_contexts r x" if "scope_at r u k = Some sc" "ls_context sc = Some x" "u \<noteq> v" for u k sc x
  proof -
    have "\<not> (\<exists>k sc. scope_at r v k = Some sc \<and> ls_context sc = Some x)"
      using ok that unfolding contexts_ok_def by blast
    then show ?thesis unfolding retire_all_contexts retired by (rule if_not_P)
  qed
  have inactive: "rg_contexts (retire_all v r) x = rg_contexts r x" if "\<not> vc_active (rg_contexts r x)" for x
    using that contexts_okD(3) [OF ok] by (auto simp: retire_all_contexts retired)
  have active: "vc_active (rg_contexts (retire_all v r) x) = vc_active (rg_contexts r x)" for x
    by (simp add: retire_all_contexts context_retire_def)
  show ?thesis unfolding frame_def
    by (auto simp: retire_all_scopes other inactive active split: if_splits)
qed

lemma holds_same: "rg_connections r' = rg_connections r \<Longrightarrow> holds r' = holds r"
  by (simp add: holds_def fun_eq_iff)

lemma referenced_same: "rg_connections r' = rg_connections r \<Longrightarrow> referenced r' = referenced r"
  by (simp add: referenced_def holds_def fun_eq_iff)

lemma retire_all_struct: "struct_ok r \<Longrightarrow> struct_ok (retire_all v r)"
  by (auto simp: struct_ok_def tables_ok_def holders_ok_def grants_ok_def roots_ok_def locks_ok_def closing_ok_def
      retire_all_scopes holds_same [of "retire_all v r" r] referenced_same [of "retire_all v r" r] scopes_of_def split: if_splits)


text \<open>Updates of a vault that leave its root, floor and scopes.\<close>

lemma frame_quiet:
  assumes "rg_connections r' = rg_connections r" and "rg_contexts r' = rg_contexts r"
    and "rg_next_context r' = rg_next_context r" and "rg_next_stamp r \<le> rg_next_stamp r'"
    and "\<And>v. scopes_of r' v = scopes_of r v"
    and "\<And>v. scopes_of r v \<noteq> [] \<Longrightarrow> av_floor (rg_vaults r' v) = av_floor (rg_vaults r v) \<and> av_root (rg_vaults r' v) = av_root (rg_vaults r v)"
  shows "frame r r'"
proof -
  have "scopes_of r v \<noteq> []" if "scope_at r v k = Some sc" for v k sc using that by (auto simp: scope_at_def)
  with assms show ?thesis unfolding frame_def scope_at_def by auto
qed

lemma scope_at_referenced:
  assumes "struct_ok r" and "scope_at r v k = Some sc"
  shows "referenced r v"
proof -
  from assms have "ls_holders sc \<noteq> []" by (simp add: struct_ok_def tables_ok_def)
  then obtain p where "p \<in> set (ls_holders sc)" by (cases "ls_holders sc") auto
  then have "hold sc (fst p) \<noteq> None" by (simp add: hold_def map_of_eq_None_iff)
  with assms obtain c where "holds r c \<lparr> at_vault = v, at_scope = k, at_id = fst p \<rparr>" unfolding struct_ok_def holders_ok_def by blast
  then show ?thesis unfolding referenced_def by force
qed

lemma unreferenced_empty: "struct_ok r \<Longrightarrow> \<not> referenced r v \<Longrightarrow> scopes_of r v = []"
  using scope_at_referenced [of r v "fst (hd (scopes_of r v))"] by (cases "scopes_of r v") (auto simp: scope_at_def)

lemma new_vault_simps [simp]:
  "fst (new_vault dir r) = rg_next_vault r"
  "rg_connections (snd (new_vault dir r)) = rg_connections r" "rg_contexts (snd (new_vault dir r)) = rg_contexts r"
  "rg_next_context (snd (new_vault dir r)) = rg_next_context r" "rg_next_stamp (snd (new_vault dir r)) = rg_next_stamp r"
  "rg_closed (snd (new_vault dir r)) = rg_closed r" "rg_closing (snd (new_vault dir r)) = rg_closing r"
  "rg_init_owner (snd (new_vault dir r)) = rg_init_owner r" "rg_next_vault (snd (new_vault dir r)) = Suc (rg_next_vault r)"
  "rg_roots (snd (new_vault dir r)) = AList.update (vr_path dir) (rg_next_vault r) (rg_roots r)"
  "rg_vaults (snd (new_vault dir r)) = (rg_vaults r)(rg_next_vault r :=
     \<lparr> av_root = dir, av_refreshing = None, av_replaced = False, av_floor = None, av_scopes = [] \<rparr>)"
  by (simp_all add: new_vault_def)

lemma next_vault_fresh:
  assumes "struct_ok r"
  shows "\<not> referenced r (rg_next_vault r)" and "scopes_of r (rg_next_vault r) = []"
proof -
  show n: "\<not> referenced r (rg_next_vault r)" using assms unfolding struct_ok_def roots_ok_def by blast
  show "scopes_of r (rg_next_vault r) = []" by (rule unreferenced_empty [OF assms n])
qed

lemma new_vault_scopes: "struct_ok r \<Longrightarrow> scopes_of (snd (new_vault dir r)) v = scopes_of r v"
  using next_vault_fresh(2) [of r] by (simp add: scopes_of_def)

lemma new_vault_frame: "struct_ok r \<Longrightarrow> frame r (snd (new_vault dir r))"
  using next_vault_fresh(2) [of r] by (intro frame_quiet) (auto simp: new_vault_scopes)

lemma struct_quiet:
  assumes ok: "struct_ok r" and "roots_ok r'" and conn: "rg_connections r' = rg_connections r"
    and sc: "\<And>v. scopes_of r' v = scopes_of r v" and "rg_next_stamp r \<le> rg_next_stamp r'"
    and ow: "rg_init_owner r' = rg_init_owner r" and "rg_closing r' = rg_closing r" and "rg_closed r \<longrightarrow> rg_closed r'"
  shows "struct_ok r'"
proof -
  have s: "scope_at r' = scope_at r" by (simp add: fun_eq_iff scope_at_def sc)
  have h: "holds r' = holds r" by (rule holds_same [OF conn])
  have t: "tables_ok r'" using ok by (simp add: struct_ok_def tables_ok_def sc s)
  have g: "holders_ok r'" "grants_ok r'" using ok unfolding struct_ok_def holders_ok_def grants_ok_def s h by blast+
  have "ls_init sc < rg_next_stamp r'" if "scope_at r v k = Some sc" for v k sc
    using ok that assms(5) unfolding struct_ok_def locks_ok_def by (meson order_less_le_trans)
  then have l: "locks_ok r'" using ok unfolding struct_ok_def locks_ok_def s conn ow by blast
  have "closing_ok r'" using ok assms(7,8) unfolding struct_ok_def closing_ok_def sc by simp
  with t g l assms(2) show ?thesis by (simp add: struct_ok_def)
qed

lemma new_vault_struct:
  assumes ok: "struct_ok r" and free: "\<And>v. map_of (rg_roots r) (vr_path dir) = Some v \<Longrightarrow> \<not> referenced r v"
  shows "struct_ok (snd (new_vault dir r))" (is "struct_ok ?r")
proof -
  have c: "referenced ?r = referenced r" by (rule referenced_same) simp
  have ref: "v \<noteq> rg_next_vault r \<and> v < rg_next_vault r
      \<and> (av_replaced (rg_vaults r v) \<or> map_of (rg_roots r) (vr_path (av_root (rg_vaults r v))) = Some v)" if "referenced r v" for v
    using ok that next_vault_fresh(1) [OF ok] unfolding struct_ok_def roots_ok_def by blast
  have one: "v < rg_next_vault ?r
      \<and> (av_replaced (rg_vaults ?r v) \<or> map_of (rg_roots ?r) (vr_path (av_root (rg_vaults ?r v))) = Some v)" if "referenced ?r v" for v
  proof -
    from that have v: "referenced r v" by (simp add: c)
    from ref [OF v] free [of v] v show ?thesis by (auto simp: update_conv')
  qed
  have two: "scopes_of ?r v = []" if "av_replaced (rg_vaults ?r v)" for v
    using that ok by (auto simp: struct_ok_def roots_ok_def new_vault_scopes [OF ok] split: if_splits)
  have three: "v < rg_next_vault ?r \<and> vr_path (av_root (rg_vaults ?r v)) = p" if "map_of (rg_roots ?r) p = Some v" for p v
  proof (cases "p = vr_path dir")
    case True
    with that show ?thesis by (auto simp: update_conv')
  next
    case False
    with that have "map_of (rg_roots r) p = Some v" by (simp add: update_conv')
    with ok have "v < rg_next_vault r \<and> vr_path (av_root (rg_vaults r v)) = p" unfolding struct_ok_def roots_ok_def by blast
    then show ?thesis by simp
  qed
  from one two three have "roots_ok ?r" unfolding roots_ok_def by blast
  with ok show ?thesis by (rule struct_quiet) (simp_all add: new_vault_scopes [OF ok])
qed

lemma replace_vault_simps [simp]:
  "rg_connections (replace_vault v p r) = rg_connections r" "rg_closed (replace_vault v p r) = rg_closed r"
  "rg_closing (replace_vault v p r) = rg_closing r" "rg_init_owner (replace_vault v p r) = rg_init_owner r"
  "rg_next_vault (replace_vault v p r) = rg_next_vault r" "rg_next_context (replace_vault v p r) = rg_next_context r"
  "rg_next_stamp (replace_vault v p r) = rg_next_stamp r" "rg_roots (replace_vault v p r) = AList.delete p (rg_roots r)"
  "rg_vaults (replace_vault v p r) = (rg_vaults r)(v := (rg_vaults r v) \<lparr> av_replaced := True, av_scopes := [], av_floor := None \<rparr>)"
  by (simp_all add: replace_vault_def set_vault_def Let_def)


definition registry_ok :: "('g, 's) Policies \<Rightarrow> 's Registry \<Rightarrow> bool" where
  "registry_ok po r \<longleftrightarrow> struct_ok r \<and> serve_ok po r"

lemma retire_all_ok:
  assumes "registry_ok po r"
  shows "registry_ok po (retire_all v r)"
proof -
  have "tables_ok r" "contexts_ok po r" "struct_ok r" "serve_ok po r"
    using assms by (simp_all add: registry_ok_def struct_ok_def serve_ok_def)
  then show ?thesis
    using frame_serve [OF retire_all_frame] retire_all_struct unfolding registry_ok_def by blast
qed

lemma quiet_ok:
  assumes "registry_ok po r" and "roots_ok r'" and "rg_connections r' = rg_connections r" and "rg_contexts r' = rg_contexts r"
    and "rg_next_context r' = rg_next_context r" and "rg_next_stamp r \<le> rg_next_stamp r'"
    and "rg_init_owner r' = rg_init_owner r" and "rg_closing r' = rg_closing r" and "rg_closed r \<longrightarrow> rg_closed r'"
    and "\<And>v. scopes_of r' v = scopes_of r v"
    and "\<And>v. scopes_of r v \<noteq> [] \<Longrightarrow> av_floor (rg_vaults r' v) = av_floor (rg_vaults r v) \<and> av_root (rg_vaults r' v) = av_root (rg_vaults r v)"
  shows "registry_ok po r'"
  using frame_serve [OF frame_quiet [of r' r], of po] struct_quiet [of r r'] assms by (simp add: registry_ok_def)

lemma replace_vault_eq:
  "replace_vault v p r =
    (let r = set_vault v (\<lambda>vault. vault \<lparr> av_replaced := True \<rparr>) (retire_all v r) in r \<lparr> rg_roots := AList.delete p (rg_roots r) \<rparr>)"
  by (rule Registry.Registry.equality)
     (auto simp: replace_vault_def retire_all_def fold_retire set_vault_def scopes_of_def Let_def fun_eq_iff
       intro!: AttachedVault.equality)

lemma registry_okD:
  assumes "registry_ok po r"
  shows "struct_ok r" "tables_ok r" "holders_ok r" "grants_ok r" "roots_ok r" "locks_ok r" "closing_ok r"
    "serve_ok po r" "contexts_ok po r" "phase_ok po r c" "opened_ok r" "attached_ok r"
  using assms by (simp_all add: registry_ok_def struct_ok_def serve_ok_def)

lemma replace_vault_ok:
  assumes ok: "registry_ok po r" and v: "map_of (rg_roots r) p = Some v"
  shows "registry_ok po (replace_vault v p r)" (is "registry_ok po ?r")
proof -
  have c: "referenced ?r = referenced r" by (rule referenced_same) simp
  note ro = registry_okD(5) [OF ok]
  have one: "u < rg_next_vault ?r
      \<and> (av_replaced (rg_vaults ?r u) \<or> map_of (rg_roots ?r) (vr_path (av_root (rg_vaults ?r u))) = Some u)" if "referenced ?r u" for u
  proof -
    from that have "referenced r u" by (simp add: c)
    then have "u < rg_next_vault r" "av_replaced (rg_vaults r u) \<or> map_of (rg_roots r) (vr_path (av_root (rg_vaults r u))) = Some u"
      using ro unfolding roots_ok_def by blast+
    with v show ?thesis by (cases "u = v") (auto simp: delete_conv')
  qed
  have two: "scopes_of ?r u = []" if "av_replaced (rg_vaults ?r u)" for u
    using that ro by (auto simp: roots_ok_def scopes_of_def split: if_splits)
  have three: "u < rg_next_vault ?r \<and> vr_path (av_root (rg_vaults ?r u)) = q" if "map_of (rg_roots ?r) q = Some u" for q u
    using that ro by (auto simp: roots_ok_def delete_conv' split: if_splits)
  have roots: "roots_ok ?r" using one two three unfolding roots_ok_def by blast
  show ?thesis
    by (rule quiet_ok [OF retire_all_ok [OF ok, of v] roots])
       (auto simp: replace_vault_eq Let_def set_vault_def scopes_of_def)
qed

lemma new_vault_ok:
  assumes ok: "registry_ok po r" and "\<And>v. map_of (rg_roots r) (vr_path dir) = Some v \<Longrightarrow> \<not> referenced r v"
  shows "registry_ok po (snd (new_vault dir r))"
  using new_vault_struct [OF registry_okD(1) [OF ok] assms(2)] frame_serve [OF new_vault_frame [OF registry_okD(1) [OF ok]] registry_okD(8) [OF ok]]
  by (simp add: registry_ok_def)

definition known_root :: "'s Registry \<Rightarrow> nat \<Rightarrow> bool" where
  "known_root r v \<longleftrightarrow> v < rg_next_vault r \<and> map_of (rg_roots r) (vr_path (av_root (rg_vaults r v))) = Some v"

lemma enrolled_vault_known:
  "registry_ok po r \<Longrightarrow> enrolled_vault ra dir r = Some v \<Longrightarrow> map_of (rg_roots r) (vr_path dir) = Some v \<and> known_root r v"
  by (auto simp: enrolled_vault_def roots_ok_def known_root_def dest!: registry_okD(5) split: option.splits if_splits)

lemma enroll_root_ok:
  assumes ok: "registry_ok po r" and up: "\<forall>v. referenced r v \<longrightarrow> ra_upgrade ra v"
  shows "registry_ok po (snd (enroll_root (enrolled_vault ra dir r) dir create r))
    \<and> rg_connections (snd (enroll_root (enrolled_vault ra dir r) dir create r)) = rg_connections r
    \<and> (\<forall>v. fst (enroll_root (enrolled_vault ra dir r) dir create r) = Some v
          \<longrightarrow> known_root (snd (enroll_root (enrolled_vault ra dir r) dir create r)) v)"
proof -
  let ?p = "enrolled_vault ra dir r"
  define r1 where "r1 = (case ?p of None \<Rightarrow> r | Some v \<Rightarrow> replace_vault v (vr_path dir) r)"
  have old: "registry_ok po r1"
    using ok enrolled_vault_known [OF ok] replace_vault_ok [OF ok] by (cases ?p) (simp_all add: r1_def)
  have free: "\<not> referenced r1 v" if "map_of (rg_roots r1) (vr_path dir) = Some v" for v
    using that up by (cases ?p) (auto simp: r1_def delete_conv' enrolled_vault_def split: if_splits)
  have new: "registry_ok po (snd (new_vault dir r1))" by (rule new_vault_ok [OF old free])
  have known: "known_root (snd (new_vault dir r1)) (rg_next_vault r1)" by (simp add: known_root_def update_conv')
  have conn: "rg_connections r1 = rg_connections r" by (simp add: r1_def split: option.split)
  from old new known conn show ?thesis unfolding enroll_root_def r1_def [symmetric] by (simp add: Let_def split_beta)
qed

lemma lookup_root_ok:
  assumes ok: "registry_ok po r" and up: "\<forall>v. referenced r v \<longrightarrow> ra_upgrade ra v"
  shows "registry_ok po (snd (lookup_root ra path create r))
    \<and> rg_connections (snd (lookup_root ra path create r)) = rg_connections r
    \<and> (\<forall>v. fst (lookup_root ra path create r) = Inr (Some v) \<longrightarrow> known_root (snd (lookup_root ra path create r)) v \<and> \<not> rg_closed r)"
  using ok enrolled_vault_known [OF ok, of ra] enroll_root_ok [OF ok up]
  unfolding lookup_root_def Let_def
  by (simp add: split_beta split: sum.split bool.split option.split)

section \<open>Moving a request to its next phase\<close>

lemma set_phase_simps [simp]:
  "rg_vaults (set_phase c p r) = rg_vaults r" "rg_contexts (set_phase c p r) = rg_contexts r" "rg_roots (set_phase c p r) = rg_roots r"
  "rg_closed (set_phase c p r) = rg_closed r" "rg_closing (set_phase c p r) = rg_closing r"
  "rg_next_vault (set_phase c p r) = rg_next_vault r" "rg_next_context (set_phase c p r) = rg_next_context r"
  "rg_next_stamp (set_phase c p r) = rg_next_stamp r" "rg_init_owner (set_phase c p r) = rg_init_owner r"
  "scopes_of (set_phase c p r) = scopes_of r" "scope_at (set_phase c p r) = scope_at r"
  "cn_attachment (rg_connections (set_phase c p r) d) = cn_attachment (rg_connections r d)"
  "cn_phase (rg_connections (set_phase c p r) d) = (if d = c then p else cn_phase (rg_connections r d))"
  by (auto simp: set_phase_def scopes_of_def scope_at_def fun_eq_iff)

lemma set_phase_holds: "phase_grant p = phase_grant (cn_phase (rg_connections r c)) \<Longrightarrow> holds (set_phase c p r) = holds r"
  by (auto simp: holds_def fun_eq_iff)

lemma set_phase_referenced:
  assumes "phase_grant p = phase_grant (cn_phase (rg_connections r c))" and "referenced (set_phase c p r) v"
  shows "referenced r v \<or> phase_vault p = Some v"
  using assms(2) unfolding referenced_def set_phase_holds [OF assms(1)] by (auto split: if_splits)

lemma set_phase_struct:
  assumes ok: "struct_ok r" and g: "phase_grant p = phase_grant (cn_phase (rg_connections r c))"
    and v: "\<And>v. phase_vault p = Some v \<Longrightarrow> referenced r v \<or> known_root r v"
    and l: "\<And>i. phase_lock p = Some i \<Longrightarrow> rg_init_owner r i = Some c"
  shows "struct_ok (set_phase c p r)" (is "struct_ok ?r")
proof -
  note h = set_phase_holds [OF g]
  have t: "tables_ok ?r" "holders_ok ?r" "grants_ok ?r" "closing_ok ?r"
    using ok by (simp_all add: struct_ok_def tables_ok_def holders_ok_def grants_ok_def closing_ok_def h)
  have one: "u < rg_next_vault r \<and> (av_replaced (rg_vaults r u) \<or> map_of (rg_roots r) (vr_path (av_root (rg_vaults r u))) = Some u)"
    if "referenced ?r u" for u
  proof (cases "referenced r u")
    case True
    with ok show ?thesis unfolding struct_ok_def roots_ok_def by blast
  next
    case False
    with set_phase_referenced [OF g that] v show ?thesis by (auto simp: known_root_def)
  qed
  from ok one have ro: "roots_ok ?r" unfolding struct_ok_def roots_ok_def by simp
  from ok l have lo: "locks_ok ?r" by (simp add: struct_ok_def locks_ok_def)
  from t ro lo show ?thesis by (simp add: struct_ok_def)
qed

lemma set_phase_other: "d \<noteq> c \<Longrightarrow> rg_connections (set_phase c p r) d = rg_connections r d"
  by (simp add: set_phase_def)

lemma phase_ok_other: "d \<noteq> c \<Longrightarrow> phase_ok po (set_phase c p r) d = phase_ok po r d"
  by (simp add: set_phase_other phase_ok_def lease_def holder_of_def seen_context_def start_seen_def [abs_def] open_seen_def [abs_def] split: Phase.split)

lemma set_phase_serve:
  assumes ok: "serve_ok po r" and p: "phase_ok po (set_phase c p r) c"
    and o: "\<And>d x. opened_context p = Some x \<Longrightarrow> d \<noteq> c \<Longrightarrow> opened_context (cn_phase (rg_connections r d)) = Some x \<Longrightarrow> vc_active (rg_contexts r x)"
  shows "serve_ok po (set_phase c p r)"
proof -
  have "phase_ok po (set_phase c p r) d" for d using ok p by (cases "d = c") (simp_all add: phase_ok_other serve_ok_def)
  moreover have "opened_ok (set_phase c p r)"
    using ok o unfolding serve_ok_def opened_ok_def by (auto split: if_splits)
  ultimately show ?thesis using ok by (simp add: serve_ok_def contexts_ok_def attached_ok_def)
qed

lemma set_phase_ok:
  assumes "registry_ok po r" and "phase_grant p = phase_grant (cn_phase (rg_connections r c))"
    and "\<And>v. phase_vault p = Some v \<Longrightarrow> referenced r v \<or> known_root r v"
    and "\<And>i. phase_lock p = Some i \<Longrightarrow> rg_init_owner r i = Some c" and "phase_ok po (set_phase c p r) c"
    and "\<And>d x. opened_context p = Some x \<Longrightarrow> d \<noteq> c \<Longrightarrow> opened_context (cn_phase (rg_connections r d)) = Some x \<Longrightarrow> vc_active (rg_contexts r x)"
  shows "registry_ok po (set_phase c p r)"
  using set_phase_struct [of r p c] set_phase_serve [of po r c p] assms by (simp add: registry_ok_def)

lemma phase_referenced: "phase_vault (cn_phase (rg_connections r c)) = Some v \<Longrightarrow> referenced r v"
  unfolding referenced_def by blast

lemmas phase_parts = phase_grant_def phase_vault_def phase_lock_def opened_context_def

lemma attach_begin_ok:
  assumes ok: "registry_ok po r" and idle: "cn_phase (rg_connections r c) = Idle" and up: "\<forall>v. referenced r v \<longrightarrow> ra_upgrade ra v"
  shows "registry_ok po (snd (attach_begin po show_nat ra path watch model descriptor c r))"
proof -
  let ?r = "snd (lookup_root ra path True r)"
  note l = lookup_root_ok [OF ok up, of path True]
  have "registry_ok po (set_phase c (Waiting v watch rules) ?r)" if "fst (lookup_root ra path True r) = Inr (Some v)" for v rules
    using l that idle by (intro set_phase_ok) (auto simp: phase_parts phase_ok_def)
  with l ok show ?thesis
    by (cases "lookup_root ra path True r") (auto simp: attach_begin_def split: sum.split option.split)
qed

lemma set_vault_refreshing_ok:
  assumes ok: "registry_ok po r"
  shows "registry_ok po (set_vault v (\<lambda>vault. vault \<lparr> av_refreshing := x \<rparr>) r)" (is "registry_ok po ?r")
proof -
  have "referenced ?r = referenced r" by (rule referenced_same) (simp add: set_vault_def)
  then have "roots_ok ?r" using registry_okD(5) [OF ok] by (simp add: roots_ok_def set_vault_def scopes_of_def)
  with ok show ?thesis by (rule quiet_ok) (simp_all add: set_vault_def scopes_of_def)
qed

lemma attach_lock_floor_ok:
  assumes ok: "registry_ok po r"
  shows "registry_ok po (attach_lock_floor c r)"
proof (cases "cn_phase (rg_connections r c)")
  case (Waiting v watch rules)
  let ?r = "set_vault v (\<lambda>vault. vault \<lparr> av_refreshing := Some c \<rparr>) r"
  have c: "rg_connections ?r = rg_connections r" by (simp add: set_vault_def)
  have "referenced ?r v" by (rule phase_referenced [of _ c]) (simp add: c Waiting phase_vault_def)
  then have "registry_ok po (set_phase c (Loading v watch rules) ?r)"
    using Waiting by (intro set_phase_ok set_vault_refreshing_ok ok) (auto simp: phase_parts phase_ok_def c)
  with Waiting show ?thesis by (simp add: attach_lock_floor_def)
qed (simp_all add: attach_lock_floor_def ok)


section \<open>Reserving\<close>

lemma unlock_floor_simps [simp]:
  "rg_connections (unlock_floor v r) = rg_connections r" "rg_contexts (unlock_floor v r) = rg_contexts r"
  "rg_roots (unlock_floor v r) = rg_roots r" "rg_closed (unlock_floor v r) = rg_closed r" "rg_closing (unlock_floor v r) = rg_closing r"
  "rg_next_vault (unlock_floor v r) = rg_next_vault r" "rg_next_context (unlock_floor v r) = rg_next_context r"
  "rg_next_stamp (unlock_floor v r) = rg_next_stamp r" "rg_init_owner (unlock_floor v r) = rg_init_owner r"
  "scopes_of (unlock_floor v r) = scopes_of r" "scope_at (unlock_floor v r) = scope_at r"
  "av_root (rg_vaults (unlock_floor v r) u) = av_root (rg_vaults r u)"
  "av_replaced (rg_vaults (unlock_floor v r) u) = av_replaced (rg_vaults r u)"
  "av_floor (rg_vaults (unlock_floor v r) u) = av_floor (rg_vaults r u)"
  by (auto simp: unlock_floor_def set_vault_def scopes_of_def scope_at_def fun_eq_iff)

lemma unlock_floor_policy [simp]: "policy_ok po (rg_vaults (unlock_floor v r) u) k ex = policy_ok po (rg_vaults r u) k ex"
  by (simp add: policy_ok_def)

lemma unlock_floor_ok: "registry_ok po r \<Longrightarrow> registry_ok po (unlock_floor v r)"
  unfolding unlock_floor_def by (rule set_vault_refreshing_ok)

lemma floor_merged_patterns: "patterns a = patterns b \<Longrightarrow> floor_merged po a = floor_merged po b"
  by (simp add: floor_merged_def ExcludeSet_merged_def fun_eq_iff)

lemma next_stamp_ok:
  assumes ok: "registry_ok po r"
  shows "registry_ok po (r \<lparr> rg_next_stamp := Suc (rg_next_stamp r) \<rparr>)" (is "registry_ok po ?r")
proof -
  have "referenced ?r = referenced r" by (rule referenced_same) simp
  then have "roots_ok ?r" using registry_okD(5) [OF ok] by (simp add: roots_ok_def scopes_of_def)
  with ok show ?thesis by (rule quiet_ok) (simp_all add: scopes_of_def)
qed

lemma set_floor_ok:
  assumes ok: "registry_ok po r" and e: "scopes_of r v = []"
  shows "registry_ok po (set_vault v (\<lambda>vault. vault \<lparr> av_floor := f \<rparr>) r)" (is "registry_ok po ?r")
proof -
  have "referenced ?r = referenced r" by (rule referenced_same) (simp add: set_vault_def)
  then have "roots_ok ?r" using registry_okD(5) [OF ok] by (simp add: roots_ok_def set_vault_def scopes_of_def)
  with ok show ?thesis using e by (rule_tac quiet_ok) (auto simp: set_vault_def scopes_of_def)
qed

definition fresh_floor :: "nat \<Rightarrow> 's ExcludeSet \<Rightarrow> 's Registry \<Rightarrow> 's Registry" where
  "fresh_floor v base r =
     set_vault v (\<lambda>vault. vault \<lparr> av_floor := Some (rg_next_stamp r, base) \<rparr>) (retire_all v (r \<lparr> rg_next_stamp := Suc (rg_next_stamp r) \<rparr>))"

lemma fresh_floor_ok: "registry_ok po r \<Longrightarrow> registry_ok po (fresh_floor v base r)"
  unfolding fresh_floor_def by (intro set_floor_ok retire_all_ok next_stamp_ok) (simp_all add: scopes_of_def)

lemma apply_floor_cases:
  "apply_floor v base r = fresh_floor v base r
   \<or> apply_floor v base r = r \<and> (\<exists>stamp previous. av_floor (rg_vaults r v) = Some (stamp, previous) \<and> patterns previous = patterns base)"
  by (auto simp: apply_floor_def fresh_floor_def split: option.split prod.split)

lemma apply_floor_ok: "registry_ok po r \<Longrightarrow> registry_ok po (apply_floor v base r)"
  using apply_floor_cases [of v base r] fresh_floor_ok by metis

lemma apply_floor_simps [simp]:
  "rg_connections (apply_floor v base r) = rg_connections r" "rg_closed (apply_floor v base r) = rg_closed r"
  "av_replaced (rg_vaults (apply_floor v base r) u) = av_replaced (rg_vaults r u)"
  "av_root (rg_vaults (apply_floor v base r) u) = av_root (rg_vaults r u)"
  using apply_floor_cases [of v base r] by (auto simp: fresh_floor_def set_vault_def split: if_splits)

lemma apply_floor_policy:
  assumes "floor_merged po base rules = Inr ex"
  shows "policy_ok po (rg_vaults (apply_floor v base r) v) (policy_scope po (av_root (rg_vaults r v)) ex) ex"
  using apply_floor_cases [of v base r]
proof (elim disjE conjE exE)
  assume "apply_floor v base r = fresh_floor v base r"
  with assms show ?thesis by (auto simp: policy_ok_def fresh_floor_def set_vault_def)
next
  fix stamp previous
  assume "apply_floor v base r = r" "av_floor (rg_vaults r v) = Some (stamp, previous)" "patterns previous = patterns base"
  with assms floor_merged_patterns [of previous base po] show ?thesis by (auto simp: policy_ok_def)
qed

definition with_holder :: "nat \<Rightarrow> str \<Rightarrow> str \<Rightarrow> bool \<Rightarrow> 's Registry \<Rightarrow> LiveScope" where
  "with_holder v sid ident watch r =
     (let sc = (case scope_at r v sid of Some sc \<Rightarrow> sc | None \<Rightarrow> \<lparr> ls_init = rg_next_stamp r, ls_context = None, ls_holders = [] \<rparr>)
      in sc \<lparr> ls_holders := AList.update ident watch (ls_holders sc) \<rparr>)"

lemma add_holder_simps [simp]:
  "fst (add_holder v sid ident watch r) = ls_init (with_holder v sid ident watch r)"
  "rg_connections (snd (add_holder v sid ident watch r)) = rg_connections r"
  "rg_contexts (snd (add_holder v sid ident watch r)) = rg_contexts r" "rg_roots (snd (add_holder v sid ident watch r)) = rg_roots r"
  "rg_closed (snd (add_holder v sid ident watch r)) = rg_closed r" "rg_closing (snd (add_holder v sid ident watch r)) = rg_closing r"
  "rg_next_vault (snd (add_holder v sid ident watch r)) = rg_next_vault r"
  "rg_next_context (snd (add_holder v sid ident watch r)) = rg_next_context r"
  "rg_next_stamp (snd (add_holder v sid ident watch r)) = Suc (rg_next_stamp r)"
  "rg_init_owner (snd (add_holder v sid ident watch r)) = rg_init_owner r"
  "av_root (rg_vaults (snd (add_holder v sid ident watch r)) u) = av_root (rg_vaults r u)"
  "av_replaced (rg_vaults (snd (add_holder v sid ident watch r)) u) = av_replaced (rg_vaults r u)"
  "av_floor (rg_vaults (snd (add_holder v sid ident watch r)) u) = av_floor (rg_vaults r u)"
  "scopes_of (snd (add_holder v sid ident watch r)) u =
     (if u = v then AList.update sid (with_holder v sid ident watch r) (scopes_of r v) else scopes_of r u)"
  by (simp_all add: add_holder_def with_holder_def Let_def set_vault_def scopes_of_def scope_at_def)

lemma add_holder_policy [simp]: "policy_ok po (rg_vaults (snd (add_holder v sid ident watch r)) u) k ex = policy_ok po (rg_vaults r u) k ex"
  by (simp add: policy_ok_def)

lemma add_holder_scope [simp]:
  "scope_at (snd (add_holder v sid ident watch r)) u k =
     (if u = v \<and> k = sid then Some (with_holder v sid ident watch r) else scope_at r u k)"
  by (simp add: scope_at_def update_conv')

lemma with_holder_simps [simp]:
  "hold (with_holder v sid ident watch r) x = (if x = ident then Some watch else Option.bind (scope_at r v sid) (\<lambda>sc. hold sc x))"
  "ls_context (with_holder v sid ident watch r) = Option.bind (scope_at r v sid) ls_context"
  "ls_init (with_holder v sid ident watch r) = (case scope_at r v sid of Some sc \<Rightarrow> ls_init sc | None \<Rightarrow> rg_next_stamp r)"
  by (simp_all add: with_holder_def Let_def hold_def update_conv' split: option.split)


lemma fresh_not_held:
  assumes ok: "registry_ok po r" and fresh: "\<And>d h. holds r d h \<Longrightarrow> at_id h \<noteq> ident" and "scope_at r v k = Some sc"
  shows "hold sc ident = None"
proof (rule ccontr)
  assume "hold sc ident \<noteq> None"
  with registry_okD(3) [OF ok] assms(3) obtain c where "holds r c \<lparr> at_vault = v, at_scope = k, at_id = ident \<rparr>"
    unfolding holders_ok_def by blast
  from fresh [OF this] show False by simp
qed

lemma with_holder_tables:
  assumes "tables_ok r"
  shows "distinct (map fst (ls_holders (with_holder v sid ident watch r)))" "ls_holders (with_holder v sid ident watch r) \<noteq> []"
proof -
  show "distinct (map fst (ls_holders (with_holder v sid ident watch r)))"
    using assms by (auto simp: with_holder_def Let_def tables_ok_def intro!: distinct_update split: option.split)
  have "hold (with_holder v sid ident watch r) ident = Some watch" by simp
  then show "ls_holders (with_holder v sid ident watch r) \<noteq> []" by (auto simp: hold_def)
qed

lemma add_holder_frame:
  assumes ok: "registry_ok po r" and fresh: "\<And>d h. holds r d h \<Longrightarrow> at_id h \<noteq> ident"
  shows "frame r (snd (add_holder v sid ident watch r))" (is "frame r ?r")
proof -
  have w: "scope_watching (with_holder v sid ident watch r)" if s: "scope_at r v sid = Some sc" "scope_watching sc" for sc
  proof -
    have "distinct (map fst (ls_holders sc))" using registry_okD(2) [OF ok] s(1) by (simp add: tables_ok_def)
    with s(2) obtain x where x: "hold sc x = Some True" by (auto simp: scope_watching_iff)
    moreover have "x \<noteq> ident" using x fresh_not_held [OF ok fresh s(1)] by auto
    ultimately have "hold (with_holder v sid ident watch r) x = Some True" using s(1) by simp
    then show ?thesis by (rule scope_watchingI)
  qed
  have kept: "\<exists>sc. scope_at r u k = Some sc \<and> hold sc x = Some b \<and> ls_init sc' = ls_init sc \<and> ls_context sc' = ls_context sc"
    if "scope_at ?r u k = Some sc'" "hold sc' x = Some b" "x \<noteq> ident" for u k sc' x b
    using that by (auto split: if_splits bind_splits simp: bind_eq_Some_conv)
  have ctx: "\<exists>sc. scope_at r u k = Some sc \<and> ls_context sc = Some x \<and> (scope_watching sc \<longrightarrow> scope_watching sc')"
    if "scope_at ?r u k = Some sc'" "ls_context sc' = Some x" for u k sc' x
    using that w by (auto split: if_splits simp: bind_eq_Some_conv)
  have all: "\<exists>sc. scope_at r u k = Some sc \<and> hold sc x = Some b \<and> ls_init sc' = ls_init sc \<and> ls_context sc' = ls_context sc"
    if "scope_at ?r u k = Some sc'" "hold sc' x = Some b" "holds r d h" "at_id h = x" for u k sc' x b d h
    using kept [OF that(1,2)] fresh [OF that(3)] that(4) by blast
  show ?thesis unfolding frame_def using all ctx
    by (intro conjI allI impI) (simp_all del: add_holder_scope with_holder_simps, blast)
qed

lemma add_holder_struct:
  assumes ok: "registry_ok po r" and fresh: "\<And>d h. holds r d h \<Longrightarrow> at_id h \<noteq> ident"
    and p: "cn_phase (rg_connections r c) = Loading v watch rules" and open_: "\<not> rg_closed r" "\<not> av_replaced (rg_vaults r v)"
  shows "struct_ok (set_phase c (Reserved v ex (Some \<lparr> at_vault = v, at_scope = sid, at_id = ident \<rparr>) i)
           (unlock_floor v (snd (add_holder v sid ident watch r))))" (is "struct_ok ?r")
proof -
  let ?g = "\<lparr> at_vault = v, at_scope = sid, at_id = ident \<rparr>"
  have h: "holds ?r d g \<longleftrightarrow> holds r d g \<or> (d = c \<and> g = ?g)" for d g
    using p by (auto simp: holds_def phase_grant_def)
  have "referenced r v" by (rule phase_referenced [of _ c]) (simp add: p phase_vault_def)
  moreover have "referenced r u" if "referenced ?r u" "u \<noteq> v" for u
  proof -
    have e: "phase_vault (Reserved v ex (Some ?g) i) = Some v" by (simp add: phase_vault_def)
    from that(1) obtain d where "(\<exists>g. holds ?r d g \<and> at_vault g = u) \<or> phase_vault (cn_phase (rg_connections ?r d)) = Some u"
      unfolding referenced_def by blast
    with that(2) have "(\<exists>g. holds r d g \<and> at_vault g = u) \<or> phase_vault (cn_phase (rg_connections r d)) = Some u"
      unfolding h by (auto simp: e split: if_splits)
    then show ?thesis unfolding referenced_def by blast
  qed
  ultimately have ref: "referenced ?r u \<Longrightarrow> referenced r u" for u by blast
  have "tables_ok ?r"
    using registry_okD(2) [OF ok] with_holder_tables [of r v sid ident watch]
    by (auto simp: tables_ok_def intro!: distinct_update split: if_splits)
  moreover have "holders_ok ?r"
  proof -
    have old: "hold sc x \<noteq> None \<Longrightarrow> scope_at r u k = Some sc \<Longrightarrow> \<exists>d. holds r d \<lparr> at_vault = u, at_scope = k, at_id = x \<rparr>" for u k sc x
      using registry_okD(3) [OF ok] unfolding holders_ok_def by blast
    show ?thesis unfolding holders_ok_def h
    proof (intro allI impI)
      fix u k sc x assume s: "scope_at ?r u k = Some sc" "hold sc x \<noteq> None"
      show "\<exists>d. holds r d \<lparr> at_vault = u, at_scope = k, at_id = x \<rparr> \<or> d = c \<and> \<lparr> at_vault = u, at_scope = k, at_id = x \<rparr> = ?g"
      proof (cases "u = v \<and> k = sid \<and> x = ident")
        case False
        then have "\<exists>sc. scope_at r u k = Some sc \<and> hold sc x \<noteq> None"
          using s by (auto split: if_splits simp: bind_eq_Some_conv)
        with old show ?thesis by blast
      next
        case True
        then have "\<lparr> at_vault = u, at_scope = k, at_id = x \<rparr> = ?g" by simp
        then show ?thesis by blast
      qed
    qed
  qed
  moreover have "grants_ok ?r"
    using registry_okD(4) [OF ok] fresh unfolding grants_ok_def h by (metis VaultAttachment.select_convs(3))
  moreover have "roots_ok ?r"
  proof -
    have "scopes_of ?r u = []" if "av_replaced (rg_vaults ?r u)" for u
      using that open_(2) registry_okD(5) [OF ok] by (auto simp: roots_ok_def)
    moreover have "u < rg_next_vault ?r \<and> (av_replaced (rg_vaults ?r u) \<or> map_of (rg_roots ?r) (vr_path (av_root (rg_vaults ?r u))) = Some u)"
      if "referenced ?r u" for u
      using ref [OF that] registry_okD(5) [OF ok] by (auto simp: roots_ok_def)
    ultimately show ?thesis using registry_okD(5) [OF ok] unfolding roots_ok_def by simp
  qed
  moreover have "locks_ok ?r"
  proof -
    note lo = registry_okD(6) [OF ok]
    have below: "ls_init sc < rg_next_stamp r" if "scope_at r u k = Some sc" for u k sc
      using lo that unfolding locks_ok_def by blast
    have same: "u = u' \<and> k = k'" if "scope_at r u k = Some sc" "scope_at r u' k' = Some sc'" "ls_init sc = ls_init sc'" for u k sc u' k' sc'
      using lo that unfolding locks_ok_def by blast
    have init: "ls_init sc = rg_next_stamp r \<and> u = v \<and> k = sid \<or> (\<exists>sc0. scope_at r u k = Some sc0 \<and> ls_init sc = ls_init sc0)"
      if "scope_at ?r u k = Some sc" for u k sc
      using that by (auto split: if_splits option.splits)
    have "ls_init sc < rg_next_stamp ?r" if "scope_at ?r u k = Some sc" for u k sc
      using init [OF that] below by (auto intro: less_SucI)
    moreover have "u = u' \<and> k = k'" if "scope_at ?r u k = Some sc" "scope_at ?r u' k' = Some sc'" "ls_init sc = ls_init sc'" for u k sc u' k' sc'
      using init [OF that(1)] init [OF that(2)] that(3) below same by (metis order_less_irrefl)
    moreover have "rg_init_owner ?r j = Some d" if "phase_lock (cn_phase (rg_connections ?r d)) = Some j" for d j
      using that lo unfolding locks_ok_def by (simp add: phase_lock_def split: if_splits)
    ultimately show ?thesis unfolding locks_ok_def by blast
  qed
  moreover have "closing_ok ?r" using open_(1) registry_okD(7) [OF ok] by (auto simp: closing_ok_def)
  ultimately show ?thesis by (simp add: struct_ok_def)
qed


lemma reserve_fail_ok:
  assumes ok: "registry_ok po r" and p: "cn_phase (rg_connections r c) = Loading v watch rules"
  shows "registry_ok po (set_phase c (Releasing None) (unlock_floor u r))"
  using p by (intro set_phase_ok unlock_floor_ok ok) (simp_all add: phase_parts phase_ok_def)

lemma by_holder_scope:
  assumes ok: "registry_ok po r" and h: "holds r c h" and b: "by_holder (at_id h) (scopes_of r v) = Some (k, sc)"
  shows "k = at_scope h" "v = at_vault h" "scope_at r v (at_scope h) = Some sc" "hold sc (at_id h) \<noteq> None"
proof -
  have s: "scope_at r v k = Some sc" and s': "hold sc (at_id h) \<noteq> None"
    using by_holder_Some [OF b] registry_okD(2) [OF ok] by (simp_all add: scope_at_def tables_ok_def)
  obtain d where "holds r d \<lparr> at_vault = v, at_scope = k, at_id = at_id h \<rparr>"
    using registry_okD(3) [OF ok] s s' unfolding holders_ok_def by blast
  with h have e: "h = \<lparr> at_vault = v, at_scope = k, at_id = at_id h \<rparr>"
    using registry_okD(4) [OF ok] unfolding grants_ok_def by (metis VaultAttachment.select_convs(3))
  show k: "k = at_scope h" and "v = at_vault h" using arg_cong [OF e, of at_scope] arg_cong [OF e, of at_vault] by simp_all
  show "scope_at r v (at_scope h) = Some sc" "hold sc (at_id h) \<noteq> None" using s s' k by simp_all
qed

lemma reserve_held_ok:
  assumes ok: "registry_ok po r" and p: "cn_phase (rg_connections r c) = Loading v watch rules"
    and h: "cn_attachment (rg_connections r c) = Some h" and b: "by_holder (at_id h) (scopes_of r v) = Some (k, sc)"
    and pol: "policy_ok po (rg_vaults r v) (at_scope h) ex"
  shows "registry_ok po (set_phase c (Reserved v ex None (ls_init sc)) (unlock_floor v r))"
proof -
  have "holds r c h" using h by (simp add: holds_def)
  note b = by_holder_scope [OF ok this b]
  have i: "ls_init sc < rg_next_stamp r" using registry_okD(6) [OF ok] b(3) unfolding locks_ok_def by blast
  have v: "referenced (unlock_floor v r) v" by (rule phase_referenced [of _ c]) (simp add: p phase_vault_def)
  show ?thesis
    using p v pol b(3) i h
    by (intro set_phase_ok unlock_floor_ok ok) (auto simp: phase_parts phase_ok_def lease_def holder_of_def)
qed

lemma reserve_new_ok:
  assumes ok: "registry_ok po r" and p: "cn_phase (rg_connections r c) = Loading v watch rules"
    and fresh: "\<And>d h. holds r d h \<Longrightarrow> at_id h \<noteq> ident" and open_: "\<not> rg_closed r" "\<not> av_replaced (rg_vaults r v)"
    and pol: "policy_ok po (rg_vaults r v) sid ex"
  shows "registry_ok po (set_phase c (Reserved v ex (Some \<lparr> at_vault = v, at_scope = sid, at_id = ident \<rparr>)
           (fst (add_holder v sid ident watch r))) (unlock_floor v (snd (add_holder v sid ident watch r))))"
    (is "registry_ok po (set_phase c ?p (unlock_floor v ?r))")
proof -
  have "serve_ok po ?r" by (rule frame_serve [OF add_holder_frame [OF ok fresh] registry_okD(8) [OF ok]])
  then have "serve_ok po (unlock_floor v ?r)"
    by (rule frame_serve [rotated]) (intro frame_quiet; simp del: add_holder_simps)
  moreover have "ls_init sc < rg_next_stamp r" if "scope_at r v sid = Some sc" for sc
    using registry_okD(6) [OF ok] that unfolding locks_ok_def by blast
  ultimately have "serve_ok po (set_phase c ?p (unlock_floor v ?r))"
    using pol by (intro set_phase_serve) (auto simp: phase_ok_def lease_def holder_of_def phase_parts less_SucI split: option.split)
  with add_holder_struct [OF ok fresh p open_] show ?thesis by (simp add: registry_ok_def)
qed

lemma attach_reserve_ok:
  assumes ok: "registry_ok po r" and p: "cn_phase (rg_connections r c) = Loading v watch rules"
    and fresh: "\<forall>ident d h. random = Inr ident \<longrightarrow> holds r d h \<longrightarrow> at_id h \<noteq> ident"
  shows "registry_ok po (attach_reserve po daemon_exclusions random c r)"
proof (cases "av_replaced (rg_vaults r v) \<or> rg_closed r")
  case True
  with p reserve_fail_ok [OF ok p] show ?thesis by (simp add: attach_reserve_def reserve_def)
next
  case run: False
  show ?thesis
  proof (cases daemon_exclusions)
    case (Inl e)
    have "registry_ok po (set_phase c (Releasing None) (unlock_floor v (retire_all v r)))"
      by (rule reserve_fail_ok [OF retire_all_ok [OF ok]]) (simp add: p)
    with p run Inl show ?thesis by (simp add: attach_reserve_def reserve_def load_policy_def)
  next
    case base: (Inr base)
    let ?r = "apply_floor v base r"
    have ok': "registry_ok po ?r" and p': "cn_phase (rg_connections ?r c) = Loading v watch rules"
      using apply_floor_ok [OF ok] p by simp_all
    note failed = reserve_fail_ok [OF ok' p', of v]
    have same: "holds ?r = holds r" by (rule holds_same) simp
    show ?thesis
    proof (cases "floor_merged po base rules")
      case (Inl e)
      with p run base failed show ?thesis by (simp add: attach_reserve_def reserve_def load_policy_def Let_def)
    next
      case (Inr ex)
      let ?sid = "policy_scope po (av_root (rg_vaults r v)) ex"
      note pol = apply_floor_policy [OF Inr, of v r]
      let ?cur = "Option.bind (cn_attachment (rg_connections r c))
          (\<lambda>h. map_option (\<lambda>(_, sc). (h, sc)) (by_holder (at_id h) (scopes_of ?r v)))"
      show ?thesis
      proof (cases ?cur)
        case None
        have "registry_ok po (set_phase c (Reserved v ex (Some \<lparr> at_vault = v, at_scope = ?sid, at_id = ident \<rparr>)
            (fst (add_holder v ?sid ident watch ?r))) (unlock_floor v (snd (add_holder v ?sid ident watch ?r))))"
          if "random = Inr ident" for ident
          using that fresh run pol by (intro reserve_new_ok [OF ok' p']) (auto simp: same)
        with p run base Inr None failed show ?thesis
          by (cases random) (simp_all add: attach_reserve_def reserve_def load_policy_def Let_def split_beta del: add_holder_simps)
      next
        case (Some hs)
        obtain h sc where hs: "hs = (h, sc)" by force
        with Some obtain k where h: "cn_attachment (rg_connections r c) = Some h" "by_holder (at_id h) (scopes_of ?r v) = Some (k, sc)"
          by (auto simp: bind_eq_Some_conv)
        have "registry_ok po (set_phase c (Reserved v ex None (ls_init sc)) (unlock_floor v ?r))" if "at_scope h = ?sid"
        proof (rule reserve_held_ok [OF ok' p' _ h(2)])
          show "cn_attachment (rg_connections ?r c) = Some h" using h(1) by simp
          show "policy_ok po (rg_vaults ?r v) (at_scope h) ex" unfolding that by (rule pol)
        qed
        with p run base Inr Some hs failed show ?thesis
          by (simp add: attach_reserve_def reserve_def load_policy_def Let_def)
      qed
    qed
  qed
qed


section \<open>Initializing and opening\<close>

lemma set_phase_lease [simp]: "lease po (set_phase c p r) d v grant i ex P = lease po r d v grant i ex P"
  by (cases grant) (simp_all add: lease_def holder_of_def)

lemma lease_mono:
  assumes "lease po r c v grant i ex P"
    and "\<And>h sc w. holder_of grant (rg_connections r c) = Some h \<Longrightarrow> scope_at r v (at_scope h) = Some sc \<Longrightarrow> hold sc (at_id h) = Some w
      \<Longrightarrow> P sc w \<Longrightarrow> Q sc w"
  shows "lease po r c v grant i ex Q"
  using assms unfolding lease_def by blast

lemma struct_locks:
  assumes ok: "struct_ok r" and l: "locks_ok r'" and c: "rg_connections r' = rg_connections r"
    and v: "rg_vaults r' = rg_vaults r" and ro: "rg_roots r' = rg_roots r" "rg_next_vault r' = rg_next_vault r"
    and cl: "rg_closing r' = rg_closing r" "rg_closed r' = rg_closed r"
  shows "struct_ok r'"
proof -
  have h: "holds r' = holds r" "referenced r' = referenced r" by (rule holds_same [OF c], rule referenced_same [OF c])
  have s: "scope_at r' = scope_at r" "scopes_of r' = scopes_of r" by (simp_all add: fun_eq_iff scope_at_def scopes_of_def v)
  from ok l show ?thesis
    unfolding struct_ok_def tables_ok_def holders_ok_def grants_ok_def roots_ok_def closing_ok_def h s v ro cl by blast
qed

lemma owner_ok:
  assumes ok: "registry_ok po r" and free: "rg_init_owner r i = None"
  shows "registry_ok po (r \<lparr> rg_init_owner := (rg_init_owner r)(i := x) \<rparr>)" (is "registry_ok po ?r")
proof -
  have s: "scope_at ?r = scope_at r" "scopes_of ?r = scopes_of r" by (simp_all add: fun_eq_iff scope_at_def scopes_of_def)
  have "j \<noteq> i" if "phase_lock (cn_phase (rg_connections r d)) = Some j" for d j
    using that free registry_okD(6) [OF ok] unfolding locks_ok_def by (metis option.distinct(1))
  then have "locks_ok ?r" using registry_okD(6) [OF ok] by (auto simp: locks_ok_def s)
  then have "struct_ok ?r" by (rule struct_locks [OF registry_okD(1) [OF ok]]) simp_all
  moreover have "serve_ok po ?r" by (rule frame_serve [OF _ registry_okD(8) [OF ok]], rule frame_quiet) (simp_all add: s)
  ultimately show ?thesis by (simp add: registry_ok_def)
qed

lemma attach_initialize_ok:
  assumes ok: "registry_ok po r" and p: "cn_phase (rg_connections r c) = Reserved v ex grant i" and free: "rg_init_owner r i = None"
  shows "registry_ok po (attach_initialize c r)"
proof (cases "Option.bind (holder_of grant (rg_connections r c)) (\<lambda>h. by_holder (at_id h) (scopes_of r v))")
  case None
  have "registry_ok po (set_phase c (Releasing grant) r)"
    using p by (intro set_phase_ok ok) (simp_all add: phase_parts phase_ok_def)
  with p None show ?thesis by (simp add: attach_initialize_def)
next
  case (Some ks)
  obtain k sc where ks: "ks = (k, sc)" by force
  with Some obtain h where h: "holder_of grant (rg_connections r c) = Some h" "by_holder (at_id h) (scopes_of r v) = Some (k, sc)"
    by (auto simp: bind_eq_Some_conv)
  have hc: "holds r c h" by (rule holder_holds [OF h(1)]) (simp add: p phase_grant_def)
  note b = by_holder_scope [OF ok hc h(2)]
  let ?r = "r \<lparr> rg_init_owner := (rg_init_owner r)(i := Some c) \<rparr>"
  let ?p = "Initializing v ex grant i (ls_context sc) (scope_watching sc)"
  have "lease po r c v grant i ex (\<lambda>_ _. True)" using registry_okD(10) [OF ok, of c] p by (simp add: phase_ok_def)
  then have "lease po r c v grant i ex (\<lambda>sc' w. ls_context sc' = ls_context sc \<and> (w \<longrightarrow> scope_watching sc))"
  proof (rule lease_mono)
    fix h' sc' w assume "holder_of grant (rg_connections r c) = Some h'" "scope_at r v (at_scope h') = Some sc'" "hold sc' (at_id h') = Some w"
    with h(1) b(3) show "ls_context sc' = ls_context sc \<and> (w \<longrightarrow> scope_watching sc)" by (auto intro: scope_watchingI)
  qed
  then have l: "lease po ?r c v grant i ex (\<lambda>sc' w. ls_context sc' = ls_context sc \<and> (w \<longrightarrow> scope_watching sc))"
    by (simp add: lease_def scope_at_def scopes_of_def)
  have seen: "seen_context ?r (ls_context sc)"
    using contexts_okD(1,3) [OF registry_okD(9) [OF ok] b(3)] by (simp add: seen_context_def)
  have "referenced ?r v" by (rule phase_referenced [of _ c]) (simp add: p phase_vault_def)
  then have "registry_ok po (set_phase c ?p ?r)"
    using p l seen by (intro set_phase_ok owner_ok ok free) (auto simp: phase_parts phase_ok_def seen_context_def)
  with p Some ks show ?thesis by (simp add: attach_initialize_def)
qed

lemma attach_start_ok:
  assumes ok: "registry_ok po r"
  shows "registry_ok po (attach_start c r)"
proof (cases "cn_phase (rg_connections r c)")
  case (Initializing v ex grant i ctx wants)
  let ?start = "case ctx of None \<Rightarrow> wants | Some x \<Rightarrow> wants \<and> \<not> vc_watching (rg_contexts r x)"
  have l: "lease po r c v grant i ex (\<lambda>sc w. ls_context sc = ctx \<and> (w \<longrightarrow> wants))" and seen: "seen_context r ctx"
    using registry_okD(10) [OF ok, of c] Initializing by (simp_all add: phase_ok_def)
  from l have "lease po r c v grant i ex (start_seen r ctx ?start)"
    by (rule lease_mono) (auto simp: start_seen_def split: option.split)
  then have "lease po r c v grant i ex (start_seen (set_phase c (Starting v ex grant i ctx ?start) r) ctx ?start)"
    by (simp add: start_seen_def [abs_def])
  moreover have "rg_init_owner r i = Some c" using registry_okD(6) [OF ok] Initializing by (simp add: locks_ok_def phase_lock_def)
  moreover have "referenced r v" by (rule phase_referenced [of _ c]) (simp add: Initializing phase_vault_def)
  ultimately have "registry_ok po (set_phase c (Starting v ex grant i ctx ?start) r)"
    using Initializing seen by (intro set_phase_ok ok) (auto simp: phase_parts phase_ok_def seen_context_def)
  with Initializing show ?thesis by (simp add: attach_start_def)
qed (simp_all add: attach_start_def ok)

definition open_context :: "nat \<Rightarrow> 's ExcludeSet \<Rightarrow> bool \<Rightarrow> 's Registry \<Rightarrow> 's Registry" where
  "open_context v ex watcher r =
     set_context (rg_next_context r)
       (\<lambda>_. \<lparr> vc_root = av_root (rg_vaults r v), vc_exclude = ex, vc_live = True, vc_active = False, vc_watching = watcher \<rparr>)
       (r \<lparr> rg_next_context := Suc (rg_next_context r) \<rparr>)"

lemma open_context_simps [simp]:
  "rg_vaults (open_context v ex watcher r) = rg_vaults r" "rg_connections (open_context v ex watcher r) = rg_connections r"
  "rg_next_context (open_context v ex watcher r) = Suc (rg_next_context r)" "rg_next_stamp (open_context v ex watcher r) = rg_next_stamp r"
  "rg_init_owner (open_context v ex watcher r) = rg_init_owner r" "rg_roots (open_context v ex watcher r) = rg_roots r"
  "rg_closed (open_context v ex watcher r) = rg_closed r" "rg_closing (open_context v ex watcher r) = rg_closing r"
  "rg_next_vault (open_context v ex watcher r) = rg_next_vault r" "scopes_of (open_context v ex watcher r) = scopes_of r"
  "scope_at (open_context v ex watcher r) = scope_at r"
  "rg_contexts (open_context v ex watcher r) = (rg_contexts r)(rg_next_context r :=
     \<lparr> vc_root = av_root (rg_vaults r v), vc_exclude = ex, vc_live = True, vc_active = False, vc_watching = watcher \<rparr>)"
  by (simp_all add: open_context_def set_context_def fun_eq_iff scopes_of_def scope_at_def)

lemma open_context_ok:
  assumes ok: "registry_ok po r"
  shows "registry_ok po (open_context v ex watcher r)" (is "registry_ok po ?r")
proof -
  have "referenced ?r = referenced r" by (rule referenced_same) simp
  then have "roots_ok ?r" using registry_okD(5) [OF ok] by (simp add: roots_ok_def)
  then have "struct_ok ?r" by (rule struct_quiet [OF registry_okD(1) [OF ok]]) simp_all
  moreover have "rg_contexts ?r x = rg_contexts r x" if "scope_at r u k = Some sc" "ls_context sc = Some x" for u k sc x
    using contexts_okD(1) [OF registry_okD(9) [OF ok] that] by simp
  then have "frame r ?r" unfolding frame_def by (auto simp del: open_context_simps(12)) simp_all
  then have "serve_ok po ?r" by (rule frame_serve) (rule registry_okD(8) [OF ok])
  ultimately show ?thesis by (simp add: registry_ok_def)
qed

lemma opened_below: "registry_ok po r \<Longrightarrow> opened_context (cn_phase (rg_connections r d)) = Some x \<Longrightarrow> x < rg_next_context r"
  using registry_okD(10) [of po r d] by (auto simp: phase_ok_def opened_context_def split: Phase.splits)

lemma attach_open_ok:
  assumes ok: "registry_ok po r"
  shows "registry_ok po (attach_open c r)"
proof (cases "cn_phase (rg_connections r c)")
  case (Starting v ex grant i ctx start)
  have l: "lease po r c v grant i ex (start_seen r ctx start)" and seen: "seen_context r ctx"
    using registry_okD(10) [OF ok, of c] Starting by (simp_all add: phase_ok_def)
  have own: "rg_init_owner r i = Some c" using registry_okD(6) [OF ok] Starting by (simp add: locks_ok_def phase_lock_def)
  have ref: "referenced r v" by (rule phase_referenced [of _ c]) (simp add: Starting phase_vault_def)
  show ?thesis
  proof (cases ctx)
    case (Some x)
    from l have "lease po r c v grant i ex (open_seen r v ex x start)"
      by (rule lease_mono) (auto simp: start_seen_def open_seen_def Some)
    then have "lease po r c v grant i ex (open_seen (set_phase c (Opened v ex grant i x start) r) v ex x start)"
      by (simp add: open_seen_def [abs_def])
    with Starting seen own ref Some have "registry_ok po (set_phase c (Opened v ex grant i x start) r)"
      by (intro set_phase_ok ok) (auto simp: phase_parts phase_ok_def seen_context_def)
    with Starting Some show ?thesis by (simp add: attach_open_def)
  next
    case None
    let ?x = "rg_next_context r" and ?r = "open_context v ex start r"
    let ?p = "Opened v ex grant i ?x False"
    from l have "lease po r c v grant i ex (open_seen ?r v ex ?x False)"
      by (rule lease_mono) (auto simp: start_seen_def open_seen_def None)
    then have "lease po ?r c v grant i ex (open_seen (set_phase c ?p ?r) v ex ?x False)"
      by (simp add: open_seen_def [abs_def] lease_def del: open_context_simps(12))
    moreover have "referenced ?r = referenced r" by (rule referenced_same) simp
    ultimately have "registry_ok po (set_phase c ?p ?r)"
      using Starting own ref opened_below [OF ok] by (intro set_phase_ok open_context_ok ok) (auto simp: phase_parts phase_ok_def)
    with Starting None show ?thesis by (simp add: attach_open_def open_context_def)
  qed
qed (simp_all add: attach_open_def ok)


section \<open>Publishing\<close>

definition publish_state ::
  "nat \<Rightarrow> nat \<Rightarrow> str \<Rightarrow> LiveScope \<Rightarrow> nat \<Rightarrow> bool \<Rightarrow> nat \<Rightarrow> 's Connection \<Rightarrow> 's Registry \<Rightarrow> 's Registry" where
  "publish_state c v k sc x pending i cn r =
     (let r = set_vault v (\<lambda>vault. vault \<lparr> av_scopes := AList.update k (sc \<lparr> ls_context := Some x \<rparr>) (av_scopes vault) \<rparr>)
            (set_context x (publish_context sc pending) (unlock_init i r))
      in r \<lparr> rg_connections := (rg_connections r)(c := cn) \<rparr>)"

lemma publish_state_simps [simp]:
  "rg_connections (publish_state c v k sc x pending i cn r) = (rg_connections r)(c := cn)"
  "rg_contexts (publish_state c v k sc x pending i cn r) = (rg_contexts r)(x := publish_context sc pending (rg_contexts r x))"
  "rg_init_owner (publish_state c v k sc x pending i cn r) = (rg_init_owner r)(i := None)"
  "rg_roots (publish_state c v k sc x pending i cn r) = rg_roots r" "rg_closed (publish_state c v k sc x pending i cn r) = rg_closed r"
  "rg_closing (publish_state c v k sc x pending i cn r) = rg_closing r" "rg_next_vault (publish_state c v k sc x pending i cn r) = rg_next_vault r"
  "rg_next_context (publish_state c v k sc x pending i cn r) = rg_next_context r"
  "rg_next_stamp (publish_state c v k sc x pending i cn r) = rg_next_stamp r"
  "av_root (rg_vaults (publish_state c v k sc x pending i cn r) u) = av_root (rg_vaults r u)"
  "av_replaced (rg_vaults (publish_state c v k sc x pending i cn r) u) = av_replaced (rg_vaults r u)"
  "av_floor (rg_vaults (publish_state c v k sc x pending i cn r) u) = av_floor (rg_vaults r u)"
  "scopes_of (publish_state c v k sc x pending i cn r) u =
     (if u = v then AList.update k (sc \<lparr> ls_context := Some x \<rparr>) (scopes_of r v) else scopes_of r u)"
  by (simp_all add: publish_state_def Let_def set_vault_def set_context_def unlock_init_def scopes_of_def)

lemma publish_state_policy [simp]:
  "policy_ok po (rg_vaults (publish_state c v k sc x pending i cn r) u) l ex = policy_ok po (rg_vaults r u) l ex"
  by (simp add: policy_ok_def)

lemma publish_state_scope [simp]:
  "scope_at (publish_state c v k sc x pending i cn r) u l =
     (if u = v \<and> l = k then Some (sc \<lparr> ls_context := Some x \<rparr>) else scope_at r u l)"
  by (simp add: scope_at_def update_conv')

lemma hold_context [simp]: "hold (sc \<lparr> ls_context := y \<rparr>) = hold sc"
  by (simp add: hold_def fun_eq_iff)

lemma watching_context [simp]: "scope_watching (sc \<lparr> ls_context := y \<rparr>) = scope_watching sc"
  by (simp add: scope_watching_def)

lemma publish_context_simps [simp]:
  "vc_live (publish_context sc pending ctx) = vc_live ctx" "vc_root (publish_context sc pending ctx) = vc_root ctx"
  "vc_exclude (publish_context sc pending ctx) = vc_exclude ctx"
  "vc_active (publish_context sc pending ctx) \<longleftrightarrow> vc_active ctx \<or> vc_live ctx"
  "vc_watching (publish_context sc pending ctx) \<longleftrightarrow> scope_watching sc \<and> (pending \<or> vc_watching ctx)"
  by (simp_all add: publish_context_def context_activate_def install_watcher_def stop_watcher_def)

text \<open>What holds when a request publishes; the two updates of its connection keep the same grants.\<close>

definition publishing ::
  "('g, 's) Policies \<Rightarrow> 's Registry \<Rightarrow> nat \<Rightarrow> nat \<Rightarrow> 's ExcludeSet \<Rightarrow> VaultAttachment option \<Rightarrow> nat \<Rightarrow> nat \<Rightarrow> bool
     \<Rightarrow> VaultAttachment \<Rightarrow> LiveScope \<Rightarrow> 's Connection \<Rightarrow> bool" where
  "publishing po r c v ex grant i x pending h sc cn \<longleftrightarrow>
     cn_phase (rg_connections r c) = Opened v ex grant i x pending \<and> holder_of grant (rg_connections r c) = Some h
     \<and> scope_at r v (at_scope h) = Some sc \<and> hold sc (at_id h) \<noteq> None \<and> cn_attachment cn = Some h
     \<and> (cn_phase cn = Idle \<and> grant = None \<or> cn_phase cn = Releasing (cn_attachment (rg_connections r c)) \<and> grant = Some h)"

lemma publishingD:
  assumes ok: "registry_ok po r" and p: "publishing po r c v ex grant i x pending h sc cn"
  shows "ls_init sc = i" "policy_ok po (rg_vaults r v) (at_scope h) ex" "x < rg_next_context r" "rg_init_owner r i = Some c"
    "holds r c h" "hold sc (at_id h) = Some w \<Longrightarrow> open_seen r v ex x pending sc w"
proof -
  from p obtain w where s: "cn_phase (rg_connections r c) = Opened v ex grant i x pending" "holder_of grant (rg_connections r c) = Some h"
    "scope_at r v (at_scope h) = Some sc" "hold sc (at_id h) = Some w" unfolding publishing_def by blast
  from s registry_okD(10) [OF ok, of c] have l: "lease po r c v grant i ex (open_seen r v ex x pending)" and "x < rg_next_context r"
    by (simp_all add: phase_ok_def)
  then show "ls_init sc = i" "policy_ok po (rg_vaults r v) (at_scope h) ex" "x < rg_next_context r"
    "hold sc (at_id h) = Some w \<Longrightarrow> open_seen r v ex x pending sc w" for w
    using s by (auto simp: lease_def)
  show "rg_init_owner r i = Some c" using s registry_okD(6) [OF ok] by (simp add: locks_ok_def phase_lock_def)
  show "holds r c h" by (rule holder_holds [OF s(2)]) (simp add: s(1) phase_grant_def)
qed

lemma publishing_holds:
  assumes "publishing po r c v ex grant i x pending h sc cn"
  shows "holds (publish_state c v k sc x pending i cn r) = holds r"
    and "referenced (publish_state c v k sc x pending i cn r) u \<Longrightarrow> referenced r u"
proof -
  show h: "holds (publish_state c v k sc x pending i cn r) = holds r"
    using assms by (auto simp: publishing_def holds_def fun_eq_iff phase_grant_def holder_of_def)
  assume "referenced (publish_state c v k sc x pending i cn r) u"
  with assms show "referenced r u"
    unfolding referenced_def h by (auto simp: publishing_def phase_vault_def split: if_splits)
qed

lemma publish_struct:
  assumes ok: "registry_ok po r" and p: "publishing po r c v ex grant i x pending h sc cn"
  shows "struct_ok (publish_state c v (at_scope h) sc x pending i cn r)" (is "struct_ok ?r")
proof -
  have s: "scope_at r v (at_scope h) = Some sc" using p by (simp add: publishing_def)
  then have ne: "scopes_of r v \<noteq> []" by (auto simp: scope_at_def)
  note hs = publishing_holds [OF p, of "at_scope h"]
  have "tables_ok ?r" using registry_okD(2) [OF ok] s by (auto simp: tables_ok_def intro!: distinct_update split: if_splits)
  moreover have "holders_ok ?r" using registry_okD(3) [OF ok] s by (auto simp: holders_ok_def hs(1) split: if_splits)
  moreover have "grants_ok ?r" using registry_okD(4) [OF ok] by (simp add: grants_ok_def hs(1))
  moreover have "roots_ok ?r"
  proof -
    have "referenced ?r u \<Longrightarrow> u < rg_next_vault r \<and> (av_replaced (rg_vaults r u) \<or> map_of (rg_roots r) (vr_path (av_root (rg_vaults r u))) = Some u)" for u
      using hs(2) registry_okD(5) [OF ok] unfolding roots_ok_def by blast
    moreover have "\<not> av_replaced (rg_vaults r v)" using ne registry_okD(5) [OF ok] unfolding roots_ok_def by blast
    ultimately show ?thesis using registry_okD(5) [OF ok] by (simp add: roots_ok_def)
  qed
  moreover have "locks_ok ?r"
  proof -
    note lo = registry_okD(6) [OF ok]
    have same: "\<exists>sc0. scope_at r u k = Some sc0 \<and> ls_init sc0 = ls_init sc'" if "scope_at ?r u k = Some sc'" for u k sc'
      using that s by (auto split: if_splits)
    have "phase_lock (cn_phase cn) = None" using p by (auto simp: publishing_def phase_lock_def)
    moreover have "j \<noteq> i" if "phase_lock (cn_phase (rg_connections r d)) = Some j" "d \<noteq> c" for d j
      using that lo publishingD(4) [OF ok p] unfolding locks_ok_def by (metis option.inject)
    ultimately have "rg_init_owner ?r j = Some d" if "phase_lock (cn_phase (rg_connections ?r d)) = Some j" for d j
      using that lo unfolding locks_ok_def by (auto split: if_splits)
    moreover have "ls_init sc' < rg_next_stamp ?r" if "scope_at ?r u k = Some sc'" for u k sc'
      using same [OF that] lo unfolding locks_ok_def by (metis publish_state_simps(9))
    moreover have "u = u' \<and> k = k'" if "scope_at ?r u k = Some sc'" "scope_at ?r u' k' = Some sc''" "ls_init sc' = ls_init sc''" for u k sc' u' k' sc''
      using same [OF that(1)] same [OF that(2)] that(3) lo unfolding locks_ok_def by metis
    ultimately show ?thesis unfolding locks_ok_def by blast
  qed
  moreover have "closing_ok ?r" using ne registry_okD(7) [OF ok] by (auto simp: closing_ok_def)
  ultimately show ?thesis by (simp add: struct_ok_def)
qed


text \<open>The published context is in no other scope, and no other request has opened it or stands initializing there.\<close>

lemma publish_alone:
  assumes ok: "registry_ok po r" and p: "publishing po r c v ex grant i x pending h sc cn"
    and s': "scope_at r u k = Some sc'" "ls_context sc' = Some x"
  shows "u = v \<and> k = at_scope h \<and> ls_context sc = Some x"
proof -
  from p obtain w where s: "scope_at r v (at_scope h) = Some sc" "hold sc (at_id h) = Some w" unfolding publishing_def by blast
  have "vc_active (rg_contexts r x)" by (rule contexts_okD(3) [OF registry_okD(9) [OF ok] s'])
  with publishingD(6) [OF ok p s(2)] have "ls_context sc = Some x" unfolding open_seen_def by blast
  with registry_okD(9) [OF ok] s(1) s' show ?thesis unfolding contexts_ok_def by blast
qed

lemma publish_contexts:
  assumes ok: "registry_ok po r" and p: "publishing po r c v ex grant i x pending h sc cn"
  shows "contexts_ok po (publish_state c v (at_scope h) sc x pending i cn r)" (is "contexts_ok po ?r")
proof -
  from p obtain w where s: "scope_at r v (at_scope h) = Some sc" "hold sc (at_id h) = Some w" unfolding publishing_def by blast
  note d = publishingD [OF ok p]
  note co = registry_okD(9) [OF ok]
  have seen: "open_seen r v ex x pending sc w" by (rule d(6) [OF s(2)])
  have live: "vc_live (rg_contexts r x)" and root: "vc_root (rg_contexts r x) = av_root (rg_vaults r v)"
    and pol: "policy_ok po (rg_vaults r v) (at_scope h) (vc_exclude (rg_contexts r x))"
    using seen contexts_okD(2,5,6) [OF co s(1)] d(2) unfolding open_seen_def by auto
  have place: "u = v \<and> k = at_scope h \<and> y = x \<and> sc' = sc \<lparr> ls_context := Some x \<rparr>
      \<or> y \<noteq> x \<and> scope_at r u k = Some sc' \<and> ls_context sc' = Some y \<and> \<not> (u = v \<and> k = at_scope h)"
    if "scope_at ?r u k = Some sc'" "ls_context sc' = Some y" for u k sc' y
    using that publish_alone [OF ok p] by (auto split: if_splits)
  have one: "y < rg_next_context ?r \<and> vc_live (rg_contexts ?r y) \<and> vc_active (rg_contexts ?r y)
      \<and> (vc_watching (rg_contexts ?r y) \<longrightarrow> scope_watching sc') \<and> vc_root (rg_contexts ?r y) = av_root (rg_vaults ?r u)
      \<and> policy_ok po (rg_vaults ?r u) k (vc_exclude (rg_contexts ?r y))"
    if "scope_at ?r u k = Some sc'" "ls_context sc' = Some y" for u k sc' y
    using place [OF that]
  proof (elim disjE conjE)
    assume "u = v" "k = at_scope h" "y = x" "sc' = sc \<lparr> ls_context := Some x \<rparr>"
    with live root pol d(3) show ?thesis by simp
  next
    assume y: "y \<noteq> x" "scope_at r u k = Some sc'" "ls_context sc' = Some y"
    from contexts_okD [OF co y(2,3)] y(1) show ?thesis by simp
  qed
  have two: "u = u' \<and> k = k'"
    if "scope_at ?r u k = Some sc1" "scope_at ?r u' k' = Some sc2" "ls_context sc1 = Some y" "ls_context sc2 = Some y" for u k sc1 u' k' sc2 y
    using place [OF that(1,3)] place [OF that(2,4)] co unfolding contexts_ok_def by blast
  from one two show ?thesis unfolding contexts_ok_def by blast
qed

lemma publish_phase:
  assumes ok: "registry_ok po r" and p: "publishing po r c v ex grant i x pending h sc cn" and d: "d \<noteq> c"
  shows "phase_ok po (publish_state c v (at_scope h) sc x pending i cn r) d" (is "phase_ok po ?r d")
proof -
  have conn: "rg_connections ?r d = rg_connections r d" using d by simp
  note D = publishingD [OF ok p]
  have other: "lease po ?r d u g j ex' Q"
    if l: "lease po r d u g j ex' P" and lock: "rg_init_owner r j = Some d"
      and PQ: "\<And>h' sc' w. holder_of g (rg_connections r d) = Some h' \<Longrightarrow> scope_at r u (at_scope h') = Some sc' \<Longrightarrow> ls_context sc' \<noteq> Some x
        \<Longrightarrow> P sc' w \<Longrightarrow> Q sc' w" for u g j ex' P Q
  proof -
    have n: "j \<noteq> i" using lock D(4) d by auto
    have here: "\<not> (u = v \<and> at_scope h' = at_scope h)"
      if "holder_of g (rg_connections r d) = Some h'" "hold sc (at_id h') = Some w" for h' w
    proof
      assume uv: "u = v \<and> at_scope h' = at_scope h"
      have "scope_at r v (at_scope h) = Some sc" using p by (simp add: publishing_def)
      with l that uv have "ls_init sc = j" unfolding lease_def by auto
      with D(1) n show False by simp
    qed
    have alone: "ls_context sc' \<noteq> Some x" if "scope_at r u k = Some sc'" "\<not> (u = v \<and> k = at_scope h)" for k sc'
      using publish_alone [OF ok p that(1)] that(2) by blast
    from l obtain h' where h': "j < rg_next_stamp r" "holder_of g (rg_connections r d) = Some h'"
      and ok': "\<And>sc' w. scope_at r u (at_scope h') = Some sc' \<Longrightarrow> hold sc' (at_id h') = Some w
        \<Longrightarrow> ls_init sc' = j \<and> policy_ok po (rg_vaults r u) (at_scope h') ex' \<and> P sc' w" unfolding lease_def by blast
    have "ls_init sc' = j \<and> policy_ok po (rg_vaults ?r u) (at_scope h') ex' \<and> Q sc' w"
      if s': "scope_at ?r u (at_scope h') = Some sc'" "hold sc' (at_id h') = Some w" for sc' w
    proof -
      have n': "\<not> (u = v \<and> at_scope h' = at_scope h)" using here [OF h'(2), of w] s' by (auto split: if_splits)
      with s'(1) have o: "scope_at r u (at_scope h') = Some sc'" by (simp split: if_splits)
      from ok' [OF o s'(2)] PQ [OF h'(2) o alone [OF o n']] show ?thesis by simp
    qed
    then show ?thesis using h' conn unfolding lease_def by (auto simp del: publish_state_simps(1) publish_state_scope)
  qed
  have lock: "rg_init_owner r j = Some d" if "phase_lock (cn_phase (rg_connections r d)) = Some j" for j
    using that registry_okD(6) [OF ok] unfolding locks_ok_def by blast
  have seen: "seen_context ?r y" if "seen_context r y" for y
    using that by (auto simp: seen_context_def)
  note po_ = registry_okD(10) [OF ok, of d]
  show ?thesis
  proof (cases "cn_phase (rg_connections r d)")
    case (Reserved u ex' g j)
    with po_ have l: "lease po r d u g j ex' (\<lambda>_ _. True)" by (simp add: phase_ok_def)
    from l show ?thesis using Reserved p conn
      by (auto simp: phase_ok_def lease_def publishing_def split: if_splits)
  next
    case (Initializing u ex' g j y wants)
    with po_ have l: "lease po r d u g j ex' (\<lambda>sc w. ls_context sc = y \<and> (w \<longrightarrow> wants))" and sn: "seen_context r y"
      by (simp_all add: phase_ok_def)
    have "lease po ?r d u g j ex' (\<lambda>sc w. ls_context sc = y \<and> (w \<longrightarrow> wants))"
      by (rule other [OF l lock]) (simp_all add: Initializing phase_lock_def)
    with Initializing seen [OF sn] show ?thesis unfolding phase_ok_def conn by simp
  next
    case (Starting u ex' g j y start)
    with po_ have l: "lease po r d u g j ex' (start_seen r y start)" and sn: "seen_context r y" by (simp_all add: phase_ok_def)
    have "lease po ?r d u g j ex' (start_seen ?r y start)"
      by (rule other [OF l lock]) (auto simp: Starting phase_lock_def start_seen_def)
    with Starting seen [OF sn] show ?thesis unfolding phase_ok_def conn by simp
  next
    case (Opened u ex' g j y pend)
    with po_ have l: "lease po r d u g j ex' (open_seen r u ex' y pend)" and y: "y < rg_next_context r" by (simp_all add: phase_ok_def)
    have xy: "y \<noteq> x" if "\<not> vc_active (rg_contexts r y)"
    proof
      assume "y = x"
      then have "opened_context (cn_phase (rg_connections r c)) = Some y" using p by (simp add: publishing_def opened_context_def)
      moreover have "opened_context (cn_phase (rg_connections r d)) = Some y" using Opened by (simp add: opened_context_def)
      ultimately show False using registry_okD(11) [OF ok] that d unfolding opened_ok_def by blast
    qed
    have "lease po ?r d u g j ex' (open_seen ?r u ex' y pend)"
      by (rule other [OF l lock]) (use xy in \<open>auto simp: Opened phase_lock_def open_seen_def\<close>)
    with Opened y show ?thesis unfolding phase_ok_def conn by simp
  qed (unfold phase_ok_def conn, simp_all)
qed


lemma publish_attached:
  assumes ok: "registry_ok po r" and p: "publishing po r c v ex grant i x pending h sc cn"
  shows "attached_ok (publish_state c v (at_scope h) sc x pending i cn r)" (is "attached_ok ?r")
  unfolding attached_ok_def
proof (intro allI impI)
  fix d h' sc' w
  assume a: "cn_attachment (rg_connections ?r d) = Some h'" "scope_at ?r (at_vault h') (at_scope h') = Some sc'" "hold sc' (at_id h') = Some w"
  have cn: "cn_attachment cn = Some h" and s: "scope_at r v (at_scope h) = Some sc" using p by (simp_all add: publishing_def)
  show "\<exists>y. ls_context sc' = Some y \<and> (w \<longrightarrow> vc_watching (rg_contexts ?r y))"
  proof (cases "at_vault h' = v \<and> at_scope h' = at_scope h")
    case True
    with a(2) have sc': "sc' = sc \<lparr> ls_context := Some x \<rparr>" by simp
    have "pending \<or> vc_watching (rg_contexts r x)" if w: "w"
    proof (cases "d = c")
      case True
      with a(1,3) cn sc' w have "hold sc (at_id h) = Some True" by simp
      from publishingD(6) [OF ok p this] show ?thesis by (simp add: open_seen_def)
    next
      case False
      with a s True sc' registry_okD(12) [OF ok] w obtain y where y: "ls_context sc = Some y" "vc_watching (rg_contexts r y)"
        unfolding attached_ok_def by (metis hold_context publish_state_simps(1) fun_upd_other)
      obtain w' where "hold sc (at_id h) = Some w'" using p by (auto simp: publishing_def)
      from publishingD(6) [OF ok p this] y show ?thesis by (auto simp: open_seen_def)
    qed
    moreover have "scope_watching sc" if "w" using a(3) sc' that by (auto intro: scope_watchingI)
    ultimately show ?thesis by (simp add: sc')
  next
    case False
    with a(2) have o: "scope_at r (at_vault h') (at_scope h') = Some sc'" by (simp split: if_splits)
    have "d \<noteq> c"
    proof
      assume "d = c"
      with a(1) cn have e: "h' = h" by simp
      have "at_vault h = v"
      proof -
        obtain b where "holds r b \<lparr> at_vault = v, at_scope = at_scope h, at_id = at_id h \<rparr>"
          using registry_okD(3) [OF ok] s p unfolding holders_ok_def publishing_def by blast
        with publishingD(5) [OF ok p] have "h = \<lparr> at_vault = v, at_scope = at_scope h, at_id = at_id h \<rparr>"
          using registry_okD(4) [OF ok] unfolding grants_ok_def by (metis VaultAttachment.select_convs(3))
        then show ?thesis by (metis VaultAttachment.select_convs(1))
      qed
      with False e show False by simp
    qed
    then have "cn_attachment (rg_connections r d) = Some h'" using a(1) by simp
    with o a(3) registry_okD(12) [OF ok] obtain y where y: "ls_context sc' = Some y" "w \<longrightarrow> vc_watching (rg_contexts r y)"
      unfolding attached_ok_def by blast
    moreover have "y \<noteq> x" using publish_alone [OF ok p o] y(1) False by blast
    ultimately show ?thesis by simp
  qed
qed

lemma publish_ok:
  assumes ok: "registry_ok po r" and p: "publishing po r c v ex grant i x pending h sc cn"
  shows "registry_ok po (publish_state c v (at_scope h) sc x pending i cn r)" (is "registry_ok po ?r")
proof -
  have idle: "cn_phase cn = Idle \<or> (\<exists>g. cn_phase cn = Releasing g)" using p by (auto simp: publishing_def)
  have "phase_ok po ?r d" for d
    using publish_phase [OF ok p, of d] idle by (cases "d = c") (auto simp: phase_ok_def)
  moreover have "opened_ok ?r"
    using registry_okD(11) [OF ok] idle unfolding opened_ok_def
    by (auto simp: opened_context_def split: if_splits)
  ultimately show ?thesis
    using publish_struct [OF ok p] publish_contexts [OF ok p] publish_attached [OF ok p] by (simp add: registry_ok_def serve_ok_def)
qed

section \<open>Releasing and closing\<close>

text \<open>A request that ends without its locks.\<close>

lemma unlock_phase_ok:
  assumes ok: "registry_ok po r" and l: "phase_lock (cn_phase (rg_connections r c)) = Some i"
    and g: "phase_grant (cn_phase (rg_connections r c)) = grant"
  shows "registry_ok po (set_phase c (Releasing grant) (unlock_init i r))"
proof -
  let ?r = "set_phase c (Releasing grant) r"
  have "registry_ok po ?r" using g by (intro set_phase_ok ok) (simp_all add: phase_parts phase_ok_def)
  then have a: "struct_ok ?r" "serve_ok po ?r" by (simp_all add: registry_ok_def)
  let ?u = "set_phase c (Releasing grant) (unlock_init i r)"
  have e: "?u = ?r \<lparr> rg_init_owner := (rg_init_owner r)(i := None) \<rparr>" by (simp add: set_phase_def unlock_init_def)
  have s: "scope_at ?u = scope_at ?r" "scopes_of ?u = scopes_of ?r" by (simp_all add: e fun_eq_iff scope_at_def scopes_of_def)
  have own: "rg_init_owner r i = Some c" using l registry_okD(6) [OF ok] unfolding locks_ok_def by blast
  have "rg_init_owner ?u j = Some d" if "phase_lock (cn_phase (rg_connections ?u d)) = Some j" for d j
  proof -
    have d: "d \<noteq> c" "phase_lock (cn_phase (rg_connections r d)) = Some j" using that by (auto simp: unlock_init_def phase_lock_def split: if_splits)
    then have "rg_init_owner r j = Some d" using registry_okD(6) [OF ok] unfolding locks_ok_def by blast
    with d(1) own show ?thesis by (auto simp: e)
  qed
  moreover have "ls_init sc < rg_next_stamp ?u" if "scope_at ?r v k = Some sc" for v k sc
    using registry_okD(6) [OF ok] that unfolding locks_ok_def by (simp add: unlock_init_def)
  ultimately have "locks_ok ?u" using a(1) unfolding struct_ok_def locks_ok_def s by blast
  then have "struct_ok ?u" by (rule struct_locks [OF a(1)]) (simp_all add: e)
  moreover have "serve_ok po ?u" by (rule frame_serve [OF _ a(2)], rule frame_quiet) (simp_all add: e scopes_of_def)
  ultimately show ?thesis by (simp add: registry_ok_def)
qed

lemma attach_publish_cases:
  assumes ok: "registry_ok po r"
  obtains "attach_publish c r = r"
    | v ex grant i x pending where "cn_phase (rg_connections r c) = Opened v ex grant i x pending"
        "attach_publish c r = set_phase c (Releasing grant) (unlock_init i r)"
    | v ex grant i x pending h sc cn where "publishing po r c v ex grant i x pending h sc cn"
        "attach_publish c r = publish_state c v (at_scope h) sc x pending i cn r"
proof (cases "cn_phase (rg_connections r c)")
  case (Opened v ex grant i x pending)
  let ?b = "Option.bind (holder_of grant (rg_connections r c)) (\<lambda>h. Option.bind (map_of (scopes_of r v) (at_scope h))
      (\<lambda>sc. if map_of (ls_holders sc) (at_id h) = None then None else Some (h, sc)))"
  show ?thesis
  proof (cases ?b)
    case None
    with Opened have "attach_publish c r = set_phase c (Releasing grant) (unlock_init i r)" by (simp add: attach_publish_def)
    with Opened show ?thesis by (rule that(2))
  next
    case (Some hs)
    obtain h sc where hs: "hs = (h, sc)" by force
    with Some have h: "holder_of grant (rg_connections r c) = Some h" "scope_at r v (at_scope h) = Some sc" "hold sc (at_id h) \<noteq> None"
      by (auto simp: bind_eq_Some_conv scope_at_def hold_def split: if_splits)
    let ?cn = "case grant of None \<Rightarrow> (rg_connections r c) \<lparr> cn_phase := Idle \<rparr>
        | Some g \<Rightarrow> (rg_connections r c) \<lparr> cn_attachment := Some g, cn_phase := Releasing (cn_attachment (rg_connections r c)) \<rparr>"
    have "publishing po r c v ex grant i x pending h sc ?cn"
      using Opened h by (auto simp: publishing_def holder_of_def split: option.splits)
    moreover have "attach_publish c r = publish_state c v (at_scope h) sc x pending i ?cn r"
      using Opened Some hs
      by (cases grant) (simp_all add: attach_publish_def publish_state_def Let_def set_vault_def set_context_def unlock_init_def)
    ultimately show ?thesis by (rule that(3))
  qed
qed (simp_all add: attach_publish_def that(1))

lemma attach_publish_ok:
  assumes ok: "registry_ok po r"
  shows "registry_ok po (attach_publish c r)"
proof (rule attach_publish_cases [OF ok, of c])
  fix v ex grant i x pending
  assume "cn_phase (rg_connections r c) = Opened v ex grant i x pending"
    "attach_publish c r = set_phase c (Releasing grant) (unlock_init i r)"
  then show ?thesis using unlock_phase_ok [OF ok, of c i grant] by (simp add: phase_parts)
next
  fix v ex grant i x pending h sc cn
  assume "publishing po r c v ex grant i x pending h sc cn" "attach_publish c r = publish_state c v (at_scope h) sc x pending i cn r"
  then show ?thesis using publish_ok [OF ok] by metis
qed (simp add: ok)

lemma attach_abort_ok:
  assumes ok: "registry_ok po r"
  shows "registry_ok po (attach_abort c r)"
proof -
  have plain: "registry_ok po (set_phase c (Releasing (phase_grant (cn_phase (rg_connections r c)))) r)"
    by (intro set_phase_ok ok) (simp_all add: phase_parts phase_ok_def)
  have load: "registry_ok po (set_phase c (Releasing None) (unlock_floor v r))" if "cn_phase (rg_connections r c) = Loading v watch rules" for v watch rules
    by (rule reserve_fail_ok [OF ok that])
  show ?thesis
    using plain load unlock_phase_ok [OF ok, of c]
    by (cases "cn_phase (rg_connections r c)") (simp_all add: attach_abort_def phase_grant_def phase_lock_def)
qed


text \<open>Dropping a grant removes its holder; the scope goes with its last one.\<close>

definition without_holder :: "VaultAttachment \<Rightarrow> LiveScope \<Rightarrow> LiveScope option" where
  "without_holder h sc =
     (let left = AList.delete (at_id h) (ls_holders sc) in if left = [] then None else Some (sc \<lparr> ls_holders := left \<rparr>))"

definition dropped_context :: "VaultAttachment \<Rightarrow> LiveScope \<Rightarrow> 's VaultContext \<Rightarrow> 's VaultContext" where
  "dropped_context h sc ctx =
     (case without_holder h sc of None \<Rightarrow> context_retire ctx | Some sc' \<Rightarrow> if scope_watching sc' then ctx else stop_watcher ctx)"

lemma drop_grant_same [simp]:
  "rg_connections (drop_grant h r) = rg_connections r" "rg_roots (drop_grant h r) = rg_roots r"
  "rg_closed (drop_grant h r) = rg_closed r" "rg_closing (drop_grant h r) = rg_closing r"
  "rg_next_vault (drop_grant h r) = rg_next_vault r" "rg_next_context (drop_grant h r) = rg_next_context r"
  "rg_next_stamp (drop_grant h r) = rg_next_stamp r" "rg_init_owner (drop_grant h r) = rg_init_owner r"
  "av_root (rg_vaults (drop_grant h r) u) = av_root (rg_vaults r u)"
  "av_replaced (rg_vaults (drop_grant h r) u) = av_replaced (rg_vaults r u)"
  "av_floor (rg_vaults (drop_grant h r) u) = av_floor (rg_vaults r u)"
  by (simp_all add: drop_grant_def Let_def set_vault_def set_context_def split: option.split)

lemma drop_grant_cases:
  assumes "drop_grant h r \<noteq> r"
  obtains sc where "scope_at r (at_vault h) (at_scope h) = Some sc"
    "\<And>u. scopes_of (drop_grant h r) u =
       (if u = at_vault h then (case without_holder h sc of None \<Rightarrow> AList.delete (at_scope h) (scopes_of r u)
          | Some sc' \<Rightarrow> AList.update (at_scope h) sc' (scopes_of r u)) else scopes_of r u)"
    "\<And>x. rg_contexts (drop_grant h r) x = (if ls_context sc = Some x then dropped_context h sc (rg_contexts r x) else rg_contexts r x)"
proof (cases "scope_at r (at_vault h) (at_scope h)")
  case None
  with assms show ?thesis by (simp add: drop_grant_def scope_at_def)
next
  case (Some sc)
  have "drop_grant h r = r" if "map_of (ls_holders sc) (at_id h) = None"
    using that Some by (simp add: drop_grant_def scope_at_def)
  with assms have n: "map_of (ls_holders sc) (at_id h) \<noteq> None" by blast
  show ?thesis
  proof (rule that [OF Some])
    show "scopes_of (drop_grant h r) u = (if u = at_vault h then (case without_holder h sc of None \<Rightarrow> AList.delete (at_scope h) (scopes_of r u)
          | Some sc' \<Rightarrow> AList.update (at_scope h) sc' (scopes_of r u)) else scopes_of r u)" for u
      using Some n
      by (auto simp: drop_grant_def scope_at_def without_holder_def Let_def set_vault_def set_context_def scopes_of_def split: option.split)
    show "rg_contexts (drop_grant h r) x = (if ls_context sc = Some x then dropped_context h sc (rg_contexts r x) else rg_contexts r x)" for x
      using Some n
      by (auto simp: drop_grant_def scope_at_def without_holder_def dropped_context_def Let_def set_vault_def set_context_def split: option.split)
  qed
qed

lemma without_holder_Some:
  assumes "without_holder h sc = Some sc'"
  shows "ls_init sc' = ls_init sc" "ls_context sc' = ls_context sc" "hold sc' x = (if x = at_id h then None else hold sc x)"
    "ls_holders sc' \<noteq> []" "distinct (map fst (ls_holders sc)) \<Longrightarrow> distinct (map fst (ls_holders sc'))"
  using assms by (auto simp: without_holder_def Let_def hold_def delete_conv' distinct_delete split: if_splits)

lemma drop_grant_scope:
  assumes "scope_at (drop_grant h r) u k = Some sc'"
  shows "\<exists>sc. scope_at r u k = Some sc \<and> ls_init sc' = ls_init sc \<and> ls_context sc' = ls_context sc
    \<and> (\<forall>x w. hold sc' x = Some w \<longrightarrow> hold sc x = Some w) \<and> (drop_grant h r \<noteq> r \<longrightarrow> u = at_vault h \<longrightarrow> k = at_scope h \<longrightarrow>
        without_holder h sc = Some sc')
    \<and> (\<not> (u = at_vault h \<and> k = at_scope h) \<longrightarrow> sc' = sc)"
proof (cases "drop_grant h r = r")
  case True
  with assms show ?thesis by auto
next
  case False
  obtain sc where sc: "scope_at r (at_vault h) (at_scope h) = Some sc"
    "\<And>u. scopes_of (drop_grant h r) u =
       (if u = at_vault h then (case without_holder h sc of None \<Rightarrow> AList.delete (at_scope h) (scopes_of r u)
          | Some sc' \<Rightarrow> AList.update (at_scope h) sc' (scopes_of r u)) else scopes_of r u)"
    by (rule drop_grant_cases [OF False]) blast
  show ?thesis
  proof (cases "u = at_vault h \<and> k = at_scope h")
    case True
    with assms sc have w: "without_holder h sc = Some sc'"
      by (auto simp: scope_at_def update_conv' delete_conv' split: option.splits)
    with True sc(1) without_holder_Some [OF w] show ?thesis by (auto split: if_splits)
  next
    case n: False
    with assms sc(2) have "scope_at r u k = Some sc'"
      by (auto simp: scope_at_def update_conv' delete_conv' split: option.splits if_splits)
    with n show ?thesis by auto
  qed
qed

lemma drop_grant_tables:
  assumes "tables_ok r"
  shows "tables_ok (drop_grant h r)"
proof (cases "drop_grant h r = r")
  case False
  obtain sc where sc: "\<And>u. scopes_of (drop_grant h r) u =
       (if u = at_vault h then (case without_holder h sc of None \<Rightarrow> AList.delete (at_scope h) (scopes_of r u)
          | Some sc' \<Rightarrow> AList.update (at_scope h) sc' (scopes_of r u)) else scopes_of r u)"
    by (rule drop_grant_cases [OF False]) blast
  have "distinct (map fst (scopes_of (drop_grant h r) u))" for u
    using assms by (auto simp: sc tables_ok_def distinct_update distinct_delete split: option.split)
  moreover have "distinct (map fst (ls_holders s')) \<and> ls_holders s' \<noteq> []" if s': "scope_at (drop_grant h r) u k = Some s'" for u k s'
  proof -
    from drop_grant_scope [OF s'] False obtain s where s: "scope_at r u k = Some s" "s' = s \<or> without_holder h s = Some s'" by metis
    with assms without_holder_Some(4,5) [of h s s'] show ?thesis unfolding tables_ok_def by auto
  qed
  ultimately show ?thesis unfolding tables_ok_def by blast
qed (simp add: assms)


lemma drop_grant_removed:
  assumes "scope_at (drop_grant h r) (at_vault h) (at_scope h) = Some sc'"
  shows "hold sc' (at_id h) = None"
  using assms
  by (auto simp: drop_grant_def scope_at_def scopes_of_def hold_def Let_def set_vault_def set_context_def
      update_conv' delete_conv' split: option.splits if_splits)

lemma drop_grant_frame:
  assumes ok: "registry_ok po r"
  shows "frame r (drop_grant h r)"
proof (cases "drop_grant h r = r")
  case True
  then show ?thesis by (simp add: frame_refl)
next
  case ch: False
  let ?r = "drop_grant h r"
  note co = registry_okD(9) [OF ok]
  obtain sc where sc: "scope_at r (at_vault h) (at_scope h) = Some sc"
    and cx: "\<And>x. rg_contexts ?r x = (if ls_context sc = Some x then dropped_context h sc (rg_contexts r x) else rg_contexts r x)"
    by (rule drop_grant_cases [OF ch]) blast
  have act: "vc_active (dropped_context h sc ctx) = vc_active ctx" for ctx :: "'b VaultContext"
    by (simp add: dropped_context_def context_retire_def split: option.split)
  have F1: "\<exists>s. scope_at r u k = Some s \<and> hold s x = Some w \<and> ls_init s' = ls_init s \<and> ls_context s' = ls_context s"
    if "scope_at ?r u k = Some s'" "hold s' x = Some w" for u k s' x w
    using drop_grant_scope [OF that(1)] that(2) by blast
  have F2: "\<exists>s. scope_at r u k = Some s \<and> ls_context s = Some x
      \<and> (rg_contexts ?r x = rg_contexts r x \<and> (scope_watching s \<longrightarrow> scope_watching s')
         \<or> rg_contexts ?r x = stop_watcher (rg_contexts r x) \<and> \<not> scope_watching s')"
    if s': "scope_at ?r u k = Some s'" "ls_context s' = Some x" for u k s' x
  proof -
    from drop_grant_scope [OF s'(1)] s'(2) ch obtain s where s: "scope_at r u k = Some s" "ls_context s = Some x"
      and w: "u = at_vault h \<Longrightarrow> k = at_scope h \<Longrightarrow> without_holder h s = Some s'" "\<not> (u = at_vault h \<and> k = at_scope h) \<Longrightarrow> s' = s"
      by auto
    show ?thesis
    proof (cases "u = at_vault h \<and> k = at_scope h")
      case True
      with s(1) sc have e: "s = sc" by simp
      from True w(1) e have "dropped_context h sc ctx = (if scope_watching s' then ctx else stop_watcher ctx)" for ctx :: "'b VaultContext"
        by (simp add: dropped_context_def)
      with cx [of x] s(1,2) e show ?thesis by auto
    next
      case False
      then have "ls_context sc \<noteq> Some x" using co s sc unfolding contexts_ok_def by blast
      with cx [of x] s w(2) False show ?thesis by auto
    qed
  qed
  have F3: "rg_contexts ?r x = rg_contexts r x" if "\<not> vc_active (rg_contexts r x)" for x
    using that cx [of x] contexts_okD(3) [OF co sc] by auto
  have F4: "vc_active (rg_contexts ?r x) = vc_active (rg_contexts r x)" for x using cx [of x] act by auto
  show ?thesis unfolding frame_def using F1 F2 F3 F4 by simp
qed

lemma release_struct:
  assumes ok: "registry_ok po r" and p: "cn_phase (rg_connections r c) = Releasing (Some h)"
  shows "struct_ok (set_phase c Idle (drop_grant h r))" (is "struct_ok ?r")
proof -
  have h1: "holds ?r d g \<Longrightarrow> holds r d g" for d g
    by (auto simp: holds_def phase_grant_def split: if_splits)
  have h2: "holds r d g \<Longrightarrow> g \<noteq> h \<Longrightarrow> holds ?r d g" for d g
    using p by (auto simp: holds_def phase_grant_def)
  have ref: "referenced ?r u \<Longrightarrow> referenced r u" for u
    unfolding referenced_def using h1 by (auto simp: phase_vault_def split: if_splits)
  have sub: "\<exists>sc0. scope_at r u k = Some sc0 \<and> ls_init sc = ls_init sc0 \<and> (\<forall>x w. hold sc x = Some w \<longrightarrow> hold sc0 x = Some w)"
    if "scope_at ?r u k = Some sc" for u k sc
    using drop_grant_scope [of h r u k sc] that by auto
  have empty: "scopes_of ?r u = []" if "scopes_of r u = []" for u
  proof -
    have n: "scope_at ?r u k = None" for k using sub [of u k] that by (cases "scope_at ?r u k") (auto simp: scope_at_def)
    show ?thesis using n [of "fst (hd (scopes_of ?r u))"] by (cases "scopes_of ?r u") (auto simp: scope_at_def)
  qed
  have "tables_ok ?r" using drop_grant_tables [OF registry_okD(2) [OF ok], of h] by (simp add: tables_ok_def)
  moreover have "holders_ok ?r"
    unfolding holders_ok_def
  proof (intro allI impI)
    fix u k sc x assume s: "scope_at ?r u k = Some sc" "hold sc x \<noteq> None"
    with sub [OF s(1)] registry_okD(3) [OF ok] obtain d where d: "holds r d \<lparr> at_vault = u, at_scope = k, at_id = x \<rparr>"
      unfolding holders_ok_def by fastforce
    have "\<lparr> at_vault = u, at_scope = k, at_id = x \<rparr> \<noteq> h"
      using drop_grant_removed [of h r sc] s by auto
    with h2 [OF d] show "\<exists>d. holds ?r d \<lparr> at_vault = u, at_scope = k, at_id = x \<rparr>" by blast
  qed
  moreover have "grants_ok ?r" using registry_okD(4) [OF ok] h1 unfolding grants_ok_def by blast
  moreover have "roots_ok ?r"
    using registry_okD(5) [OF ok] ref empty by (simp add: roots_ok_def)
  moreover have "locks_ok ?r"
  proof -
    note lo = registry_okD(6) [OF ok]
    have "ls_init sc < rg_next_stamp r" if "scope_at ?r u k = Some sc" for u k sc
      using sub [OF that] lo unfolding locks_ok_def by metis
    moreover have "u = u' \<and> k = k'" if "scope_at ?r u k = Some sc" "scope_at ?r u' k' = Some sc'" "ls_init sc = ls_init sc'" for u k sc u' k' sc'
      using sub [OF that(1)] sub [OF that(2)] that(3) lo unfolding locks_ok_def by metis
    moreover have "rg_init_owner r i = Some d" if "phase_lock (cn_phase (rg_connections ?r d)) = Some i" for d i
      using that lo unfolding locks_ok_def by (auto simp: phase_lock_def split: if_splits)
    ultimately show ?thesis unfolding locks_ok_def by (simp del: set_phase_simps(10,11))
  qed
  moreover have "closing_ok ?r" using registry_okD(7) [OF ok] empty by (simp add: closing_ok_def)
  ultimately show ?thesis by (simp add: struct_ok_def)
qed

lemma connection_release_ok:
  assumes ok: "registry_ok po r"
  shows "registry_ok po (connection_release c r)"
proof (cases "cn_phase (rg_connections r c)")
  case (Releasing grant)
  show ?thesis
  proof (cases grant)
    case None
    have "registry_ok po (set_phase c Idle r)"
      using Releasing None by (intro set_phase_ok ok) (simp_all add: phase_parts phase_ok_def)
    with Releasing None show ?thesis by (simp add: connection_release_def)
  next
    case (Some h)
    have "serve_ok po (drop_grant h r)" by (rule frame_serve [OF drop_grant_frame [OF ok] registry_okD(8) [OF ok]])
    then have "serve_ok po (set_phase c Idle (drop_grant h r))"
      by (intro set_phase_serve) (simp_all add: phase_ok_def phase_parts)
    with release_struct [OF ok, of c h] Releasing Some show ?thesis by (simp add: connection_release_def registry_ok_def)
  qed
qed (simp_all add: connection_release_def ok)


lemma connection_close_ok:
  assumes ok: "registry_ok po r" and idle: "cn_phase (rg_connections r c) = Idle"
  shows "registry_ok po (connection_close c r)" (is "registry_ok po ?r")
proof -
  have h: "holds ?r = holds r" using idle by (auto simp: holds_def connection_close_def phase_grant_def fun_eq_iff)
  have pv: "phase_vault (cn_phase (rg_connections ?r d)) = phase_vault (cn_phase (rg_connections r d))" for d
    using idle by (simp add: connection_close_def phase_vault_def)
  have ref: "referenced ?r = referenced r" by (simp add: referenced_def h pv fun_eq_iff)
  have s: "scope_at ?r = scope_at r" "scopes_of ?r = scopes_of r" by (simp_all add: connection_close_def fun_eq_iff scope_at_def scopes_of_def)
  have cn: "rg_connections ?r d = (if d = c then \<lparr> cn_attachment = None, cn_phase = Releasing (cn_attachment (rg_connections r c)) \<rparr> else rg_connections r d)" for d
    by (simp add: connection_close_def)
  have same: "rg_vaults ?r = rg_vaults r" "rg_roots ?r = rg_roots r" "rg_next_vault ?r = rg_next_vault r" "rg_closing ?r = rg_closing r"
    "rg_closed ?r = rg_closed r" "rg_contexts ?r = rg_contexts r" "rg_next_context ?r = rg_next_context r" "rg_next_stamp ?r = rg_next_stamp r"
    "rg_init_owner ?r = rg_init_owner r" by (simp_all add: connection_close_def)
  have "locks_ok ?r" using registry_okD(6) [OF ok] unfolding locks_ok_def s same cn by (auto simp: phase_lock_def)
  with registry_okD(1) [OF ok] have st: "struct_ok ?r"
    unfolding struct_ok_def tables_ok_def holders_ok_def grants_ok_def roots_ok_def closing_ok_def h ref s same by blast
  have "phase_ok po ?r d" for d
  proof (cases "d = c")
    case True
    then show ?thesis by (simp add: phase_ok_def cn)
  next
    case False
    have l: "lease po ?r d = lease po r d" using False by (simp add: lease_def cn s same fun_eq_iff)
    have e: "start_seen ?r = start_seen r" "open_seen ?r = open_seen r" "seen_context ?r = seen_context r" "rg_connections ?r d = rg_connections r d"
      using False by (simp_all add: start_seen_def open_seen_def seen_context_def same cn fun_eq_iff)
    show ?thesis using registry_okD(10) [OF ok, of d] unfolding phase_ok_def l e same .
  qed
  moreover have "contexts_ok po ?r" using registry_okD(9) [OF ok] unfolding contexts_ok_def s same .
  moreover have "opened_ok ?r" using registry_okD(11) [OF ok] unfolding opened_ok_def cn same by (auto simp: opened_context_def)
  moreover have "attached_ok ?r" using registry_okD(12) [OF ok] unfolding attached_ok_def cn same s by auto
  ultimately show ?thesis using st by (simp add: registry_ok_def serve_ok_def)
qed

lemma drop_vault_ok:
  assumes ok: "registry_ok po r" and n: "\<not> referenced r v"
  shows "registry_ok po (drop_vault v r)"
proof (cases "map_of (rg_roots r) (vr_path (av_root (rg_vaults r v))) = Some v")
  case True
  let ?p = "vr_path (av_root (rg_vaults r v))"
  let ?r = "r \<lparr> rg_roots := AList.delete ?p (rg_roots r) \<rparr>"
  have ref: "referenced ?r = referenced r" by (rule referenced_same) simp
  have keep: "vr_path (av_root (rg_vaults r u)) \<noteq> ?p" if "referenced r u" "map_of (rg_roots r) (vr_path (av_root (rg_vaults r u))) = Some u" for u
    using that n True by (metis option.inject)
  have "u < rg_next_vault ?r \<and> (av_replaced (rg_vaults ?r u) \<or> map_of (rg_roots ?r) (vr_path (av_root (rg_vaults ?r u))) = Some u)"
    if "referenced ?r u" for u
  proof -
    have u: "referenced r u" using that ref by metis
    then have "u < rg_next_vault r" "av_replaced (rg_vaults r u) \<or> map_of (rg_roots r) (vr_path (av_root (rg_vaults r u))) = Some u"
      using registry_okD(5) [OF ok] unfolding roots_ok_def by blast+
    with keep [OF u] show ?thesis by (auto simp: delete_conv')
  qed
  moreover have "u < rg_next_vault ?r \<and> vr_path (av_root (rg_vaults ?r u)) = p" if "map_of (rg_roots ?r) p = Some u" for p u
  proof -
    have "map_of (rg_roots r) p = Some u" using that by (simp add: delete_conv' split: if_splits)
    then have "u < rg_next_vault r \<and> vr_path (av_root (rg_vaults r u)) = p" using registry_okD(5) [OF ok] unfolding roots_ok_def by blast
    then show ?thesis by simp
  qed
  moreover have "scopes_of ?r u = []" if "av_replaced (rg_vaults ?r u)" for u
    using that registry_okD(5) [OF ok] by (simp add: roots_ok_def scopes_of_def)
  ultimately have "roots_ok ?r" unfolding roots_ok_def by blast
  then have "registry_ok po ?r" by (rule quiet_ok [OF ok]) (simp_all add: scopes_of_def)
  with True show ?thesis by (simp add: drop_vault_def)
qed (simp add: drop_vault_def ok)

lemma close_begin_ok:
  assumes ok: "registry_ok po r"
  shows "registry_ok po (close_begin r)"
proof -
  have "referenced (close_begin r) = referenced r" by (rule referenced_same) (simp add: close_begin_def)
  then have "roots_ok (close_begin r)" using registry_okD(5) [OF ok] by (simp add: roots_ok_def close_begin_def scopes_of_def)
  then show ?thesis by (rule quiet_ok [OF ok]) (simp_all add: close_begin_def scopes_of_def)
qed

lemma set_closing_ok:
  assumes ok: "registry_ok po r" and c: "rg_closed r" "\<And>v. v \<notin> set vs \<Longrightarrow> scopes_of r v = []"
  shows "registry_ok po (r \<lparr> rg_closing := Some vs \<rparr>)" (is "registry_ok po ?r")
proof -
  have h: "holds ?r = holds r" "referenced ?r = referenced r" by (rule holds_same, simp, rule referenced_same, simp)
  have s: "scope_at ?r = scope_at r" "scopes_of ?r = scopes_of r" by (simp_all add: fun_eq_iff scope_at_def scopes_of_def)
  have "closing_ok ?r" using c by (simp add: closing_ok_def s)
  with registry_okD(1) [OF ok] have "struct_ok ?r"
    by (simp add: struct_ok_def tables_ok_def holders_ok_def grants_ok_def roots_ok_def locks_ok_def h s)
  moreover have "serve_ok po ?r" by (rule frame_serve [OF _ registry_okD(8) [OF ok]], rule frame_quiet) (simp_all add: s)
  ultimately show ?thesis by (simp add: registry_ok_def)
qed

lemma close_collect_ok:
  assumes ok: "registry_ok po r" and c: "rg_closed r" and up: "\<forall>v. referenced r v \<longrightarrow> upgrade v"
  shows "registry_ok po (close_collect upgrade r)"
  unfolding close_collect_def
proof (rule set_closing_ok [OF ok c])
  fix v assume out: "v \<notin> set (filter upgrade (map snd (rg_roots r)))"
  show "scopes_of r v = []"
  proof (rule ccontr)
    assume ne: "scopes_of r v \<noteq> []"
    then have v: "referenced r v" using unreferenced_empty [OF registry_okD(1) [OF ok]] by blast
    then have "map_of (rg_roots r) (vr_path (av_root (rg_vaults r v))) = Some v"
      using registry_okD(5) [OF ok] ne unfolding roots_ok_def by blast
    then have "v \<in> set (map snd (rg_roots r))" by (force dest: map_of_SomeD)
    with out up v show False by auto
  qed
qed

lemma close_next_ok:
  assumes ok: "registry_ok po r"
  shows "registry_ok po (close_next r)"
proof (cases "rg_closing r")
  case (Some vs)
  show ?thesis
  proof (cases vs)
    case (Cons v us)
    have e: "retire_all v (r \<lparr> rg_closing := Some us \<rparr>) = (retire_all v r) \<lparr> rg_closing := Some us \<rparr>"
      by (rule Registry.Registry.equality) (simp_all add: retire_all_def fold_retire set_vault_def scopes_of_def fun_eq_iff)
    have cl: "rg_closed r" "\<And>u. u \<notin> set vs \<Longrightarrow> scopes_of r u = []" using registry_okD(7) [OF ok] Some unfolding closing_ok_def by blast+
    have "registry_ok po ((retire_all v r) \<lparr> rg_closing := Some us \<rparr>)"
      by (rule set_closing_ok [OF retire_all_ok [OF ok]]) (use cl Cons in \<open>auto simp: scopes_of_def\<close>)
    with Some Cons show ?thesis by (simp add: close_next_def e)
  qed (use Some ok in \<open>simp add: close_next_def\<close>)
qed (simp add: close_next_def ok)

theorem registry_step_ok:
  assumes "registry_step po r r'" and "registry_ok po r"
  shows "registry_ok po r'"
  using assms
  by cases (auto intro: attach_begin_ok attach_lock_floor_ok attach_reserve_ok attach_initialize_ok attach_start_ok attach_open_ok
      attach_publish_ok attach_abort_ok connection_release_ok connection_close_ok drop_vault_ok close_begin_ok close_collect_ok
      close_next_ok conjunct1 [OF lookup_root_ok])

lemma registry_init_ok: "registry_ok po (registry_init blank)"
  by (simp add: registry_ok_def struct_ok_def serve_ok_def tables_ok_def holders_ok_def grants_ok_def roots_ok_def locks_ok_def
      closing_ok_def contexts_ok_def phase_ok_def opened_ok_def attached_ok_def registry_init_def scope_at_def scopes_of_def
      holds_def referenced_def phase_parts)

lemma registry_reachable_ok: "registry_reachable po blank r \<Longrightarrow> registry_ok po r"
  by (induction rule: registry_reachable.induct) (auto intro: registry_init_ok registry_step_ok)

end
