(* ===== verification/RegistryProps.thy ===== *)
theory RegistryProps
  imports RegistryInv
begin

text \<open>
  What the invariant of the vault registry gives its users: published contexts are the live ones and serve the current
  floor, and a closed registry serves nothing. A short run shows that the hypotheses can hold.
\<close>

section \<open>Every live context is in a scope\<close>

definition served :: "'s Registry \<Rightarrow> nat \<Rightarrow> bool" where
  "served r x \<longleftrightarrow> (\<exists>v k sc. scope_at r v k = Some sc \<and> ls_context sc = Some x)"

definition running :: "'s Registry \<Rightarrow> nat \<Rightarrow> bool" where
  "running r x \<longleftrightarrow> vc_active (rg_contexts r x) \<and> vc_live (rg_contexts r x)"

definition no_orphans :: "'s Registry \<Rightarrow> bool" where
  "no_orphans r \<longleftrightarrow> (\<forall>x. running r x \<longrightarrow> served r x)"

definition keeps :: "'s Registry \<Rightarrow> 's Registry \<Rightarrow> bool" where
  "keeps r r' \<longleftrightarrow> (\<forall>x. running r' x \<longrightarrow> running r x \<and> (served r x \<longrightarrow> served r' x))"

lemma keeps_orphans: "keeps r r' \<Longrightarrow> no_orphans r \<Longrightarrow> no_orphans r'"
  unfolding keeps_def no_orphans_def by blast

lemma keeps_trans: "keeps r s \<Longrightarrow> keeps s t \<Longrightarrow> keeps r t"
  unfolding keeps_def by blast

lemma keeps_same: "rg_contexts r' = rg_contexts r \<Longrightarrow> scope_at r' = scope_at r \<Longrightarrow> keeps r r'"
  by (simp add: keeps_def running_def served_def)

lemma keeps_refl [simp]: "keeps r r"
  by (simp add: keeps_def)

lemma keeps_phase [simp]: "keeps r (set_phase c p r') \<longleftrightarrow> keeps r r'" "keeps r (unlock_floor v r') \<longleftrightarrow> keeps r r'"
  by (simp_all add: keeps_def running_def served_def)

lemma keeps_unlock [simp]: "keeps r (unlock_init i r') \<longleftrightarrow> keeps r r'"
  by (simp add: keeps_def running_def served_def unlock_init_def scope_at_def scopes_of_def)

lemma keeps_retire:
  assumes "tables_ok r"
  shows "keeps r (retire_all v r)"
proof -
  have retired: "x \<in> set (List.map_filter (ls_context \<circ> snd) (scopes_of r v)) \<longleftrightarrow> (\<exists>k sc. scope_at r v k = Some sc \<and> ls_context sc = Some x)" for x
    using assms by (simp add: set_retired scope_at_def tables_ok_def)
  have "running r x \<and> (served r x \<longrightarrow> served (retire_all v r) x)" if "running (retire_all v r) x" for x
  proof -
    from that have n: "\<not> (\<exists>k sc. scope_at r v k = Some sc \<and> ls_context sc = Some x)"
      unfolding running_def retire_all_contexts retired by (auto simp: context_retire_def split: if_splits)
    then have "rg_contexts (retire_all v r) x = rg_contexts r x" unfolding retire_all_contexts retired by (rule if_not_P)
    with that have "running r x" by (simp add: running_def)
    moreover have "served (retire_all v r) x" if "served r x"
    proof -
      from that obtain u k sc where u: "scope_at r u k = Some sc" "ls_context sc = Some x" unfolding served_def by blast
      with n have "scope_at (retire_all v r) u k = Some sc" by (auto simp: retire_all_scopes)
      with u(2) show ?thesis unfolding served_def by blast
    qed
    ultimately show ?thesis by blast
  qed
  then show ?thesis unfolding keeps_def by blast
qed

lemma keeps_apply_floor:
  assumes "registry_ok po r"
  shows "keeps r (apply_floor v base r)"
proof -
  let ?s = "r \<lparr> rg_next_stamp := Suc (rg_next_stamp r) \<rparr>"
  have "keeps r ?s" by (rule keeps_same) (simp_all add: fun_eq_iff scope_at_def scopes_of_def)
  moreover have "keeps ?s (retire_all v ?s)" by (rule keeps_retire [OF registry_okD(2) [OF next_stamp_ok [OF assms]]])
  moreover have "keeps (retire_all v ?s) (fresh_floor v base r)"
    by (rule keeps_same) (simp_all add: fresh_floor_def set_vault_def fun_eq_iff scope_at_def scopes_of_def)
  ultimately have "keeps r (fresh_floor v base r)" by (blast intro: keeps_trans)
  with apply_floor_cases [of v base r] show ?thesis by auto
qed

lemma keeps_add_holder: "keeps r (snd (add_holder v sid ident watch r))"
proof -
  have "served (snd (add_holder v sid ident watch r)) x" if s: "served r x" for x
  proof -
    from s obtain u k sc where u: "scope_at r u k = Some sc" "ls_context sc = Some x" unfolding served_def by blast
    then have "ls_context (with_holder v sid ident watch r) = Some x" if "u = v" "k = sid" using that by simp
    with u show ?thesis unfolding served_def
      by (cases "u = v \<and> k = sid") (force, metis add_holder_scope)
  qed
  then show ?thesis by (simp add: keeps_def running_def)
qed

lemma keeps_reserve:
  assumes "registry_ok po r"
  shows "keeps r (snd (reserve po v watch rules current daemon_exclusions random r))"
proof -
  have "keeps r (snd (add_holder v sid ident watch (apply_floor v base r)))" for base sid ident
    by (rule keeps_trans [OF keeps_apply_floor [OF assms] keeps_add_holder])
  then show ?thesis
    using keeps_retire [OF registry_okD(2) [OF assms]] keeps_apply_floor [OF assms]
    unfolding reserve_def Let_def by (auto simp: split_beta split: sum.split option.split)
qed

lemma keeps_replace:
  assumes "registry_ok po r"
  shows "keeps r (replace_vault v p r)"
proof (rule keeps_trans [OF keeps_retire [OF registry_okD(2) [OF assms]]])
  show "keeps (retire_all v r) (replace_vault v p r)"
    by (rule keeps_same) (simp_all add: replace_vault_eq set_vault_def fun_eq_iff scope_at_def scopes_of_def)
qed

lemma keeps_new_vault: "struct_ok r \<Longrightarrow> keeps r (snd (new_vault dir r))"
  by (rule keeps_same) (simp_all add: fun_eq_iff scope_at_def new_vault_scopes)

lemma keeps_lookup:
  assumes ok: "registry_ok po r" and up: "\<forall>v. referenced r v \<longrightarrow> ra_upgrade ra v"
  shows "keeps r (snd (lookup_root ra path create r))"
proof -
  have e: "keeps r (snd (enroll_root (enrolled_vault ra dir r) dir enrolling r))" for dir enrolling
  proof (cases "enrolled_vault ra dir r")
    case None
    then show ?thesis by (simp add: enroll_root_def split_beta keeps_new_vault [OF registry_okD(1) [OF ok]])
  next
    case (Some v)
    then have "map_of (rg_roots r) (vr_path dir) = Some v" using enrolled_vault_known [OF ok] by blast
    then have r: "registry_ok po (replace_vault v (vr_path dir) r)" by (rule replace_vault_ok [OF ok])
    note k = keeps_replace [OF ok, of v "vr_path dir"]
    from keeps_trans [OF k keeps_new_vault [OF registry_okD(1) [OF r]]] k Some show ?thesis
      by (simp add: enroll_root_def Let_def split_beta)
  qed
  have e': "keeps r (snd (enroll_root p dir enrolling r))" if "enrolled_vault ra dir r = p" for p dir enrolling
    unfolding that [symmetric] by (rule e)
  show ?thesis unfolding lookup_root_def Let_def
    by (auto simp: split_beta split: sum.split option.split bool.split intro: e')
qed


lemma keeps_drop_grant: "keeps r (drop_grant h r)"
proof (cases "drop_grant h r = r")
  case ch: False
  let ?r = "drop_grant h r"
  obtain sc where sc: "scope_at r (at_vault h) (at_scope h) = Some sc"
    and so: "\<And>u. scopes_of ?r u = (if u = at_vault h then (case without_holder h sc of None \<Rightarrow> AList.delete (at_scope h) (scopes_of r u)
          | Some sc' \<Rightarrow> AList.update (at_scope h) sc' (scopes_of r u)) else scopes_of r u)"
    and cx: "\<And>x. rg_contexts ?r x = (if ls_context sc = Some x then dropped_context h sc (rg_contexts r x) else rg_contexts r x)"
    by (rule drop_grant_cases [OF ch]) blast
  have "running r x \<and> (served r x \<longrightarrow> served ?r x)" if run: "running ?r x" for x
  proof (cases "ls_context sc = Some x")
    case True
    with run cx [of x] obtain sc' where sc': "without_holder h sc = Some sc'"
      by (cases "without_holder h sc") (auto simp: running_def dropped_context_def context_retire_def)
    have "running r x" using run cx [of x] True sc' by (auto simp: running_def dropped_context_def split: if_splits)
    moreover have "scope_at ?r (at_vault h) (at_scope h) = Some sc'" by (simp add: scope_at_def so sc' update_conv')
    ultimately show ?thesis using without_holder_Some(2) [OF sc'] True unfolding served_def by metis
  next
    case False
    have "scope_at ?r u k = scope_at r u k" if "\<not> (u = at_vault h \<and> k = at_scope h)" for u k
      using that by (auto simp: scope_at_def so update_conv' delete_conv' split: option.split)
    then have "served ?r x" if "served r x" using that False sc unfolding served_def by (metis option.inject)
    with run cx [of x] False show ?thesis by (simp add: running_def)
  qed
  then show ?thesis unfolding keeps_def by blast
qed simp

lemma publish_orphans:
  assumes ok: "registry_ok po r" and p: "publishing po r c v ex grant i x pending h sc cn" and no: "no_orphans r"
  shows "no_orphans (publish_state c v (at_scope h) sc x pending i cn r)" (is "no_orphans ?r")
  unfolding no_orphans_def
proof (intro allI impI)
  fix y assume run: "running ?r y"
  show "served ?r y"
  proof (cases "y = x")
    case True
    then have "scope_at ?r v (at_scope h) = Some (sc \<lparr> ls_context := Some x \<rparr>)" by simp
    with True show ?thesis unfolding served_def by (metis LiveScope.select_convs(2) LiveScope.surjective LiveScope.update_convs(2))
  next
    case False
    with run have "running r y" by (simp add: running_def)
    with no obtain u k s where s: "scope_at r u k = Some s" "ls_context s = Some y" unfolding no_orphans_def served_def by blast
    have "\<not> (u = v \<and> k = at_scope h)"
    proof
      assume "u = v \<and> k = at_scope h"
      with s p have e: "ls_context sc = Some y" by (auto simp: publishing_def)
      obtain w where "hold sc (at_id h) = Some w" using p by (auto simp: publishing_def)
      from publishingD(6) [OF ok p this] e False show False by (simp add: open_seen_def)
    qed
    with s have "scope_at ?r u k = Some s" by auto
    with s(2) show ?thesis unfolding served_def by blast
  qed
qed

lemma attach_publish_orphans:
  assumes ok: "registry_ok po r" and no: "no_orphans r"
  shows "no_orphans (attach_publish c r)"
proof (rule attach_publish_cases [OF ok, of c])
  fix v ex grant i x pending
  assume "attach_publish c r = set_phase c (Releasing grant) (unlock_init i r)"
  then show ?thesis using no keeps_orphans [of r "attach_publish c r"] by simp
next
  fix v ex grant i x pending h sc cn
  assume "publishing po r c v ex grant i x pending h sc cn" "attach_publish c r = publish_state c v (at_scope h) sc x pending i cn r"
  with publish_orphans [OF ok _ no] show ?thesis by metis
qed (simp add: no)


lemma registry_step_orphans:
  assumes step: "registry_step po r r'" and ok: "registry_ok po r" and no: "no_orphans r"
  shows "no_orphans r'"
  using step
proof cases
  case (asked c ra show_nat path watch model descriptor)
  have "keeps r (snd (attach_begin po show_nat ra path watch model descriptor c r))"
    using keeps_lookup [OF ok asked(3), of path True]
    by (cases "lookup_root ra path True r") (auto simp: attach_begin_def split: sum.split option.split)
  with asked(1) no show ?thesis using keeps_orphans by blast
next
  case (floor_locked c)
  have "keeps r (attach_lock_floor c r)"
    by (cases "cn_phase (rg_connections r c)")
       (auto simp: attach_lock_floor_def intro!: keeps_same simp: set_vault_def fun_eq_iff scope_at_def scopes_of_def)
  with floor_locked(1) no show ?thesis using keeps_orphans by blast
next
  case (reserved c v watch rules random daemon_exclusions)
  have "keeps r (attach_reserve po daemon_exclusions random c r)"
    using keeps_reserve [OF ok, of v watch rules "cn_attachment (rg_connections r c)" daemon_exclusions random] reserved(2)
    by (auto simp: attach_reserve_def split: prod.split sum.split)
  with reserved(1) no show ?thesis using keeps_orphans by blast
next
  case (init_locked c)
  have "keeps r (r \<lparr> rg_init_owner := f \<rparr>)" for f by (rule keeps_same) (simp_all add: fun_eq_iff scope_at_def scopes_of_def)
  then have "keeps r (attach_initialize c r)"
    by (auto simp: attach_initialize_def split: Phase.split option.split)
  with init_locked(1) no show ?thesis using keeps_orphans by blast
next
  case (started c)
  have "keeps r (attach_start c r)" by (auto simp: attach_start_def split: Phase.split)
  with started no show ?thesis using keeps_orphans by blast
next
  case (opened c)
  have "keeps r (open_context v ex watcher r)" for v ex watcher by (auto simp: keeps_def running_def served_def)
  then have "keeps r (attach_open c r)" by (auto simp: attach_open_def open_context_def split: Phase.split option.split)
  with opened no show ?thesis using keeps_orphans by blast
next
  case (published c)
  with attach_publish_orphans [OF ok no] show ?thesis by simp
next
  case (aborted c)
  have "keeps r (attach_abort c r)" by (auto simp: attach_abort_def Let_def split: Phase.split option.split)
  with aborted(1) no show ?thesis using keeps_orphans by blast
next
  case (released c)
  have "keeps r (connection_release c r)" by (auto simp: connection_release_def keeps_drop_grant split: Phase.split option.split)
  with released no show ?thesis using keeps_orphans by blast
next
  case (hung_up c)
  have "keeps r (connection_close c r)" by (rule keeps_same) (simp_all add: connection_close_def fun_eq_iff scope_at_def scopes_of_def)
  with hung_up(1) no show ?thesis using keeps_orphans by blast
next
  case (looked_up ra path)
  with keeps_lookup [OF ok looked_up(2), of path False] no show ?thesis using keeps_orphans by blast
next
  case (vault_dropped v)
  have "keeps r (drop_vault v r)" by (rule keeps_same) (simp_all add: drop_vault_def Let_def fun_eq_iff scope_at_def scopes_of_def)
  with vault_dropped(1) no show ?thesis using keeps_orphans by blast
next
  case closing
  have "keeps r (close_begin r)" by (rule keeps_same) (simp_all add: close_begin_def fun_eq_iff scope_at_def scopes_of_def)
  with closing no show ?thesis using keeps_orphans by blast
next
  case (collected upgrade)
  have "keeps r (close_collect upgrade r)" by (rule keeps_same) (simp_all add: close_collect_def fun_eq_iff scope_at_def scopes_of_def)
  with collected(1) no show ?thesis using keeps_orphans by blast
next
  case closed_one
  have "keeps r (close_next r)"
  proof (cases "rg_closing r")
    case (Some vs)
    have "keeps r (retire_all v (r \<lparr> rg_closing := Some us \<rparr>))" for v us
    proof (rule keeps_trans)
      show "keeps r (r \<lparr> rg_closing := Some us \<rparr>)" by (rule keeps_same) (simp_all add: fun_eq_iff scope_at_def scopes_of_def)
      show "keeps (r \<lparr> rg_closing := Some us \<rparr>) (retire_all v (r \<lparr> rg_closing := Some us \<rparr>))"
        by (rule keeps_retire) (use registry_okD(2) [OF ok] in \<open>simp add: tables_ok_def scope_at_def scopes_of_def\<close>)
    qed
    with Some show ?thesis by (cases vs) (simp_all add: close_next_def)
  qed (simp add: close_next_def)
  with closed_one no show ?thesis using keeps_orphans by blast
qed

lemma reachable_orphans: "registry_reachable po blank r \<Longrightarrow> \<not> vc_active blank \<Longrightarrow> no_orphans r"
proof (induction rule: registry_reachable.induct)
  case init
  then show ?case by (simp add: no_orphans_def running_def registry_init_def)
next
  case step
  then show ?case by (blast intro: registry_step_orphans registry_reachable_ok)
qed

section \<open>Closing is final\<close>

lemma closing_kept:
  assumes step: "registry_step po r r'" and c: "rg_closing r = Some []" "rg_closed r"
  shows "rg_closing r' = Some [] \<and> rg_closed r'"
  using step
proof cases
  case (asked d ra show_nat path watch model descriptor)
  with c show ?thesis by (auto simp: attach_begin_def lookup_root_def split: sum.split option.split)
next
  case (reserved d v watch rules random daemon_exclusions)
  with c show ?thesis by (simp add: attach_reserve_def reserve_def unlock_floor_def set_vault_def)
next
  case (published d)
  with c show ?thesis
    by (auto simp: attach_publish_def Let_def set_vault_def set_context_def unlock_init_def split: Phase.split option.split)
next
  case (opened d)
  with c show ?thesis by (auto simp: attach_open_def set_context_def split: Phase.split option.split)
next
  case (aborted d)
  with c show ?thesis by (auto simp: attach_abort_def Let_def unlock_init_def split: Phase.split option.split)
qed (use c in \<open>auto simp: attach_lock_floor_def set_vault_def attach_initialize_def attach_start_def
    connection_release_def connection_close_def drop_vault_def close_begin_def close_next_def lookup_root_def Let_def
    split: Phase.split option.split sum.split\<close>)


section \<open>Properties\<close>

lemma view_context_scope:
  assumes ok: "registry_ok po r" and x: "view_context r v ident = Some x"
  obtains k sc c where "scope_at r v k = Some sc" "ls_context sc = Some x" "holds r c \<lparr> at_vault = v, at_scope = k, at_id = ident \<rparr>"
proof -
  from x obtain k sc where b: "by_holder ident (scopes_of r v) = Some (k, sc)" "ls_context sc = Some x"
    by (auto simp: view_context_def bind_eq_Some_conv)
  have s: "scope_at r v k = Some sc" "hold sc ident \<noteq> None"
    using by_holder_Some [OF b(1)] registry_okD(2) [OF ok] by (simp_all add: scope_at_def tables_ok_def)
  with registry_okD(3) [OF ok] b(2) that show ?thesis unfolding holders_ok_def by blast
qed

lemma attachment_context:
  assumes ok: "registry_ok po r" and h: "cn_attachment (rg_connections r c) = Some h"
    and b: "by_holder (at_id h) (scopes_of r (at_vault h)) = Some (k, sc)"
  shows "k = at_scope h" "\<exists>x. view_context r (at_vault h) (at_id h) = Some x
    \<and> (map_of (ls_holders sc) (at_id h) = Some True \<longrightarrow> vc_watching (rg_contexts r x))"
proof -
  have "holds r c h" using h by (simp add: holds_def)
  note s = by_holder_scope [OF ok this b]
  from s(4) obtain w where w: "hold sc (at_id h) = Some w" by blast
  with registry_okD(12) [OF ok] h s(3) obtain x where x: "ls_context sc = Some x" "w \<longrightarrow> vc_watching (rg_contexts r x)"
    unfolding attached_ok_def by blast
  with b w show "k = at_scope h" "\<exists>x. view_context r (at_vault h) (at_id h) = Some x
      \<and> (map_of (ls_holders sc) (at_id h) = Some True \<longrightarrow> vc_watching (rg_contexts r x))"
    using s(1) by (auto simp: view_context_def hold_def)
qed

text \<open>
  Property C9. However connections, floor readings, replaced roots and the closing of the registry interleave: a context that a
  query gets for a holder is published and not retired, is the context of that holder's vault, and was indexed under a policy
  merged from the floor the vault has now, with the scope's own identity; its watcher runs only if a holder of the scope asked
  for one. No published context outlives its scope. And a connection whose holder still stands has a context, with a
  running watcher if it asked for one.
\<close>
theorem attached_views_current:
  assumes "registry_reachable po blank r" and "\<not> vc_active blank"
  shows "(\<forall>v ident x. view_context r v ident = Some x \<longrightarrow>
      (\<exists>k sc c. map_of (scopes_of r v) k = Some sc \<and> holds r c \<lparr> at_vault = v, at_scope = k, at_id = ident \<rparr>
         \<and> vc_live (rg_contexts r x) \<and> vc_active (rg_contexts r x) \<and> vc_root (rg_contexts r x) = av_root (rg_vaults r v)
         \<and> policy_ok po (rg_vaults r v) k (vc_exclude (rg_contexts r x))
         \<and> (vc_watching (rg_contexts r x) \<longrightarrow> scope_watching sc)))
    \<and> (\<forall>x. vc_active (rg_contexts r x) \<and> vc_live (rg_contexts r x) \<longrightarrow>
        (\<exists>v k sc. map_of (scopes_of r v) k = Some sc \<and> ls_context sc = Some x \<and> ls_holders sc \<noteq> []))
    \<and> (\<forall>c h k sc. cn_attachment (rg_connections r c) = Some h \<longrightarrow> by_holder (at_id h) (scopes_of r (at_vault h)) = Some (k, sc) \<longrightarrow>
        k = at_scope h \<and> (\<exists>x. view_context r (at_vault h) (at_id h) = Some x
          \<and> (map_of (ls_holders sc) (at_id h) = Some True \<longrightarrow> vc_watching (rg_contexts r x))))"
proof (intro conjI allI impI)
  have ok: "registry_ok po r" by (rule registry_reachable_ok [OF assms(1)])
  {
    fix v ident x assume "view_context r v ident = Some x"
    then obtain k sc c where s: "scope_at r v k = Some sc" "ls_context sc = Some x" and c: "holds r c \<lparr> at_vault = v, at_scope = k, at_id = ident \<rparr>"
      by (rule view_context_scope [OF ok])
    from contexts_okD [OF registry_okD(9) [OF ok] s] s(1) c
    show "\<exists>k sc c. map_of (scopes_of r v) k = Some sc \<and> holds r c \<lparr> at_vault = v, at_scope = k, at_id = ident \<rparr>
         \<and> vc_live (rg_contexts r x) \<and> vc_active (rg_contexts r x) \<and> vc_root (rg_contexts r x) = av_root (rg_vaults r v)
         \<and> policy_ok po (rg_vaults r v) k (vc_exclude (rg_contexts r x))
         \<and> (vc_watching (rg_contexts r x) \<longrightarrow> scope_watching sc)" unfolding scope_at_def by blast
  }
  {
    fix x assume "vc_active (rg_contexts r x) \<and> vc_live (rg_contexts r x)"
    then have "served r x" using reachable_orphans [OF assms] by (simp add: no_orphans_def running_def)
    with registry_okD(2) [OF ok] show "\<exists>v k sc. map_of (scopes_of r v) k = Some sc \<and> ls_context sc = Some x \<and> ls_holders sc \<noteq> []"
      unfolding served_def tables_ok_def scope_at_def by blast
  }
  {
    fix c h k sc
    assume a: "cn_attachment (rg_connections r c) = Some h" "by_holder (at_id h) (scopes_of r (at_vault h)) = Some (k, sc)"
    show "k = at_scope h" by (rule attachment_context(1) [OF ok a])
    show "\<exists>x. view_context r (at_vault h) (at_id h) = Some x
        \<and> (map_of (ls_holders sc) (at_id h) = Some True \<longrightarrow> vc_watching (rg_contexts r x))"
      by (rule attachment_context(2) [OF ok a])
  }
qed

text \<open>
  Property C10. Closing is final: once the registry has retired the vaults it collected, and after every further step, no
  published context is live, no vault has a scope, and no query finds a context, whatever the file system answers.
\<close>
theorem closed_registry_final:
  assumes "registry_reachable po blank r" and "\<not> vc_active blank" and "rg_closing r = Some []"
    and "(registry_step po)\<^sup>*\<^sup>* r r'"
  shows "(\<forall>x. vc_active (rg_contexts r' x) \<longrightarrow> \<not> vc_live (rg_contexts r' x)) \<and> (\<forall>v. scopes_of r' v = [])
    \<and> (\<forall>ra path holder x. fst (context_for_holder ra path holder r') \<noteq> Inr (Some x))"
proof -
  have "registry_reachable po blank r' \<and> rg_closing r' = Some [] \<and> rg_closed r'"
    using assms(4)
  proof induction
    case base
    with assms registry_okD(7) [OF registry_reachable_ok [OF assms(1)]] show ?case by (simp add: closing_ok_def)
  next
    case (step s t)
    with closing_kept [of po s t] registry_reachable.step [of po blank s t] show ?case by blast
  qed
  then have r: "registry_reachable po blank r'" "rg_closing r' = Some []" "rg_closed r'" by simp_all
  have empty: "scopes_of r' v = []" for v
    using registry_okD(7) [OF registry_reachable_ok [OF r(1)]] r(2) by (simp add: closing_ok_def)
  then have "\<not> served r' x" for x by (simp add: served_def scope_at_def)
  with reachable_orphans [OF r(1) assms(2)] have "\<not> running r' x" for x unfolding no_orphans_def by blast
  moreover have "fst (context_for_holder ra path holder r') \<noteq> Inr (Some x)" for ra path holder x
    using r(3) by (auto simp: context_for_holder_def lookup_root_def split: sum.split)
  ultimately show ?thesis using empty by (simp add: running_def)
qed


section \<open>A run of one connection\<close>

definition sample_policies :: "(str, str list) Policies" where
  "sample_policies = \<lparr> po_glob = Inr, po_set = Inr, po_private = False, po_digest = (\<lambda>s. s), po_storage_key = (\<lambda>s. s), po_model = ''m'' \<rparr>"

definition sample_dir :: VaultRoot where "sample_dir = \<lparr> vr_path = ''/v'', vr_object = 7 \<rparr>"

definition sample_floor :: "str list ExcludeSet" where
  "sample_floor = \<lparr> globs = [], patterns = [], private_memory = False \<rparr>"

definition sample_blank :: "str list VaultContext" where
  "sample_blank = \<lparr> vc_root = \<lparr> vr_path = [], vr_object = 0 \<rparr>, vc_exclude = sample_floor, vc_live = False, vc_active = False, vc_watching = False \<rparr>"

definition sample_answers :: RootAnswers where
  "sample_answers = \<lparr> ra_first = Inr sample_dir, ra_second = Inr sample_dir, ra_same_previous = Inr True, ra_same_current = Inr True,
     ra_upgrade = (\<lambda>_. True) \<rparr>"

text \<open>The states of the run, written out.\<close>

definition sample_rules :: "str list ExcludeSet" where
  "sample_rules = \<lparr> globs = [''x/**''], patterns = [''x/**''], private_memory = False \<rparr>"

definition sample_view :: str where "sample_view = policy_scope sample_policies sample_dir sample_rules"

definition sample_grant :: VaultAttachment where "sample_grant = \<lparr> at_vault = 0, at_scope = sample_view, at_id = ''a'' \<rparr>"

definition sample_vault :: "nat option \<Rightarrow> (nat \<times> str list ExcludeSet) option \<Rightarrow> (str \<times> LiveScope) list \<Rightarrow> str list AttachedVault" where
  "sample_vault refreshing base scopes =
     \<lparr> av_root = sample_dir, av_refreshing = refreshing, av_replaced = False, av_floor = base, av_scopes = scopes \<rparr>"

definition sample_state ::
  "str list AttachedVault \<Rightarrow> str list VaultContext \<Rightarrow> nat \<Rightarrow> nat \<Rightarrow> nat option \<Rightarrow> str list Connection \<Rightarrow> bool \<Rightarrow> nat list option
     \<Rightarrow> str list Registry" where
  "sample_state vault ctx contexts stamps owner connection shut closing =
     \<lparr> rg_roots = [(''/v'', 0)], rg_closed = shut, rg_closing = closing,
       rg_vaults = (rg_vaults (registry_init sample_blank))(0 := vault), rg_next_vault = 1,
       rg_contexts = (rg_contexts (registry_init sample_blank))(0 := ctx), rg_next_context = contexts,
       rg_next_stamp = stamps, rg_init_owner = (\<lambda>_. None)(1 := owner),
       rg_connections = (rg_connections (registry_init sample_blank))(0 := connection) \<rparr>"

definition sample_live :: "nat option \<Rightarrow> (str \<times> LiveScope) list" where
  "sample_live x = [(sample_view, \<lparr> ls_init = 1, ls_context = x, ls_holders = [(''a'', True)] \<rparr>)]"

definition sample_context :: "bool \<Rightarrow> bool \<Rightarrow> bool \<Rightarrow> str list VaultContext" where
  "sample_context live active watching =
     \<lparr> vc_root = sample_dir, vc_exclude = sample_rules, vc_live = live, vc_active = active, vc_watching = watching \<rparr>"

definition sample_phase :: "VaultAttachment option \<Rightarrow> str list Phase \<Rightarrow> str list Connection" where
  "sample_phase attachment p = \<lparr> cn_attachment = attachment, cn_phase = p \<rparr>"

lemmas sample_defs = sample_state_def sample_vault_def sample_live_def sample_context_def sample_phase_def sample_grant_def
  registry_init_def set_phase_def set_vault_def set_context_def scopes_of_def

definition sample_asked :: "str list Registry" where
  "sample_asked = sample_state (sample_vault None None []) sample_blank 0 0 None (sample_phase None (Waiting 0 True [''x/''])) False None"

definition sample_loading :: "str list Registry" where
  "sample_loading = sample_state (sample_vault (Some 0) None []) sample_blank 0 0 None (sample_phase None (Loading 0 True [''x/''])) False None"

definition sample_held :: "nat option \<Rightarrow> str list VaultContext \<Rightarrow> nat \<Rightarrow> nat option \<Rightarrow> str list Connection \<Rightarrow> str list Registry" where
  "sample_held x ctx contexts owner connection =
     sample_state (sample_vault None (Some (0, sample_floor)) (sample_live x)) ctx contexts 2 owner connection False None"

definition sample_published :: "str list Registry" where
  "sample_published = sample_held (Some 0) (sample_context True True True) 1 None (sample_phase (Some sample_grant) Idle)"

definition sample_closed :: "str list Registry" where
  "sample_closed = sample_state (sample_vault None None []) (sample_context False True False) 1 2 None
     (sample_phase (Some sample_grant) Idle) True (Some [])"

lemma sample_merged: "floor_merged sample_policies sample_floor [''x/''] = Inr sample_rules"
  by code_simp

lemma sample_asked_eq:
  "snd (attach_begin sample_policies (\<lambda>_. []) sample_answers ''/v'' True ''m''
     \<lparr> ix_version = 1, ix_exclude_patterns = [''x/''] \<rparr> 0 (registry_init sample_blank)) = sample_asked"
  by (simp add: sample_asked_def sample_defs attach_begin_def IndexScope_validate_def sample_policies_def lookup_root_def
      open_requested_root_def sample_answers_def sample_dir_def starts_with_def enrolled_vault_def enroll_root_def new_vault_def fun_eq_iff)

lemma sample_loading_eq: "attach_lock_floor 0 sample_asked = sample_loading"
  by (simp add: sample_asked_def sample_loading_def sample_defs attach_lock_floor_def)

lemma sample_reserved_eq:
  "attach_reserve sample_policies (Inr sample_floor) (Inr ''a'') 0 sample_loading =
     sample_held None sample_blank 0 None (sample_phase None (Reserved 0 sample_rules (Some sample_grant) 1))"
  by (simp add: sample_loading_def sample_held_def sample_defs attach_reserve_def reserve_def load_policy_def sample_merged
      apply_floor_def retire_all_def List.map_filter_def add_holder_def unlock_floor_def sample_view_def Let_def)

lemma sample_initializing_eq:
  "attach_initialize 0 (sample_held None sample_blank 0 None (sample_phase None (Reserved 0 sample_rules (Some sample_grant) 1))) =
     sample_held None sample_blank 0 (Some 0) (sample_phase None (Initializing 0 sample_rules (Some sample_grant) 1 None True))"
  by (simp add: sample_held_def sample_defs attach_initialize_def holder_of_def by_holder_def scope_watching_def all_bool_eq)

lemma sample_starting_eq:
  "attach_start 0 (sample_held None sample_blank 0 (Some 0) (sample_phase None (Initializing 0 sample_rules (Some sample_grant) 1 None True))) =
     sample_held None sample_blank 0 (Some 0) (sample_phase None (Starting 0 sample_rules (Some sample_grant) 1 None True))"
  by (simp add: sample_held_def sample_defs attach_start_def)

lemma sample_opened_eq:
  "attach_open 0 (sample_held None sample_blank 0 (Some 0) (sample_phase None (Starting 0 sample_rules (Some sample_grant) 1 None True))) =
     sample_held None (sample_context True False True) 1 (Some 0) (sample_phase None (Opened 0 sample_rules (Some sample_grant) 1 0 False))"
  by (simp add: sample_held_def sample_defs attach_open_def)

lemma sample_published_eq:
  "connection_release 0 (attach_publish 0 (sample_held None (sample_context True False True) 1 (Some 0)
      (sample_phase None (Opened 0 sample_rules (Some sample_grant) 1 0 False)))) = sample_published"
  by (simp add: sample_published_def sample_held_def sample_defs attach_publish_def holder_of_def publish_context_def scope_watching_def
      context_activate_def unlock_init_def connection_release_def Let_def)

lemma sample_closed_eq: "close_next (close_collect (\<lambda>_. True) (close_begin sample_published)) = sample_closed"
  by (simp add: sample_closed_def sample_published_def sample_held_def sample_defs close_next_def close_collect_def close_begin_def
      retire_all_def List.map_filter_def context_retire_def)

lemma sample_loading_reached: "registry_reachable sample_policies sample_blank sample_loading"
proof -
  have a: "registry_reachable sample_policies sample_blank sample_asked"
    unfolding sample_asked_eq [symmetric]
    by (rule registry_reachable.step [OF registry_reachable.init registry_step.asked]) (simp_all add: registry_init_def sample_answers_def)
  show ?thesis unfolding sample_loading_eq [symmetric]
    by (rule registry_reachable.step [OF a registry_step.floor_locked]) (simp_all add: sample_asked_def sample_defs)
qed

lemma sample_published_reached: "registry_reachable sample_policies sample_blank sample_published"
proof -
  have free: "\<not> holds sample_loading d h" for d h
    by (cases "d = 0") (simp_all add: holds_def sample_loading_def sample_defs phase_grant_def)
  have "registry_reachable sample_policies sample_blank (attach_reserve sample_policies (Inr sample_floor) (Inr ''a'') 0 sample_loading)"
    by (rule registry_reachable.step [OF sample_loading_reached registry_step.reserved [where v = 0 and watch = True and rules = "[''x/'']"]])
       (simp_all add: free, simp add: sample_loading_def sample_defs)
  then have r: "registry_reachable sample_policies sample_blank
      (sample_held None sample_blank 0 None (sample_phase None (Reserved 0 sample_rules (Some sample_grant) 1)))"
    unfolding sample_reserved_eq .
  have "registry_reachable sample_policies sample_blank
      (sample_held None sample_blank 0 (Some 0) (sample_phase None (Initializing 0 sample_rules (Some sample_grant) 1 None True)))"
    unfolding sample_initializing_eq [symmetric]
    by (rule registry_reachable.step [OF r registry_step.init_locked]) (simp_all add: sample_held_def sample_defs)
  then show ?thesis unfolding sample_published_eq [symmetric] sample_opened_eq [symmetric] sample_starting_eq [symmetric]
    by (intro registry_reachable.step [OF _ registry_step.released] registry_reachable.step [OF _ registry_step.published]
        registry_reachable.step [OF _ registry_step.opened] registry_reachable.step [OF _ registry_step.started])
qed

lemma sample_closed_reached: "registry_reachable sample_policies sample_blank sample_closed"
proof -
  have "registry_reachable sample_policies sample_blank (close_begin sample_published)"
    by (rule registry_reachable.step [OF sample_published_reached registry_step.closing])
  then have "registry_reachable sample_policies sample_blank (close_collect (\<lambda>_. True) (close_begin sample_published))"
    by (rule registry_reachable.step [OF _ registry_step.collected])
       (simp_all add: close_begin_def sample_published_def sample_held_def sample_defs)
  then show ?thesis unfolding sample_closed_eq [symmetric] by (rule registry_reachable.step [OF _ registry_step.closed_one])
qed

lemma attached_views_current_witness:
  "\<exists>k sc c. map_of (scopes_of sample_published 0) k = Some sc \<and> holds sample_published c \<lparr> at_vault = 0, at_scope = k, at_id = ''a'' \<rparr>
     \<and> vc_live (rg_contexts sample_published 0) \<and> vc_active (rg_contexts sample_published 0)
     \<and> vc_watching (rg_contexts sample_published 0) \<and> scope_watching sc
     \<and> policy_ok sample_policies (rg_vaults sample_published 0) k (vc_exclude (rg_contexts sample_published 0))"
proof -
  have x: "view_context sample_published 0 ''a'' = Some 0" "vc_watching (rg_contexts sample_published 0)" "\<not> vc_active sample_blank"
    by (simp_all add: view_context_def by_holder_def sample_published_def sample_held_def sample_defs sample_blank_def ex_bool_eq)
  from attached_views_current [OF sample_published_reached x(3)] x(1,2) show ?thesis by blast
qed

lemma closed_registry_final_witness:
  "rg_closing sample_closed = Some [] \<and> vc_active (rg_contexts sample_closed 0) \<and> \<not> vc_live (rg_contexts sample_closed 0)
   \<and> scopes_of sample_closed 0 = []"
proof -
  have c: "rg_closing sample_closed = Some []" "vc_active (rg_contexts sample_closed 0)" "\<not> vc_active sample_blank"
    by (simp_all add: sample_closed_def sample_defs sample_blank_def)
  from closed_registry_final [OF sample_closed_reached c(3,1) rtranclp.rtrancl_refl] c show ?thesis by blast
qed

end
