(* ===== verification/Walk.thy ===== *)
theory Walk
  imports IndexRun "HOL-Library.Multiset"
begin

text \<open>
  The recursive listing of a directory (\<^verbatim>\<open>visit_entries\<close> in src/src/vault/fs.rs and \<^verbatim>\<open>visit_files\<close> in
  src/src/vault/index.rs). The directories of the operating system are a parameter: what opening a
  path without following links answers, and the entries it then lists. The loop keeps a stack of
  directories still to visit; whether it ends depends on the disk, so it is a partial function into
  an option, with a proof that it returns on a finite tree.
\<close>

section \<open>What a directory answers\<close>

datatype file_kind = KindFile | KindDir | KindOther

record DirEntry =
  file_name :: str
  file_type :: "file_kind vault_result"

record Tree =
  open_dir_exact :: "str \<Rightarrow> unit vault_result"
  dir_entries :: "str \<Rightarrow> DirEntry vault_result list vault_result"

text \<open>\<^verbatim>\<open>Path::join\<close> of a relative directory and an entry name.\<close>

definition native_join :: "str \<Rightarrow> str \<Rightarrow> str" where
  "native_join base name = (if base = [] then name else base @ ''/'' @ name)"

section \<open>The walk\<close>

text \<open>
  The closures are arguments: \<open>check\<close> answers its \<open>n\<close>-th call, \<open>visit\<close> updates the caller's state \<open>'a\<close>,
  which is lost when it fails, as every caller returns the error.
\<close>

fun visit_dir ::
  "bool \<Rightarrow> (str \<Rightarrow> bool) \<Rightarrow> (nat \<Rightarrow> unit vault_result) \<Rightarrow> (str \<Rightarrow> bool \<Rightarrow> bool \<Rightarrow> 'a \<Rightarrow> 'a vault_result) \<Rightarrow> str
     \<Rightarrow> DirEntry vault_result list \<Rightarrow> nat \<times> str list \<times> 'a \<Rightarrow> (nat \<times> str list \<times> 'a) vault_result" where
  "visit_dir recursive include_name check visit base [] st = Inr st"
| "visit_dir recursive include_name check visit base (entry # entries) (n, pending, a) =
     try_bind (check n) (\<lambda>_.
     try_bind entry (\<lambda>entry.
       if \<not> include_name (file_name entry)
       then visit_dir recursive include_name check visit base entries (Suc n, pending, a)
       else case portable_native (native_join base (file_name entry)) of
         Inl (InvalidPath _) \<Rightarrow> visit_dir recursive include_name check visit base entries (Suc n, pending, a)
       | Inl e \<Rightarrow> Inl e
       | Inr path \<Rightarrow>
           (case file_type entry of
              Inl (Io IoNotFound _) \<Rightarrow> visit_dir recursive include_name check visit base entries (Suc n, pending, a)
            | Inl e \<Rightarrow> Inl e
            | Inr kind \<Rightarrow>
                let pending' = (if recursive \<and> kind = KindDir then path # pending else pending) in
                try_bind (visit path (kind = KindFile) (kind = KindDir) a) (\<lambda>a'.
                  visit_dir recursive include_name check visit base entries (Suc n, pending', a')))))"

partial_function (option) visit_pending ::
  "Tree \<Rightarrow> str \<Rightarrow> bool \<Rightarrow> (str \<Rightarrow> bool) \<Rightarrow> (nat \<Rightarrow> unit vault_result)
     \<Rightarrow> (str \<Rightarrow> bool \<Rightarrow> bool \<Rightarrow> 'a \<Rightarrow> 'a vault_result) \<Rightarrow> nat \<Rightarrow> str list \<Rightarrow> 'a \<Rightarrow> 'a vault_result option" where
  "visit_pending tree directory recursive include_name check visit n stack a =
     (case stack of
        [] \<Rightarrow> Some (Inr a)
      | base # pending \<Rightarrow>
          (case check n of
             Inl e \<Rightarrow> Some (Inl e)
           | Inr _ \<Rightarrow>
               (case open_dir_exact tree base of
                  Inl e \<Rightarrow>
                    if base \<noteq> directory \<and> skip_changed_entry e
                    then visit_pending tree directory recursive include_name check visit (Suc n) pending a
                    else Some (Inl e)
                | Inr _ \<Rightarrow>
                    (case dir_entries tree base of
                       Inl e \<Rightarrow> Some (Inl e)
                     | Inr entries \<Rightarrow>
                         (case visit_dir recursive include_name check visit base entries (Suc n, pending, a) of
                            Inl e \<Rightarrow> Some (Inl e)
                          | Inr st \<Rightarrow>
                              visit_pending tree directory recursive include_name check visit
                                (fst st) (fst (snd st)) (snd (snd st)))))))"

text \<open>The equations by the shape of the stack, so that a walk can be evaluated.\<close>

lemma visit_pending_code [code]:
  "visit_pending tree directory recursive include_name check visit n [] a = Some (Inr a)"
  "visit_pending tree directory recursive include_name check visit n (base # pending) a =
     (case check n of
        Inl e \<Rightarrow> Some (Inl e)
      | Inr _ \<Rightarrow>
          (case open_dir_exact tree base of
             Inl e \<Rightarrow>
               if base \<noteq> directory \<and> skip_changed_entry e
               then visit_pending tree directory recursive include_name check visit (Suc n) pending a
               else Some (Inl e)
           | Inr _ \<Rightarrow>
               (case dir_entries tree base of
                  Inl e \<Rightarrow> Some (Inl e)
                | Inr entries \<Rightarrow>
                    (case visit_dir recursive include_name check visit base entries (Suc n, pending, a) of
                       Inl e \<Rightarrow> Some (Inl e)
                     | Inr st \<Rightarrow>
                         visit_pending tree directory recursive include_name check visit
                           (fst st) (fst (snd st)) (snd (snd st))))))"
  by (subst visit_pending.simps; simp)+

definition visit_entries ::
  "Tree \<Rightarrow> str \<Rightarrow> bool \<Rightarrow> (str \<Rightarrow> bool) \<Rightarrow> (nat \<Rightarrow> unit vault_result)
     \<Rightarrow> (str \<Rightarrow> bool \<Rightarrow> 'a \<Rightarrow> 'a vault_result) \<Rightarrow> 'a \<Rightarrow> 'a vault_result option" where
  "visit_entries tree directory recursive include_name check visit a =
     visit_pending tree directory recursive include_name check (\<lambda>path file _. visit path file) 0 [directory] a"

definition visit_files ::
  "Tree \<Rightarrow> str \<Rightarrow> (nat \<Rightarrow> unit vault_result) \<Rightarrow> (str \<Rightarrow> 'a \<Rightarrow> 'a vault_result) \<Rightarrow> 'a \<Rightarrow> 'a vault_result option" where
  "visit_files tree directory check visit a =
     visit_entries tree directory True is_visible_path check
       (\<lambda>path is_file a. if is_file then visit path a else Inr a) a"

section \<open>The files below a directory\<close>

text \<open>A name the walk looks at, and the path it gives it.\<close>

definition listed :: "Tree \<Rightarrow> str \<Rightarrow> str \<Rightarrow> file_kind \<Rightarrow> bool" where
  "listed tree base path kind \<longleftrightarrow>
     (\<exists>es en. open_dir_exact tree base = Inr () \<and> dir_entries tree base = Inr es \<and> Inr en \<in> set es
        \<and> is_visible_path (file_name en) \<and> portable_native (native_join base (file_name en)) = Inr path
        \<and> file_type en = Inr kind)"

inductive below :: "Tree \<Rightarrow> str \<Rightarrow> str \<Rightarrow> bool" for tree where
  here: "listed tree base path KindFile \<Longrightarrow> below tree base path"
| deeper: "listed tree base dir KindDir \<Longrightarrow> below tree dir path \<Longrightarrow> below tree base path"

inductive_simps below_iff: "below tree base path"

definition seen_in :: "str \<Rightarrow> DirEntry vault_result list \<Rightarrow> file_kind \<Rightarrow> str set" where
  "seen_in base es kind =
     {p. \<exists>en. Inr en \<in> set es \<and> is_visible_path (file_name en)
            \<and> portable_native (native_join base (file_name en)) = Inr p \<and> file_type en = Inr kind}"

lemma seen_in_Nil [simp]: "seen_in base [] kind = {}"
  by (simp add: seen_in_def)

lemma seen_in_Cons:
  "seen_in base (e # es) kind =
     (case e of
        Inl _ \<Rightarrow> {}
      | Inr en \<Rightarrow>
          if is_visible_path (file_name en) \<and> file_type en = Inr kind
          then {p. portable_native (native_join base (file_name en)) = Inr p} else {}) \<union> seen_in base es kind"
  by (auto simp: seen_in_def split: sum.splits)

lemma listed_seen:
  "listed tree base p kind \<longleftrightarrow>
     (\<exists>es. open_dir_exact tree base = Inr () \<and> dir_entries tree base = Inr es \<and> p \<in> seen_in base es kind)"
  by (auto simp: listed_def seen_in_def)

abbreviation always :: "nat \<Rightarrow> unit vault_result" where
  "always \<equiv> \<lambda>_. Inr ()"

abbreviation on_files :: "(str \<Rightarrow> 'a \<Rightarrow> 'a) \<Rightarrow> str \<Rightarrow> bool \<Rightarrow> bool \<Rightarrow> 'a \<Rightarrow> 'a vault_result" where
  "on_files upd \<equiv> \<lambda>p file _ a. if file then Inr (upd p a) else Inr a"

lemma visit_dir_result:
  "visit_dir True is_visible_path always (on_files upd) base es (n, pending, a) = Inr (n', pending', a') \<Longrightarrow>
   \<exists>ds fs. pending' = ds @ pending \<and> set ds = seen_in base es KindDir
     \<and> a' = fold upd fs a \<and> set fs = seen_in base es KindFile"
proof (induction es arbitrary: n pending a)
  case Nil
  then show ?case by simp
next
  case (Cons e es)
  obtain en where e: "e = Inr en" using Cons.prems by (cases e) auto
  have skip: ?case
    if "visit_dir True is_visible_path always (on_files upd) base es (Suc n, pending, a) = Inr (n', pending', a')"
      "seen_in base (e # es) KindDir = seen_in base es KindDir" "seen_in base (e # es) KindFile = seen_in base es KindFile"
    using Cons.IH [OF that(1)] that(2,3) by simp
  show ?case
  proof (cases "is_visible_path (file_name en)")
    case False
    with Cons.prems e show ?thesis by (intro skip) (auto simp: seen_in_Cons)
  next
    case vis: True
    show ?thesis
    proof (cases "portable_native (native_join base (file_name en))")
      case (Inl err)
      have "visit_dir True is_visible_path always (on_files upd) base es (Suc n, pending, a) = Inr (n', pending', a')"
        using Cons.prems e vis Inl by (cases err) auto
      with e vis Inl show ?thesis by (intro skip) (auto simp: seen_in_Cons)
    next
      case (Inr p)
      show ?thesis
      proof (cases "file_type en")
        case (Inl err)
        have "visit_dir True is_visible_path always (on_files upd) base es (Suc n, pending, a) = Inr (n', pending', a')"
          using Cons.prems e vis Inr Inl by (cases err; simp split: io_kind.splits)
        with e vis Inl show ?thesis by (intro skip) (auto simp: seen_in_Cons)
      next
        case ty: (Inr kind)
        have r: "visit_dir True is_visible_path always (on_files upd) base es
            (Suc n, (if kind = KindDir then p # pending else pending), (if kind = KindFile then upd p a else a))
             = Inr (n', pending', a')"
          using Cons.prems e vis Inr ty by (auto simp: Let_def split: if_splits)
        obtain ds fs where i: "pending' = ds @ (if kind = KindDir then p # pending else pending)"
          "set ds = seen_in base es KindDir" "a' = fold upd fs (if kind = KindFile then upd p a else a)"
          "set fs = seen_in base es KindFile"
          using Cons.IH [OF r] by blast
        have s: "seen_in base (e # es) k = (if kind = k then {p} else {}) \<union> seen_in base es k" for k
          using e vis Inr ty by (auto simp: seen_in_Cons)
        show ?thesis
          by (rule exI [of _ "if kind = KindDir then ds @ [p] else ds"],
              rule exI [of _ "if kind = KindFile then p # fs else fs"]) (use i s in auto)
      qed
    qed
  qed
qed

lemma below_seen:
  assumes "open_dir_exact tree b = Inr ()" and "dir_entries tree b = Inr es"
  shows "{p. below tree b p} = seen_in b es KindFile \<union> (\<Union>d \<in> seen_in b es KindDir. {p. below tree d p})"
  using assms by (auto simp: below_iff [of tree b] listed_seen)

lemma below_closed: "open_dir_exact tree b = Inl e \<Longrightarrow> {p. below tree b p} = {}"
  by (auto simp: below_iff [of tree b] listed_seen)

text \<open>What the loop does on a state, for the rule of the fixed point.\<close>

definition walks_below ::
  "Tree \<Rightarrow> (str \<Rightarrow> 'a \<Rightarrow> 'a) \<Rightarrow> Tree \<Rightarrow> str \<Rightarrow> bool \<Rightarrow> (str \<Rightarrow> bool) \<Rightarrow> (nat \<Rightarrow> unit vault_result)
     \<Rightarrow> (str \<Rightarrow> bool \<Rightarrow> bool \<Rightarrow> 'a \<Rightarrow> 'a vault_result) \<Rightarrow> nat \<Rightarrow> str list \<Rightarrow> 'a \<Rightarrow> 'a vault_result \<Rightarrow> bool" where
  "walks_below tree upd tr dir rc inc chk vis n stack a r \<longleftrightarrow>
     (tr = tree \<and> rc \<and> inc = is_visible_path \<and> chk = always \<and> vis = on_files upd \<longrightarrow>
      (\<forall>a'. r = Inr a' \<longrightarrow> (\<exists>fs. a' = fold upd fs a \<and> set fs = (\<Union>b \<in> set stack. {p. below tree b p}))))"

lemma walks_below_step:
  assumes IH: "\<And>tr dir rc inc chk vis n st a r.
      again tr dir rc inc chk vis n st a = Some r \<Longrightarrow> walks_below tree upd tr dir rc inc chk vis n st a r"
    and eq: "(case st of [] \<Rightarrow> Some (Inr a)
      | base # pending \<Rightarrow>
          (case always n of
             Inl e \<Rightarrow> Some (Inl e)
           | Inr _ \<Rightarrow>
               (case open_dir_exact tree base of
                  Inl e \<Rightarrow>
                    if base \<noteq> dir \<and> skip_changed_entry e
                    then again tree dir True is_visible_path always (on_files upd) (Suc n) pending a
                    else Some (Inl e)
                | Inr _ \<Rightarrow>
                    (case dir_entries tree base of
                       Inl e \<Rightarrow> Some (Inl e)
                     | Inr entries \<Rightarrow>
                         (case visit_dir True is_visible_path always (on_files upd) base entries (Suc n, pending, a) of
                            Inl e \<Rightarrow> Some (Inl e)
                          | Inr st \<Rightarrow>
                              again tree dir True is_visible_path always (on_files upd)
                                (fst st) (fst (snd st)) (snd (snd st))))))) = Some (Inr a')"
  shows "\<exists>fs. a' = fold upd fs a \<and> set fs = (\<Union>b \<in> set st. {p. below tree b p})"
proof (cases st)
  case Nil
  with eq have "a' = a" by simp
  then show ?thesis using Nil by (intro exI [of _ "[]"]) simp
next
  case (Cons b pending)
  have go: "\<exists>fs. a' = fold upd fs y \<and> set fs = (\<Union>b \<in> set st. {p. below tree b p})"
    if "again tree dir True is_visible_path always (on_files upd) m st y = Some (Inr a')" for m st y
    using IH [OF that] by (simp add: walks_below_def)
  show ?thesis
  proof (cases "open_dir_exact tree b")
    case (Inl e)
    with eq Cons have "again tree dir True is_visible_path always (on_files upd) (Suc n) pending a = Some (Inr a')"
      by (simp split: if_splits)
    from go [OF this] below_closed [OF Inl] Cons show ?thesis by auto
  next
    case opened: (Inr u)
    then have op: "open_dir_exact tree b = Inr ()" by simp
    obtain es where es: "dir_entries tree b = Inr es"
      using eq Cons opened by (cases "dir_entries tree b") simp_all
    obtain m' pending' x' where v: "visit_dir True is_visible_path always (on_files upd) b es (Suc n, pending, a)
        = Inr (m', pending', x')"
      using eq Cons opened es by (auto split: sum.splits)
    have "again tree dir True is_visible_path always (on_files upd) m' pending' x' = Some (Inr a')"
      using eq Cons opened es v by simp
    from go [OF this] obtain fs where fs: "a' = fold upd fs x'"
      "set fs = (\<Union>b \<in> set pending'. {p. below tree b p})" by blast
    obtain ds gs where d: "pending' = ds @ pending" "set ds = seen_in b es KindDir" "x' = fold upd gs a"
      "set gs = seen_in b es KindFile"
      using visit_dir_result [OF v] by blast
    show ?thesis
      by (rule exI [of _ "gs @ fs"]) (use fs d Cons below_seen [OF op es] in auto)
  qed
qed

lemma visit_pending_result:
  assumes "visit_pending tree directory True is_visible_path always (on_files upd) n stack a = Some (Inr a')"
  shows "\<exists>fs. a' = fold upd fs a \<and> set fs = (\<Union>b \<in> set stack. {p. below tree b p})"
proof -
  have "walks_below tree upd tree directory True is_visible_path always (on_files upd) n stack a (Inr a')"
  proof (rule visit_pending.raw_induct [of "walks_below tree upd", OF _ assms])
    fix again tr dir rc inc chk vis n st a r
    assume IH: "\<And>tr dir rc inc chk vis n st a r.
        again tr dir rc inc chk vis n st a = Some r \<Longrightarrow> walks_below tree upd tr dir rc inc chk vis n st a r"
      and eq: "(case st of [] \<Rightarrow> Some (Inr a)
      | base # pending \<Rightarrow>
          (case chk n of
             Inl e \<Rightarrow> Some (Inl e)
           | Inr _ \<Rightarrow>
               (case open_dir_exact tr base of
                  Inl e \<Rightarrow>
                    if base \<noteq> dir \<and> skip_changed_entry e
                    then again tr dir rc inc chk vis (Suc n) pending a
                    else Some (Inl e)
                | Inr _ \<Rightarrow>
                    (case dir_entries tr base of
                       Inl e \<Rightarrow> Some (Inl e)
                     | Inr entries \<Rightarrow>
                         (case visit_dir rc inc chk vis base entries (Suc n, pending, a) of
                            Inl e \<Rightarrow> Some (Inl e)
                          | Inr st \<Rightarrow>
                              again tr dir rc inc chk vis (fst st) (fst (snd st)) (snd (snd st))))))) = Some r"
    show "walks_below tree upd tr dir rc inc chk vis n st a r"
      unfolding walks_below_def
    proof (intro impI allI)
      fix a'
      assume h: "tr = tree \<and> rc \<and> inc = is_visible_path \<and> chk = always \<and> vis = on_files upd" and "r = Inr a'"
      with eq show "\<exists>fs. a' = fold upd fs a \<and> set fs = (\<Union>b \<in> set st. {p. below tree b p})"
        by (intro walks_below_step [OF IH]) (simp_all only: simp_thms)
    qed
  qed
  then show ?thesis by (simp add: walks_below_def)
qed

section \<open>The walk returns on a finite tree\<close>

definition native :: "str \<Rightarrow> bool" where
  "native p \<longleftrightarrow> portable_native p = Inr p"

text \<open>
  What a directory of the operating system guarantees: an entry name is not empty and holds no
  slash, and only finitely many paths are directories.
\<close>

definition finite_tree :: "Tree \<Rightarrow> bool" where
  "finite_tree tree \<longleftrightarrow>
     finite {b. open_dir_exact tree b = Inr () \<and> is_ok (dir_entries tree b)}
     \<and> (\<forall>b es en. dir_entries tree b = Inr es \<and> Inr en \<in> set es \<longrightarrow> file_name en \<noteq> [] \<and> slash \<notin> set (file_name en))"

lemma portable_components_names:
  "portable_components p r cs = Inr q \<Longrightarrow> list_all (\<lambda>c. c \<noteq> Normal []) cs \<Longrightarrow>
   \<exists>ns. cs = map Normal ns \<and> (\<forall>n \<in> set ns. backslash \<notin> set n)
     \<and> q = join_with ''/'' ((if r = [] then [] else [r]) @ ns)"
proof (induction p r cs rule: portable_components.induct)
  case (2 p r name cs)
  then have n: "name \<noteq> []" "backslash \<notin> set name"
    and "portable_components p ((if r = [] then [] else r @ ''/'') @ name) cs = Inr q"
    by (auto split: if_splits)
  with 2 obtain ns where "cs = map Normal ns" "\<forall>n \<in> set ns. backslash \<notin> set n"
    "q = join_with ''/'' (((if r = [] then [] else r @ ''/'') @ name) # ns)"
    by (auto split: if_splits)
  with n show ?case
    by (cases ns) (auto intro!: exI [of _ "name # ns"])
qed auto

lemma component_name:
  assumes "Normal n \<in> set (concat (map name_component (split_on (\<lambda>c. c = slash) p)))"
  shows "n \<noteq> [] \<and> n \<noteq> ''.'' \<and> n \<noteq> ''..'' \<and> slash \<notin> set n"
proof -
  obtain w where w: "w \<in> set (split_on (\<lambda>c. c = slash) p)" "Normal n \<in> set (name_component w)"
    using assms unfolding set_concat set_map by blast
  then show ?thesis using split_on_free [OF w(1)] by (auto split: if_splits)
qed

lemma portable_native_names:
  assumes "portable_native p = Inr q"
  shows "clean_path q" and "components p = map Normal (names_of q)"
proof -
  have norm: "n \<noteq> [] \<and> n \<noteq> ''.'' \<and> n \<noteq> ''..'' \<and> slash \<notin> set n" if "Normal n \<in> set (components p)" for n
    using that component_name [of n p] unfolding components_def Let_def by (auto split: if_splits)
  then have "list_all (\<lambda>c. c \<noteq> Normal []) (components p)" by (auto simp: list_all_iff)
  then obtain ns where ns: "components p = map Normal ns" "\<forall>n \<in> set ns. backslash \<notin> set n" "q = join_with ''/'' ns"
    using portable_components_names assms unfolding portable_native_def by fastforce
  have c: "list_all clean_name ns"
    using norm ns(1,2) by (auto simp: list_all_iff clean_name_def list_ex_iff is_sep_def)
  then show "clean_path q" unfolding ns(3) by (rule clean_join)
  have "names_of q = ns"
  proof (cases "ns = []")
    case True
    with ns(3) show ?thesis by (simp add: names_of_def)
  next
    case False
    have "split_on (\<lambda>c. c = slash) q = ns"
      unfolding ns(3) by (rule split_join [OF False]) (use norm ns(1) in auto)
    moreover have "q \<noteq> []"
      using False c ns(3) by (cases ns; cases "tl ns") (auto simp: clean_name_def)
    ultimately show ?thesis by (simp add: names_of_def)
  qed
  then show "components p = map Normal (names_of q)" using ns(1) by simp
qed

lemma native_clean: "native p \<Longrightarrow> clean_path p"
  unfolding native_def by (rule portable_native_names)

lemma components_clean_path:
  assumes "clean_path p"
  shows "components p = map Normal (names_of p)"
proof (cases "p = []")
  case True
  then show ?thesis by (simp add: components_def names_of_def starts_with_def)
next
  case False
  then have l: "list_all clean_name (split_on (\<lambda>c. c = slash) p)" using assms by (simp add: clean_path_def)
  then have "hd (split_on (\<lambda>c. c = slash) p) \<noteq> ''.''"
    by (cases "split_on (\<lambda>c. c = slash) p") (auto simp: clean_name_def)
  moreover have "\<not> starts_with p ''/''"
    using clean_path_hd [OF assms False] by (auto simp: starts_with_single is_sep_def)
  ultimately show ?thesis
    using components_clean [OF l] False by (simp add: components_def Let_def names_of_def)
qed

lemma child_names:
  assumes b: "clean_path b" and n: "name \<noteq> []" "slash \<notin> set name" "is_visible_path name"
    and p: "portable_native (native_join b name) = Inr p"
  shows "names_of p = names_of b @ [name]"
proof -
  have nc: "name_component name = [Normal name]" "name \<noteq> ''.''"
    using n by (auto simp: is_visible_path_def starts_with_def to_str_def is_sep_def split: if_splits)
  have s: "split_on (\<lambda>c. c = slash) name = [name]" using n(2) by (rule split_on_none)
  have "components (native_join b name) = map Normal (names_of b @ [name])"
  proof (cases "b = []")
    case True
    have "\<not> starts_with name ''/''" using n(2) by (cases name) (auto simp: starts_with_def)
    with True s nc show ?thesis by (simp add: native_join_def components_def Let_def names_of_def)
  next
    case False
    have "hd (split_on (\<lambda>c. c = slash) (b @ slash # name)) = hd (split_on (\<lambda>c. c = slash) b)"
      by (simp add: split_on_append)
    moreover have "starts_with (b @ slash # name) ''/'' \<longleftrightarrow> starts_with b ''/''"
      using False by (cases b) (auto simp: starts_with_def)
    ultimately have "components (b @ slash # name) = components b @ concat (map name_component [name])"
      by (simp add: components_def Let_def split_on_append s)
    with False nc components_clean_path [OF b] show ?thesis by (simp add: native_join_def)
  qed
  then have "map Normal (names_of p) = map Normal (names_of b @ [name])"
    using portable_native_names(2) [OF p] by simp
  moreover have "inj Normal" by (simp add: inj_def)
  ultimately show ?thesis using map_injective by blast
qed

lemma visit_dir_pushes:
  "visit_dir rc inc chk vis base es (n, pending, a) = Inr (n', pending', a') \<Longrightarrow>
   \<exists>ds. pending' = ds @ pending
     \<and> (\<forall>d \<in> set ds. \<exists>en. Inr en \<in> set es \<and> inc (file_name en) \<and> portable_native (native_join base (file_name en)) = Inr d)"
proof (induction es arbitrary: n pending a)
  case Nil
  then show ?case by simp
next
  case (Cons e es)
  obtain en where e: "e = Inr en" using Cons.prems by (cases e) (auto simp: result_simps)
  show ?case
  proof (cases "\<exists>p x. visit_dir rc inc chk vis base es (Suc n, p # pending, x) = Inr (n', pending', a')
      \<and> inc (file_name en) \<and> portable_native (native_join base (file_name en)) = Inr p")
    case True
    then obtain p x where r: "visit_dir rc inc chk vis base es (Suc n, p # pending, x) = Inr (n', pending', a')"
      and p: "inc (file_name en)" "portable_native (native_join base (file_name en)) = Inr p" by blast
    obtain ds where ds: "pending' = ds @ p # pending"
      "\<forall>d \<in> set ds. \<exists>en. Inr en \<in> set es \<and> inc (file_name en) \<and> portable_native (native_join base (file_name en)) = Inr d"
      using Cons.IH [OF r] by blast
    show ?thesis by (rule exI [of _ "ds @ [p]"]) (use ds p e in auto)
  next
    case False
    then have "\<exists>x. visit_dir rc inc chk vis base es (Suc n, pending, x) = Inr (n', pending', a')"
      using Cons.prems e
      by (auto simp: result_simps Let_def split: if_splits sum.splits vault_error.splits io_kind.splits)
    then obtain x where "visit_dir rc inc chk vis base es (Suc n, pending, x) = Inr (n', pending', a')" by blast
    from Cons.IH [OF this] obtain ds where ds: "pending' = ds @ pending"
      "\<forall>d \<in> set ds. \<exists>en. Inr en \<in> set es \<and> inc (file_name en) \<and> portable_native (native_join base (file_name en)) = Inr d"
      by blast
    show ?thesis by (rule exI [of _ ds]) (use ds in \<open>meson list.set_intros(2)\<close>)
  qed
qed

lemma finite_tree_depth:
  assumes "finite_tree tree"
  obtains m where "\<And>b es. open_dir_exact tree b = Inr () \<Longrightarrow> dir_entries tree b = Inr es \<Longrightarrow> length (names_of b) < m"
proof -
  let ?B = "{b. open_dir_exact tree b = Inr () \<and> is_ok (dir_entries tree b)}"
  have "finite ((\<lambda>b. length (names_of b)) ` ?B)" using assms by (simp add: finite_tree_def)
  then obtain m where m: "\<forall>k \<in> (\<lambda>b. length (names_of b)) ` ?B. k < m"
    using finite_nat_set_iff_bounded by blast
  show ?thesis by (rule that [of m]) (use m in \<open>auto simp: is_ok_def\<close>)
qed

lemma visit_pending_returns:
  assumes "finite_tree tree" and "\<And>n. inc n \<Longrightarrow> is_visible_path n"
  shows "list_all clean_path stack \<Longrightarrow> \<exists>r. visit_pending tree directory rc inc chk vis n stack a = Some r"
proof -
  obtain m where m: "\<And>b es. open_dir_exact tree b = Inr () \<Longrightarrow> dir_entries tree b = Inr es \<Longrightarrow> length (names_of b) < m"
    using finite_tree_depth [OF assms(1)] by blast
  let ?R = "measure (\<lambda>b. m - length (names_of b))"
  have "wf (mult ?R)" by (simp add: wf_mult)
  then show "list_all clean_path stack \<Longrightarrow> \<exists>r. visit_pending tree directory rc inc chk vis n stack a = Some r"
  proof (induction "mset stack" arbitrary: stack n a rule: wf_induct_rule)
    case less
    show ?case
    proof (cases stack)
      case Nil
      then show ?thesis by (subst visit_pending.simps) simp
    next
      case (Cons b pending)
      have cl: "clean_path b" "list_all clean_path pending" using less.prems Cons by simp_all
      have tail: "(mset pending, mset stack) \<in> mult ?R"
        using one_step_implies_mult [of "{#b#}" "{#}" ?R "mset pending"] Cons by simp
      note down = less.hyps [OF tail cl(2)]
      show ?thesis
      proof (cases "open_dir_exact tree b")
        case (Inl e)
        with Cons down show ?thesis by (subst visit_pending.simps) (simp split: sum.splits)
      next
        case opened: (Inr u)
        show ?thesis
        proof (cases "dir_entries tree b")
          case (Inl e)
          with Cons opened show ?thesis by (subst visit_pending.simps) (simp split: sum.splits)
        next
          case es: (Inr es)
          show ?thesis
          proof (cases "visit_dir rc inc chk vis b es (Suc n, pending, a)")
            case (Inl e)
            with Cons opened es show ?thesis by (subst visit_pending.simps) (simp split: sum.splits)
          next
            case (Inr st)
            obtain n' pending' a' where st: "st = (n', pending', a')" by (cases st)
            obtain ds where ds: "pending' = ds @ pending"
              "\<And>d. d \<in> set ds \<Longrightarrow> \<exists>en. Inr en \<in> set es \<and> inc (file_name en)
                 \<and> portable_native (native_join b (file_name en)) = Inr d"
              using visit_dir_pushes [OF Inr [unfolded st]] by blast
            have child: "clean_path d \<and> length (names_of d) = Suc (length (names_of b))" if d: "d \<in> set ds" for d
            proof -
              obtain en where en: "Inr en \<in> set es" "is_visible_path (file_name en)"
                "portable_native (native_join b (file_name en)) = Inr d"
                using ds(2) [OF d] assms(2) by blast
              have "file_name en \<noteq> [] \<and> slash \<notin> set (file_name en)"
                using assms(1) es en(1) unfolding finite_tree_def by blast
              then show ?thesis
                using child_names [OF cl(1) _ _ en(2,3)] portable_native_names(1) [OF en(3)] by simp
            qed
            have "length (names_of b) < m" using m [of b es] opened es by simp
            then have "m - Suc (length (names_of b)) < m - length (names_of b)" by simp
            then have "(mset pending', mset stack) \<in> mult ?R"
              using one_step_implies_mult [of "{#b#}" "mset ds" ?R "mset pending"] child Cons ds(1)
              by (auto simp: add.commute)
            moreover have "list_all clean_path pending'" using child cl(2) ds(1) by (auto simp: list_all_iff)
            ultimately have "\<exists>r. visit_pending tree directory rc inc chk vis n' pending' a' = Some r"
              by (rule less.hyps)
            with Cons opened es Inr st show ?thesis by (subst visit_pending.simps) (simp split: sum.splits)
          qed
        qed
      qed
    qed
  qed
qed

section \<open>Files, as a whole\<close>

lemma visit_files_below:
  assumes "visit_files tree directory always (\<lambda>p a. Inr (upd p a)) a = Some (Inr a')"
  shows "\<exists>fs. a' = fold upd fs a \<and> set fs = {p. below tree directory p}"
  using visit_pending_result [of tree directory upd 0 "[directory]" a a'] assms
  by (simp add: visit_files_def visit_entries_def)

lemma visit_files_returns:
  "finite_tree tree \<Longrightarrow> clean_path directory \<Longrightarrow> \<exists>r. visit_files tree directory check visit a = Some r"
  unfolding visit_files_def visit_entries_def by (rule visit_pending_returns) simp_all

lemma below_clean: "below tree b p \<Longrightarrow> clean_path p"
  by (induction rule: below.induct) (auto simp: listed_def dest: portable_native_names)

lemma below_names:
  assumes "finite_tree tree"
  shows "below tree b p \<Longrightarrow> clean_path b \<Longrightarrow> \<exists>ns. ns \<noteq> [] \<and> names_of p = names_of b @ ns"
proof (induction rule: below.induct)
  case (here base path)
  then show ?case
    using assms child_names unfolding listed_def finite_tree_def by blast
next
  case (deeper base dir path)
  obtain en es where en: "dir_entries tree base = Inr es" "Inr en \<in> set es" "is_visible_path (file_name en)"
    "portable_native (native_join base (file_name en)) = Inr dir"
    using deeper.hyps(1) unfolding listed_def by blast
  have "file_name en \<noteq> []" "slash \<notin> set (file_name en)" using assms en(1,2) unfolding finite_tree_def by blast+
  then have "names_of dir = names_of base @ [file_name en]" by (intro child_names [OF deeper.prems _ _ en(3,4)])
  moreover obtain ns where "names_of path = names_of dir @ ns"
    using deeper.IH portable_native_names(1) [OF en(4)] by blast
  ultimately show ?case by simp
qed

end
