(* ===== verification/Watcher.thy ===== *)
theory Watcher
  imports Walk "HOL-Library.Product_Lexorder"
begin

text \<open>
  The reconciliation of filesystem notifications with the index (src/src/vault/watcher.rs): the
  paths an event concerns, the staging of one event and the commit of a debounced batch. What the
  disk and the lexical writer answer while an event is handled is an argument; the debouncer and the
  task that receives the batches are not modelled.
\<close>

section \<open>Tracked spellings of a path\<close>

definition folded :: "deps \<Rightarrow> str \<Rightarrow> str" where
  "folded env p = d_upper env (d_nfc env p)"

text \<open>A \<^verbatim>\<open>PathBuf\<close> compares by its components; \<^verbatim>\<open>Path::starts_with\<close> compares whole components.\<close>

definition path_starts_with :: "str \<Rightarrow> str \<Rightarrow> bool" where
  "path_starts_with p base \<longleftrightarrow> take (length (names_of base)) (names_of p) = names_of base"

definition path_parent :: "str \<Rightarrow> str option" where
  "path_parent p = (if p = [] then None else Some (join_with ''/'' (butlast (names_of p))))"

abbreviation spelling_key :: "str \<times> str \<Rightarrow> str list \<times> str list" where
  "spelling_key k \<equiv> (names_of (fst k), names_of (snd k))"

text \<open>\<^verbatim>\<open>WatchPaths::matching\<close>: the range of the ordered table from the folded path on.\<close>

definition matching :: "deps \<Rightarrow> WatchPaths \<Rightarrow> str \<Rightarrow> bool \<Rightarrow> str list" where
  "matching env w path descendants =
     (let key = folded env path;
          spellings = dropWhile (\<lambda>k. spelling_key k < (names_of key, [])) (sort_key spelling_key (map fst w))
      in map snd (takeWhile
           (\<lambda>k. if descendants then path_starts_with (fst k) key else names_of (fst k) = names_of key) spellings))"

definition watched :: "'s VaultIndex \<Rightarrow> WatchPaths" where
  "watched ix = (case watch_paths ix of Some w \<Rightarrow> w | None \<Rightarrow> [])"

section \<open>What the disk answers\<close>

record Metadata = Entry +
  e_dir :: bool

record Disk =
  entry_metadata_exact :: "str \<Rightarrow> Metadata vault_result"
  resolve_existing :: "str \<Rightarrow> str vault_result"
  disk_tree :: Tree
  file_view :: "str \<Rightarrow> FileView"
  lexical_writer :: "str \<Rightarrow> lexical"

section \<open>The paths of an event\<close>

datatype Change = RefreshPath | RemovePath

definition visible_relative_path :: "str \<Rightarrow> str \<Rightarrow> str option vault_result" where
  "visible_relative_path vault_root absolute =
     try_bind (relative_from_absolute vault_root absolute) (\<lambda>relative.
       Inr (if is_visible_path relative then Some relative else None))"

definition spelling_at :: "deps \<Rightarrow> Disk \<Rightarrow> WatchPaths \<Rightarrow> str \<Rightarrow> str option" where
  "spelling_at env disk w current =
     List.find (\<lambda>previous. previous \<noteq> current \<and> path_parent previous = path_parent current
                  \<and> resolve_existing disk previous = Inr current)
       (matching env w current False)"

fun first_spelling :: "deps \<Rightarrow> Disk \<Rightarrow> WatchPaths \<Rightarrow> str list \<Rightarrow> (str \<times> str) option" where
  "first_spelling env disk w [] = None"
| "first_spelling env disk w (current # rest) =
     (case spelling_at env disk w current of
        Some previous \<Rightarrow> Some (previous, current)
      | None \<Rightarrow> first_spelling env disk w rest)"

definition previous_spelling :: "deps \<Rightarrow> Disk \<Rightarrow> WatchPaths \<Rightarrow> str \<Rightarrow> (str \<times> str) option" where
  "previous_spelling env disk w actual = first_spelling env disk w (rev (path_prefixes actual))"

definition tracked_under :: "deps \<Rightarrow> 's VaultIndex \<Rightarrow> str \<Rightarrow> str list" where
  "tracked_under env ix base =
     filter (\<lambda>p. path_starts_with p base \<and> tracks ix p) (matching env (watched ix) base True)"

text \<open>
  The last step of \<^verbatim>\<open>event_paths\<close>: the tracked paths under the given bases are to be removed, unless the
  current listing has them.
\<close>

definition listing_paths ::
  "deps \<Rightarrow> Disk \<Rightarrow> 's VaultIndex \<Rightarrow> str list \<Rightarrow> Metadata option \<Rightarrow> str option \<Rightarrow> (str \<times> Change) list vault_result option" where
  "listing_paths env disk ix bases metadata actual =
     (let paths = fold (\<lambda>p. AList.update p RemovePath) (concat (map (tracked_under env ix) bases)) [] in
      case (metadata, actual) of
        (Some m, Some a) \<Rightarrow>
          if e_dir m
          then visit_files (disk_tree disk) a always (\<lambda>p paths. Inr (AList.update p RefreshPath paths)) paths
          else Some (Inr (AList.update a RefreshPath paths))
      | _ \<Rightarrow> Some (Inr paths))"

text \<open>
  The second half of \<^verbatim>\<open>event_paths\<close>, when the event is not a tracked file found as spelled. The table
  of watched prefixes is opened on first use, so the index is returned with the paths.
\<close>

definition event_subtrees ::
  "deps \<Rightarrow> Disk \<Rightarrow> 's VaultIndex \<Rightarrow> str \<Rightarrow> Metadata option \<Rightarrow> str option
     \<Rightarrow> ((str \<times> Change) list vault_result \<times> 's VaultIndex) option" where
  "event_subtrees env disk ix relative0 metadata0 actual0 =
     (let ix1 = open_watch_paths env ix;
          spelling =
            (case actual0 of
               Some path \<Rightarrow> if path \<noteq> [] \<and> path = relative0 then previous_spelling env disk (watched ix1) path else None
             | None \<Rightarrow> None);
          selected =
            (case spelling of
               Some (previous, current) \<Rightarrow>
                 try_bind (entry_metadata_exact disk current) (\<lambda>m. Inr (Some previous, Some current, Some m))
             | None \<Rightarrow> Inr (None, actual0, metadata0))
      in case selected of
        Inl e \<Rightarrow> Some (Inl e, ix1)
      | Inr (previous, actual, metadata) \<Rightarrow>
          (let relative = (case previous of Some p \<Rightarrow> p | None \<Rightarrow> relative0);
               bases = relative # (case actual of Some a \<Rightarrow> if a \<noteq> relative then [a] else [] | None \<Rightarrow> [])
           in map_option (\<lambda>r. (r, ix1)) (listing_paths env disk ix1 bases metadata actual)))"

definition event_paths ::
  "deps \<Rightarrow> Disk \<Rightarrow> 's VaultIndex \<Rightarrow> str \<Rightarrow> ((str \<times> Change) list vault_result \<times> 's VaultIndex) option" where
  "event_paths env disk ix relative =
     (let metadata =
            (case entry_metadata_exact disk relative of
               Inr m \<Rightarrow> Inr (if \<not> e_link m \<and> (e_dir m \<or> e_file m) then Some m else None)
             | Inl e \<Rightarrow> if skip_changed_entry e then Inr None else Inl e);
          found =
            try_bind metadata (\<lambda>metadata.
              case metadata of
                Some m \<Rightarrow>
                  if relative = [] then Inr (Some m, Some [])
                  else try_bind (resolve_existing disk relative) (\<lambda>actual. Inr (Some m, Some actual))
              | None \<Rightarrow> Inr (None, None))
      in case found of
        Inl e \<Rightarrow> Some (Inl e, ix)
      | Inr (metadata, actual) \<Rightarrow>
          if (case metadata of Some m \<Rightarrow> e_file m | None \<Rightarrow> False) \<and> actual = Some relative \<and> tracks ix relative
          then Some (Inr [(relative, RefreshPath)], ix)
          else event_subtrees env disk ix relative metadata actual)"

section \<open>Staging an event\<close>

text \<open>
  What an event leaves behind: whether the lexical index has staged changes, the intents submitted
  to the embedding runtime in order, the warnings, and the index. \<open>searching\<close> says that there is a
  lexical index and \<open>embedding\<close> that there is an embedding runtime.
\<close>

record 's Staged =
  dirty :: bool
  submitted :: "(str \<times> PendingKind) list"
  warned :: "(str \<times> vault_error) list"
  index :: "'s VaultIndex"

record 's Watch =
  vault_root :: str
  rules :: "'s ExcludeSet"
  searching :: bool
  embedding :: bool

definition stage_path ::
  "deps \<Rightarrow> ('s \<Rightarrow> str \<Rightarrow> bool) \<Rightarrow> (vault_error \<Rightarrow> str) \<Rightarrow> 's Watch \<Rightarrow> Disk \<Rightarrow> str \<times> Change \<Rightarrow> 's Staged \<Rightarrow> 's Staged" where
  "stage_path env set_match show_error watch disk pc st =
     (let (path, change) = pc; ix = index st;
          was_note = (map_of (notes ix) path \<noteq> None);
          tantivy = (if searching watch then Some (lexical_writer disk path) else None);
          (result, ix1) =
            (case change of
               RefreshPath \<Rightarrow>
                 refresh_file env set_match (file_view disk path) path (rules watch) tantivy (embedding watch) show_error ix
             | RemovePath \<Rightarrow> remove_projection env path tantivy ix);
          intent = (if embedding watch then embedding_change path was_note ix1 else None)
      in \<lparr> dirty = (case result of Inr changed \<Rightarrow> dirty st \<or> changed
                                | Inl _ \<Rightarrow> dirty st \<or> (searching watch \<and> was_note)),
           submitted = submitted st @ (case intent of Some kind \<Rightarrow> [(path, kind)] | None \<Rightarrow> []),
           warned = warned st @ (case result of Inl e \<Rightarrow> [(path, e)] | Inr _ \<Rightarrow> []),
           index = ix1 \<rparr>)"

text \<open>The paths are a \<^verbatim>\<open>BTreeMap\<close>, iterated in the order of its keys.\<close>

definition stage_paths ::
  "deps \<Rightarrow> ('s \<Rightarrow> str \<Rightarrow> bool) \<Rightarrow> (vault_error \<Rightarrow> str) \<Rightarrow> 's Watch \<Rightarrow> Disk \<Rightarrow> (str \<times> Change) list \<Rightarrow> 's Staged \<Rightarrow> 's Staged" where
  "stage_paths env set_match show_error watch disk paths st =
     fold (stage_path env set_match show_error watch disk) (sort_key (names_of \<circ> fst) paths) st"

text \<open>
  An event: the path the backend reported, whether the lock of the index is poisoned, and the root
  the index opens, with its answers.
\<close>

record WatchEvent =
  absolute :: str
  poisoned :: bool
  filesystem :: "Disk vault_result"

definition stage_event ::
  "deps \<Rightarrow> ('s \<Rightarrow> str \<Rightarrow> bool) \<Rightarrow> (vault_error \<Rightarrow> str) \<Rightarrow> 's Watch \<Rightarrow> WatchEvent \<Rightarrow> 's Staged \<Rightarrow> 's Staged option" where
  "stage_event env set_match show_error watch ev st =
     (case visible_relative_path (vault_root watch) (absolute ev) of
        Inl e \<Rightarrow> Some (st \<lparr> warned := warned st @ [(absolute ev, e)] \<rparr>)
      | Inr None \<Rightarrow> Some st
      | Inr (Some relative) \<Rightarrow>
          if poisoned ev then Some st
          else (case filesystem ev of
                  Inl e \<Rightarrow> Some (st \<lparr> warned := warned st @ [(absolute ev, e)] \<rparr>)
                | Inr disk \<Rightarrow>
                    map_option (\<lambda>(found, ix).
                      (case found of
                         Inr paths \<Rightarrow>
                           stage_paths env set_match show_error watch disk paths (st \<lparr> index := ix \<rparr>)
                       | Inl e \<Rightarrow>
                           stage_paths env set_match show_error watch disk
                             (map (\<lambda>p. (p, RefreshPath)) (filter (\<lambda>p. path_starts_with p relative) (tracked_paths ix)))
                             (st \<lparr> index := ix, warned := warned st @ [(absolute ev, e)] \<rparr>)))
                      (event_paths env disk (index st) relative)))"

section \<open>Reconciling a batch\<close>

fun stage_events ::
  "deps \<Rightarrow> ('s \<Rightarrow> str \<Rightarrow> bool) \<Rightarrow> (vault_error \<Rightarrow> str) \<Rightarrow> 's Watch \<Rightarrow> WatchEvent list \<Rightarrow> 's Staged \<Rightarrow> 's Staged option" where
  "stage_events env set_match show_error watch [] st = Some st"
| "stage_events env set_match show_error watch (ev # evs) st =
     (case stage_event env set_match show_error watch ev st of
        None \<Rightarrow> None
      | Some st' \<Rightarrow> stage_events env set_match show_error watch evs st')"

definition reconcile_events ::
  "deps \<Rightarrow> ('s \<Rightarrow> str \<Rightarrow> bool) \<Rightarrow> (vault_error \<Rightarrow> str) \<Rightarrow> 's Watch \<Rightarrow> WatchEvent list \<Rightarrow> nat vault_result
     \<Rightarrow> 's VaultIndex \<Rightarrow> 's Staged option" where
  "reconcile_events env set_match show_error watch evs flush ix =
     map_option (\<lambda>st.
       if dirty st \<and> searching watch
       then (case flush of
               Inl e \<Rightarrow> st \<lparr> warned := warned st @ [([], e)] \<rparr>
             | Inr committed \<Rightarrow>
                 if embedding watch
                 then let (ready, ix1) = publish_embedding_upserts committed (index st)
                      in st \<lparr> submitted := submitted st @ map (\<lambda>p. (p, Upsert)) ready, index := ix1 \<rparr>
                 else st)
       else st)
     (stage_events env set_match show_error watch evs \<lparr> dirty = False, submitted = [], warned = [], index = ix \<rparr>)"

section \<open>The ordered table answers by prefix\<close>

lemma takeWhile_filter:
  "sorted (map f xs) \<Longrightarrow> (\<And>x y. x \<in> set xs \<Longrightarrow> y \<in> set xs \<Longrightarrow> f x \<le> f y \<Longrightarrow> P y \<Longrightarrow> P x) \<Longrightarrow> takeWhile P xs = filter P xs"
proof (induction xs)
  case (Cons x xs)
  show ?case
  proof (cases "P x")
    case True
    have "takeWhile P xs = filter P xs"
    proof (rule Cons.IH)
      show "sorted (map f xs)" using Cons.prems(1) by simp
      show "P x'" if "x' \<in> set xs" "y \<in> set xs" "f x' \<le> f y" "P y" for x' y
        by (rule Cons.prems(2) [of x' y]) (use that in simp_all)
    qed
    with True show ?thesis by simp
  next
    case False
    then have "\<forall>y \<in> set xs. \<not> P y" using Cons.prems by (auto dest!: bspec)
    with False show ?thesis by simp
  qed
qed simp

lemma dropWhile_filter:
  fixes f :: "'a \<Rightarrow> 'b::linorder"
  shows "sorted (map f xs) \<Longrightarrow> dropWhile (\<lambda>x. f x < a) xs = filter (\<lambda>x. a \<le> f x) xs"
proof (induction xs)
  case (Cons x xs)
  show ?case
  proof (cases "f x < a")
    case True
    with Cons show ?thesis by auto
  next
    case False
    then have "\<forall>y \<in> set xs. a \<le> f y" using Cons.prems by (auto dest!: bspec)
    with False show ?thesis by (simp add: filter_id_conv)
  qed
qed simp

lemma between_prefix:
  fixes key :: "'a::linorder list"
  shows "key \<le> k \<Longrightarrow> k \<le> l \<Longrightarrow> take (length key) l = key \<Longrightarrow> take (length key) k = key"
proof (induction key arbitrary: k l)
  case (Cons c cs)
  from Cons.prems obtain d ds where k: "k = d # ds" by (cases k) auto
  from Cons.prems obtain m where l: "l = c # m" "take (length cs) m = cs" by (cases l) auto
  have "d = c" "cs \<le> ds" "ds \<le> m" using Cons.prems k l by auto
  with Cons.IH [OF this(2,3) l(2)] k show ?case by simp
qed simp

lemma prefix_le:
  fixes key :: "'a::linorder list"
  shows "take (length key) l = key \<Longrightarrow> key \<le> l"
proof (induction key arbitrary: l)
  case (Cons c cs)
  then show ?case by (cases l) auto
qed simp

lemma snd_collect: "snd ` {k \<in> A. P k} = {p. \<exists>k. (k, p) \<in> A \<and> P (k, p)}"
  by force

text \<open>\<^verbatim>\<open>matching\<close> finds exactly the spellings whose folded key starts with, or is, the folded path.\<close>

lemma set_matching:
  "set (matching env w path descendants) =
     {p. \<exists>k. (k, p) \<in> fst ` set w
        \<and> (if descendants then path_starts_with k (folded env path) else names_of k = names_of (folded env path))}"
proof -
  let ?key = "names_of (folded env path)"
  let ?P = "\<lambda>k::str \<times> str. if descendants then path_starts_with (fst k) (folded env path) else names_of (fst k) = ?key"
  let ?xs = "sort_key spelling_key (map fst w)"
  have start: "(?key, []) \<le> spelling_key k" if "?P k" for k
    using that prefix_le [of ?key "names_of (fst k)"]
    by (auto simp: path_starts_with_def less_eq_prod_def split: if_splits)
  have down: "?P x" if "(?key, []) \<le> spelling_key x" "spelling_key x \<le> spelling_key y" "?P y" for x y
    using that between_prefix [of ?key "names_of (fst x)" "names_of (fst y)"]
    by (auto simp: path_starts_with_def less_eq_prod_def split: if_splits)
  have s: "sorted (map spelling_key ?xs)" by simp
  have f: "dropWhile (\<lambda>k. spelling_key k < (?key, [])) ?xs = filter (\<lambda>k. (?key, []) \<le> spelling_key k) ?xs"
    by (rule dropWhile_filter [OF s])
  have "sorted (map spelling_key (filter (\<lambda>k. (?key, []) \<le> spelling_key k) ?xs))" by (rule sorted_filter [OF s])
  then have "takeWhile ?P (filter (\<lambda>k. (?key, []) \<le> spelling_key k) ?xs)
      = filter ?P (filter (\<lambda>k. (?key, []) \<le> spelling_key k) ?xs)"
    by (rule takeWhile_filter) (erule (1) down [rotated], simp)
  then have "matching env w path descendants = map snd (filter (\<lambda>k. (?key, []) \<le> spelling_key k \<and> ?P k) ?xs)"
    unfolding matching_def Let_def f by (simp only: filter_filter)
  also have "(\<lambda>k. (?key, []) \<le> spelling_key k \<and> ?P k) = ?P" using start by (intro ext) blast
  finally have "set (matching env w path descendants) = snd ` {k \<in> fst ` set w. ?P k}" by (simp only: set_map set_filter set_sort)
  then show ?thesis by (simp only: snd_collect fst_conv)
qed

section \<open>Tracked paths under a directory\<close>

text \<open>
  NFC and upper case act on a path name by name: neither makes or removes a slash.
\<close>

definition folds_by_name :: "deps \<Rightarrow> bool" where
  "folds_by_name env \<longleftrightarrow> (\<exists>f. \<forall>p. names_of (folded env p) = map f (names_of p))"

lemma open_watch_fields [simp]:
  "tracked (open_watch_paths env ix) = tracked ix" "notes (open_watch_paths env ix) = notes ix"
  "tracks (open_watch_paths env ix) p \<longleftrightarrow> tracks ix p"
  by (simp_all add: open_watch_paths_def tracked_def tracks_def Let_def split: option.splits)

lemma open_watch_some: "watch_paths (open_watch_paths env ix) = Some (watched (open_watch_paths env ix))"
  by (simp add: open_watch_paths_def watched_def split: option.splits)

lemma prefixes_self:
  assumes "p \<noteq> []"
  shows "p \<in> set (path_prefixes p)"
proof -
  have "length (names_of p) \<in> {1..<length (names_of p) + 1}"
    using assms by (simp add: names_of_def Suc_le_eq)
  moreover have "join_with ''/'' (take (length (names_of p)) (names_of p)) = p"
    using assms by (simp add: names_of_def join_split)
  ultimately show ?thesis unfolding path_prefixes_def by (auto simp: image_iff intro!: bexI)
qed

lemma names_of_prefix:
  assumes "q \<in> set (path_prefixes p)"
  shows "q = [] \<or> (\<exists>k. names_of q = take k (names_of p))"
proof -
  obtain k where k: "1 \<le> k" "k \<le> length (names_of p)" "q = join_with ''/'' (take k (names_of p))"
    using assms by (auto simp: path_prefixes_def)
  have free: "\<forall>w \<in> set (names_of p). slash \<notin> set w"
    using split_on_free [of _ "\<lambda>c. c = slash" p] by (auto simp: names_of_def)
  have "split_on (\<lambda>c. c = slash) q = take k (names_of p)"
    unfolding k(3) using k(1,2) free by (intro split_join) (auto dest: in_set_takeD)
  then show ?thesis by (auto simp: names_of_def)
qed

lemma path_starts_empty [simp]: "path_starts_with p []"
  by (simp add: path_starts_with_def names_of_def)

lemma prefixes_starts: "q \<in> set (path_prefixes p) \<Longrightarrow> path_starts_with p q"
  using names_of_prefix [of q p] path_starts_empty by (auto simp: path_starts_with_def min_def simp del: path_starts_empty)

lemma prefixes_chars:
  assumes "q \<in> set (path_prefixes p)" and "backslash \<notin> set p"
  shows "backslash \<notin> set q"
proof -
  obtain k where q: "q = join_with ''/'' (take k (names_of p))"
    using assms(1) by (auto simp: path_prefixes_def)
  have "\<forall>n \<in> set (names_of p). set n \<subseteq> set p"
    using split_on_chars [of _ "\<lambda>c. c = slash" p] by (auto simp: names_of_def)
  then show ?thesis
    unfolding q using set_join_with [of "''/''" "take k (names_of p)"] assms(2) by (auto dest!: subsetD in_set_takeD)
qed

lemma watched_key:
  assumes i: "index_inv env ix" and w: "watch_paths ix = Some w"
  shows "k \<in> fst ` set w \<longleftrightarrow> (\<exists>p \<in> tracked ix. k \<in> set (watch_keys env p))"
proof -
  have ok: "watch_ok env (tracked ix) w" and fin: "finite (tracked ix)"
    using i w tracked_finite by (auto simp: index_inv_def watch_inv_alt)
  then have "k \<in> fst ` set w \<longleftrightarrow> watch_count env (tracked ix) k \<noteq> 0"
    unfolding watch_ok_def by (metis map_of_eq_None_iff option.distinct(1))
  also have "\<dots> \<longleftrightarrow> (\<exists>p \<in> tracked ix. k \<in> set (watch_keys env p))"
    using fin by (auto simp: watch_count_def card_eq_0_iff)
  finally show ?thesis .
qed

lemma set_tracked_under:
  assumes i: "index_inv env ix" and w: "watch_paths ix = Some (watched ix)" and f: "folds_by_name env"
  shows "{q \<in> tracked ix. q \<noteq> [] \<and> path_starts_with q base} \<subseteq> set (tracked_under env ix base)"
    and "set (tracked_under env ix base) \<subseteq> {q \<in> tracked ix. path_starts_with q base}"
proof -
  have k: "keys_inv ix" using i by (simp add: index_inv_def)
  have plain: "backslash \<notin> set q" if "q \<in> tracked ix" for q
    using that keys_note [OF k] keys_attachment [OF k] k by (auto simp: tracked_def keys_inv_def)
  show "{q \<in> tracked ix. q \<noteq> [] \<and> path_starts_with q base} \<subseteq> set (tracked_under env ix base)"
  proof
    fix q
    assume "q \<in> {q \<in> tracked ix. q \<noteq> [] \<and> path_starts_with q base}"
    then have q: "q \<in> tracked ix" "q \<noteq> []" "path_starts_with q base" by simp_all
    have "(folded env q, q) \<in> fst ` set (watched ix)"
      using watched_key [OF i w] q(1) prefixes_self [OF q(2)] by (auto simp: watch_keys_def folded_def)
    moreover have "path_starts_with (folded env q) (folded env base)"
      using f q(3) by (auto simp: folds_by_name_def path_starts_with_def take_map)
    moreover have "tracks ix q" using q(1) plain [OF q(1)] tracks_plain by blast
    ultimately show "q \<in> set (tracked_under env ix base)" using q(3) by (auto simp: tracked_under_def set_matching)
  qed
  show "set (tracked_under env ix base) \<subseteq> {q \<in> tracked ix. path_starts_with q base}"
  proof
    fix q
    assume "q \<in> set (tracked_under env ix base)"
    then obtain key where q: "path_starts_with q base" "tracks ix q" "(key, q) \<in> fst ` set (watched ix)"
      by (auto simp: tracked_under_def set_matching)
    then obtain p where p: "p \<in> tracked ix" "q \<in> set (path_prefixes p)"
      using watched_key [OF i w] by (auto simp: watch_keys_def)
    then have "backslash \<notin> set q" using plain [OF p(1)] prefixes_chars [OF p(2)] by blast
    with q show "q \<in> {q \<in> tracked ix. path_starts_with q base}" using tracks_plain by blast
  qed
qed

section \<open>One path at a time\<close>

text \<open>Two indexes that agree on which paths are tracked, except perhaps \<open>p\<close>.\<close>

definition agree_off :: "str \<Rightarrow> 's VaultIndex \<Rightarrow> 's VaultIndex \<Rightarrow> bool" where
  "agree_off p ix ix' \<longleftrightarrow> tracked ix' - {p} = tracked ix - {p}"

lemma agree_off_refl [simp]: "agree_off p ix ix"
  by (simp add: agree_off_def)

lemma agree_off_trans: "agree_off p a b \<Longrightarrow> agree_off p b c \<Longrightarrow> agree_off p a c"
  by (simp add: agree_off_def)

lemma agree_off_insert: "tracked ix' = insert p (tracked ix) \<Longrightarrow> agree_off p ix ix'"
  by (simp add: agree_off_def)

lemma remove_agree [simp]: "backslash \<notin> set p \<Longrightarrow> agree_off p ix (remove_file env p ix)"
  by (auto simp: agree_off_def tracked_remove_file)

lemma tracked_add_excluded:
  assumes "backslash \<notin> set p" and "is_visible_path p" and "is_markdown p"
  shows "tracked (add_excluded_file env p ix) = insert p (tracked ix)"
proof (cases "p \<in> excluded_note_paths ix")
  case True
  then show ?thesis by (auto simp: add_excluded_file_def logical_separators_plain [OF assms(1)] tracked_def)
next
  case False
  have "tracked (remove_file env p ix) = tracked ix - {p}" by (rule tracked_remove_file [OF assms(1)])
  with False assms show ?thesis
    by (auto simp: add_excluded_file_def Let_def logical_separators_plain [OF assms(1)] tracked_def)
qed

lemma tracked_replace_note:
  "tracked (replace_note env p md tot ix) = insert p (tracked ix)"
  by (auto simp: tracked_def replace_note_fields keys_delete dom_update)

lemma update_observation_tracked:
  fixes ix ix' :: "'s VaultIndex"
  assumes p: "backslash \<notin> set p" and u: "update_observation env sm p content st ex ix = (r, ix')"
  shows "(r = Inl e \<longrightarrow> ix' = ix) \<and> (r = Inr t \<longrightarrow> is_visible_path p \<longrightarrow> tracked ix' = insert p (tracked ix))
    \<and> agree_off p ix ix'"
proof (cases "is_visible_path p")
  case False
  with p u show ?thesis by (auto simp: update_observation_def)
next
  case vis: True
  show ?thesis
  proof (cases "classify sm p ex")
    case Excluded
    then have "is_markdown p" by (simp add: classify_def split: if_splits)
    with vis Excluded u p show ?thesis
      by (auto simp: update_observation_def tracked_add_excluded agree_off_def)
  next
    case Attachment
    show ?thesis
    proof (cases "map_of (attachments ix) p = Some (fsize st)")
      case True
      have "insert p (tracked ix) = tracked ix" using map_of_SomeD [OF True] by (force simp: tracked_def)
      with True vis Attachment u show ?thesis
        by (auto simp: update_observation_def agree_off_def simp del: Some_eq_map_of_iff)
    next
      case changed: False
      show ?thesis
      proof (cases "observed_byte_totals ix p (fsize st) True")
        case (Inl e')
        with changed vis Attachment u show ?thesis
          by (auto simp: update_observation_def simp del: Some_eq_map_of_iff)
      next
        case (Inr tt)
        obtain tot ab where o: "observed_byte_totals ix p (fsize st) True = Inr (tot, ab)" using Inr by (cases tt) simp
        define ix1 where "ix1 = track_watch_path env p (remove_file env p ix)"
        have t1: "tracked ix1 = tracked ix - {p}"
          using tracked_remove_file [OF p, of env ix] by (simp add: ix1_def tracked_def)
        have e: "r = Inr None" "ix' = ix1 \<lparr> attachments := AList.update p (fsize st) (attachments ix1), attachment_bytes := ab,
            stats := (stats ix1) \<lparr> total_files := total_files (stats ix1) + 1, vault_size_bytes := tot \<rparr> \<rparr>"
          using changed o vis Attachment u unfolding ix1_def
          by (simp_all add: update_observation_def Let_def del: Some_eq_map_of_iff)
        have "tracked ix' = insert p (tracked ix1)" unfolding e(2) by (auto simp: tracked_def dom_update)
        then have "tracked ix' = insert p (tracked ix)" using t1 by simp
        then show ?thesis using e(1) by (simp add: agree_off_insert)
      qed
    qed
  next
    case Note
    then have m: "is_markdown p" by (simp add: classify_def split: if_splits)
    note added = tracked_add_excluded [OF p vis m]
    have rev: "tracked (jx \<lparr> source_revisions := x \<rparr>) = tracked jx" for jx :: "'s VaultIndex" and x
      by (simp add: tracked_def)
    from vis Note u show ?thesis
      by (auto simp: update_observation_def Let_def added rev tracked_replace_note agree_off_insert
          split: if_splits option.splits sum.splits)
  qed
qed

definition regular_file :: "FileView \<Rightarrow> bool" where
  "regular_file fv \<longleftrightarrow> (case fv_entry fv of Inr m \<Rightarrow> e_file m \<and> \<not> e_link m | Inl _ \<Rightarrow> False)"

text \<open>A lookup refused by a resource limit says nothing about the file.\<close>

definition undecided :: "FileView \<Rightarrow> bool" where
  "undecided fv \<longleftrightarrow> (case fv_entry fv of Inl e \<Rightarrow> is_resource_limit e | Inr _ \<Rightarrow> False)"

lemma update_file_tracked:
  assumes p: "backslash \<notin> set p" and u: "update_file env sm fv p ex False ix = (r, ix')"
  shows "agree_off p ix ix'"
    and "r = Inr t \<Longrightarrow> p \<in> tracked ix' \<longleftrightarrow> is_visible_path p \<and> regular_file fv"
    and "r = Inl e \<Longrightarrow> is_resource_limit e \<Longrightarrow> regular_file fv \<or> undecided fv"
proof -
  have gone: "tracked (remove_file env p ix) = tracked ix - {p}" by (rule tracked_remove_file [OF p])
  have "agree_off p ix ix' \<and> (r = Inr t \<longrightarrow> (p \<in> tracked ix' \<longleftrightarrow> is_visible_path p \<and> regular_file fv))
    \<and> (r = Inl e \<longrightarrow> is_resource_limit e \<longrightarrow> regular_file fv \<or> undecided fv)"
  proof (cases "is_visible_path p \<and> regular_file fv")
    case True
    then obtain m where m: "is_visible_path p" "fv_entry fv = Inr m" "e_file m \<and> \<not> e_link m"
      by (auto simp: regular_file_def split: sum.splits)
    have obs: "agree_off p ix ix' \<and> (r = Inr t \<longrightarrow> (p \<in> tracked ix' \<longleftrightarrow> is_visible_path p \<and> regular_file fv))
        \<and> (r = Inl e \<longrightarrow> is_resource_limit e \<longrightarrow> regular_file fv \<or> undecided fv)"
      if "update_observation env sm p c st ex ix = (r, ix')" for c st
      using update_observation_tracked [OF p that] True by auto
    show ?thesis
    proof (cases "classify sm p ex = Note")
      case False
      with u m have "update_observation env sm p None \<lparr> fsize = e_len m, created = None, modified = None \<rparr> ex ix = (r, ix')"
        by (simp add: update_file_def)
      then show ?thesis by (rule obs)
    next
      case isn: True
      show ?thesis
      proof (cases "fv_read fv")
        case (Inl e')
        with u m isn True show ?thesis by (auto simp: update_file_def)
      next
        case (Inr cs)
        obtain c st where "cs = (c, st)" by (cases cs)
        with u m isn Inr have "update_observation env sm p (Some c) st ex ix = (r, ix')"
          by (simp add: update_file_def)
        then show ?thesis by (rule obs)
      qed
    qed
  next
    case False
    have drop: ?thesis if "r = Inr None" "ix' = remove_file env p ix"
      using that False p gone by auto
    show ?thesis
    proof (cases "is_visible_path p")
      case hidden: False
      with u show ?thesis by (intro drop) (simp_all add: update_file_def)
    next
      case vis: True
      show ?thesis
      proof (cases "fv_entry fv")
        case (Inr m)
        with False vis u show ?thesis by (intro drop) (auto simp: update_file_def regular_file_def)
      next
        case (Inl er)
        show ?thesis
        proof (cases "is_missing_entry er")
          case True
          with Inl vis u show ?thesis by (intro drop) (simp_all add: update_file_def)
        next
          case False
          with Inl vis u have "r = Inl er" "ix' = ix" by (simp_all add: update_file_def)
          with Inl show ?thesis by (simp add: undecided_def)
        qed
      qed
    qed
  qed
  then show "agree_off p ix ix'"
    and "r = Inr t \<Longrightarrow> p \<in> tracked ix' \<longleftrightarrow> is_visible_path p \<and> regular_file fv"
    and "r = Inl e \<Longrightarrow> is_resource_limit e \<Longrightarrow> regular_file fv \<or> undecided fv"
    by blast+
qed

lemma sync_lexical_tracked [simp]: "tracked (snd (sync_lexical p was update tv emb ix)) = tracked ix"
  using sync_lexical_cases [of p was update tv emb ix] by (elim disjE exE conjE) (simp_all add: tracked_def)

lemma refresh_file_tracked:
  assumes p: "backslash \<notin> set p" and r: "refresh_file env sm fv p ex tv emb sh ix = (res, ix')"
  shows "agree_off p ix ix'"
    and "p \<in> tracked ix' \<Longrightarrow> regular_file fv \<or> undecided fv"
    and "res = Inr b \<Longrightarrow> is_visible_path p \<Longrightarrow> regular_file fv \<Longrightarrow> p \<in> tracked ix'"
proof -
  let ?was = "map_of (notes ix) p \<noteq> None"
  obtain u ix1 where u: "update_file env sm fv p ex False ix = (u, ix1)" by (cases "update_file env sm fv p ex False ix")
  have f: "finish_refresh env p ?was u tv emb sh ix1 = (res, ix')"
    using r by (simp add: refresh_file_def Let_def u)
  note uf = update_file_tracked [OF p u]
  have "agree_off p ix ix' \<and> (p \<in> tracked ix' \<longrightarrow> regular_file fv \<or> undecided fv)
    \<and> (res = Inr b \<longrightarrow> is_visible_path p \<longrightarrow> regular_file fv \<longrightarrow> p \<in> tracked ix')"
  proof (cases "refused u")
    case True
    then obtain e where e: "u = Inl e" "is_resource_limit e" by (auto simp: refused_def split: sum.splits)
    have "ix' = ix1 \<lparr> source_revisions := AList.delete p (source_revisions ix1) \<rparr>" "res = Inl e"
      using f True e by (auto simp: finish_refresh_def)
    moreover have "tracked (ix1 \<lparr> source_revisions := x \<rparr>) = tracked ix1" for x by (simp add: tracked_def)
    ultimately show ?thesis using uf(1) uf(3) [OF e] by (auto simp: agree_off_def)
  next
    case False
    define ix2 where "ix2 = (if is_ok u then ix1 else remove_file env p ix1)"
    obtain lex ix3 where l: "sync_lexical p ?was u tv emb ix2 = (lex, ix3)" by (cases "sync_lexical p ?was u tv emb ix2")
    have t3: "tracked ix3 = tracked ix2" using sync_lexical_tracked l by (metis snd_conv)
    have e: "ix' = (if is_ok lex then ix3 else remove_file env p ix3)"
      and res: "res = (case u of Inl error \<Rightarrow> (case lex of Inl cleanup \<Rightarrow>
                     Inl (Other (sh error @ ''; synchronizing search for '' @ p @ '' also failed: '' @ sh cleanup))
                 | Inr _ \<Rightarrow> Inl error) | Inr _ \<Rightarrow> lex)"
      using f False l unfolding finish_refresh_def ix2_def [symmetric] Let_def by simp_all
    have gone: "tracked (remove_file env p jx) = tracked jx - {p}" for jx :: "'a VaultIndex"
      by (rule tracked_remove_file [OF p])
    have a: "agree_off p ix ix'"
      using uf(1) t3 unfolding e ix2_def agree_off_def by (auto simp: gone split: if_splits)
    show ?thesis
    proof (cases u)
      case (Inl er)
      then have "p \<notin> tracked ix2" by (simp add: ix2_def gone)
      then have "p \<notin> tracked ix'" using t3 unfolding e by (simp add: gone)
      moreover have "res \<noteq> Inr b" using res Inl by (auto split: sum.splits)
      ultimately show ?thesis using a by blast
    next
      case (Inr t)
      then have "ix2 = ix1" by (simp add: ix2_def)
      then have "p \<in> tracked ix3 \<longleftrightarrow> is_visible_path p \<and> regular_file fv" using uf(2) [OF Inr] t3 by simp
      moreover have "res = lex" using res Inr by simp
      ultimately show ?thesis using a unfolding e by (auto simp: gone is_ok_def split: sum.splits)
    qed
  qed
  then show "agree_off p ix ix'"
    and "p \<in> tracked ix' \<Longrightarrow> regular_file fv \<or> undecided fv"
    and "res = Inr b \<Longrightarrow> is_visible_path p \<Longrightarrow> regular_file fv \<Longrightarrow> p \<in> tracked ix'"
    by blast+
qed

lemma remove_projection_tracked:
  "backslash \<notin> set p \<Longrightarrow> tracked (snd (remove_projection env p tv ix)) = tracked ix - {p}"
  by (auto simp: remove_projection_def Let_def tracked_remove_file split: option.splits sum.splits)

section \<open>A list of changes\<close>

text \<open>What one staged change leaves of its path.\<close>

definition settled :: "Disk \<Rightarrow> str \<times> Change \<Rightarrow> 's Staged \<Rightarrow> bool" where
  "settled disk pc st \<longleftrightarrow>
     (case pc of
        (p, RemovePath) \<Rightarrow> p \<notin> tracked (index st)
      | (p, RefreshPath) \<Rightarrow>
          (p \<in> tracked (index st) \<longrightarrow> regular_file (file_view disk p) \<or> undecided (file_view disk p))
          \<and> (is_visible_path p \<and> regular_file (file_view disk p) \<longrightarrow>
               p \<in> tracked (index st) \<or> p \<in> fst ` set (warned st)))"

lemma stage_path_settled:
  assumes i: "index_inv env (index st)" and p: "backslash \<notin> set (fst pc)"
  shows "index_inv env (index (stage_path env sm sh watch disk pc st))"
    and "agree_off (fst pc) (index st) (index (stage_path env sm sh watch disk pc st))"
    and "set (warned st) \<subseteq> set (warned (stage_path env sm sh watch disk pc st))"
    and "settled disk pc (stage_path env sm sh watch disk pc st)"
proof -
  obtain path change where pc: "pc = (path, change)" by (cases pc)
  have p': "backslash \<notin> set path" using p pc by simp
  let ?tv = "if searching watch then Some (lexical_writer disk path) else None"
  let ?st = "stage_path env sm sh watch disk pc st"
  have "index_inv env (index ?st) \<and> agree_off path (index st) (index ?st) \<and> set (warned st) \<subseteq> set (warned ?st)
      \<and> settled disk pc ?st"
  proof (cases change)
    case RefreshPath
    obtain res ix1 where r: "refresh_file env sm (file_view disk path) path (rules watch) ?tv (embedding watch) sh (index st)
        = (res, ix1)" by (cases "refresh_file env sm (file_view disk path) path (rules watch) ?tv (embedding watch) sh (index st)")
    have s: "index ?st = ix1" "warned ?st = warned st @ (case res of Inl e \<Rightarrow> [(path, e)] | Inr _ \<Rightarrow> [])"
      using r by (simp_all add: stage_path_def pc RefreshPath Let_def del: map_of_eq_Some_iff)
    have "index_inv env ix1"
      using refresh_file_inv [OF i p', of sm "file_view disk path" "rules watch" ?tv "embedding watch" sh] r by simp
    moreover have "path \<in> tracked ix1 \<or> path \<in> fst ` set (warned ?st)"
      if "is_visible_path path" "regular_file (file_view disk path)"
      using refresh_file_tracked(3) [OF p' r _ that] s(2) by (cases res) force+
    ultimately show ?thesis
      using refresh_file_tracked(1,2) [OF p' r] s by (auto simp: settled_def pc RefreshPath)
  next
    case RemovePath
    obtain res ix1 where r: "remove_projection env path ?tv (index st) = (res, ix1)"
      by (cases "remove_projection env path ?tv (index st)")
    have s: "index ?st = ix1" "warned ?st = warned st @ (case res of Inl e \<Rightarrow> [(path, e)] | Inr _ \<Rightarrow> [])"
      using r by (simp_all add: stage_path_def pc RemovePath Let_def del: map_of_eq_Some_iff)
    have "index_inv env ix1" "tracked ix1 = tracked (index st) - {path}"
      using remove_projection_inv [OF i p', of ?tv] remove_projection_tracked [OF p', of env ?tv "index st"] r by simp_all
    then show ?thesis using s by (simp add: settled_def pc RemovePath agree_off_def)
  qed
  then show "index_inv env (index ?st)" "agree_off (fst pc) (index st) (index ?st)"
    "set (warned st) \<subseteq> set (warned ?st)" "settled disk pc ?st"
    using pc by simp_all
qed

lemma settled_stays:
  assumes "settled disk pc st" and "agree_off q (index st) (index st')" and "fst pc \<noteq> q"
    and "set (warned st) \<subseteq> set (warned st')"
  shows "settled disk pc st'"
proof -
  obtain p c where pc: "pc = (p, c)" by (cases pc)
  have "p \<in> tracked (index st') \<longleftrightarrow> p \<in> tracked (index st)"
    using assms(2,3) pc unfolding agree_off_def by auto
  with assms(1,4) show ?thesis unfolding settled_def pc by (cases c) auto
qed

lemma stage_list:
  "index_inv env (index st) \<Longrightarrow> distinct (map fst pcs) \<Longrightarrow> (\<forall>pc \<in> set pcs. backslash \<notin> set (fst pc)) \<Longrightarrow>
   st' = fold (stage_path env sm sh watch disk) pcs st \<Longrightarrow>
   index_inv env (index st') \<and> (\<forall>q. q \<notin> fst ` set pcs \<longrightarrow> (q \<in> tracked (index st') \<longleftrightarrow> q \<in> tracked (index st)))
   \<and> set (warned st) \<subseteq> set (warned st') \<and> (\<forall>pc \<in> set pcs. settled disk pc st')"
proof (induction pcs arbitrary: st' rule: rev_induct)
  case Nil
  then show ?case by simp
next
  case (snoc pc pcs)
  define mid where "mid = fold (stage_path env sm sh watch disk) pcs st"
  have m: "index_inv env (index mid)" "\<forall>q. q \<notin> fst ` set pcs \<longrightarrow> (q \<in> tracked (index mid) \<longleftrightarrow> q \<in> tracked (index st))"
    "set (warned st) \<subseteq> set (warned mid)" "\<forall>pc \<in> set pcs. settled disk pc mid"
    using snoc.IH [OF snoc.prems(1) _ _ mid_def] snoc.prems(2,3) by auto
  have e: "st' = stage_path env sm sh watch disk pc mid" using snoc.prems(4) by (simp add: mid_def)
  have b: "backslash \<notin> set (fst pc)" and new: "fst pc \<notin> fst ` set pcs" using snoc.prems(2,3) by auto
  note s = stage_path_settled [OF m(1) b, where sm = sm and sh = sh and watch = watch and disk = disk, folded e]
  have "settled disk pc' st'" if "pc' \<in> set pcs" for pc'
  proof (rule settled_stays [OF _ s(2) _ s(3)])
    show "settled disk pc' mid" using m(4) that by blast
    show "fst pc' \<noteq> fst pc" using new that by (metis imageI)
  qed
  moreover have "q \<in> tracked (index st') \<longleftrightarrow> q \<in> tracked (index st)" if "q \<notin> fst ` set (pcs @ [pc])" for q
    using that m(2) s(2) unfolding agree_off_def by auto
  ultimately show ?case using s m(3) by auto
qed

lemma stage_paths_result:
  assumes "index_inv env (index st)" and "distinct (map fst paths)" and "\<forall>pc \<in> set paths. backslash \<notin> set (fst pc)"
    and "st' = stage_paths env sm sh watch disk paths st"
  shows "index_inv env (index st')"
    and "q \<notin> fst ` set paths \<Longrightarrow> q \<in> tracked (index st') \<longleftrightarrow> q \<in> tracked (index st)"
    and "set (warned st) \<subseteq> set (warned st')"
    and "pc \<in> set paths \<Longrightarrow> settled disk pc st'"
proof -
  have d: "distinct (map fst (sort_key (names_of \<circ> fst) paths))"
    using assms(2) by (metis distinct_map distinct_sort set_sort)
  note r = stage_list [OF assms(1) d _ assms(4) [unfolded stage_paths_def]]
  show "index_inv env (index st')"
    and "q \<notin> fst ` set paths \<Longrightarrow> q \<in> tracked (index st') \<longleftrightarrow> q \<in> tracked (index st)"
    and "set (warned st) \<subseteq> set (warned st')"
    and "pc \<in> set paths \<Longrightarrow> settled disk pc st'"
    using r assms(3) by simp_all
qed

section \<open>The paths of an event\<close>

text \<open>
  The disk as the operating system presents it: finitely many directories with proper entry names,
  and resolved paths that are portable relative paths (\<^verbatim>\<open>resolve\<close> ends with \<^verbatim>\<open>portable_native\<close>).
\<close>

definition disk_ok :: "Disk \<Rightarrow> bool" where
  "disk_ok disk \<longleftrightarrow> finite_tree (disk_tree disk) \<and> (\<forall>p q. resolve_existing disk p = Inr q \<longrightarrow> clean_path q)"

lemma fold_update_map:
  "map_of (fold (\<lambda>p. AList.update p v) ps t) q = (if q \<in> set ps then Some v else map_of t q)"
  by (induction ps arbitrary: t) (auto simp: update_conv')

lemma fold_update_distinct:
  "distinct (map fst t) \<Longrightarrow> distinct (map fst (fold (\<lambda>p. AList.update p v) ps t))"
  by (induction ps arbitrary: t) (auto simp: distinct_update)

lemma fold_update_keys: "fst ` set (fold (\<lambda>p. AList.update p v) ps t) = set ps \<union> fst ` set t"
  by (induction ps arbitrary: t) (auto simp: dom_update)

lemma strip_components_append: "strip_components bs cs = Some r \<Longrightarrow> cs = bs @ r"
  by (induction bs cs rule: strip_components.induct) (auto split: if_splits)

lemma components_names:
  assumes "Normal n \<in> set (components p)"
  shows "n \<noteq> [] \<and> n \<noteq> ''.'' \<and> n \<noteq> ''..'' \<and> slash \<notin> set n"
  using assms component_name [of n p] unfolding components_def Let_def by (auto split: if_splits)

lemma relative_clean:
  assumes "relative_from_absolute vr abs_path = Inr r"
  shows "clean_path r"
proof -
  obtain cs where cs: "strip_components (components vr) (components abs_path) = Some cs"
    "portable_components abs_path [] cs = Inr r"
    using assms by (auto simp: relative_from_absolute_def split: option.splits)
  have sub: "set cs \<subseteq> set (components abs_path)" using strip_components_append [OF cs(1)] by simp
  then have "list_all (\<lambda>c. c \<noteq> Normal []) cs" using components_names by (fastforce simp: list_all_iff)
  then obtain ns where ns: "cs = map Normal ns" "\<forall>n \<in> set ns. backslash \<notin> set n" "r = join_with ''/'' ns"
    using portable_components_names [OF cs(2)] by auto
  have "clean_name n" if "n \<in> set ns" for n
  proof -
    have "Normal n \<in> set (components abs_path)" using that ns(1) sub by auto
    from components_names [OF this] ns(2) that show ?thesis
      by (auto simp: clean_name_def list_ex_iff is_sep_def)
  qed
  then show ?thesis unfolding ns(3) by (intro clean_join) (simp add: list_all_iff)
qed

lemma previous_spelling_current:
  assumes "previous_spelling env disk w actual = Some (previous, current)"
  shows "current \<in> set (path_prefixes actual) \<and> resolve_existing disk previous = Inr current \<and> previous \<noteq> current"
proof -
  have "first_spelling env disk w ps = Some (previous, current) \<Longrightarrow>
      current \<in> set ps \<and> spelling_at env disk w current = Some previous" for ps
    by (induction ps) (auto split: option.splits)
  from this [of "rev (path_prefixes actual)"] assms show ?thesis
    unfolding previous_spelling_def spelling_at_def by (auto simp: find_Some_iff)
qed

lemma path_starts_prefix: "path_starts_with p base \<longleftrightarrow> prefix (names_of base) (names_of p)"
  unfolding path_starts_with_def prefix_def by (metis append_eq_conv_conj append_take_drop_id)

lemma path_starts_trans: "path_starts_with p q \<Longrightarrow> path_starts_with q b \<Longrightarrow> path_starts_with p b"
  unfolding path_starts_prefix by (rule prefix_order.trans)

lemma path_starts_refl [simp]: "path_starts_with p p"
  by (simp add: path_starts_with_def)

text \<open>What holds of the paths of an event, for the bases it covers.\<close>

definition covers :: "str list \<Rightarrow> 's VaultIndex \<Rightarrow> (str \<times> Change) list \<Rightarrow> bool" where
  "covers bases ix paths \<longleftrightarrow>
     distinct (map fst paths) \<and> (\<forall>pc \<in> set paths. backslash \<notin> set (fst pc))
     \<and> (\<forall>q \<in> tracked ix. \<forall>base \<in> set bases. q \<noteq> [] \<and> path_starts_with q base \<longrightarrow> q \<in> fst ` set paths)"

lemma tracked_plain: "index_inv env ix \<Longrightarrow> q \<in> tracked ix \<Longrightarrow> backslash \<notin> set q"
  using keys_note [of ix q] keys_attachment [of ix q] by (auto simp: tracked_def index_inv_def keys_inv_def)

lemma removal_paths:
  fixes bases :: "str list"
  assumes i: "index_inv env ix" and w: "watch_paths ix = Some (watched ix)" and f: "folds_by_name env"
  defines "paths \<equiv> fold (\<lambda>p. AList.update p RemovePath) (concat (map (tracked_under env ix) bases)) []"
  shows "covers bases ix paths"
    and "fst ` set paths \<subseteq> {q. \<exists>base \<in> set bases. path_starts_with q base}"
proof -
  have keys: "fst ` set paths = (\<Union>base \<in> set bases. set (tracked_under env ix base))"
    by (simp add: paths_def fold_update_keys)
  note u = set_tracked_under [OF i w f]
  show "fst ` set paths \<subseteq> {q. \<exists>base \<in> set bases. path_starts_with q base}"
    unfolding keys using u(2) by blast
  have "distinct (map fst paths)" unfolding paths_def by (rule fold_update_distinct) simp
  moreover have "backslash \<notin> set (fst pc)" if "pc \<in> set paths" for pc
  proof -
    have "fst pc \<in> tracked ix" using that keys u(2) by blast
    then show ?thesis by (rule tracked_plain [OF i])
  qed
  moreover have "q \<in> fst ` set paths"
    if "q \<in> tracked ix" "base \<in> set bases" "q \<noteq> []" "path_starts_with q base" for q base
    unfolding keys using u(1) that by blast
  ultimately show "covers bases ix paths" unfolding covers_def by blast
qed

lemma covers_refresh:
  assumes "covers bases ix paths" and "\<forall>f \<in> set fs. clean_path f"
  shows "covers bases ix (fold (\<lambda>p. AList.update p c) fs paths)"
proof -
  have k: "fst ` set (fold (\<lambda>p. AList.update p c) fs paths) = set fs \<union> fst ` set paths" by (rule fold_update_keys)
  have "backslash \<notin> set q" if "q \<in> set fs \<union> fst ` set paths" for q
    using that assms clean_path_backslash [of q] by (auto simp: covers_def)
  then have "\<forall>pc \<in> set (fold (\<lambda>p. AList.update p c) fs paths). backslash \<notin> set (fst pc)"
    using k by (metis imageI)
  moreover have "distinct (map fst (fold (\<lambda>p. AList.update p c) fs paths))"
    using assms(1) by (intro fold_update_distinct) (simp add: covers_def)
  ultimately show ?thesis using assms(1) k unfolding covers_def by blast
qed

lemma listing_paths_returns:
  assumes "disk_ok disk" and "\<And>a. actual = Some a \<Longrightarrow> clean_path a"
  shows "\<exists>r. listing_paths env disk ix bases metadata actual = Some r"
  using assms visit_files_returns unfolding disk_ok_def
  by (cases metadata; cases actual) (auto simp: listing_paths_def Let_def)

lemma listing_paths_result:
  assumes i: "index_inv env ix" and w: "watch_paths ix = Some (watched ix)" and f: "folds_by_name env"
    and a: "\<And>a. actual = Some a \<Longrightarrow> clean_path a"
    and l: "listing_paths env disk ix bases metadata actual = Some (Inr paths)"
  shows "covers bases ix paths"
    and "fst ` set paths \<subseteq> {q. \<exists>base \<in> set bases. path_starts_with q base}
           \<union> (case actual of Some a \<Rightarrow> insert a {q. below (disk_tree disk) a q} | None \<Rightarrow> {})"
    and "metadata = Some m \<Longrightarrow> actual = Some b \<Longrightarrow> q = b \<and> \<not> e_dir m \<or> e_dir m \<and> below (disk_tree disk) b q \<Longrightarrow>
           (q, RefreshPath) \<in> set paths"
proof -
  define paths0 where "paths0 = fold (\<lambda>p. AList.update p RemovePath) (concat (map (tracked_under env ix) bases)) []"
  note r0 = removal_paths [OF i w f, of bases, folded paths0_def]
  have "\<exists>fs. paths = fold (\<lambda>p. AList.update p RefreshPath) fs paths0 \<and> (\<forall>q \<in> set fs. clean_path q)
     \<and> set fs = (case (metadata, actual) of
          (Some m, Some a) \<Rightarrow> (if e_dir m then {q. below (disk_tree disk) a q} else {a}) | _ \<Rightarrow> {})"
  proof (cases "\<exists>m a. metadata = Some m \<and> actual = Some a")
    case False
    then have "paths = paths0"
      using l by (cases metadata; cases actual) (auto simp: listing_paths_def paths0_def Let_def)
    with False show ?thesis by (cases metadata; cases actual) (auto intro!: exI [of _ "[]"])
  next
    case True
    then obtain m b where ma: "metadata = Some m" "actual = Some b" by blast
    show ?thesis
    proof (cases "e_dir m")
      case True
      with l ma have "visit_files (disk_tree disk) b always (\<lambda>p paths. Inr (AList.update p RefreshPath paths)) paths0
          = Some (Inr paths)" by (simp add: listing_paths_def paths0_def Let_def)
      from visit_files_below [OF this] obtain fs where
        "paths = fold (\<lambda>p. AList.update p RefreshPath) fs paths0" "set fs = {q. below (disk_tree disk) b q}" by blast
      with ma True below_clean show ?thesis by auto
    next
      case False
      with l ma have "paths = AList.update b RefreshPath paths0" by (simp add: listing_paths_def paths0_def Let_def)
      with ma False a show ?thesis by (intro exI [of _ "[b]"]) simp
    qed
  qed
  then obtain fs where fs: "paths = fold (\<lambda>p. AList.update p RefreshPath) fs paths0" "\<forall>q \<in> set fs. clean_path q"
    "set fs = (case (metadata, actual) of
          (Some m, Some a) \<Rightarrow> (if e_dir m then {q. below (disk_tree disk) a q} else {a}) | _ \<Rightarrow> {})" by blast
  show "covers bases ix paths" unfolding fs(1) by (rule covers_refresh [OF r0(1) fs(2)])
  have "set fs \<subseteq> (case actual of Some a \<Rightarrow> insert a {q. below (disk_tree disk) a q} | None \<Rightarrow> {})"
    unfolding fs(3) by (auto split: option.splits if_splits)
  then show "fst ` set paths \<subseteq> {q. \<exists>base \<in> set bases. path_starts_with q base}
           \<union> (case actual of Some a \<Rightarrow> insert a {q. below (disk_tree disk) a q} | None \<Rightarrow> {})"
    using r0(2) unfolding fs(1) fold_update_keys by blast
  assume "metadata = Some m" "actual = Some b" "q = b \<and> \<not> e_dir m \<or> e_dir m \<and> below (disk_tree disk) b q"
  then have "q \<in> set fs" using fs(3) by auto
  then have "map_of paths q = Some RefreshPath" unfolding fs(1) fold_update_map by simp
  then show "(q, RefreshPath) \<in> set paths" by (rule map_of_SomeD)
qed

text \<open>
  A disk whose names are exact: a path resolves only to itself, as on a case-sensitive file system
  without links.
\<close>

definition exact_names :: "Disk \<Rightarrow> bool" where
  "exact_names disk \<longleftrightarrow> (\<forall>p q. resolve_existing disk p = Inr q \<longrightarrow> q = p)"

lemma previous_spelling_exact: "exact_names disk \<Longrightarrow> previous_spelling env disk w actual = None"
  using previous_spelling_current [of env disk w actual] unfolding exact_names_def
  by (cases "previous_spelling env disk w actual") fastforce+

lemma covers_fewer:
  assumes "covers bases ix paths" and "\<And>base. base \<in> set bases' \<Longrightarrow> \<exists>b \<in> set bases. path_starts_with base b"
  shows "covers bases' ix paths"
proof -
  have "q \<in> fst ` set paths"
    if "q \<in> tracked ix" "base \<in> set bases'" "q \<noteq> []" "path_starts_with q base" for q base
  proof -
    obtain b where "b \<in> set bases" "path_starts_with base b" using assms(2) \<open>base \<in> set bases'\<close> by blast
    with that path_starts_trans assms(1) show ?thesis unfolding covers_def by blast
  qed
  with assms(1) show ?thesis unfolding covers_def by blast
qed

text \<open>The listing is that of the event's own path: nothing outside it changes, and its files are refreshed.\<close>

definition own_listing :: "Disk \<Rightarrow> str \<Rightarrow> Metadata option \<Rightarrow> str option \<Rightarrow> (str \<times> Change) list \<Rightarrow> bool" where
  "own_listing disk rel metadata actual paths \<longleftrightarrow>
     fst ` set paths \<subseteq> {q. path_starts_with q rel}
     \<and> (\<forall>m q. metadata = Some m \<and> actual = Some rel \<and> (q = rel \<and> \<not> e_dir m \<or> e_dir m \<and> below (disk_tree disk) rel q)
          \<longrightarrow> (q, RefreshPath) \<in> set paths)"

lemma event_subtrees_result:
  assumes i: "index_inv env ix" and f: "folds_by_name env" and d: "disk_ok disk"
    and a: "\<And>p. actual = Some p \<Longrightarrow> clean_path p"
  shows "\<exists>found. event_subtrees env disk ix rel metadata actual = Some (found, open_watch_paths env ix)
    \<and> (\<forall>paths. found = Inr paths \<longrightarrow> covers [rel] ix paths
        \<and> (exact_names disk \<and> (actual = None \<or> actual = Some rel) \<longrightarrow> own_listing disk rel metadata actual paths))"
proof -
  let ?ix = "open_watch_paths env ix"
  have i1: "index_inv env ?ix" by (rule open_watch_inv [OF i])
  note w1 = open_watch_some [of env ix]
  have tr: "covers bs ?ix ps \<longleftrightarrow> covers bs ix ps" for bs ps by (simp add: covers_def)
  define spelling where "spelling = (case actual of
      Some path \<Rightarrow> if path \<noteq> [] \<and> path = rel then previous_spelling env disk (watched ?ix) path else None | None \<Rightarrow> None)"
  show ?thesis
  proof (cases spelling)
    case None
    let ?bases = "rel # (case actual of Some a \<Rightarrow> if a \<noteq> rel then [a] else [] | None \<Rightarrow> [])"
    have e: "event_subtrees env disk ix rel metadata actual
        = map_option (\<lambda>r. (r, ?ix)) (listing_paths env disk ?ix ?bases metadata actual)"
      using None unfolding event_subtrees_def spelling_def [symmetric] Let_def by (simp cong: option.case_cong)
    obtain r where r: "listing_paths env disk ?ix ?bases metadata actual = Some r"
      using listing_paths_returns [OF d a] by blast
    have "covers [rel] ix paths
        \<and> (exact_names disk \<and> (actual = None \<or> actual = Some rel) \<longrightarrow> own_listing disk rel metadata actual paths)"
      if p: "r = Inr paths" for paths
    proof (intro conjI impI)
      note l = listing_paths_result [OF i1 w1 f a r [unfolded p]]
      have "covers [rel] ?ix paths" by (rule covers_fewer [OF l(1)]) auto
      then show "covers [rel] ix paths" by (simp add: tr)
      assume x: "exact_names disk \<and> (actual = None \<or> actual = Some rel)"
      have "path_starts_with q rel" if "actual = Some rel" "below (disk_tree disk) rel q" for q
        using below_names [OF _ that(2)] d a [OF that(1)] unfolding disk_ok_def path_starts_prefix by auto
      then have "(case actual of Some a \<Rightarrow> insert a {q. below (disk_tree disk) a q} | None \<Rightarrow> {}) \<subseteq> {q. path_starts_with q rel}"
        using x by auto
      moreover have "{q. \<exists>base \<in> set ?bases. path_starts_with q base} \<subseteq> {q. path_starts_with q rel}" using x by auto
      ultimately have "fst ` set paths \<subseteq> {q. path_starts_with q rel}" using l(2) by (meson Un_least subset_trans)
      then show "own_listing disk rel metadata actual paths" using l(3) unfolding own_listing_def by blast
    qed
    then show ?thesis using e r by simp
  next
    case (Some pc)
    obtain previous current where pc: "pc = (previous, current)" by (cases pc)
    have act: "actual = Some rel" and sp: "previous_spelling env disk (watched ?ix) rel = Some (previous, current)"
      using Some pc unfolding spelling_def by (auto split: option.splits if_splits)
    note cur = previous_spelling_current [OF sp]
    have cc: "clean_path current" using cur d unfolding disk_ok_def by blast
    have nx: "\<not> exact_names disk" using previous_spelling_exact sp by force
    show ?thesis
    proof (cases "entry_metadata_exact disk current")
      case (Inl er)
      then have "event_subtrees env disk ix rel metadata actual = Some (Inl er, ?ix)"
        using Some pc unfolding event_subtrees_def spelling_def [symmetric] Let_def by simp
      then show ?thesis by simp
    next
      case (Inr m)
      let ?bases = "previous # (if current \<noteq> previous then [current] else [])"
      have e: "event_subtrees env disk ix rel metadata actual
          = map_option (\<lambda>r. (r, ?ix)) (listing_paths env disk ?ix ?bases (Some m) (Some current))"
        using Inr Some pc unfolding event_subtrees_def spelling_def [symmetric] Let_def by simp
      obtain r where r: "listing_paths env disk ?ix ?bases (Some m) (Some current) = Some r"
        using listing_paths_returns [OF d, of "Some current"] cc by blast
      have "covers [rel] ix paths" if p: "r = Inr paths" for paths
      proof -
        have "covers ?bases ?ix paths" using listing_paths_result(1) [OF i1 w1 f _ r [unfolded p]] cc by blast
        moreover have "path_starts_with rel current" using cur prefixes_starts by blast
        ultimately have "covers [rel] ?ix paths" using cur by (elim covers_fewer) auto
        then show ?thesis by (simp add: tr)
      qed
      with e r nx show ?thesis by simp
    qed
  qed
qed

text \<open>A file that the disk shows at the path of an event, or below it.\<close>

definition present :: "Disk \<Rightarrow> str \<Rightarrow> str \<Rightarrow> bool" where
  "present disk rel q \<longleftrightarrow>
     (case entry_metadata_exact disk rel of
        Inl _ \<Rightarrow> False
      | Inr m \<Rightarrow> \<not> e_link m \<and> (if e_dir m then \<not> e_file m \<and> below (disk_tree disk) rel q else e_file m \<and> q = rel))"

text \<open>What the staging of an event relies on: every tracked path under it is in the list, once.\<close>

definition event_ok :: "Disk \<Rightarrow> str \<Rightarrow> 's VaultIndex \<Rightarrow> (str \<times> Change) list \<Rightarrow> bool" where
  "event_ok disk rel ix paths \<longleftrightarrow>
     distinct (map fst paths) \<and> (\<forall>pc \<in> set paths. backslash \<notin> set (fst pc))
     \<and> (\<forall>q \<in> tracked ix. q \<noteq> [] \<and> path_starts_with q rel \<and> (rel \<notin> tracked ix \<or> q = rel) \<longrightarrow> q \<in> fst ` set paths)
     \<and> (exact_names disk \<longrightarrow> fst ` set paths \<subseteq> {q. path_starts_with q rel}
          \<and> (\<forall>q. present disk rel q \<longrightarrow> (q, RefreshPath) \<in> set paths))"

lemma covers_event:
  assumes "covers [rel] ix paths"
    and "exact_names disk \<Longrightarrow> fst ` set paths \<subseteq> {q. path_starts_with q rel}"
    and "\<And>q. exact_names disk \<Longrightarrow> present disk rel q \<Longrightarrow> (q, RefreshPath) \<in> set paths"
  shows "event_ok disk rel ix paths"
  using assms unfolding covers_def event_ok_def by simp

lemma single_event:
  assumes "clean_path rel" and "entry_metadata_exact disk rel = Inr m" and "e_file m"
  shows "event_ok disk rel ix [(rel, RefreshPath)] \<longleftrightarrow>
    (\<forall>q \<in> tracked ix. q \<noteq> [] \<and> path_starts_with q rel \<and> (rel \<notin> tracked ix \<or> q = rel) \<longrightarrow> q = rel)"
  using assms clean_path_backslash [OF assms(1)]
  by (auto simp: event_ok_def present_def split: if_splits)

lemma event_paths_result:
  assumes i: "index_inv env ix" and f: "folds_by_name env" and d: "disk_ok disk" and rel: "clean_path rel"
  shows "\<exists>found ix'. event_paths env disk ix rel = Some (found, ix') \<and> index_inv env ix' \<and> tracked ix' = tracked ix
    \<and> (\<forall>paths. found = Inr paths \<longrightarrow> event_ok disk rel ix paths)"
proof -
  have early: ?thesis if "event_paths env disk ix rel = Some (Inl e, ix)" for e
    using that i by simp
  have subtrees: ?thesis
    if e: "event_paths env disk ix rel = event_subtrees env disk ix rel metadata actual"
      and a: "\<And>p. actual = Some p \<Longrightarrow> clean_path p"
      and x: "exact_names disk \<Longrightarrow> actual = None \<or> actual = Some rel"
      and m: "\<And>q. exact_names disk \<Longrightarrow> present disk rel q \<Longrightarrow> actual = Some rel \<and>
          (\<exists>m. metadata = Some m \<and> (q = rel \<and> \<not> e_dir m \<or> e_dir m \<and> below (disk_tree disk) rel q))"
    for metadata actual
  proof -
    from event_subtrees_result [OF i f d a] obtain found where
      s: "event_subtrees env disk ix rel metadata actual = Some (found, open_watch_paths env ix)"
      and p: "\<forall>paths. found = Inr paths \<longrightarrow> covers [rel] ix paths
        \<and> (exact_names disk \<and> (actual = None \<or> actual = Some rel) \<longrightarrow> own_listing disk rel metadata actual paths)"
      by blast
    have "event_ok disk rel ix paths" if "found = Inr paths" for paths
    proof (rule covers_event)
      show "covers [rel] ix paths" using p that by blast
      assume ex: "exact_names disk"
      then have o: "own_listing disk rel metadata actual paths" using p that x by blast
      then show "fst ` set paths \<subseteq> {q. path_starts_with q rel}" by (simp add: own_listing_def)
      show "(q, RefreshPath) \<in> set paths" if "present disk rel q" for q
        using o m [OF ex that] unfolding own_listing_def by blast
    qed
    with s e open_watch_inv [OF i] show ?thesis by simp
  qed
  show ?thesis
  proof (cases "entry_metadata_exact disk rel")
    case (Inl er)
    show ?thesis
    proof (cases "skip_changed_entry er")
      case True
      show ?thesis
        by (rule subtrees [of None None]) (use Inl True in \<open>simp_all add: event_paths_def present_def\<close>)
    next
      case False
      with Inl show ?thesis by (intro early) (simp add: event_paths_def)
    qed
  next
    case (Inr m)
    show ?thesis
    proof (cases "\<not> e_link m \<and> (e_dir m \<or> e_file m)")
      case False
      show ?thesis
        by (rule subtrees [of None None]) (use Inr False in \<open>auto simp: event_paths_def present_def split: if_splits\<close>)
    next
      case kind: True
      define resolved where "resolved = (if rel = [] then Inr [] else resolve_existing disk rel)"
      show ?thesis
      proof (cases resolved)
        case (Inl er)
        with Inr kind show ?thesis
          by (intro early [of er]) (auto simp: event_paths_def resolved_def split: if_splits)
      next
        case res: (Inr actual)
        have c: "clean_path actual" using res d unfolding resolved_def disk_ok_def by (auto simp: clean_path_def split: if_splits)
        have x: "actual = rel" if "exact_names disk" using res that unfolding resolved_def exact_names_def by (auto split: if_splits)
        have e: "event_paths env disk ix rel
            = (if e_file m \<and> actual = rel \<and> tracks ix rel then Some (Inr [(rel, RefreshPath)], ix)
               else event_subtrees env disk ix rel (Some m) (Some actual))"
          using Inr kind res by (auto simp: event_paths_def resolved_def split: if_splits)
        show ?thesis
        proof (cases "e_file m \<and> actual = rel \<and> tracks ix rel")
          case True
          then have "rel \<in> tracked ix" using tracks_plain [OF clean_path_backslash [OF rel]] by blast
          then have "event_ok disk rel ix [(rel, RefreshPath)]" using single_event [OF rel Inr] True by blast
          with e True i show ?thesis by simp
        next
          case False
          show ?thesis
            by (rule subtrees [of "Some m" "Some actual"])
              (use e False c x Inr in \<open>auto simp: present_def split: if_splits\<close>)
        qed
      qed
    qed
  qed
qed

end
