(* ===== verification/WatcherProps.thy ===== *)
theory WatcherProps
  imports Watcher
begin

text \<open>
  What the reconciliation of notifications guarantees: an event leaves no tracked path under it that
  the disk does not show, every file it finds is indexed or reported, and a batch returns with a
  consistent index.
\<close>

section \<open>One event\<close>

text \<open>The staged state agrees with the disk under the path of the event.\<close>

definition reconciled :: "Disk \<Rightarrow> str \<Rightarrow> str \<Rightarrow> 's VaultIndex \<Rightarrow> 's Staged \<Rightarrow> bool" where
  "reconciled disk path rel ix st \<longleftrightarrow>
     (\<forall>q \<in> tracked (index st). q \<noteq> [] \<and> path_starts_with q rel \<and> (rel \<notin> tracked ix \<or> q = rel) \<longrightarrow>
        regular_file (file_view disk q) \<or> undecided (file_view disk q))
     \<and> (exact_names disk \<longrightarrow>
          (\<forall>q. \<not> path_starts_with q rel \<longrightarrow> (q \<in> tracked (index st) \<longleftrightarrow> q \<in> tracked ix))
          \<and> (\<forall>q. present disk rel q \<and> is_visible_path q \<and> regular_file (file_view disk q) \<longrightarrow>
               q \<in> tracked (index st) \<or> q \<in> fst ` set (warned st) \<or> path \<in> fst ` set (warned st)))"

lemma staged_reconciled:
  assumes i: "index_inv env (index st)" and t: "tracked (index st) = tracked ix"
    and p: "event_ok disk rel ix paths"
    and s: "st' = stage_paths env sm sh watch disk paths st"
  shows "index_inv env (index st') \<and> reconciled disk path rel ix st'"
proof -
  have ok: "distinct (map fst paths)" "\<forall>pc \<in> set paths. backslash \<notin> set (fst pc)" using p by (simp_all add: event_ok_def)
  note r = stage_paths_result [OF i ok s]
  have ghost: "regular_file (file_view disk q) \<or> undecided (file_view disk q)"
    if q: "q \<in> tracked (index st')" "q \<noteq> []" "path_starts_with q rel" "rel \<notin> tracked ix \<or> q = rel" for q
  proof (cases "q \<in> fst ` set paths")
    case True
    then obtain c where "(q, c) \<in> set paths" by force
    then show ?thesis using r(4) [of "(q, c)"] q(1) by (cases c) (auto simp: settled_def)
  next
    case False
    then have "q \<in> tracked ix" using r(2) [OF False] q(1) t by simp
    with q p False show ?thesis unfolding event_ok_def by blast
  qed
  moreover have "q \<in> tracked (index st') \<longleftrightarrow> q \<in> tracked ix" if "exact_names disk" "\<not> path_starts_with q rel" for q
    using r(2) [of q] p that t unfolding event_ok_def by blast
  moreover have "q \<in> tracked (index st') \<or> q \<in> fst ` set (warned st')"
    if "exact_names disk" "present disk rel q" "is_visible_path q" "regular_file (file_view disk q)" for q
  proof -
    have "(q, RefreshPath) \<in> set paths" using p that(1,2) unfolding event_ok_def by blast
    then show ?thesis using r(4) [of "(q, RefreshPath)"] that(3,4) by (simp add: settled_def)
  qed
  ultimately show ?thesis using r(1) unfolding reconciled_def by blast
qed

lemma listed_reconciled:
  assumes i: "index_inv env (index st)" and t: "tracked (index st) = tracked ix"
    and w: "path \<in> fst ` set (warned st)"
    and s: "st' = stage_paths env sm sh watch disk
      (map (\<lambda>p. (p, RefreshPath)) (filter (\<lambda>p. path_starts_with p rel) (tracked_paths (index st)))) st"
  shows "index_inv env (index st') \<and> reconciled disk path rel ix st'"
proof -
  let ?ps = "map (\<lambda>p. (p, RefreshPath)) (filter (\<lambda>p. path_starts_with p rel) (tracked_paths (index st)))"
  have k: "keys_inv (index st)" using i by (simp add: index_inv_def)
  have keys: "fst ` set ?ps = {q \<in> tracked ix. path_starts_with q rel}"
    using tracked_paths_keys(2) [OF k] t by force
  have "distinct (map fst ?ps)" using tracked_paths_keys(1) [OF k] by (simp add: comp_def)
  moreover have "\<forall>pc \<in> set ?ps. backslash \<notin> set (fst pc)"
    using tracked_plain [OF i] tracked_paths_keys(2) [OF k] by auto
  ultimately have r: "index_inv env (index st')"
    "\<And>q. q \<notin> fst ` set ?ps \<Longrightarrow> q \<in> tracked (index st') \<longleftrightarrow> q \<in> tracked (index st)"
    "set (warned st) \<subseteq> set (warned st')" "\<And>pc. pc \<in> set ?ps \<Longrightarrow> settled disk pc st'"
    using stage_paths_result [OF i _ _ s] by blast+
  have "regular_file (file_view disk q) \<or> undecided (file_view disk q)"
    if q: "q \<in> tracked (index st')" "path_starts_with q rel" for q
  proof -
    have "q \<in> tracked (index st)" using r(2) [of q] q(1) keys t by blast
    then have "(q, RefreshPath) \<in> set ?ps" using q(2) tracked_paths_keys(2) [OF k] by simp
    from r(4) [OF this] q(1) show ?thesis by (simp add: settled_def)
  qed
  moreover have "q \<in> tracked (index st') \<longleftrightarrow> q \<in> tracked ix" if "\<not> path_starts_with q rel" for q
    using r(2) [of q] keys that t by blast
  moreover have "path \<in> fst ` set (warned st')" using w r(3) by blast
  ultimately show ?thesis using r(1) unfolding reconciled_def by blast
qed

lemma stage_event_result:
  assumes i: "index_inv env (index st)" and f: "folds_by_name env"
    and v: "visible_relative_path (vault_root watch) (absolute ev) = Inr (Some rel)"
    and l: "\<not> poisoned ev" and fs: "filesystem ev = Inr disk" and d: "disk_ok disk"
  shows "\<exists>st'. stage_event env sm sh watch ev st = Some st' \<and> index_inv env (index st')
    \<and> reconciled disk (absolute ev) rel (index st) st'"
proof -
  have rel: "clean_path rel" using v relative_clean by (auto simp: visible_relative_path_def result_simps split: if_splits)
  obtain found ix where e: "event_paths env disk (index st) rel = Some (found, ix)" and ii: "index_inv env ix"
    and t: "tracked ix = tracked (index st)"
    and p: "\<And>paths. found = Inr paths \<Longrightarrow> event_ok disk rel (index st) paths"
    using event_paths_result [OF i f d rel] by blast
  show ?thesis
  proof (cases found)
    case (Inr paths)
    from staged_reconciled [OF _ _ p [OF Inr] refl, of env "st \<lparr> index := ix \<rparr>" sm sh watch "absolute ev"] ii t
    show ?thesis using v l fs e Inr by (simp add: stage_event_def)
  next
    case (Inl er)
    let ?st = "st \<lparr> index := ix, warned := warned st @ [(absolute ev, er)] \<rparr>"
    from listed_reconciled [OF _ _ _ refl, of env ?st "index st" "absolute ev" sm sh watch disk rel] ii t
    show ?thesis using v l fs e Inl by (simp add: stage_event_def)
  qed
qed

section \<open>A batch\<close>

text \<open>An event whose answers are those of an operating system.\<close>

definition sane_event :: "WatchEvent \<Rightarrow> bool" where
  "sane_event ev \<longleftrightarrow> (case filesystem ev of Inl _ \<Rightarrow> True | Inr disk \<Rightarrow> disk_ok disk)"

lemma stage_event_returns:
  assumes i: "index_inv env (index st)" and f: "folds_by_name env" and s: "sane_event ev"
  shows "\<exists>st'. stage_event env sm sh watch ev st = Some st' \<and> index_inv env (index st')"
proof (cases "\<exists>rel disk. visible_relative_path (vault_root watch) (absolute ev) = Inr (Some rel)
    \<and> \<not> poisoned ev \<and> filesystem ev = Inr disk")
  case True
  then obtain rel disk where a: "visible_relative_path (vault_root watch) (absolute ev) = Inr (Some rel)"
    "\<not> poisoned ev" "filesystem ev = Inr disk" by blast
  with s have "disk_ok disk" by (simp add: sane_event_def)
  from stage_event_result [OF i f a this] show ?thesis by blast
next
  case False
  with i show ?thesis
    unfolding stage_event_def by (auto split: sum.splits option.splits)
qed

lemma stage_events_returns:
  assumes "folds_by_name env"
  shows "index_inv env (index st) \<Longrightarrow> list_all sane_event evs \<Longrightarrow>
    \<exists>st'. stage_events env sm sh watch evs st = Some st' \<and> index_inv env (index st')"
proof (induction evs arbitrary: st)
  case (Cons ev evs)
  have "sane_event ev" using Cons.prems(2) by simp
  then obtain st1 where "stage_event env sm sh watch ev st = Some st1" "index_inv env (index st1)"
    using stage_event_returns [OF Cons.prems(1) assms] by blast
  with Cons.IH Cons.prems(2) show ?case by simp
qed simp

lemma publish_waiting:
  "publish_embedding_upserts committed ix = (ready, ix') \<Longrightarrow> (p, stamp) \<in> set (waiting_for_lexical ix') \<Longrightarrow> committed < stamp"
  by (auto simp: publish_embedding_upserts_def Let_def)

lemma reconcile_events_result:
  assumes i: "index_inv env ix" and f: "folds_by_name env" and s: "list_all sane_event evs"
  shows "\<exists>st. reconcile_events env sm sh watch evs flush ix = Some st \<and> index_inv env (index st)
    \<and> (dirty st \<and> searching watch \<and> embedding watch \<and> flush = Inr committed \<longrightarrow>
         (\<forall>(p, stamp) \<in> set (waiting_for_lexical (index st)). committed < stamp))"
proof -
  let ?st0 = "\<lparr> dirty = False, submitted = [], warned = [], index = ix \<rparr>"
  have "index_inv env (index ?st0)" using i by simp
  then obtain st1 where e: "stage_events env sm sh watch evs ?st0 = Some st1" and i1: "index_inv env (index st1)"
    using stage_events_returns [OF f _ s] by blast
  show ?thesis
  proof (cases "dirty st1 \<and> searching watch \<and> embedding watch \<and> (\<exists>c. flush = Inr c)")
    case True
    then obtain c where c: "flush = Inr c" by blast
    obtain ready ix1 where p: "publish_embedding_upserts c (index st1) = (ready, ix1)"
      by (cases "publish_embedding_upserts c (index st1)")
    have "index_inv env ix1" using publish_inv [OF i1, of c] p by simp
    then show ?thesis using e True c p publish_waiting [OF p] by (auto simp: reconcile_events_def)
  next
    case False
    then show ?thesis using e i1 by (cases flush) (auto simp: reconcile_events_def)
  qed
qed

section \<open>Samples\<close>

definition start :: "'s VaultIndex \<Rightarrow> 's Staged" where
  "start ix = \<lparr> dirty = False, submitted = [], warned = [], index = ix \<rparr>"

definition sample_watch :: "unit Watch" where
  "sample_watch = \<lparr> vault_root = ''/v'', rules = \<lparr> globs = (), patterns = [], private_memory = False \<rparr>,
     searching = True, embedding = True \<rparr>"

text \<open>The vault \<open>two_notes\<close> after its directory was deleted, and after another note replaced the one in it.\<close>

definition gone :: Disk where
  "gone = \<lparr> entry_metadata_exact = (\<lambda>p. Inl (Io IoNotFound None)), resolve_existing = (\<lambda>p. Inl (NoteNotFound p)),
     disk_tree = \<lparr> open_dir_exact = (\<lambda>p. Inl (NoteNotFound p)), dir_entries = (\<lambda>p. Inl (NoteNotFound p)) \<rparr>,
     file_view = (\<lambda>p. \<lparr> fv_entry = Inl (NoteNotFound p), fv_read = Inl (NoteNotFound p) \<rparr>),
     lexical_writer = (\<lambda>p. \<lparr> lex_replace = Inr 3, lex_remove = Inr () \<rparr>) \<rparr>"

definition replaced :: Disk where
  "replaced = gone
     \<lparr> entry_metadata_exact := (\<lambda>p. if p = ''d'' then Inr \<lparr> e_file = False, e_link = False, e_len = 0, e_dir = True \<rparr>
                                   else Inl (NoteNotFound p)),
       resolve_existing := (\<lambda>p. if p = ''d'' then Inr p else Inl (NoteNotFound p)),
       disk_tree :=
         \<lparr> open_dir_exact = (\<lambda>p. if p = ''d'' then Inr () else Inl (NoteNotFound p)),
           dir_entries = (\<lambda>p. if p = ''d'' then Inr [Inr \<lparr> file_name = ''n.md'', file_type = Inr KindFile \<rparr>]
                              else Inl (NoteNotFound p)) \<rparr>,
       file_view := (\<lambda>p. if p = ''d/n.md''
          then \<lparr> fv_entry = Inr \<lparr> e_file = True, e_link = False, e_len = 4 \<rparr>,
                 fv_read = Inr (''text'', \<lparr> fsize = 4, created = None, modified = None \<rparr>) \<rparr>
          else \<lparr> fv_entry = Inl (NoteNotFound p), fv_read = Inl (NoteNotFound p) \<rparr>) \<rparr>"

definition sample_event :: "Disk \<Rightarrow> WatchEvent" where
  "sample_event disk = \<lparr> absolute = ''/v/d'', poisoned = False, filesystem = Inr disk \<rparr>"


definition sample_changes :: "(str \<times> Change) list" where
  "sample_changes = [(''d/a.md'', RemovePath), (''d/n.md'', RefreshPath)]"

lemma replaced_paths:
  "event_paths plain_deps replaced two_notes ''d'' = Some (Inr sample_changes, open_watch_paths plain_deps two_notes)"
  by code_simp

lemma sample_relative: "visible_relative_path (vault_root sample_watch) (absolute (sample_event disk)) = Inr (Some ''d'')"
  unfolding sample_event_def WatchEvent.simps by code_simp

lemma replaced_stage:
  "stage_event plain_deps sm sh sample_watch (sample_event replaced) (start two_notes)
   = Some (stage_paths plain_deps sm sh sample_watch replaced sample_changes
       (start (open_watch_paths plain_deps two_notes)))"
  using sample_relative [of replaced]
  by (simp add: stage_event_def sample_event_def start_def replaced_paths)

lemma replaced_result:
  "(\<lambda>st. (map fst (notes (index st)), dirty st, submitted st, warned st))
     (stage_paths plain_deps (\<lambda>_ _. False) (\<lambda>_. []) sample_watch replaced sample_changes
        (start (open_watch_paths plain_deps two_notes)))
   = ([''b.md'', ''d/n.md''], True, [(''d/a.md'', Remove), (''d/n.md'', AwaitingLexical)], [])"
  by code_simp

lemma replaced_ready:
  "map_prod id waiting_for_lexical (publish_embedding_upserts 5 (index
     (stage_paths plain_deps (\<lambda>_ _. False) (\<lambda>_. []) sample_watch replaced sample_changes
        (start (open_watch_paths plain_deps two_notes))))) = ([''d/n.md''], [])"
  by code_simp

lemma gone_result:
  "map_option (\<lambda>st. (map fst (notes (index st)), submitted st, warned st))
     (stage_event plain_deps (\<lambda>_ _. False) (\<lambda>_. []) sample_watch (sample_event gone) (start two_notes))
   = Some ([''b.md''], [(''d/a.md'', Remove)], [])"
  by code_simp

lemma plain_folds: "folds_by_name plain_deps"
  unfolding folds_by_name_def by (intro exI [of _ "\<lambda>n. n"]) (simp add: folded_def plain_deps_def)

lemma two_notes_inv: "index_inv plain_deps (index (start two_notes))"
  using reachable_inv [OF two_notes_reachable] by (simp add: start_def)

lemma two_notes_tracked: "tracked two_notes = {''b.md'', ''d/a.md''}"
proof -
  have n: "map fst (notes two_notes) = [''d/a.md'', ''b.md'']" by code_simp
  have a: "attachments two_notes = []" by code_simp
  have x: "excluded_note_paths two_notes = {}" by code_simp
  have "fst ` set (notes two_notes) = {''d/a.md'', ''b.md''}" using arg_cong [OF n, of set] by simp
  with a x show ?thesis by (auto simp: tracked_def)
qed

lemma sample_fields [simp]: "\<not> poisoned (sample_event disk)" "filesystem (sample_event disk) = Inr disk"
  "index (start ix) = ix"
  by (simp_all add: sample_event_def start_def)

lemma gone_ok: "disk_ok gone"
  by (simp add: disk_ok_def finite_tree_def gone_def)

lemma replaced_ok: "disk_ok replaced" "exact_names replaced"
proof -
  have "clean_path ''d''" by code_simp
  moreover have "{b. open_dir_exact (disk_tree replaced) b = Inr () \<and> is_ok (dir_entries (disk_tree replaced) b)} \<subseteq> {''d''}"
    by (auto simp: replaced_def split: if_splits)
  ultimately show "disk_ok replaced"
    unfolding disk_ok_def finite_tree_def
    by (auto simp: replaced_def finite_subset split: if_splits)
  show "exact_names replaced" by (auto simp: exact_names_def replaced_def split: if_splits)
qed

section \<open>The properties\<close>

text \<open>
  Property C14. A filesystem event leaves no ghost: after an event for a visible path of the vault, on
  a disk of finitely many directories with portable names, when the filesystem is available and the
  lock of the index is not poisoned, the staging returns, the index is consistent, and every path still
  tracked under the reported path is one the disk shows as a regular file (or one whose lookup a
  resource limit refused). Exempt are the paths strictly below a reported path that was tracked itself,
  since an event for a tracked file that is still there only refreshes that file.
\<close>

theorem watch_event_no_ghosts:
  assumes "index_inv env (index st)" and "folds_by_name env"
    and "visible_relative_path (vault_root watch) (absolute ev) = Inr (Some rel)"
    and "\<not> poisoned ev" and "filesystem ev = Inr disk" and "disk_ok disk"
  shows "\<exists>st'. stage_event env sm sh watch ev st = Some st' \<and> index_inv env (index st')
    \<and> (\<forall>q \<in> tracked (index st'). q \<noteq> [] \<and> path_starts_with q rel \<and> (rel \<notin> tracked (index st) \<or> q = rel) \<longrightarrow>
         regular_file (file_view disk q) \<or> undecided (file_view disk q))"
  using stage_event_result [OF assms] unfolding reconciled_def by blast

theorem watch_event_no_ghosts_witness:
  "\<exists>st. stage_event plain_deps (\<lambda>_ _. False) (\<lambda>_. []) sample_watch (sample_event gone) (start two_notes) = Some st
     \<and> ''d/a.md'' \<notin> tracked (index st) \<and> map fst (notes (index st)) = [''b.md''] \<and> submitted st = [(''d/a.md'', Remove)]"
proof -
  obtain st where st: "stage_event plain_deps (\<lambda>_ _. False) (\<lambda>_. []) sample_watch (sample_event gone) (start two_notes) = Some st"
    and left: "\<forall>q \<in> tracked (index st). q \<noteq> [] \<and> path_starts_with q ''d'' \<and> (''d'' \<notin> tracked two_notes \<or> q = ''d'') \<longrightarrow>
         regular_file (file_view gone q) \<or> undecided (file_view gone q)"
    using watch_event_no_ghosts [OF two_notes_inv plain_folds sample_relative sample_fields(1,2) gone_ok]
    unfolding sample_fields(3) by blast
  have "path_starts_with ''d/a.md'' ''d''" by code_simp
  moreover have "\<not> regular_file (file_view gone ''d/a.md'')" "\<not> undecided (file_view gone ''d/a.md'')" by code_simp+
  ultimately have "''d/a.md'' \<notin> tracked (index st)" using left two_notes_tracked by auto
  then show ?thesis using st gone_result by simp
qed

text \<open>
  Property C15. On a disk whose names are exact, an event finds every file: each visible regular file
  that the disk shows at the reported path or in the directories below it is tracked after the
  event, or the event has logged a warning for the file or for the reported path; and no path
  outside the reported one starts or stops being tracked.
\<close>

theorem watch_event_finds_files:
  assumes "index_inv env (index st)" and "folds_by_name env"
    and "visible_relative_path (vault_root watch) (absolute ev) = Inr (Some rel)"
    and "\<not> poisoned ev" and "filesystem ev = Inr disk" and "disk_ok disk" and "exact_names disk"
  shows "\<exists>st'. stage_event env sm sh watch ev st = Some st'
    \<and> (\<forall>q. present disk rel q \<and> is_visible_path q \<and> regular_file (file_view disk q) \<longrightarrow>
         q \<in> tracked (index st') \<or> q \<in> fst ` set (warned st') \<or> absolute ev \<in> fst ` set (warned st'))
    \<and> (\<forall>q. \<not> path_starts_with q rel \<longrightarrow> (q \<in> tracked (index st') \<longleftrightarrow> q \<in> tracked (index st)))"
  using stage_event_result [OF assms(1-6)] assms(7) unfolding reconciled_def by blast

theorem watch_event_finds_files_witness:
  "\<exists>st. stage_event plain_deps (\<lambda>_ _. False) (\<lambda>_. []) sample_watch (sample_event replaced) (start two_notes) = Some st
     \<and> ''d/n.md'' \<in> tracked (index st) \<and> ''b.md'' \<in> tracked (index st)"
proof -
  obtain st where st: "stage_event plain_deps (\<lambda>_ _. False) (\<lambda>_. []) sample_watch (sample_event replaced) (start two_notes) = Some st"
    and found: "\<forall>q. present replaced ''d'' q \<and> is_visible_path q \<and> regular_file (file_view replaced q) \<longrightarrow>
         q \<in> tracked (index st) \<or> q \<in> fst ` set (warned st) \<or> absolute (sample_event replaced) \<in> fst ` set (warned st)"
    and kept: "\<forall>q. \<not> path_starts_with q ''d'' \<longrightarrow> (q \<in> tracked (index st) \<longleftrightarrow> q \<in> tracked two_notes)"
    using watch_event_finds_files [OF two_notes_inv plain_folds sample_relative sample_fields(1,2) replaced_ok]
    unfolding sample_fields(3) by blast
  have "warned st = []" using st replaced_result by (simp add: replaced_stage)
  moreover have "listed (disk_tree replaced) ''d'' ''d/n.md'' KindFile"
  proof -
    have "is_visible_path ''n.md''" "portable_native (native_join ''d'' ''n.md'') = Inr ''d/n.md''" by code_simp+
    then show ?thesis by (simp add: listed_def replaced_def)
  qed
  then have "present replaced ''d'' ''d/n.md''"
    by (simp add: present_def replaced_def below.here)
  moreover have "is_visible_path ''d/n.md''" "regular_file (file_view replaced ''d/n.md'')" "\<not> path_starts_with ''b.md'' ''d''"
    by code_simp+
  ultimately have "''d/n.md'' \<in> tracked (index st)" "''b.md'' \<in> tracked (index st)"
    using found kept two_notes_tracked by auto
  with st show ?thesis by blast
qed

text \<open>
  Property C16. A debounced batch always returns, whatever its events report and whatever the (finite)
  disk answers at each of them, and leaves a consistent index; and when the batch staged changes and the
  lexical commit succeeded, no note remains held back whose lexical document that commit covers.
\<close>

theorem reconcile_events_returns:
  assumes "index_inv env ix" and "folds_by_name env" and "list_all sane_event evs"
  shows "\<exists>st. reconcile_events env sm sh watch evs flush ix = Some st \<and> index_inv env (index st)
    \<and> (dirty st \<and> searching watch \<and> embedding watch \<and> flush = Inr committed \<longrightarrow>
         (\<forall>(p, stamp) \<in> set (waiting_for_lexical (index st)). committed < stamp))"
  by (rule reconcile_events_result [OF assms])

theorem reconcile_events_returns_witness:
  "\<exists>st. reconcile_events plain_deps (\<lambda>_ _. False) (\<lambda>_. []) sample_watch [sample_event replaced] (Inr 5) two_notes = Some st
     \<and> index_inv plain_deps (index st) \<and> waiting_for_lexical (index st) = []
     \<and> submitted st = [(''d/a.md'', Remove), (''d/n.md'', AwaitingLexical), (''d/n.md'', Upsert)]"
proof -
  have "list_all sane_event [sample_event replaced]" by (simp add: sane_event_def replaced_ok)
  then obtain st where st: "reconcile_events plain_deps (\<lambda>_ _. False) (\<lambda>_. []) sample_watch [sample_event replaced]
        (Inr 5) two_notes = Some st" and inv: "index_inv plain_deps (index st)"
    using reconcile_events_returns [OF reachable_inv [OF two_notes_reachable] plain_folds] by blast
  define staged where "staged = stage_paths plain_deps (\<lambda>_ _. False) (\<lambda>_. []) sample_watch replaced sample_changes
        (start (open_watch_paths plain_deps two_notes))"
  obtain ix where p: "publish_embedding_upserts 5 (index staged) = ([''d/n.md''], ix)" "waiting_for_lexical ix = []"
    using replaced_ready unfolding staged_def [symmetric]
    by (cases "publish_embedding_upserts 5 (index staged)") simp
  have "dirty staged" "submitted staged = [(''d/a.md'', Remove), (''d/n.md'', AwaitingLexical)]"
    using replaced_result unfolding staged_def [symmetric] by simp_all
  then have "reconcile_events plain_deps (\<lambda>_ _. False) (\<lambda>_. []) sample_watch [sample_event replaced] (Inr 5) two_notes
      = Some (staged \<lparr> submitted := submitted staged @ [(''d/n.md'', Upsert)], index := ix \<rparr>)"
    using replaced_stage p
    by (simp add: reconcile_events_def start_def [symmetric] staged_def [symmetric])
      (simp add: sample_watch_def)
  with st inv p(2) \<open>submitted staged = _\<close> show ?thesis by auto
qed

end
